(* ===== verification/Prelude.thy ===== *)
theory Prelude
  imports Main "HOL-Library.Multiset" "HOL-Library.Code_Target_Nat"
begin

text \<open>
  Shared vocabulary of the development: the errors the HTTP handlers throw and the result type of
  a handler that may throw; the string operations of JavaScript that the sources use
  (\<open>split\<close>, \<open>indexOf\<close>, \<open>lastIndexOf\<close>, \<open>slice\<close>, \<open>startsWith\<close>, decimal and hexadecimal
  conversions); and \<open>Array.prototype.sort\<close>, which is a stable sort for a consistent comparator,
  as an insertion sort over a comparison predicate, with the contract \<open>comparator\<close> that makes
  its result sorted.

  A JavaScript string is a list of characters here. The sources compare, cut and scan strings;
  all the syntax they look for is ASCII, so the alphabet beyond it is immaterial.
\<close>

named_theorems js_string \<open>rewriting of the JavaScript string operations\<close>
named_theorems bounds \<open>range facts of parsed and computed numbers\<close>

section \<open>Errors and results\<close>

text \<open>\<^verbatim>\<open>http-error.ts\<close>: an error with an HTTP status.\<close>

datatype http_error = HttpError (statusCode: int) (message: string)

definition badRequest :: "string \<Rightarrow> http_error" where
  "badRequest msg = HttpError 400 msg"

type_synonym 'a result = "http_error + 'a"

definition bind_res :: "'e + 'a \<Rightarrow> ('a \<Rightarrow> 'e + 'b) \<Rightarrow> 'e + 'b" where
  "bind_res r f = (case r of Inl e \<Rightarrow> Inl e | Inr x \<Rightarrow> f x)"

lemma bind_res_simps [simp]: "bind_res (Inl e) f = Inl e" "bind_res (Inr x) f = f x"
  by (simp_all add: bind_res_def)

lemma bind_res_cong [fundef_cong]:
  "x = y \<Longrightarrow> (\<And>v. y = Inr v \<Longrightarrow> f v = g v) \<Longrightarrow> bind_res x f = bind_res y g"
  by (cases y) (auto simp: bind_res_def)

lemma bind_res_Inr_iff:
  "bind_res r f = Inr y \<longleftrightarrow> (\<exists>x. r = Inr x \<and> f x = Inr y)"
  by (cases r) auto

lemma bind_res_Inl_iff:
  "bind_res r f = Inl e \<longleftrightarrow> r = Inl e \<or> (\<exists>x. r = Inr x \<and> f x = Inl e)"
  by (cases r) auto

lemma bind_res_InrE [elim!]:
  assumes "bind_res r f = Inr y" obtains x where "r = Inr x" "f x = Inr y"
  using assms by (auto simp: bind_res_Inr_iff)

section \<open>Strings\<close>

definition starts_with :: "string \<Rightarrow> string \<Rightarrow> bool" where
  "starts_with p s \<longleftrightarrow> take (length p) s = p"

text \<open>\<open>s.split(sep)\<close> for a separator of one or more characters, left to right.\<close>

function split_acc :: "string \<Rightarrow> string \<Rightarrow> string \<Rightarrow> string list" where
  "split_acc sep acc [] = [rev acc]"
| "split_acc sep acc (c # cs) =
     (if starts_with sep (c # cs) then rev acc # split_acc sep [] (drop (length sep - 1) cs)
      else split_acc sep (c # acc) cs)"
  by pat_completeness auto
termination
  by (relation "measure (\<lambda>(sep, acc, s). length s)") auto

definition split :: "string \<Rightarrow> string \<Rightarrow> string list" where
  "split sep s = split_acc sep [] s"

text \<open>\<open>s.split(c)\<close> for a single character.\<close>

fun split_char :: "char \<Rightarrow> string \<Rightarrow> string list" where
  "split_char c [] = [[]]"
| "split_char c (x # xs) =
     (if x = c then [] # split_char c xs
      else case split_char c xs of [] \<Rightarrow> [[x]] | w # ws \<Rightarrow> (x # w) # ws)"

text \<open>\<open>parts.join(c)\<close>.\<close>

fun join :: "string \<Rightarrow> string list \<Rightarrow> string" where
  "join sep [] = []"
| "join sep [w] = w"
| "join sep (w # ws) = w @ sep @ join sep ws"

text \<open>\<open>indexOf\<close> and \<open>lastIndexOf\<close> of a character: \<open>None\<close> is the \<open>-1\<close> of JavaScript.\<close>

fun index_of :: "char \<Rightarrow> string \<Rightarrow> nat option" where
  "index_of c [] = None"
| "index_of c (x # xs) = (if x = c then Some 0 else map_option Suc (index_of c xs))"

definition index_of_from :: "char \<Rightarrow> nat \<Rightarrow> string \<Rightarrow> nat option" where
  "index_of_from c i s = map_option (\<lambda>j. i + j) (index_of c (drop i s))"

text \<open>\<open>s.indexOf(t)\<close> of a substring.\<close>

fun index_of_str :: "string \<Rightarrow> string \<Rightarrow> nat option" where
  "index_of_str t [] = (if t = [] then Some 0 else None)"
| "index_of_str t (x # xs) = (if starts_with t (x # xs) then Some 0 else map_option Suc (index_of_str t xs))"

text \<open>\<open>s.trim()\<close>: the white space and line terminators of the 8-bit range.\<close>

definition is_space :: "char \<Rightarrow> bool" where
  "is_space c \<longleftrightarrow> (of_char c :: nat) \<in> {9, 10, 11, 12, 13, 32, 160}"

definition trim :: "string \<Rightarrow> string" where
  "trim s = rev (dropWhile is_space (rev (dropWhile is_space s)))"

definition last_index_of :: "char \<Rightarrow> string \<Rightarrow> nat option" where
  "last_index_of c s = map_option (\<lambda>j. length s - Suc j) (index_of c (rev s))"

lemma split_char_neq_Nil [simp]: "split_char c s \<noteq> []"
  by (cases s) (auto split: list.splits)

lemma split_char_no_sep: "c \<notin> set s \<Longrightarrow> split_char c s = [s]"
  by (induction s) auto

lemma split_char_append:
  "c \<notin> set w \<Longrightarrow> split_char c (w @ c # s) = w # split_char c s"
  by (induction w) auto

lemma split_char_join:
  "ws \<noteq> [] \<Longrightarrow> \<forall>w \<in> set ws. c \<notin> set w \<Longrightarrow> split_char c (join [c] ws) = ws"
proof (induction "[c]" ws rule: join.induct)
  case (3 w v vs)
  then show ?case by (simp add: split_char_append)
qed (auto simp: split_char_no_sep)

lemma split_char_pieces: "w \<in> set (split_char c s) \<Longrightarrow> c \<notin> set w"
  by (induction s arbitrary: w) (auto split: if_splits list.splits)

lemma join_split_char: "join [c] (split_char c s) = s"
proof (induction s)
  case (Cons x xs)
  show ?case
  proof (cases "split_char c xs")
    case (Cons w ws)
    with Cons.IH show ?thesis by (cases ws) auto
  qed simp
qed simp

lemma set_split_char: "w \<in> set (split_char c s) \<Longrightarrow> set w \<subseteq> set s"
  by (induction s arbitrary: w) (fastforce split: if_splits list.splits)+

lemma index_of_None_iff [simp]: "index_of c s = None \<longleftrightarrow> c \<notin> set s"
  by (induction s) auto

lemma map_option_add_0 [simp]: "map_option ((+) (0::nat)) x = x"
  by (cases x) auto

lemma index_of_append:
  "index_of c (xs @ ys) =
     (if c \<in> set xs then index_of c xs else map_option (\<lambda>j. length xs + j) (index_of c ys))"
  by (induction xs) (auto simp: option.map_comp comp_def option.map_ident)

lemma index_of_SomeD:
  "index_of c s = Some i \<Longrightarrow> i < length s \<and> s ! i = c \<and> c \<notin> set (take i s)"
  by (induction s arbitrary: i) (auto split: if_splits simp: nth_Cons')

lemma last_index_of_append:
  assumes "c \<notin> set ys"
  shows "last_index_of c (xs @ c # ys) = Some (length xs)"
  using assms by (simp add: last_index_of_def index_of_append)

lemma last_index_of_None [simp]: "last_index_of c s = None \<longleftrightarrow> c \<notin> set s"
  by (simp add: last_index_of_def)

lemma last_index_of_SomeD:
  assumes "last_index_of c s = Some i"
  shows "i < length s \<and> s ! i = c \<and> c \<notin> set (drop (Suc i) s)"
proof -
  from assms obtain j where j: "index_of c (rev s) = Some j" and i: "i = length s - Suc j"
    by (auto simp: last_index_of_def)
  from index_of_SomeD [OF j] have lt: "j < length s" and nth: "rev s ! j = c"
    and no: "c \<notin> set (take j (rev s))" by auto
  have "s ! i = c" using nth lt by (simp add: rev_nth i)
  moreover have "take j (rev s) = rev (drop (Suc i) s)"
    using lt by (simp add: take_rev i Suc_diff_Suc)
  ultimately show ?thesis using lt no i by (simp add: i)
qed

section \<open>Digits\<close>

definition is_digit :: "char \<Rightarrow> bool" where
  "is_digit c \<longleftrightarrow> 48 \<le> (of_char c :: nat) \<and> (of_char c :: nat) \<le> 57"

definition digit_val :: "char \<Rightarrow> nat" where
  "digit_val c = of_char c - 48"

definition dec_val :: "string \<Rightarrow> nat" where
  "dec_val s = foldl (\<lambda>n c. n * 10 + digit_val c) 0 s"

text \<open>The regular expression \<open>^\d{lo,hi}$\<close>, and \<open>^\d+$\<close>.\<close>

definition digits_between :: "nat \<Rightarrow> nat \<Rightarrow> string \<Rightarrow> bool" where
  "digits_between lo hi s \<longleftrightarrow> lo \<le> length s \<and> length s \<le> hi \<and> list_all is_digit s"

definition all_digits :: "string \<Rightarrow> bool" where
  "all_digits s \<longleftrightarrow> s \<noteq> [] \<and> list_all is_digit s"

definition digit_char :: "nat \<Rightarrow> char" where
  "digit_char n = char_of (48 + n)"

text \<open>\<open>String(n)\<close> of a non-negative integer.\<close>

fun string_of_nat :: "nat \<Rightarrow> string" where
  "string_of_nat n = (if n < 10 then [digit_char n] else string_of_nat (n div 10) @ [digit_char (n mod 10)])"

declare string_of_nat.simps [simp del]

lemma of_char_digit_char: "n < 10 \<Longrightarrow> (of_char (digit_char n) :: nat) = 48 + n"
  by (simp add: digit_char_def)

lemma digit_char_simps [simp]:
  "n < 10 \<Longrightarrow> is_digit (digit_char n)" "n < 10 \<Longrightarrow> digit_val (digit_char n) = n"
  by (simp_all add: is_digit_def digit_val_def of_char_digit_char)

lemma digit_val_less: "is_digit c \<Longrightarrow> digit_val c < 10"
  by (auto simp: is_digit_def digit_val_def)

lemma dec_val_Nil [simp]: "dec_val [] = 0"
  by (simp add: dec_val_def)

lemma dec_val_snoc [simp]: "dec_val (s @ [c]) = dec_val s * 10 + digit_val c"
  by (simp add: dec_val_def)

lemma dec_val_less: "list_all is_digit s \<Longrightarrow> dec_val s < 10 ^ length s"
proof (induction s rule: rev_induct)
  case (snoc c s)
  then have "dec_val s < 10 ^ length s" "digit_val c < 10" by (auto intro: digit_val_less)
  then show ?case by simp
qed simp

lemma string_of_nat_digits: "list_all is_digit (string_of_nat n)"
proof (induction n rule: string_of_nat.induct)
  case (1 n)
  then show ?case by (cases "n < 10") (auto simp: string_of_nat.simps [of n])
qed

lemma string_of_nat_neq_Nil [simp]: "string_of_nat n \<noteq> []"
  by (simp add: string_of_nat.simps [of n])

lemma dec_val_string_of_nat [simp]: "dec_val (string_of_nat n) = n"
proof (induction n rule: string_of_nat.induct)
  case (1 n)
  then show ?case
    by (cases "n < 10") (auto simp: string_of_nat.simps [of n] dec_val_snoc [of "[]", simplified])
qed

lemma length_string_of_nat: "n < 10 ^ k \<Longrightarrow> 0 < k \<Longrightarrow> length (string_of_nat n) \<le> k"
proof (induction n arbitrary: k rule: string_of_nat.induct)
  case (1 n)
  show ?case
  proof (cases "n < 10")
    case True
    with 1 show ?thesis by (simp add: string_of_nat.simps [of n])
  next
    case False
    then obtain j where k: "k = Suc j" "0 < j"
      using 1 by (cases k; cases "k - 1") auto
    with 1 have "n div 10 < 10 ^ j" by auto
    with False k "1.IH" [of j] show ?thesis by (simp add: string_of_nat.simps [of n])
  qed
qed

lemma string_of_nat_between: "n < 10 ^ k \<Longrightarrow> 0 < k \<Longrightarrow> digits_between (Suc 0) k (string_of_nat n)"
  by (simp add: digits_between_def string_of_nat_digits length_string_of_nat Suc_le_eq)

lemma not_digit [simp]:
  "\<not> is_digit CHR ''.''" "\<not> is_digit CHR '':''" "\<not> is_digit CHR ''-''" "\<not> is_digit CHR '',''"
  "\<not> is_digit CHR ''[''" "\<not> is_digit CHR '']''"
  by (simp_all add: is_digit_def)

lemma not_in_digits: "\<not> is_digit c \<Longrightarrow> list_all is_digit s \<Longrightarrow> c \<notin> set s"
  by (auto simp: list_all_iff)

section \<open>Stable sorting\<close>

text \<open>
  \<open>xs.sort(cmp)\<close>. \<open>le x y\<close> stands for \<open>cmp(x, y) <= 0\<close>. ECMAScript (since 2019) requires
  the sort to be stable, so for a consistent comparator the result is determined.
\<close>

fun insert_by :: "('a \<Rightarrow> 'a \<Rightarrow> bool) \<Rightarrow> 'a \<Rightarrow> 'a list \<Rightarrow> 'a list" where
  "insert_by le x [] = [x]"
| "insert_by le x (y # ys) = (if le x y then x # y # ys else y # insert_by le x ys)"

definition sort_by :: "('a \<Rightarrow> 'a \<Rightarrow> bool) \<Rightarrow> 'a list \<Rightarrow> 'a list" where
  "sort_by le xs = foldr (insert_by le) xs []"

lemma sort_by_Nil [simp]: "sort_by le [] = []"
  by (simp add: sort_by_def)

lemma sort_by_Cons [simp]: "sort_by le (x # xs) = insert_by le x (sort_by le xs)"
  by (simp add: sort_by_def)

lemma mset_insert_by [simp]: "mset (insert_by le x ys) = add_mset x (mset ys)"
  by (induction ys) auto

lemma mset_sort_by [simp]: "mset (sort_by le xs) = mset xs"
  by (induction xs) auto

lemma set_sort_by [simp]: "set (sort_by le xs) = set xs"
  by (metis mset_sort_by set_mset_mset)

lemma length_sort_by [simp]: "length (sort_by le xs) = length xs"
  by (metis mset_sort_by size_mset)

lemma sum_list_map_sort_by [simp]:
  "sum_list (map f (sort_by le xs)) = sum_list (map (f :: 'a \<Rightarrow> 'b::comm_monoid_add) xs)"
  by (metis mset_map mset_sort_by sum_mset_sum_list)

lemma distinct_sort_by [simp]: "distinct (sort_by le xs) \<longleftrightarrow> distinct xs"
  by (metis mset_eq_imp_distinct_iff mset_sort_by)

text \<open>The contract of a comparator: any two elements compare, and consistently.\<close>

locale comparator =
  fixes le :: "'a \<Rightarrow> 'a \<Rightarrow> bool"
  assumes total: "le x y \<or> le y x"
    and trans: "le x y \<Longrightarrow> le y z \<Longrightarrow> le x z"
begin

lemma refl: "le x x"
  using total [of x x] by simp

lemma insert_by_sorted: "sorted_wrt le ys \<Longrightarrow> sorted_wrt le (insert_by le x ys)"
proof (induction ys)
  case (Cons y ys)
  show ?case
  proof (cases "le x y")
    case True
    with Cons.prems show ?thesis by (auto intro: trans)
  next
    case False
    then have "le y x" using total by blast
    moreover have "set (insert_by le x ys) = insert x (set ys)"
      by (metis mset_insert_by set_mset_add_mset_insert set_mset_mset)
    ultimately show ?thesis using Cons False by auto
  qed
qed simp

lemma sort_by_sorted: "sorted_wrt le (sort_by le xs)"
  by (induction xs) (auto intro: insert_by_sorted)

lemma sort_by_id: "sorted_wrt le xs \<Longrightarrow> sort_by le xs = xs"
proof (induction xs)
  case (Cons x xs)
  then show ?case by (cases xs) auto
qed simp

text \<open>Stability: elements that compare equal keep their order.\<close>

lemma insert_by_filter:
  assumes "sorted_wrt le ys"
  shows "filter (\<lambda>y. le y k \<and> le k y) (insert_by le x ys) =
    (if le x k \<and> le k x then [x] else []) @ filter (\<lambda>y. le y k \<and> le k y) ys"
  using assms
proof (induction ys)
  case (Cons y ys)
  show ?case
  proof (cases "le x y")
    case False
    then have "\<not> (le x k \<and> le k x \<and> le y k \<and> le k y)" by (meson trans)
    with False Cons show ?thesis
      by (auto dest: trans)
  qed auto
qed auto

lemma sort_by_stable:
  "filter (\<lambda>y. le y k \<and> le k y) (sort_by le xs) = filter (\<lambda>y. le y k \<and> le k y) xs"
  by (induction xs) (auto simp: insert_by_filter sort_by_sorted)

end

text \<open>The comparator of a sort by a numeric key, ascending or (with a negated key) descending.\<close>

lemma comparator_key: "comparator (\<lambda>x y. (f x :: 'b::linorder) \<le> f y)"
  by unfold_locales auto

lemma comparator_key_desc: "comparator (\<lambda>x y. (f y :: 'b::linorder) \<le> f x)"
  by unfold_locales auto

text \<open>
  A comparator \<open>x || y\<close> that decides by \<open>x\<close> and, when that is 0, by \<open>y\<close>; the usual parts are a key
  in ascending or descending order, and \<open>localeCompare\<close> on a key (a parameter, \<open>collator\<close> when it
  is a consistent order).
\<close>

definition asc_by :: "('a \<Rightarrow> 'b::linorder) \<Rightarrow> 'a \<Rightarrow> 'a \<Rightarrow> bool" where
  "asc_by f x y \<longleftrightarrow> f x \<le> f y"

definition desc_by :: "('a \<Rightarrow> 'b::linorder) \<Rightarrow> 'a \<Rightarrow> 'a \<Rightarrow> bool" where
  "desc_by f x y \<longleftrightarrow> f y \<le> f x"

definition by_then :: "('a \<Rightarrow> 'a \<Rightarrow> bool) \<Rightarrow> ('a \<Rightarrow> 'a \<Rightarrow> bool) \<Rightarrow> 'a \<Rightarrow> 'a \<Rightarrow> bool" where
  "by_then le le' x y \<longleftrightarrow> le x y \<and> (le y x \<longrightarrow> le' x y)"

definition collate :: "(string \<Rightarrow> string \<Rightarrow> int) \<Rightarrow> ('a \<Rightarrow> string) \<Rightarrow> 'a \<Rightarrow> 'a \<Rightarrow> bool" where
  "collate lc f x y \<longleftrightarrow> lc (f x) (f y) \<le> 0"

definition collator :: "(string \<Rightarrow> string \<Rightarrow> int) \<Rightarrow> bool" where
  "collator lc \<longleftrightarrow> (\<forall>s t. lc s t \<le> 0 \<or> lc t s \<le> 0) \<and> (\<forall>s t u. lc s t \<le> 0 \<longrightarrow> lc t u \<le> 0 \<longrightarrow> lc s u \<le> 0)"

lemma comparator_asc_by [simp, intro]: "comparator (asc_by f)"
  and comparator_desc_by [simp, intro]: "comparator (desc_by f)"
  by (unfold_locales; auto simp: asc_by_def desc_by_def)+

lemma comparator_collate: "collator lc \<Longrightarrow> comparator (collate lc f)"
  by unfold_locales (auto simp: collator_def collate_def)

lemma comparator_by_then:
  assumes "comparator le" and "comparator le'"
  shows "comparator (by_then le le')"
  using assms unfolding comparator_def by_then_def by meson

lemma sorted_by_then: "sorted_wrt (by_then le le') xs \<Longrightarrow> sorted_wrt le xs"
  by (rule sorted_wrt_mono_rel [of xs "by_then le le'"]) (auto simp: by_then_def)

lemma sort_by_sorted_wrt: "comparator le \<Longrightarrow> sorted_wrt le (sort_by le xs)"
  by (rule comparator.sort_by_sorted)

text \<open>A consistent order of texts, for examples.\<close>

definition lc_codes :: "string \<Rightarrow> string \<Rightarrow> int" where
  "lc_codes s t = int (length s) - int (length t)"

lemma collator_lc_codes: "collator lc_codes"
  by (auto simp: collator_def lc_codes_def)

section \<open>Runs\<close>

text \<open>
  The contract of an event handler: it keeps an invariant of the state. Then so does every
  sequence of events, handled in order.
\<close>

locale handler =
  fixes step :: "'e \<Rightarrow> 's \<Rightarrow> 's" and inv :: "'s \<Rightarrow> bool"
  assumes keeps: "inv s \<Longrightarrow> inv (step e s)"
begin

lemma run_keeps: "inv s \<Longrightarrow> inv (fold step es s)"
  by (induction es arbitrary: s) (simp_all add: keeps)

end

end
