(* ===== verification/JS_Number.thy ===== *)
theory JS_Number
  imports Complex_Main Prelude "HOL-Library.Log_Nat"
begin

text \<open>
  JavaScript numbers. A finite number is a rational; an operation on numbers is the exact
  operation followed by \<open>fl\<close>, rounding to the nearest number with a 53-bit significand, ties to
  even, which is what IEEE 754 and ECMAScript prescribe for binary64. The exponent is unbounded:
  subnormal numbers, and an arithmetic result beyond \<open>2^1024\<close>, are out of the model, and no
  quantity the program computes comes near either. A number that is \<^emph>\<open>read\<close> from a text may be
  as large as the text likes, so \<open>Number(s)\<close> has its overflow to infinity. The one place where a
  division by zero matters is guarded in the source, and the model has the guard.

  \<open>rounding\<close> is the contract the components rely on (monotone, odd, exact on integers up to
  \<open>2^53\<close>, relative error at most \<open>2^-53\<close>); its lemmas say that a floor, a ceiling or a round
  of a quotient of safe integers is the exact integer quotient.
\<close>

section \<open>Rounding to binary64\<close>

definition ilog2 :: "rat \<Rightarrow> int" where
  "ilog2 x = (case quotient_of x of (a, b) \<Rightarrow>
     let k = bitlen a - bitlen b in if 2 powi k \<le> x then k else k - 1)"

definition rne :: "rat \<Rightarrow> int" where
  "rne x = (let f = \<lfloor>x\<rfloor>; d = x - of_int f in
     if d < 1 / 2 then f else if 1 / 2 < d then f + 1 else if even f then f else f + 1)"

definition fl :: "rat \<Rightarrow> rat" where
  "fl x = (if x = 0 then 0 else
     let e = ilog2 \<bar>x\<bar> - 52 in of_int (rne (x / 2 powi e)) * 2 powi e)"

lemma powi2_less_iff [simp]: "((2::rat) powi m < 2 powi n) \<longleftrightarrow> m < n"
  by (metis linorder_not_le one_less_numeral_iff power_int_increasing power_int_strict_increasing
      semiring_norm(76) less_imp_le)

lemma powi2_le_iff [simp]: "((2::rat) powi m \<le> 2 powi n) \<longleftrightarrow> m \<le> n"
  by (simp flip: linorder_not_less)

lemma powi_bitlen:
  assumes "0 < a"
  shows "2 powi (bitlen a - 1) \<le> (of_int a :: rat)" and "(of_int a :: rat) < 2 powi bitlen a"
proof -
  have b: "2 ^ nat (bitlen a - 1) \<le> a" "a < 2 ^ nat (bitlen a)"
    using bitlen_bounds [OF assms] by auto
  have pos: "0 < bitlen a"
    using assms by (metis bitlen_eq_zero_iff bitlen_nonneg linorder_not_le order_le_less)
  have "(2::rat) powi (bitlen a - 1) = of_int (2 ^ nat (bitlen a - 1))"
    using pos by (simp add: power_int_def)
  with b(1) show "2 powi (bitlen a - 1) \<le> (of_int a :: rat)" by (simp only: of_int_le_iff)
  have "(2::rat) powi bitlen a = of_int (2 ^ nat (bitlen a))"
    using pos by (simp add: power_int_def)
  with b(2) show "(of_int a :: rat) < 2 powi bitlen a" by (simp only: of_int_less_iff)
qed

lemma ilog2_bounds:
  assumes "0 < x"
  shows "2 powi ilog2 x \<le> x" and "x < 2 powi (ilog2 x + 1)"
proof -
  obtain a b where ab: "quotient_of x = (a, b)" by (cases "quotient_of x")
  then have x: "x = of_int a / of_int b" and b: "0 < b"
    by (auto simp: quotient_of_div quotient_of_denom_pos)
  from assms x b have a: "0 < a" by (simp add: zero_less_divide_iff)
  define k where "k = bitlen a - bitlen b"
  note A = powi_bitlen [OF a] and B = powi_bitlen [OF b]
  have "(2::rat) powi (k - 1) = 2 powi (bitlen a - 1) / 2 powi bitlen b"
    by (simp add: k_def power_int_diff [symmetric] algebra_simps)
  also have "\<dots> \<le> of_int a / of_int b"
    using A B a b by (intro frac_le) (auto intro: less_imp_le)
  finally have lo: "2 powi (k - 1) \<le> x" by (simp add: x)
  have "of_int a / of_int b < (2 powi bitlen a :: rat) / 2 powi (bitlen b - 1)"
    using A B a by (intro frac_less) (auto intro: less_imp_le)
  also have "\<dots> = 2 powi (k + 1)"
    by (simp add: k_def power_int_diff [symmetric] algebra_simps)
  finally have hi: "x < 2 powi (k + 1)" by (simp add: x)
  have il: "ilog2 x = (if 2 powi k \<le> x then k else k - 1)"
    by (simp add: ilog2_def ab k_def Let_def)
  show "2 powi ilog2 x \<le> x" using lo by (simp add: il)
  show "x < 2 powi (ilog2 x + 1)" using hi by (simp add: il)
qed

lemma ilog2_unique:
  assumes "2 powi k \<le> x" "x < 2 powi (k + 1)"
  shows "ilog2 x = k"
proof -
  have pos: "0 < x" using assms(1) by (meson less_le_trans zero_less_numeral zero_less_power_int)
  note b = ilog2_bounds [OF pos]
  have "(2::rat) powi ilog2 x < 2 powi (k + 1)" "(2::rat) powi k < 2 powi (ilog2 x + 1)"
    using order.strict_trans1 [OF b(1) assms(2)] order.strict_trans1 [OF assms(1) b(2)] by auto
  then show ?thesis by simp
qed

lemma rne_error: "\<bar>of_int (rne x) - x\<bar> \<le> 1 / 2"
  by (auto simp: rne_def Let_def abs_if) linarith+

lemma rne_of_int [simp]: "rne (of_int n) = n"
  by (simp add: rne_def)

lemma rne_numeral [simp]: "rne (numeral n) = numeral n"
  using rne_of_int [of "numeral n"] by simp

lemma rne_floor: "\<lfloor>x\<rfloor> \<le> rne x" "rne x \<le> \<lfloor>x\<rfloor> + 1"
  by (auto simp: rne_def Let_def)

lemma rne_mono: "x \<le> y \<Longrightarrow> rne x \<le> rne y"
proof (cases "\<lfloor>x\<rfloor> = \<lfloor>y\<rfloor>")
  case True
  assume "x \<le> y"
  with True show ?thesis by (auto simp: rne_def Let_def)
next
  case False
  assume "x \<le> y"
  with False have "\<lfloor>x\<rfloor> + 1 \<le> \<lfloor>y\<rfloor>" using floor_mono [of x y] by simp
  with rne_floor [of x] rne_floor [of y] show ?thesis by linarith
qed

lemma rne_minus: "rne (- x) = - rne x"
proof (cases "x = of_int \<lfloor>x\<rfloor>")
  case True
  then have "rne (- of_int \<lfloor>x\<rfloor>) = - rne (of_int \<lfloor>x\<rfloor>)"
    by (metis of_int_minus rne_of_int)
  with True show ?thesis by metis
next
  case False
  then have f: "\<lfloor>- x\<rfloor> = - \<lfloor>x\<rfloor> - 1" by (simp add: floor_minus ceiling_altdef)
  show ?thesis unfolding rne_def Let_def f by (auto simp: field_simps)
qed

lemma fl_0 [simp]: "fl 0 = 0"
  by (simp add: fl_def)

lemma fl_minus: "fl (- x) = - fl x"
  by (simp add: fl_def rne_minus Let_def)

lemma fl_error: "\<bar>fl x - x\<bar> \<le> \<bar>x\<bar> / 2 ^ 53"
proof (cases "x = 0")
  case False
  define e where "e = ilog2 \<bar>x\<bar> - 52"
  have x: "x = (x / 2 powi e) * 2 powi e" by simp
  have "fl x - x = (of_int (rne (x / 2 powi e)) - x / 2 powi e) * 2 powi e"
    using False by (simp add: fl_def e_def Let_def algebra_simps)
  then have "\<bar>fl x - x\<bar> = \<bar>of_int (rne (x / 2 powi e)) - x / 2 powi e\<bar> * 2 powi e"
    by (simp add: abs_mult)
  also have "\<dots> \<le> 1 / 2 * 2 powi e"
    by (intro mult_right_mono rne_error) simp
  also have "\<dots> = 2 powi ilog2 \<bar>x\<bar> / 2 ^ 53"
    by (simp add: e_def power_int_diff)
  also have "\<dots> \<le> \<bar>x\<bar> / 2 ^ 53"
    using ilog2_bounds(1) [of "\<bar>x\<bar>"] False by (intro divide_right_mono) auto
  finally show ?thesis .
qed simp

text \<open>A number with a significand of at most 53 bits is kept.\<close>

lemma fl_exact:
  assumes "\<bar>m\<bar> \<le> 2 ^ 53"
  shows "fl (of_int m * 2 powi k) = of_int m * 2 powi k"
proof (cases "m = 0")
  case False
  define l where "l = ilog2 (of_int \<bar>m\<bar>)"
  have pos: "(0::rat) < of_int \<bar>m\<bar>" using False by simp
  note b = ilog2_bounds [OF pos, folded l_def]
  have abs: "\<bar>of_int m * 2 powi k :: rat\<bar> = of_int \<bar>m\<bar> * 2 powi k" by (simp add: abs_mult)
  have l: "ilog2 \<bar>of_int m * 2 powi k\<bar> = l + k"
    unfolding abs
  proof (rule ilog2_unique)
    show "2 powi (l + k) \<le> (of_int \<bar>m\<bar> * 2 powi k :: rat)"
      using b(1) by (simp add: power_int_add mult_right_mono)
    have "(of_int \<bar>m\<bar> :: rat) * 2 powi k < 2 powi (l + 1) * 2 powi k"
      by (rule mult_strict_right_mono [OF b(2)]) simp
    then show "(of_int \<bar>m\<bar> * 2 powi k :: rat) < 2 powi (l + k + 1)"
      by (simp add: power_int_add [symmetric] algebra_simps)
  qed
  have int: "\<exists>n. of_int m * 2 powi k / 2 powi (l + k - 52) = (of_int n :: rat)"
  proof (cases "l \<le> 52")
    case True
    have "of_int m * 2 powi k / 2 powi (l + k - 52) = (of_int m * 2 powi (52 - l) :: rat)"
      by (simp add: power_int_diff power_int_add field_simps)
    also have "\<dots> = of_int (m * 2 ^ nat (52 - l))" using True by (simp add: power_int_def)
    finally show ?thesis by blast
  next
    case False
    then have "(2::rat) powi 53 \<le> 2 powi l" by (intro power_int_increasing) auto
    also have "\<dots> \<le> of_int \<bar>m\<bar>" by (rule b)
    finally have "(2::int) ^ 53 \<le> \<bar>m\<bar>" by (simp add: power_int_def)
    with assms have m53: "\<bar>m\<bar> = 2 ^ 53" by simp
    then have "l = 53" unfolding l_def by (intro ilog2_unique) (auto simp: power_int_def)
    moreover obtain j where "m = 2 * j" using m53 by (cases "0 \<le> m") (auto intro: that [of "2 ^ 52"] that [of "- (2 ^ 52)"])
    ultimately have "of_int m * 2 powi k / 2 powi (l + k - 52) = (of_int j :: rat)"
      by (simp add: power_int_add)
    then show ?thesis by blast
  qed
  then obtain n where n: "of_int m * 2 powi k / 2 powi (l + k - 52) = (of_int n :: rat)" by blast
  have "fl (of_int m * 2 powi k) = of_int n * 2 powi (l + k - 52)"
    using False by (simp add: fl_def l Let_def n)
  also have "\<dots> = of_int m * 2 powi k" by (simp flip: n)
  finally show ?thesis .
qed simp

lemma fl_of_int [simp]: "\<bar>m\<bar> \<le> 2 ^ 53 \<Longrightarrow> fl (of_int m) = of_int m"
  using fl_exact [of m 0] by simp

lemma fl_pow2 [simp]: "fl (2 powi k) = 2 powi k"
  using fl_exact [of 1 k] by simp

lemma fl_nonneg: "0 \<le> x \<Longrightarrow> 0 \<le> fl x"
proof -
  assume "0 \<le> x"
  then have "rne 0 \<le> rne (x / 2 powi (ilog2 \<bar>x\<bar> - 52))" by (intro rne_mono) simp
  moreover have "rne 0 = 0" using rne_of_int [of 0] by simp
  ultimately show ?thesis by (simp add: fl_def Let_def)
qed

lemma fl_le_pow2:
  assumes "0 < x" "x \<le> 2 powi k" shows "fl x \<le> 2 powi k"
proof (cases "x = 2 powi k")
  case False
  with assms have lt: "x < 2 powi k" by simp
  define e where "e = ilog2 x - 52"
  have "ilog2 x < k"
    using order.strict_trans1 [OF ilog2_bounds(1) [OF assms(1)] lt] by simp
  have "x / 2 powi e \<le> 2 ^ 53"
  proof -
    have "x < 2 powi (ilog2 x + 1)" by (rule ilog2_bounds [OF assms(1)])
    also have "\<dots> = 2 powi e * 2 ^ 53" by (simp add: e_def power_int_diff power_int_add)
    finally show ?thesis by (simp add: field_simps)
  qed
  then have "rne (x / 2 powi e) \<le> 2 ^ 53"
    using rne_mono [of "x / 2 powi e" "of_int (2 ^ 53)"] by simp
  then have "(of_int (rne (x / 2 powi e)) :: rat) \<le> of_int (2 ^ 53)" by (simp only: of_int_le_iff)
  then have "fl x \<le> 2 ^ 53 * 2 powi e"
    using assms(1) by (simp add: fl_def e_def Let_def)
  also have "\<dots> = 2 powi (ilog2 x + 1)" by (simp add: e_def power_int_diff power_int_add)
  also have "\<dots> \<le> 2 powi k" using \<open>ilog2 x < k\<close> by (intro power_int_increasing) auto
  finally show ?thesis .
qed simp

lemma fl_ge_pow2:
  assumes "0 < x" "2 powi k \<le> x" shows "2 powi k \<le> fl x"
proof -
  define e where "e = ilog2 x - 52"
  have "2 ^ 52 * 2 powi e \<le> x"
    using ilog2_bounds(1) [OF assms(1)] by (simp add: e_def power_int_diff)
  then have "2 ^ 52 \<le> x / 2 powi e" by (simp add: field_simps)
  then have "2 ^ 52 \<le> rne (x / 2 powi e)"
    using rne_mono [of "of_int (2 ^ 52)" "x / 2 powi e"] by simp
  then have "(of_int (2 ^ 52) :: rat) \<le> of_int (rne (x / 2 powi e))" by (simp only: of_int_le_iff)
  then have "2 ^ 52 * 2 powi e \<le> fl x" using assms(1) by (simp add: fl_def e_def Let_def)
  moreover have "2 ^ 52 * 2 powi e = (2 powi ilog2 x :: rat)" by (simp add: e_def power_int_diff)
  moreover have "k \<le> ilog2 x"
    using order.strict_trans1 [OF assms(2) ilog2_bounds(2) [OF assms(1)]] by simp
  ultimately show ?thesis by (metis dual_order.trans one_le_numeral power_int_increasing)
qed

lemma fl_mono_pos: assumes "0 < x" "x \<le> y" shows "fl x \<le> fl y"
proof (cases "ilog2 x = ilog2 y")
  case True
  have "rne (x / 2 powi (ilog2 x - 52)) \<le> rne (y / 2 powi (ilog2 x - 52))"
    using assms by (intro rne_mono divide_right_mono) auto
  with assms True show ?thesis by (auto simp: fl_def Let_def)
next
  case False
  have y: "0 < y" using assms by simp
  have "ilog2 x < ilog2 y"
  proof (rule ccontr)
    assume "\<not> ?thesis"
    with False have "ilog2 y + 1 \<le> ilog2 x" by simp
    then have "(2::rat) powi (ilog2 y + 1) \<le> 2 powi ilog2 x" by (intro power_int_increasing) auto
    with ilog2_bounds [OF assms(1)] ilog2_bounds [OF y] assms(2) show False by linarith
  qed
  then have "(2::rat) powi (ilog2 x + 1) \<le> 2 powi ilog2 y" by (intro power_int_increasing) auto
  moreover have "fl x \<le> 2 powi (ilog2 x + 1)"
    using ilog2_bounds(2) [OF assms(1)] assms(1) by (intro fl_le_pow2) auto
  moreover have "2 powi ilog2 y \<le> fl y" using ilog2_bounds(1) [OF y] y by (intro fl_ge_pow2)
  ultimately show ?thesis by linarith
qed

lemma fl_mono: "x \<le> y \<Longrightarrow> fl x \<le> fl y"
proof -
  assume le: "x \<le> y"
  consider "0 < x" | "x \<le> 0" "0 \<le> y" | "y < 0" by linarith
  then show ?thesis
  proof cases
    case 1
    with le show ?thesis by (simp add: fl_mono_pos)
  next
    case 2
    have "0 \<le> fl (- x)" "0 \<le> fl y" using 2 by (auto intro: fl_nonneg)
    then show ?thesis by (simp add: fl_minus)
  next
    case 3
    with le have "fl (- y) \<le> fl (- x)" by (intro fl_mono_pos) auto
    then show ?thesis by (simp add: fl_minus)
  qed
qed

text \<open>\<open>0.1\<close> as a number.\<close>

lemma fl_tenth: "fl (1 / 10) = 3602879701896397 / 36028797018963968"
  by code_simp

section \<open>Operations\<close>

type_synonym num = rat

definition fadd :: "num \<Rightarrow> num \<Rightarrow> num" where "fadd x y = fl (x + y)"
definition fsub :: "num \<Rightarrow> num \<Rightarrow> num" where "fsub x y = fl (x - y)"
definition fmul :: "num \<Rightarrow> num \<Rightarrow> num" where "fmul x y = fl (x * y)"
definition fdiv :: "num \<Rightarrow> num \<Rightarrow> num" where "fdiv x y = fl (x / y)"

text \<open>\<open>Math.round\<close> rounds halves towards plus infinity, as HOL's \<open>round\<close> does.\<close>

abbreviation Math_floor :: "num \<Rightarrow> int" where "Math_floor x \<equiv> \<lfloor>x\<rfloor>"
abbreviation Math_ceil :: "num \<Rightarrow> int" where "Math_ceil x \<equiv> \<lceil>x\<rceil>"
abbreviation Math_round :: "num \<Rightarrow> int" where "Math_round x \<equiv> round x"

text \<open>\<open>Number(s)\<close> of a string of decimal digits, and \<open>Number.isSafeInteger\<close>.\<close>

definition Number_dec :: "string \<Rightarrow> num" where
  "Number_dec s = fl (of_nat (dec_val s))"

definition MAX_SAFE :: int where "MAX_SAFE = 2 ^ 53 - 1"

definition isSafeInteger :: "num \<Rightarrow> bool" where
  "isSafeInteger x \<longleftrightarrow> x = of_int \<lfloor>x\<rfloor> \<and> \<bar>x\<bar> \<le> of_int MAX_SAFE"

text \<open>
  \<open>Number(s)\<close> of any string (ECMAScript's StringNumericLiteral): white space around it is
  ignored, the empty string is 0, \<open>0x\<close>, \<open>0o\<close> and \<open>0b\<close> start an unsigned integer literal, and a
  decimal literal may have a sign, a fraction and an exponent (\<open>js_literal\<close>, the value rounded to 53
  bits). \<open>None\<close> is \<open>NaN\<close> and the two infinities, which every caller rejects in the same way: the
  words \<open>Infinity\<close> are no literal here, and a literal that rounds to \<open>2^1024\<close> or more overflows.
\<close>

definition js_exponent :: "string \<Rightarrow> int option" where
  "js_exponent s = (case s of
       [] \<Rightarrow> Some 0
     | c # r \<Rightarrow>
         if c \<noteq> CHR ''e'' \<and> c \<noteq> CHR ''E'' then None
         else if starts_with ''-'' r then
           (if all_digits (tl r) then Some (- int (dec_val (tl r))) else None)
         else if starts_with ''+'' r then
           (if all_digits (tl r) then Some (int (dec_val (tl r))) else None)
         else (if all_digits r then Some (int (dec_val r)) else None))"

definition js_decimal :: "string \<Rightarrow> num option" where
  "js_decimal s =
     (let i = takeWhile is_digit s; r1 = dropWhile is_digit s;
          dotted = starts_with ''.'' r1;
          f = (if dotted then takeWhile is_digit (tl r1) else []);
          r3 = (if dotted then dropWhile is_digit (tl r1) else r1) in
      if i = [] \<and> f = [] then None
      else map_option (\<lambda>e. fl (of_nat (dec_val (i @ f)) * 10 powi (e - int (length f)))) (js_exponent r3))"

definition radix_digit :: "nat \<Rightarrow> char \<Rightarrow> nat option" where
  "radix_digit b c =
     (let n = of_char c;
          v = (if 48 \<le> n \<and> n \<le> 57 then n - 48 else if 97 \<le> n \<and> n \<le> 102 then n - 87
               else if 65 \<le> n \<and> n \<le> 70 then n - 55 else 16) in
      if v < b then Some v else None)"

definition js_radix :: "nat \<Rightarrow> string \<Rightarrow> num option" where
  "js_radix b s =
     (if s = [] \<or> (\<exists>c \<in> set s. radix_digit b c = None) then None
      else Some (fl (of_nat (foldl (\<lambda>n c. n * b + the (radix_digit b c)) 0 s))))"

definition js_literal :: "string \<Rightarrow> num option" where
  "js_literal text = (let s = trim text in
     if s = [] then Some 0
     else if starts_with ''0x'' s \<or> starts_with ''0X'' s then js_radix 16 (drop 2 s)
     else if starts_with ''0o'' s \<or> starts_with ''0O'' s then js_radix 8 (drop 2 s)
     else if starts_with ''0b'' s \<or> starts_with ''0B'' s then js_radix 2 (drop 2 s)
     else if starts_with ''-'' s then map_option uminus (js_decimal (tl s))
     else if starts_with ''+'' s then js_decimal (tl s)
     else js_decimal s)"

text \<open>The rounded value is below \<open>2^1024\<close> when its integer part has at most 1024 bits.\<close>

definition finite_double :: "num \<Rightarrow> bool" where
  "finite_double x \<longleftrightarrow> bitlen \<lfloor>\<bar>x\<bar>\<rfloor> \<le> 1024"

definition js_Number :: "string \<Rightarrow> num option" where
  "js_Number text = (case js_literal text of
       None \<Rightarrow> None
     | Some x \<Rightarrow> if finite_double x then Some x else None)"

definition isInteger :: "num \<Rightarrow> bool" where
  "isInteger x \<longleftrightarrow> x = of_int \<lfloor>x\<rfloor>"

section \<open>The contract of rounding\<close>

locale rounding =
  fixes rnd :: "rat \<Rightarrow> rat"
  assumes mono: "x \<le> y \<Longrightarrow> rnd x \<le> rnd y"
    and odd: "rnd (- x) = - rnd x"
    and exact: "\<bar>m\<bar> \<le> 2 ^ 53 \<Longrightarrow> rnd (of_int m) = of_int m"
    and error: "\<bar>rnd x - x\<bar> \<le> \<bar>x\<bar> / 2 ^ 53"
begin

lemma zero: "rnd 0 = 0"
  using exact [of 0] by simp

lemma nonneg: "0 \<le> x \<Longrightarrow> 0 \<le> rnd x"
  using mono [of 0 x] by (simp add: zero)

lemma le_int: "x \<le> of_int m \<Longrightarrow> \<bar>m\<bar> \<le> 2 ^ 53 \<Longrightarrow> rnd x \<le> of_int m"
  using mono [of x "of_int m"] by (simp add: exact)

lemma ge_int: "of_int m \<le> x \<Longrightarrow> \<bar>m\<bar> \<le> 2 ^ 53 \<Longrightarrow> of_int m \<le> rnd x"
  using mono [of "of_int m" x] by (simp add: exact)

lemma sgn_iff: "rnd x = 0 \<longleftrightarrow> x = 0"
proof
  assume "rnd x = 0"
  then have "\<bar>x\<bar> \<le> \<bar>x\<bar> / 2 ^ 53" using error [of x] by simp
  then show "x = 0" by (simp add: field_simps)
qed (simp add: zero)

lemma pos: "0 < x \<Longrightarrow> 0 < rnd x"
  using nonneg [of x] sgn_iff [of x] by simp

text \<open>The floor of a rounded quotient of safe integers is the integer quotient.\<close>

lemma floor_div:
  assumes "\<bar>a\<bar> < 2 ^ 53" and "0 < b"
  shows "\<lfloor>rnd (of_int a / of_int b)\<rfloor> = a div b"
proof (rule floor_unique)
  let ?q = "of_int a / of_int b :: rat"
  have lo: "of_int (a div b) \<le> ?q" using of_int_floor_le [of ?q] by (simp add: floor_divide_of_int_eq)
  have "\<bar>a div b\<bar> \<le> \<bar>a\<bar>"
    using assms(2) zdiv_mono2 [of a 1 b] zdiv_mono2_neg [of a 1 b]
      pos_imp_zdiv_nonneg_iff [of b a] by (cases "0 \<le> a") auto
  with assms(1) have small: "\<bar>a div b\<bar> \<le> 2 ^ 53" by linarith
  show "of_int (a div b) \<le> rnd ?q" by (rule ge_int [OF lo small])
  have "a = b * (a div b) + a mod b" by simp
  moreover have "a mod b \<le> b - 1" using assms(2) by (simp add: pos_mod_bound)
  ultimately have "a + 1 \<le> b * (a div b) + b" by linarith
  then have "a + 1 \<le> b * (a div b + 1)" by (simp add: distrib_left)
  then have "(of_int (a + 1) :: rat) \<le> of_int (b * (a div b + 1))" by (simp only: of_int_le_iff)
  then have up: "?q + 1 / of_int b \<le> of_int (a div b + 1)"
    using assms(2) by (simp add: field_simps)
  have "\<bar>?q\<bar> / 2 ^ 53 = of_int \<bar>a\<bar> / 2 ^ 53 / of_int b"
    using assms(2) by (simp add: abs_divide)
  also have "\<dots> < 1 / of_int b"
  proof -
    have "(of_int \<bar>a\<bar> :: rat) < of_int (2 ^ 53)" using assms(1) by (simp only: of_int_less_iff)
    then show ?thesis using assms(2) by (intro divide_strict_right_mono) auto
  qed
  finally have "rnd ?q < ?q + 1 / of_int b" using error [of ?q] by linarith
  with up show "rnd ?q < of_int (a div b) + 1" by simp
qed

lemma ceiling_div:
  assumes "\<bar>a\<bar> < 2 ^ 53" and "0 < b"
  shows "\<lceil>rnd (of_int a / of_int b)\<rceil> = - ((- a) div b)"
  using floor_div [of "- a" b] assms odd [of "of_int a / of_int b"]
  by (simp add: ceiling_def)

lemma round_multiple:
  assumes "\<bar>k\<bar> \<le> 2 ^ 53" and "b \<noteq> 0"
  shows "round (rnd (of_int (k * b) / of_int b)) = k"
  using assms exact [of k] by simp

end

interpretation dbl: rounding fl
proof unfold_locales
  show "fl x \<le> fl y" if "x \<le> y" for x y using that by (rule fl_mono)
  show "fl (- x) = - fl x" for x by (rule fl_minus)
  show "fl (of_int m) = of_int m" if "\<bar>m\<bar> \<le> 2 ^ 53" for m using that by (rule fl_of_int)
  show "\<bar>fl x - x\<bar> \<le> \<bar>x\<bar> / 2 ^ 53" for x by (rule fl_error)
qed

lemmas fops = fadd_def fsub_def fmul_def fdiv_def

lemma fops_nonneg [simp]:
  "0 \<le> x \<Longrightarrow> 0 \<le> y \<Longrightarrow> 0 \<le> fadd x y" "0 \<le> x \<Longrightarrow> 0 \<le> y \<Longrightarrow> 0 \<le> fmul x y"
  "0 \<le> x \<Longrightarrow> 0 \<le> y \<Longrightarrow> 0 \<le> fdiv x y"
  by (simp_all add: fops dbl.nonneg)

lemma fdiv_0 [simp]: "fdiv 0 y = 0" and fmul_0 [simp]: "fmul 0 y = 0" "fmul x 0 = 0"
  by (simp_all add: fops)

lemma floor_fdiv: "\<bar>a\<bar> < 2 ^ 53 \<Longrightarrow> 0 < b \<Longrightarrow> \<lfloor>fdiv (of_int a) (of_int b)\<rfloor> = a div b"
  unfolding fdiv_def by (rule dbl.floor_div)

lemma ceiling_fdiv: "\<bar>a\<bar> < 2 ^ 53 \<Longrightarrow> 0 < b \<Longrightarrow> \<lceil>fdiv (of_int a) (of_int b)\<rceil> = - ((- a) div b)"
  unfolding fdiv_def by (rule dbl.ceiling_div)

lemma fdiv_mono: "x \<le> y \<Longrightarrow> 0 < z \<Longrightarrow> fdiv x z \<le> fdiv y z"
  unfolding fdiv_def by (intro dbl.mono divide_right_mono) auto

lemma fmul_mono: "x \<le> y \<Longrightarrow> 0 \<le> z \<Longrightarrow> fmul x z \<le> fmul y z"
  unfolding fmul_def by (intro dbl.mono mult_right_mono) auto

text \<open>A decimal text is a safe integer exactly when its value is, and then it is read exactly.\<close>

lemma isSafeInteger_of_int [simp]: "isSafeInteger (of_int n) \<longleftrightarrow> \<bar>n\<bar> \<le> MAX_SAFE"
proof -
  have "\<bar>of_int n :: rat\<bar> \<le> of_int MAX_SAFE \<longleftrightarrow> \<bar>n\<bar> \<le> MAX_SAFE"
    by (simp only: of_int_abs [symmetric] of_int_le_iff)
  then show ?thesis by (simp add: isSafeInteger_def)
qed

lemma isSafeInteger_fl_int: "isSafeInteger (fl (of_int n)) \<longleftrightarrow> \<bar>n\<bar> \<le> MAX_SAFE"
proof (cases "\<bar>n\<bar> \<le> 2 ^ 53")
  case True
  then show ?thesis by simp
next
  case False
  have ge: "2 ^ 53 \<le> fl (of_int m)" if "2 ^ 53 \<le> m" for m
  proof -
    have "(of_int (2 ^ 53) :: rat) \<le> of_int m" using that by (simp only: of_int_le_iff)
    from dbl.ge_int [OF this] show ?thesis by simp
  qed
  consider "2 ^ 53 \<le> n" | "2 ^ 53 \<le> - n" using False by linarith
  then have "2 ^ 53 \<le> \<bar>fl (of_int n)\<bar>"
  proof cases
    case 1
    then show ?thesis using ge [of n] by simp
  next
    case 2
    then show ?thesis using ge [of "- n"] by (simp add: dbl.odd)
  qed
  then show ?thesis using False by (auto simp: isSafeInteger_def MAX_SAFE_def)
qed

lemma Number_dec_safe:
  "isSafeInteger (Number_dec s) \<longleftrightarrow> int (dec_val s) \<le> MAX_SAFE"
  using isSafeInteger_fl_int [of "int (dec_val s)"] by (simp add: Number_dec_def)

lemma Number_dec_exact: "dec_val s \<le> 2 ^ 53 \<Longrightarrow> Number_dec s = of_nat (dec_val s)"
  using fl_of_int [of "int (dec_val s)"] by (simp add: Number_dec_def)

text \<open>A string of decimal digits reads as its value, rounded.\<close>

lemma digits_not_space: "list_all is_digit s \<Longrightarrow> trim s = s"
proof -
  assume d: "list_all is_digit s"
  have "\<not> is_space c" if "is_digit c" for c using that by (auto simp: is_digit_def is_space_def)
  then have id: "dropWhile is_space t = t" if "list_all is_digit t" for t
    using that by (cases t) auto
  show ?thesis using d id [of s] id [of "rev s"] by (simp add: trim_def list_all_iff)
qed

lemma finite_double_iff: "finite_double x \<longleftrightarrow> \<bar>x\<bar> < 2 ^ 1024"
proof -
  have "\<bar>x\<bar> < 2 ^ 1024 \<longleftrightarrow> \<lfloor>\<bar>x\<bar>\<rfloor> < 2 ^ 1024"
    by (simp only: floor_less_iff of_int_power of_int_numeral)
  also have "\<dots> \<longleftrightarrow> bitlen \<lfloor>\<bar>x\<bar>\<rfloor> \<le> 1024"
    using bitlen_le_iff_power [of "\<lfloor>\<bar>x\<bar>\<rfloor>" 1024] by simp
  finally show ?thesis by (simp only: finite_double_def)
qed

lemma js_Number_digits:
  assumes ad: "all_digits s" and lt: "Number_dec s < 2 ^ 1024"
  shows "js_Number s = Some (Number_dec s)"
proof -
  from ad have d: "list_all is_digit s" and ne: "s \<noteq> []" by (auto simp: all_digits_def)
  have all: "\<forall>c \<in> set s. is_digit c" using d by (simp add: list_all_iff)
  have pre: "\<not> starts_with [a, b] s" if "\<not> is_digit b" for a b
    using that all by (cases s; cases "tl s") (auto simp: starts_with_def)
  have nd: "\<not> is_digit CHR ''x''" "\<not> is_digit CHR ''X''" "\<not> is_digit CHR ''o''"
    "\<not> is_digit CHR ''O''" "\<not> is_digit CHR ''b''" "\<not> is_digit CHR ''B''"
    "\<not> is_digit CHR ''+''"
    by (simp_all add: is_digit_def)
  have tw: "takeWhile is_digit s = s" "dropWhile is_digit s = []" using all by auto
  have "js_decimal s = Some (Number_dec s)"
    using ne by (simp add: js_decimal_def tw js_exponent_def Number_dec_def Let_def starts_with_def)
  moreover have "\<not> starts_with ''-'' s" "\<not> starts_with ''+'' s"
    using ne all nd(7) not_digit(3) by (cases s; auto simp: starts_with_def)+
  ultimately have "js_literal s = Some (Number_dec s)"
    using ne pre nd by (simp add: js_literal_def digits_not_space [OF d])
  moreover have "0 \<le> Number_dec s" by (simp add: Number_dec_def dbl.nonneg)
  ultimately show ?thesis using lt by (simp add: js_Number_def finite_double_iff)
qed

lemma js_Number_finite: "js_Number s = Some x \<Longrightarrow> \<bar>x\<bar> < 2 ^ 1024"
  by (simp add: js_Number_def finite_double_iff split: option.splits if_splits)

lemma js_Number_examples:
  "js_Number '' 42 '' = Some 42" "js_Number ''1.5e1'' = Some 15" "js_Number ''0x1F'' = Some 31"
  "js_Number ''-7'' = Some (-7)" "js_Number ''12px'' = None" "js_Number [] = Some 0"
  by code_simp+

lemma js_Number_overflow: "js_Number ''1e400'' = None"
proof -
  have "js_literal ''1e400'' = Some (fl (10 powi 400))"
    by (simp add: js_literal_def js_decimal_def js_exponent_def trim_def is_space_def starts_with_def is_digit_def
        all_digits_def dec_val_def digit_val_def)
  moreover have "\<not> \<bar>fl (10 powi 400)\<bar> < 2 ^ 1024"
  proof -
    have far: "\<not> \<bar>y\<bar> < b" if "\<bar>y - x\<bar> \<le> \<bar>x\<bar> / 2 ^ 53" "b + \<bar>x\<bar> / 2 ^ 53 \<le> x" for x y b :: rat
      using that by linarith
    show ?thesis by (rule far [OF dbl.error]) simp
  qed
  ultimately show ?thesis by (simp only: js_Number_def finite_double_iff option.simps if_False)
qed

text \<open>Two roundings in \<open>Math.ceil(s / a / b)\<close> do not make it too small.\<close>

lemma ceil_two_div:
  fixes s a b :: int
  assumes "0 \<le> s" "s < 2 ^ 52" "0 < a" "0 < b"
  shows "s \<le> a * b * \<lceil>fdiv (fdiv (of_int s) (of_int a)) (of_int b)\<rceil>"
proof (rule ccontr)
  let ?s = "of_int s :: rat" and ?a = "of_int a :: rat" and ?b = "of_int b :: rat"
  define x where "x = fdiv ?s ?a"
  define y where "y = fdiv x ?b"
  assume "\<not> ?thesis"
  then have "a * b * \<lceil>y\<rceil> + 1 \<le> s" by (simp add: x_def y_def)
  then have "of_int (a * b * \<lceil>y\<rceil> + 1) \<le> ?s" by (simp only: of_int_le_iff)
  then have c: "?a * ?b * of_int \<lceil>y\<rceil> + 1 \<le> ?s" by simp
  have pos: "0 < ?a" "0 < ?b" "0 \<le> ?s" using assms by auto
  have "\<bar>x - ?s / ?a\<bar> \<le> \<bar>?s / ?a\<bar> / 2 ^ 53" unfolding x_def fdiv_def by (rule fl_error)
  then have "?s / ?a - ?s / ?a / 2 ^ 53 \<le> x" using pos by (simp add: abs_le_iff)
  then have "(?s / ?a - ?s / ?a / 2 ^ 53) * ?a \<le> x * ?a" using pos by (intro mult_right_mono) auto
  then have xa: "?s - ?s / 2 ^ 53 \<le> x * ?a" using pos by (simp add: left_diff_distrib)
  have x0: "0 \<le> x" using pos by (simp add: x_def)
  have "\<bar>y - x / ?b\<bar> \<le> \<bar>x / ?b\<bar> / 2 ^ 53" unfolding y_def fdiv_def by (rule fl_error)
  then have "x / ?b - x / ?b / 2 ^ 53 \<le> y" using pos x0 by (simp add: abs_le_iff)
  then have "(x / ?b - x / ?b / 2 ^ 53) * ?b \<le> y * ?b" using pos by (intro mult_right_mono) auto
  then have yb: "x - x / 2 ^ 53 \<le> y * ?b" using pos by (simp add: left_diff_distrib)
  then have "(x - x / 2 ^ 53) * ?a \<le> y * ?b * ?a" using pos by (intro mult_right_mono) auto
  then have "x * ?a - x * ?a / 2 ^ 53 \<le> y * (?a * ?b)" by (simp add: left_diff_distrib mult_ac)
  moreover have "y * (?a * ?b) \<le> of_int \<lceil>y\<rceil> * (?a * ?b)"
    using pos by (intro mult_right_mono le_of_int_ceiling) auto
  ultimately have up: "x * ?a - x * ?a / 2 ^ 53 + 1 \<le> ?s" using c by (simp add: mult_ac)
  have "?s < of_int (2 ^ 52)" using assms(2) by (simp only: of_int_less_iff)
  then have "?s < 2 ^ 52" by simp
  then show False using up xa by (simp add: field_simps)
qed

section \<open>Rounding to a decimal\<close>

text \<open>
  \<open>Math.round(x * k) / k\<close>, the sources' way of cutting a value to a few decimals. The result is
  within half a unit of the last decimal of the value, up to the error of three roundings; it
  keeps order and sign, and rounding again changes nothing.
\<close>

definition round_dec :: "int \<Rightarrow> num \<Rightarrow> num" where
  "round_dec k x = fdiv (of_int (Math_round (fmul x (of_int k)))) (of_int k)"

abbreviation r2 :: "num \<Rightarrow> num" where "r2 \<equiv> round_dec 100"

lemma round_dec_mono: "0 < k \<Longrightarrow> x \<le> y \<Longrightarrow> round_dec k x \<le> round_dec k y"
  unfolding round_dec_def by (intro fdiv_mono) (auto intro!: round_mono fmul_mono)

lemma round_dec_0 [simp]: "round_dec k 0 = 0"
  by (simp add: round_dec_def)

lemma round_dec_nonneg: "0 < k \<Longrightarrow> 0 \<le> x \<Longrightarrow> 0 \<le> round_dec k x"
  using round_dec_mono [of k 0 x] by simp

lemma near_abs: "\<bar>a - b\<bar> \<le> e \<Longrightarrow> \<bar>a\<bar> \<le> \<bar>b\<bar> + (e :: rat)"
  and near_trans: "\<bar>a - b\<bar> \<le> e \<Longrightarrow> \<bar>b - c\<bar> \<le> d \<Longrightarrow> \<bar>a - c\<bar> \<le> e + (d :: rat)"
  by linarith+

lemma round_dec_unit:
  fixes k n :: int
  assumes "0 < k" and "\<bar>n\<bar> \<le> 2 ^ 50"
  shows "round_dec k (fdiv (of_int n) (of_int k)) = fdiv (of_int n) (of_int k)"
proof -
  let ?n = "of_int n :: rat" and ?k = "of_int k :: rat"
  have k: "0 < ?k" using assms(1) by simp
  have n: "\<bar>?n\<bar> \<le> 2 ^ 50"
    using assms(2) by (metis of_int_abs of_int_le_iff of_int_numeral of_int_power)
  define y where "y = fdiv ?n ?k * ?k"
  have "\<bar>fdiv ?n ?k - ?n / ?k\<bar> \<le> \<bar>?n / ?k\<bar> / 2 ^ 53" unfolding fdiv_def by (rule fl_error)
  then have "\<bar>fdiv ?n ?k - ?n / ?k\<bar> * ?k \<le> \<bar>?n / ?k\<bar> / 2 ^ 53 * ?k" using k by (intro mult_right_mono) auto
  moreover have "\<bar>fdiv ?n ?k - ?n / ?k\<bar> * ?k = \<bar>y - ?n\<bar>"
    using k abs_mult [of "fdiv ?n ?k - ?n / ?k" ?k] by (simp add: y_def left_diff_distrib)
  moreover have "\<bar>?n / ?k\<bar> / 2 ^ 53 * ?k = \<bar>?n\<bar> / 2 ^ 53" using k by (simp add: abs_divide)
  ultimately have y: "\<bar>y - ?n\<bar> \<le> \<bar>?n\<bar> / 2 ^ 53" by simp
  have "\<bar>fl y - y\<bar> \<le> \<bar>y\<bar> / 2 ^ 53" by (rule fl_error)
  moreover have "\<bar>y\<bar> \<le> 2 ^ 51" using near_abs [OF y] n by simp
  ultimately have "\<bar>fl y - ?n\<bar> < 1 / 2"
    using near_trans [of "fl y" y "\<bar>y\<bar> / 2 ^ 53", OF _ y] n by simp
  then have "round (fl y) = n" by (intro round_unique') auto
  then show ?thesis by (simp add: round_dec_def fmul_def y_def)
qed

lemma round_dec_idem:
  assumes "0 < k" and "\<bar>x * of_int k\<bar> \<le> 2 ^ 49"
  shows "round_dec k (round_dec k x) = round_dec k x"
proof -
  let ?y = "fmul x (of_int k)"
  have "\<bar>?y - x * of_int k\<bar> \<le> \<bar>x * of_int k\<bar> / 2 ^ 53" unfolding fmul_def by (rule fl_error)
  then have "\<bar>?y\<bar> \<le> 2 ^ 49 + 1" using near_abs [of ?y] assms(2) by fastforce
  moreover have "\<bar>of_int (round ?y)\<bar> \<le> \<bar>?y\<bar> + 1 / 2" by (rule near_abs [OF of_int_round_abs_le])
  ultimately have "\<bar>of_int (round ?y) :: rat\<bar> \<le> of_int (2 ^ 50)" by simp
  then have "\<bar>round ?y\<bar> \<le> 2 ^ 50" by (metis of_int_abs of_int_le_iff)
  then show ?thesis unfolding round_dec_def [of k x] by (rule round_dec_unit [OF assms(1)])
qed

lemma round_dec_error:
  assumes "0 < k"
  shows "\<bar>round_dec k x - x\<bar> \<le> 1 / (2 * of_int k) + (\<bar>x\<bar> + 1 / of_int k) / 2 ^ 51"
proof -
  let ?k = "of_int k :: rat" and ?y = "fmul x (of_int k)"
  have k: "0 < ?k" using assms by simp
  have y: "\<bar>?y - x * ?k\<bar> \<le> \<bar>x * ?k\<bar> / 2 ^ 53" unfolding fmul_def by (rule fl_error)
  have r: "\<bar>of_int (round ?y) - ?y\<bar> \<le> 1 / 2" using of_int_round_abs_le by blast
  have ax: "\<bar>x * ?k\<bar> = \<bar>x\<bar> * ?k" using k by (simp add: abs_mult)
  define z where "z = (of_int (round ?y) :: rat)"
  have "\<bar>z - x * ?k\<bar> \<le> 1 / 2 + \<bar>x\<bar> * ?k / 2 ^ 53" using y r unfolding ax z_def by linarith
  then have "\<bar>z - x * ?k\<bar> / ?k \<le> (1 / 2 + \<bar>x\<bar> * ?k / 2 ^ 53) / ?k" using k by (intro divide_right_mono) auto
  moreover have "\<bar>z - x * ?k\<bar> / ?k = \<bar>z / ?k - x\<bar>"
    using k abs_divide [of "z - x * ?k" ?k] by (simp add: diff_divide_distrib)
  moreover have "(1 / 2 + \<bar>x\<bar> * ?k / 2 ^ 53) / ?k = 1 / (2 * ?k) + \<bar>x\<bar> / 2 ^ 53"
    using k by (simp add: add_divide_distrib)
  ultimately have zk: "\<bar>z / ?k - x\<bar> \<le> 1 / (2 * ?k) + \<bar>x\<bar> / 2 ^ 53" by simp
  have "\<bar>fdiv z ?k - z / ?k\<bar> \<le> \<bar>z / ?k\<bar> / 2 ^ 53" unfolding fdiv_def by (rule fl_error)
  note err = near_trans [OF this zk] near_abs [OF zk]
  define K where "K = 1 / ?k"
  have K: "0 < K" "1 / (2 * ?k) = K / 2" using k by (auto simp: K_def)
  have "2 ^ 53 * \<bar>fdiv z ?k - x\<bar> \<le> \<bar>z / ?k\<bar> + 2 ^ 52 * K + \<bar>x\<bar>"
    using err(1) unfolding K(2) by (simp add: field_simps)
  moreover have "2 ^ 53 * \<bar>z / ?k\<bar> \<le> 2 ^ 53 * \<bar>x\<bar> + 2 ^ 52 * K + \<bar>x\<bar>"
    using err(2) unfolding K(2) by (simp add: field_simps)
  ultimately have "2 ^ 53 * \<bar>fdiv z ?k - x\<bar> \<le> 2 ^ 52 * K + 4 * \<bar>x\<bar> + 4 * K" using K(1) by simp
  then have "\<bar>fdiv z ?k - x\<bar> \<le> 1 / (2 * ?k) + (\<bar>x\<bar> + 1 / ?k) / 2 ^ 51"
    unfolding K(2) unfolding K_def [symmetric] by (simp add: field_simps)
  then show ?thesis by (simp add: round_dec_def z_def)
qed

end
