(* ===== verification/Range.thy ===== *)
theory Range
  imports JS_Number
begin

text \<open>
  \<^verbatim>\<open>web/src/server/ch/range.ts\<close>: the time range of a history request. A query string is a map from
  names to what Fastify's parser gives: a text, or a list of texts when a name is repeated. Times
  are integer milliseconds below \<open>2^53\<close>, on which JavaScript's sums and differences are exact;
  quotients and the products that may leave that range are rounded.
\<close>

datatype qval = QStr string | QArr "string list"
type_synonym query = "string \<Rightarrow> qval option"

definition HOUR :: int where "HOUR = 3600000"
definition DAY :: int where "DAY = 24 * HOUR"
definition MAX_SPAN :: int where "MAX_SPAN = 2 * 366 * DAY"
definition MAX_POINTS :: int where "MAX_POINTS = 1500"
definition DEFAULT_SPAN :: int where "DEFAULT_SPAN = HOUR"

definition NICE_STEPS :: "int list" where
  "NICE_STEPS = [1, 2, 5, 10, 15, 30, 60, 120, 300, 600, 900, 1800, 3600, 7200, 10800, 21600, 43200,
     86400, 172800, 604800]"

datatype table = Flows | Flows_1m
datatype time_col = Ts | Minute

record Range =
  r_from :: int
  r_to :: int
  r_step :: int
  r_table :: table
  r_col :: time_col

text \<open>\<open>/^-?\d+$/.test(raw) ? Number(raw) : NaN\<close>\<close>

definition int_text :: "string \<Rightarrow> num option" where
  "int_text s = (if starts_with ''-'' s \<and> all_digits (tl s) then Some (- Number_dec (tl s))
     else if all_digits s then Some (Number_dec s) else None)"

definition intParam :: "query \<Rightarrow> string \<Rightarrow> nat \<Rightarrow> int option result" where
  "intParam q name mn = (case q name of
       None \<Rightarrow> Inr None
     | Some raw \<Rightarrow>
         if raw = QStr [] then Inr None
         else (case (case raw of QStr s \<Rightarrow> int_text s | QArr _ \<Rightarrow> None) of
             Some n \<Rightarrow> if \<not> isSafeInteger n \<or> n < of_nat mn
               then Inl (badRequest (name @ '': expected an integer >= '' @ string_of_nat mn)) else Inr (Some \<lfloor>n\<rfloor>)
           | None \<Rightarrow> Inl (badRequest (name @ '': expected an integer >= '' @ string_of_nat mn))))"

definition defaultStep :: "int \<Rightarrow> int" where
  "defaultStep spn =
     (if spn \<le> 2 * HOUR then 10 else if spn \<le> 3 * DAY then 60 else if spn \<le> 30 * DAY then 900 else 3600)"

text \<open>\<open>Math.ceil(n / k) * k\<close>: the product is rounded when it leaves the exact range.\<close>

definition ceil_to :: "int \<Rightarrow> int \<Rightarrow> int" where
  "ceil_to n k = \<lfloor>fmul (of_int (Math_ceil (fdiv (of_int n) (of_int k)))) (of_int k)\<rfloor>"

definition min_step :: "bool \<Rightarrow> int \<Rightarrow> int" where
  "min_step raw spn = max (if raw then 1 else 60)
     (Math_ceil (fdiv (fdiv (of_int spn) 1000) (of_int MAX_POINTS)))"

definition nice_step :: "int \<Rightarrow> int" where
  "nice_step wanted = (case find (\<lambda>s. s \<ge> wanted) NICE_STEPS of Some s \<Rightarrow> s | None \<Rightarrow> ceil_to wanted 86400)"

definition parseRange :: "query \<Rightarrow> int \<Rightarrow> Range result" where
  "parseRange q now =
     bind_res (intParam q ''to'' 0) (\<lambda>to'.
     let to = (case to' of None \<Rightarrow> now | Some t \<Rightarrow> t) in
     bind_res (intParam q ''from'' 0) (\<lambda>from'.
     let from = (case from' of None \<Rightarrow> to - DEFAULT_SPAN | Some f \<Rightarrow> f) in
     if from \<ge> to then Inl (badRequest ''from must be before to'')
     else
       let from = max from (to - MAX_SPAN);
           spn = to - from;
           raw = spn \<le> 2 * HOUR;
           minStep = min_step raw spn in
       bind_res (intParam q ''step'' 1) (\<lambda>step'.
       let wanted = max (case step' of None \<Rightarrow> defaultStep spn | Some s \<Rightarrow> s) minStep;
           step = nice_step wanted;
           step = (if raw then step else ceil_to step 60)
       in Inr (if raw then \<lparr> r_from = from, r_to = to, r_step = step, r_table = Flows, r_col = Ts \<rparr>
               else \<lparr> r_from = from, r_to = to, r_step = step, r_table = Flows_1m, r_col = Minute \<rparr>))))"

section \<open>Bounds of the parsed numbers\<close>

lemma isSafe_floor: "isSafeInteger n \<Longrightarrow> n = of_int \<lfloor>n\<rfloor> \<and> \<bar>\<lfloor>n\<rfloor>\<bar> \<le> MAX_SAFE"
  by (auto simp: isSafeInteger_def)

lemma intParam_bounds [bounds]:
  assumes "intParam q name mn = Inr (Some n)"
  shows "int mn \<le> n \<and> n \<le> MAX_SAFE"
proof -
  obtain x where x: "isSafeInteger x" "\<not> x < of_nat mn" "n = \<lfloor>x\<rfloor>"
    using assms by (auto simp: intParam_def split: option.splits if_splits qval.splits)
  then have "(of_nat mn :: rat) \<le> of_int n" using isSafe_floor [OF x(1)] by simp
  then have "int mn \<le> n" by (metis of_int_le_iff of_int_of_nat_eq)
  with x isSafe_floor [OF x(1)] show ?thesis by auto
qed

lemma min_step_ge:
  assumes "0 \<le> spn" and "spn \<le> MAX_SPAN"
  shows "spn \<le> 1500000 * \<lceil>fdiv (fdiv (of_int spn) 1000) (of_int MAX_POINTS)\<rceil>"
  using ceil_two_div [of spn 1000 1500] assms by (simp add: MAX_POINTS_def MAX_SPAN_def DAY_def HOUR_def)

section \<open>The step\<close>

lemma ceil_mult_bounds:
  fixes n k :: int
  assumes "0 < k"
  shows "n \<le> - ((- n) div k) * k" "- ((- n) div k) * k < n + k"
proof -
  have "(- n) div k * k + (- n) mod k = - n" by simp
  moreover have "0 \<le> (- n) mod k" "(- n) mod k < k" using assms by (auto simp: pos_mod_bound)
  ultimately show "n \<le> - ((- n) div k) * k" "- ((- n) div k) * k < n + k" by linarith+
qed

lemma ceil_to_fl:
  assumes "\<bar>n\<bar> < 2 ^ 53" and "0 < k"
  shows "ceil_to n k = \<lfloor>fl (of_int (- ((- n) div k) * k))\<rfloor>"
  using assms by (simp add: ceil_to_def ceiling_fdiv fmul_def)

lemma ceil_to_ge:
  assumes "\<bar>n\<bar> < 2 ^ 53" and "0 < k"
  shows "n \<le> ceil_to n k"
proof -
  have "(of_int n :: rat) \<le> of_int (- ((- n) div k) * k)" using ceil_mult_bounds [OF assms(2)] by (simp only: of_int_le_iff)
  then have "of_int n \<le> fl (of_int (- ((- n) div k) * k))" using assms(1) by (intro dbl.ge_int) auto
  then show ?thesis using ceil_to_fl [OF assms] by (simp add: le_floor_iff)
qed

lemma ceil_to_exact:
  assumes "0 \<le> n" and "0 < k" and "n + k \<le> 2 ^ 53"
  shows "ceil_to n k = - ((- n) div k) * k"
proof -
  have "\<bar>- ((- n) div k) * k\<bar> \<le> 2 ^ 53" using ceil_mult_bounds [OF assms(2), of n] assms by simp
  then have "fl (of_int (- ((- n) div k) * k)) = of_int (- ((- n) div k) * k)" by (rule fl_of_int)
  moreover have "\<bar>n\<bar> < 2 ^ 53" using assms by simp
  ultimately show ?thesis using ceil_to_fl assms(2) by (metis floor_of_int)
qed

lemma ceil_to_id: "0 \<le> n \<Longrightarrow> 0 < k \<Longrightarrow> n + k \<le> 2 ^ 53 \<Longrightarrow> k dvd n \<Longrightarrow> ceil_to n k = n"
  by (simp add: ceil_to_exact)

lemma nice_step_ge: "wanted \<le> MAX_SAFE \<Longrightarrow> 1 \<le> wanted \<Longrightarrow> wanted \<le> nice_step wanted"
  using ceil_to_ge [of wanted 86400]
  by (auto simp: nice_step_def MAX_SAFE_def find_Some_iff split: option.splits)

lemma nice_step_minutes:
  assumes "60 \<le> wanted" and "wanted \<le> 2 ^ 33"
  shows "60 dvd nice_step wanted" and "nice_step wanted \<le> 2 ^ 34"
proof -
  have "ceil_to wanted 86400 = - ((- wanted) div 86400) * 86400" using assms by (intro ceil_to_exact) auto
  moreover have "- ((- wanted) div 86400) * 86400 < wanted + 86400" by (rule ceil_mult_bounds) simp
  ultimately show "60 dvd nice_step wanted" "nice_step wanted \<le> 2 ^ 34"
    using assms by (auto simp: nice_step_def NICE_STEPS_def)
qed

lemma min_step_le:
  assumes "0 \<le> spn" and "spn \<le> MAX_SPAN"
  shows "min_step raw spn \<le> 86400"
proof -
  have "spn \<le> 63244800000" using assms(2) by (simp add: MAX_SPAN_def DAY_def HOUR_def)
  then have "of_int spn \<le> (63244800000 :: rat)" by (metis of_int_le_iff of_int_numeral)
  then have "fdiv (of_int spn) 1000 \<le> fdiv 63244800000 1000" by (rule fdiv_mono) simp
  then have "fdiv (fdiv (of_int spn) 1000) 1500 \<le> fdiv (fdiv 63244800000 1000) 1500" by (rule fdiv_mono) simp
  also have "\<dots> \<le> of_int 86400" by code_simp
  finally have "\<lceil>fdiv (fdiv (of_int spn) 1000) 1500\<rceil> \<le> 86400" by (simp only: ceiling_le_iff)
  then show ?thesis by (simp add: min_step_def MAX_POINTS_def)
qed

lemma min_step_pos: "1 \<le> min_step raw spn" "60 \<le> min_step False spn"
  by (auto simp: min_step_def)

text \<open>The part of \<open>parseRange\<close> that follows once the two ends are known.\<close>

definition range_of :: "int \<Rightarrow> int \<Rightarrow> int option \<Rightarrow> Range" where
  "range_of fr to step' =
     (let spn = to - fr; raw = spn \<le> 2 * HOUR;
          wanted = max (case step' of None \<Rightarrow> defaultStep spn | Some s \<Rightarrow> s) (min_step raw spn)
      in \<lparr> r_from = fr, r_to = to, r_step = (if raw then nice_step wanted else ceil_to (nice_step wanted) 60),
           r_table = (if raw then Flows else Flows_1m), r_col = (if raw then Ts else Minute) \<rparr>)"

lemma parseRange_Inr:
  assumes "parseRange q now = Inr r"
  obtains fr to step' where "intParam q ''step'' 1 = Inr step'" "r = range_of fr to step'"
    "fr < to" "to - fr \<le> MAX_SPAN" "0 \<le> now \<Longrightarrow> now \<le> MAX_SAFE \<Longrightarrow> 0 \<le> to \<and> to \<le> MAX_SAFE"
proof -
  from assms obtain to' from' where ends: "intParam q ''to'' 0 = Inr to'" "intParam q ''from'' 0 = Inr from'"
    by (auto simp: parseRange_def Let_def)
  define to where "to = (case to' of None \<Rightarrow> now | Some t \<Rightarrow> t)"
  define f0 where "f0 = (case from' of None \<Rightarrow> to - DEFAULT_SPAN | Some f \<Rightarrow> f)"
  define fr where "fr = max f0 (to - MAX_SPAN)"
  have pr: "parseRange q now = (if f0 \<ge> to then Inl (badRequest ''from must be before to'')
      else bind_res (intParam q ''step'' 1) (\<lambda>step'. Inr (range_of fr to step')))"
    unfolding parseRange_def ends bind_res_simps Let_def to_def [symmetric] f0_def [symmetric] fr_def [symmetric]
      range_of_def by simp
  then have lt: "\<not> f0 \<ge> to" using assms by (auto split: if_splits)
  with pr assms have "bind_res (intParam q ''step'' 1) (\<lambda>step'. Inr (range_of fr to step')) = Inr r" by simp
  then obtain step' where "intParam q ''step'' 1 = Inr step'" "r = range_of fr to step'" by auto
  moreover have "fr < to" "to - fr \<le> MAX_SPAN"
    using lt by (auto simp: fr_def MAX_SPAN_def DAY_def HOUR_def)
  moreover have "0 \<le> to \<and> to \<le> MAX_SAFE" if "0 \<le> now" "now \<le> MAX_SAFE"
    using that intParam_bounds ends(1) by (fastforce simp: to_def split: option.splits)
  ultimately show thesis by (rule that)
qed

text \<open>The requested step, if any, fits the \<open>UInt32\<close> the queries pass it as.\<close>

definition step_fits :: "query \<Rightarrow> bool" where
  "step_fits q = (case intParam q ''step'' 1 of Inr (Some s) \<Rightarrow> s < 2 ^ 32 | _ \<Rightarrow> True)"

lemma range_of_step:
  assumes "fr < to" "to - fr \<le> MAX_SPAN" and "\<And>s. step' = Some s \<Longrightarrow> 1 \<le> s \<and> s < 2 ^ 32"
  defines "r \<equiv> range_of fr to step'"
  shows "min_step (to - fr \<le> 2 * HOUR) (to - fr) \<le> r_step r" "r_step r \<le> 2 ^ 34"
    "\<And>s. step' = Some s \<Longrightarrow> s \<le> r_step r" "r_table r = Flows_1m \<Longrightarrow> 60 dvd r_step r"
proof -
  let ?spn = "to - fr" and ?raw = "to - fr \<le> 2 * HOUR"
  define want where "want = (case step' of None \<Rightarrow> defaultStep ?spn | Some s \<Rightarrow> s)"
  define wanted where "wanted = max want (min_step ?raw ?spn)"
  have want: "1 \<le> want" "want < 2 ^ 32"
    using assms(3) by (auto simp: want_def defaultStep_def split: option.splits)
  have ms: "1 \<le> min_step ?raw ?spn" "min_step ?raw ?spn \<le> 86400"
    using min_step_pos(1) min_step_le [of ?spn ?raw] assms(1,2) by auto
  have w: "1 \<le> wanted" "wanted \<le> 2 ^ 33" "wanted \<le> MAX_SAFE"
    using want ms by (auto simp: wanted_def MAX_SAFE_def)
  note ge = nice_step_ge [OF w(3,1)]
  have step: "r_step r = (if ?raw then nice_step wanted else ceil_to (nice_step wanted) 60)"
    by (simp add: r_def range_of_def Let_def wanted_def want_def)
  have le: "nice_step wanted \<le> 2 ^ 34"
  proof (cases "60 \<le> wanted")
    case True
    then show ?thesis using w(2) by (rule nice_step_minutes(2))
  next
    case False
    then show ?thesis by (auto simp: nice_step_def NICE_STEPS_def)
  qed
  have id: "60 dvd nice_step wanted" "ceil_to (nice_step wanted) 60 = nice_step wanted" if "\<not> ?raw"
  proof -
    have "60 \<le> wanted" using min_step_pos(2) [of ?spn] that by (auto simp: wanted_def)
    then show d: "60 dvd nice_step wanted" using w(2) by (rule nice_step_minutes(1))
    show "ceil_to (nice_step wanted) 60 = nice_step wanted" using d ge w le by (intro ceil_to_id) auto
  qed
  then have eq: "r_step r = nice_step wanted" using step by auto
  show "min_step ?raw ?spn \<le> r_step r" "r_step r \<le> 2 ^ 34" using ge le by (auto simp: eq wanted_def)
  show "s \<le> r_step r" if "step' = Some s" for s using ge that by (auto simp: eq wanted_def want_def)
  show "60 dvd r_step r" if "r_table r = Flows_1m"
  proof -
    have "\<not> ?raw" using that by (auto simp: r_def range_of_def Let_def)
    then show ?thesis using id(1) by (simp add: eq)
  qed
qed

text \<open>
  (C4) Every accepted range is sane: \<open>from\<close> is before \<open>to\<close>, the span is at most two years, raw flows
  are read exactly for spans of up to two hours (with the time column of the table), the step is
  at least one second and at least what the request asked for, whole minutes on the rollup, and
  the range has at most 1500 steps. This holds in the floating-point arithmetic of the code, for
  requested steps that fit the \<open>UInt32\<close> they are passed to the database as.
\<close>

theorem parseRange_sane:
  assumes "parseRange q now = Inr r" and "step_fits q"
  shows "r_from r < r_to r \<and> r_to r - r_from r \<le> MAX_SPAN
    \<and> (r_table r = Flows \<longleftrightarrow> r_to r - r_from r \<le> 2 * HOUR) \<and> (r_table r = Flows \<longleftrightarrow> r_col r = Ts)
    \<and> 1 \<le> r_step r \<and> (\<forall>s. intParam q ''step'' 1 = Inr (Some s) \<longrightarrow> s \<le> r_step r)
    \<and> (r_table r = Flows_1m \<longrightarrow> 60 dvd r_step r)
    \<and> r_to r - r_from r \<le> MAX_POINTS * (r_step r * 1000)"
proof -
  from assms(1) obtain fr to step' where p: "intParam q ''step'' 1 = Inr step'" "r = range_of fr to step'"
    "fr < to" "to - fr \<le> MAX_SPAN"
    by (rule parseRange_Inr) blast
  have s: "1 \<le> s \<and> s < 2 ^ 32" if "step' = Some s" for s
    using intParam_bounds [of q "''step''" 1 s] p(1) assms(2) that by (simp add: step_fits_def)
  note st = range_of_step [OF p(3,4), of step', OF s, folded p(2)]
  have ends: "r_from r = fr" "r_to r = to" by (simp_all add: p(2) range_of_def Let_def)
  let ?ms = "min_step (to - fr \<le> 2 * HOUR) (to - fr)"
  have "to - fr \<le> 1500000 * ?ms"
    using min_step_ge [of "to - fr"] p(3,4) by (auto simp: min_step_def max_def split: if_splits)
  also have "\<dots> \<le> 1500000 * r_step r" using st(1) by simp
  finally have "to - fr \<le> MAX_POINTS * (r_step r * 1000)" by (simp add: MAX_POINTS_def)
  moreover have "1 \<le> r_step r" using min_step_pos(1) st(1) by (rule order_trans)
  moreover have "r_table r = (if to - fr \<le> 2 * HOUR then Flows else Flows_1m)"
    "r_col r = (if to - fr \<le> 2 * HOUR then Ts else Minute)" by (simp_all add: p(2) range_of_def Let_def)
  ultimately show ?thesis using p(1,3,4) st(3,4) by (simp add: ends)
qed

definition sample_query :: query where
  "sample_query = [''from'' \<mapsto> QStr ''1789646400000'', ''to'' \<mapsto> QStr ''1789732800000'', ''step'' \<mapsto> QStr ''30'']"

definition sample_range :: Range where
  "sample_range = \<lparr> r_from = 1789646400000, r_to = 1789732800000, r_step = 60, r_table = Flows_1m, r_col = Minute \<rparr>"

theorem parseRange_sane_witness:
  "parseRange sample_query 0 = Inr sample_range \<and> 60 dvd r_step sample_range
   \<and> r_to sample_range - r_from sample_range \<le> MAX_POINTS * (r_step sample_range * 1000)"
proof -
  have "parseRange sample_query 0 = Inr sample_range" "step_fits sample_query" by code_simp+
  with parseRange_sane [of sample_query 0 sample_range] show ?thesis by (simp add: sample_range_def)
qed

text \<open>
  The defaults and the errors: without parameters the range is the last hour of raw flows in
  steps of 10 seconds; a \<open>from\<close> that is not before \<open>to\<close>, a repeated parameter and a number that
  is not a safe integer in range are refused with status 400, and nothing else is an error.
\<close>

theorem parseRange_defaults_errors:
  "parseRange (\<lambda>k. None) now
     = Inr \<lparr> r_from = now - HOUR, r_to = now, r_step = 10, r_table = Flows, r_col = Ts \<rparr>
   \<and> (\<forall>q e. parseRange q now = Inl e \<longrightarrow> statusCode e = 400)
   \<and> (\<forall>q xs. q ''to'' = Some (QArr xs) \<longrightarrow> (\<exists>e. parseRange q now = Inl e))"
proof -
  have "max (defaultStep HOUR) (min_step True HOUR) = 10" "nice_step 10 = 10" by code_simp+
  then have "range_of (now - HOUR) now None
      = \<lparr> r_from = now - HOUR, r_to = now, r_step = 10, r_table = Flows, r_col = Ts \<rparr>"
    by (simp add: range_of_def Let_def HOUR_def)
  moreover have "now - HOUR < now" "max (now - HOUR) (now - MAX_SPAN) = now - HOUR"
    by (simp_all add: HOUR_def MAX_SPAN_def DAY_def)
  moreover have "intParam (\<lambda>k. None) name mn = Inr None" for name mn by (simp add: intParam_def)
  ultimately have "parseRange (\<lambda>k. None) now
      = Inr \<lparr> r_from = now - HOUR, r_to = now, r_step = 10, r_table = Flows, r_col = Ts \<rparr>"
    by (simp add: parseRange_def range_of_def Let_def DEFAULT_SPAN_def)
  moreover have "statusCode e = 400" if "parseRange q now = Inl e" for q e
  proof -
    have p400: "statusCode e' = 400" if "intParam q name mn = Inl e'" for name mn e'
      using that by (auto simp: intParam_def badRequest_def split: option.splits if_splits qval.splits)
    show ?thesis
      using that unfolding parseRange_def Let_def bind_res_Inl_iff
      by (auto simp: bind_res_Inl_iff badRequest_def dest: p400 split: if_splits)
  qed
  moreover have "\<exists>e. parseRange q now = Inl e" if "q ''to'' = Some (QArr xs)" for q xs
    using that by (simp add: parseRange_def intParam_def)
  ultimately show ?thesis by blast
qed

theorem parseRange_defaults_errors_witness:
  "\<exists>e. parseRange [''to'' \<mapsto> QArr [''1'', ''2'']] 5 = Inl e \<and> statusCode e = 400"
  using parseRange_defaults_errors [of 5] by (metis fun_upd_same)

end
