(* ===== verification/Ip.thy ===== *)
theory Ip
  imports Prelude
begin

unbundle bit_operations_syntax

text \<open>
  \<^verbatim>\<open>web/src/server/geo/ip.ts\<close>: IP text to numbers, and the address scopes the geo views set apart.
  An IPv4 address is a natural number below \<open>2^32\<close>, an IPv6 address one below \<open>2^128\<close> (a
  \<open>bigint\<close> in the source). The regular expressions of the source are the predicates
  \<open>digits_between\<close> and \<open>hex_between\<close> on the parts of a split.
\<close>

section \<open>Hexadecimal digits\<close>

definition is_hex :: "char \<Rightarrow> bool" where
  "is_hex c \<longleftrightarrow> is_digit c \<or> (97 \<le> (of_char c :: nat) \<and> (of_char c :: nat) \<le> 102)
     \<or> (65 \<le> (of_char c :: nat) \<and> (of_char c :: nat) \<le> 70)"

definition hex_digit_val :: "char \<Rightarrow> nat" where
  "hex_digit_val c = (let n = of_char c in if n \<le> 57 then n - 48 else if n \<le> 70 then n - 55 else n - 87)"

text \<open>\<open>parseInt(w, 16)\<close> of a hexadecimal word, and \<open>n.toString(16)\<close>.\<close>

definition hex_val :: "string \<Rightarrow> nat" where
  "hex_val s = foldl (\<lambda>n c. n * 16 + hex_digit_val c) 0 s"

definition hex_between :: "nat \<Rightarrow> nat \<Rightarrow> string \<Rightarrow> bool" where
  "hex_between lo hi s \<longleftrightarrow> lo \<le> length s \<and> length s \<le> hi \<and> list_all is_hex s"

definition hex_char :: "nat \<Rightarrow> char" where
  "hex_char n = (if n < 10 then char_of (48 + n) else char_of (87 + n))"

fun string_of_hex :: "nat \<Rightarrow> string" where
  "string_of_hex n = (if n < 16 then [hex_char n] else string_of_hex (n div 16) @ [hex_char (n mod 16)])"

declare string_of_hex.simps [simp del]

section \<open>Parsing\<close>

datatype ParsedIp = V4 nat | V6 nat

text \<open>\<open>V4.exec(text)\<close>: the four captured groups.\<close>

definition V4_exec :: "string \<Rightarrow> string list option" where
  "V4_exec text = (let m = split_char CHR ''.'' text in
     if length m = 4 \<and> list_all (digits_between 1 3) m then Some m else None)"

fun v4_loop :: "string list \<Rightarrow> nat \<Rightarrow> nat option" where
  "v4_loop [] n = Some n"
| "v4_loop (m # ms) n = (let oct = dec_val m in if oct > 255 then None else v4_loop ms (n * 256 + oct))"

definition parseV4 :: "string \<Rightarrow> nat option" where
  "parseV4 text = (case V4_exec text of None \<Rightarrow> None | Some m \<Rightarrow> v4_loop m 0)"

definition words :: "string \<Rightarrow> string list" where
  "words h = (if h = [] then [] else split_char CHR '':'' h)"

fun v6_loop :: "string list \<Rightarrow> nat \<Rightarrow> nat option" where
  "v6_loop [] n = Some n"
| "v6_loop (w # ws) n =
     (if \<not> hex_between 1 4 w then None else v6_loop ws (push_bit 16 n OR hex_val w))"

text \<open>The dotted tail of \<open>::ffff:1.2.3.4\<close> rewritten as two hexadecimal words.\<close>

definition dotted_tail :: "string \<Rightarrow> nat \<Rightarrow> string option" where
  "dotted_tail s lastColon =
     (if (case index_of_from CHR ''.'' lastColon s of None \<Rightarrow> False | Some i \<Rightarrow> 0 < i) then
        (case parseV4 (drop (lastColon + 1) s) of
           None \<Rightarrow> None
         | Some v4 \<Rightarrow> Some (take (lastColon + 1) s @ string_of_hex (drop_bit 16 v4) @ '':''
                             @ string_of_hex (v4 AND 65535)))
      else Some s)"

definition v6_words :: "string \<Rightarrow> nat option" where
  "v6_words s = (let halves = split ''::'' s in
     if length halves > 2 then None else
     let head = words (halves ! 0);
         rest = (if length halves = 2 then words (halves ! 1) else []);
         given = length head + length rest in
     if (if length halves = 1 then given \<noteq> 8 else given > 7) then None
     else v6_loop (head @ replicate (8 - given) ''0'' @ rest) 0)"

definition parseV6 :: "string \<Rightarrow> nat option" where
  "parseV6 text = (case last_index_of CHR '':'' text of
       None \<Rightarrow> None
     | Some lastColon \<Rightarrow> (case dotted_tail text lastColon of
           None \<Rightarrow> None
         | Some s \<Rightarrow> v6_words s))"

definition parseIp :: "string \<Rightarrow> ParsedIp option" where
  "parseIp text = (case parseV4 text of
       Some v4 \<Rightarrow> Some (V4 v4)
     | None \<Rightarrow> (case parseV6 text of
           None \<Rightarrow> None
         | Some v6 \<Rightarrow> if drop_bit 32 v6 = 65535 then Some (V4 (v6 AND 4294967295)) else Some (V6 v6)))"

section \<open>Scopes\<close>

datatype IpScope = Public | Private | Loopback | Link_local | Multicast | Unspecified

definition inV4 :: "nat \<Rightarrow> string \<Rightarrow> nat \<Rightarrow> bool" where
  "inV4 n base bits = (case parseV4 base of None \<Rightarrow> False | Some b \<Rightarrow> b \<le> n \<and> n < b + 2 ^ (32 - bits))"

definition inV6 :: "nat \<Rightarrow> string \<Rightarrow> nat \<Rightarrow> bool" where
  "inV6 n base bits = (case parseV6 base of None \<Rightarrow> False
     | Some b \<Rightarrow> drop_bit (128 - bits) n = drop_bit (128 - bits) b)"

fun ipScope :: "ParsedIp \<Rightarrow> IpScope" where
  "ipScope (V4 n) =
     (if n = 0 then Unspecified
      else if inV4 n ''127.0.0.0'' 8 then Loopback
      else if inV4 n ''169.254.0.0'' 16 then Link_local
      else if inV4 n ''224.0.0.0'' 4 \<or> n = 4294967295 then Multicast
      else if inV4 n ''10.0.0.0'' 8 \<or> inV4 n ''172.16.0.0'' 12 \<or> inV4 n ''192.168.0.0'' 16
           \<or> inV4 n ''100.64.0.0'' 10 \<or> inV4 n ''0.0.0.0'' 8 then Private
      else if inV4 n ''240.0.0.0'' 4 then Private
      else Public)"
| "ipScope (V6 n) =
     (if n = 0 then Unspecified
      else if n = 1 then Loopback
      else if inV6 n ''fe80::'' 10 then Link_local
      else if inV6 n ''ff00::'' 8 then Multicast
      else if inV6 n ''fc00::'' 7 then Private
      else Public)"

section \<open>Hexadecimal round trip\<close>

lemma hex_char_simps [simp]:
  assumes "n < 16"
  shows "is_hex (hex_char n)" and "hex_digit_val (hex_char n) = n"
  using assms by (auto simp: is_hex_def is_digit_def hex_char_def hex_digit_val_def Let_def)

lemma hex_val_snoc [simp]: "hex_val (s @ [c]) = hex_val s * 16 + hex_digit_val c"
  by (simp add: hex_val_def)

lemma hex_digit_val_less: "is_hex c \<Longrightarrow> hex_digit_val c < 16"
  by (auto simp: is_hex_def is_digit_def hex_digit_val_def Let_def)

lemma hex_val_less: "list_all is_hex s \<Longrightarrow> hex_val s < 16 ^ length s"
proof (induction s rule: rev_induct)
  case (snoc c s)
  then have "hex_val s < 16 ^ length s" "hex_digit_val c < 16" by (auto intro: hex_digit_val_less)
  then show ?case by simp
qed (simp add: hex_val_def)

lemma string_of_hex_hex: "list_all is_hex (string_of_hex n)"
proof (induction n rule: string_of_hex.induct)
  case (1 n)
  then show ?case by (cases "n < 16") (auto simp: string_of_hex.simps [of n])
qed

lemma hex_val_string_of_hex [simp]: "hex_val (string_of_hex n) = n"
proof (induction n rule: string_of_hex.induct)
  case (1 n)
  then show ?case
    by (cases "n < 16") (auto simp: string_of_hex.simps [of n] hex_val_def)
qed

lemma string_of_hex_neq_Nil [simp]: "string_of_hex n \<noteq> []"
  by (simp add: string_of_hex.simps [of n])

lemma length_string_of_hex: "n < 16 ^ k \<Longrightarrow> 0 < k \<Longrightarrow> length (string_of_hex n) \<le> k"
proof (induction n arbitrary: k rule: string_of_hex.induct)
  case (1 n)
  show ?case
  proof (cases "n < 16")
    case True
    with 1 show ?thesis by (simp add: string_of_hex.simps [of n])
  next
    case False
    then obtain j where k: "k = Suc j" "0 < j"
      using 1 by (cases k; cases "k - 1") auto
    with 1 have "n div 16 < 16 ^ j" by auto
    with False k "1.IH" [of j] show ?thesis by (simp add: string_of_hex.simps [of n])
  qed
qed

lemma string_of_hex_between: "n < 65536 \<Longrightarrow> hex_between (Suc 0) 4 (string_of_hex n)"
  using length_string_of_hex [of n 4] by (simp add: hex_between_def string_of_hex_hex Suc_le_eq)

lemma not_hex [simp]: "\<not> is_hex CHR '':''" "\<not> is_hex CHR ''.''"
  by (simp_all add: is_hex_def)

lemma not_in_hex: "\<not> is_hex c \<Longrightarrow> list_all is_hex s \<Longrightarrow> c \<notin> set s"
  by (auto simp: list_all_iff)

section \<open>Bounds\<close>

lemma v4_loop_less: "v4_loop ms n = Some r \<Longrightarrow> r < (n + 1) * 256 ^ length ms"
proof (induction ms arbitrary: n)
  case (Cons m ms)
  then have oct: "dec_val m \<le> 255" and r: "v4_loop ms (n * 256 + dec_val m) = Some r"
    by (auto simp: Let_def split: if_splits)
  from Cons.IH [OF r] have "r < (n * 256 + dec_val m + 1) * 256 ^ length ms" .
  also have "\<dots> \<le> ((n + 1) * 256) * 256 ^ length ms" using oct by (intro mult_right_mono) auto
  finally show ?case by (simp only: length_Cons power_Suc mult_ac)
qed simp

lemma parseV4_less [bounds]: "parseV4 s = Some n \<Longrightarrow> n < 2 ^ 32"
  using v4_loop_less [where n = 0 and r = n]
  by (fastforce simp: parseV4_def V4_exec_def Let_def split: option.splits if_splits)

lemma push_or_eq: "h < 65536 \<Longrightarrow> push_bit 16 n OR h = n * 65536 + (h :: nat)"
proof -
  assume "h < 65536"
  then have h: "take_bit 16 h = h" by (simp add: take_bit_nat_eq_self)
  have "push_bit 16 n AND h = 0"
    by (rule bit_eqI) (subst h [symmetric], auto simp: bit_simps)
  then have "push_bit 16 n OR h = push_bit 16 n + h" by (rule disjunctive_add_eq_or [symmetric])
  then show ?thesis by (simp add: push_bit_eq_mult)
qed

lemma hex_between_less: "hex_between lo 4 w \<Longrightarrow> hex_val w < 65536"
proof -
  assume "hex_between lo 4 w"
  then have "hex_val w < 16 ^ length w" "length w \<le> 4" by (auto simp: hex_between_def hex_val_less)
  moreover from this have "(16::nat) ^ length w \<le> 16 ^ 4" by (intro power_increasing) auto
  ultimately show ?thesis by simp
qed

lemma v6_loop_Cons:
  "v6_loop (w # ws) n = (if hex_between 1 4 w then v6_loop ws (n * 65536 + hex_val w) else None)"
  by (simp add: push_or_eq hex_between_less)

lemma v6_loop_less: "v6_loop ws n = Some r \<Longrightarrow> r < (n + 1) * 65536 ^ length ws"
proof (induction ws arbitrary: n)
  case (Cons w ws)
  then have w: "hex_val w < 65536" and r: "v6_loop ws (n * 65536 + hex_val w) = Some r"
    by (auto simp only: v6_loop_Cons hex_between_less split: if_splits)
  from Cons.IH [OF r] have "r < (n * 65536 + hex_val w + 1) * 65536 ^ length ws" .
  also have "\<dots> \<le> ((n + 1) * 65536) * 65536 ^ length ws" using w by (intro mult_right_mono) auto
  finally show ?case by (simp only: length_Cons power_Suc mult_ac)
qed simp

lemma v6_words_less: "v6_words s = Some n \<Longrightarrow> n < 2 ^ 128"
  using v6_loop_less [where n = 0 and r = n]
  by (fastforce simp: v6_words_def Let_def split: option.splits if_splits)

lemma parseV6_less [bounds]: "parseV6 s = Some n \<Longrightarrow> n < 2 ^ 128"
  by (auto simp: parseV6_def split: option.splits dest: v6_words_less)

section \<open>Printing and parsing\<close>

text \<open>Reference printers: dotted quad, and eight colon-separated hexadecimal words.\<close>

definition v4_octets :: "nat \<Rightarrow> nat list" where
  "v4_octets n = [n div 16777216, n div 65536 mod 256, n div 256 mod 256, n mod 256]"

definition show_v4 :: "nat \<Rightarrow> string" where
  "show_v4 n = join ''.'' (map string_of_nat (v4_octets n))"

fun hex_groups :: "nat \<Rightarrow> nat \<Rightarrow> nat list" where
  "hex_groups 0 n = []"
| "hex_groups (Suc k) n = hex_groups k (n div 65536) @ [n mod 65536]"

definition v6_groups :: "nat \<Rightarrow> nat list" where
  "v6_groups n = hex_groups 8 n"

definition show_v6 :: "nat \<Rightarrow> string" where
  "show_v6 n = join '':'' (map string_of_hex (v6_groups n))"

lemma parseV4_join:
  assumes "length os = 4" and "\<forall>oct \<in> set os. oct < 256"
  shows "parseV4 (join ''.'' (map string_of_nat os)) = Some (foldl (\<lambda>n oct. n * 256 + oct) 0 os)"
proof -
  have ok: "digits_between (Suc 0) 3 (string_of_nat oct)" if "oct < 256" for oct
    using that by (intro string_of_nat_between) auto
  have nodot: "\<forall>w \<in> set (map string_of_nat os). CHR ''.'' \<notin> set w"
    by (simp add: not_in_digits string_of_nat_digits)
  have "V4_exec (join ''.'' (map string_of_nat os)) = Some (map string_of_nat os)"
  proof -
    have "split_char CHR ''.'' (join ''.'' (map string_of_nat os)) = map string_of_nat os"
      using assms(1) by (intro split_char_join nodot) auto
    then show ?thesis using assms by (simp add: V4_exec_def list_all_iff ok)
  qed
  moreover have "v4_loop (map string_of_nat os) n = Some (foldl (\<lambda>n oct. n * 256 + oct) n os)"
    if "\<forall>oct \<in> set os. oct < 256" for os n
    using that by (induction os arbitrary: n) (auto simp: Let_def)
  ultimately show ?thesis using assms by (simp add: parseV4_def)
qed

lemma v4_octets_fold: "n < 2 ^ 32 \<Longrightarrow> foldl (\<lambda>n oct. n * 256 + oct) 0 (v4_octets n) = n"
proof -
  have d: "n div 65536 = n div 256 div 256" "n div 16777216 = n div 256 div 256 div 256"
    by (simp_all flip: div_mult2_eq)
  show ?thesis
    by (simp add: v4_octets_def d)
qed

lemma parseV4_show_v4: "n < 2 ^ 32 \<Longrightarrow> parseV4 (show_v4 n) = Some n"
proof -
  assume n: "n < 2 ^ 32"
  have "parseV4 (show_v4 n) = Some (foldl (\<lambda>n oct. n * 256 + oct) 0 (v4_octets n))"
    unfolding show_v4_def using n by (intro parseV4_join) (auto simp: v4_octets_def)
  with n show ?thesis by (simp add: v4_octets_fold)
qed

text \<open>A text of non-empty colon-separated words has no \<open>::\<close>.\<close>

lemma split_acc_word:
  "CHR '':'' \<notin> set w \<Longrightarrow> split_acc ''::'' acc (w @ s) = split_acc ''::'' (rev w @ acc) s"
  by (induction w arbitrary: acc) (auto simp: starts_with_def)

lemma split_acc_words:
  assumes "ws \<noteq> []" and "\<forall>w \<in> set ws. w \<noteq> [] \<and> CHR '':'' \<notin> set w"
  shows "split_acc ''::'' acc (join '':'' ws) = [rev acc @ join '':'' ws]"
  using assms
proof (induction "'':''" ws arbitrary: acc rule: join.induct)
  case (2 w)
  then show ?case using split_acc_word [of w acc "[]"] by simp
next
  case (3 w v vs)
  then have "\<exists>c cs. join '':'' (v # vs) = c # cs \<and> c \<noteq> CHR '':''"
    by (cases v; cases vs) auto
  then have "\<not> starts_with ''::'' (CHR '':'' # join '':'' (v # vs))"
    by (auto simp: starts_with_def)
  with 3 show ?case by (simp add: split_acc_word)
qed simp

lemma v6_wordD: "hex_between (Suc 0) 4 w \<Longrightarrow> w \<noteq> [] \<and> CHR '':'' \<notin> set w \<and> CHR ''.'' \<notin> set w"
  by (auto simp: hex_between_def not_in_hex)

lemma words_join:
  assumes "ws \<noteq> []" and "\<forall>w \<in> set ws. hex_between (Suc 0) 4 w"
  shows "words (join '':'' ws) = ws" and "split ''::'' (join '':'' ws) = [join '':'' ws]"
    and "split ''::'' (CHR '':'' # CHR '':'' # join '':'' ws) = [[], join '':'' ws]"
proof -
  have ws: "\<forall>w \<in> set ws. w \<noteq> [] \<and> CHR '':'' \<notin> set w" using assms v6_wordD by blast
  have "join '':'' ws \<noteq> []" using assms ws by (cases ws; cases "tl ws") auto
  then show "words (join '':'' ws) = ws"
    using assms ws by (simp add: words_def split_char_join)
  show "split ''::'' (join '':'' ws) = [join '':'' ws]"
    using split_acc_words [OF assms(1) ws] by (simp add: split_def)
  show "split ''::'' (CHR '':'' # CHR '':'' # join '':'' ws) = [[], join '':'' ws]"
    using split_acc_words [OF assms(1) ws, of "[]"] by (simp add: split_def starts_with_def)
qed

lemma v6_loop_hex:
  assumes "\<forall>g \<in> set gs. g < 65536"
  shows "v6_loop (map string_of_hex gs) n = Some (foldl (\<lambda>n g. n * 65536 + g) n gs)"
  using assms
  by (induction gs arbitrary: n) (auto simp del: v6_loop.simps(2) simp: v6_loop_Cons string_of_hex_between)

lemma v6_words_join:
  assumes "length gs = 8" and "\<forall>g \<in> set gs. g < 65536"
  shows "v6_words (join '':'' (map string_of_hex gs)) = Some (foldl (\<lambda>n g. n * 65536 + g) 0 gs)"
proof -
  have "map string_of_hex gs \<noteq> []" "\<forall>w \<in> set (map string_of_hex gs). hex_between (Suc 0) 4 w"
    using assms by (auto simp: string_of_hex_between)
  note w = words_join [OF this]
  show ?thesis using assms by (simp add: v6_words_def w v6_loop_hex)
qed

lemma v6_words_compressed:
  assumes "gs \<noteq> []" "length gs \<le> 7" and "\<forall>g \<in> set gs. g < 65536"
  shows "v6_words (''::'' @ join '':'' (map string_of_hex gs)) = Some (foldl (\<lambda>n g. n * 65536 + g) 0 gs)"
proof -
  have "map string_of_hex gs \<noteq> []" "\<forall>w \<in> set (map string_of_hex gs). hex_between (Suc 0) 4 w"
    using assms by (auto simp: string_of_hex_between)
  note w = words_join [OF this]
  have zeros: "v6_loop (replicate k ''0'' @ ws) 0 = v6_loop ws 0" for k ws
  proof (induction k)
    case (Suc k)
    moreover have "hex_between (Suc 0) 4 ''0''" "hex_val ''0'' = 0"
      by (simp_all add: hex_between_def is_hex_def is_digit_def hex_val_def hex_digit_val_def)
    ultimately show ?case by (simp del: v6_loop.simps(2) add: v6_loop_Cons)
  qed simp
  show ?thesis
    using assms by (simp add: v6_words_def w zeros v6_loop_hex words_def [of "[]"])
qed

text \<open>A text without a dot after its last colon is not touched by the dotted-tail rewrite.\<close>

lemma dotted_tail_id:
  assumes "CHR ''.'' \<notin> set s" shows "dotted_tail s i = Some s"
proof -
  have "CHR ''.'' \<notin> set (drop i s)" using assms in_set_dropD by fast
  then have "index_of_from CHR ''.'' i s = None" by (simp add: index_of_from_def)
  then show ?thesis by (simp add: dotted_tail_def)
qed

lemma set_join: "c \<in> set (join sep ws) \<Longrightarrow> c \<in> set sep \<or> (\<exists>w \<in> set ws. c \<in> set w)"
  by (induction sep ws rule: join.induct) auto

lemma hex_groups_less: "\<forall>g \<in> set (hex_groups k n). g < 65536"
  by (induction k arbitrary: n) auto

lemma length_hex_groups [simp]: "length (hex_groups k n) = k"
  by (induction k arbitrary: n) auto

lemma hex_groups_fold: "n < 65536 ^ k \<Longrightarrow> foldl (\<lambda>n g. n * 65536 + g) 0 (hex_groups k n) = n"
proof (induction k arbitrary: n)
  case (Suc k)
  then have "n div 65536 < 65536 ^ k" by (simp add: less_mult_imp_div_less mult.commute)
  from Suc.IH [OF this] show ?case by simp
qed simp

lemma parseV6_show_v6: "n < 2 ^ 128 \<Longrightarrow> parseV6 (show_v6 n) = Some n"
proof -
  assume n: "n < 2 ^ 128"
  let ?ws = "map string_of_hex (v6_groups n)"
  have hex: "CHR '':'' \<notin> set w" "CHR ''.'' \<notin> set w" if "w \<in> set ?ws" for w
    using that by (auto simp: not_in_hex string_of_hex_hex)
  have "CHR ''.'' \<notin> set (show_v6 n)"
    using hex by (fastforce simp: show_v6_def dest: set_join)
  then have tail: "dotted_tail (show_v6 n) i = Some (show_v6 n)" for i by (rule dotted_tail_id)
  have colon: "CHR '':'' \<in> set (show_v6 n)"
  proof -
    have "length ?ws = 8" by (simp add: v6_groups_def)
    then obtain a b cs where "?ws = a # b # cs" by (cases ?ws; cases "tl ?ws") auto
    then show ?thesis by (simp add: show_v6_def)
  qed
  have "v6_words (show_v6 n) = Some (foldl (\<lambda>n g. n * 65536 + g) 0 (v6_groups n))"
    unfolding show_v6_def by (intro v6_words_join) (auto simp: v6_groups_def hex_groups_less)
  moreover have "foldl (\<lambda>n g. n * 65536 + g) 0 (v6_groups n) = n"
    unfolding v6_groups_def using n by (intro hex_groups_fold) simp
  ultimately show ?thesis
    using colon tail by (cases "last_index_of CHR '':'' (show_v6 n)") (auto simp: parseV6_def)
qed

text \<open>An IPv4 text after \<open>::ffff:\<close> reads as the same IPv4 address.\<close>

lemma parseV4_chars: "parseV4 s = Some n \<Longrightarrow> c \<in> set s \<Longrightarrow> is_digit c \<or> c = CHR ''.''"
proof -
  assume "parseV4 s = Some n" and c: "c \<in> set s"
  then have "list_all (digits_between 1 3) (split_char CHR ''.'' s)"
    by (auto simp: parseV4_def V4_exec_def Let_def split: option.splits if_splits)
  moreover have "s = join [CHR ''.''] (split_char CHR ''.'' s)" by (simp add: join_split_char)
  ultimately show ?thesis
    using c set_join [of c "''.''" "split_char CHR ''.'' s"]
    by (auto simp: list_all_iff digits_between_def)
qed

lemma parseV4_dot: "parseV4 s = Some n \<Longrightarrow> CHR ''.'' \<in> set s"
proof (rule ccontr)
  assume "parseV4 s = Some n" and "CHR ''.'' \<notin> set s"
  then show False by (simp add: parseV4_def V4_exec_def split_char_no_sep)
qed

lemma parseV6_mapped:
  assumes "parseV4 s = Some n"
  shows "parseV6 (''::ffff:'' @ s) = Some (65535 * 2 ^ 32 + n)"
proof -
  have n: "n < 2 ^ 32" using assms by (rule parseV4_less)
  have noc: "CHR '':'' \<notin> set s" using parseV4_chars [OF assms] by fastforce
  let ?gs = "[65535, drop_bit 16 n, n AND 65535]"
  have low16: "n AND 65535 = n mod 65536"
    using take_bit_eq_mask [of 16 n] by (simp add: take_bit_eq_mod mask_eq_exp_minus_1)
  have gs: "\<forall>g \<in> set ?gs. g < 65536"
  proof -
    have "drop_bit 16 n < 65536" using n by (simp add: drop_bit_eq_div less_mult_imp_div_less)
    then show ?thesis unfolding low16 by simp
  qed
  have last: "last_index_of CHR '':'' (''::ffff:'' @ s) = Some 6"
    using last_index_of_append [OF noc, of "''::ffff''"] by simp
  have "index_of CHR ''.'' s \<noteq> None" using parseV4_dot [OF assms] by simp
  then have dot: "index_of_from CHR ''.'' 6 (''::ffff:'' @ s) \<noteq> None"
    by (simp add: index_of_from_def)
  have hexffff: "string_of_hex 65535 = ''ffff''" by code_simp
  have tail: "dotted_tail (''::ffff:'' @ s) 6 = Some (''::'' @ join '':'' (map string_of_hex ?gs))"
    using dot assms by (auto simp: dotted_tail_def hexffff index_of_from_def split: option.splits)
  have fold: "foldl (\<lambda>n g. n * 65536 + g) 0 ?gs = 65535 * 2 ^ 32 + n"
    by (simp add: low16 drop_bit_eq_div)
  have "v6_words (''::'' @ join '':'' (map string_of_hex ?gs)) = Some (65535 * 2 ^ 32 + n)"
    using v6_words_compressed [OF _ _ gs] by (simp only: fold) simp
  then show ?thesis by (simp only: parseV6_def last tail option.case)
qed

section \<open>CIDR blocks\<close>

text \<open>
  The two block tests agree with the usual reading of a prefix: the first \<open>bits\<close> bits of the
  address are those of the base.
\<close>

lemma inV4_prefix:
  assumes "parseV4 base = Some b" and "2 ^ (32 - bits) dvd b"
  shows "inV4 n base bits \<longleftrightarrow> drop_bit (32 - bits) n = drop_bit (32 - bits) b"
proof -
  let ?m = "2 ^ (32 - bits) :: nat"
  from assms(2) obtain q where b: "b = ?m * q" by blast
  have "n div ?m = q \<longleftrightarrow> ?m * q \<le> n \<and> n < ?m * q + ?m"
    by (auto simp: div_nat_eqI mult.commute algebra_simps times_div_less_eq_dividend
        dividend_less_times_div intro: div_nat_eqI)
  then show ?thesis by (simp add: inV4_def assms(1) drop_bit_eq_div b)
qed

lemma v4_blocks:
  "parseV4 ''127.0.0.0'' = Some 2130706432" "parseV4 ''169.254.0.0'' = Some 2851995648"
  "parseV4 ''224.0.0.0'' = Some 3758096384" "parseV4 ''10.0.0.0'' = Some 167772160"
  "parseV4 ''172.16.0.0'' = Some 2886729728" "parseV4 ''192.168.0.0'' = Some 3232235520"
  "parseV4 ''100.64.0.0'' = Some 1681915904" "parseV4 ''0.0.0.0'' = Some 0"
  "parseV4 ''240.0.0.0'' = Some 4026531840"
  by code_simp+

lemma v6_blocks:
  "parseV6 ''fe80::'' = Some 338288524927261089654018896841347694592"
  "parseV6 ''ff00::'' = Some 338953138925153547590470800371487866880"
  "parseV6 ''fc00::'' = Some 334965454937798799971759379190646833152"
  by code_simp+

section \<open>Properties\<close>

lemma parseV4_colon: "CHR '':'' \<in> set s \<Longrightarrow> parseV4 s = None"
  using parseV4_chars [of s _ "CHR '':''"] by (cases "parseV4 s") auto

lemma show_v6_colon: "CHR '':'' \<in> set (show_v6 n)"
proof -
  obtain a b cs where "map string_of_hex (v6_groups n) = a # b # cs"
    by (cases "map string_of_hex (v6_groups n)"; cases "tl (map string_of_hex (v6_groups n))")
      (auto simp: v6_groups_def dest: arg_cong [where f = length])
  then show ?thesis by (simp add: show_v6_def)
qed

lemma mapped_bits:
  assumes "n < 2 ^ 32"
  shows "drop_bit 32 (65535 * 2 ^ 32 + n) = (65535 :: nat)" "(65535 * 2 ^ 32 + n) AND 4294967295 = n"
proof -
  show "drop_bit 32 (65535 * 2 ^ 32 + n) = (65535 :: nat)"
    using assms by (simp add: drop_bit_eq_div)
  have "(65535 * 2 ^ 32 + n) AND 4294967295 = (65535 * 2 ^ 32 + n) mod 2 ^ 32"
    using take_bit_eq_mask [of 32 "65535 * 2 ^ 32 + n"] by (simp add: take_bit_eq_mod mask_eq_exp_minus_1)
  also have "\<dots> = n mod 2 ^ 32" by (rule mod_mult_self3)
  also have "\<dots> = n" using assms by simp
  finally show "(65535 * 2 ^ 32 + n) AND 4294967295 = n" .
qed

text \<open>
  (C37) Reading back a printed address: a dotted quad parses to its 32-bit number, also in the
  IPv4-mapped form \<open>::ffff:a.b.c.d\<close>, and eight hexadecimal words parse to their 128-bit number,
  unless that number is IPv4-mapped.
\<close>
theorem parseIp_roundtrip:
  assumes "a < 2 ^ 32" and "b < 2 ^ 128" and "drop_bit 32 b \<noteq> 65535"
  shows "parseIp (show_v4 a) = Some (V4 a) \<and> parseIp (''::ffff:'' @ show_v4 a) = Some (V4 a)
    \<and> parseIp (show_v6 b) = Some (V6 b)"
proof -
  note v4 = parseV4_show_v4 [OF assms(1)]
  have "parseV4 (''::ffff:'' @ show_v4 a) = None" by (rule parseV4_colon) simp
  with parseV6_mapped [OF v4] mapped_bits [OF assms(1)]
  have "parseIp (''::ffff:'' @ show_v4 a) = Some (V4 a)" by (simp add: parseIp_def)
  moreover have "parseIp (show_v6 b) = Some (V6 b)"
    using parseV6_show_v6 [OF assms(2)] assms(3) parseV4_colon [OF show_v6_colon]
    by (simp add: parseIp_def)
  ultimately show ?thesis by (simp add: parseIp_def v4)
qed

theorem parseIp_roundtrip_witness:
  "parseIp (show_v4 3232235777) = Some (V4 3232235777)
    \<and> parseIp (''::ffff:'' @ show_v4 3232235777) = Some (V4 3232235777)
    \<and> parseIp (show_v6 42540766411282592856903984951653826561) = Some (V6 42540766411282592856903984951653826561)"
  by (rule parseIp_roundtrip) code_simp+

text \<open>
  Whatever text is parsed, the number fits the width of its family, and an IPv6 result is
  never an IPv4-mapped address: every mapped address comes out as IPv4.
\<close>
theorem parseIp_range:
  assumes "parseIp s = Some ip"
  shows "case ip of V4 n \<Rightarrow> n < 2 ^ 32 | V6 n \<Rightarrow> n < 2 ^ 128 \<and> drop_bit 32 n \<noteq> 65535"
proof -
  have mask: "n AND 4294967295 < 2 ^ 32" for n :: nat
    using take_bit_eq_mask [of 32 n, symmetric] take_bit_nat_less_exp [of 32 n]
    by (simp add: mask_eq_exp_minus_1)
  show ?thesis
    using assms parseV4_less [of s] parseV6_less [of s] mask
    by (auto simp: parseIp_def split: option.splits if_splits)
qed

theorem parseIp_range_witness:
  "parseIp ''2001:db8::1'' = Some (V6 42540766411282592856903984951653826561)
    \<and> (42540766411282592856903984951653826561 :: nat) < 2 ^ 128
    \<and> drop_bit 32 (42540766411282592856903984951653826561 :: nat) \<noteq> 65535"
proof -
  have p: "parseIp ''2001:db8::1'' = Some (V6 42540766411282592856903984951653826561)" by code_simp
  show ?thesis using p parseIp_range [OF p] by simp
qed

lemma octet_pair:
  fixes a b k l h :: nat
  assumes "b < 256" "l < 256" "h < 256"
  shows "k * 256 + l \<le> a * 256 + b \<and> a * 256 + b \<le> k * 256 + h \<longleftrightarrow> a = k \<and> l \<le> b \<and> b \<le> h"
proof (cases a k rule: linorder_cases)
  case less
  then have "(a + 1) * 256 \<le> k * 256" by (intro mult_right_mono) auto
  with assms less show ?thesis by auto
next
  case greater
  then have "(k + 1) * 256 \<le> a * 256" by (intro mult_right_mono) auto
  with assms greater show ?thesis by auto
qed auto

text \<open>
  The scope of the IPv4 address \<open>a.b.c.d\<close>, by its octets: which blocks count as loopback,
  link-local, multicast and private, and that everything else is public.
\<close>
theorem ipScope_octets:
  assumes "a < 256" "b < 256" "c < 256" "d < 256"
  shows "ipScope (V4 (((a * 256 + b) * 256 + c) * 256 + d)) =
    (if a = 0 \<and> b = 0 \<and> c = 0 \<and> d = 0 then Unspecified
     else if a = 127 then Loopback
     else if a = 169 \<and> b = 254 then Link_local
     else if 224 \<le> a \<and> a \<le> 239 \<or> a = 255 \<and> b = 255 \<and> c = 255 \<and> d = 255 then Multicast
     else if a = 10 \<or> a = 172 \<and> 16 \<le> b \<and> b \<le> 31 \<or> a = 192 \<and> b = 168
          \<or> a = 100 \<and> 64 \<le> b \<and> b \<le> 127 \<or> a = 0 \<or> 240 \<le> a then Private
     else Public)"
proof -
  define n where "n = ((a * 256 + b) * 256 + c) * 256 + d"
  have n: "n = a * 16777216 + b * 65536 + c * 256 + d" by (simp add: n_def)
  define m r where "m = a * 256 + b" and "r = c * 256 + d"
  have mr: "n = m * 65536 + r" "r < 65536" using assms by (simp_all add: n m_def r_def)
  have "inV4 n ''127.0.0.0'' 8 \<longleftrightarrow> a = 127" "inV4 n ''10.0.0.0'' 8 \<longleftrightarrow> a = 10"
    "inV4 n ''0.0.0.0'' 8 \<longleftrightarrow> a = 0" "inV4 n ''224.0.0.0'' 4 \<longleftrightarrow> 224 \<le> a \<and> a \<le> 239"
    "inV4 n ''240.0.0.0'' 4 \<longleftrightarrow> 240 \<le> a"
    using assms unfolding inV4_def v4_blocks n by (simp, linarith)+
  moreover have "inV4 n ''169.254.0.0'' 16 \<longleftrightarrow> 169 * 256 + 254 \<le> m \<and> m \<le> 169 * 256 + 254"
    "inV4 n ''192.168.0.0'' 16 \<longleftrightarrow> 192 * 256 + 168 \<le> m \<and> m \<le> 192 * 256 + 168"
    "inV4 n ''172.16.0.0'' 12 \<longleftrightarrow> 172 * 256 + 16 \<le> m \<and> m \<le> 172 * 256 + 31"
    "inV4 n ''100.64.0.0'' 10 \<longleftrightarrow> 100 * 256 + 64 \<le> m \<and> m \<le> 100 * 256 + 127"
    using mr(2) unfolding inV4_def v4_blocks mr(1) by (simp, linarith)+
  moreover have "b \<le> 254 \<and> 254 \<le> b \<longleftrightarrow> b = 254" "b \<le> 168 \<and> 168 \<le> b \<longleftrightarrow> b = 168" by auto
  moreover note octet_pair [OF assms(2), of 254 254 169 a, folded m_def]
    octet_pair [OF assms(2), of 168 168 192 a, folded m_def]
    octet_pair [OF assms(2), of 16 31 172 a, folded m_def]
    octet_pair [OF assms(2), of 64 127 100 a, folded m_def]
  moreover have "n = 0 \<longleftrightarrow> a = 0 \<and> b = 0 \<and> c = 0 \<and> d = 0" unfolding n by auto
  moreover have "n = 4294967295 \<longleftrightarrow> a = 255 \<and> b = 255 \<and> c = 255 \<and> d = 255"
  proof
    assume "n = 4294967295"
    moreover have "a \<le> 255" "b \<le> 255" "c \<le> 255" "d \<le> 255" using assms by auto
    ultimately have "255 \<le> a" "255 \<le> b" "255 \<le> c" "255 \<le> d" unfolding n by linarith+
    with assms show "a = 255 \<and> b = 255 \<and> c = 255 \<and> d = 255" by auto
  qed (simp add: n)
  ultimately show ?thesis unfolding n_def [symmetric] ipScope.simps
    by (simp del: One_nat_def add: conj_commute)
qed

theorem ipScope_octets_witness:
  "ipScope (V4 (((172 * 256 + 20) * 256 + 0) * 256 + 7)) = Private"
  using ipScope_octets [of 172 20 0 7] by simp

end
