(* ===== verification/JS_Map.thy ===== *)
theory JS_Map
  imports Prelude "HOL-Library.AList"
begin

text \<open>
  JavaScript's \<open>Map\<close>: a mapping that remembers the order in which keys were first inserted.
  \<open>set\<close> on a present key keeps its place, on an absent one appends; \<open>delete\<close> forgets the place.
  An association list with distinct keys is exactly that. The interface \<open>js_map\<close> states what its
  clients use, and proves the shape that recurs in the sources: rows accumulated by a key
  (\<open>m.set(k, f(m.get(k), row))\<close> in a loop) leave under each key the fold of that key's rows, in
  their order, and the keys in order of first appearance.
\<close>

type_synonym ('k, 'v) jsmap = "('k \<times> 'v) list"

definition map_get :: "('k, 'v) jsmap \<Rightarrow> 'k \<Rightarrow> 'v option" where
  "map_get m k = map_of m k"

definition map_set :: "'k \<Rightarrow> 'v \<Rightarrow> ('k, 'v) jsmap \<Rightarrow> ('k, 'v) jsmap" where
  "map_set k v m = AList.update k v m"

definition map_delete :: "'k \<Rightarrow> ('k, 'v) jsmap \<Rightarrow> ('k, 'v) jsmap" where
  "map_delete k m = AList.delete k m"

definition map_keys :: "('k, 'v) jsmap \<Rightarrow> 'k list" where
  "map_keys m = map fst m"

definition map_ok :: "('k, 'v) jsmap \<Rightarrow> bool" where
  "map_ok m \<longleftrightarrow> distinct (map fst m)"

section \<open>The interface\<close>

locale js_map =
  fixes get :: "'m \<Rightarrow> 'k \<Rightarrow> 'v option"
    and put :: "'k \<Rightarrow> 'v \<Rightarrow> 'm \<Rightarrow> 'm"
    and del :: "'k \<Rightarrow> 'm \<Rightarrow> 'm"
    and keys :: "'m \<Rightarrow> 'k list"
    and invar :: "'m \<Rightarrow> bool"
  assumes get_put: "get (put k v m) j = (if j = k then Some v else get m j)"
    and get_del: "invar m \<Longrightarrow> get (del k m) j = (if j = k then None else get m j)"
    and keys_put: "keys (put k v m) = (if get m k = None then keys m @ [k] else keys m)"
    and keys_del: "invar m \<Longrightarrow> keys (del k m) = filter (\<lambda>j. j \<noteq> k) (keys m)"
    and keys_get: "set (keys m) = {k. get m k \<noteq> None}"
    and invar_iff: "invar m \<longleftrightarrow> distinct (keys m)"
begin

lemma invar_put: "invar m \<Longrightarrow> invar (put k v m)"
  using keys_get [of m] by (auto simp: invar_iff keys_put)

lemma invar_del: "invar m \<Longrightarrow> invar (del k m)"
  by (simp add: invar_iff [of "del k m"] keys_del) (simp add: invar_iff)

text \<open>Accumulating rows by key.\<close>

lemma get_fold:
  "get (fold (\<lambda>r m. put (key r) (upd (get m (key r)) r) m) rows m) k =
   foldl (\<lambda>v r. Some (upd v r)) (get m k) (filter (\<lambda>r. key r = k) rows)"
  by (induction rows arbitrary: m) (auto simp: get_put)

lemma invar_fold:
  "invar m \<Longrightarrow> invar (fold (\<lambda>r m. put (key r) (upd (get m (key r)) r) m) rows m)"
  by (induction rows arbitrary: m) (auto intro: invar_put)

lemma keys_fold:
  "set (keys (fold (\<lambda>r m. put (key r) (upd (get m (key r)) r) m) rows m)) =
   set (keys m) \<union> key ` set rows"
  by (induction rows arbitrary: m) (auto simp: keys_get get_put split: if_splits)

end

lemma map_keys_update:
  "map fst (AList.update k v m) = (if map_of m k = None then map fst m @ [k] else map fst m)"
  by (induction m) (auto simp: map_of_eq_None_iff)

interpretation alm: js_map map_get map_set map_delete map_keys map_ok
proof unfold_locales
  show "map_get (map_set k v m) j = (if j = k then Some v else map_get m j)" for k :: 'k and v :: 'v and m j
    by (simp add: map_get_def map_set_def update_conv')
  show "map_get (map_delete k m) j = (if j = k then None else map_get m j)" for k :: 'k and m :: "('k, 'v) jsmap" and j
    by (simp add: map_get_def map_delete_def delete_conv')
  show "map_keys (map_set k v m) = (if map_get m k = None then map_keys m @ [k] else map_keys m)" for k :: 'k and v :: 'v and m
    by (simp add: map_keys_def map_set_def map_get_def map_keys_update)
  show "map_keys (map_delete k m) = filter (\<lambda>j. j \<noteq> k) (map_keys m)" for k :: 'k and m :: "('k, 'v) jsmap"
    by (induction m) (auto simp: map_keys_def map_delete_def)
  show "set (map_keys m) = {k. map_get m k \<noteq> None}" for m :: "('k, 'v) jsmap"
    by (auto simp: map_keys_def map_get_def map_of_eq_None_iff)
  show "map_ok m \<longleftrightarrow> distinct (map_keys m)" for m :: "('k, 'v) jsmap"
    by (simp add: map_ok_def map_keys_def)
qed

section \<open>Accumulation by key\<close>

definition accum :: "('r \<Rightarrow> 'k) \<Rightarrow> ('v option \<Rightarrow> 'r \<Rightarrow> 'v) \<Rightarrow> 'r list \<Rightarrow> ('k, 'v) jsmap \<Rightarrow> ('k, 'v) jsmap" where
  "accum key upd rows m = fold (\<lambda>r m. map_set (key r) (upd (map_get m (key r)) r) m) rows m"

lemma accum_Nil [simp]: "accum key upd [] m = m"
  by (simp add: accum_def)

lemma accum_Cons [simp]:
  "accum key upd (r # rs) m = accum key upd rs (map_set (key r) (upd (map_get m (key r)) r) m)"
  by (simp add: accum_def)

lemma get_accum:
  "map_get (accum key upd rows m) k =
   foldl (\<lambda>v r. Some (upd v r)) (map_get m k) (filter (\<lambda>r. key r = k) rows)"
  unfolding accum_def by (rule alm.get_fold)

lemma map_ok_accum: "map_ok m \<Longrightarrow> map_ok (accum key upd rows m)"
  unfolding accum_def by (rule alm.invar_fold)

lemma map_ok_Nil [simp]: "map_ok []"
  by (simp add: map_ok_def)

lemma map_mem_iff: "map_ok m \<Longrightarrow> (k, v) \<in> set m \<longleftrightarrow> map_get m k = Some v"
  by (simp add: map_ok_def map_get_def)

lemma distinct_keys_accum [simp]: "distinct (map fst (accum key upd rows []))"
  using map_ok_accum [of "[]" key upd rows] by (simp add: map_ok_def)

lemma set_keys_accum: "fst ` set (accum key upd rows []) = key ` set rows"
  using alm.keys_fold [of key upd rows "[]"] by (simp add: accum_def map_keys_def)

lemma in_accum_iff:
  "(k, v) \<in> set (accum key upd rows []) \<longleftrightarrow>
   foldl (\<lambda>v r. Some (upd v r)) None (filter (\<lambda>r. key r = k) rows) = Some v"
proof -
  have "(k, v) \<in> set (accum key upd rows []) \<longleftrightarrow> map_get (accum key upd rows []) k = Some v"
    by (simp add: map_get_def)
  then show ?thesis by (simp add: get_accum) (simp add: map_get_def)
qed

text \<open>The fold of one key when the first row starts a value and the others add to it.\<close>

lemma foldl_Some: "foldl (\<lambda>v r. Some (upd v r)) (Some v) rs = Some (foldl (\<lambda>v. upd (Some v)) v rs)"
  by (induction rs arbitrary: v) auto

lemma foldl_None:
  "foldl (\<lambda>v r. Some (upd v r)) None rs = (case rs of [] \<Rightarrow> None | r # rs' \<Rightarrow> Some (foldl (\<lambda>v. upd (Some v)) (upd None r) rs'))"
  by (cases rs) (auto simp: foldl_Some)

text \<open>Conservation: what each row adds to its key's value is found again in the sum over keys.\<close>

lemma sum_map_set:
  fixes f :: "'v \<Rightarrow> 'a::ab_group_add"
  assumes "map_ok m"
  shows "(\<Sum>(k, v) \<leftarrow> map_set k v m. f v) =
    (\<Sum>(k, v) \<leftarrow> m. f v) + f v - (case map_get m k of None \<Rightarrow> 0 | Some w \<Rightarrow> f w)"
  using assms unfolding map_set_def map_get_def map_ok_def
  by (induction m) (auto simp: algebra_simps map_of_eq_None_iff split: option.splits)

lemma sum_accum:
  fixes f :: "'v \<Rightarrow> 'a::ab_group_add"
  assumes "map_ok m"
    and "\<And>r. f (upd None r) = g r" and "\<And>v r. f (upd (Some v) r) = f v + g r"
  shows "(\<Sum>(k, v) \<leftarrow> accum key upd rows m. f v) = (\<Sum>(k, v) \<leftarrow> m. f v) + (\<Sum>r \<leftarrow> rows. g r)"
  using assms(1)
proof (induction rows arbitrary: m)
  case (Cons r rows)
  have ok: "map_ok (map_set (key r) (upd (map_get m (key r)) r) m)"
    using Cons.prems by (rule alm.invar_put)
  have "(\<Sum>(k, v) \<leftarrow> map_set (key r) (upd (map_get m (key r)) r) m. f v) = (\<Sum>(k, v) \<leftarrow> m. f v) + g r"
    by (cases "map_get m (key r)") (simp_all add: sum_map_set [OF Cons.prems] assms(2,3))
  then show ?case by (simp add: Cons.IH [OF ok] add.assoc)
qed simp

section \<open>Sets\<close>

text \<open>\<open>new Set(xs)\<close> as the list of its elements in order of first insertion.\<close>

definition new_Set :: "'a list \<Rightarrow> 'a list" where
  "new_Set xs = rev (remdups (rev xs))"

lemma new_Set_simps [simp]: "set (new_Set xs) = set xs" "distinct (new_Set xs)"
  by (simp_all add: new_Set_def)

end
