(* ===== verification/Asn.thy ===== *)
theory Asn
  imports Ip JS_Number JS_Map
begin

text \<open>
  \<^verbatim>\<open>web/src/server/geo/asn.ts\<close>: the iptoasn.com table (\<open>AsnTable\<close>, \<open>parseTable\<close>), its binary
  search (\<open>lookupParsed\<close>) and the database that loads it from a file and reloads it when the file
  changes (\<open>GeoDb\<close>). Typed arrays store their elements modulo their width. Reading the file,
  its modification time and the decompression are inputs of \<open>GeoDb_load\<close>; log calls are returned
  as a list. Array indices stay below \<open>2^30\<close>, so \<open>(lo + hi) >> 1\<close> is the halved sum.
\<close>

section \<open>Data\<close>

record Geo =
  asn :: int
  org :: string
  cc :: string

definition orgName :: "string \<Rightarrow> string" where
  "orgName desc = (let d = trim desc in
     case index_of_str '' - '' d of
       Some i \<Rightarrow> if i > 0 \<and> i + 3 < length d then trim (drop (i + 3) d) else d
     | None \<Rightarrow> d)"

definition is_upper :: "char \<Rightarrow> bool" where
  "is_upper c \<longleftrightarrow> 65 \<le> (of_char c :: nat) \<and> (of_char c :: nat) \<le> 90"

definition countryCode :: "string \<Rightarrow> string" where
  "countryCode raw = (if length raw = 2 \<and> list_all is_upper raw then raw else [])"

record AsnTable =
  v4Start :: "nat list"
  v4End :: "nat list"
  v4Info :: "nat list"
  v6StartHi :: "nat list"
  v6StartLo :: "nat list"
  v6EndHi :: "nat list"
  v6EndLo :: "nat list"
  v6Info :: "nat list"
  infos :: "Geo list"

type_synonym range4 = "nat \<times> nat \<times> nat"

text \<open>Elements of a \<open>Uint32Array\<close> and of a \<open>BigUint64Array\<close>.\<close>

definition u32 :: "nat \<Rightarrow> nat" where "u32 n = n mod 2 ^ 32"
definition u64 :: "nat \<Rightarrow> nat" where "u64 n = n mod 2 ^ 64"

definition M64 :: nat where "M64 = 2 ^ 64 - 1"

definition new_AsnTable :: "range4 list \<Rightarrow> range4 list \<Rightarrow> Geo list \<Rightarrow> AsnTable" where
  "new_AsnTable v4 v6 gs =
     (let v4 = sort_by (\<lambda>a b. fst a \<le> fst b) v4; v6 = sort_by (\<lambda>a b. fst a \<le> fst b) v6 in
      \<lparr> v4Start = map (\<lambda>r. u32 (fst r)) v4,
        v4End = map (\<lambda>r. u32 (fst (snd r))) v4,
        v4Info = map (\<lambda>r. u32 (snd (snd r))) v4,
        v6StartHi = map (\<lambda>r. u64 (drop_bit 64 (fst r))) v6,
        v6StartLo = map (\<lambda>r. u64 (fst r AND M64)) v6,
        v6EndHi = map (\<lambda>r. u64 (drop_bit 64 (fst (snd r)))) v6,
        v6EndLo = map (\<lambda>r. u64 (fst (snd r) AND M64)) v6,
        v6Info = map (\<lambda>r. u32 (snd (snd r))) v6,
        infos = gs \<rparr>)"

definition table_size :: "AsnTable \<Rightarrow> nat" where
  "table_size t = length (v4Start t) + length (v6Info t)"

section \<open>Lookup\<close>

text \<open>The binary search loop: the last index in \<open>lo..hi\<close> at which \<open>p\<close> holds, else \<open>found\<close>.\<close>

function bsearch :: "(nat \<Rightarrow> bool) \<Rightarrow> int \<Rightarrow> int \<Rightarrow> int \<Rightarrow> int" where
  "bsearch p lo hi found =
     (if lo \<le> hi then
        let mid = drop_bit 1 (lo + hi) in
        if p (nat mid) then bsearch p (mid + 1) hi mid else bsearch p lo (mid - 1) found
      else found)"
  by pat_completeness auto
termination
  by (relation "measure (\<lambda>(p, lo, hi, found). nat (hi - lo + 1))") (auto simp: drop_bit_Suc)

declare bsearch.simps [simp del]

definition start_le4 :: "AsnTable \<Rightarrow> nat \<Rightarrow> nat \<Rightarrow> bool" where
  "start_le4 t n mid \<longleftrightarrow> v4Start t ! mid \<le> n"

definition start_le6 :: "AsnTable \<Rightarrow> nat \<Rightarrow> nat \<Rightarrow> bool" where
  "start_le6 t n mid \<longleftrightarrow> (let h = drop_bit 64 n; l = n AND M64; sh = v6StartHi t ! mid in
     sh < h \<or> (sh = h \<and> v6StartLo t ! mid \<le> l))"

text \<open>\<open>this.infos[i]\<close>: \<open>None\<close> also stands for \<open>undefined\<close>, out of range.\<close>

definition info_at :: "AsnTable \<Rightarrow> nat \<Rightarrow> Geo option" where
  "info_at t i = (if i < length (infos t) then Some (infos t ! i) else None)"

fun lookupParsed :: "AsnTable \<Rightarrow> ParsedIp \<Rightarrow> Geo option" where
  "lookupParsed t (V4 n) =
     (let found = bsearch (start_le4 t n) 0 (int (length (v4Start t)) - 1) (-1) in
      if found \<ge> 0 \<and> n \<le> v4End t ! nat found then info_at t (v4Info t ! nat found) else None)"
| "lookupParsed t (V6 n) =
     (let h = drop_bit 64 n; l = n AND M64;
          found = bsearch (start_le6 t n) 0 (int (length (v6Info t)) - 1) (-1) in
      if found < 0 then None
      else let eh = v6EndHi t ! nat found in
        if h < eh \<or> (h = eh \<and> l \<le> v6EndLo t ! nat found) then info_at t (v6Info t ! nat found) else None)"

definition lookup :: "AsnTable \<Rightarrow> string \<Rightarrow> Geo option" where
  "lookup t ip = (case parseIp ip of None \<Rightarrow> None | Some p \<Rightarrow> lookupParsed t p)"

section \<open>Parsing the file\<close>

record parse_state =
  p_v4 :: "range4 list"
  p_v6 :: "range4 list"
  p_infos :: "Geo list"
  p_idx :: "(int \<times> string \<times> string, nat) jsmap"
  p_skipped :: nat

definition parse_init :: parse_state where
  "parse_init = \<lparr> p_v4 = [], p_v6 = [], p_infos = [], p_idx = [], p_skipped = 0 \<rparr>"

text \<open>
  The index of a (asn, country, org) triple, allocated on first use. The source joins the three by
  NUL characters into one string key; the number and the country have none, so the key determines
  the triple.
\<close>

definition intern :: "int \<Rightarrow> string \<Rightarrow> string \<Rightarrow> parse_state \<Rightarrow> nat \<times> parse_state" where
  "intern a c og st = (case map_get (p_idx st) (a, c, og) of
       Some i \<Rightarrow> (i, st)
     | None \<Rightarrow> let i = length (p_infos st) in
         (i, st\<lparr> p_infos := p_infos st @ [\<lparr> asn = a, org = og, cc = c \<rparr>],
                 p_idx := map_set (a, c, og) i (p_idx st) \<rparr>))"

definition skip_row :: "parse_state \<Rightarrow> parse_state" where
  "skip_row st = st\<lparr> p_skipped := p_skipped st + 1 \<rparr>"

definition add_range :: "string \<Rightarrow> string \<Rightarrow> nat \<Rightarrow> parse_state \<Rightarrow> parse_state" where
  "add_range f0 f1 idx st = (case parseV4 f0 of
       Some a4 \<Rightarrow> (case parseV4 f1 of
           None \<Rightarrow> skip_row st
         | Some b4 \<Rightarrow> if b4 < a4 then skip_row st else st\<lparr> p_v4 := p_v4 st @ [(a4, b4, idx)] \<rparr>)
     | None \<Rightarrow> (case (parseV6 f0, parseV6 f1) of
           (Some a6, Some b6) \<Rightarrow>
             if b6 < a6 then skip_row st else st\<lparr> p_v6 := p_v6 st @ [(a6, b6, idx)] \<rparr>
         | _ \<Rightarrow> skip_row st))"

definition parse_row :: "string \<Rightarrow> parse_state \<Rightarrow> parse_state" where
  "parse_row row st =
     (if row = [] \<or> starts_with ''#'' row then st
      else let f = split_char (CHR 0x09) row in
        if length f < 5 then skip_row st
        else case js_Number (f ! 2) of
            None \<Rightarrow> st
          | Some n \<Rightarrow>
              if \<not> isInteger n \<or> n \<le> 0 then st
              else let (idx, st') = intern \<lfloor>n\<rfloor> (countryCode (f ! 3)) (orgName (join [CHR 0x09] (drop 4 f))) st
                in add_range (f ! 0) (f ! 1) idx st')"

definition strip_cr :: "string \<Rightarrow> string" where
  "strip_cr row = (if row \<noteq> [] \<and> last row = CHR 0x0D then butlast row else row)"

text \<open>The loop over the lines of the text; a final line break does not start another line.\<close>

function parse_lines :: "string \<Rightarrow> parse_state \<Rightarrow> parse_state" where
  "parse_lines text st =
     (if text = [] then st
      else let row = takeWhile (\<lambda>c. c \<noteq> CHR 0x0A) text in
        parse_lines (drop (length row + 1) text) (parse_row (strip_cr row) st))"
  by pat_completeness auto
termination
  by (relation "measure (\<lambda>(text, st). length text)") auto

declare parse_lines.simps [simp del]

definition parseTable :: "string \<Rightarrow> AsnTable \<times> nat" where
  "parseTable text = (let st = parse_lines text parse_init in
     (new_AsnTable (p_v4 st) (p_v6 st) (p_infos st), p_skipped st))"

section \<open>The database\<close>

record GeoDb =
  db_table :: "AsnTable option"
  fileDate :: "int option"
  db_error :: "string option"
  db_file :: "string option"

record GeoStatus =
  gs_loaded :: bool
  gs_entries :: nat
  gs_fileDate :: "int option"
  gs_error :: "string option"

datatype log_entry = Info string | Warn string

definition new_GeoDb :: "string option \<Rightarrow> GeoDb" where
  "new_GeoDb file = \<lparr> db_table = None, fileDate = None, db_error = None, db_file = file \<rparr>"

definition GeoDb_fromTable :: "AsnTable \<Rightarrow> int option \<Rightarrow> GeoDb" where
  "GeoDb_fromTable t date = (new_GeoDb None)\<lparr> db_table := Some t, fileDate := date \<rparr>"

definition GeoDb_loaded :: "GeoDb \<Rightarrow> bool" where
  "GeoDb_loaded db \<longleftrightarrow> db_table db \<noteq> None"

definition GeoDb_status :: "GeoDb \<Rightarrow> GeoStatus" where
  "GeoDb_status db = \<lparr> gs_loaded = db_table db \<noteq> None,
     gs_entries = (case db_table db of None \<Rightarrow> 0 | Some t \<Rightarrow> table_size t),
     gs_fileDate = fileDate db, gs_error = db_error db \<rparr>"

definition GeoDb_lookup :: "GeoDb \<Rightarrow> string \<Rightarrow> Geo option" where
  "GeoDb_lookup db ip = (case db_table db of None \<Rightarrow> None | Some t \<Rightarrow> lookup t ip)"

definition GeoDb_lookupParsed :: "GeoDb \<Rightarrow> ParsedIp \<Rightarrow> Geo option" where
  "GeoDb_lookupParsed db ip = (case db_table db of None \<Rightarrow> None | Some t \<Rightarrow> lookupParsed t ip)"

text \<open>
  \<open>enrich\<close> over rows with an address (\<open>ip_of\<close>) and a geo field (\<open>set_geo\<close>), with the memo of the
  addresses already looked up.
\<close>

definition enrich_step ::
  "('r \<Rightarrow> string) \<Rightarrow> (Geo \<Rightarrow> 'r \<Rightarrow> 'r) \<Rightarrow> AsnTable \<Rightarrow> 'r \<Rightarrow>
   'r list \<times> (string, Geo option) jsmap \<Rightarrow> 'r list \<times> (string, Geo option) jsmap" where
  "enrich_step ip_of set_geo t r acc = (case acc of (out, seen) \<Rightarrow>
     let (g, seen') = (case map_get seen (ip_of r) of
           Some g \<Rightarrow> (g, seen)
         | None \<Rightarrow> let g = lookup t (ip_of r) in (g, map_set (ip_of r) g seen))
     in (out @ [case g of None \<Rightarrow> r | Some x \<Rightarrow> set_geo x r], seen'))"

definition GeoDb_enrich :: "('r \<Rightarrow> string) \<Rightarrow> (Geo \<Rightarrow> 'r \<Rightarrow> 'r) \<Rightarrow> GeoDb \<Rightarrow> 'r list \<Rightarrow> 'r list" where
  "GeoDb_enrich ip_of set_geo db rows = (case db_table db of
       None \<Rightarrow> rows
     | Some t \<Rightarrow> fst (fold (enrich_step ip_of set_geo t) rows ([], [])))"

text \<open>
  One run of \<open>load()\<close>: \<open>st\<close> is what \<open>stat(file)\<close> gives (the modification time in milliseconds,
  which Node reports with a fraction, or an error code and message), \<open>content\<close> the text of the
  (decompressed) file or the message of the error that reading it raised.
\<close>

datatype stat_result = StatOk num | StatErr string string

definition GeoDb_load :: "stat_result \<Rightarrow> string + string \<Rightarrow> GeoDb \<Rightarrow> GeoDb \<times> log_entry list" where
  "GeoDb_load st content db = (case st of
       StatErr code msg0 \<Rightarrow>
         let file = (case db_file db of None \<Rightarrow> [] | Some f \<Rightarrow> f);
             msg = (if code = ''ENOENT'' then file @ '' not found (run \"npm run geo:update\")'' else msg0)
         in (db\<lparr> db_error := Some msg \<rparr>,
             if Some msg \<noteq> db_error db
             then [Warn (''geo: '' @ msg @ ''; destinations are shown without ASN/country'')] else [])
     | StatOk mtime \<Rightarrow>
         if db_table db \<noteq> None \<and> (case fileDate db of None \<Rightarrow> False | Some d \<Rightarrow> mtime = of_int d)
         then (db, [])
         else (case content of
             Inl err \<Rightarrow> (db\<lparr> db_error := Some err \<rparr>, [Warn ''geo: could not load the IP -> ASN table''])
           | Inr text \<Rightarrow>
               let t = fst (parseTable text) in
               if table_size t = 0
               then (db\<lparr> db_error := Some ''no ranges in the file'' \<rparr>,
                     [Warn ''geo: could not load the IP -> ASN table''])
               else (db\<lparr> db_table := Some t, fileDate := Some (Math_round mtime), db_error := None \<rparr>,
                     [Info ''geo: IP -> ASN table loaded''])))"

section \<open>The binary search\<close>

text \<open>
  What the search relies on: over a well-formed table, the indices whose range starts at or before
  a key form a prefix. Both address families are instances.
\<close>

locale range_index =
  fixes wf :: "'t \<Rightarrow> bool" and size :: "'t \<Rightarrow> nat" and le :: "'t \<Rightarrow> 'k \<Rightarrow> nat \<Rightarrow> bool"
  assumes prefix: "wf t \<Longrightarrow> i \<le> j \<Longrightarrow> j < size t \<Longrightarrow> le t k j \<Longrightarrow> le t k i"
begin

lemma search_loop:
  assumes "wf t" and "0 \<le> lo" "hi < int (size t)" "lo \<le> hi + 1" "found = lo - 1"
    and "\<And>i. int i < lo \<Longrightarrow> le t k i" and "\<And>i. hi < int i \<Longrightarrow> i < size t \<Longrightarrow> \<not> le t k i"
  shows "- 1 \<le> bsearch (le t k) lo hi found \<and> bsearch (le t k) lo hi found < int (size t)
    \<and> (\<forall>i < size t. le t k i \<longleftrightarrow> int i \<le> bsearch (le t k) lo hi found)"
  using assms(2-)
proof (induction "le t k" lo hi found rule: bsearch.induct)
  case (1 lo hi found)
  define mid where "mid = (lo + hi) div 2"
  have mid: "drop_bit 1 (lo + hi) = mid" by (simp add: mid_def drop_bit_eq_div)
  show ?case
  proof (cases "lo \<le> hi")
    case False
    with "1.prems" have "lo = hi + 1" by simp
    with "1.prems" have "le t k i \<longleftrightarrow> int i \<le> found" if "i < size t" for i
      using that by (cases "int i < lo") auto
    moreover have "bsearch (le t k) lo hi found = found"
      using False by (simp add: bsearch.simps [of "le t k" lo hi found])
    ultimately show ?thesis using "1.prems" by simp
  next
    case True
    then have range: "lo \<le> mid" "mid \<le> hi" "0 \<le> mid" "nat mid < size t"
      using "1.prems" by (auto simp: mid_def)
    show ?thesis
    proof (cases "le t k (nat mid)")
      case True
      have "le t k i" if "int i < mid + 1" for i
        using that range True by (intro prefix [OF assms(1), of i "nat mid"]) auto
      moreover have eq: "bsearch (le t k) lo hi found = bsearch (le t k) (mid + 1) hi mid"
        using True \<open>lo \<le> hi\<close> by (subst bsearch.simps) (simp del: One_nat_def add: mid)
      ultimately show ?thesis
        unfolding eq using range "1.prems"
        by (intro "1.hyps"(1) [OF \<open>lo \<le> hi\<close> mid [symmetric] True]) auto
    next
      case False
      have "\<not> le t k i" if "mid - 1 < int i" "i < size t" for i
      proof -
        have "nat mid \<le> i" using that(1) range(3) by linarith
        with prefix [OF assms(1) this that(2)] False show ?thesis by blast
      qed
      moreover have eq: "bsearch (le t k) lo hi found = bsearch (le t k) lo (mid - 1) found"
        using False \<open>lo \<le> hi\<close> by (subst bsearch.simps) (simp del: One_nat_def add: mid)
      ultimately show ?thesis
        unfolding eq using range "1.prems"
        by (intro "1.hyps"(2) [OF \<open>lo \<le> hi\<close> mid [symmetric] False]) auto
    qed
  qed
qed

lemma search:
  fixes t and k :: 'k
  assumes "wf t"
  defines "r \<equiv> bsearch (le t k) 0 (int (size t) - 1) (- 1)"
  shows "- 1 \<le> r" "r < int (size t)" "\<And>i. i < size t \<Longrightarrow> le t k i \<longleftrightarrow> int i \<le> r"
proof -
  have "- 1 \<le> r \<and> r < int (size t) \<and> (\<forall>i < size t. le t k i \<longleftrightarrow> int i \<le> r)"
    unfolding r_def by (rule search_loop [OF assms(1)]) auto
  then show "- 1 \<le> r" "r < int (size t)" "\<And>i. i < size t \<Longrightarrow> le t k i \<longleftrightarrow> int i \<le> r" by auto
qed

end

text \<open>Comparing two halves is comparing the 128-bit numbers.\<close>

lemma halves_le:
  fixes h l h' l' B :: nat
  assumes "l < B" "l' < B"
  shows "h < h' \<or> h = h' \<and> l \<le> l' \<longleftrightarrow> h * B + l \<le> h' * B + l'"
proof (cases h h' rule: linorder_cases)
  case less
  then have "(h + 1) * B \<le> h' * B" by (intro mult_right_mono) auto
  with less assms show ?thesis by auto
next
  case greater
  then have "(h' + 1) * B \<le> h * B" by (intro mult_right_mono) auto
  with greater assms show ?thesis by auto
qed auto

lemma low64: "n AND M64 = n mod 2 ^ 64"
  using take_bit_eq_mask [of 64 n] by (simp add: take_bit_eq_mod mask_eq_exp_minus_1 M64_def)

lemma high64: "drop_bit 64 n = n div 2 ^ 64"
  by (simp add: drop_bit_eq_div)

definition start6 :: "AsnTable \<Rightarrow> nat \<Rightarrow> nat" where
  "start6 t i = v6StartHi t ! i * 2 ^ 64 + v6StartLo t ! i"

definition wf_table :: "AsnTable \<Rightarrow> bool" where
  "wf_table t \<longleftrightarrow> sorted (v4Start t) \<and> length (v4End t) = length (v4Start t)
     \<and> length (v4Info t) = length (v4Start t)
     \<and> length (v6StartHi t) = length (v6Info t) \<and> length (v6StartLo t) = length (v6Info t)
     \<and> length (v6EndHi t) = length (v6Info t) \<and> length (v6EndLo t) = length (v6Info t)
     \<and> (\<forall>l \<in> set (v6StartLo t). l < 2 ^ 64)
     \<and> sorted (map (start6 t) [0..<length (v6Info t)])
     \<and> (\<forall>i \<in> set (v4Info t) \<union> set (v6Info t). i < length (infos t))"

lemma start_le6_iff:
  "wf_table t \<Longrightarrow> i < length (v6Info t) \<Longrightarrow> start_le6 t n i \<longleftrightarrow> start6 t i \<le> n"
  using halves_le [of "v6StartLo t ! i" "2 ^ 64" "n mod 2 ^ 64" "v6StartHi t ! i" "n div 2 ^ 64"]
  by (simp add: start_le6_def start6_def Let_def low64 high64 wf_table_def)

interpretation v4_search: range_index wf_table "\<lambda>t. length (v4Start t)" start_le4
proof
  show "start_le4 t k i" if "wf_table t" "i \<le> j" "j < length (v4Start t)" "start_le4 t k j" for t i j k
    using that sorted_nth_mono [of "v4Start t" i j] by (simp add: start_le4_def wf_table_def)
qed

interpretation v6_search: range_index wf_table "\<lambda>t. length (v6Info t)" start_le6
proof
  show "start_le6 t k i" if "wf_table t" "i \<le> j" "j < length (v6Info t)" "start_le6 t k j" for t i j k
    using that sorted_nth_mono [of "map (start6 t) [0..<length (v6Info t)]" i j]
    by (simp add: start_le6_iff) (simp add: wf_table_def)
qed

section \<open>Tables built from ranges\<close>

definition ranges_ok :: "nat \<Rightarrow> nat \<Rightarrow> range4 list \<Rightarrow> bool" where
  "ranges_ok bits k rs \<longleftrightarrow> (\<forall>(a, b, i) \<in> set rs. a \<le> b \<and> b < 2 ^ bits \<and> i < k)"

definition disjoint_ranges :: "range4 list \<Rightarrow> bool" where
  "disjoint_ranges rs \<longleftrightarrow>
     (\<forall>r \<in> set rs. \<forall>s \<in> set rs. r \<noteq> s \<longrightarrow> fst (snd r) < fst s \<or> fst (snd s) < fst r)"

abbreviation by_start :: "range4 list \<Rightarrow> range4 list" where
  "by_start \<equiv> sort_by (\<lambda>a b. fst a \<le> fst b)"

interpretation starts: comparator "\<lambda>a b :: range4. fst a \<le> fst b"
  by (rule comparator_key)

lemma sorted_by_start: "sorted (map fst (by_start rs))"
  using starts.sort_by_sorted [of rs] by (simp add: sorted_map)

text \<open>
  The range that the search picks is, among disjoint ranges, the one that holds the key, if any.
\<close>

lemma pick_range:
  fixes rs :: "range4 list"
  assumes pre: "\<And>i. i < length rs \<Longrightarrow> fst (rs ! i) \<le> n \<longleftrightarrow> int i \<le> r"
    and r: "- 1 \<le> r" "r < int (length rs)" and srt: "sorted (map fst rs)" and dj: "disjoint_ranges rs"
    and up: "\<And>r. r \<in> set rs \<Longrightarrow> fst r \<le> fst (snd r)"
  shows "0 \<le> r \<and> n \<le> fst (snd (rs ! nat r)) \<and> idx = snd (snd (rs ! nat r))
    \<longleftrightarrow> (\<exists>a b. (a, b, idx) \<in> set rs \<and> a \<le> n \<and> n \<le> b)"
proof
  assume l: "0 \<le> r \<and> n \<le> fst (snd (rs ! nat r)) \<and> idx = snd (snd (rs ! nat r))"
  then have "rs ! nat r \<in> set rs" "fst (rs ! nat r) \<le> n" using r pre [of "nat r"] by auto
  with l show "\<exists>a b. (a, b, idx) \<in> set rs \<and> a \<le> n \<and> n \<le> b"
    by (cases "rs ! nat r") auto
next
  assume "\<exists>a b. (a, b, idx) \<in> set rs \<and> a \<le> n \<and> n \<le> b"
  then obtain a b j where j: "j < length rs" "rs ! j = (a, b, idx)" "a \<le> n" "n \<le> b"
    by (auto simp: in_set_conv_nth)
  then have jr: "int j \<le> r" using pre [of j] by simp
  then have nr: "0 \<le> r" "nat r < length rs" "j \<le> nat r" using r by auto
  have "fst (rs ! nat r) \<le> n" using pre [OF nr(2)] nr(1) by simp
  moreover have "a \<le> fst (rs ! nat r)" using sorted_nth_mono [OF srt, of j "nat r"] nr j by simp
  moreover have mem: "rs ! nat r \<in> set rs" using nr(2) by (rule nth_mem)
  moreover have mem': "rs ! j \<in> set rs" using j(1) by (rule nth_mem)
  ultimately have "\<not> (fst (snd (rs ! j)) < fst (rs ! nat r))" "\<not> (fst (snd (rs ! nat r)) < fst (rs ! j))"
    using j up [OF mem] by auto
  then have "rs ! nat r = rs ! j" using dj mem mem' unfolding disjoint_ranges_def by blast
  with j nr show "0 \<le> r \<and> n \<le> fst (snd (rs ! nat r)) \<and> idx = snd (snd (rs ! nat r))" by simp
qed

lemma ranges_okD: "ranges_ok bits k rs \<Longrightarrow> r \<in> set rs \<Longrightarrow>
    fst r \<le> fst (snd r) \<and> fst (snd r) < 2 ^ bits \<and> fst r < 2 ^ bits \<and> snd (snd r) < k"
  by (fastforce simp: ranges_ok_def)

lemma new_AsnTable_nth:
  assumes "ranges_ok 32 (length gs) v4" "ranges_ok 128 (length gs) v6" "length gs \<le> 2 ^ 32"
  defines "t \<equiv> new_AsnTable v4 v6 gs"
  shows "v4Start t = map fst (by_start v4)" "v4End t = map (fst \<circ> snd) (by_start v4)"
    "v4Info t = map (snd \<circ> snd) (by_start v4)" "v6Info t = map (snd \<circ> snd) (by_start v6)"
    "i < length v6 \<Longrightarrow> start6 t i = fst (by_start v6 ! i)"
    "i < length v6 \<Longrightarrow> v6EndHi t ! i = fst (snd (by_start v6 ! i)) div 2 ^ 64"
    "i < length v6 \<Longrightarrow> v6EndLo t ! i = fst (snd (by_start v6 ! i)) mod 2 ^ 64"
proof -
  have r4: "u32 (fst r) = fst r" "u32 (fst (snd r)) = fst (snd r)" "u32 (snd (snd r)) = snd (snd r)"
    if "r \<in> set v4" for r
    using ranges_okD [OF assms(1) that] assms(3) by (simp_all add: u32_def)
  have r6: "u32 (snd (snd r)) = snd (snd r)"
    "u64 (drop_bit 64 (fst r)) = fst r div 2 ^ 64" "u64 (fst r AND M64) = fst r mod 2 ^ 64"
    "u64 (drop_bit 64 (fst (snd r))) = fst (snd r) div 2 ^ 64" "u64 (fst (snd r) AND M64) = fst (snd r) mod 2 ^ 64"
    if "r \<in> set v6" for r
  proof -
    have "fst r div 2 ^ 64 < 2 ^ 64" "fst (snd r) div 2 ^ 64 < 2 ^ 64"
      using ranges_okD [OF assms(2) that] by (simp_all add: less_mult_imp_div_less)
    then show "u32 (snd (snd r)) = snd (snd r)"
      "u64 (drop_bit 64 (fst r)) = fst r div 2 ^ 64" "u64 (fst r AND M64) = fst r mod 2 ^ 64"
      "u64 (drop_bit 64 (fst (snd r))) = fst (snd r) div 2 ^ 64" "u64 (fst (snd r) AND M64) = fst (snd r) mod 2 ^ 64"
      using ranges_okD [OF assms(2) that] assms(3)
      by (simp_all add: u32_def u64_def low64 high64)
  qed
  show "v4Start t = map fst (by_start v4)" "v4End t = map (fst \<circ> snd) (by_start v4)"
    "v4Info t = map (snd \<circ> snd) (by_start v4)" "v6Info t = map (snd \<circ> snd) (by_start v6)"
    by (simp_all add: t_def new_AsnTable_def Let_def r4 r6(1) cong: map_cong)
  assume i: "i < length v6"
  then have m: "by_start v6 ! i \<in> set v6" by (metis length_sort_by nth_mem set_sort_by)
  show "start6 t i = fst (by_start v6 ! i)"
    "v6EndHi t ! i = fst (snd (by_start v6 ! i)) div 2 ^ 64"
    "v6EndLo t ! i = fst (snd (by_start v6 ! i)) mod 2 ^ 64"
    using i r6 [OF m] by (simp_all add: t_def new_AsnTable_def Let_def start6_def)
qed

lemma wf_new_AsnTable:
  assumes "ranges_ok 32 (length gs) v4" "ranges_ok 128 (length gs) v6" "length gs \<le> 2 ^ 32"
  shows "wf_table (new_AsnTable v4 v6 gs)"
proof -
  let ?t = "new_AsnTable v4 v6 gs"
  note nth = new_AsnTable_nth [OF assms]
  have "map (start6 ?t) [0..<length v6] = map (\<lambda>i. fst (by_start v6 ! i)) [0..<length v6]"
    by (auto simp: nth(5))
  also have "\<dots> = map fst (by_start v6)" by (intro nth_equalityI) auto
  finally have s6: "map (start6 ?t) [0..<length v6] = map fst (by_start v6)" .
  have lo: "l < 2 ^ 64" if "l \<in> set (v6StartLo ?t)" for l
    using that by (auto simp: new_AsnTable_def Let_def u64_def)
  have info: "infos ?t = gs" by (simp add: new_AsnTable_def Let_def)
  have len: "length (v6StartHi ?t) = length v6" "length (v6StartLo ?t) = length v6"
    "length (v6EndHi ?t) = length v6" "length (v6EndLo ?t) = length v6"
    by (simp_all add: new_AsnTable_def Let_def)
  have idx: "i < length gs" if "i \<in> set (v4Info ?t) \<union> set (v6Info ?t)" for i
    using that ranges_okD [OF assms(1)] ranges_okD [OF assms(2)] by (auto simp: nth)
  show ?thesis
    unfolding wf_table_def info using lo idx
    by (simp add: nth(1-4) len s6 sorted_by_start)
qed

section \<open>What the parser builds\<close>

definition geo_ok :: "Geo \<Rightarrow> bool" where
  "geo_ok g \<longleftrightarrow> 0 < asn g \<and> asn g < 2 ^ 1024 \<and> (cc g = [] \<or> length (cc g) = 2 \<and> list_all is_upper (cc g))"

definition parse_inv :: "parse_state \<Rightarrow> bool" where
  "parse_inv st \<longleftrightarrow> ranges_ok 32 (length (p_infos st)) (p_v4 st)
     \<and> ranges_ok 128 (length (p_infos st)) (p_v6 st)
     \<and> (\<forall>g \<in> set (p_infos st). geo_ok g)
     \<and> (\<forall>k i. map_get (p_idx st) k = Some i \<longrightarrow> i < length (p_infos st))"

lemma ranges_ok_mono: "ranges_ok bits k rs \<Longrightarrow> k \<le> l \<Longrightarrow> ranges_ok bits l rs"
  by (fastforce simp: ranges_ok_def)

lemma ranges_ok_snoc: "ranges_ok bits k (rs @ [(a, b, i)]) \<longleftrightarrow>
    ranges_ok bits k rs \<and> a \<le> b \<and> b < 2 ^ bits \<and> i < k"
  by (auto simp: ranges_ok_def)

lemma parse_inv_init: "parse_inv parse_init"
  by (simp add: parse_inv_def parse_init_def ranges_ok_def map_get_def)

lemma intern_inv:
  assumes "parse_inv st" and "0 < a" and "a < 2 ^ 1024" and "intern a (countryCode c) og st = (i, st')"
  shows "parse_inv st'" "i < length (p_infos st')" "length (p_infos st') \<le> length (p_infos st) + 1"
proof -
  have cc: "countryCode c = [] \<or> length (countryCode c) = 2 \<and> list_all is_upper (countryCode c)"
    by (auto simp: countryCode_def)
  show "parse_inv st'" "i < length (p_infos st')" "length (p_infos st') \<le> length (p_infos st) + 1"
    using assms cc
    by (auto simp: intern_def Let_def parse_inv_def geo_ok_def alm.get_put less_SucI
        split: option.splits if_splits elim!: ranges_ok_mono)
qed

lemma add_range_inv:
  assumes "parse_inv st" and "i < length (p_infos st)"
  shows "parse_inv (add_range f0 f1 i st)" "p_infos (add_range f0 f1 i st) = p_infos st"
  using assms parseV4_less [of f1] parseV6_less [of f1]
  by (auto simp: add_range_def skip_row_def parse_inv_def ranges_ok_snoc split: option.splits)

lemma parse_row_inv:
  assumes "parse_inv st"
  shows "parse_inv (parse_row row st) \<and> length (p_infos (parse_row row st)) \<le> length (p_infos st) + 1"
proof (cases "row = [] \<or> starts_with ''#'' row \<or> length (split_char (CHR 0x09) row) < 5")
  case True
  with assms show ?thesis by (auto simp: parse_row_def skip_row_def parse_inv_def)
next
  case False
  let ?f = "split_char (CHR 0x09) row"
  show ?thesis
  proof (cases "js_Number (?f ! 2)")
    case None
    with False assms show ?thesis by (simp add: parse_row_def)
  next
    case (Some n)
    show ?thesis
    proof (cases "isInteger n \<and> 0 < n")
      case True
      then have n: "n = of_int \<lfloor>n\<rfloor>" "0 < n" by (simp_all add: isInteger_def)
      then have pos: "0 < \<lfloor>n\<rfloor>" by (metis of_int_0_less_iff)
      have "of_int \<lfloor>n\<rfloor> < (of_int (2 ^ 1024) :: rat)"
        using js_Number_finite [OF Some] n by simp
      then have lt: "\<lfloor>n\<rfloor> < 2 ^ 1024" by (simp only: of_int_less_iff)
      obtain i st' where it: "intern \<lfloor>n\<rfloor> (countryCode (?f ! 3)) (orgName (join [CHR 0x09] (drop 4 ?f))) st = (i, st')"
        by fastforce
      note inv = intern_inv [OF assms pos lt it]
      have "parse_row row st = add_range (?f ! 0) (?f ! 1) i st'"
        using False Some True by (simp add: parse_row_def it Let_def)
      with add_range_inv [OF inv(1,2)] inv(3) show ?thesis by simp
    next
      case no: False
      then have "parse_row row st = st" using False Some by (auto simp: parse_row_def)
      with assms show ?thesis by simp
    qed
  qed
qed

lemma parse_lines_inv:
  "parse_inv st \<Longrightarrow> parse_inv (parse_lines tx st)
     \<and> length (p_infos (parse_lines tx st)) \<le> length (p_infos st) + length tx"
proof (induction tx st rule: parse_lines.induct)
  case (1 tx st)
  show ?case
  proof (cases "tx = []")
    case True
    with 1 show ?thesis by (simp add: parse_lines.simps [of "[]"])
  next
    case False
    let ?row = "takeWhile (\<lambda>c. c \<noteq> CHR 0x0A) tx"
    have row: "parse_inv (parse_row (strip_cr ?row) st)"
      "length (p_infos (parse_row (strip_cr ?row) st)) \<le> length (p_infos st) + 1"
      using parse_row_inv [OF "1.prems"] by auto
    have len: "length (drop (length ?row + 1) tx) + 1 \<le> length tx" using False by (cases tx) auto
    have "parse_lines tx st = parse_lines (drop (length ?row + 1) tx) (parse_row (strip_cr ?row) st)"
      using False by (subst parse_lines.simps) (simp add: Let_def)
    with "1.IH" [OF False refl row(1)] row(2) len show ?thesis by simp
  qed
qed


lemma wf_parseTable:
  assumes "length tx < 2 ^ 32"
  shows "wf_table (fst (parseTable tx))" "\<forall>g \<in> set (infos (fst (parseTable tx))). geo_ok g"
proof -
  let ?st = "parse_lines tx parse_init"
  have inv: "parse_inv ?st" "length (p_infos ?st) \<le> length tx"
    using parse_lines_inv [OF parse_inv_init, of tx] by (auto simp: parse_init_def)
  then show "wf_table (fst (parseTable tx))"
    using assms unfolding parseTable_def Let_def fst_conv
    by (intro wf_new_AsnTable) (auto simp: parse_inv_def)
  from inv show "\<forall>g \<in> set (infos (fst (parseTable tx))). geo_ok g"
    by (simp add: parseTable_def new_AsnTable_def Let_def parse_inv_def)
qed

lemma lookupParsed_in_infos:
  assumes "lookupParsed t ip = Some g"
  shows "g \<in> set (infos t)"
  using assms by (cases ip) (auto simp: Let_def info_at_def split: if_splits)

section \<open>Lookups in a table of ranges\<close>

definition holds_ip :: "range4 list \<Rightarrow> Geo list \<Rightarrow> nat \<Rightarrow> Geo \<Rightarrow> bool" where
  "holds_ip rs gs n g \<longleftrightarrow> (\<exists>(a, b, i) \<in> set rs. a \<le> n \<and> n \<le> b \<and> gs ! i = g)"

lemma disjoint_by_start: "disjoint_ranges rs \<Longrightarrow> disjoint_ranges (by_start rs)"
  by (simp add: disjoint_ranges_def)

lemma infos_new_AsnTable [simp]: "infos (new_AsnTable v4 v6 gs) = gs"
  by (simp add: new_AsnTable_def Let_def)

lemma lookup_v4:
  assumes ok: "ranges_ok 32 (length gs) v4" "ranges_ok 128 (length gs) v6" "length gs \<le> 2 ^ 32"
    and dj: "disjoint_ranges v4"
  shows "lookupParsed (new_AsnTable v4 v6 gs) (V4 n) = Some g \<longleftrightarrow> holds_ip v4 gs n g"
proof -
  let ?t = "new_AsnTable v4 v6 gs" and ?rs = "by_start v4"
  define r where "r = bsearch (start_le4 ?t n) 0 (int (length (v4Start ?t)) - 1) (- 1)"
  note nth = new_AsnTable_nth [OF ok]
  note srch = v4_search.search [OF wf_new_AsnTable [OF ok], where k = n, folded r_def]
  have pre: "fst (?rs ! i) \<le> n \<longleftrightarrow> int i \<le> r" if "i < length ?rs" for i
    using srch(3) [of i] that by (simp add: start_le4_def nth)
  have r: "- 1 \<le> r" "r < int (length ?rs)" using srch(1,2) by (simp_all add: nth)
  have up: "fst x \<le> fst (snd x)" if "x \<in> set ?rs" for x using ranges_okD [OF ok(1)] that by simp
  have ix: "snd (snd (?rs ! nat r)) < length gs" if "0 \<le> r"
    using ranges_okD [OF ok(1), of "?rs ! nat r"] r that
    by (metis nat_less_iff nth_mem set_sort_by)
  have pick: "0 \<le> r \<and> n \<le> fst (snd (?rs ! nat r)) \<and> i = snd (snd (?rs ! nat r))
      \<longleftrightarrow> (\<exists>a b. (a, b, i) \<in> set v4 \<and> a \<le> n \<and> n \<le> b)" for i
    using pick_range [OF pre r sorted_by_start disjoint_by_start [OF dj] up, of i] by simp
  have "lookupParsed ?t (V4 n) = Some g \<longleftrightarrow>
      (\<exists>i. (0 \<le> r \<and> n \<le> fst (snd (?rs ! nat r)) \<and> i = snd (snd (?rs ! nat r))) \<and> gs ! i = g)"
    using r ix by (auto simp: Let_def r_def [symmetric] nth(2,3) info_at_def)
  also have "\<dots> \<longleftrightarrow> holds_ip v4 gs n g"
    unfolding pick by (auto simp: holds_ip_def)
  finally show ?thesis .
qed

lemma lookup_v6:
  assumes ok: "ranges_ok 32 (length gs) v4" "ranges_ok 128 (length gs) v6" "length gs \<le> 2 ^ 32"
    and dj: "disjoint_ranges v6"
  shows "lookupParsed (new_AsnTable v4 v6 gs) (V6 n) = Some g \<longleftrightarrow> holds_ip v6 gs n g"
proof -
  let ?t = "new_AsnTable v4 v6 gs" and ?rs = "by_start v6"
  define r where "r = bsearch (start_le6 ?t n) 0 (int (length (v6Info ?t)) - 1) (- 1)"
  note nth = new_AsnTable_nth [OF ok]
  note wf = wf_new_AsnTable [OF ok]
  note srch = v6_search.search [OF wf, where k = n, folded r_def]
  have pre: "fst (?rs ! i) \<le> n \<longleftrightarrow> int i \<le> r" if "i < length ?rs" for i
    using srch(3) [of i] that by (simp add: start_le6_iff [OF wf] nth(4,5))
  have r: "- 1 \<le> r" "r < int (length ?rs)" using srch(1,2) by (simp_all add: nth)
  have up: "fst x \<le> fst (snd x)" if "x \<in> set ?rs" for x using ranges_okD [OF ok(2)] that by simp
  have ix: "snd (snd (?rs ! nat r)) < length gs" if "0 \<le> r"
    using ranges_okD [OF ok(2), of "?rs ! nat r"] r that
    by (metis nat_less_iff nth_mem set_sort_by)
  let ?e = "fst (snd (?rs ! nat r))"
  have pick: "0 \<le> r \<and> n \<le> ?e \<and> i = snd (snd (?rs ! nat r))
      \<longleftrightarrow> (\<exists>a b. (a, b, i) \<in> set v6 \<and> a \<le> n \<and> n \<le> b)" for i
    using pick_range [OF pre r sorted_by_start disjoint_by_start [OF dj] up, of i] by simp
  have halves: "n div 2 ^ 64 < ?e div 2 ^ 64 \<or> n div 2 ^ 64 = ?e div 2 ^ 64 \<and> n mod 2 ^ 64 \<le> ?e mod 2 ^ 64
      \<longleftrightarrow> n \<le> ?e"
    using halves_le [of "n mod 2 ^ 64" "2 ^ 64" "?e mod 2 ^ 64" "n div 2 ^ 64" "?e div 2 ^ 64"] by simp
  have "lookupParsed ?t (V6 n) = (if r < 0 then None else if n \<le> ?e
      then info_at ?t (snd (snd (?rs ! nat r))) else None)"
  proof (cases "r < 0")
    case False
    then have nr: "nat r < length v6" using r by simp
    show ?thesis
      using False r nr unfolding lookupParsed.simps Let_def r_def [symmetric]
      unfolding low64 high64 nth(4) nth(6) [OF nr] nth(7) [OF nr] halves by simp
  qed (simp add: Let_def r_def [symmetric])
  then have "lookupParsed ?t (V6 n) = Some g \<longleftrightarrow>
      (\<exists>i. (0 \<le> r \<and> n \<le> ?e \<and> i = snd (snd (?rs ! nat r))) \<and> gs ! i = g)"
    using ix by (simp add: info_at_def)
  also have "\<dots> \<longleftrightarrow> holds_ip v6 gs n g"
    unfolding pick by (auto simp: holds_ip_def)
  finally show ?thesis .
qed

section \<open>Properties of the table\<close>

text \<open>
  (C6) Lookup in a table of disjoint ranges: for a table that the constructor builds from IPv4 and
  IPv6 ranges that do not overlap, in any order, a lookup gives a record exactly when one of the
  ranges of the address family holds the address, and then the record of that range; outside all
  ranges it gives null. This covers both binary searches, the 64-bit halves and the typed arrays.
\<close>

theorem lookupParsed_ranges:
  assumes "ranges_ok 32 (length gs) v4" and "ranges_ok 128 (length gs) v6" and "length gs \<le> 2 ^ 32"
    and "disjoint_ranges v4" and "disjoint_ranges v6"
  shows "lookupParsed (new_AsnTable v4 v6 gs) ip = Some g \<longleftrightarrow>
    (case ip of V4 n \<Rightarrow> holds_ip v4 gs n g | V6 n \<Rightarrow> holds_ip v6 gs n g)"
  using lookup_v4 [OF assms(1-4), of n g for n] lookup_v6 [OF assms(1-3,5), of n g for n]
  by (cases ip) simp_all

theorem lookupParsed_ranges_witness:
  "lookupParsed (new_AsnTable [(100, 200, 0), (10, 20, 1)] [(2 ^ 64, 2 ^ 65, 1)]
      [\<lparr> asn = 1, org = ''A'', cc = ''DE'' \<rparr>, \<lparr> asn = 2, org = ''B'', cc = ''US'' \<rparr>]) (V4 15)
    = Some \<lparr> asn = 2, org = ''B'', cc = ''US'' \<rparr>"
proof -
  let ?gs = "[\<lparr> asn = 1, org = ''A'', cc = ''DE'' \<rparr>, \<lparr> asn = 2, org = ''B'', cc = ''US'' \<rparr>]"
  have "holds_ip [(100, 200, 0), (10, 20, 1)] ?gs 15 \<lparr> asn = 2, org = ''B'', cc = ''US'' \<rparr>"
    by (simp add: holds_ip_def)
  then show ?thesis
    using lookupParsed_ranges [of ?gs "[(100, 200, 0), (10, 20, 1)]" "[(2 ^ 64, 2 ^ 65, 1)]" "V4 15"]
    by (simp add: ranges_ok_def disjoint_ranges_def del: lookupParsed.simps)
qed

text \<open>
  (C38) Parsing any text gives a usable table: whatever the file holds, the table \<open>parseTable\<close>
  builds is well formed (sorted starts, parallel arrays of equal lengths, every info index in
  range), so a lookup never reads outside an array, and every record a lookup returns has a
  positive AS number, a finite one however large the text in the file, and a country code that is
  empty or two capital letters.
\<close>

theorem parseTable_wf:
  assumes "length tx < 2 ^ 32"
  shows "wf_table (fst (parseTable tx))
    \<and> (\<forall>ip g. lookup (fst (parseTable tx)) ip = Some g \<longrightarrow> geo_ok g)"
  using wf_parseTable [OF assms] lookupParsed_in_infos
  by (auto simp: lookup_def split: option.splits)

definition sample_tsv :: string where
  "sample_tsv = ''1.0.0.0'' @ [CHR 0x09] @ ''1.0.0.255'' @ [CHR 0x09] @ ''13335'' @ [CHR 0x09] @ ''US''
     @ [CHR 0x09] @ ''CLOUDFLARENET - Cloudflare, Inc.'' @ [CHR 0x0A]"

theorem parseTable_wf_witness:
  "wf_table (fst (parseTable sample_tsv))
    \<and> lookup (fst (parseTable sample_tsv)) ''1.0.0.9''
        = Some \<lparr> asn = 13335, org = ''Cloudflare, Inc.'', cc = ''US'' \<rparr>
    \<and> geo_ok (the (lookup (fst (parseTable sample_tsv)) ''1.0.0.9''))"
proof -
  have "lookup (fst (parseTable sample_tsv)) ''1.0.0.9''
      = Some \<lparr> asn = 13335, org = ''Cloudflare, Inc.'', cc = ''US'' \<rparr>"
    by code_simp
  moreover have "length sample_tsv < 2 ^ 32" by (simp add: sample_tsv_def)
  ultimately show ?thesis using parseTable_wf [of sample_tsv] by simp
qed

section \<open>Properties of the database\<close>

lemma enrich_fold:
  assumes "\<And>k v. map_get seen k = Some v \<Longrightarrow> v = lookup t k"
  shows "fst (fold (enrich_step ip_of set_geo t) rows (out, seen))
    = out @ map (\<lambda>r. case lookup t (ip_of r) of None \<Rightarrow> r | Some g \<Rightarrow> set_geo g r) rows"
  using assms
proof (induction rows arbitrary: out seen)
  case (Cons r rows)
  show ?case
  proof (cases "map_get seen (ip_of r)")
    case None
    have "v = lookup t k" if "map_get (map_set (ip_of r) (lookup t (ip_of r)) seen) k = Some v" for k v
      using that Cons.prems by (auto simp: alm.get_put split: if_splits)
    note IH = Cons.IH [OF this, where out = "out @ [case lookup t (ip_of r) of None \<Rightarrow> r | Some g \<Rightarrow> set_geo g r]"]
    have "enrich_step ip_of set_geo t r (out, seen) = (out @ [case lookup t (ip_of r) of
        None \<Rightarrow> r | Some g \<Rightarrow> set_geo g r], map_set (ip_of r) (lookup t (ip_of r)) seen)"
      using None by (simp add: enrich_step_def Let_def)
    with IH show ?thesis by simp
  next
    case (Some v)
    then have "enrich_step ip_of set_geo t r (out, seen) = (out @ [case lookup t (ip_of r) of
        None \<Rightarrow> r | Some g \<Rightarrow> set_geo g r], seen)"
      using Cons.prems [OF Some] by (simp add: enrich_step_def Let_def)
    with Cons.IH [OF Cons.prems] show ?thesis by simp
  qed
qed simp

text \<open>
  Enrichment is a plain lookup per row: the memo of addresses already seen changes nothing,
  the rows keep their number and order, and a row gets the record of its own address or stays as
  it is. Without a table every row is unchanged.
\<close>

theorem GeoDb_enrich_map:
  "GeoDb_enrich ip_of set_geo db rows
     = map (\<lambda>r. case GeoDb_lookup db (ip_of r) of None \<Rightarrow> r | Some g \<Rightarrow> set_geo g r) rows"
proof (cases "db_table db")
  case None
  then show ?thesis by (simp add: GeoDb_enrich_def GeoDb_lookup_def)
next
  case (Some t)
  have "fst (fold (enrich_step ip_of set_geo t) rows ([], []))
      = [] @ map (\<lambda>r. case lookup t (ip_of r) of None \<Rightarrow> r | Some g \<Rightarrow> set_geo g r) rows"
    by (rule enrich_fold) (simp add: map_get_def)
  with Some show ?thesis by (simp add: GeoDb_enrich_def GeoDb_lookup_def)
qed

text \<open>
  A load never loses a table: after any run of \<open>load\<close>, a database that had a table has one, and
  the table changed only if the file was read, has ranges, and the error was cleared. A failed
  \<open>stat\<close>, a failed read and a file without ranges leave the table and its date as they were and
  report an error in the status.
\<close>

theorem GeoDb_load_keeps:
  assumes "GeoDb_load st content db = (db', lg)"
  shows "(db_table db' = db_table db \<and> fileDate db' = fileDate db \<and> (db' = db \<or> db_error db' \<noteq> None))
    \<or> (\<exists>tx mtime. content = Inr tx \<and> st = StatOk mtime \<and> db_table db' = Some (fst (parseTable tx))
          \<and> gs_entries (GeoDb_status db') > 0 \<and> db_error db' = None
          \<and> fileDate db' = Some (Math_round mtime))"
proof (cases st)
  case (StatErr code msg)
  with assms show ?thesis by (auto simp: GeoDb_load_def Let_def)
next
  case (StatOk mtime)
  with assms show ?thesis
    by (auto simp: GeoDb_load_def GeoDb_status_def Let_def split: if_splits sum.splits)
qed

theorem GeoDb_load_keeps_witness:
  "\<exists>db' lg. GeoDb_load (StatOk 1500) (Inr sample_tsv) (new_GeoDb (Some ''f'')) = (db', lg)
     \<and> gs_entries (GeoDb_status db') > 0"
proof -
  obtain db' lg where eq: "GeoDb_load (StatOk 1500) (Inr sample_tsv) (new_GeoDb (Some ''f'')) = (db', lg)"
    by fastforce
  have "db_table (fst (GeoDb_load (StatOk 1500) (Inr sample_tsv) (new_GeoDb (Some ''f'')))) \<noteq> None"
    by code_simp
  with eq GeoDb_load_keeps [OF eq] show ?thesis by (auto simp: new_GeoDb_def)
qed

text \<open>
  (C40) When an unchanged file is read again: after a successful load, the next check of the same file
  with the same modification time does nothing if that time is a whole number of milliseconds,
  and parses the file again, at every check, if it has a fraction.
\<close>

theorem GeoDb_recheck:
  assumes "GeoDb_load (StatOk mtime) (Inr tx) db = (db', lg)" and "lg \<noteq> []" and "db_error db' = None"
  shows "GeoDb_load (StatOk mtime) content db' = (db', []) \<longleftrightarrow> mtime = of_int (Math_round mtime)"
proof -
  have db': "db_table db' = Some (fst (parseTable tx))" "fileDate db' = Some (Math_round mtime)"
    using assms by (auto simp: GeoDb_load_def Let_def split: if_splits)
  then show ?thesis
    by (auto simp: GeoDb_load_def Let_def split: sum.splits)
qed

theorem GeoDb_recheck_witness:
  "\<exists>db' lg. GeoDb_load (StatOk (3001 / 2)) (Inr sample_tsv) (new_GeoDb None) = (db', lg)
     \<and> GeoDb_load (StatOk (3001 / 2)) (Inr sample_tsv) db' \<noteq> (db', [])"
proof -
  obtain db' lg where eq: "GeoDb_load (StatOk (3001 / 2)) (Inr sample_tsv) (new_GeoDb None) = (db', lg)"
    by fastforce
  have "snd (GeoDb_load (StatOk (3001 / 2)) (Inr sample_tsv) (new_GeoDb None)) \<noteq> []
      \<and> db_error (fst (GeoDb_load (StatOk (3001 / 2)) (Inr sample_tsv) (new_GeoDb None))) = None"
    by code_simp
  with eq have "lg \<noteq> []" "db_error db' = None" by auto
  moreover have "(3001 / 2 :: num) \<noteq> of_int (Math_round (3001 / 2))" by code_simp
  ultimately show ?thesis using eq GeoDb_recheck [OF eq, of "Inr sample_tsv"] by blast
qed

end
