(* ===== verification/Live.thy ===== *)
theory Live
  imports Asn
begin

text \<open>
  \<^verbatim>\<open>web/src/server/live/compact.ts\<close>: a collector snapshot reduced to what the live views show. The
  records are the shapes of \<^verbatim>\<open>web/src/shared/api.ts\<close>. A snapshot is taken after \<open>JSON.parse\<close>, with
  \<open>start_ns\<close> kept as text. The \<open>apps\<close> object is an insertion-ordered map, as is each \<open>Map\<close> keyed by
  strings that join several fields by NUL characters: here the key is the tuple of the fields,
  which have no NUL. Strings have 8-bit characters; the ellipsis that ends a cut command line is
  the character \<open>0x85\<close>.
\<close>

section \<open>Snapshots\<close>

record LiveProcess =
  p_pid :: nat
  p_start_ns :: string
  p_start_ms :: num
  p_name :: string
  p_cmdline :: string
  p_uid :: num
  p_first_seen_ms :: num
  p_last_seen_ms :: num
  p_ended_ms :: "num option"
  p_tx_kbps :: num
  p_rx_kbps :: num
  p_tx_total :: num
  p_rx_total :: num

record LiveFlow =
  f_pid :: nat
  f_start_ns :: string
  f_name :: string
  f_uid :: num
  f_proto :: string
  f_app :: string
  f_raddr :: string
  f_rport :: nat
  f_lport :: nat
  f_tx_bytes :: num
  f_rx_bytes :: num
  f_tx_calls :: num
  f_rx_calls :: num
  f_tx_kbps :: num
  f_rx_kbps :: num

record LiveSnapshot =
  ts_ms :: num
  interval_ms :: num
  drops :: num
  processes :: "LiveProcess list"
  flows :: "LiveFlow list"

record CompactProc =
  cp_id :: string
  cp_name :: string
  cp_tx :: num
  cp_rx :: num

record CompactTick =
  ts :: num
  intervalMs :: num
  ct_drops :: num
  nProcs :: nat
  ct_nFlows :: nat
  txKbps :: num
  rxKbps :: num
  procs :: "CompactProc list"
  apps :: "(string, num \<times> num) jsmap"
  gap :: bool

definition CMDLINE_MAX :: nat where "CMDLINE_MAX = 300"

text \<open>\<open>`${pid}:${start_ns}`\<close>\<close>

definition proc_id :: "nat \<Rightarrow> string \<Rightarrow> string" where
  "proc_id pid start_ns = string_of_nat pid @ '':'' @ start_ns"

section \<open>The compact tick\<close>

record tick_acc =
  a_tx :: num
  a_rx :: num
  a_nProcs :: nat
  a_procs :: "CompactProc list"

definition add_proc :: "LiveProcess \<Rightarrow> tick_acc \<Rightarrow> tick_acc" where
  "add_proc p a =
     (let a = (if p_ended_ms p = None then a\<lparr> a_nProcs := a_nProcs a + 1 \<rparr> else a);
          a = a\<lparr> a_tx := fadd (a_tx a) (p_tx_kbps p), a_rx := fadd (a_rx a) (p_rx_kbps p) \<rparr>
      in if p_tx_kbps p > 0 \<or> p_rx_kbps p > 0
         then a\<lparr> a_procs := a_procs a @ [\<lparr> cp_id = proc_id (p_pid p) (p_start_ns p), cp_name = p_name p,
                   cp_tx = r2 (p_tx_kbps p), cp_rx = r2 (p_rx_kbps p) \<rparr>] \<rparr>
         else a)"

definition add_app :: "(num \<times> num) option \<Rightarrow> LiveFlow \<Rightarrow> num \<times> num" where
  "add_app v f = (let (t, r) = (case v of None \<Rightarrow> (0, 0) | Some a \<Rightarrow> a) in
     (fadd t (f_tx_kbps f), fadd r (f_rx_kbps f)))"

definition compactTick :: "LiveSnapshot \<Rightarrow> CompactTick" where
  "compactTick s =
     (let a = fold add_proc (processes s) \<lparr> a_tx = 0, a_rx = 0, a_nProcs = 0, a_procs = [] \<rparr>;
          as = accum f_app add_app (flows s) [];
          as = map (\<lambda>(k, t, r). (k, r2 t, r2 r)) as
      in \<lparr> ts = ts_ms s, intervalMs = interval_ms s, ct_drops = drops s, nProcs = a_nProcs a,
           ct_nFlows = length (flows s), txKbps = r2 (a_tx a), rxKbps = r2 (a_rx a),
           procs = a_procs a, apps = as, gap = False \<rparr>)"

section \<open>Flows over several ticks\<close>

type_synonym flow_key = "string \<times> string \<times> string \<times> string \<times> nat"

definition flow_key :: "LiveFlow \<Rightarrow> flow_key" where
  "flow_key f = (f_name f, f_proto f, f_app f, f_raddr f, f_rport f)"

record FlowAgg =
  g_name :: string
  g_proto :: string
  g_app :: string
  g_ip :: string
  g_rport :: nat
  g_tx :: num
  g_rx :: num
  g_id :: string
  g_geo :: "Geo option"

record flow_acc =
  r_row :: FlowAgg
  r_perId :: "(string, num) jsmap"

definition add_flow :: "flow_acc option \<Rightarrow> LiveFlow \<Rightarrow> flow_acc" where
  "add_flow v f =
     (let r = (case v of Some r \<Rightarrow> r
         | None \<Rightarrow> \<lparr> r_row = \<lparr> g_name = f_name f, g_proto = f_proto f, g_app = f_app f, g_ip = f_raddr f,
                      g_rport = f_rport f, g_tx = 0, g_rx = 0, g_id = [], g_geo = None \<rparr>, r_perId = [] \<rparr>);
          i = proc_id (f_pid f) (f_start_ns f);
          old = (case map_get (r_perId r) i of None \<Rightarrow> 0 | Some s \<Rightarrow> s)
      in \<lparr> r_row = (r_row r)\<lparr> g_tx := fadd (g_tx (r_row r)) (f_tx_kbps f),
                             g_rx := fadd (g_rx (r_row r)) (f_rx_kbps f) \<rparr>,
           r_perId = map_set i (fadd (fadd old (f_tx_kbps f)) (f_rx_kbps f)) (r_perId r) \<rparr>)"

text \<open>The loop that finds the busiest instance: the first one with the largest sum.\<close>

definition pick_id :: "(string, num) jsmap \<Rightarrow> num \<times> string \<Rightarrow> num \<times> string" where
  "pick_id perId b0 = fold (\<lambda>(i, s) (best, bid). if s > best then (s, i) else (best, bid)) perId b0"

definition finish_row :: "nat \<Rightarrow> flow_acc \<Rightarrow> FlowAgg" where
  "finish_row n r = (r_row r)\<lparr> g_id := snd (pick_id (r_perId r) (-1, [])),
     g_tx := r2 (fdiv (g_tx (r_row r)) (of_nat n)), g_rx := r2 (fdiv (g_rx (r_row r)) (of_nat n)) \<rparr>"

definition aggregateFlows :: "LiveFlow list list \<Rightarrow> FlowAgg list" where
  "aggregateFlows ticks =
     (let rows = accum flow_key add_flow (concat ticks) [];
          n = max 1 (length ticks)
      in sort_by (\<lambda>a b. fadd (g_tx b) (g_rx b) \<le> fadd (g_tx a) (g_rx a)) (map (\<lambda>(k, r). finish_row n r) rows))"

section \<open>The top-talkers table\<close>

record LiveProcessRow =
  l_id :: string
  l_pid :: nat
  l_startNs :: string
  l_name :: string
  l_cmdline :: string
  l_uid :: num
  l_user :: "string option"
  l_startMs :: num
  l_firstSeenMs :: num
  l_lastSeenMs :: num
  l_endedMs :: "num option"
  l_txKbps :: num
  l_rxKbps :: num
  l_txTotal :: num
  l_rxTotal :: num
  l_nFlows :: nat

record LiveSnapshotResponse =
  sr_ts :: num
  sr_intervalMs :: num
  sr_processes :: "LiveProcessRow list"

definition count_flow :: "nat option \<Rightarrow> LiveFlow \<Rightarrow> nat" where
  "count_flow v f = (case v of None \<Rightarrow> 0 | Some n \<Rightarrow> n) + 1"

definition process_row :: "(string, nat) jsmap \<Rightarrow> (num \<Rightarrow> string option) \<Rightarrow> LiveProcess \<Rightarrow> LiveProcessRow" where
  "process_row fl_n user p =
     (let i = proc_id (p_pid p) (p_start_ns p) in
      \<lparr> l_id = i, l_pid = p_pid p, l_startNs = p_start_ns p, l_name = p_name p,
        l_cmdline = (if length (p_cmdline p) > CMDLINE_MAX
                     then take (CMDLINE_MAX - 1) (p_cmdline p) @ [CHR 0x85] else p_cmdline p),
        l_uid = p_uid p, l_user = user (p_uid p), l_startMs = p_start_ms p,
        l_firstSeenMs = p_first_seen_ms p, l_lastSeenMs = p_last_seen_ms p, l_endedMs = p_ended_ms p,
        l_txKbps = p_tx_kbps p, l_rxKbps = p_rx_kbps p, l_txTotal = p_tx_total p, l_rxTotal = p_rx_total p,
        l_nFlows = (case map_get fl_n i of None \<Rightarrow> 0 | Some n \<Rightarrow> n) \<rparr>)"

definition snapshotRows :: "LiveSnapshot \<Rightarrow> (num \<Rightarrow> string option) \<Rightarrow> LiveSnapshotResponse" where
  "snapshotRows s user =
     (let fl_n = accum (\<lambda>f. proc_id (f_pid f) (f_start_ns f)) count_flow (flows s) [] in
      \<lparr> sr_ts = ts_ms s, sr_intervalMs = interval_ms s, sr_processes = map (process_row fl_n user) (processes s) \<rparr>)"

section \<open>What the reductions compute\<close>

text \<open>A JavaScript sum: additions from the left, each rounded.\<close>

definition fsum :: "num list \<Rightarrow> num" where "fsum xs = foldl fadd 0 xs"

lemma fsum_Nil [simp]: "fsum [] = 0"
  by (simp add: fsum_def)

lemma fsum_snoc [simp]: "fsum (xs @ [x]) = fadd (fsum xs) x"
  by (simp add: fsum_def)

lemma fsum_nonneg: "(\<And>x. x \<in> set xs \<Longrightarrow> 0 \<le> x) \<Longrightarrow> 0 \<le> fsum xs"
  by (induction xs rule: rev_induct) simp_all

lemma map_get_map_values: "map_get (map (\<lambda>(k, v). (k, h v)) m) k = map_option h (map_get m k)"
  by (induction m) (auto simp: map_get_def)

text \<open>The two rounded sums a label collects.\<close>

lemma add_app_fold:
  "foldl (\<lambda>v f. Some (add_app v f)) None fs =
     (if fs = [] then None else Some (fsum (map f_tx_kbps fs), fsum (map f_rx_kbps fs)))"
  by (induction fs rule: rev_induct) (auto simp: add_app_def)

definition active :: "LiveProcess \<Rightarrow> bool" where
  "active p \<longleftrightarrow> p_tx_kbps p > 0 \<or> p_rx_kbps p > 0"

definition compact_proc :: "LiveProcess \<Rightarrow> CompactProc" where
  "compact_proc p = \<lparr> cp_id = proc_id (p_pid p) (p_start_ns p), cp_name = p_name p,
     cp_tx = r2 (p_tx_kbps p), cp_rx = r2 (p_rx_kbps p) \<rparr>"

lemma add_proc_fold:
  "fold add_proc ps \<lparr> a_tx = 0, a_rx = 0, a_nProcs = 0, a_procs = [] \<rparr> =
     \<lparr> a_tx = fsum (map p_tx_kbps ps), a_rx = fsum (map p_rx_kbps ps),
       a_nProcs = length (filter (\<lambda>p. p_ended_ms p = None) ps),
       a_procs = map compact_proc (filter active ps) \<rparr>"
  by (induction ps rule: rev_induct) (auto simp: add_proc_def Let_def active_def compact_proc_def)

text \<open>
  What a compact tick holds: the count of processes that have not ended, the number of flows,
  the rounded totals of both directions over all processes, the processes with traffic in their
  order, and for each application label that occurs, and for no other, the rounded sums over
  exactly the flows of that label.
\<close>

theorem compactTick_spec:
  "nProcs (compactTick s) = length (filter (\<lambda>p. p_ended_ms p = None) (processes s))
   \<and> ct_nFlows (compactTick s) = length (flows s) \<and> ts (compactTick s) = ts_ms s
   \<and> txKbps (compactTick s) = r2 (fsum (map p_tx_kbps (processes s)))
   \<and> rxKbps (compactTick s) = r2 (fsum (map p_rx_kbps (processes s)))
   \<and> procs (compactTick s) = map compact_proc (filter active (processes s))
   \<and> map_ok (apps (compactTick s))
   \<and> map_get (apps (compactTick s)) k =
      (let fs = filter (\<lambda>f. f_app f = k) (flows s) in
       if fs = [] then None else Some (r2 (fsum (map f_tx_kbps fs)), r2 (fsum (map f_rx_kbps fs))))"
proof -
  have h: "(\<lambda>(k, t, r). (k, r2 t, r2 r)) = (\<lambda>(k :: string, v). (k, (\<lambda>(t, r). (r2 t, r2 r)) v))" by auto
  have "map_get (accum f_app add_app (flows s) []) k =
      foldl (\<lambda>v f. Some (add_app v f)) None (filter (\<lambda>f. f_app f = k) (flows s))"
    unfolding get_accum by (simp add: map_get_def)
  moreover have "map_ok (map (\<lambda>(k, v). (k, (\<lambda>(t, r). (r2 t, r2 r)) v)) (accum f_app add_app (flows s) []))"
    by (simp add: map_ok_def comp_def case_prod_unfold)
  ultimately show ?thesis
    by (simp add: compactTick_def Let_def add_proc_fold h map_get_map_values add_app_fold)
qed

section \<open>Aggregated flows\<close>

definition row_key :: "FlowAgg \<Rightarrow> flow_key" where
  "row_key g = (g_name g, g_proto g, g_app g, g_ip g, g_rport g)"

abbreviation flow_id :: "LiveFlow \<Rightarrow> string" where
  "flow_id f \<equiv> proc_id (f_pid f) (f_start_ns f)"

definition id_sum :: "string \<Rightarrow> LiveFlow list \<Rightarrow> num" where
  "id_sum i fs = foldl (\<lambda>s f. fadd (fadd s (f_tx_kbps f)) (f_rx_kbps f)) 0 (filter (\<lambda>f. flow_id f = i) fs)"

lemma id_sum_snoc: "id_sum i (fs @ [f]) =
    (if flow_id f = i then fadd (fadd (id_sum i fs) (f_tx_kbps f)) (f_rx_kbps f) else id_sum i fs)"
  by (simp add: id_sum_def)

lemma add_flow_fold:
  assumes "fs \<noteq> []" and "\<forall>f \<in> set fs. flow_key f = k"
  shows "\<exists>r. foldl (\<lambda>v f. Some (add_flow v f)) None fs = Some r \<and> row_key (r_row r) = k
    \<and> g_tx (r_row r) = fsum (map f_tx_kbps fs) \<and> g_rx (r_row r) = fsum (map f_rx_kbps fs)
    \<and> map_ok (r_perId r) \<and> (\<forall>i. map_get (r_perId r) i = (if i \<in> flow_id ` set fs then Some (id_sum i fs) else None))"
  using assms
proof (induction fs rule: rev_induct)
  case (snoc f fs)
  show ?case
  proof (cases "fs = []")
    case True
    with snoc.prems show ?thesis
      by (auto simp: add_flow_def Let_def row_key_def flow_key_def alm.get_put id_sum_def fsum_def
          intro!: alm.invar_put) (auto simp: map_get_def)
  next
    case False
    with snoc obtain r where r: "foldl (\<lambda>v f. Some (add_flow v f)) None fs = Some r"
      "row_key (r_row r) = k" "g_tx (r_row r) = fsum (map f_tx_kbps fs)" "g_rx (r_row r) = fsum (map f_rx_kbps fs)"
      "\<And>i. map_get (r_perId r) i = (if i \<in> flow_id ` set fs then Some (id_sum i fs) else None)"
      "map_ok (r_perId r)"
      by auto
    have "id_sum i fs = 0" if "i \<notin> flow_id ` set fs" for i
    proof -
      have "filter (\<lambda>f. flow_id f = i) fs = []" using that by (auto simp: filter_empty_conv)
      then show ?thesis by (simp add: id_sum_def)
    qed
    then have "map_get (r_perId (add_flow (Some r) f)) i =
        (if i \<in> flow_id ` set (fs @ [f]) then Some (id_sum i (fs @ [f])) else None)" for i
      by (auto simp: add_flow_def Let_def alm.get_put r(5) id_sum_snoc)
    moreover have "row_key (r_row (add_flow (Some r) f)) = k"
      using r(2) by (simp add: add_flow_def Let_def row_key_def)
    moreover have "map_ok (r_perId (add_flow (Some r) f))"
      using r(6) by (simp add: add_flow_def Let_def alm.invar_put)
    ultimately show ?thesis using r(1,3,4) by (auto simp: add_flow_def Let_def)
  qed
qed simp

text \<open>The scan for the busiest instance.\<close>

lemma pick_id_max:
  assumes "pick_id m (b, i) = (best, j)"
  shows "b \<le> best \<and> (\<forall>(i', s) \<in> set m. s \<le> best) \<and> ((j, best) \<in> set m \<or> (best, j) = (b, i))"
  using assms
proof (induction m arbitrary: b i)
  case (Cons e m)
  obtain k s where e: "e = (k, s)" by fastforce
  have rec: "pick_id m (if s > b then (s, k) else (b, i)) = (best, j)"
    using Cons.prems by (simp add: pick_id_def e)
  show ?case
  proof (cases "s > b")
    case True
    with Cons.IH [of s k] rec show ?thesis by (auto simp: e)
  next
    case False
    with Cons.IH [of b i] rec show ?thesis by (auto simp: e)
  qed
qed (simp add: pick_id_def)

interpretation agg_order: comparator "\<lambda>a b. fadd (g_tx b) (g_rx b) \<le> fadd (g_tx a) (g_rx a)"
  by (rule comparator_key_desc)

lemma id_sum_nonneg:
  assumes "\<forall>f \<in> set fs. 0 \<le> f_tx_kbps f \<and> 0 \<le> f_rx_kbps f"
  shows "0 \<le> id_sum i fs"
  using assms by (induction fs rule: rev_induct) (auto simp: id_sum_snoc, simp add: id_sum_def)

text \<open>A row before sorting: its key, its means and its busiest instance.\<close>

lemma finish_row_spec:
  fixes n :: nat
  assumes "(k, r) \<in> set (accum flow_key add_flow fs [])"
    and "\<forall>f \<in> set fs. 0 \<le> f_tx_kbps f \<and> 0 \<le> f_rx_kbps f"
  defines "gs \<equiv> filter (\<lambda>f. flow_key f = k) fs" and "g \<equiv> finish_row n r"
  shows "row_key g = k" "g_tx g = r2 (fdiv (fsum (map f_tx_kbps gs)) (of_nat n))"
    "g_rx g = r2 (fdiv (fsum (map f_rx_kbps gs)) (of_nat n))"
    "g_id g \<in> flow_id ` set gs" "\<And>f. f \<in> set gs \<Longrightarrow> id_sum (flow_id f) gs \<le> id_sum (g_id g) gs"
proof -
  have acc: "foldl (\<lambda>v f. Some (add_flow v f)) None gs = Some r"
    using assms(1) by (simp add: in_accum_iff gs_def)
  then have ne: "gs \<noteq> []" by auto
  have "\<forall>f \<in> set gs. flow_key f = k" by (simp add: gs_def)
  from add_flow_fold [OF ne this] acc
  have r: "row_key (r_row r) = k" "g_tx (r_row r) = fsum (map f_tx_kbps gs)"
    "g_rx (r_row r) = fsum (map f_rx_kbps gs)"
    "\<And>i. map_get (r_perId r) i = (if i \<in> flow_id ` set gs then Some (id_sum i gs) else None)"
    "map_ok (r_perId r)"
    by auto
  then show "row_key g = k" "g_tx g = r2 (fdiv (fsum (map f_tx_kbps gs)) (of_nat n))"
    "g_rx g = r2 (fdiv (fsum (map f_rx_kbps gs)) (of_nat n))"
    by (simp_all add: g_def finish_row_def row_key_def)
  obtain best j where p: "pick_id (r_perId r) (-1, []) = (best, j)" by fastforce
  then have j: "g_id g = j" by (simp add: g_def finish_row_def)
  note pm = pick_id_max [OF p]
  have mem: "(i, s) \<in> set (r_perId r) \<longleftrightarrow> i \<in> flow_id ` set gs \<and> s = id_sum i gs" for i s
    using r(4) [of i] by (auto simp: map_mem_iff [OF r(5)] split: if_splits)
  obtain f0 where f0: "f0 \<in> set gs" using ne by (cases gs) auto
  have le: "id_sum (flow_id f) gs \<le> best" if "f \<in> set gs" for f
    using pm mem [of "flow_id f" "id_sum (flow_id f) gs"] that by fastforce
  have "0 \<le> id_sum i gs" for i using assms(2) by (intro id_sum_nonneg) (auto simp: gs_def)
  then have "0 \<le> best" using le [OF f0] by (meson order_trans)
  then have "(j, best) \<in> set (r_perId r)" using pm by auto
  then have jb: "j \<in> flow_id ` set gs" "best = id_sum j gs" by (simp_all add: mem)
  then show "g_id g \<in> flow_id ` set gs" by (simp add: j)
  show "id_sum (flow_id f) gs \<le> id_sum (g_id g) gs" if "f \<in> set gs" for f
    using le [OF that] jb(2) by (simp add: j)
qed

text \<open>
  The aggregate behind the live Sankey: for flows with non-negative rates there is exactly one
  row per (name, proto, app, address, port) that occurs in the ticks; its rates are the rounded
  sums over the ticks of the flows with that key, divided by the number of ticks (a flow missing
  from a tick counts as 0 there); its \<open>id\<close> is a process instance among those flows, none of which
  is busier; and the rows come largest first.
\<close>

theorem aggregateFlows_spec:
  assumes "\<forall>f \<in> set (concat ticks). 0 \<le> f_tx_kbps f \<and> 0 \<le> f_rx_kbps f"
  shows "distinct (map row_key (aggregateFlows ticks))
    \<and> row_key ` set (aggregateFlows ticks) = flow_key ` set (concat ticks)
    \<and> sorted_wrt (\<lambda>a b. fadd (g_tx b) (g_rx b) \<le> fadd (g_tx a) (g_rx a)) (aggregateFlows ticks)
    \<and> (\<forall>g \<in> set (aggregateFlows ticks).
         let gs = filter (\<lambda>f. flow_key f = row_key g) (concat ticks); n = of_nat (max 1 (length ticks)) in
         g_tx g = r2 (fdiv (fsum (map f_tx_kbps gs)) n) \<and> g_rx g = r2 (fdiv (fsum (map f_rx_kbps gs)) n)
         \<and> g_id g \<in> flow_id ` set gs \<and> (\<forall>f \<in> set gs. id_sum (flow_id f) gs \<le> id_sum (g_id g) gs))"
proof -
  let ?acc = "accum flow_key add_flow (concat ticks) []" and ?n = "max 1 (length ticks)"
  let ?rows = "map (\<lambda>(k, r). finish_row ?n r) ?acc"
  have agg: "aggregateFlows ticks = sort_by (\<lambda>a b. fadd (g_tx b) (g_rx b) \<le> fadd (g_tx a) (g_rx a)) ?rows"
    by (simp add: aggregateFlows_def Let_def)
  note row = finish_row_spec [OF _ assms, where n = ?n]
  have keys: "map row_key ?rows = map fst ?acc" using row(1) by auto
  have "mset (map row_key (aggregateFlows ticks)) = mset (map row_key ?rows)"
    unfolding agg by (metis mset_map mset_sort_by)
  then have perm: "mset (map row_key (aggregateFlows ticks)) = mset (map fst ?acc)" by (simp only: keys)
  then have "distinct (map row_key (aggregateFlows ticks))"
    using distinct_keys_accum mset_eq_imp_distinct_iff by blast
  moreover have "row_key ` set (aggregateFlows ticks) = flow_key ` set (concat ticks)"
    using mset_eq_setD [OF perm] set_keys_accum [of flow_key add_flow "concat ticks"] by simp
  moreover have "let gs = filter (\<lambda>f. flow_key f = row_key g) (concat ticks); n = of_nat ?n in
         g_tx g = r2 (fdiv (fsum (map f_tx_kbps gs)) n) \<and> g_rx g = r2 (fdiv (fsum (map f_rx_kbps gs)) n)
         \<and> g_id g \<in> flow_id ` set gs \<and> (\<forall>f \<in> set gs. id_sum (flow_id f) gs \<le> id_sum (g_id g) gs)"
    if mem: "g \<in> set (aggregateFlows ticks)" for g
  proof -
    from mem obtain k r where kr: "(k, r) \<in> set ?acc" and g: "g = finish_row ?n r"
      unfolding agg set_sort_by by auto
    show ?thesis unfolding g Let_def row(1) [OF kr] using row(2-5) [OF kr] by blast
  qed
  ultimately show ?thesis unfolding agg using agg_order.sort_by_sorted by blast
qed

definition sample_flow :: LiveFlow where
  "sample_flow = \<lparr> f_pid = 7, f_start_ns = ''99'', f_name = ''curl'', f_uid = 0, f_proto = ''tcp'', f_app = ''https'',
     f_raddr = ''1.1.1.1'', f_rport = 443, f_lport = 50000, f_tx_bytes = 0, f_rx_bytes = 0, f_tx_calls = 0,
     f_rx_calls = 0, f_tx_kbps = 3, f_rx_kbps = 5 \<rparr>"

theorem aggregateFlows_spec_witness:
  "row_key ` set (aggregateFlows [[sample_flow], []]) = {(''curl'', ''tcp'', ''https'', ''1.1.1.1'', 443)}
   \<and> map g_tx (aggregateFlows [[sample_flow], []]) = [3 / 2]"
proof -
  have "map g_tx (aggregateFlows [[sample_flow], []]) = [3 / 2]" by code_simp
  with aggregateFlows_spec [of "[[sample_flow], []]"] show ?thesis
    by (simp add: sample_flow_def flow_key_def)
qed

section \<open>The process table\<close>

lemma count_flow_fold:
  "foldl (\<lambda>v f. Some (count_flow v f)) None fs = (if fs = [] then None else Some (length fs))"
  by (induction fs rule: rev_induct) (auto simp: count_flow_def)

text \<open>
  The process table has one row per process of the snapshot, in its order, with its identity
  and rates; the number of flows of a row is the number of the snapshot's flows of that instance;
  no command line is longer than 300 characters, and one that is not is unchanged.
\<close>

theorem snapshotRows_spec:
  "map l_id (sr_processes (snapshotRows s user)) = map (\<lambda>p. proc_id (p_pid p) (p_start_ns p)) (processes s)
   \<and> map l_nFlows (sr_processes (snapshotRows s user))
      = map (\<lambda>p. length (filter (\<lambda>f. flow_id f = proc_id (p_pid p) (p_start_ns p)) (flows s))) (processes s)
   \<and> map l_user (sr_processes (snapshotRows s user)) = map (\<lambda>p. user (p_uid p)) (processes s)
   \<and> (\<forall>i < length (processes s). let c = l_cmdline (sr_processes (snapshotRows s user) ! i);
         c0 = p_cmdline (processes s ! i) in
       length c = min CMDLINE_MAX (length c0) \<and> take (CMDLINE_MAX - 1) c = take (CMDLINE_MAX - 1) c0
       \<and> (length c0 \<le> CMDLINE_MAX \<longrightarrow> c = c0))"
proof -
  have n: "map_get (accum flow_id count_flow (flows s) []) i =
      (let fs = filter (\<lambda>f. flow_id f = i) (flows s) in if fs = [] then None else Some (length fs))" for i
    by (simp add: get_accum count_flow_fold Let_def) (simp add: map_get_def count_flow_fold)
  then have "(case map_get (accum flow_id count_flow (flows s) []) i of None \<Rightarrow> 0 | Some n \<Rightarrow> n)
      = length (filter (\<lambda>f. flow_id f = i) (flows s))" for i
    by (simp add: Let_def)
  then show ?thesis
    by (auto simp: snapshotRows_def Let_def process_row_def CMDLINE_MAX_def)
qed

definition sample_proc :: LiveProcess where
  "sample_proc = \<lparr> p_pid = 7, p_start_ns = ''99'', p_start_ms = 1, p_name = ''curl'', p_cmdline = ''curl x'',
     p_uid = 0, p_first_seen_ms = 1, p_last_seen_ms = 2, p_ended_ms = None, p_tx_kbps = 3, p_rx_kbps = 5,
     p_tx_total = 0, p_rx_total = 0 \<rparr>"

definition sample_snapshot :: LiveSnapshot where
  "sample_snapshot = \<lparr> ts_ms = 5000, interval_ms = 1000, drops = 0, processes = [sample_proc],
     flows = [sample_flow, sample_flow] \<rparr>"

theorem snapshotRows_spec_witness:
  "map l_nFlows (sr_processes (snapshotRows sample_snapshot (\<lambda>u. None))) = [2]
   \<and> l_cmdline (sr_processes (snapshotRows sample_snapshot (\<lambda>u. None)) ! 0) = ''curl x''"
  using snapshotRows_spec [of sample_snapshot "\<lambda>u. None"]
  by (simp add: sample_snapshot_def sample_proc_def sample_flow_def CMDLINE_MAX_def Let_def)

end
