(* ===== verification/Buckets.thy ===== *)
theory Buckets
  imports Range Live
begin

text \<open>
  The time buckets of the history answers: \<open>alignRange\<close>, \<open>bucketCount\<close>, \<open>coveredSeconds\<close>, \<open>kbps\<close> and
  \<open>perSecond\<close> of \<^verbatim>\<open>web/src/server/ch/throughput.ts\<close>, and the loop that all its answers share, which adds
  each row's value to the bucket of its time. Row times are the seconds the database returns; a
  64-bit sum arrives as a decimal text, which \<open>Number()\<close> reads.
\<close>

datatype cell = Quoted string | Plain num

definition Number_cell :: "cell \<Rightarrow> num" where
  "Number_cell c = (case c of Quoted s \<Rightarrow> Number_dec s | Plain x \<Rightarrow> x)"

definition stepMs :: "Range \<Rightarrow> int" where
  "stepMs r = r_step r * 1000"

text \<open>\<open>Math.floor(n / k) * k\<close>\<close>

definition floor_to :: "int \<Rightarrow> int \<Rightarrow> int" where
  "floor_to n k = Math_floor (fdiv (of_int n) (of_int k)) * k"

definition alignRange :: "Range \<Rightarrow> Range" where
  "alignRange r = r\<lparr> r_from := floor_to (r_from r) (stepMs r) \<rparr>"

definition kbps :: "num \<Rightarrow> num \<Rightarrow> num" where
  "kbps bytes seconds = (if seconds > 0
     then fdiv (of_int (Math_round (fdiv (fmul bytes 8) seconds))) 1000 else 0)"

definition bucketCount :: "Range \<Rightarrow> nat" where
  "bucketCount r = nat (max 1 (Math_ceil (fdiv (of_int (r_to r - r_from r)) (of_int (stepMs r)))))"

text \<open>The end of the data of a range, and the milliseconds that the bucket starting at \<open>start\<close> covers.\<close>

definition dataEnd :: "Range \<Rightarrow> int" where
  "dataEnd r = (if r_table r = Flows then r_to r else ceil_to (r_to r) 60000)"

definition coveredMs :: "Range \<Rightarrow> int \<Rightarrow> int" where
  "coveredMs r start = min (start + stepMs r) (max (dataEnd r) start) - start"

definition coveredSeconds :: "Range \<Rightarrow> int list \<Rightarrow> num list" where
  "coveredSeconds r t = map (\<lambda>start. fdiv (of_int (coveredMs r start)) 1000) t"

definition perSecond :: "num \<Rightarrow> num \<Rightarrow> num" where
  "perSecond calls seconds = (if seconds > 0 then round_dec 1000000 (fdiv calls seconds) else 0)"

text \<open>The bucket starts \<open>from + i * stepMs\<close>.\<close>

definition bucketStarts :: "int \<Rightarrow> int \<Rightarrow> nat \<Rightarrow> int list" where
  "bucketStarts from w n = map (\<lambda>i. from + int i * w) [0..<n]"

text \<open>\<open>Math.round((t * 1000 - from) / stepMs)\<close>, and the shared loop over the rows.\<close>

definition bucketIndex :: "int \<Rightarrow> int \<Rightarrow> int \<Rightarrow> int" where
  "bucketIndex from w t = Math_round (fdiv (of_int (t * 1000 - from)) (of_int w))"

definition fill :: "('r \<Rightarrow> int) \<Rightarrow> ('r \<Rightarrow> num) \<Rightarrow> nat \<Rightarrow> 'r list \<Rightarrow> num list" where
  "fill ix val n rows = fold (\<lambda>r arr. let i = ix r in
     if i < 0 \<or> i \<ge> int n then arr else arr[nat i := fadd (arr ! nat i) (val r)]) rows (replicate n 0)"

section \<open>What the loop leaves in the buckets\<close>

lemma fill_Nil [simp]: "fill ix val n [] = replicate n 0"
  by (simp add: fill_def)

lemma fill_snoc: "fill ix val n (rows @ [r]) = (let i = ix r in
    if i < 0 \<or> i \<ge> int n then fill ix val n rows
    else (fill ix val n rows)[nat i := fadd (fill ix val n rows ! nat i) (val r)])"
  unfolding fill_def by (simp add: Let_def)

lemma length_fill [simp]: "length (fill ix val n rows) = n"
  by (induction rows rule: rev_induct) (auto simp: fill_snoc Let_def)

lemma nth_fill:
  "i < n \<Longrightarrow> fill ix val n rows ! i = fsum (map val (filter (\<lambda>r. ix r = int i) rows))"
  by (induction rows rule: rev_induct) (auto simp: fill_snoc Let_def nth_list_update)

lemma fill_eq: "fill ix val n rows = map (\<lambda>i. fsum (map val (filter (\<lambda>r. ix r = int i) rows))) [0..<n]"
  by (rule nth_equalityI) (simp_all add: nth_fill)

section \<open>The buckets tile the range\<close>

lemma floor_to_exact: "\<bar>n\<bar> < 2 ^ 53 \<Longrightarrow> 0 < k \<Longrightarrow> floor_to n k = n div k * k"
  by (simp add: floor_to_def floor_fdiv)

lemma floor_to_bounds:
  assumes "\<bar>n\<bar> < 2 ^ 53" "0 < k"
  shows "floor_to n k \<le> n" "n < floor_to n k + k" "k dvd floor_to n k"
proof -
  have "n = n div k * k + n mod k" "0 \<le> n mod k" "n mod k < k" using assms(2) by (simp_all add: pos_mod_bound)
  then show "floor_to n k \<le> n" "n < floor_to n k + k"
    unfolding floor_to_exact [OF assms] by linarith+
  show "k dvd floor_to n k" by (simp add: floor_to_def)
qed

lemma bucketCount_exact:
  assumes "0 < stepMs r" "r_from r < r_to r" "r_to r - r_from r < 2 ^ 53"
  shows "int (bucketCount r) = - ((- (r_to r - r_from r)) div stepMs r)"
    "(int (bucketCount r) - 1) * stepMs r < r_to r - r_from r" "r_to r - r_from r \<le> int (bucketCount r) * stepMs r"
proof -
  let ?d = "r_to r - r_from r" and ?c = "- ((- (r_to r - r_from r)) div stepMs r)"
  note cb = ceil_mult_bounds [OF assms(1), of ?d]
  have c: "\<lceil>fdiv (of_int ?d) (of_int (stepMs r))\<rceil> = ?c" using assms by (intro ceiling_fdiv) auto
  have "0 < ?c * stepMs r" using cb(1) assms(2) by linarith
  then have "0 < ?c" using assms(1) zero_less_mult_pos2 by blast
  then show n: "int (bucketCount r) = ?c" unfolding bucketCount_def c by simp
  show "(int (bucketCount r) - 1) * stepMs r < ?d" "?d \<le> int (bucketCount r) * stepMs r"
    using cb by (simp_all add: n left_diff_distrib)
qed

text \<open>A row of the database lies in the range at a multiple of the step; its bucket is then exact.\<close>

lemma bucketIndex_aligned:
  assumes "0 < w" and "\<bar>int i\<bar> \<le> 2 ^ 53" and "t * 1000 = from + int i * w"
  shows "bucketIndex from w t = int i"
  using dbl.round_multiple [of "int i" w] assms by (simp add: bucketIndex_def fdiv_def)

text \<open>
  (C9) The buckets of an accepted range tile it: after \<open>alignRange\<close> the range starts at a multiple of
  the step, at most one step before the requested start; every instant up to \<open>to\<close> lies in a
  bucket and every bucket starts before \<open>to\<close>; there are at most 1501 buckets. A row that the
  database puts at the bucket start \<open>from + i * step\<close> goes to bucket \<open>i\<close>, exactly.
\<close>

theorem aligned_buckets:
  assumes "parseRange q now = Inr p" and "step_fits q" and "0 \<le> now" "now \<le> MAX_SAFE"
  shows "let r = alignRange p; w = stepMs r; n = int (bucketCount r) in
    w dvd r_from r \<and> r_from r \<le> r_from p \<and> r_from p < r_from r + w
    \<and> r_from r + (n - 1) * w < r_to r \<and> r_to r \<le> r_from r + n * w \<and> n \<le> 1501
    \<and> (\<forall>i < bucketCount r. \<forall>t. t * 1000 = bucketStarts (r_from r) w (bucketCount r) ! i
          \<longrightarrow> bucketIndex (r_from r) w t = int i)"
proof -
  from assms(1) obtain fr to step' where p: "intParam q ''step'' 1 = Inr step'" "p = range_of fr to step'"
    "fr < to" "to - fr \<le> MAX_SPAN" "0 \<le> now \<Longrightarrow> now \<le> MAX_SAFE \<Longrightarrow> 0 \<le> to \<and> to \<le> MAX_SAFE"
    by (rule parseRange_Inr) blast
  have ends: "r_from p = fr" "r_to p = to" by (simp_all add: p(2) range_of_def Let_def)
  have s: "1 \<le> s \<and> s < 2 ^ 32" if "step' = Some s" for s
    using intParam_bounds [of q "''step''" 1 s] p(1) assms(2) that by (simp add: step_fits_def)
  note st = range_of_step [OF p(3,4), of step', OF s, folded p(2)]
  let ?r = "alignRange p" and ?w = "stepMs (alignRange p)" and ?n = "bucketCount (alignRange p)"
  have "1 \<le> r_step p" using min_step_pos(1) st(1) by (rule order_trans)
  then have w: "0 < ?w" "?w \<le> 1000 * 2 ^ 34" using st(2) by (simp_all add: stepMs_def alignRange_def)
  have to: "0 \<le> to" "to < 2 ^ 53" using p(5) assms(3,4) by (auto simp: MAX_SAFE_def)
  have fr: "\<bar>fr\<bar> < 2 ^ 53" using p(3,4) to by (auto simp: MAX_SPAN_def DAY_def HOUR_def)
  have al: "r_from ?r = floor_to fr ?w" "r_to ?r = to" by (simp_all add: alignRange_def stepMs_def ends)
  note fb = floor_to_bounds [OF fr w(1)]
  have lt: "r_from ?r < r_to ?r" using al fb(1) p(3) by simp
  have small: "r_to ?r - r_from ?r < 2 ^ 53"
    using al fb(2) p(4) w(2) by (simp add: MAX_SPAN_def DAY_def HOUR_def)
  note bc = bucketCount_exact [OF w(1) lt small]
  have "to - fr \<le> 1500 * ?w"
  proof -
    have "to - fr \<le> 1500000 * min_step (to - fr \<le> 2 * HOUR) (to - fr)"
      using min_step_ge [of "to - fr"] p(3,4) by (auto simp: min_step_def max_def split: if_splits)
    also have "\<dots> \<le> 1500000 * r_step p" using st(1) by simp
    finally show ?thesis by (simp add: stepMs_def alignRange_def)
  qed
  then have "(int ?n - 1) * ?w < 1501 * ?w" using bc(2) fb(2) al by (simp add: left_diff_distrib)
  then have n: "int ?n \<le> 1501" using w(1) mult_less_cancel_right by fastforce
  have "bucketIndex (r_from ?r) ?w t = int i" if "i < ?n" "t * 1000 = bucketStarts (r_from ?r) ?w ?n ! i" for i t
    using that n w(1) by (intro bucketIndex_aligned) (auto simp: bucketStarts_def)
  then show ?thesis using fb bc(2,3) n al by (auto simp: Let_def ends)
qed

theorem aligned_buckets_witness:
  "int (bucketCount (alignRange sample_range)) \<le> 1501"
proof -
  have "parseRange sample_query 0 = Inr sample_range" "step_fits sample_query" by code_simp+
  from aligned_buckets [OF this] show ?thesis by (simp add: Let_def MAX_SAFE_def)
qed

lemma ceil_mult_le:
  fixes n k m :: int
  assumes "0 < k" "k dvd m" "n \<le> m"
  shows "- ((- n) div k) * k \<le> m"
proof -
  from assms(2) obtain j where m: "m = j * k" by (metis dvd_def mult.commute)
  have "- m div k \<le> - n div k" using assms by (intro zdiv_mono1) auto
  moreover have "- m div k = - j" using m assms(1) by (simp flip: mult_minus_left)
  ultimately have "- ((- n) div k) \<le> j" by simp
  then show ?thesis using assms(1) m by (metis mult_right_mono order_less_imp_le)
qed

text \<open>The time covered by the buckets.\<close>

lemma sum_clipped:
  fixes w e a :: int
  assumes "0 < w"
  shows "(\<Sum>i \<leftarrow> [0..<n]. min (a + int i * w + w) (max e (a + int i * w)) - (a + int i * w))
    = min (int n * w) (max 0 (e - a))"
proof (induction n)
  case (Suc n)
  define m where "m = int n * w"
  have "0 \<le> m" using assms by (simp add: m_def)
  then have "min m (max 0 (e - a)) + (min (a + m + w) (max e (a + m)) - (a + m)) = min (m + w) (max 0 (e - a))"
    using assms by (auto simp: min_def max_def)
  then show ?case using Suc by (simp add: m_def distrib_right add.commute)
qed simp

text \<open>
  The buckets' covered times add up to the data's time: the sum over all buckets of the
  milliseconds a bucket covers is exactly the span from the first bucket to the end of the data
  (\<open>to\<close>, or the end of its minute on the rollup), so that dividing each bucket's bytes by its
  covered time neither loses nor double counts time.
\<close>

theorem covered_time:
  assumes "0 < stepMs r" and "r_from r < r_to r" and "0 \<le> r_to r" "r_to r < 2 ^ 52" "- (2 ^ 52) < r_from r"
    and "r_table r = Flows_1m \<longrightarrow> 60000 dvd stepMs r \<and> 60000 dvd r_from r"
  shows "(\<Sum>start \<leftarrow> bucketStarts (r_from r) (stepMs r) (bucketCount r). coveredMs r start)
    = dataEnd r - r_from r"
proof -
  let ?n = "bucketCount r" and ?w = "stepMs r"
  have small: "r_to r - r_from r < 2 ^ 53" using assms(4,5) by simp
  note bc = bucketCount_exact [OF assms(1,2) small]
  have "(\<Sum>start \<leftarrow> bucketStarts (r_from r) ?w ?n. coveredMs r start)
      = (\<Sum>i \<leftarrow> [0..<?n]. min (r_from r + int i * ?w + ?w) (max (dataEnd r) (r_from r + int i * ?w)) - (r_from r + int i * ?w))"
    by (simp add: bucketStarts_def coveredMs_def comp_def)
  also have "\<dots> = min (int ?n * ?w) (max 0 (dataEnd r - r_from r))" by (rule sum_clipped [OF assms(1)])
  also have "\<dots> = dataEnd r - r_from r"
  proof (cases "r_table r")
    case Flows
    then show ?thesis using bc(3) assms(2) by (simp add: dataEnd_def)
  next
    case Flows_1m
    then have e: "dataEnd r = - ((- r_to r) div 60000) * 60000"
      using assms(3,4) by (simp add: dataEnd_def ceil_to_exact)
    have "60000 dvd r_from r + int ?n * ?w" using assms(6) Flows_1m by auto
    moreover have "r_to r \<le> r_from r + int ?n * ?w" using bc(3) by simp
    ultimately have "dataEnd r \<le> r_from r + int ?n * ?w" unfolding e by (intro ceil_mult_le) auto
    moreover have "r_to r \<le> dataEnd r" unfolding e by (rule ceil_mult_bounds) simp
    ultimately show ?thesis using assms(2) by simp
  qed
  finally show ?thesis .
qed

theorem covered_time_witness:
  "(\<Sum>start \<leftarrow> bucketStarts 0 120000 2. coveredMs
      \<lparr> r_from = 0, r_to = 130000, r_step = 120, r_table = Flows_1m, r_col = Minute \<rparr> start) = 180000"
proof -
  let ?r = "\<lparr> r_from = 0, r_to = 130000, r_step = 120, r_table = Flows_1m, r_col = Minute \<rparr>"
  have "bucketCount ?r = 2" "dataEnd ?r = 180000" by code_simp+
  then show ?thesis using covered_time [of ?r] by (simp add: stepMs_def)
qed

end
