(* ===== verification/Sql.thy ===== *)
theory Sql
  imports Range JS_Map
begin

text \<open>
  \<^verbatim>\<open>web/src/server/ch/sql.ts\<close> and the SQL fragments of \<^verbatim>\<open>range.ts\<close>. A query is a list of fragments: constant
  text, or a placeholder \<open>{name:Type}\<close> that the database fills from the query parameters. Runs of
  blanks and line breaks of the sources' template texts are one blank here. \<open>isIP\<close> of
  \<^verbatim>\<open>node:net\<close> is a parameter.

  The contract of every query of the server is the locale \<open>param_query\<close>: the text of the query
  depends only on the shape of the request (which filters are set, which columns were chosen),
  and every placeholder of the text is bound in the parameters.
\<close>

datatype frag = T string | P string string
type_synonym sql = "frag list"

datatype pval = PStr string | PInt int | PStrs "string list" | PInts "int list"
type_synonym params = "(string, pval) jsmap"
type_synonym sql_query = "sql \<times> params"

definition placeholders :: "sql \<Rightarrow> string set" where
  "placeholders s = {n. \<exists>t. P n t \<in> set s}"

definition bound_in :: "params \<Rightarrow> sql \<Rightarrow> bool" where
  "bound_in ps s \<longleftrightarrow> placeholders s \<subseteq> fst ` set ps"

section \<open>Fragments of the range\<close>

definition rangeParams :: "Range \<Rightarrow> params" where
  "rangeParams r = [(''from'', PInt (r_from r)), (''to'', PInt (r_to r)), (''step'', PInt (r_step r))]"

definition timeFilter :: "Range \<Rightarrow> sql" where
  "timeFilter r = (if r_col r = Ts
     then [T ''ts >= fromUnixTimestamp64Milli('', P ''from'' ''Int64'', T '') AND ts < fromUnixTimestamp64Milli('',
           P ''to'' ''Int64'', T '')'']
     else [T ''minute >= toDateTime(intDiv('', P ''from'' ''Int64'', T '', 1000)) AND minute < toDateTime(intDiv('',
           P ''to'' ''Int64'', T '', 1000))''])"

definition col_name :: "time_col \<Rightarrow> string" where
  "col_name c = (case c of Ts \<Rightarrow> ''ts'' | Minute \<Rightarrow> ''minute'')"

definition table_name :: "table \<Rightarrow> string" where
  "table_name t = (case t of Flows \<Rightarrow> ''flows'' | Flows_1m \<Rightarrow> ''flows_1m'')"

definition bucketSeconds :: "Range \<Rightarrow> sql" where
  "bucketSeconds r = [T (''toUnixTimestamp(toStartOfInterval('' @ col_name (r_col r) @ '', INTERVAL ''),
     P ''step'' ''UInt32'', T '' SECOND))'']"

section \<open>Destinations\<close>

definition DISPLAY_IP :: string where
  "DISPLAY_IP = ''replaceRegexpOne(IPv6NumToString(raddr), '' @ [CHR 0x27] @ ''^::ffff:('' @ [CHR 0x5C] @ ''d+'' @ [CHR 0x5C]
     @ ''.'' @ [CHR 0x5C] @ ''d+'' @ [CHR 0x5C] @ ''.'' @ [CHR 0x5C] @ ''d+'' @ [CHR 0x5C] @ ''.'' @ [CHR 0x5C] @ ''d+)$''
     @ [CHR 0x27] @ '', '' @ [CHR 0x27] @ [CHR 0x5C] @ ''1'' @ [CHR 0x27] @ '')''"

definition DEST_FILTER :: sql where
  "DEST_FILTER = [T ''raddr = toIPv6('', P ''dest_ip'' ''String'', T '') AND rport = '', P ''dest_port'' ''UInt16'']"

record Dest =
  dest_ip :: string
  dest_port :: int

definition dest_bad :: "'a result" where
  "dest_bad = Inl (badRequest ''dest: expected ip:port'')"

definition parseDest :: "(string \<Rightarrow> bool) \<Rightarrow> qval option \<Rightarrow> Dest option result" where
  "parseDest isIP raw = (case raw of
       None \<Rightarrow> Inr None
     | Some (QArr _) \<Rightarrow> dest_bad
     | Some (QStr s) \<Rightarrow>
         if s = [] then Inr None
         else if length s > 64 then dest_bad
         else (case last_index_of (CHR '':'') s of
             None \<Rightarrow> dest_bad
           | Some i \<Rightarrow>
               if i = 0 then dest_bad
               else
                 let ip = take i s; port = drop (i + 1) s;
                     ip = (if starts_with ''['' ip \<and> last ip = CHR '']'' then butlast (tl ip) else ip)
                 in if \<not> isIP ip \<or> \<not> digits_between 1 5 port \<or> Number_dec port > 65535 then dest_bad
                    else Inr (Some \<lparr> dest_ip = ip, dest_port = \<lfloor>Number_dec port\<rfloor> \<rparr>)))"

section \<open>Dimensions and filters\<close>

datatype ThroughputBy = ByApp | ByName | ByProto | ByUid | ByDest

definition DIMENSIONS :: "(string \<times> ThroughputBy) list" where
  "DIMENSIONS = [(''app'', ByApp), (''name'', ByName), (''proto'', ByProto), (''uid'', ByUid), (''dest'', ByDest)]"

definition UNKNOWN_UID :: int where "UNKNOWN_UID = 4294967295"

definition quote :: "string \<Rightarrow> string" where
  "quote s = [CHR 0x27] @ s @ [CHR 0x27]"

definition BY_COLUMNS :: "ThroughputBy \<Rightarrow> string" where
  "BY_COLUMNS b = (case b of ByApp \<Rightarrow> ''app'' | ByName \<Rightarrow> ''name'' | ByProto \<Rightarrow> ''proto'' | ByUid \<Rightarrow> ''toString(uid)''
     | ByDest \<Rightarrow> ''if(position('' @ DISPLAY_IP @ '', '' @ quote '':'' @ '') > 0, concat('' @ quote ''['' @ '', '' @ DISPLAY_IP
         @ '', '' @ quote '']:'' @ '', toString(rport)), concat('' @ DISPLAY_IP @ '', '' @ quote '':'' @ '', toString(rport)))'')"

text \<open>A parameter that picks one of a list of words: the pattern of \<open>parseBy\<close>, \<open>parseDir\<close> and others.\<close>

definition pick_word :: "string \<Rightarrow> (string \<times> 'a) list \<Rightarrow> 'a \<Rightarrow> qval option \<Rightarrow> 'a result" where
  "pick_word name ws fallback raw = (case raw of
       None \<Rightarrow> Inr fallback
     | Some (QStr []) \<Rightarrow> Inr fallback
     | Some (QStr s) \<Rightarrow> (case map_of ws s of Some w \<Rightarrow> Inr w
         | None \<Rightarrow> Inl (badRequest (name @ '': expected one of '' @ join '', '' (map fst ws))))
     | Some (QArr _) \<Rightarrow> Inl (badRequest (name @ '': expected one of '' @ join '', '' (map fst ws))))"

text \<open>The same with a message of its own: the pattern of \<open>parseBpcDir\<close>, \<open>parseMetric\<close> and others.\<close>

definition pick_msg :: "string \<Rightarrow> (string \<times> 'a) list \<Rightarrow> 'a \<Rightarrow> qval option \<Rightarrow> 'a result" where
  "pick_msg msg ws fallback raw = (case raw of
       None \<Rightarrow> Inr fallback
     | Some (QStr []) \<Rightarrow> Inr fallback
     | Some (QStr s) \<Rightarrow> (case map_of ws s of Some w \<Rightarrow> Inr w | None \<Rightarrow> Inl (badRequest msg))
     | Some (QArr _) \<Rightarrow> Inl (badRequest msg))"

definition parseBy :: "qval option \<Rightarrow> ThroughputBy result" where
  "parseBy raw = pick_word ''by'' DIMENSIONS ByApp raw"

record Filters =
  fl_name :: "string option"
  fl_app :: "string option"
  fl_proto :: "string option"
  fl_uid :: "int option"
  fl_dest :: "Dest option"

definition MAX_FILTER_LEN :: nat where "MAX_FILTER_LEN = 256"

definition text_filter :: "query \<Rightarrow> string \<Rightarrow> string option result" where
  "text_filter q k = (case q k of
       None \<Rightarrow> Inr None
     | Some (QStr v) \<Rightarrow> if v = [] then Inr None
         else if length v > MAX_FILTER_LEN then Inl (badRequest (k @ '': expected a string of at most 256 chars''))
         else Inr (Some v)
     | Some (QArr _) \<Rightarrow> Inl (badRequest (k @ '': expected a string of at most 256 chars'')))"

definition uid_filter :: "query \<Rightarrow> int option result" where
  "uid_filter q = (case q ''uid'' of
       None \<Rightarrow> Inr None
     | Some (QStr s) \<Rightarrow> if s = [] then Inr None
         else if \<not> digits_between 1 10 s \<or> Number_dec s > of_int UNKNOWN_UID
         then Inl (badRequest ''uid: expected an integer uid'')
         else Inr (Some \<lfloor>Number_dec s\<rfloor>)
     | Some (QArr _) \<Rightarrow> Inl (badRequest ''uid: expected an integer uid''))"

definition parseFilters :: "(string \<Rightarrow> bool) \<Rightarrow> query \<Rightarrow> Filters result" where
  "parseFilters isIP q =
     bind_res (text_filter q ''name'') (\<lambda>name.
     bind_res (text_filter q ''app'') (\<lambda>app.
     bind_res (text_filter q ''proto'') (\<lambda>proto.
     bind_res (uid_filter q) (\<lambda>uid.
     bind_res (parseDest isIP (q ''dest'')) (\<lambda>dest.
     Inr \<lparr> fl_name = name, fl_app = app, fl_proto = proto, fl_uid = uid, fl_dest = dest \<rparr>)))))"

text \<open>The condition and the parameter of one optional filter.\<close>

definition opt_filter :: "string \<Rightarrow> string \<Rightarrow> string \<Rightarrow> pval option \<Rightarrow> sql_query" where
  "opt_filter col name ty v = (case v of None \<Rightarrow> ([], [])
     | Some x \<Rightarrow> ([T ('' AND '' @ col @ '' = ''), P name ty], [(name, x)]))"

definition dest_filter :: "Dest option \<Rightarrow> sql_query" where
  "dest_filter d = (case d of None \<Rightarrow> ([], [])
     | Some x \<Rightarrow> (T '' AND '' # DEST_FILTER, [(''dest_ip'', PStr (dest_ip x)), (''dest_port'', PInt (dest_port x))]))"

definition filterSql :: "Filters \<Rightarrow> sql_query" where
  "filterSql f =
     (let a = opt_filter ''name'' ''f_name'' ''String'' (map_option PStr (fl_name f));
          b = opt_filter ''app'' ''f_app'' ''String'' (map_option PStr (fl_app f));
          c = opt_filter ''proto'' ''f_proto'' ''String'' (map_option PStr (fl_proto f));
          d = opt_filter ''uid'' ''f_uid'' ''UInt32'' (map_option PInt (fl_uid f));
          e = dest_filter (fl_dest f)
      in (fst a @ fst b @ fst c @ fst d @ fst e, snd a @ snd b @ snd c @ snd d @ snd e))"

definition flowSource :: "table \<Rightarrow> sql \<Rightarrow> bool \<Rightarrow> sql" where
  "flowSource t time needUid =
     (if t = Flows \<or> \<not> needUid then [T (table_name t)]
      else [T (''(SELECT minute, pid, proc_start, name, proto, app, raddr, rport, tx_bytes, rx_bytes, tx_calls, ''
        @ ''rx_calls, if(p.p_known = 1, p.p_uid, 4294967295) AS uid FROM flows_1m LEFT JOIN ''
        @ ''(SELECT pid, proc_start, argMax(uid, version) AS p_uid, toUInt8(1) AS p_known ''
        @ ''FROM processes GROUP BY pid, proc_start) AS p USING (pid, proc_start) WHERE '')] @ time @ [T '')''])"

section \<open>The contract of the queries\<close>

locale param_query =
  fixes build :: "'i \<Rightarrow> sql_query" and shape :: "'i \<Rightarrow> 's"
  assumes text_of_shape: "shape i = shape j \<Longrightarrow> fst (build i) = fst (build j)"
    and all_bound: "bound_in (snd (build i)) (fst (build i))"
begin

text \<open>Requests of the same shape send the same text, whatever values they carry.\<close>

lemma constant_text: "\<exists>texts. \<forall>i. fst (build i) = texts (shape i)"
proof -
  have "\<forall>i. fst (build i) = fst (build (SOME j. shape j = shape i))"
    by (metis (mono_tags, lifting) someI text_of_shape)
  then show ?thesis by (intro exI [of _ "\<lambda>s. fst (build (SOME j. shape j = s))"]) simp
qed

lemma value_bound: "P n t \<in> set (fst (build i)) \<Longrightarrow> \<exists>v. (n, v) \<in> set (snd (build i))"
  using all_bound [of i] by (fastforce simp: bound_in_def placeholders_def)

end

lemma placeholders_simps [simp]:
  "placeholders [] = {}" "placeholders (T s # xs) = placeholders xs"
  "placeholders (P n t # xs) = insert n (placeholders xs)"
  "placeholders (xs @ ys) = placeholders xs \<union> placeholders ys"
  by (auto simp: placeholders_def)

definition filter_shape :: "Filters \<Rightarrow> bool list" where
  "filter_shape f = [fl_name f \<noteq> None, fl_app f \<noteq> None, fl_proto f \<noteq> None, fl_uid f \<noteq> None, fl_dest f \<noteq> None]"

lemma opt_filter_text: "(v = None) = (w = None) \<Longrightarrow> fst (opt_filter c n t v) = fst (opt_filter c n t w)"
  and dest_filter_text: "(d = None) = (d' = None) \<Longrightarrow> fst (dest_filter d) = fst (dest_filter d')"
  by (auto simp: opt_filter_def dest_filter_def split: option.splits)

lemma opt_filter_bound: "placeholders (fst (opt_filter c n t v)) = fst ` set (snd (opt_filter c n t v))"
  and dest_filter_bound: "placeholders (fst (dest_filter d)) = fst ` set (snd (dest_filter d))"
  by (simp_all add: opt_filter_def dest_filter_def DEST_FILTER_def split: option.splits)

lemma filterSql_bound: "placeholders (fst (filterSql f)) = fst ` set (snd (filterSql f))"
  by (simp add: filterSql_def Let_def opt_filter_bound dest_filter_bound image_Un)

interpretation filter_query: param_query filterSql filter_shape
proof
  fix f g :: Filters
  assume "filter_shape f = filter_shape g"
  then have eq: "(fl_name f = None) = (fl_name g = None)" "(fl_app f = None) = (fl_app g = None)"
    "(fl_proto f = None) = (fl_proto g = None)" "(fl_uid f = None) = (fl_uid g = None)"
    "(fl_dest f = None) = (fl_dest g = None)"
    unfolding filter_shape_def list.inject by blast+
  show "fst (filterSql f) = fst (filterSql g)"
    unfolding filterSql_def Let_def fst_conv
    by (intro arg_cong2 [of _ _ _ _ append] opt_filter_text dest_filter_text) (simp_all add: eq)
next
  show "bound_in (snd (filterSql f)) (fst (filterSql f))" for f
    by (simp add: bound_in_def filterSql_bound)
qed

lemmas filter_text = filter_query.text_of_shape

lemma placeholders_timeFilter [simp]: "placeholders (timeFilter r) = {''from'', ''to''}"
  by (auto simp: timeFilter_def)

lemma placeholders_bucketSeconds [simp]: "placeholders (bucketSeconds r) = {''step''}"
  by (auto simp: bucketSeconds_def)

lemma placeholders_flowSource: "placeholders (flowSource t time u) \<subseteq> placeholders time"
  by (auto simp: flowSource_def)

lemma keys_rangeParams [simp]: "fst ` set (rangeParams r) = {''from'', ''to'', ''step''}"
  by (auto simp: rangeParams_def)

text \<open>The fragments of a range depend on its column only.\<close>

lemma timeFilter_cong: "r_col r = r_col r' \<Longrightarrow> timeFilter r = timeFilter r'"
  by (simp add: timeFilter_def)

lemma bucketSeconds_cong: "r_col r = r_col r' \<Longrightarrow> bucketSeconds r = bucketSeconds r'"
  by (simp add: bucketSeconds_def)

section \<open>Properties of the filters\<close>

lemma Number_dec_port:
  assumes "digits_between 1 n s" and "n \<le> 15"
  shows "Number_dec s = of_nat (dec_val s)"
proof -
  have "list_all is_digit s" "length s \<le> n" using assms(1) by (auto simp: digits_between_def)
  then have "dec_val s < 10 ^ length s" by (simp add: dec_val_less)
  also have "(10 :: nat) ^ length s \<le> 10 ^ 15" using assms(2) \<open>length s \<le> n\<close> by (intro power_increasing) auto
  finally show ?thesis by (intro Number_dec_exact) simp
qed

lemma last_colon_digits:
  assumes "list_all is_digit port"
  shows "last_index_of (CHR '':'') (pre @ '':'' @ port) = Some (length pre)"
proof -
  have "CHR '':'' \<notin> set port" using assms by (intro not_in_digits) (simp_all add: is_digit_def)
  then show ?thesis using last_index_of_append [of "CHR '':''" port pre] by simp
qed

lemma parseDest_text:
  assumes "isIP ip'" and "port \<le> 65535" and "pre \<noteq> []" "length pre \<le> 58"
    and "ip' = (if starts_with ''['' pre \<and> last pre = CHR '']'' then butlast (tl pre) else pre)"
  shows "parseDest isIP (Some (QStr (pre @ '':'' @ string_of_nat port)))
    = Inr (Some \<lparr> dest_ip = ip', dest_port = int port \<rparr>)"
proof -
  have d: "digits_between 1 5 (string_of_nat port)" using string_of_nat_between [of port 5] assms(2) by simp
  then have "length (string_of_nat port) \<le> 5" by (auto simp: digits_between_def)
  moreover have "Number_dec (string_of_nat port) = of_nat port"
    using Number_dec_port [OF d] by simp
  ultimately show ?thesis
    using assms d last_colon_digits [OF string_of_nat_digits, of pre port]
    by (simp add: parseDest_def Let_def)
qed

text \<open>
  A destination reads back as it is shown: for an address that \<open>isIP\<close> accepts and a port, both
  \<open>ip:port\<close> and the bracketed \<open>[ip]:port\<close> parse to that address and port, IPv6 addresses with
  their own colons included.
\<close>

theorem parseDest_roundtrip:
  assumes "isIP ip" and "port \<le> 65535" and "ip \<noteq> []" "length ip \<le> 56" and "\<not> starts_with ''['' ip"
  shows "parseDest isIP (Some (QStr (ip @ '':'' @ string_of_nat port)))
      = Inr (Some \<lparr> dest_ip = ip, dest_port = int port \<rparr>)
    \<and> parseDest isIP (Some (QStr (''['' @ ip @ '']:'' @ string_of_nat port)))
      = Inr (Some \<lparr> dest_ip = ip, dest_port = int port \<rparr>)"
proof -
  have "ip = butlast (tl (''['' @ ip @ '']''))" by simp
  then show ?thesis
    using parseDest_text [of isIP ip port ip] parseDest_text [of isIP ip port "''['' @ ip @ '']''"] assms
    by (simp add: starts_with_def)
qed

theorem parseDest_roundtrip_witness:
  "parseDest (\<lambda>s. s = ''2001:db8::1'') (Some (QStr ''[2001:db8::1]:443''))
     = Inr (Some \<lparr> dest_ip = ''2001:db8::1'', dest_port = 443 \<rparr>)"
proof -
  have "string_of_nat 443 = ''443''" by code_simp
  then show ?thesis
    using parseDest_roundtrip [of "\<lambda>s. s = ''2001:db8::1''" "''2001:db8::1''" 443]
    by (simp add: starts_with_def)
qed

text \<open>
  Filters that pass are within what the database columns hold: texts are non-empty, at most 256
  characters and exactly as given; a uid fits 32 bits; a destination has an accepted address and a
  port of 16 bits. A filter is set exactly when its parameter is present and not empty; what is
  refused is refused with status 400.
\<close>

theorem parseFilters_checked:
  "(\<forall>f. parseFilters isIP q = Inr f \<longrightarrow>
      (\<forall>(k, v) \<in> {(''name'', fl_name f), (''app'', fl_app f), (''proto'', fl_proto f)}.
         v = (case q k of Some (QStr (c # s)) \<Rightarrow> Some (c # s) | _ \<Rightarrow> None)
         \<and> (\<forall>s. v = Some s \<longrightarrow> length s \<le> 256))
      \<and> (\<forall>u. fl_uid f = Some u \<longrightarrow> 0 \<le> u \<and> u < 2 ^ 32)
      \<and> (\<forall>d. fl_dest f = Some d \<longrightarrow> isIP (dest_ip d) \<and> 0 \<le> dest_port d \<and> dest_port d < 2 ^ 16))
   \<and> (\<forall>e. parseFilters isIP q = Inl e \<longrightarrow> statusCode e = 400)"
proof -
  have tfil: "v = (case q k of Some (QStr (c # s)) \<Rightarrow> Some (c # s) | _ \<Rightarrow> None)
      \<and> (\<forall>s. v = Some s \<longrightarrow> length s \<le> 256)" if "text_filter q k = Inr v" for k v
    using that by (auto simp: text_filter_def MAX_FILTER_LEN_def split: option.splits qval.splits if_splits list.splits)
  have uid: "0 \<le> u \<and> u < 2 ^ 32" if "uid_filter q = Inr (Some u)" for u
  proof -
    from that obtain s where s: "u = \<lfloor>Number_dec s\<rfloor>" "digits_between 1 10 s" "\<not> Number_dec s > of_int UNKNOWN_UID"
      by (auto simp: uid_filter_def split: option.splits qval.splits if_splits)
    have u: "u = int (dec_val s)" using s(1) Number_dec_port [OF s(2)] by simp
    have "Number_dec s = of_int (int (dec_val s))" using Number_dec_port [OF s(2)] by simp
    then have "int (dec_val s) \<le> UNKNOWN_UID" using s(3) by (metis not_le of_int_less_iff)
    with u show ?thesis by (simp add: UNKNOWN_UID_def)
  qed
  have dest: "isIP (dest_ip d) \<and> 0 \<le> dest_port d \<and> dest_port d < 2 ^ 16" if "parseDest isIP r = Inr (Some d)" for r d
  proof -
    from that obtain p where p: "isIP (dest_ip d)" "dest_port d = \<lfloor>Number_dec p\<rfloor>" "digits_between 1 5 p" "\<not> Number_dec p > 65535"
      by (auto simp: parseDest_def dest_bad_def Let_def split: option.splits qval.splits if_splits)
    have "Number_dec p = of_int (int (dec_val p))" using Number_dec_port [OF p(3)] by simp
    moreover have "int (dec_val p) \<le> 65535" using p(4) calculation by (metis not_le of_int_less_iff of_int_numeral)
    ultimately show ?thesis using p(1,2) by simp
  qed
  have e400: "statusCode e = 400" if "parseFilters isIP q = Inl e" for e
  proof -
    have t: "statusCode e' = 400" if "text_filter q k = Inl e'" for k e'
      using that by (auto simp: text_filter_def badRequest_def split: option.splits qval.splits if_splits)
    have u: "statusCode e' = 400" if "uid_filter q = Inl e'" for e'
      using that by (auto simp: uid_filter_def badRequest_def split: option.splits qval.splits if_splits)
    have d: "statusCode e' = 400" if "parseDest isIP r = Inl e'" for r e'
      using that by (auto simp: parseDest_def dest_bad_def badRequest_def Let_def split: option.splits qval.splits if_splits)
    show ?thesis
      using \<open>parseFilters isIP q = Inl e\<close> t u d unfolding parseFilters_def bind_res_Inl_iff by fast
  qed
  have "(\<forall>(k, v) \<in> {(''name'', fl_name f), (''app'', fl_app f), (''proto'', fl_proto f)}.
         v = (case q k of Some (QStr (c # s)) \<Rightarrow> Some (c # s) | _ \<Rightarrow> None)
         \<and> (\<forall>s. v = Some s \<longrightarrow> length s \<le> 256))
      \<and> (\<forall>u. fl_uid f = Some u \<longrightarrow> 0 \<le> u \<and> u < 2 ^ 32)
      \<and> (\<forall>d. fl_dest f = Some d \<longrightarrow> isIP (dest_ip d) \<and> 0 \<le> dest_port d \<and> dest_port d < 2 ^ 16)"
    if ok: "parseFilters isIP q = Inr f" for f
  proof -
    from ok obtain n a p u d where f: "text_filter q ''name'' = Inr n" "text_filter q ''app'' = Inr a"
      "text_filter q ''proto'' = Inr p" "uid_filter q = Inr u" "parseDest isIP (q ''dest'') = Inr d"
      "f = \<lparr> fl_name = n, fl_app = a, fl_proto = p, fl_uid = u, fl_dest = d \<rparr>"
      unfolding parseFilters_def by auto
    show ?thesis using tfil [OF f(1)] tfil [OF f(2)] tfil [OF f(3)] uid f(4) dest [of "q ''dest''"] f(5)
      by (cases d) (simp_all add: f(6))
  qed
  with e400 show ?thesis by blast
qed

definition sample_filters :: query where
  "sample_filters = [''name'' \<mapsto> QStr ''curl'', ''uid'' \<mapsto> QStr ''1000'', ''dest'' \<mapsto> QStr ''1.1.1.1:443'']"

theorem parseFilters_checked_witness:
  "\<exists>f. parseFilters (\<lambda>s. s = ''1.1.1.1'') sample_filters = Inr f \<and> fl_name f = Some ''curl'' \<and> fl_uid f \<noteq> None"
proof -
  have "case parseFilters (\<lambda>s. s = ''1.1.1.1'') sample_filters of Inl e \<Rightarrow> False | Inr f \<Rightarrow> fl_uid f \<noteq> None"
    by code_simp
  then obtain f where "parseFilters (\<lambda>s. s = ''1.1.1.1'') sample_filters = Inr f" "fl_uid f \<noteq> None"
    by (auto split: sum.splits)
  with parseFilters_checked [of "\<lambda>s. s = ''1.1.1.1''" sample_filters] show ?thesis
    by (auto simp: sample_filters_def)
qed

end
