(* ===== verification/Throughput.thy ===== *)
theory Throughput
  imports Buckets Sql "HOL-Library.Char_ord" "HOL-Library.List_Lexorder"
begin

text \<open>
  \<^verbatim>\<open>web/src/server/ch/throughput.ts\<close> and \<^verbatim>\<open>web/src/server/ch/calls.ts\<close>: the queries of the History throughput
  chart, the ghost of an earlier window, the unknown share and the call rates, and the conversion
  of their rows into zero-filled series. The three maps of \<open>buildThroughput\<close> (bytes sent, bytes
  received, totals), which get their keys together, are one map to a record. Strings are compared
  by their characters, as \<open><\<close> does.
\<close>

datatype ThroughputDir = DBoth | DTx | DRx | DTotal

definition THROUGHPUT_OTHER :: string where "THROUGHPUT_OTHER = ''__other''"

definition DIRS :: "(string \<times> ThroughputDir) list" where
  "DIRS = [(''both'', DBoth), (''tx'', DTx), (''rx'', DRx), (''total'', DTotal)]"

definition parseDir :: "qval option \<Rightarrow> ThroughputDir result" where
  "parseDir raw = pick_word ''dir'' DIRS DBoth raw"

definition RANK_BY :: "ThroughputDir \<Rightarrow> string" where
  "RANK_BY d = (case d of DTx \<Rightarrow> ''tx_bytes'' | DRx \<Rightarrow> ''rx_bytes'' | _ \<Rightarrow> ''tx_bytes + rx_bytes'')"

section \<open>Queries\<close>

record throughput_req =
  q_range :: Range
  q_by :: ThroughputBy
  q_dir :: ThroughputDir
  q_top :: int
  q_filters :: Filters

definition throughputQuery :: "throughput_req \<Rightarrow> sql_query" where
  "throughputQuery q =
     (let r = q_range q; time = timeFilter r;
          needUid = (q_by q = ByUid \<or> fl_uid (q_filters q) \<noteq> None);
          src = flowSource (r_table r) time needUid;
          f = filterSql (q_filters q);
          col = BY_COLUMNS (q_by q); rank = RANK_BY (q_dir q)
      in ([T (''WITH top_keys AS ( SELECT '' @ col @ '' AS k FROM '')] @ src @ [T '' WHERE ''] @ time @ fst f
            @ [T ('' GROUP BY k HAVING sum('' @ rank @ '') > 0 ORDER BY sum('' @ rank @ '') DESC, k LIMIT ''),
               P ''top'' ''UInt8'', T '' ) SELECT '']
            @ bucketSeconds r
            @ [T ('' AS t, if('' @ col @ '' IN (SELECT k FROM top_keys), '' @ col @ '', '' @ quote THROUGHPUT_OTHER
                 @ '') AS key, sum(tx_bytes) AS tx, sum(rx_bytes) AS rx FROM '')]
            @ src @ [T '' WHERE ''] @ time @ fst f @ [T '' GROUP BY t, key ORDER BY t''],
          rangeParams r @ snd f @ [(''top'', PInt (q_top q))]))"

definition compareStep :: "Range \<Rightarrow> int" where
  "compareStep r = max 60 (ceil_to (r_step r) 60)"

definition G_TIME :: sql where
  "G_TIME = [T ''minute >= toDateTime(intDiv('', P ''g_from'' ''Int64'', T '', 1000)) AND minute < toDateTime(intDiv('',
     P ''g_to'' ''Int64'', T '', 1000))'']"

record compare_req =
  c_range :: Range
  c_offset :: int
  c_filters :: Filters

definition compareQuery :: "compare_req \<Rightarrow> sql_query" where
  "compareQuery q =
     (let r = c_range q; step = compareStep r; from = floor_to (r_from r) (step * 1000);
          src = flowSource Flows_1m G_TIME (fl_uid (c_filters q) \<noteq> None); f = filterSql (c_filters q)
      in ([T ''SELECT toUnixTimestamp(toStartOfInterval(minute + INTERVAL '', P ''offset_s'' ''UInt32'',
             T '' SECOND, INTERVAL '', P ''g_step'' ''UInt32'',
             T '' SECOND)) AS t, sum(tx_bytes) AS tx, sum(rx_bytes) AS rx FROM ''] @ src
            @ [T '' WHERE ''] @ G_TIME @ fst f @ [T '' GROUP BY t ORDER BY t''],
          snd f @ [(''g_from'', PInt (from - c_offset q)), (''g_to'', PInt (r_to r - c_offset q)),
            (''g_step'', PInt step), (''offset_s'', PInt (c_offset q div 1000))]))"

definition FIRST_MINUTE_SQL :: sql where
  "FIRST_MINUTE_SQL = [T ''SELECT toUnixTimestamp(minute) AS first FROM flows_1m ORDER BY minute LIMIT 1'']"

text \<open>The two queries over the main query's buckets differ in what they sum.\<close>

definition bucket_query :: "string \<Rightarrow> Range \<times> Filters \<Rightarrow> sql_query" where
  "bucket_query what q = (case q of (r, fs) \<Rightarrow>
     let time = timeFilter r; src = flowSource (r_table r) time (fl_uid fs \<noteq> None); f = filterSql fs
     in ([T ''SELECT ''] @ bucketSeconds r @ [T ('' AS t, '' @ what @ '' FROM '')] @ src @ [T '' WHERE ''] @ time @ fst f
           @ [T '' GROUP BY t ORDER BY t''], rangeParams r @ snd f))"

definition unknownQuery :: "Range \<times> Filters \<Rightarrow> sql_query" where
  "unknownQuery = bucket_query (''sumIf(tx_bytes + rx_bytes, app = '' @ quote ''unknown'' @ '') AS unk, sum(tx_bytes + rx_bytes) AS total'')"

definition callsQuery :: "Range \<times> Filters \<Rightarrow> sql_query" where
  "callsQuery = bucket_query ''sum(tx_calls) AS tx, sum(rx_calls) AS rx''"

definition processCallsQuery :: "Range \<times> int \<times> string \<Rightarrow> sql_query" where
  "processCallsQuery q = (case q of (r, pid, start) \<Rightarrow>
     ([T ''SELECT ''] @ bucketSeconds r
        @ [T ('' AS t, sum(tx_bytes) AS tx, sum(rx_bytes) AS rx, sum(tx_calls) AS txc, sum(rx_calls) AS rxc ''
              @ ''FROM flows WHERE pid = ''), P ''pid'' ''UInt32'', T '' AND proc_start = '', P ''start'' ''UInt64'', T '' AND '']
        @ timeFilter r @ [T '' GROUP BY t ORDER BY t''],
      rangeParams r @ [(''pid'', PInt pid), (''start'', PStr start)]))"

section \<open>The throughput answer\<close>

record ThroughputRow =
  row_t :: int
  row_k :: string
  row_tx :: cell
  row_rx :: cell

record key_acc =
  k_tx :: "num list"
  k_rx :: "num list"
  k_total :: num

record ThroughputResponse =
  t_step :: int
  t_from :: int
  t_to :: int
  t_table :: table
  t_keys :: "string list"
  t_labels :: "(string, string) jsmap"
  t_t :: "int list"
  t_tx :: "(string, num list) jsmap"
  t_rx :: "(string, num list) jsmap"

abbreviation rowBucket :: "Range \<Rightarrow> int \<Rightarrow> int" where
  "rowBucket r t \<equiv> bucketIndex (r_from r) (stepMs r) t"

definition dir_value :: "ThroughputDir \<Rightarrow> ThroughputRow \<Rightarrow> num" where
  "dir_value dir row = (case dir of DTx \<Rightarrow> Number_cell (row_tx row) | DRx \<Rightarrow> Number_cell (row_rx row)
     | _ \<Rightarrow> fadd (Number_cell (row_tx row)) (Number_cell (row_rx row)))"

definition add_row :: "Range \<Rightarrow> ThroughputDir \<Rightarrow> key_acc option \<Rightarrow> ThroughputRow \<Rightarrow> key_acc" where
  "add_row r dir v row =
     (let n = bucketCount r; i = nat (rowBucket r (row_t row));
          a = (case v of Some a \<Rightarrow> a | None \<Rightarrow> \<lparr> k_tx = replicate n 0, k_rx = replicate n 0, k_total = 0 \<rparr>)
      in \<lparr> k_tx = (k_tx a)[i := fadd (k_tx a ! i) (Number_cell (row_tx row))],
           k_rx = (k_rx a)[i := fadd (k_rx a ! i) (Number_cell (row_rx row))],
           k_total = fadd (k_total a) (dir_value dir row) \<rparr>)"

definition in_buckets :: "Range \<Rightarrow> ThroughputRow \<Rightarrow> bool" where
  "in_buckets r row = (let i = rowBucket r (row_t row) in \<not> (i < 0 \<or> i \<ge> int (bucketCount r)))"

text \<open>The comparator of the keys, as \<open>comes at or before\<close>.\<close>

definition key_le :: "(string \<Rightarrow> num) \<Rightarrow> string \<Rightarrow> string \<Rightarrow> bool" where
  "key_le tot a b = (if a = THROUGHPUT_OTHER \<or> b = THROUGHPUT_OTHER then b = THROUGHPUT_OTHER
     else tot b < tot a \<or> (tot b = tot a \<and> a \<le> b))"

definition total_of :: "(string, key_acc) jsmap \<Rightarrow> string \<Rightarrow> num" where
  "total_of m k = (case map_get m k of Some a \<Rightarrow> k_total a | None \<Rightarrow> 0)"

definition rates :: "(num \<Rightarrow> num \<Rightarrow> num) \<Rightarrow> num list \<Rightarrow> num list \<Rightarrow> num list" where
  "rates rate seconds xs = map2 rate xs seconds"

definition buildThroughput ::
  "ThroughputRow list \<Rightarrow> Range \<Rightarrow> ThroughputDir \<Rightarrow> (string, string) jsmap \<Rightarrow> ThroughputResponse" where
  "buildThroughput rows r dir labels =
     (let n = bucketCount r;
          m = accum row_k (add_row r dir) (filter (in_buckets r) rows) [];
          keys = sort_by (key_le (total_of m)) (map_keys m);
          t = bucketStarts (r_from r) (stepMs r) n;
          seconds = coveredSeconds r t
      in \<lparr> t_step = r_step r, t_from = r_from r, t_to = r_to r, t_table = r_table r, t_keys = keys,
           t_labels = List.map_filter (\<lambda>k. map_option (Pair k) (map_get labels k)) keys, t_t = t,
           t_tx = map (\<lambda>k. (k, rates kbps seconds (case map_get m k of Some a \<Rightarrow> k_tx a | None \<Rightarrow> []))) keys,
           t_rx = map (\<lambda>k. (k, rates kbps seconds (case map_get m k of Some a \<Rightarrow> k_rx a | None \<Rightarrow> []))) keys \<rparr>)"

section \<open>The ghost, the unknown share and the calls\<close>

record CompareRow =
  c_t :: int
  c_tx :: cell
  c_rx :: cell

record ThroughputCompare =
  cmp_offset :: int
  cmp_step :: int
  cmp_since :: int
  cmp_t :: "int list"
  cmp_tx :: "num option list"
  cmp_rx :: "num option list"

definition COMPARE_OFFSET_MS :: "(string \<times> int) list" where
  "COMPARE_OFFSET_MS = [(''1d'', 86400000), (''1w'', 7 * 86400000)]"

definition parseCompare :: "qval option \<Rightarrow> int option result" where
  "parseCompare raw = pick_word ''compare'' (map (\<lambda>(k, v). (k, Some v)) COMPARE_OFFSET_MS) None raw"

definition buildCompare :: "CompareRow list \<Rightarrow> Range \<Rightarrow> int \<Rightarrow> int option \<Rightarrow> ThroughputCompare option" where
  "buildCompare rows r offset firstMs = (case firstMs of
       None \<Rightarrow> None
     | Some fm \<Rightarrow>
         if fm \<ge> r_to r - offset then None
         else
           let step = compareStep r; w = step * 1000; from = floor_to (r_from r) w;
               n = nat (max 1 (Math_ceil (fdiv (of_int (r_to r - from)) (of_int w))));
               sinc = max from (fm + offset);
               dend = ceil_to (r_to r) 60000;
               tx = fill (\<lambda>row. bucketIndex from w (c_t row)) (\<lambda>row. Number_cell (c_tx row)) n rows;
               rx = fill (\<lambda>row. bucketIndex from w (c_t row)) (\<lambda>row. Number_cell (c_rx row)) n rows;
               t = bucketStarts from w n;
               rate = (\<lambda>xs. map2 (\<lambda>b start. if start + w \<le> sinc then None
                 else Some (kbps b (max 0 (fdiv (of_int (min (start + w) (max dend start) - max start sinc)) 1000)))) xs t)
           in Some \<lparr> cmp_offset = offset, cmp_step = step, cmp_since = sinc, cmp_t = t, cmp_tx = rate tx, cmp_rx = rate rx \<rparr>)"

text \<open>\<open>parseUnknown\<close>, \<open>parseCalls\<close>: a flag, 0 or 1.\<close>

definition parse_flag :: "string \<Rightarrow> string \<Rightarrow> qval option \<Rightarrow> bool result" where
  "parse_flag name msg raw = (case raw of
       None \<Rightarrow> Inr False
     | Some v \<Rightarrow> if v = QStr [] \<or> v = QStr ''0'' then Inr False else if v = QStr ''1'' then Inr True
         else Inl (badRequest (name @ msg)))"

definition parseUnknown :: "qval option \<Rightarrow> bool result" where
  "parseUnknown = parse_flag ''unknown'' '': expected 1 or 0''"

definition parseCalls :: "qval option \<Rightarrow> bool result" where
  "parseCalls = parse_flag ''calls'' '': expected 1 or 0''"

record UnknownRow =
  u_t :: int
  u_unk :: cell
  u_total :: cell

record ThroughputUnknown =
  unk_share :: "num option list"
  unk_bytes :: "num list"
  unk_total :: "num list"

definition buildUnknown :: "UnknownRow list \<Rightarrow> Range \<Rightarrow> ThroughputUnknown" where
  "buildUnknown rows r =
     (let n = bucketCount r;
          bytes = fill (\<lambda>row. rowBucket r (u_t row)) (\<lambda>row. Number_cell (u_unk row)) n rows;
          total = fill (\<lambda>row. rowBucket r (u_t row)) (\<lambda>row. Number_cell (u_total row)) n rows
      in \<lparr> unk_share = map2 (\<lambda>tot b. if tot > 0 then Some (round_dec 10000 (fdiv b tot)) else None) total bytes,
           unk_bytes = bytes, unk_total = total \<rparr>)"

record ThroughputCalls =
  calls_tx :: "num list"
  calls_rx :: "num list"

definition buildCalls :: "CompareRow list \<Rightarrow> Range \<Rightarrow> ThroughputCalls" where
  "buildCalls rows r =
     (let n = bucketCount r;
          tx = fill (\<lambda>row. rowBucket r (c_t row)) (\<lambda>row. Number_cell (c_tx row)) n rows;
          rx = fill (\<lambda>row. rowBucket r (c_t row)) (\<lambda>row. Number_cell (c_rx row)) n rows;
          seconds = coveredSeconds r (bucketStarts (r_from r) (stepMs r) n)
      in \<lparr> calls_tx = rates perSecond seconds tx, calls_rx = rates perSecond seconds rx \<rparr>)"

section \<open>One process\<close>

definition rawRange :: "Range \<Rightarrow> Range" where
  "rawRange r = alignRange (r\<lparr> r_table := Flows, r_col := Ts \<rparr>)"

record ProcessCallsRow =
  pc_t :: int
  pc_tx :: cell
  pc_rx :: cell
  pc_txc :: cell
  pc_rxc :: cell

record ProcessCallsResponse =
  pcr_step :: int
  pcr_from :: int
  pcr_to :: int
  pcr_t :: "int list"
  pcr_tx :: "num list"
  pcr_rx :: "num list"
  pcr_calls :: ThroughputCalls

definition buildProcessCalls :: "ProcessCallsRow list \<Rightarrow> Range \<Rightarrow> ProcessCallsResponse" where
  "buildProcessCalls rows r =
     (let n = bucketCount r; ix = (\<lambda>row. rowBucket r (pc_t row));
          t = bucketStarts (r_from r) (stepMs r) n; s = coveredSeconds r t;
          col = (\<lambda>c. fill ix (\<lambda>row. Number_cell (c row)) n rows)
      in \<lparr> pcr_step = r_step r, pcr_from = r_from r, pcr_to = r_to r, pcr_t = t,
           pcr_tx = rates kbps s (col pc_tx), pcr_rx = rates kbps s (col pc_rx),
           pcr_calls = \<lparr> calls_tx = rates perSecond s (col pc_txc), calls_rx = rates perSecond s (col pc_rxc) \<rparr> \<rparr>)"

section \<open>The queries meet the contract\<close>

text \<open>What the text of a query may depend on besides the filters that are set.\<close>

definition throughput_shape :: "throughput_req \<Rightarrow> time_col \<times> table \<times> ThroughputBy \<times> ThroughputDir \<times> bool list" where
  "throughput_shape q = (r_col (q_range q), r_table (q_range q), q_by q, q_dir q, filter_shape (q_filters q))"

definition range_shape :: "Range \<times> Filters \<Rightarrow> time_col \<times> table \<times> bool list" where
  "range_shape q = (r_col (fst q), r_table (fst q), filter_shape (snd q))"

lemma filter_shape_uid: "filter_shape f = filter_shape g \<Longrightarrow> (fl_uid f = None) = (fl_uid g = None)"
  unfolding filter_shape_def list.inject by blast

lemma bound_in_simps:
  "bound_in ps s \<longleftrightarrow> placeholders s \<subseteq> fst ` set ps"
  by (simp add: bound_in_def)

lemma flowSource_bound: "placeholders time \<subseteq> A \<Longrightarrow> placeholders (flowSource t time u) \<subseteq> A"
  using placeholders_flowSource by blast

interpretation throughput_query: param_query throughputQuery throughput_shape
proof
  fix q q' :: throughput_req
  assume sh: "throughput_shape q = throughput_shape q'"
  then have c: "r_col (q_range q) = r_col (q_range q')" "r_table (q_range q) = r_table (q_range q')"
    "q_by q = q_by q'" "q_dir q = q_dir q'" "filter_shape (q_filters q) = filter_shape (q_filters q')"
    by (simp_all add: throughput_shape_def)
  show "fst (throughputQuery q) = fst (throughputQuery q')"
    unfolding throughputQuery_def Let_def fst_conv timeFilter_cong [OF c(1)] bucketSeconds_cong [OF c(1)]
      filter_text [OF c(5)] c(2-4) filter_shape_uid [OF c(5)] ..
next
  fix q
  have "placeholders (flowSource t (timeFilter r) u) \<subseteq> {''from'', ''to''}" for t r u
    by (rule flowSource_bound) simp
  then show "bound_in (snd (throughputQuery q)) (fst (throughputQuery q))"
    unfolding throughputQuery_def Let_def fst_conv snd_conv bound_in_def
    by (fastforce simp: filterSql_bound image_Un)
qed

interpretation compare_query: param_query compareQuery "\<lambda>q. filter_shape (c_filters q)"
proof
  fix q q' :: compare_req
  assume sh: "filter_shape (c_filters q) = filter_shape (c_filters q')"
  show "fst (compareQuery q) = fst (compareQuery q')"
    unfolding compareQuery_def Let_def fst_conv filter_text [OF sh] filter_shape_uid [OF sh] ..
next
  fix q
  have "placeholders (flowSource t G_TIME u) \<subseteq> {''g_from'', ''g_to''}" for t u
    by (rule flowSource_bound) (simp add: G_TIME_def)
  moreover have "placeholders G_TIME = {''g_from'', ''g_to''}" by (simp add: G_TIME_def)
  ultimately show "bound_in (snd (compareQuery q)) (fst (compareQuery q))"
    unfolding compareQuery_def Let_def fst_conv snd_conv bound_in_def
    by (fastforce simp: filterSql_bound image_Un)
qed

interpretation bucket_query: param_query "bucket_query what" range_shape for what
proof
  fix q q' :: "Range \<times> Filters"
  assume sh: "range_shape q = range_shape q'"
  obtain r f r' f' where q: "q = (r, f)" "q' = (r', f')" by (cases q; cases q') auto
  then have c: "r_col r = r_col r'" "r_table r = r_table r'" "filter_shape f = filter_shape f'"
    using sh by (simp_all add: range_shape_def)
  show "fst (bucket_query what q) = fst (bucket_query what q')"
    unfolding q bucket_query_def prod.case Let_def fst_conv timeFilter_cong [OF c(1)] bucketSeconds_cong [OF c(1)]
      filter_text [OF c(3)] c(2) filter_shape_uid [OF c(3)] ..
next
  fix q :: "Range \<times> Filters"
  have "placeholders (flowSource t (timeFilter r) u) \<subseteq> {''from'', ''to''}" for t r u
    by (rule flowSource_bound) simp
  then show "bound_in (snd (bucket_query what q)) (fst (bucket_query what q))"
    unfolding bucket_query_def Let_def bound_in_def
    by (cases q) (fastforce simp: filterSql_bound image_Un)
qed

interpretation process_calls_query: param_query processCallsQuery "\<lambda>q. r_col (fst q)"
proof
  fix q q' :: "Range \<times> int \<times> string"
  assume c: "r_col (fst q) = r_col (fst q')"
  show "fst (processCallsQuery q) = fst (processCallsQuery q')"
    unfolding processCallsQuery_def case_prod_unfold fst_conv timeFilter_cong [OF c] bucketSeconds_cong [OF c] ..
next
  fix q :: "Range \<times> int \<times> string"
  show "bound_in (snd (processCallsQuery q)) (fst (processCallsQuery q))"
    by (cases q) (simp add: processCallsQuery_def bound_in_def insert_commute)
qed

text \<open>
  (C11) No user input becomes SQL text: for each of the throughput, compare, unknown and call queries,
  two requests that set the same filters and choose the same columns, table and direction send the
  same text, whatever names, addresses, uids and times they carry; and every placeholder of the
  text is bound by a parameter.
\<close>

theorem throughput_sql_constant:
  "(throughput_shape q = throughput_shape q' \<longrightarrow> fst (throughputQuery q) = fst (throughputQuery q'))
   \<and> bound_in (snd (throughputQuery q)) (fst (throughputQuery q))
   \<and> (filter_shape (c_filters c) = filter_shape (c_filters c') \<longrightarrow> fst (compareQuery c) = fst (compareQuery c'))
   \<and> bound_in (snd (compareQuery c)) (fst (compareQuery c))
   \<and> (range_shape b = range_shape b' \<longrightarrow> fst (unknownQuery b) = fst (unknownQuery b') \<and> fst (callsQuery b) = fst (callsQuery b'))
   \<and> bound_in (snd (unknownQuery b)) (fst (unknownQuery b)) \<and> bound_in (snd (callsQuery b)) (fst (callsQuery b))"
  unfolding unknownQuery_def callsQuery_def
  using throughput_query.text_of_shape throughput_query.all_bound compare_query.text_of_shape
    compare_query.all_bound bucket_query.text_of_shape bucket_query.all_bound by blast

definition sample_filter :: "string \<Rightarrow> Filters" where
  "sample_filter n = \<lparr> fl_name = Some n, fl_app = None, fl_proto = None, fl_uid = None, fl_dest = None \<rparr>"

theorem throughput_sql_constant_witness:
  "fst (callsQuery (sample_range, sample_filter ''curl''))
     = fst (callsQuery (sample_range, sample_filter (''x'' @ [CHR 0x27] @ ''; DROP TABLE flows'')))"
  using throughput_sql_constant [where b = "(sample_range, sample_filter ''curl'')"
      and b' = "(sample_range, sample_filter (''x'' @ [CHR 0x27] @ ''; DROP TABLE flows''))"]
  by (simp add: range_shape_def filter_shape_def sample_filter_def)

section \<open>What the throughput answer holds\<close>

interpretation key_order: comparator "key_le tot" for tot
  by unfold_locales (auto simp: key_le_def split: if_splits)

lemma add_row_fold:
  assumes "gs \<noteq> []" and "\<forall>g \<in> set gs. in_buckets r g"
  shows "foldl (\<lambda>v g. Some (add_row r dir v g)) None gs =
    Some \<lparr> k_tx = fill (\<lambda>g. rowBucket r (row_t g)) (\<lambda>g. Number_cell (row_tx g)) (bucketCount r) gs,
           k_rx = fill (\<lambda>g. rowBucket r (row_t g)) (\<lambda>g. Number_cell (row_rx g)) (bucketCount r) gs,
           k_total = fsum (map (dir_value dir) gs) \<rparr>"
  using assms
proof (induction gs rule: rev_induct)
  case (snoc g gs)
  have i: "0 \<le> rowBucket r (row_t g)" "rowBucket r (row_t g) < int (bucketCount r)"
    using snoc.prems by (auto simp: in_buckets_def Let_def)
  show ?case
  proof (cases "gs = []")
    case True
    with i show ?thesis by (simp add: add_row_def Let_def fill_def fsum_def)
  next
    case False
    with snoc i show ?thesis by (simp add: add_row_def Let_def fill_snoc)
  qed
qed simp

abbreviation rows_of :: "string \<Rightarrow> ThroughputRow list \<Rightarrow> ThroughputRow list" where
  "rows_of k rows \<equiv> filter (\<lambda>row. row_k row = k) rows"

lemma get_throughput:
  "map_get (accum row_k (add_row r dir) (filter (in_buckets r) rows) []) k =
    (let gs = rows_of k (filter (in_buckets r) rows) in if gs = [] then None else
     Some \<lparr> k_tx = fill (\<lambda>g. rowBucket r (row_t g)) (\<lambda>g. Number_cell (row_tx g)) (bucketCount r) gs,
            k_rx = fill (\<lambda>g. rowBucket r (row_t g)) (\<lambda>g. Number_cell (row_rx g)) (bucketCount r) gs,
            k_total = fsum (map (dir_value dir) gs) \<rparr>)"
proof (cases "rows_of k (filter (in_buckets r) rows) = []")
  case True
  then show ?thesis by (simp add: get_accum Let_def) (simp add: map_get_def)
next
  case False
  then show ?thesis
    using add_row_fold [OF False, of r dir] by (simp add: get_accum Let_def) (simp add: map_get_def)
qed

lemma fill_filter:
  "fill ix val n (filter (\<lambda>g. 0 \<le> ix g \<and> ix g < int n) gs) = fill ix val n gs"
  by (induction gs rule: rev_induct) (auto simp: fill_snoc Let_def)

lemma fill_rows_of:
  "fill (\<lambda>g. rowBucket r (row_t g)) val (bucketCount r) (rows_of k (filter (in_buckets r) rows))
    = fill (\<lambda>g. rowBucket r (row_t g)) val (bucketCount r) (rows_of k rows)"
proof -
  have "rows_of k (filter (in_buckets r) rows)
      = filter (\<lambda>g. 0 \<le> rowBucket r (row_t g) \<and> rowBucket r (row_t g) < int (bucketCount r)) (rows_of k rows)"
    by (induction rows) (auto simp: in_buckets_def Let_def)
  then show ?thesis by (simp only: fill_filter)
qed

lemma length_coveredSeconds [simp]: "length (coveredSeconds r t) = length t"
  by (simp add: coveredSeconds_def)

lemma length_bucketStarts [simp]: "length (bucketStarts a w n) = n"
  by (simp add: bucketStarts_def)

lemma map_get_map_keys: "map_get (map (\<lambda>k. (k, h k)) ks) k = (if k \<in> set ks then Some (h k) else None)"
  by (induction ks) (auto simp: map_get_def)

lemma keys_accum: "map_keys m = map fst m"
  by (simp add: map_keys_def)

text \<open>
  (C10) The throughput series: for rows in any order, the answer has one series per key that occurs in
  a bucket of the range, and every series has one value per bucket, zero where nothing moved: the
  rate of the sum of exactly the key's rows of that bucket over the seconds the bucket covers. The
  keys come largest first by the total of the chosen direction, ties by name, the folded rest last.
\<close>

theorem buildThroughput_series:
  fixes rows r dir labels
  defines "out \<equiv> buildThroughput rows r dir labels" and "n \<equiv> bucketCount r"
    and "good \<equiv> filter (in_buckets r) rows"
    and "secs \<equiv> coveredSeconds r (bucketStarts (r_from r) (stepMs r) (bucketCount r))"
  shows "distinct (t_keys out) \<and> set (t_keys out) = row_k ` set good
    \<and> sorted_wrt (key_le (\<lambda>k. fsum (map (dir_value dir) (rows_of k good)))) (t_keys out)
    \<and> length (t_t out) = n
    \<and> (\<forall>k \<in> set (t_keys out). \<exists>xs ys. map_get (t_tx out) k = Some xs \<and> map_get (t_rx out) k = Some ys
        \<and> length xs = n \<and> length ys = n
        \<and> (\<forall>i < n. let rs = filter (\<lambda>row. rowBucket r (row_t row) = int i) (rows_of k rows) in
             xs ! i = kbps (fsum (map (\<lambda>row. Number_cell (row_tx row)) rs)) (secs ! i)
             \<and> ys ! i = kbps (fsum (map (\<lambda>row. Number_cell (row_rx row)) rs)) (secs ! i)))"
proof -
  let ?m = "accum row_k (add_row r dir) good []"
  have len: "length secs = n" by (simp add: secs_def n_def)
  have keys: "t_keys out = sort_by (key_le (total_of ?m)) (map fst ?m)"
    by (simp add: out_def buildThroughput_def Let_def good_def map_keys_def)
  have tot: "total_of ?m k = fsum (map (dir_value dir) (rows_of k good))" for k
    unfolding total_of_def good_def get_throughput by (simp add: Let_def)
  then have totf: "total_of ?m = (\<lambda>k. fsum (map (dir_value dir) (rows_of k good)))" by blast
  have mem: "set (t_keys out) = row_k ` set good" by (simp add: keys set_keys_accum)
  have srs: "\<exists>xs ys. map_get (t_tx out) k = Some xs \<and> map_get (t_rx out) k = Some ys
        \<and> length xs = n \<and> length ys = n
        \<and> (\<forall>i < n. let rs = filter (\<lambda>row. rowBucket r (row_t row) = int i) (rows_of k rows) in
             xs ! i = kbps (fsum (map (\<lambda>row. Number_cell (row_tx row)) rs)) (secs ! i)
             \<and> ys ! i = kbps (fsum (map (\<lambda>row. Number_cell (row_rx row)) rs)) (secs ! i))"
    if k: "k \<in> set (t_keys out)" for k
  proof -
    have ne: "rows_of k good \<noteq> []" using k mem by (auto simp: filter_empty_conv)
    let ?f = "\<lambda>c. fill (\<lambda>g. rowBucket r (row_t g)) (\<lambda>g. Number_cell (c g)) n (rows_of k rows)"
    have acc: "map_get ?m k = Some \<lparr> k_tx = ?f row_tx, k_rx = ?f row_rx, k_total = fsum (map (dir_value dir) (rows_of k good)) \<rparr>"
      using ne unfolding good_def get_throughput Let_def fill_rows_of n_def by simp
    have kin: "k \<in> set (sort_by (key_le (total_of ?m)) (map fst ?m))" using k keys by simp
    have "map_get (t_tx out) k = Some (rates kbps secs (?f row_tx))"
      "map_get (t_rx out) k = Some (rates kbps secs (?f row_rx))"
      using kin acc unfolding out_def buildThroughput_def Let_def good_def [symmetric] ThroughputResponse.simps map_keys_def
      by (simp_all only: map_get_map_keys secs_def if_True option.case key_acc.simps)
    then show ?thesis using len by (simp add: rates_def nth_fill Let_def)
  qed
  have "distinct (t_keys out)" by (simp add: keys good_def)
  moreover have "sorted_wrt (key_le (total_of ?m)) (t_keys out)" unfolding keys by (rule key_order.sort_by_sorted)
  moreover have "length (t_t out) = n" by (simp add: out_def buildThroughput_def Let_def n_def)
  ultimately show ?thesis using mem srs unfolding totf by blast
qed

definition sample_row :: "int \<Rightarrow> string \<Rightarrow> ThroughputRow" where
  "sample_row t k = \<lparr> row_t = t, row_k = k, row_tx = Quoted ''100'', row_rx = Plain 7 \<rparr>"

theorem buildThroughput_series_witness:
  "set (t_keys (buildThroughput [sample_row 1789646400 ''curl'', sample_row 0 ''ssh''] sample_range DTx [])) = {''curl''}"
proof -
  have "in_buckets sample_range (sample_row 1789646400 ''curl'')" "\<not> in_buckets sample_range (sample_row 0 ''ssh'')"
    by code_simp+
  then show ?thesis
    using buildThroughput_series [of "[sample_row 1789646400 ''curl'', sample_row 0 ''ssh'']" sample_range DTx "[]"]
    by (simp add: sample_row_def)
qed

section \<open>The series beside it\<close>

lemma share_bounds:
  assumes "0 \<le> b" "b \<le> tot" "0 < tot"
  shows "0 \<le> round_dec 10000 (fdiv b tot)" "round_dec 10000 (fdiv b tot) \<le> 1"
proof -
  have "fdiv b tot \<le> 1" unfolding fdiv_def using assms dbl.le_int [of "b / tot" 1] by simp
  then have "round_dec 10000 (fdiv b tot) \<le> round_dec 10000 1" by (intro round_dec_mono) auto
  also have "round_dec 10000 1 = 1" by code_simp
  finally show "round_dec 10000 (fdiv b tot) \<le> 1" .
  show "0 \<le> round_dec 10000 (fdiv b tot)" using assms by (intro round_dec_nonneg) auto
qed

text \<open>
  The unknown share: per bucket the bytes and the total are the sums of exactly that bucket's
  rows; the share is missing exactly where the total is not positive, and where the unknown bytes
  are part of the total it lies between 0 and 1.
\<close>

theorem buildUnknown_share:
  fixes rows r
  defines "u \<equiv> buildUnknown rows r"
    and "at_bucket \<equiv> \<lambda>i. filter (\<lambda>row. rowBucket r (u_t row) = int i) rows"
  assumes "i < bucketCount r"
  shows "unk_bytes u ! i = fsum (map (\<lambda>row. Number_cell (u_unk row)) (at_bucket i))
    \<and> unk_total u ! i = fsum (map (\<lambda>row. Number_cell (u_total row)) (at_bucket i))
    \<and> (unk_share u ! i = None \<longleftrightarrow> unk_total u ! i \<le> 0)
    \<and> (\<forall>s. unk_share u ! i = Some s \<longrightarrow> 0 \<le> unk_bytes u ! i \<longrightarrow> unk_bytes u ! i \<le> unk_total u ! i \<longrightarrow> 0 \<le> s \<and> s \<le> 1)"
  using assms(3) share_bounds by (auto simp: u_def at_bucket_def buildUnknown_def Let_def nth_fill not_less split: if_splits)

definition sample_unknown :: "UnknownRow list" where
  "sample_unknown = [\<lparr> u_t = 1789646400, u_unk = Quoted ''25'', u_total = Quoted ''100'' \<rparr>]"

theorem buildUnknown_share_witness:
  "unk_share (buildUnknown sample_unknown sample_range) ! 0 = Some (1 / 4)"
proof -
  have "0 < bucketCount sample_range" by (simp add: bucketCount_def)
  have ix: "rowBucket sample_range 1789646400 = 0" by code_simp
  have fadd_100: "fadd 0 100 = 100" by code_simp
  have n: "Number_dec ''100'' = 100" "Number_dec ''25'' = 25" by code_simp+
  have "unk_total (buildUnknown sample_unknown sample_range) ! 0 = 100"
    using buildUnknown_share [OF \<open>0 < bucketCount sample_range\<close>, of sample_unknown] ix n
    by (simp add: sample_unknown_def Number_cell_def fsum_def fadd_100)
  moreover have "round_dec 10000 (fdiv (fadd 0 25) 100) = 1 / 4" by code_simp
  ultimately show ?thesis
    using \<open>0 < bucketCount sample_range\<close> ix n
    by (simp add: buildUnknown_def Let_def nth_fill sample_unknown_def Number_cell_def fsum_def)
qed

text \<open>
  Call rates: \<open>buildCalls\<close> and \<open>buildProcessCalls\<close> give, for every bucket of the range, the calls
  (and bytes) of exactly that bucket's rows per second of the time it covers.
\<close>

theorem calls_series:
  fixes rows prows r
  defines "secs \<equiv> coveredSeconds r (bucketStarts (r_from r) (stepMs r) (bucketCount r))"
    and "sum_at \<equiv> \<lambda>c i. fsum (map (\<lambda>row. Number_cell (c row)) (filter (\<lambda>row. rowBucket r (c_t row) = int i) rows))"
    and "psum_at \<equiv> \<lambda>c i. fsum (map (\<lambda>row. Number_cell (c row)) (filter (\<lambda>row. rowBucket r (pc_t row) = int i) prows))"
  shows "calls_tx (buildCalls rows r) = map (\<lambda>i. perSecond (sum_at c_tx i) (secs ! i)) [0..<bucketCount r]
    \<and> calls_rx (buildCalls rows r) = map (\<lambda>i. perSecond (sum_at c_rx i) (secs ! i)) [0..<bucketCount r]
    \<and> pcr_tx (buildProcessCalls prows r) = map (\<lambda>i. kbps (psum_at pc_tx i) (secs ! i)) [0..<bucketCount r]
    \<and> pcr_rx (buildProcessCalls prows r) = map (\<lambda>i. kbps (psum_at pc_rx i) (secs ! i)) [0..<bucketCount r]
    \<and> calls_tx (pcr_calls (buildProcessCalls prows r)) = map (\<lambda>i. perSecond (psum_at pc_txc i) (secs ! i)) [0..<bucketCount r]
    \<and> calls_rx (pcr_calls (buildProcessCalls prows r)) = map (\<lambda>i. perSecond (psum_at pc_rxc i) (secs ! i)) [0..<bucketCount r]"
  by (auto simp: buildCalls_def buildProcessCalls_def Let_def rates_def secs_def sum_at_def psum_at_def nth_fill
      intro!: nth_equalityI)

text \<open>
  The ghost of an earlier window exists exactly when the rollup has data from before that
  window's end. Its buckets are whole minutes wide, aligned, and end with the range; a bucket is
  missing exactly when it ends before the data starts (shifted), and every other one is the rate
  of its rows over the part of it that lies between the data's start and its end.
\<close>

theorem buildCompare_series:
  assumes "fm < r_to r - offset"
  defines "w \<equiv> compareStep r * 1000"
  defines "from \<equiv> floor_to (r_from r) w"
  shows "buildCompare rows r offset None = None
    \<and> (\<forall>fm' \<ge> r_to r - offset. buildCompare rows r offset (Some fm') = None)
    \<and> (\<exists>c. buildCompare rows r offset (Some fm) = Some c
      \<and> cmp_since c = max from (fm + offset)
      \<and> (\<forall>i < length (cmp_t c).
          let start = from + int i * w; rs = filter (\<lambda>row. bucketIndex from w (c_t row) = int i) rows;
              secs = max 0 (fdiv (of_int (min (start + w) (max (ceil_to (r_to r) 60000) start) - max start (cmp_since c))) 1000) in
          cmp_t c ! i = start
          \<and> (cmp_tx c ! i = None \<longleftrightarrow> start + w \<le> cmp_since c) \<and> (cmp_rx c ! i = None \<longleftrightarrow> start + w \<le> cmp_since c)
          \<and> (cmp_tx c ! i \<noteq> None \<longrightarrow> cmp_tx c ! i = Some (kbps (fsum (map (\<lambda>row. Number_cell (c_tx row)) rs)) secs))
          \<and> (cmp_rx c ! i \<noteq> None \<longrightarrow> cmp_rx c ! i = Some (kbps (fsum (map (\<lambda>row. Number_cell (c_rx row)) rs)) secs))))"
  using assms(1) by (simp add: buildCompare_def Let_def w_def from_def nth_fill bucketStarts_def)

theorem buildCompare_series_witness:
  "buildCompare [] sample_range 86400000 (Some 0) \<noteq> None"
proof -
  have "(0 :: int) < r_to sample_range - 86400000" by (simp add: sample_range_def)
  from buildCompare_series [OF this, of "[]"] show ?thesis by blast
qed

end
