(* ===== verification/Query.thy ===== *)
theory Query
  imports Throughput
begin

text \<open>
  \<^verbatim>\<open>web/src/server/ch/query.ts\<close> and \<^verbatim>\<open>web/src/server/ch/tz.ts\<close>: running a query and validating a time zone;
  and the contract of the routes. The database is a parameter: a function from a query to its
  rows, or to the client library's error. \<open>aborted\<close> says whether the browser has gone away
  (\<open>signal.aborted\<close>). Several queries under one \<open>Promise.all\<close> run side by side; when more than one
  fails, the model reports the leftmost failure, where the runtime reports the earliest.
\<close>

record ch_error =
  ce_type :: "string option"
  ce_code :: "string option"
  ce_message :: string

type_synonym 'r db = "sql_query \<Rightarrow> ch_error + 'r list"

definition MAX_EXECUTION_TIME_S :: nat where "MAX_EXECUTION_TIME_S = 20"

definition isTimeout :: "ch_error \<Rightarrow> bool" where
  "isTimeout e \<longleftrightarrow> ce_type e = Some ''TIMEOUT_EXCEEDED'' \<or> ce_code e = Some ''159''"

definition chQuery :: "bool \<Rightarrow> 'r db \<Rightarrow> sql_query \<Rightarrow> 'r list result" where
  "chQuery aborted db q = (case db q of
       Inr rows \<Rightarrow> Inr rows
     | Inl e \<Rightarrow>
         if aborted then Inl (HttpError 499 ''client closed request'')
         else if isTimeout e
         then Inl (HttpError 504 (''ClickHouse: the query took longer than '' @ string_of_nat MAX_EXECUTION_TIME_S @ '' s''))
         else Inl (HttpError 502 (''ClickHouse: '' @ ce_message e)))"

text \<open>A query that is only sent on request.\<close>

definition opt_query :: "bool \<Rightarrow> 'r db \<Rightarrow> sql_query option \<Rightarrow> 'r list option result" where
  "opt_query aborted db q = (case q of None \<Rightarrow> Inr None | Some s \<Rightarrow> bind_res (chQuery aborted db s) (\<lambda>rows. Inr (Some rows)))"

section \<open>Time zones\<close>

definition tz_query :: "string \<Rightarrow> sql_query" where
  "tz_query tz = ([T ''SELECT count() > 0 AS n FROM system.time_zones WHERE time_zone = '', P ''tz'' ''String''], [(''tz'', PStr tz)])"

text \<open>
  \<open>known\<close> is the set of names found valid so far; the answer comes with the updated set. The query is
  sent without the abort signal of the request.
\<close>

definition parseTz :: "nat db \<Rightarrow> string list \<Rightarrow> qval option \<Rightarrow> string result \<times> string list" where
  "parseTz db known raw = (case raw of
       None \<Rightarrow> (Inr ''UTC'', known)
     | Some (QArr _) \<Rightarrow> (Inl (badRequest ''tz: expected an IANA timezone name''), known)
     | Some (QStr s) \<Rightarrow>
         if s = [] then (Inr ''UTC'', known)
         else if length s > 64 then (Inl (badRequest ''tz: expected an IANA timezone name''), known)
         else if s \<in> set known then (Inr s, known)
         else (case chQuery False db (tz_query s) of
             Inl e \<Rightarrow> (Inl e, known)
           | Inr rows \<Rightarrow>
               if rows \<noteq> [] \<and> hd rows \<noteq> 0 then (Inr s, known @ [s])
               else (Inl (badRequest (''tz: unknown timezone '' @ [CHR 0x22] @ s @ [CHR 0x22])), known)))"

section \<open>Errors of a route\<close>

definition gateway :: "http_error \<Rightarrow> bool" where
  "gateway e \<longleftrightarrow> statusCode e \<in> {499, 502, 504}"

definition refused :: "http_error \<Rightarrow> bool" where
  "refused e \<longleftrightarrow> statusCode e = 400"

text \<open>\<open>fails_with B r\<close>: the only errors of \<open>r\<close> are those of \<open>B\<close>.\<close>

definition fails_with :: "(http_error \<Rightarrow> bool) \<Rightarrow> 'a result \<Rightarrow> bool" where
  "fails_with B r \<longleftrightarrow> (\<forall>e. r = Inl e \<longrightarrow> B e)"

named_theorems fails \<open>which errors a step of a route can end in\<close>

lemma fails_Inr [fails]: "fails_with B (Inr x)"
  by (simp add: fails_with_def)

lemma fails_bind [fails]: "fails_with B r \<Longrightarrow> (\<And>x. fails_with B (f x)) \<Longrightarrow> fails_with B (bind_res r f)"
  by (auto simp: fails_with_def bind_res_Inl_iff)

lemma fails_if [fails]: "(b \<Longrightarrow> fails_with B x) \<Longrightarrow> (\<not> b \<Longrightarrow> fails_with B y) \<Longrightarrow> fails_with B (if b then x else y)"
  by simp

lemma fails_badRequest [fails]: "fails_with refused (Inl (badRequest m))"
  by (simp add: fails_with_def refused_def badRequest_def)

lemma fails_chQuery [fails]: "fails_with gateway (chQuery aborted db q)"
  by (auto simp: fails_with_def gateway_def chQuery_def split: sum.splits if_splits)

lemma fails_opt_query [fails]: "fails_with gateway (opt_query aborted db q)"
  by (cases q) (auto simp: opt_query_def intro: fails)

text \<open>
  The contract of a route: parsing the request can only refuse it, answering it can only fail at
  the database. Then the refusal of a request does not depend on the database.
\<close>

locale route =
  fixes parse :: "'q \<Rightarrow> 'i result" and answer :: "'d \<Rightarrow> 'i \<Rightarrow> 'o result"
  assumes parse_refuses: "fails_with refused (parse q)"
    and answer_gateway: "fails_with gateway (answer d i)"
begin

lemma refusal_first:
  assumes "bind_res (parse q) (answer d) = Inl e" and "refused e"
  shows "bind_res (parse q) (answer d') = Inl e"
proof -
  have "\<not> gateway e" using assms(2) by (auto simp: gateway_def refused_def)
  then show ?thesis using assms(1) answer_gateway by (auto simp: bind_res_Inl_iff fails_with_def)
qed

lemma statuses: "bind_res (parse q) (answer d) = Inl e \<Longrightarrow> statusCode e \<in> {400, 499, 502, 504}"
  using parse_refuses answer_gateway by (fastforce simp: bind_res_Inl_iff fails_with_def gateway_def refused_def)

end

section \<open>The parsers refuse\<close>

lemma fails_intParam [fails]: "fails_with refused (intParam q n mn)"
  by (auto simp: fails_with_def intParam_def refused_def badRequest_def split: option.splits qval.splits if_splits)

lemma fails_parseRange [fails]: "fails_with refused (parseRange q now)"
  unfolding parseRange_def Let_def by (intro fails)

lemma fails_pick_word [fails]: "fails_with refused (pick_word n ws d raw)"
  by (auto simp: fails_with_def pick_word_def refused_def badRequest_def split: option.splits qval.splits list.splits)

lemma fails_pick_msg [fails]: "fails_with refused (pick_msg m ws d raw)"
  by (auto simp: fails_with_def pick_msg_def refused_def badRequest_def split: option.splits qval.splits list.splits)

lemma fails_parse_flag [fails]: "fails_with refused (parse_flag n m raw)"
  by (auto simp: fails_with_def parse_flag_def refused_def badRequest_def split: option.splits if_splits)

lemma fails_text_filter [fails]: "fails_with refused (text_filter q k)"
  by (auto simp: fails_with_def text_filter_def refused_def badRequest_def split: option.splits qval.splits if_splits)

lemma fails_uid_filter [fails]: "fails_with refused (uid_filter q)"
  by (auto simp: fails_with_def uid_filter_def refused_def badRequest_def split: option.splits qval.splits if_splits)

lemma fails_parseDest [fails]: "fails_with refused (parseDest isIP raw)"
  by (auto simp: fails_with_def parseDest_def dest_bad_def refused_def badRequest_def Let_def split: option.splits qval.splits if_splits)

lemma fails_parseFilters [fails]: "fails_with refused (parseFilters isIP q)"
  unfolding parseFilters_def by (intro fails)

lemma fails_parseDir [fails]: "fails_with refused (parseDir raw)" "fails_with refused (parseBy raw)"
  "fails_with refused (parseCompare raw)" "fails_with refused (parseUnknown raw)" "fails_with refused (parseCalls raw)"
  unfolding parseDir_def parseBy_def parseCompare_def parseUnknown_def parseCalls_def by (intro fails)+

text \<open>\<^verbatim>\<open>routes/history.ts\<close>: an optional integer parameter with bounds.\<close>

definition intInRange :: "qval option \<Rightarrow> string \<Rightarrow> int \<Rightarrow> nat \<Rightarrow> nat \<Rightarrow> int result" where
  "intInRange raw name fallback lo hi = (case raw of
       None \<Rightarrow> Inr fallback
     | Some (QStr s) \<Rightarrow> if s = [] then Inr fallback
         else if all_digits s \<and> of_nat lo \<le> Number_dec s \<and> Number_dec s \<le> of_nat hi then Inr \<lfloor>Number_dec s\<rfloor>
         else Inl (badRequest (name @ '': expected an integer in '' @ string_of_nat lo @ ''..'' @ string_of_nat hi))
     | Some (QArr _) \<Rightarrow> Inl (badRequest (name @ '': expected an integer in '' @ string_of_nat lo @ ''..'' @ string_of_nat hi)))"

lemma fails_intInRange [fails]: "fails_with refused (intInRange raw n f lo hi)"
  by (auto simp: fails_with_def intInRange_def refused_def badRequest_def split: option.splits qval.splits if_splits)

lemma intInRange_bounds [bounds]:
  assumes "intInRange raw n f lo hi = Inr x" and "int lo \<le> f" "f \<le> int hi"
  shows "int lo \<le> x \<and> x \<le> int hi"
proof -
  have "int lo \<le> \<lfloor>v\<rfloor> \<and> \<lfloor>v\<rfloor> \<le> int hi" if "of_nat lo \<le> v" "v \<le> of_nat hi" for v :: num
    using that by (auto simp: le_floor_iff floor_le_iff intro: order_le_less_trans)
  then show ?thesis using assms by (auto simp: intInRange_def split: option.splits qval.splits if_splits)
qed

text \<open>
  Time zones are checked against the database once: for a database that says which names it
  knows, a request without a zone means UTC, a given name is accepted exactly when it is a known
  name of at most 64 characters, and the cache only ever holds known names, so that junk cannot
  grow it.
\<close>

theorem parseTz_cache:
  assumes "\<forall>s. db (tz_query s) = Inr [if s \<in> zones then 1 else 0]" and "set known \<subseteq> zones"
  shows "set (snd (parseTz db known raw)) \<subseteq> zones
    \<and> fst (parseTz db known None) = Inr ''UTC''
    \<and> (s \<noteq> [] \<longrightarrow> (fst (parseTz db known (Some (QStr s))) = Inr s \<longleftrightarrow> s \<in> zones \<and> length s \<le> 64))"
proof -
  have q: "chQuery False db (tz_query s) = Inr [if s \<in> zones then 1 else 0]" for s using assms(1) by (simp add: chQuery_def)
  have "set (snd (parseTz db known raw)) \<subseteq> zones"
    using assms(2) by (auto simp: parseTz_def q split: option.splits qval.splits)
  moreover have "s \<noteq> [] \<longrightarrow> (fst (parseTz db known (Some (QStr s))) = Inr s \<longleftrightarrow> s \<in> zones \<and> length s \<le> 64)"
    using assms(2) by (auto simp: parseTz_def q)
  ultimately show ?thesis by (simp add: parseTz_def)
qed

theorem parseTz_cache_witness:
  "fst (parseTz (\<lambda>q. Inr [if q = tz_query ''Europe/Berlin'' then 1 else 0]) [] (Some (QStr ''Europe/Berlin''))) = Inr ''Europe/Berlin''"
  using parseTz_cache [of "\<lambda>q. Inr [if q = tz_query ''Europe/Berlin'' then 1 else 0]" "{''Europe/Berlin''}" "[]" None "''Europe/Berlin''"]
  by (simp add: tz_query_def)

end
