(* ===== verification/Burst.thy ===== *)
theory Burst
  imports Throughput
begin

text \<open>
  \<^verbatim>\<open>web/src/server/ch/burst.ts\<close>: the band of peak against average rates. Per bucket the mean rate, and
  the 95th percentile and the maximum of the per-tick rates, where the ticks without rows count as
  zeros. A row's columns \<open>kbps_s\<close> and \<open>bytes_s\<close>, which exist for the requested sides, are
  functions of the side here, with \<open>None\<close> for a missing column.
\<close>

datatype BurstSide = STx | SRx | STotal
datatype BurstDir = BBoth | BSide BurstSide

definition BURST_DIRS :: "(string \<times> BurstDir) list" where
  "BURST_DIRS = [(''both'', BBoth), (''tx'', BSide STx), (''rx'', BSide SRx), (''total'', BSide STotal)]"

definition BURST_MAX_SPAN_MS :: int where "BURST_MAX_SPAN_MS = 24 * 3600000"

definition parseBurstDir :: "qval option \<Rightarrow> BurstDir result" where
  "parseBurstDir raw = pick_word ''dir'' BURST_DIRS (BSide STotal) raw"

definition sidesOf :: "BurstDir \<Rightarrow> BurstSide list" where
  "sidesOf d = (case d of BBoth \<Rightarrow> [STx, SRx] | BSide s \<Rightarrow> [s])"

definition side_name :: "BurstSide \<Rightarrow> string" where
  "side_name s = (case s of STx \<Rightarrow> ''tx'' | SRx \<Rightarrow> ''rx'' | STotal \<Rightarrow> ''total'')"

definition METRIC :: "BurstSide \<Rightarrow> string" where
  "METRIC s = (case s of STx \<Rightarrow> ''tx_bytes'' | SRx \<Rightarrow> ''rx_bytes'' | STotal \<Rightarrow> ''tx_bytes + rx_bytes'')"

text \<open>The optional condition on one process, shared with the bytes-per-call query.\<close>

definition instance_sql :: "(int \<times> string) option \<Rightarrow> sql_query" where
  "instance_sql inst = (case inst of None \<Rightarrow> ([], [])
     | Some (pid, start) \<Rightarrow> ([T ''pid = '', P ''pid'' ''UInt32'', T '' AND proc_start = '', P ''start'' ''UInt64'', T '' AND ''],
         [(''pid'', PInt pid), (''start'', PStr start)]))"

record burst_req =
  bu_range :: Range
  bu_dir :: BurstDir
  bu_filters :: Filters
  bu_instance :: "(int \<times> string) option"

definition burstQuery :: "burst_req \<Rightarrow> sql_query" where
  "burstQuery q =
     (let r = bu_range q; f = filterSql (bu_filters q); sides = sidesOf (bu_dir q);
          inst = instance_sql (bu_instance q);
          inner = join '', '' (map (\<lambda>s. ''sum('' @ METRIC s @ '') AS b_'' @ side_name s) sides);
          outer = join '', '' (map (\<lambda>s. ''sum(b_'' @ side_name s @ '') AS bytes_'' @ side_name s @ '', groupArray(b_''
            @ side_name s @ '' * 8 / greatest(iv, 1)) AS kbps_'' @ side_name s) sides)
      in ([T ''SELECT toUnixTimestamp(toStartOfInterval(ts, INTERVAL '', P ''step'' ''UInt32'',
             T ('' SECOND)) AS t, '' @ outer @ '', any(iv) AS interval_ms FROM ( SELECT ts, any(interval_ms) AS iv, ''
               @ inner @ '' FROM flows WHERE '')]
            @ fst inst
            @ [T ''ts >= fromUnixTimestamp64Milli('', P ''from'' ''Int64'', T '') AND ts < fromUnixTimestamp64Milli('',
               P ''to'' ''Int64'', T '')'']
            @ fst f @ [T '' GROUP BY ts ) GROUP BY t ORDER BY t''],
          [(''from'', PInt (r_from r)), (''to'', PInt (r_to r)), (''step'', PInt (r_step r))] @ snd f @ snd inst))"

record BurstRow =
  bu_t :: int
  bu_interval_ms :: cell
  bu_kbps :: "BurstSide \<Rightarrow> cell list option"
  bu_bytes :: "BurstSide \<Rightarrow> cell option"

abbreviation round3 :: "num \<Rightarrow> num" where "round3 \<equiv> round_dec 1000"

definition paddedStats :: "num list \<Rightarrow> int \<Rightarrow> num \<times> num" where
  "paddedStats samples ticks =
     (let n = max ticks (int (length samples)) in
      if n = 0 then (0, 0)
      else
        let dsc = sort_by (desc_by (\<lambda>x. x)) samples;
            i = n - Math_ceil (fmul (fl (95 / 100)) (of_int n));
            el = (\<lambda>i. if 0 \<le> i \<and> i < int (length dsc) then dsc ! nat i else 0)
        in (round3 (max 0 (el i)), round3 (max 0 (el 0))))"

record BurstStats =
  bs_mean :: "num list"
  bs_p95 :: "num list"
  bs_max :: "num list"

record BurstResponse =
  bu_from :: int
  bu_to :: int
  bu_step :: int
  bu_rdir :: BurstDir
  bu_times :: "int list"
  bu_stats :: "(BurstSide, BurstStats) jsmap"

definition burst_tick :: "Range \<Rightarrow> num list \<Rightarrow> BurstRow \<Rightarrow> BurstSide \<Rightarrow> BurstStats \<Rightarrow> BurstStats" where
  "burst_tick r seconds row s st =
     (let i = nat (rowBucket r (bu_t row));
          v = Number_cell (bu_interval_ms row);
          interval = (if v = 0 then 1000 else v);
          ticks = Math_round (fdiv (fmul (seconds ! i) 1000) interval);
          samples = (case bu_kbps row s of Some xs \<Rightarrow> xs | None \<Rightarrow> []);
          pm = paddedStats (map Number_cell samples) ticks;
          bytes = (case bu_bytes row s of Some c \<Rightarrow> Number_cell c | None \<Rightarrow> 0)
      in \<lparr> bs_mean = (bs_mean st)[i := kbps bytes (seconds ! i)], bs_p95 = (bs_p95 st)[i := fst pm],
           bs_max = (bs_max st)[i := snd pm] \<rparr>)"

definition buildBurst :: "BurstRow list \<Rightarrow> Range \<Rightarrow> BurstDir \<Rightarrow> BurstResponse" where
  "buildBurst rows r dir =
     (let n = bucketCount r;
          t = bucketStarts (r_from r) (stepMs r) n;
          seconds = coveredSeconds (r\<lparr> r_table := Flows \<rparr>) t;
          zero = \<lparr> bs_mean = replicate n 0, bs_p95 = replicate n 0, bs_max = replicate n 0 \<rparr>
      in \<lparr> bu_from = r_from r, bu_to = r_to r, bu_step = r_step r, bu_rdir = dir, bu_times = t,
           bu_stats = fold (\<lambda>row m. let i = rowBucket r (bu_t row) in
               if i < 0 \<or> i \<ge> int n then m else map (\<lambda>(s, st). (s, burst_tick r seconds row s st)) m)
             rows (map (\<lambda>s. (s, zero)) (sidesOf dir)) \<rparr>)"

definition burstSpanOk :: "int \<Rightarrow> int \<Rightarrow> bool" where
  "burstSpanOk from to \<longleftrightarrow> to - from \<le> BURST_MAX_SPAN_MS"

section \<open>The percentile\<close>

lemma ceil_95:
  assumes "0 \<le> n" "n < 2 ^ 40"
  shows "\<lceil>fmul (fl (95 / 100)) (of_int n)\<rceil> = - ((- (19 * n)) div 20)"
proof -
  let ?m = "- ((- (19 * n)) div 20)" and ?x = "fl (95 / 100) * of_int n :: rat"
  have c: "19 * n \<le> ?m * 20" "?m * 20 < 19 * n + 20" by presburger+
  have f: "fl (95 / 100) \<le> 95 / 100" "95 / 100 - 1 / 2 ^ 54 \<le> fl (95 / 100)" by code_simp+
  have n: "0 \<le> (of_int n :: rat)" "(of_int n :: rat) < 2 ^ 40"
    using assms of_int_less_iff [of n "2 ^ 40", where 'a = rat] by auto
  have "(of_int (19 * n) :: rat) \<le> of_int (?m * 20)" using c(1) by (simp only: of_int_le_iff)
  then have m1: "19 * (of_int n :: rat) \<le> of_int ?m * 20" by simp
  have "(of_int (?m * 20) :: rat) \<le> of_int (19 * n + 19)" using c(2) by (simp only: of_int_le_iff)
  then have m2: "of_int ?m * 20 \<le> 19 * (of_int n :: rat) + 19" by simp
  have up: "?x \<le> 95 / 100 * of_int n" using f(1) n(1) by (rule mult_right_mono)
  then have le: "?x \<le> of_int ?m" using m1 by linarith
  have "\<bar>?m\<bar> \<le> 2 ^ 53" using c assms by auto
  with le have hi: "fl ?x \<le> of_int ?m" by (rule dbl.le_int)
  have lo: "(95 / 100 - 1 / 2 ^ 54) * of_int n \<le> ?x" using f(2) n(1) by (rule mult_right_mono)
  have x0: "0 \<le> ?x" using n(1) f(2) by (intro mult_nonneg_nonneg) auto
  define x where "x = ?x"
  have "x - x / 2 ^ 53 \<le> fl x" using fl_error [of x] x0 unfolding x_def [symmetric] by linarith
  moreover have "95 / 100 * N - 1 / 2 ^ 14 \<le> y \<and> y / 2 ^ 53 \<le> 1 / 2 ^ 13"
    if "y \<le> 95 / 100 * N" "(95 / 100 - 1 / 2 ^ 54) * N \<le> y" "N < 2 ^ 40" for y N :: rat
    using that by (simp add: field_simps)
  from this [OF up lo n(2)] have "95 / 100 * of_int n - 1 / 2 ^ 14 \<le> x" "x / 2 ^ 53 \<le> 1 / 2 ^ 13"
    by (simp_all only: x_def)
  moreover have "(1 :: rat) / 2 ^ 14 + 1 / 2 ^ 13 < 1 / 20" by simp
  ultimately have "of_int ?m - 1 < fl x" using m2 by linarith
  then have "of_int ?m - 1 < fl ?x" by (simp only: x_def)
  with hi show ?thesis unfolding fmul_def by (simp add: ceiling_unique)
qed

lemma sort_desc: "sort_by (desc_by (\<lambda>x. x)) xs = rev (sort (xs :: rat list))"
proof -
  have "sorted (rev (sort_by (desc_by (\<lambda>x. x)) xs))"
    using sort_by_sorted_wrt [OF comparator_desc_by, of "\<lambda>x. x" xs]
    by (simp add: desc_by_def [abs_def] sorted_wrt_rev)
  then have "rev (sort_by (desc_by (\<lambda>x. x)) xs) = sort xs" by (intro properties_for_sort [symmetric]) auto
  then show ?thesis by (metis rev_rev_ident)
qed

text \<open>
  (C19) The peaks of a bucket are those of all its ticks, idle ones included: for samples that are not
  negative and \<open>n\<close> ticks, \<open>paddedStats\<close> gives the 95th percentile by nearest rank (the
  \<open>\<lceil>19 n / 20\<rceil>\<close>-th smallest) and the largest of the samples padded with zeros to \<open>n\<close>
  values, cut to three decimals; the product \<open>0.95 * n\<close> of floating-point numbers never picks
  another rank.
\<close>

theorem paddedStats_percentile:
  fixes samples ticks
  defines "n \<equiv> max ticks (int (length samples))"
  defines "padded \<equiv> sort (replicate (nat n - length samples) 0 @ samples)"
  assumes "0 < n" "n < 2 ^ 40" and "\<forall>x \<in> set samples. 0 \<le> x"
  shows "paddedStats samples ticks = (round3 (padded ! (nat (- ((- (19 * n)) div 20)) - 1)), round3 (last padded))"
proof -
  define k where "k = - ((- (19 * n)) div 20)"
  have k: "0 < k" "k \<le> n" using assms(3) by (auto simp: k_def)
  define ss where "ss = sort samples"
  have len: "length ss = length samples" by (simp add: ss_def)
  have nn: "\<forall>x \<in> set ss. 0 \<le> x" using assms(5) by (simp add: ss_def)
  let ?z = "nat n - length samples"
  have pad: "padded = replicate ?z 0 @ ss"
    unfolding padded_def ss_def
    by (rule properties_for_sort) (use assms(5) in \<open>auto simp: sorted_append sorted_replicate\<close>)
  have lenp: "length padded = nat n" unfolding pad using len assms(3) by (auto simp: n_def)
  have el: "max 0 (if 0 \<le> n - j \<and> n - j < int (length (rev ss)) then rev ss ! nat (n - j) else 0) = padded ! (nat j - 1)"
    if j: "0 < j" "j \<le> n" for j
  proof (cases "n - j < int (length ss)")
    case True
    then have i: "nat (n - j) < length ss" "\<not> nat j - 1 < ?z" using j len by auto
    have "rev ss ! nat (n - j) = ss ! (length ss - Suc (nat (n - j)))" using i by (simp add: rev_nth)
    also have "length ss - Suc (nat (n - j)) = nat j - 1 - ?z" 
    proof -
      have "int (length samples) \<le> n" by (simp add: n_def)
      then show ?thesis using j len i by linarith
    qed
    finally have "rev ss ! nat (n - j) = padded ! (nat j - 1)" using i by (simp add: pad nth_append)
    moreover have "0 \<le> rev ss ! nat (n - j)" using nn i by (metis length_rev nth_mem set_rev)
    ultimately show ?thesis using True j by simp
  next
    case False
    then have "nat j - 1 < ?z" using j len by auto
    then show ?thesis using False by (simp add: pad nth_append)
  qed
  have "padded \<noteq> []" using lenp assms(3) by auto
  then have "last padded = padded ! (nat n - 1)" by (simp add: last_conv_nth lenp)
  moreover have "Math_ceil (fmul (fl (95 / 100)) (of_int n)) = k" using ceil_95 [of n] assms(3,4) by (simp add: k_def)
  ultimately show ?thesis
    using el [OF k] el [of n, unfolded diff_self] assms(3)
    unfolding paddedStats_def Let_def n_def [symmetric] sort_desc ss_def [symmetric] k_def [symmetric]
    by (auto split: if_splits)
qed

theorem paddedStats_percentile_witness:
  "paddedStats [5, 1] 20 = (round3 (sort (replicate 18 0 @ [5, 1]) ! 18), round3 (last (sort (replicate 18 0 @ [5, 1]))))"
  using paddedStats_percentile [of 20 "[5, 1]"] by simp

section \<open>The band\<close>

lemma map_get_map_side: "map_get (map (\<lambda>(s, st). (s, f s st)) m) k = map_option (f k) (map_get m k)"
  by (induction m) (auto simp: map_get_def)

lemma case_last_snoc: "(case xs @ [x] of [] \<Rightarrow> a | y # ys \<Rightarrow> f (last (y # ys))) = f x"
  by (cases xs) auto

definition burst_values :: "Range \<Rightarrow> BurstSide \<Rightarrow> nat \<Rightarrow> BurstRow \<Rightarrow> num \<times> num \<times> num" where
  "burst_values r s i row =
     (let secs = coveredSeconds (r\<lparr> r_table := Flows \<rparr>) (bucketStarts (r_from r) (stepMs r) (bucketCount r)) ! i;
          v = Number_cell (bu_interval_ms row);
          ticks = Math_round (fdiv (fmul secs 1000) (if v = 0 then 1000 else v));
          pm = paddedStats (map Number_cell (case bu_kbps row s of Some xs \<Rightarrow> xs | None \<Rightarrow> [])) ticks
      in (kbps (case bu_bytes row s of Some c \<Rightarrow> Number_cell c | None \<Rightarrow> 0) secs, fst pm, snd pm))"

text \<open>
  The band has one value per bucket and requested side: the values of the bucket's row (its bytes
  over the time the bucket covers, the percentile and the maximum of its ticks padded to that
  time), the last one if there were several, and zeros where the bucket has no row. Rows outside
  the range change nothing.
\<close>

theorem buildBurst_series:
  fixes rows r dir
  defines "out \<equiv> buildBurst rows r dir" and "n \<equiv> bucketCount r"
  shows "map fst (bu_stats out) = sidesOf dir \<and> length (bu_times out) = n
    \<and> (\<forall>s \<in> set (sidesOf dir). \<exists>st. map_get (bu_stats out) s = Some st
        \<and> length (bs_mean st) = n \<and> length (bs_p95 st) = n \<and> length (bs_max st) = n
        \<and> (\<forall>i < n. (bs_mean st ! i, bs_p95 st ! i, bs_max st ! i) =
             (case filter (\<lambda>row. rowBucket r (bu_t row) = int i) rows of [] \<Rightarrow> (0, 0, 0)
              | rs \<Rightarrow> burst_values r s i (last rs))))"
proof -
  let ?secs = "coveredSeconds (r\<lparr> r_table := Flows \<rparr>) (bucketStarts (r_from r) (stepMs r) n)"
  define stp where "stp = (\<lambda>row m. let i = rowBucket r (bu_t row) in
    if i < 0 \<or> i \<ge> int n then m else map (\<lambda>(s, st). (s, burst_tick r ?secs row s st)) m)"
  let ?z = "\<lparr> bs_mean = replicate n 0, bs_p95 = replicate n 0, bs_max = replicate n 0 \<rparr>"
  define m0 where "m0 = map (\<lambda>s. (s, ?z)) (sidesOf dir)"
  have out: "bu_stats out = fold stp rows m0" "bu_times out = bucketStarts (r_from r) (stepMs r) n"
    unfolding out_def buildBurst_def stp_def m0_def n_def Let_def by simp_all
  have keys: "map fst (fold stp rs m) = map fst m" for rs m
    by (induction rs arbitrary: m) (auto simp: stp_def Let_def case_prod_unfold comp_def)
  have "\<exists>st. map_get (fold stp rs m0) s = Some st
        \<and> length (bs_mean st) = n \<and> length (bs_p95 st) = n \<and> length (bs_max st) = n
        \<and> (\<forall>i < n. (bs_mean st ! i, bs_p95 st ! i, bs_max st ! i) =
             (case filter (\<lambda>row. rowBucket r (bu_t row) = int i) rs of [] \<Rightarrow> (0, 0, 0)
              | rs \<Rightarrow> burst_values r s i (last rs)))" if s: "s \<in> set (sidesOf dir)" for s rs
  proof (induction rs rule: rev_induct)
    case Nil
    then show ?case using s by (simp add: m0_def map_get_map_keys)
  next
    case (snoc row rs)
    then obtain st where st: "map_get (fold stp rs m0) s = Some st"
      "length (bs_mean st) = n" "length (bs_p95 st) = n" "length (bs_max st) = n"
      and vals: "\<And>i. i < n \<Longrightarrow> (bs_mean st ! i, bs_p95 st ! i, bs_max st ! i) =
             (case filter (\<lambda>row. rowBucket r (bu_t row) = int i) rs of [] \<Rightarrow> (0, 0, 0)
              | rs \<Rightarrow> burst_values r s i (last rs))" by blast
    let ?b = "rowBucket r (bu_t row)"
    show ?case
    proof (cases "?b < 0 \<or> ?b \<ge> int n")
      case True
      then show ?thesis using st vals by (intro exI [of _ st]) (auto simp: stp_def Let_def)
    next
      case False
      let ?st = "burst_tick r ?secs row s st"
      have "map_get (fold stp (rs @ [row]) m0) s = Some ?st" using False st(1) by (simp add: stp_def Let_def map_get_map_side)
      moreover have "length (bs_mean ?st) = n" "length (bs_p95 ?st) = n" "length (bs_max ?st) = n"
        using st by (simp_all add: burst_tick_def Let_def)
      moreover have "(bs_mean ?st ! i, bs_p95 ?st ! i, bs_max ?st ! i) =
             (case filter (\<lambda>row. rowBucket r (bu_t row) = int i) (rs @ [row]) of [] \<Rightarrow> (0, 0, 0)
              | rs \<Rightarrow> burst_values r s i (last rs))" if "i < n" for i
      proof (cases "?b = int i")
        case True
        then show ?thesis using that st
          by (simp add: case_last_snoc burst_tick_def burst_values_def Let_def n_def)
      next
        case ne: False
        then have "nat ?b \<noteq> i" using False by auto
        then show ?thesis using vals [OF that] ne by (simp add: burst_tick_def Let_def)
      qed
      ultimately show ?thesis by blast
    qed
  qed
  then show ?thesis using keys [of rows m0] by (simp add: out m0_def comp_def)
qed

theorem buildBurst_series_witness:
  "\<exists>st. map_get (bu_stats (buildBurst [] sample_range BBoth)) SRx = Some st \<and> bs_max st ! 0 = 0"
proof -
  have "0 < bucketCount sample_range" by (simp add: bucketCount_def)
  then show ?thesis using buildBurst_series [of "[]" sample_range BBoth] by (auto simp: sidesOf_def)
qed

definition burst_shape :: "burst_req \<Rightarrow> BurstDir \<times> bool list \<times> bool" where
  "burst_shape q = (bu_dir q, filter_shape (bu_filters q), bu_instance q \<noteq> None)"

lemma instance_text: "(i = None) = (j = None) \<Longrightarrow> fst (instance_sql i) = fst (instance_sql j)"
  and instance_bound: "placeholders (fst (instance_sql i)) = fst ` set (snd (instance_sql i))"
  by (auto simp: instance_sql_def split: option.splits)

interpretation burst_query: param_query burstQuery burst_shape
proof
  fix q q' :: burst_req
  assume "burst_shape q = burst_shape q'"
  then have c: "bu_dir q = bu_dir q'" "filter_shape (bu_filters q) = filter_shape (bu_filters q')"
    "(bu_instance q = None) = (bu_instance q' = None)" by (auto simp: burst_shape_def)
  show "fst (burstQuery q) = fst (burstQuery q')"
    unfolding burstQuery_def Let_def fst_conv c(1) filter_text [OF c(2)] instance_text [OF c(3)] ..
next
  show "bound_in (snd (burstQuery q)) (fst (burstQuery q))" for q
    unfolding burstQuery_def Let_def fst_conv snd_conv bound_in_def
    by (auto simp: filterSql_bound instance_bound image_Un)
qed

end
