(* ===== verification/Sums.thy ===== *)
theory Sums
  imports Live
begin

text \<open>
  Exact sums. The sources add up counters with floating-point additions; below \<open>2^53\<close> such sums
  are exact and so do not depend on the order or the grouping of the additions. The lemmas here
  carry a running sum over to the exact sum of natural numbers, and split a sum over rows by the
  key of the row.
\<close>

lemma fadd_nat: "m + n \<le> 2 ^ 53 \<Longrightarrow> fadd (of_nat m) (of_nat n) = of_nat (m + n)"
  using fl_of_int [of "int m + int n"] by (simp add: fadd_def)

lemma foldl_fadd_nat:
  "a + sum_list ns \<le> 2 ^ 53 \<Longrightarrow> foldl fadd (of_nat a) (map of_nat ns) = of_nat (a + sum_list ns)"
proof (induction ns arbitrary: a)
  case (Cons n ns)
  then show ?case using fadd_nat [of a n] Cons.IH [of "a + n"] by (simp add: add.assoc)
qed simp

lemma fsum_nat: "sum_list ns \<le> 2 ^ 53 \<Longrightarrow> fsum (map of_nat ns) = of_nat (sum_list ns)"
  using foldl_fadd_nat [of 0 ns] by (simp add: fsum_def)

lemma fsum_nats:
  assumes "\<And>x. x \<in> set xs \<Longrightarrow> f x = of_nat (g x)" and "(\<Sum>x \<leftarrow> xs. g x) \<le> 2 ^ 53"
  shows "fsum (map f xs) = of_nat (\<Sum>x \<leftarrow> xs. g x)"
proof -
  have "map f xs = map of_nat (map g xs)" using assms(1) by simp
  then show ?thesis using fsum_nat [OF assms(2)] by (simp only:)
qed

lemma sum_list_filter_le: "(\<Sum>x \<leftarrow> filter P xs. g x) \<le> (\<Sum>x \<leftarrow> xs. g x :: nat)"
  by (induction xs) auto

lemma sum_list_delta:
  "distinct ks \<Longrightarrow> (\<Sum>k \<leftarrow> ks. if k = a then x else 0) = (if a \<in> set ks then x else (0 :: 'a :: comm_monoid_add))"
  by (induction ks) auto

text \<open>A sum over rows is the sum over the keys of the sums of each key's rows.\<close>

lemma sum_by_key:
  fixes g :: "'r \<Rightarrow> 'a :: comm_monoid_add"
  assumes "distinct ks" and "key ` set rows \<subseteq> set ks"
  shows "(\<Sum>k \<leftarrow> ks. \<Sum>r \<leftarrow> filter (\<lambda>r. key r = k) rows. g r) = (\<Sum>r \<leftarrow> rows. g r)"
  using assms(2)
proof (induction rows)
  case (Cons r rows)
  have "(\<Sum>k \<leftarrow> ks. \<Sum>r \<leftarrow> filter (\<lambda>r. key r = k) (r # rows). g r)
      = (\<Sum>k \<leftarrow> ks. (if k = key r then g r else 0) + (\<Sum>r \<leftarrow> filter (\<lambda>r. key r = k) rows. g r))"
    by (intro arg_cong [of _ _ sum_list] map_cong) auto
  also have "\<dots> = g r + (\<Sum>r \<leftarrow> rows. g r)"
    using Cons assms(1) by (simp add: sum_list_addf sum_list_delta)
  finally show ?case by simp
qed simp

lemma of_nat_sum_list: "of_nat (sum_list ns) = (\<Sum>n \<leftarrow> ns. of_nat n)"
  by (induction ns) auto

lemma sum_list_take_drop: "(\<Sum>x \<leftarrow> take n xs. f x) + (\<Sum>x \<leftarrow> drop n xs. f x) = (\<Sum>x \<leftarrow> xs. f x :: 'a :: comm_monoid_add)"
  by (metis append_take_drop_id map_append sum_list.append)

end
