(* ===== verification/Beacons.thy ===== *)
theory Beacons
  imports Throughput
begin

text \<open>
  \<^verbatim>\<open>web/src/server/analysis/periodicity.ts\<close> and \<^verbatim>\<open>web/src/server/ch/beacons.ts\<close>: the bursts of a destination's
  active ticks, how periodic they are, and the beaconing strip built from them. \<open>Math.sqrt\<close> and
  \<open>localeCompare\<close> are parameters (\<open>msqrt\<close>, \<open>lc\<close>). Times are milliseconds as JavaScript numbers.
\<close>

section \<open>Bursts and periodicity\<close>

definition CONSECUTIVE_FACTOR :: num where "CONSECUTIVE_FACTOR = 3 / 2"
definition MIN_BURSTS :: nat where "MIN_BURSTS = 6"
definition MAX_CV :: num where "MAX_CV = fl (15 / 100)"

record Periodicity =
  period_s :: "num option"
  cv :: "num option"
  bursts :: nat
  score :: num

definition continues :: "num \<Rightarrow> num \<Rightarrow> bool" where
  "continues gp iv \<longleftrightarrow> gp \<le> fmul iv CONSECUTIVE_FACTOR"

definition burstStarts :: "num list \<Rightarrow> num \<Rightarrow> nat list" where
  "burstStarts tks iv =
     filter (\<lambda>i. i = 0 \<or> \<not> continues (fsub (tks ! i) (tks ! (i - 1))) iv) [0..<length tks]"

fun burst_gaps_from :: "num \<Rightarrow> num option \<Rightarrow> num option \<Rightarrow> num list \<Rightarrow> num option list" where
  "burst_gaps_from iv prev start [] = []"
| "burst_gaps_from iv prev start (t # rest) =
     (if (case prev of Some p \<Rightarrow> continues (fsub t p) iv | None \<Rightarrow> False)
      then Some 0 # burst_gaps_from iv (Some t) start rest
      else map_option (\<lambda>s. fsub t s) start # burst_gaps_from iv (Some t) (Some t) rest)"

definition burstGaps :: "num list \<Rightarrow> num \<Rightarrow> num option list" where
  "burstGaps tks iv = burst_gaps_from iv None None tks"

definition median :: "num list \<Rightarrow> num" where
  "median xs = (let s = sort_by (asc_by (\<lambda>x. x)) xs; m = length s div 2 in
     if length s mod 2 = 1 then s ! m else fdiv (fadd (s ! (m - 1)) (s ! m)) 2)"

definition periodicity :: "(num \<Rightarrow> num) \<Rightarrow> num list \<Rightarrow> num \<Rightarrow> Periodicity" where
  "periodicity msqrt tks iv =
     (let starts = map (\<lambda>i. tks ! i) (burstStarts tks iv);
          gaps = map2 (\<lambda>t s. fsub t s) (tl starts) starts;
          nb = length starts
      in if gaps = [] then \<lparr> period_s = None, cv = None, bursts = nb, score = 0 \<rparr>
         else let p = round_dec 1000 (fdiv (median gaps) 1000) in
           if length gaps < 2 then \<lparr> period_s = Some p, cv = None, bursts = nb, score = 0 \<rparr>
           else let k = of_nat (length gaps);
                    mean = fdiv (fsum gaps) k;
                    sd = msqrt (fdiv (fsum (map (\<lambda>g. fmul (fsub g mean) (fsub g mean)) gaps)) k);
                    c = round_dec 10000 (fdiv sd mean)
             in \<lparr> period_s = Some p, cv = Some c, bursts = nb,
                  score = (if nb \<ge> MIN_BURSTS \<and> c < MAX_CV then round_dec 10000 (fsub 1 c) else 0) \<rparr>)"

section \<open>The strip\<close>

definition BEACON_POINT_BUDGET :: int where "BEACON_POINT_BUDGET = 60000"
definition BEACON_MIN_POINTS :: int where "BEACON_MIN_POINTS = 1000"
definition DEFAULT_INTERVAL_MS :: num where "DEFAULT_INTERVAL_MS = 1000"

datatype BeaconScope = Instance | ByNameScope

definition capSpan :: "int \<times> int \<Rightarrow> int \<Rightarrow> (int \<times> int) \<times> bool" where
  "capSpan r maxMs = (case r of (from, to) \<Rightarrow>
     if to - from > maxMs then ((to - maxMs, to), True) else ((from, to), False))"

definition lifetimeRange :: "int \<Rightarrow> int \<Rightarrow> int option \<Rightarrow> int \<Rightarrow> int \<times> int" where
  "lifetimeRange first_seen last_seen ended now =
     (let en = max first_seen (case ended of Some e \<Rightarrow> e | None \<Rightarrow> last_seen);
          to = min now (en + 1000)
      in (min first_seen (to - 1000), to))"

definition TIME :: sql where
  "TIME = [T ''ts >= fromUnixTimestamp64Milli('', P ''from'' ''Int64'', T '') AND ts < fromUnixTimestamp64Milli('',
     P ''to'' ''Int64'', T '')'']"

datatype beacon_req =
    BeaconInstance (bq_pid: int) (bq_start: string) (bq_from: int) (bq_to: int) (bq_limit: int)
  | BeaconName (bq_name: string) (bq_from: int) (bq_to: int) (bq_limit: int)

definition beacon_outer :: string where
  "beacon_outer = DISPLAY_IP @ '' AS ip, rport, groupArray(t) AS ts_ms, groupArray(b) AS bytes, median(iv) AS interval_ms''"

definition beacon_tick :: string where
  "beacon_tick = ''toFloat64(toUnixTimestamp64Milli(ts)) AS t, toFloat64(sum(tx_bytes + rx_bytes)) AS b, max(interval_ms) AS iv''"

definition beaconsQuery :: "beacon_req \<Rightarrow> sql_query" where
  "beaconsQuery q = (case q of
       BeaconInstance pid start from to limit \<Rightarrow>
         ([T (''SELECT '' @ beacon_outer @ '', proto, app FROM ( SELECT raddr, rport, proto, app, '' @ beacon_tick
              @ '' FROM flows WHERE pid = ''), P ''pid'' ''UInt32'', T '' AND proc_start = '', P ''start'' ''UInt64'', T '' AND '']
            @ TIME @ [T ('' GROUP BY raddr, rport, proto, app, ts ) GROUP BY raddr, rport, proto, app ''
              @ ''ORDER BY length(ts_ms) DESC, ip, rport, proto, app LIMIT ''), P ''limit'' ''UInt32''],
          [(''pid'', PInt pid), (''start'', PStr start), (''from'', PInt from), (''to'', PInt to), (''limit'', PInt limit)])
     | BeaconName name from to limit \<Rightarrow>
         ([T (''SELECT '' @ beacon_outer @ '', topKWeighted(1)(tproto, toUInt64(b) + 1)[1] AS proto, ''
              @ ''topKWeighted(1)(tapp, toUInt64(b) + 1)[1] AS app FROM ( SELECT raddr, rport, ''
              @ ''argMax(proto, tx_bytes + rx_bytes) AS tproto, argMax(app, tx_bytes + rx_bytes) AS tapp, '' @ beacon_tick
              @ '' FROM flows WHERE name = ''), P ''name'' ''String'', T '' AND '']
            @ TIME @ [T ('' GROUP BY raddr, rport, ts ) GROUP BY raddr, rport ORDER BY length(ts_ms) DESC, ip, rport LIMIT ''),
              P ''limit'' ''UInt32''],
          [(''name'', PStr name), (''from'', PInt from), (''to'', PInt to), (''limit'', PInt limit)]))"

record BeaconRow =
  b_ip :: string
  b_rport :: nat
  b_proto :: string
  b_app :: string
  b_ts_ms :: "cell list"
  b_bytes :: "cell list"
  b_interval_ms :: cell

definition destText :: "string \<Rightarrow> nat \<Rightarrow> string" where
  "destText ip port = (if CHR '':'' \<in> set ip then ''['' @ ip @ '']:'' @ string_of_nat port else ip @ '':'' @ string_of_nat port)"

text \<open>A dot: its time, bytes and gap. The three parallel arrays of the source are one list here.\<close>

type_synonym dot = "num \<times> num \<times> num option"

definition bin_of :: "int \<Rightarrow> int \<Rightarrow> num \<Rightarrow> int" where
  "bin_of from binMs t = Math_floor (fdiv (fsub t (of_int from)) (of_int binMs))"

fun bin_dots :: "int \<Rightarrow> int \<Rightarrow> int option \<Rightarrow> dot list \<Rightarrow> dot list \<Rightarrow> dot list" where
  "bin_dots from binMs bin [] out = out"
| "bin_dots from binMs bin ((t, b, g) # ds) out =
     (let k = bin_of from binMs t in
      if Some k = bin then bin_dots from binMs bin ds
        (butlast out @ [(case last out of (t', b', g') \<Rightarrow> (t', fadd b' b, g'))])
      else bin_dots from binMs (Some k) ds (out @ [(t, b, g)]))"

definition binDots :: "dot list \<Rightarrow> int \<Rightarrow> int \<Rightarrow> dot list" where
  "binDots ds from binMs = bin_dots from binMs None ds []"

record BeaconDest =
  bd_dest :: string
  bd_ip :: string
  bd_rport :: nat
  bd_geo :: "Geo option"
  bd_proto :: string
  bd_app :: string
  bd_ticks :: nat
  bd_bytes :: num
  bd_interval_ms :: num
  bd_stats :: Periodicity
  bd_dots :: "dot list"
  bd_binned_ms :: "int option"

text \<open>The loop that sums ticks of equal times.\<close>

fun merge_ticks :: "(num \<times> num) list \<Rightarrow> (num \<times> num) list \<Rightarrow> (num \<times> num) list" where
  "merge_ticks [] out = out"
| "merge_ticks ((t, b) # ps) out =
     (if out \<noteq> [] \<and> fst (last out) = t then merge_ticks ps (butlast out @ [(t, fadd (snd (last out)) b)])
      else merge_ticks ps (out @ [(t, b)]))"

definition bin_width :: "int \<times> int \<Rightarrow> nat \<Rightarrow> int" where
  "bin_width r maxDots = (case r of (from, to) \<Rightarrow>
     Math_ceil (fdiv (fdiv (of_int (to - from)) (of_nat maxDots)) 1000) * 1000)"

definition toBeaconDest :: "(num \<Rightarrow> num) \<Rightarrow> int \<times> int \<Rightarrow> nat \<Rightarrow> BeaconRow \<Rightarrow> BeaconDest" where
  "toBeaconDest msqrt r maxDots row =
     (let bytes_at = (\<lambda>i. if i < length (b_bytes row) then Number_cell (b_bytes row ! i) else 0);
          pairs = sort_by (asc_by fst) (map (\<lambda>i. (Number_cell (b_ts_ms row ! i), bytes_at i)) [0..<length (b_ts_ms row)]);
          tb = merge_ticks pairs [];
          tks = map fst tb;
          n = Number_cell (b_interval_ms row);
          interval = (if n = 0 then DEFAULT_INTERVAL_MS else n);
          dots = zip tks (zip (map snd tb) (burstGaps tks interval));
          binned = (if length tks > maxDots then Some (bin_width r maxDots) else None)
      in \<lparr> bd_dest = destText (b_ip row) (b_rport row), bd_ip = b_ip row, bd_rport = b_rport row, bd_geo = None,
           bd_proto = b_proto row, bd_app = b_app row, bd_ticks = length tks, bd_bytes = fsum (map snd tb),
           bd_interval_ms = interval, bd_stats = periodicity msqrt tks interval,
           bd_dots = (case binned of None \<Rightarrow> dots | Some w \<Rightarrow> binDots dots (fst r) w), bd_binned_ms = binned \<rparr>)"

definition dest_before :: "(string \<Rightarrow> string \<Rightarrow> int) \<Rightarrow> BeaconDest \<Rightarrow> BeaconDest \<Rightarrow> bool" where
  "dest_before lc = by_then (desc_by (\<lambda>d. score (bd_stats d))) (by_then (desc_by bd_ticks)
     (by_then (collate lc bd_dest) (by_then (collate lc bd_app) (collate lc bd_proto))))"

record BeaconsResponse =
  br_from :: int
  br_to :: int
  br_scope :: BeaconScope
  br_dests :: "BeaconDest list"
  br_truncated :: bool
  br_capped :: bool

definition max_dots :: "nat \<Rightarrow> nat" where
  "max_dots n = nat (max BEACON_MIN_POINTS (Math_floor (fdiv (of_int BEACON_POINT_BUDGET) (of_nat (max 1 n)))))"

definition buildBeacons ::
  "(num \<Rightarrow> num) \<Rightarrow> (string \<Rightarrow> string \<Rightarrow> int) \<Rightarrow> BeaconRow list \<Rightarrow> int \<times> int \<Rightarrow> BeaconScope \<Rightarrow> bool \<Rightarrow> nat \<Rightarrow> BeaconsResponse" where
  "buildBeacons msqrt lc rows r scope capped limit =
     (let kept = take limit rows; md = max_dots (length kept)
      in \<lparr> br_from = fst r, br_to = snd r, br_scope = scope,
           br_dests = sort_by (dest_before lc) (map (toBeaconDest msqrt r md) kept),
           br_truncated = length rows > limit, br_capped = capped \<rparr>)"

section \<open>Even traffic is periodic\<close>

lemma fsub_int [simp]: "\<bar>a - b\<bar> \<le> 2 ^ 53 \<Longrightarrow> fsub (of_int a) (of_int b) = of_int (a - b)"
  using fl_of_int [of "a - b"] by (simp add: fsub_def)

lemma fadd_int: "\<bar>a + b\<bar> \<le> 2 ^ 53 \<Longrightarrow> fadd (of_int a) (of_int b) = of_int (a + b)"
  using fl_of_int [of "a + b"] by (simp add: fadd_def)

lemma fsum_replicate:
  "int n * \<bar>g\<bar> \<le> 2 ^ 53 \<Longrightarrow> fsum (replicate n (of_int g)) = of_int (int n * g)"
proof (induction n)
  case (Suc n)
  have "\<bar>int n * g + g\<bar> \<le> \<bar>int n * g\<bar> + \<bar>g\<bar>" by (rule abs_triangle_ineq)
  moreover have eq: "int (Suc n) * \<bar>g\<bar> = int n * \<bar>g\<bar> + \<bar>g\<bar>" "\<bar>int n * g\<bar> = int n * \<bar>g\<bar>"
    by (simp_all add: abs_mult distrib_right)
  ultimately have le: "\<bar>int n * g + g\<bar> \<le> 2 ^ 53" "int n * \<bar>g\<bar> \<le> 2 ^ 53"
    using Suc.prems abs_ge_zero [of g] unfolding eq by linarith+
  have "replicate (Suc n) (of_int g) = replicate n (of_int g :: rat) @ [of_int g]" by (simp add: replicate_append_same)
  then have "fsum (replicate (Suc n) (of_int g)) = fadd (fsum (replicate n (of_int g))) (of_int g)" by simp
  also have "\<dots> = of_int (int n * g + g)" unfolding Suc.IH [OF le(2)] by (rule fadd_int [OF le(1)])
  also have "int n * g + g = int (Suc n) * g" by (simp add: distrib_right)
  finally show ?case .
qed simp

lemma fsum_zeros: "set xs \<subseteq> {0} \<Longrightarrow> fsum xs = 0"
  by (induction xs rule: rev_induct) (simp_all add: fadd_def)

lemma median_replicate:
  assumes "0 < n" and "\<bar>g\<bar> \<le> 2 ^ 52"
  shows "median (replicate n (of_int g)) = of_int g"
proof -
  have "sort_by (asc_by (\<lambda>x. x)) (replicate n (of_int g :: rat)) = replicate n (of_int g)"
    by (rule comparator.sort_by_id [OF comparator_asc_by]) (induction n, auto simp: asc_by_def)
  moreover have "fadd (of_int g) (of_int g) = of_int (2 * g)"
    using fl_of_int [of "2 * g"] assms(2) by (simp add: fadd_def)
  moreover have "fdiv (of_int (2 * g)) 2 = of_int g" using fl_of_int [of g] assms(2) by (simp add: fdiv_def)
  moreover have "n div 2 < n" "n div 2 - 1 < n" using assms(1) by auto
  ultimately show ?thesis by (simp add: median_def Let_def)
qed

definition even_ticks :: "int \<Rightarrow> int \<Rightarrow> nat \<Rightarrow> num list" where
  "even_ticks t0 p n = map (\<lambda>i. of_int (t0 + int i * p)) [0..<n]"

lemma length_even_ticks [simp]: "length (even_ticks t0 p n) = n"
  by (simp add: even_ticks_def)

lemma even_ticks_gap:
  assumes "Suc i < n" and "\<bar>p\<bar> \<le> 2 ^ 53"
  shows "fsub (even_ticks t0 p n ! Suc i) (even_ticks t0 p n ! i) = of_int p"
proof -
  have nth: "even_ticks t0 p n ! j = of_int (t0 + int j * p)" if "j < n" for j
    using that unfolding even_ticks_def by (subst nth_map) auto
  have d: "t0 + int (Suc i) * p - (t0 + int i * p) = p" by (simp add: distrib_right)
  have "fsub (of_int (t0 + int (Suc i) * p)) (of_int (t0 + int i * p)) = of_int p"
    using fsub_int [of "t0 + int (Suc i) * p" "t0 + int i * p"] assms(2) unfolding d by blast
  then show ?thesis using nth [of i] nth [of "Suc i"] assms(1) by simp
qed

lemma burstStarts_even:
  assumes "\<not> continues (of_int p) iv" and "\<bar>p\<bar> \<le> 2 ^ 53"
  shows "burstStarts (even_ticks t0 p n) iv = [0..<n]"
proof -
  have "i = 0 \<or> \<not> continues (fsub (even_ticks t0 p n ! i) (even_ticks t0 p n ! (i - 1))) iv" if "i < n" for i
    using that assms even_ticks_gap [of "i - 1" n p t0] by (cases i) auto
  then show ?thesis by (auto simp: burstStarts_def intro!: filter_True)
qed

lemma even_gaps:
  assumes "\<bar>p\<bar> \<le> 2 ^ 53"
  shows "map2 (\<lambda>t s. fsub t s) (tl (even_ticks t0 p n)) (even_ticks t0 p n) = replicate (n - 1) (of_int p)"
  using assms by (intro nth_equalityI) (auto simp: nth_tl even_ticks_gap)

text \<open>Mean and variance of equal gaps.\<close>

lemma even_mean:
  assumes "m \<noteq> 0" and "0 < p" and "int m * p \<le> 2 ^ 53"
  shows "fdiv (fsum (replicate m (of_int p))) (of_nat m) = of_int p"
proof -
  have "1 * p \<le> int m * p" using assms(1,2) by (intro mult_right_mono) auto
  then have p: "p \<le> 2 ^ 53" using assms(3) by simp
  have "fsum (replicate m (of_int p)) = of_int (int m * p)"
    using assms(2,3) by (intro fsum_replicate) (simp only: abs_of_pos)
  moreover have "fdiv (of_int (int m * p)) (of_nat m) = of_int p"
    using assms(1,2) fl_of_int [of p] p by (simp add: fdiv_def)
  ultimately show ?thesis by simp
qed

lemma even_variance:
  "fsum (map (\<lambda>g. fmul (fsub g (of_int p)) (fsub g (of_int p))) (replicate m (of_int p))) = 0"
  by (intro fsum_zeros) (auto simp: fsub_def)

lemma periodicity_even_ticks:
  assumes "3 \<le> n" and "\<not> continues (of_int p) iv" and "0 < p" "int n * p \<le> 2 ^ 49" and "msqrt 0 = 0"
  shows "periodicity msqrt (even_ticks t0 p n) iv =
    \<lparr> period_s = Some (fdiv (of_int p) 1000), cv = Some 0, bursts = n, score = (if n \<ge> MIN_BURSTS then 1 else 0) \<rparr>"
proof -
  have "1 * p \<le> int n * p" using assms(1,3) by (intro mult_right_mono) auto
  then have p: "p \<le> 2 ^ 49" using assms(4) by simp
  define m where "m = n - 1"
  have m: "2 \<le> m" "m \<noteq> 0" using assms(1) by (auto simp: m_def)
  have mp: "int m * p \<le> int n * p" using assms(3) by (intro mult_right_mono) (auto simp: m_def)
  have starts: "map (\<lambda>i. even_ticks t0 p n ! i) (burstStarts (even_ticks t0 p n) iv) = even_ticks t0 p n"
    using burstStarts_even [OF assms(2)] p assms(3) by (simp add: map_nth [of "even_ticks t0 p n", simplified])
  have gaps: "map2 (\<lambda>t s. fsub t s) (tl (even_ticks t0 p n)) (even_ticks t0 p n) = replicate m (of_int p)"
    using even_gaps p assms(3) by (simp add: m_def)
  have len: "length (even_ticks t0 p n) = n" by (simp add: even_ticks_def)
  have med: "median (replicate m (of_int p)) = of_int p" using m p assms(3) by (intro median_replicate) auto
  have mean: "fdiv (fsum (replicate m (of_int p))) (of_nat m) = of_int p"
  proof (rule even_mean [OF m(2) assms(3)])
    show "int m * p \<le> 2 ^ 53" by (rule order.trans [OF order.trans [OF mp assms(4)]]) simp
  qed
  note var = even_variance [of p m]
  have "round_dec 1000 (fdiv (of_int p) (of_int 1000)) = fdiv (of_int p) (of_int 1000)"
    using p assms(3) by (intro round_dec_unit) auto
  then have per: "round_dec 1000 (fdiv (of_int p) 1000) = fdiv (of_int p) 1000" by simp
  have one: "round_dec 10000 (fsub 1 0) = 1" "0 < MAX_CV" by code_simp+
  show ?thesis
    using m assms(5) unfolding periodicity_def Let_def starts gaps length_replicate len med mean var per
    by (simp add: one)
qed

text \<open>
  Perfectly even traffic is recognised: for at least three ticks exactly \<open>p\<close> milliseconds apart,
  further apart than consecutive ticks of the collector, the period is \<open>p\<close> in seconds, the
  variation is 0, every tick is a burst, and the score is 1 from six bursts on and 0 below. All
  sums, the median and the rounding are those of floating-point arithmetic.
\<close>

theorem periodicity_even:
  assumes "3 \<le> n" and "\<not> continues (of_int p) iv" and "0 < p" "int n * p \<le> 2 ^ 49" and "msqrt 0 = 0"
  shows "periodicity msqrt (even_ticks t0 p n) iv =
    \<lparr> period_s = Some (fdiv (of_int p) 1000), cv = Some 0, bursts = n, score = (if n \<ge> MIN_BURSTS then 1 else 0) \<rparr>"
  using assms by (rule periodicity_even_ticks)

theorem periodicity_even_witness:
  "periodicity (\<lambda>x. x) (even_ticks 1700000000000 30000 10) 1000
     = \<lparr> period_s = Some 30, cv = Some 0, bursts = 10, score = 1 \<rparr>"
proof -
  have "\<not> continues (of_int 30000) 1000" "fdiv 30000 1000 = 30" by code_simp+
  then show ?thesis
    using periodicity_even [of 10 30000 1000 "\<lambda>x. x" 1700000000000] by (simp add: MIN_BURSTS_def)
qed

lemma periodicity_scoreE:
  assumes "score (periodicity msqrt tks iv) \<noteq> 0"
  obtains c where "cv (periodicity msqrt tks iv) = Some c" "c < MAX_CV"
    "bursts (periodicity msqrt tks iv) \<ge> MIN_BURSTS" "score (periodicity msqrt tks iv) = round_dec 10000 (fsub 1 c)"
  using assms unfolding periodicity_def Let_def by (auto split: if_splits simp del: zip_map1 zip_map2)

text \<open>
  The score is a score: for any ticks and any square root that is not negative, a positive score
  needs at least six bursts and a variation below 0.15, and then lies between the number 0.85 and 1; every
  other score is 0.
\<close>

theorem periodicity_score:
  fixes msqrt tks iv
  defines "p \<equiv> periodicity msqrt tks iv"
  assumes "score p \<noteq> 0" and "\<forall>c. cv p = Some c \<longrightarrow> 0 \<le> c"
  shows "bursts p \<ge> MIN_BURSTS \<and> fl (85 / 100) \<le> score p \<and> score p \<le> 1 \<and> (\<exists>c. cv p = Some c \<and> c < MAX_CV)"
proof -
  obtain c where c: "cv p = Some c" "c < MAX_CV" "bursts p \<ge> MIN_BURSTS" "score p = round_dec 10000 (fsub 1 c)"
    using assms(2) unfolding p_def by (rule periodicity_scoreE)
  have "0 \<le> c" using assms(3) c(1) by blast
  then have "fsub 1 c \<le> fsub 1 0" unfolding fsub_def by (intro dbl.mono) simp
  then have "round_dec 10000 (fsub 1 c) \<le> round_dec 10000 (fsub 1 0)" by (intro round_dec_mono) auto
  also have "\<dots> = 1" by code_simp
  finally have up: "score p \<le> 1" using c(4) by simp
  have "fsub 1 MAX_CV \<le> fsub 1 c" unfolding fsub_def using c(2) by (intro dbl.mono) simp
  then have "round_dec 10000 (fsub 1 MAX_CV) \<le> round_dec 10000 (fsub 1 c)" by (intro round_dec_mono) auto
  moreover have "fl (85 / 100) \<le> round_dec 10000 (fsub 1 MAX_CV)" by code_simp
  ultimately have "fl (85 / 100) \<le> score p" using c(4) by linarith
  with up c show ?thesis by blast
qed

theorem periodicity_score_witness:
  "fl (85 / 100) \<le> score (periodicity (\<lambda>x. x) (even_ticks 0 30000 6) 1000)"
proof -
  let ?p = "periodicity (\<lambda>x. x) (even_ticks 0 30000 6) 1000"
  have "\<not> continues (of_int 30000) 1000" by code_simp
  then have p: "?p = \<lparr> period_s = Some (fdiv 30000 1000), cv = Some 0, bursts = 6, score = 1 \<rparr>"
    using periodicity_even_ticks [of 6 30000 1000 "\<lambda>x. x" 0] by (simp add: MIN_BURSTS_def)
  show ?thesis using periodicity_score [of "\<lambda>x. x" "even_ticks 0 30000 6" 1000] unfolding p by simp
qed

section \<open>The dot budget\<close>

lemma bin_dots_length:
  assumes "sorted (map (\<lambda>d. bin_of lo w (fst d)) ds)"
    and "\<forall>k. bin = Some k \<longrightarrow> out \<noteq> [] \<and> (\<forall>d \<in> set ds. k \<le> bin_of lo w (fst d))"
  shows "length (bin_dots lo w bin ds out) \<le> length out + card ((\<lambda>d. bin_of lo w (fst d)) ` set ds - set_option bin)"
  using assms
proof (induction lo w bin ds out rule: bin_dots.induct)
  case (2 lo w bin t b g ds out)
  let ?k = "bin_of lo w t" and ?K = "(\<lambda>d. bin_of lo w (fst d)) ` set ds"
  show ?case
  proof (cases "Some ?k = bin")
    case True
    then show ?thesis using "2.IH"(1) [OF refl True] "2.prems" by (cases out) (auto split: prod.splits)
  next
    case False
    then have "bin \<notin> Some ` insert ?k ?K" using "2.prems" by fastforce
    then have "insert ?k ?K - set_option bin = insert ?k ?K" by (cases bin) auto
    moreover have "card (insert ?k ?K) = Suc (card (?K - {?k}))" by (simp add: card.insert_remove)
    moreover have "length (bin_dots lo w (Some ?k) ds (out @ [(t, b, g)])) \<le> length (out @ [(t, b, g)]) + card (?K - {?k})"
      using "2.IH"(2) [OF refl False] "2.prems" by simp
    ultimately show ?thesis using False by simp
  qed
qed simp

lemma binDots_length:
  assumes "sorted (map fst ds)" and "0 < w" and "lo < to" "to - lo < 2 ^ 53" "to - lo \<le> int n * w"
    and "\<forall>d \<in> set ds. \<exists>t. fst d = of_int t \<and> lo \<le> t \<and> t < to"
  shows "length (binDots ds lo w) \<le> n"
proof -
  let ?k = "\<lambda>d. bin_of lo w (fst d)"
  have k: "?k d \<in> {0..<int n}" if "d \<in> set ds" for d
  proof -
    from assms(6) that obtain t where t: "fst d = of_int t" "lo \<le> t" "t < to" by blast
    have "fsub (fst d) (of_int lo) = of_int (t - lo)"
      unfolding t(1) using t assms(3,4) by (intro fsub_int) auto
    then have "?k d = (t - lo) div w"
      unfolding bin_of_def using floor_fdiv [of "t - lo" w] t assms(2,4) by simp
    moreover have "(t - lo) div w < int n"
    proof (rule ccontr)
      assume "\<not> ?thesis"
      then have "int n * w \<le> (t - lo) div w * w" using assms(2) by (intro mult_right_mono) auto
      also have "\<dots> \<le> t - lo" using assms(2) div_mult_mod_eq [of "t - lo" w] pos_mod_sign [of w "t - lo"] by linarith
      finally show False using t(3) assms(5) by linarith
    qed
    ultimately show ?thesis using t(2) assms(2) by (simp add: pos_imp_zdiv_nonneg_iff)
  qed
  have mono: "?k d \<le> ?k e" if "fst d \<le> fst e" for d e
    using that assms(2) unfolding bin_of_def fsub_def by (intro floor_mono fdiv_mono dbl.mono) auto
  have "sorted (map ?k ds)" 
    using assms(1) unfolding sorted_wrt_map by (rule sorted_wrt_mono_rel [rotated]) (rule mono)
  then have "length (binDots ds lo w) \<le> card (?k ` set ds)"
    unfolding binDots_def using bin_dots_length [of lo w ds None "[]"] by simp
  also have "\<dots> \<le> card {0..<int n}" using k by (intro card_mono) auto
  finally show ?thesis by simp
qed

lemma merge_ticks_sorted:
  assumes "sorted (map fst out)" "sorted (map fst ps)" "\<forall>x \<in> set out. \<forall>p \<in> set ps. fst x \<le> fst p"
  shows "sorted (map fst (merge_ticks ps out)) \<and> fst ` set (merge_ticks ps out) = fst ` set (out @ ps)"
  using assms
proof (induction ps out rule: merge_ticks.induct)
  case (2 t b ps out)
  show ?case
  proof (cases "out \<noteq> [] \<and> fst (last out) = t")
    case True
    then obtain o' b' where o: "out = o' @ [(t, b')]" by (metis append_butlast_last_id prod.collapse)
    show ?thesis using "2.IH"(1) [OF True] "2.prems" unfolding o by (auto simp: sorted_append)
  next
    case False
    then show ?thesis using "2.IH"(2) [OF False] "2.prems" by (auto simp: sorted_append)
  qed
qed simp

text \<open>
  The dot budget holds: however many ticks a destination has, its row is drawn with at most
  \<open>maxDots\<close> dots. Beyond the budget the ticks are binned, and the bin width, computed with two
  rounded divisions, is always wide enough. The ticks are whole milliseconds of the range.
\<close>

theorem toBeaconDest_dots:
  assumes "0 < maxDots" and "lo < to" "to - lo < 2 ^ 52"
    and "\<forall>c \<in> set (b_ts_ms row). \<exists>t. Number_cell c = of_int t \<and> lo \<le> t \<and> t < to"
  shows "length (bd_dots (toBeaconDest msqrt (lo, to) maxDots row)) \<le> maxDots"
proof -
  let ?bytes_at = "\<lambda>i. if i < length (b_bytes row) then Number_cell (b_bytes row ! i) else 0"
  define ps where "ps = sort_by (asc_by fst) (map (\<lambda>i. (Number_cell (b_ts_ms row ! i), ?bytes_at i)) [0..<length (b_ts_ms row)])"
  define tb where "tb = merge_ticks ps []"
  have "sorted_wrt (asc_by fst) ps" unfolding ps_def by (rule sort_by_sorted_wrt [OF comparator_asc_by])
  then have "sorted (map fst ps)" by (simp add: sorted_wrt_map asc_by_def [abs_def])
  then have tb: "sorted (map fst tb)" "fst ` set tb = fst ` set ps"
    using merge_ticks_sorted [of "[]" ps] by (auto simp: tb_def)
  have "\<forall>x \<in> fst ` set ps. \<exists>t. x = of_int t \<and> lo \<le> t \<and> t < to" using assms(4) by (auto simp: ps_def)
  then have tks: "\<forall>x \<in> fst ` set tb. \<exists>t. x = of_int t \<and> lo \<le> t \<and> t < to" by (simp add: tb(2))
  let ?dots = "\<lambda>iv. zip (map fst tb) (zip (map snd tb) (burstGaps (map fst tb) iv))"
  have gaps: "length (burst_gaps_from iv p q xs) = length xs" for iv p q xs
    by (induction xs arbitrary: p q) auto
  have fst_dots: "map fst (?dots iv) = map fst tb" for iv
    by (simp add: burstGaps_def gaps)
  define w where "w = bin_width (lo, to) maxDots"
  have w: "w = \<lceil>fdiv (fdiv (of_int (to - lo)) (of_int (int maxDots))) (of_int 1000)\<rceil> * 1000"
    by (simp add: w_def bin_width_def)
  have "to - lo \<le> int maxDots * 1000 * \<lceil>fdiv (fdiv (of_int (to - lo)) (of_int (int maxDots))) (of_int 1000)\<rceil>"
    using assms by (intro ceil_two_div) auto
  then have span: "to - lo \<le> int maxDots * w" by (simp add: w mult_ac)
  then have "0 < int maxDots * w" using assms(2) by linarith
  then have w0: "0 < w" by (simp add: zero_less_mult_iff)
  have "length (binDots (?dots iv) lo w) \<le> maxDots" for iv
  proof (rule binDots_length [OF _ w0 assms(2) _ span])
    show "\<forall>d \<in> set (?dots iv). \<exists>t. fst d = of_int t \<and> lo \<le> t \<and> t < to"
      using tks by (metis fst_dots imageI set_map)
  qed (use assms(3) in \<open>auto simp: fst_dots tb(1)\<close>)
  moreover have "length (?dots iv) = length tb" for iv by (simp add: burstGaps_def gaps)
  ultimately show ?thesis
    unfolding toBeaconDest_def Let_def ps_def [symmetric] tb_def [symmetric] w_def [symmetric] by simp
qed

theorem toBeaconDest_dots_witness:
  "length (bd_dots (toBeaconDest (\<lambda>x. x) (0, 60000) 2
     \<lparr> b_ip = ''10.0.0.1'', b_rport = 53, b_proto = ''udp'', b_app = ''dns'', b_ts_ms = [Plain 0, Plain 1000, Plain 59000],
       b_bytes = [Plain 5, Plain 6, Plain 7], b_interval_ms = Plain 1000 \<rparr>)) \<le> 2"
proof (rule toBeaconDest_dots)
  have "\<exists>t. Number_cell (Plain (of_int a)) = of_int t \<and> 0 \<le> t \<and> t < 60000" if "0 \<le> a" "a < 60000" for a :: int
    using that by (auto simp: Number_cell_def intro!: exI [of _ a])
  from this [of 0] this [of 1000] this [of 59000]
  show "\<forall>c \<in> set (b_ts_ms \<lparr> b_ip = ''10.0.0.1'', b_rport = 53, b_proto = ''udp'', b_app = ''dns'',
       b_ts_ms = [Plain 0, Plain 1000, Plain 59000], b_bytes = [Plain 5, Plain 6, Plain 7], b_interval_ms = Plain 1000 \<rparr>).
      \<exists>t. Number_cell c = of_int t \<and> 0 \<le> t \<and> t < 60000" by simp
qed simp_all

text \<open>
  The strip keeps what the query returned: the first \<open>limit\<close> rows, each once, as destinations
  ordered by score (then by ticks and names), and it says it is cut short exactly when the query
  returned more rows than that. \<open>localeCompare\<close> is only assumed to be a consistent total order.
\<close>

theorem buildBeacons_sorted:
  assumes "collator lc"
  shows "let d = br_dests (buildBeacons msqrt lc rows r scope capped limit) in
    sorted_wrt (\<lambda>x y. score (bd_stats x) > score (bd_stats y)
      \<or> score (bd_stats x) = score (bd_stats y) \<and> bd_ticks x \<ge> bd_ticks y) d
    \<and> mset d = mset (map (toBeaconDest msqrt r (max_dots (min limit (length rows)))) (take limit rows))
    \<and> (br_truncated (buildBeacons msqrt lc rows r scope capped limit) \<longleftrightarrow> length d < length rows)"
proof -
  have cmp: "comparator (dest_before lc)"
    unfolding dest_before_def by (intro comparator_by_then comparator_desc_by comparator_collate assms)
  have "sorted_wrt (\<lambda>x y. score (bd_stats x) > score (bd_stats y)
      \<or> score (bd_stats x) = score (bd_stats y) \<and> bd_ticks x \<ge> bd_ticks y) (sort_by (dest_before lc) xs)" for xs
    by (rule sorted_wrt_mono_rel [OF _ sort_by_sorted_wrt [OF cmp]])
      (auto simp: dest_before_def by_then_def desc_by_def)
  then show ?thesis by (auto simp: buildBeacons_def Let_def min.commute)
qed

theorem buildBeacons_sorted_witness:
  "br_truncated (buildBeacons (\<lambda>x. x) lc_codes
     [\<lparr> b_ip = ''10.0.0.1'', b_rport = 53, b_proto = ''udp'', b_app = ''dns'', b_ts_ms = [], b_bytes = [], b_interval_ms = Plain 0 \<rparr>]
     (0, 1000) Instance False 0)"
  using buildBeacons_sorted [OF collator_lc_codes, of "\<lambda>x. x"
     "[\<lparr> b_ip = ''10.0.0.1'', b_rport = 53, b_proto = ''udp'', b_app = ''dns'', b_ts_ms = [], b_bytes = [], b_interval_ms = Plain 0 \<rparr>]"
     "(0, 1000)" Instance False 0]
  by (simp add: Let_def buildBeacons_def)

end
