(* ===== verification/BytesPerCall.thy ===== *)
theory BytesPerCall
  imports Burst Sums Beacons
begin

text \<open>
  \<^verbatim>\<open>web/src/server/ch/bytesPerCall.ts\<close>: calls bucketed by the logarithm of their mean size, one histogram
  per application or program, the smaller ones folded. \<open>Math.log2\<close> and \<open>localeCompare\<close> are
  parameters. The instance parameters \<open>pid\<close> and \<open>start\<close> of a request are parsed here too.
\<close>

datatype BytesPerCallDir = BpcTx | BpcRx
datatype BytesPerCallBy = BpcApp | BpcName

definition BPC_BUCKETS :: nat where "BPC_BUCKETS = 21"
definition BPC_TOP :: nat where "BPC_TOP = 10"

definition DIR_COLS :: "BytesPerCallDir \<Rightarrow> string \<times> string" where
  "DIR_COLS d = (case d of BpcTx \<Rightarrow> (''tx_bytes'', ''tx_calls'') | BpcRx \<Rightarrow> (''rx_bytes'', ''rx_calls''))"

definition parseBpcDir :: "qval option \<Rightarrow> BytesPerCallDir result" where
  "parseBpcDir raw = pick_msg ''dir: expected tx or rx'' [(''tx'', BpcTx), (''rx'', BpcRx)] BpcTx raw"

definition parseBpcBy :: "qval option \<Rightarrow> BytesPerCallBy result" where
  "parseBpcBy raw = pick_msg ''by: expected app or name'' [(''app'', BpcApp), (''name'', BpcName)] BpcApp raw"

definition has_param :: "qval option \<Rightarrow> bool" where
  "has_param v \<longleftrightarrow> v \<noteq> None \<and> v \<noteq> Some (QStr [])"

text \<open>\<open>BigInt(s).toString()\<close> of a digit text is its value without leading zeros.\<close>

definition parseInstance :: "query \<Rightarrow> (int \<times> string) option result" where
  "parseInstance q =
     (let pid = q ''pid''; start = q ''start'' in
      if \<not> has_param pid \<and> \<not> has_param start then Inr None
      else if \<not> has_param pid \<or> \<not> has_param start then Inl (badRequest ''pid and start go together'')
      else (case pid of
          Some (QStr p) \<Rightarrow>
            if \<not> digits_between 1 10 p \<or> Number_dec p > 4294967295 then Inl (badRequest ''pid: expected a u32'')
            else (case start of
                Some (QStr s) \<Rightarrow>
                  if \<not> digits_between 1 20 s \<or> int (dec_val s) > 2 ^ 64 - 1 then Inl (badRequest ''start: expected a u64'')
                  else Inr (Some (\<lfloor>Number_dec p\<rfloor>, string_of_nat (dec_val s)))
              | _ \<Rightarrow> Inl (badRequest ''start: expected a u64''))
        | _ \<Rightarrow> Inl (badRequest ''pid: expected a u32'')))"

definition bucketOf :: "(num \<Rightarrow> num) \<Rightarrow> num \<Rightarrow> int" where
  "bucketOf mlog2 bytesPerCall = min (int BPC_BUCKETS - 1) (Math_floor (mlog2 (max bytesPerCall 1)))"

record bpc_req =
  bq_range :: Range
  bq_dir :: BytesPerCallDir
  bq_by :: BytesPerCallBy
  bq_filters :: Filters
  bq_instance :: "(int \<times> string) option"

definition by_col :: "BytesPerCallBy \<Rightarrow> string" where
  "by_col b = (case b of BpcApp \<Rightarrow> ''app'' | BpcName \<Rightarrow> ''name'')"

definition bytesPerCallQuery :: "bpc_req \<Rightarrow> sql_query" where
  "bytesPerCallQuery q =
     (let r = bq_range q; b = fst (DIR_COLS (bq_dir q)); c = snd (DIR_COLS (bq_dir q)); by = by_col (bq_by q);
          f = filterSql (bq_filters q); time = timeFilter r; inst = instance_sql (bq_instance q);
          wh = fst inst @ time @ fst f;
          src = (if r_table r = Flows
            then [T (''(SELECT '' @ by @ '' AS k, '' @ b @ '' AS b, '' @ c @ '' AS c FROM flows WHERE '')] @ wh @ [T '')'']
            else [T (''(SELECT '' @ by @ '' AS k, sum('' @ b @ '') AS b, sum('' @ c @ '') AS c FROM '')]
              @ flowSource Flows_1m time (fl_uid (bq_filters q) \<noteq> None) @ [T '' WHERE ''] @ wh
              @ [T '' GROUP BY k, minute, pid, proc_start, proto, app, raddr, rport)''])
      in ([T (''SELECT k, least(toUInt8(floor(log2(greatest(b / c, 1)))), '' @ string_of_nat (BPC_BUCKETS - 1)
             @ '') AS bucket, sum(c) AS calls, sum(b) AS bytes FROM '')] @ src
            @ [T '' WHERE c > 0 GROUP BY k, bucket ORDER BY k, bucket''],
          rangeParams r @ snd f @ snd inst))"

record BytesPerCallQueryRow =
  bp_k :: string
  bp_bucket :: cell
  bp_calls :: cell
  bp_bytes :: cell

record BytesPerCallRow =
  h_key :: "string option"
  h_calls :: "num list"
  h_bytes :: "num list"
  h_totalCalls :: num
  h_totalBytes :: num

definition emptyRow :: "string option \<Rightarrow> BytesPerCallRow" where
  "emptyRow key = \<lparr> h_key = key, h_calls = replicate BPC_BUCKETS 0, h_bytes = replicate BPC_BUCKETS 0,
     h_totalCalls = 0, h_totalBytes = 0 \<rparr>"

definition addInto :: "BytesPerCallRow \<Rightarrow> BytesPerCallRow \<Rightarrow> BytesPerCallRow" where
  "addInto into h = into\<lparr> h_calls := map (\<lambda>i. fadd (h_calls into ! i) (h_calls h ! i)) [0..<BPC_BUCKETS],
     h_bytes := map (\<lambda>i. fadd (h_bytes into ! i) (h_bytes h ! i)) [0..<BPC_BUCKETS],
     h_totalCalls := fadd (h_totalCalls into) (h_totalCalls h),
     h_totalBytes := fadd (h_totalBytes into) (h_totalBytes h) \<rparr>"

text \<open>The bucket of a row, an index only when it is a whole number; the database sends a \<open>UInt8\<close>.\<close>

definition bpc_bucket :: "BytesPerCallQueryRow \<Rightarrow> int" where
  "bpc_bucket row = \<lfloor>Number_cell (bp_bucket row)\<rfloor>"

definition bpc_in :: "BytesPerCallQueryRow \<Rightarrow> bool" where
  "bpc_in row \<longleftrightarrow> Number_cell (bp_bucket row) \<ge> 0 \<and> Number_cell (bp_bucket row) < of_nat BPC_BUCKETS"

definition add_bpc :: "BytesPerCallRow option \<Rightarrow> BytesPerCallQueryRow \<Rightarrow> BytesPerCallRow" where
  "add_bpc v row =
     (let h = (case v of Some h \<Rightarrow> h | None \<Rightarrow> emptyRow (Some (bp_k row)));
          i = nat (bpc_bucket row); calls = Number_cell (bp_calls row); bytes = Number_cell (bp_bytes row)
      in h\<lparr> h_calls := (h_calls h)[i := fadd (h_calls h ! i) calls], h_bytes := (h_bytes h)[i := fadd (h_bytes h ! i) bytes],
            h_totalCalls := fadd (h_totalCalls h) calls, h_totalBytes := fadd (h_totalBytes h) bytes \<rparr>)"

definition hist_before :: "(string \<Rightarrow> string \<Rightarrow> int) \<Rightarrow> BytesPerCallRow \<Rightarrow> BytesPerCallRow \<Rightarrow> bool" where
  "hist_before lc = by_then (desc_by h_totalCalls) (collate lc (\<lambda>h. case h_key h of Some k \<Rightarrow> k | None \<Rightarrow> ''null''))"

record BpcBase =
  bpr_from :: int
  bpr_to :: int
  bpr_table :: table
  bpr_dir :: BytesPerCallDir
  bpr_by :: BytesPerCallBy

record BytesPerCallResponse = BpcBase +
  bpr_total :: BytesPerCallRow
  bpr_rows :: "BytesPerCallRow list"
  bpr_folded :: nat

definition buildBytesPerCall ::
  "(string \<Rightarrow> string \<Rightarrow> int) \<Rightarrow> BytesPerCallQueryRow list \<Rightarrow> BpcBase \<Rightarrow> nat \<Rightarrow> BytesPerCallResponse" where
  "buildBytesPerCall lc rows base topn =
     (let byKey = accum bp_k add_bpc (filter bpc_in rows) [];
          all = sort_by (hist_before lc) (map snd byKey);
          total = foldl addInto (emptyRow (Some [])) all;
          kept = take topn all; rest = drop topn all
      in BpcBase.extend base \<lparr> bpr_total = total,
           bpr_rows = (if rest \<noteq> [] then kept @ [foldl addInto (emptyRow None) rest] else kept),
           bpr_folded = length rest \<rparr>)"

section \<open>No call and no byte is lost\<close>

abbreviation at_bucket :: "nat \<Rightarrow> BytesPerCallQueryRow list \<Rightarrow> BytesPerCallQueryRow list" where
  "at_bucket i rows \<equiv> filter (\<lambda>row. bpc_bucket row = int i) rows"

lemma bpc_in_bucket: "bpc_in row \<Longrightarrow> 0 \<le> bpc_bucket row \<and> nat (bpc_bucket row) < BPC_BUCKETS"
proof -
  assume "bpc_in row"
  then have "0 \<le> \<lfloor>Number_cell (bp_bucket row)\<rfloor>" "\<lfloor>Number_cell (bp_bucket row)\<rfloor> < int BPC_BUCKETS"
    by (auto simp: bpc_in_def floor_less_iff)
  then show ?thesis unfolding bpc_bucket_def by linarith
qed

lemma add_bpc_fold:
  assumes "gs \<noteq> []" and "\<forall>g \<in> set gs. bpc_in g \<and> bp_k g = k"
  shows "foldl (\<lambda>v g. Some (add_bpc v g)) None gs =
    Some \<lparr> h_key = Some k, h_calls = fill bpc_bucket (\<lambda>g. Number_cell (bp_calls g)) BPC_BUCKETS gs,
           h_bytes = fill bpc_bucket (\<lambda>g. Number_cell (bp_bytes g)) BPC_BUCKETS gs,
           h_totalCalls = fsum (map (\<lambda>g. Number_cell (bp_calls g)) gs),
           h_totalBytes = fsum (map (\<lambda>g. Number_cell (bp_bytes g)) gs) \<rparr>"
  using assms
proof (induction gs rule: rev_induct)
  case (snoc g gs)
  have i: "0 \<le> bpc_bucket g" "bpc_bucket g < int BPC_BUCKETS" using snoc.prems bpc_in_bucket [of g] by auto
  show ?case
  proof (cases "gs = []")
    case True
    with i snoc.prems show ?thesis by (simp add: add_bpc_def emptyRow_def Let_def fill_def fsum_def)
  next
    case False
    with snoc i show ?thesis by (simp add: add_bpc_def Let_def fill_snoc)
  qed
qed simp

lemma addInto_fold:
  assumes "length (h_calls h) = BPC_BUCKETS" "length (h_bytes h) = BPC_BUCKETS"
  shows "foldl addInto h hs = \<lparr> h_key = h_key h,
     h_calls = map (\<lambda>i. foldl fadd (h_calls h ! i) (map (\<lambda>g. h_calls g ! i) hs)) [0..<BPC_BUCKETS],
     h_bytes = map (\<lambda>i. foldl fadd (h_bytes h ! i) (map (\<lambda>g. h_bytes g ! i) hs)) [0..<BPC_BUCKETS],
     h_totalCalls = foldl fadd (h_totalCalls h) (map h_totalCalls hs),
     h_totalBytes = foldl fadd (h_totalBytes h) (map h_totalBytes hs) \<rparr>"
  using assms
proof (induction hs arbitrary: h)
  case Nil
  then show ?case
    using map_nth [of "h_calls h"] map_nth [of "h_bytes h"] by (simp del: map_nth)
next
  case (Cons g hs)
  have "length (h_calls (addInto h g)) = BPC_BUCKETS" "length (h_bytes (addInto h g)) = BPC_BUCKETS"
    by (simp_all add: addInto_def)
  from Cons.IH [OF this] show ?case by (simp add: addInto_def)
qed

lemma addInto_empty:
  "foldl addInto (emptyRow k) hs = \<lparr> h_key = k,
     h_calls = map (\<lambda>i. fsum (map (\<lambda>g. h_calls g ! i) hs)) [0..<BPC_BUCKETS],
     h_bytes = map (\<lambda>i. fsum (map (\<lambda>g. h_bytes g ! i) hs)) [0..<BPC_BUCKETS],
     h_totalCalls = fsum (map h_totalCalls hs), h_totalBytes = fsum (map h_totalBytes hs) \<rparr>"
  by (subst addInto_fold) (simp_all add: emptyRow_def fsum_def cong: map_cong)

definition hist_of :: "BytesPerCallQueryRow list \<Rightarrow> string \<Rightarrow> BytesPerCallRow" where
  "hist_of rows k = (let gs = filter (\<lambda>g. bp_k g = k) rows in
     \<lparr> h_key = Some k, h_calls = fill bpc_bucket (\<lambda>g. Number_cell (bp_calls g)) BPC_BUCKETS gs,
       h_bytes = fill bpc_bucket (\<lambda>g. Number_cell (bp_bytes g)) BPC_BUCKETS gs,
       h_totalCalls = fsum (map (\<lambda>g. Number_cell (bp_calls g)) gs),
       h_totalBytes = fsum (map (\<lambda>g. Number_cell (bp_bytes g)) gs) \<rparr>)"

lemma histograms:
  fixes rows
  defines "good \<equiv> filter bpc_in rows"
  defines "m \<equiv> accum bp_k add_bpc good []"
  shows "map snd m = map (hist_of good) (map fst m)"
proof -
  have "snd p = hist_of good (fst p)" if "p \<in> set m" for p
  proof -
    obtain k h where p: "p = (k, h)" by (cases p)
    let ?gs = "filter (\<lambda>g. bp_k g = k) good"
    from that have f: "foldl (\<lambda>v g. Some (add_bpc v g)) None ?gs = Some h"
      unfolding p m_def in_accum_iff by simp
    then have "?gs \<noteq> []" by auto
    from add_bpc_fold [OF this, of k] f show ?thesis by (simp add: p hist_of_def Let_def good_def)
  qed
  then show ?thesis by simp
qed

text \<open>
  One quantity of the histograms (the calls or bytes of a bucket, or a total): \<open>sel\<close> reads it, and it
  is the sum of \<open>w\<close> over the rows with \<open>pr\<close>. \<open>addInto\<close> adds it up without loss when the sum is exact.
\<close>

lemma quantity_conserved:
  fixes cn :: "BytesPerCallQueryRow \<Rightarrow> nat" and sel :: "BytesPerCallRow \<Rightarrow> num" and lc base topn
  assumes total: "\<And>k hs. sel (foldl addInto (emptyRow k) hs) = fsum (map sel hs)"
    and hist: "\<And>rs k. sel (hist_of rs k) = fsum (map w (filter pr (filter (\<lambda>g. bp_k g = k) rs)))"
    and w: "\<forall>row \<in> set rows. w row = of_nat (cn row)"
    and small: "(\<Sum>row \<leftarrow> filter bpc_in rows. cn row) \<le> 2 ^ 53"
  defines "out \<equiv> buildBytesPerCall lc rows base topn"
  shows "sel (bpr_total out) = of_nat (\<Sum>row \<leftarrow> filter pr (filter bpc_in rows). cn row)"
    "(\<Sum>h \<leftarrow> bpr_rows out. sel h) = sel (bpr_total out)"
    "h \<in> set (bpr_rows out) \<Longrightarrow> h_key h = Some k \<Longrightarrow>
      sel h = of_nat (\<Sum>row \<leftarrow> filter pr (filter (\<lambda>g. bp_k g = k) (filter bpc_in rows)). cn row)"
proof -
  define good where "good = filter bpc_in rows"
  define m where "m = accum bp_k add_bpc good []"
  define ks where "ks = map fst m"
  have ks: "distinct ks" "set ks = bp_k ` set good" by (simp_all add: ks_def m_def set_keys_accum)
  define all where "all = sort_by (hist_before lc) (map snd m)"
  have hs: "map snd m = map (hist_of good) ks" unfolding ks_def m_def good_def by (rule histograms)
  define C where "C k = (\<Sum>row \<leftarrow> filter pr (filter (\<lambda>g. bp_k g = k) good). cn row)" for k
  define g where "g h = C (the (h_key h))" for h :: BytesPerCallRow
  have part: "(\<Sum>h \<leftarrow> all. g h) = (\<Sum>row \<leftarrow> filter pr good. cn row)"
  proof -
    have "(\<Sum>h \<leftarrow> all. g h) = (\<Sum>k \<leftarrow> ks. g (hist_of good k))" by (simp add: all_def hs comp_def)
    also have "\<dots> = (\<Sum>k \<leftarrow> ks. \<Sum>row \<leftarrow> filter (\<lambda>g. bp_k g = k) (filter pr good). cn row)"
      by (simp add: g_def C_def hist_of_def Let_def conj_commute)
    also have "\<dots> = (\<Sum>row \<leftarrow> filter pr good. cn row)" using ks by (intro sum_by_key) auto
    finally show ?thesis .
  qed
  have le: "(\<Sum>row \<leftarrow> filter pr good. cn row) \<le> 2 ^ 53"
    using sum_list_filter_le [of cn pr good] small by (simp add: good_def)
  have val: "sel h = of_nat (g h)" if h: "h \<in> set all" for h
  proof -
    from h obtain k where k: "k \<in> set ks" "h = hist_of good k" by (auto simp: all_def hs)
    have "fsum (map w (filter pr (filter (\<lambda>g. bp_k g = k) good))) = of_nat (C k)"
      unfolding C_def
    proof (rule fsum_nats)
      have "(\<Sum>row \<leftarrow> filter (\<lambda>g. bp_k g = k) (filter pr good). cn row) \<le> 2 ^ 53"
        using order_trans [OF sum_list_filter_le le] .
      then show "(\<Sum>row \<leftarrow> filter pr (filter (\<lambda>g. bp_k g = k) good). cn row) \<le> 2 ^ 53" by (simp add: conj_commute)
    qed (use w in \<open>auto simp: good_def\<close>)
    then show ?thesis by (simp add: k(2) hist g_def) (simp add: hist_of_def Let_def)
  qed
  have part_sum: "fsum (map sel hs') = of_nat (\<Sum>h \<leftarrow> hs'. g h)"
    if "set hs' \<subseteq> set all" "(\<Sum>h \<leftarrow> hs'. g h) \<le> 2 ^ 53" for hs'
    using that val by (intro fsum_nats) auto
  have out: "bpr_total out = foldl addInto (emptyRow (Some [])) all"
    "bpr_rows out = (if drop topn all \<noteq> [] then take topn all @ [foldl addInto (emptyRow None) (drop topn all)] else take topn all)"
    by (simp_all add: out_def buildBytesPerCall_def Let_def all_def m_def good_def BpcBase.defs)
  have tot: "sel (bpr_total out) = of_nat (\<Sum>h \<leftarrow> all. g h)"
    using part_sum [of all] le part by (simp add: out(1) total)
  then show "sel (bpr_total out) = of_nat (\<Sum>row \<leftarrow> filter pr (filter bpc_in rows). cn row)"
    unfolding part good_def .
  have split: "(\<Sum>h \<leftarrow> take topn all. g h) + (\<Sum>h \<leftarrow> drop topn all. g h) = (\<Sum>h \<leftarrow> all. g h)" by (rule sum_list_take_drop)
  have kept: "(\<Sum>h \<leftarrow> take topn all. sel h) = of_nat (\<Sum>h \<leftarrow> take topn all. g h)"
    unfolding of_nat_sum_list by (intro arg_cong [of _ _ sum_list]) (auto simp: val dest: in_set_takeD)
  have "fsum (map sel (drop topn all)) = of_nat (\<Sum>h \<leftarrow> drop topn all. g h)"
    using split part le by (intro part_sum) (auto dest: in_set_dropD)
  then show "(\<Sum>h \<leftarrow> bpr_rows out. sel h) = sel (bpr_total out)"
    using kept unfolding tot out(2) split [symmetric] by (cases "length all \<le> topn") (simp_all add: total)
  assume h: "h \<in> set (bpr_rows out)" "h_key h = Some k"
  then have "h \<in> set all" by (auto simp: out(2) addInto_empty dest: in_set_takeD split: if_splits)
  from val [OF this] h(2)
  show "sel h = of_nat (\<Sum>row \<leftarrow> filter pr (filter (\<lambda>g. bp_k g = k) (filter bpc_in rows)). cn row)"
    by (simp add: g_def C_def good_def)
qed

lemma bpc_rows_ranked:
  fixes rows base topn
  assumes lc: "collator lc"
  defines "out \<equiv> buildBytesPerCall lc rows base topn"
  shows "sorted_wrt (\<lambda>g h. h_totalCalls h \<le> h_totalCalls g) (take topn (bpr_rows out))"
    "length (bpr_rows out) \<le> topn + (if bpr_folded out = 0 then 0 else 1)"
proof -
  define all where "all = sort_by (hist_before lc) (map snd (accum bp_k add_bpc (filter bpc_in rows) []))"
  have out: "bpr_folded out = length (drop topn all)"
    "bpr_rows out = (if drop topn all \<noteq> [] then take topn all @ [foldl addInto (emptyRow None) (drop topn all)] else take topn all)"
    by (simp_all add: out_def buildBytesPerCall_def Let_def all_def BpcBase.defs)
  have "sorted_wrt (\<lambda>g h. h_totalCalls h \<le> h_totalCalls g) all"
    unfolding all_def by (rule sorted_wrt_mono_rel [OF _ sort_by_sorted_wrt])
      (auto simp: hist_before_def by_then_def desc_by_def intro: comparator_by_then comparator_collate lc)
  then show "sorted_wrt (\<lambda>g h. h_totalCalls h \<le> h_totalCalls g) (take topn (bpr_rows out))"
    by (auto simp: out(2) sorted_wrt_take)
  show "length (bpr_rows out) \<le> topn + (if bpr_folded out = 0 then 0 else 1)" by (auto simp: out)
qed

lemma hist_of_bucket: "i < BPC_BUCKETS \<Longrightarrow>
    h_calls (hist_of rs k) ! i = fsum (map (\<lambda>g. Number_cell (bp_calls g)) (at_bucket i (filter (\<lambda>g. bp_k g = k) rs)))
    \<and> h_bytes (hist_of rs k) ! i = fsum (map (\<lambda>g. Number_cell (bp_bytes g)) (at_bucket i (filter (\<lambda>g. bp_k g = k) rs)))"
  by (simp add: hist_of_def Let_def nth_fill)


definition sample_bpc :: "string \<Rightarrow> BytesPerCallQueryRow" where
  "sample_bpc k = \<lparr> bp_k = k, bp_bucket = Plain 3, bp_calls = Quoted ''4'', bp_bytes = Quoted ''40'' \<rparr>"

definition sample_base :: BpcBase where
  "sample_base = \<lparr> bpr_from = 0, bpr_to = 3600000, bpr_table = Flows, bpr_dir = BpcTx, bpr_by = BpcApp \<rparr>"


definition bpc_shape :: "bpc_req \<Rightarrow> time_col \<times> table \<times> BytesPerCallDir \<times> BytesPerCallBy \<times> bool list \<times> bool" where
  "bpc_shape q = (r_col (bq_range q), r_table (bq_range q), bq_dir q, bq_by q, filter_shape (bq_filters q), bq_instance q \<noteq> None)"

interpretation bpc_query: param_query bytesPerCallQuery bpc_shape
proof
  fix q q' :: bpc_req
  assume "bpc_shape q = bpc_shape q'"
  then have c: "r_col (bq_range q) = r_col (bq_range q')" "r_table (bq_range q) = r_table (bq_range q')" "bq_dir q = bq_dir q'"
    "bq_by q = bq_by q'" "filter_shape (bq_filters q) = filter_shape (bq_filters q')"
    "(bq_instance q = None) = (bq_instance q' = None)" by (auto simp: bpc_shape_def)
  show "fst (bytesPerCallQuery q) = fst (bytesPerCallQuery q')"
    unfolding bytesPerCallQuery_def Let_def fst_conv timeFilter_cong [OF c(1)] c(2-4) filter_text [OF c(5)]
      filter_shape_uid [OF c(5)] instance_text [OF c(6)] ..
next
  fix q
  have src: "x = ''from'' \<or> x = ''to''" if "x \<in> placeholders (flowSource t (timeFilter r) u)" for x t r u
    using that flowSource_bound [of "timeFilter r" "{''from'', ''to''}" t u] by auto
  show "bound_in (snd (bytesPerCallQuery q)) (fst (bytesPerCallQuery q))"
    unfolding bytesPerCallQuery_def Let_def fst_conv snd_conv bound_in_def
    by (auto simp: filterSql_bound instance_bound image_Un dest!: src)
qed

text \<open>
  The instance of a request is checked: \<open>pid\<close> and \<open>start\<close> are given together or not at all, an
  accepted \<open>pid\<close> is a 32-bit and an accepted \<open>start\<close> a 64-bit unsigned number, in canonical
  decimal form; every refusal is a client error.
\<close>

theorem parseInstance_checked:
  "(\<forall>e. parseInstance q = Inl e \<longrightarrow> statusCode e = 400)
   \<and> (parseInstance q = Inr None \<longleftrightarrow> \<not> has_param (q ''pid'') \<and> \<not> has_param (q ''start''))
   \<and> (\<forall>pid start. parseInstance q = Inr (Some (pid, start)) \<longrightarrow>
        0 \<le> pid \<and> pid < 2 ^ 32 \<and> dec_val start < 2 ^ 64 \<and> start = string_of_nat (dec_val start))"
proof -
  have pid: "0 \<le> \<lfloor>Number_dec p\<rfloor> \<and> \<lfloor>Number_dec p\<rfloor> < 2 ^ 32" if "\<not> Number_dec p > 4294967295" for p
  proof -
    have "0 \<le> Number_dec p" by (simp add: Number_dec_def dbl.nonneg)
    then show ?thesis using that by (simp add: floor_less_iff)
  qed
  have "statusCode e = 400" if "parseInstance q = Inl e" for e
    using that by (auto simp: parseInstance_def Let_def badRequest_def split: if_splits option.splits qval.splits)
  moreover have "parseInstance q = Inr None \<longleftrightarrow> \<not> has_param (q ''pid'') \<and> \<not> has_param (q ''start'')"
    by (auto simp: parseInstance_def Let_def split: option.splits qval.splits)
  moreover have "0 \<le> pid \<and> pid < 2 ^ 32 \<and> dec_val start < 2 ^ 64 \<and> start = string_of_nat (dec_val start)"
    if ok: "parseInstance q = Inr (Some (pid, start))" for pid start
  proof -
    from ok obtain p s where "pid = \<lfloor>Number_dec p\<rfloor>" "\<not> Number_dec p > 4294967295"
      "start = string_of_nat (dec_val s)" "\<not> int (dec_val s) > 2 ^ 64 - 1"
      unfolding parseInstance_def Let_def by (auto split: if_splits option.splits qval.splits)
    then show ?thesis using pid [of p] by simp
  qed
  ultimately show ?thesis by blast
qed

theorem parseInstance_checked_witness:
  "parseInstance [''pid'' \<mapsto> QStr ''42'', ''start'' \<mapsto> QStr ''0099''] = Inr (Some (42, ''99''))
   \<and> ''99'' = string_of_nat (dec_val ''99'')"
proof -
  have "parseInstance [''pid'' \<mapsto> QStr ''42'', ''start'' \<mapsto> QStr ''0099''] = Inr (Some (42, ''99''))" by code_simp
  with parseInstance_checked [of "[''pid'' \<mapsto> QStr ''42'', ''start'' \<mapsto> QStr ''0099'']"] show ?thesis by blast
qed

end
