(* ===== verification/Heatmap.thy ===== *)
theory Heatmap
  imports BytesPerCall
begin

text \<open>
  \<^verbatim>\<open>web/src/server/ch/heatmap.ts\<close>: traffic by weekday and hour. The calendar of a time zone
  (\<open>Intl.DateTimeFormat\<close>) is a parameter: \<open>fmt t\<close> is the formatted text of an instant, \<open>parts t\<close>
  the list of its typed parts, and there is none for a name the runtime does not know: the
  constructor throws a \<open>RangeError\<close> for it, as \<open>format\<close> does for a number that is no time value of
  ECMAScript. The cache of formatters does not change an answer and is left out.
\<close>

definition HEATMAP_DEFAULT_SPAN :: int where "HEATMAP_DEFAULT_SPAN = 28 * 86400000"
definition HEATMAP_MAX_SPAN :: int where "HEATMAP_MAX_SPAN = 366 * 86400000"
definition HEATMAP_SPLIT_TOP :: nat where "HEATMAP_SPLIT_TOP = 4"
definition HEATMAP_CELLS :: nat where "HEATMAP_CELLS = 168"

datatype HeatmapMetric = HTotal | HTx | HRx
datatype HeatmapSplit = SplitNone | SplitApp

definition METRIC_SQL :: "HeatmapMetric \<Rightarrow> string" where
  "METRIC_SQL m = (case m of HTotal \<Rightarrow> ''tx_bytes + rx_bytes'' | HTx \<Rightarrow> ''tx_bytes'' | HRx \<Rightarrow> ''rx_bytes'')"

definition parseMetric :: "qval option \<Rightarrow> HeatmapMetric result" where
  "parseMetric raw = pick_msg ''metric: expected total, tx or rx'' [(''total'', HTotal), (''tx'', HTx), (''rx'', HRx)] HTotal raw"

definition parseSplit :: "qval option \<Rightarrow> HeatmapSplit result" where
  "parseSplit raw = pick_msg ''split: expected none or app'' [(''none'', SplitNone), (''app'', SplitApp)] SplitNone raw"

definition msParam :: "query \<Rightarrow> string \<Rightarrow> int option result" where
  "msParam q name = (case q name of
       None \<Rightarrow> Inr None
     | Some (QStr s) \<Rightarrow> if s = [] then Inr None
         else if all_digits s \<and> isSafeInteger (Number_dec s) then Inr (Some \<lfloor>Number_dec s\<rfloor>)
         else Inl (badRequest (name @ '': expected ms since epoch''))
     | Some (QArr _) \<Rightarrow> Inl (badRequest (name @ '': expected ms since epoch'')))"

definition parseHeatRange :: "query \<Rightarrow> int \<Rightarrow> (int \<times> int) result" where
  "parseHeatRange q now =
     bind_res (msParam q ''to'') (\<lambda>to'. let to = (case to' of Some t \<Rightarrow> t | None \<Rightarrow> now) in
     bind_res (msParam q ''from'') (\<lambda>from'. let from = (case from' of Some f \<Rightarrow> f | None \<Rightarrow> to - HEATMAP_DEFAULT_SPAN) in
     if from \<ge> to then Inl (badRequest ''from must be before to'')
     else if to - from > HEATMAP_MAX_SPAN then Inl (badRequest ''the heatmap range is at most 366 days'')
     else Inr (from, to)))"

definition HEAT_TIME :: sql where
  "HEAT_TIME = [T ''minute >= toStartOfMinute(fromUnixTimestamp64Milli('', P ''from'' ''Int64'',
     T '')) AND minute < fromUnixTimestamp64Milli('', P ''to'' ''Int64'', T '')'']"

record heat_req =
  ht_from :: int
  ht_to :: int
  ht_tz :: string
  ht_metric :: HeatmapMetric
  ht_split :: HeatmapSplit
  ht_filters :: Filters

definition heatmapQuery :: "heat_req \<Rightarrow> sql_query" where
  "heatmapQuery q =
     (let f = filterSql (ht_filters q); src = flowSource Flows_1m HEAT_TIME (fl_uid (ht_filters q) \<noteq> None);
          metric = METRIC_SQL (ht_metric q);
          spl = (if ht_split q = SplitApp
            then [T '' AND app IN (SELECT app FROM ''] @ src @ [T '' WHERE ''] @ HEAT_TIME @ fst f
              @ [T ('' GROUP BY app HAVING sum('' @ metric @ '') > 0 ORDER BY sum('' @ metric @ '') DESC, app LIMIT ''
                   @ string_of_nat HEATMAP_SPLIT_TOP @ '')'')]
            else [])
      in ([T (''SELECT '' @ (if ht_split q = SplitApp then ''app'' else quote []) @ '' AS key, toDayOfWeek(minute, 0, ''),
           P ''tz'' ''String'', T '') AS dow, toHour(minute, '', P ''tz'' ''String'', T ('') AS hour, sum('' @ metric
           @ '') AS bytes, uniqExact(toDate(minute, ''), P ''tz'' ''String'', T '')) AS days FROM ''] @ src @ [T '' WHERE '']
           @ HEAT_TIME @ fst f @ spl @ [T '' GROUP BY key, dow, hour''],
          [(''from'', PInt (ht_from q)), (''to'', PInt (ht_to q)), (''tz'', PStr (ht_tz q))] @ snd f))"

record HeatmapRow =
  hm_key :: string
  hm_dow :: int
  hm_hour :: int
  hm_bytes :: cell
  hm_days :: cell

section \<open>Samples\<close>

definition QUARTER :: int where "QUARTER = 15 * 60000"

definition DOW :: "(string \<times> int) list" where
  "DOW = [(''Mon'', 0), (''Tue'', 1), (''Wed'', 2), (''Thu'', 3), (''Fri'', 4), (''Sat'', 5), (''Sun'', 6)]"

fun read_parts :: "(string \<times> string) list \<Rightarrow> int \<times> int \<Rightarrow> int \<times> int" where
  "read_parts [] dh = dh"
| "read_parts ((ty, v) # ps) (dow, hour) =
     (if ty = ''weekday'' then read_parts ps (case map_of DOW v of Some d \<Rightarrow> d | None \<Rightarrow> -1, hour)
      else if ty = ''hour'' then read_parts ps (dow, if all_digits v then int (dec_val v) mod 24 else -1)
      else read_parts ps (dow, hour))"

definition count_cell :: "(string \<times> string) list \<Rightarrow> nat list \<Rightarrow> nat list" where
  "count_cell ps out = (case read_parts ps (-1, -1) of (dow, hour) \<Rightarrow>
     if dow \<ge> 0 \<and> hour \<ge> 0 then let c = nat (dow * 24 + hour) in out[c := Suc (out ! c)] else out)"

text \<open>An exception of the runtime, and the time values of ECMAScript: 10^8 days around the epoch.\<close>

datatype js_exception = RangeError

definition time_value :: "int \<Rightarrow> bool" where
  "time_value t \<longleftrightarrow> \<bar>t\<bar> \<le> 8640000000000000"

type_synonym formatter = "(int \<Rightarrow> string) \<times> (int \<Rightarrow> (string \<times> string) list)"

function sample_loop ::
  "(int \<Rightarrow> string) \<Rightarrow> (int \<Rightarrow> (string \<times> string) list) \<Rightarrow> int \<Rightarrow> int \<Rightarrow> string \<Rightarrow> nat list \<Rightarrow> js_exception + nat list" where
  "sample_loop fmt parts t to prev out =
     (if t < to then
        if \<not> time_value t then Inl RangeError
        else let key = fmt t in
        if key = prev then sample_loop fmt parts (t + QUARTER) to prev out
        else sample_loop fmt parts (t + QUARTER) to key (count_cell (parts t) out)
      else Inr out)"
  by pat_completeness auto
termination
  by (relation "measure (\<lambda>(fmt, parts, t, to, prev, out). nat (to - t))") (auto simp: QUARTER_def)

declare sample_loop.simps [simp del]

definition sampleCounts :: "formatter option \<Rightarrow> int \<Rightarrow> int \<Rightarrow> js_exception + nat list" where
  "sampleCounts zone from to = (case zone of
       None \<Rightarrow> Inl RangeError
     | Some (fmt, parts) \<Rightarrow> sample_loop fmt parts (floor_to from QUARTER) to [] (replicate HEATMAP_CELLS 0))"

section \<open>The grids\<close>

record heat_acc =
  ha_bytes :: "num list"
  ha_active :: "num list"

record HeatmapGrid =
  g_key :: "string option"
  g_bytes :: num
  g_kbps :: "num option list"
  g_active :: "num list"

definition heat_cell :: "HeatmapRow \<Rightarrow> int" where
  "heat_cell r = (hm_dow r - 1) * 24 + hm_hour r"

definition heat_in :: "HeatmapRow \<Rightarrow> bool" where
  "heat_in r = (heat_cell r \<ge> 0 \<and> heat_cell r < int HEATMAP_CELLS)"

definition add_heat :: "heat_acc option \<Rightarrow> HeatmapRow \<Rightarrow> heat_acc" where
  "add_heat v r =
     (let g = (case v of Some g \<Rightarrow> g | None \<Rightarrow> \<lparr> ha_bytes = replicate HEATMAP_CELLS 0, ha_active = replicate HEATMAP_CELLS 0 \<rparr>);
          i = nat (heat_cell r)
      in \<lparr> ha_bytes = (ha_bytes g)[i := fadd (ha_bytes g ! i) (Number_cell (hm_bytes r))],
           ha_active = (ha_active g)[i := fadd (ha_active g ! i) (Number_cell (hm_days r))] \<rparr>)"

definition cell_kbps :: "num \<Rightarrow> nat \<Rightarrow> num option" where
  "cell_kbps b s = (if s > 0 then Some (fdiv (fdiv (fdiv (fmul b 8) 1000) 3600) (of_nat s)) else None)"

definition grid_before :: "(string \<Rightarrow> string \<Rightarrow> int) \<Rightarrow> HeatmapGrid \<Rightarrow> HeatmapGrid \<Rightarrow> bool" where
  "grid_before lc = by_then (desc_by g_bytes) (collate lc (\<lambda>g. case g_key g of Some k \<Rightarrow> k | None \<Rightarrow> ''null''))"

record HeatBase =
  hb_from :: int
  hb_to :: int
  hb_tz :: string
  hb_metric :: HeatmapMetric
  hb_split :: HeatmapSplit
  hb_coveredFrom :: "int option"

record HeatmapResponse = HeatBase +
  hb_samples :: "nat list"
  hb_grids :: "HeatmapGrid list"

definition heat_grids :: "(string \<Rightarrow> string \<Rightarrow> int) \<Rightarrow> HeatmapRow list \<Rightarrow> HeatmapSplit \<Rightarrow> nat list \<Rightarrow> HeatmapGrid list" where
  "heat_grids lc rows splt samples =
     (let byKey = accum hm_key add_heat (filter heat_in rows) [] in
      sort_by (grid_before lc) (map (\<lambda>(key, g).
        \<lparr> g_key = (if splt = SplitApp then Some key else None), g_bytes = fsum (ha_bytes g),
          g_kbps = map (\<lambda>i. cell_kbps (ha_bytes g ! i) (if i < length samples then samples ! i else 0)) [0..<length (ha_bytes g)],
          g_active = ha_active g \<rparr>) byKey))"

definition buildHeatmap :: "(string \<Rightarrow> string \<Rightarrow> int) \<Rightarrow> HeatmapRow list \<Rightarrow> HeatBase \<Rightarrow> nat list \<Rightarrow> HeatmapResponse" where
  "buildHeatmap lc rows base samples =
     HeatBase.extend base \<lparr> hb_samples = samples, hb_grids = heat_grids lc rows (hb_split base) samples \<rparr>"

section \<open>Ranges and queries\<close>

text \<open>
  An accepted heatmap range is not empty and at most 366 days; a refusal is a client error.
\<close>

theorem parseHeatRange_sane:
  "(\<forall>e. parseHeatRange q now = Inl e \<longrightarrow> statusCode e = 400)
   \<and> (\<forall>from to. parseHeatRange q now = Inr (from, to) \<longrightarrow> from < to \<and> to - from \<le> HEATMAP_MAX_SPAN)"
proof -
  have ms: "statusCode e = 400" if "msParam q n = Inl e" for n e
    using that by (auto simp: msParam_def badRequest_def split: option.splits qval.splits if_splits)
  have "statusCode e = 400" if "parseHeatRange q now = Inl e" for e
    using that unfolding parseHeatRange_def Let_def bind_res_Inl_iff
    by (elim disjE exE conjE) (auto simp: badRequest_def dest: ms split: if_splits)
  moreover have "from < to \<and> to - from \<le> HEATMAP_MAX_SPAN" if "parseHeatRange q now = Inr (from, to)" for "from" to
    using that unfolding parseHeatRange_def Let_def bind_res_Inr_iff
    by (elim exE conjE) (simp split: if_splits)
  ultimately show ?thesis by blast
qed

theorem parseHeatRange_sane_witness:
  "parseHeatRange [''from'' \<mapsto> QStr ''1000'', ''to'' \<mapsto> QStr ''5000''] 0 = Inr (1000, 5000) \<and> 5000 - 1000 \<le> HEATMAP_MAX_SPAN"
proof -
  have "parseHeatRange [''from'' \<mapsto> QStr ''1000'', ''to'' \<mapsto> QStr ''5000''] 0 = Inr (1000, 5000)" by code_simp
  with parseHeatRange_sane [of "[''from'' \<mapsto> QStr ''1000'', ''to'' \<mapsto> QStr ''5000'']" 0] show ?thesis by blast
qed

definition heat_shape :: "heat_req \<Rightarrow> HeatmapMetric \<times> HeatmapSplit \<times> bool list" where
  "heat_shape q = (ht_metric q, ht_split q, filter_shape (ht_filters q))"

interpretation heat_query: param_query heatmapQuery heat_shape
proof
  fix q q' :: heat_req
  assume "heat_shape q = heat_shape q'"
  then have c: "ht_metric q = ht_metric q'" "ht_split q = ht_split q'" "filter_shape (ht_filters q) = filter_shape (ht_filters q')"
    by (auto simp: heat_shape_def)
  show "fst (heatmapQuery q) = fst (heatmapQuery q')"
    unfolding heatmapQuery_def Let_def fst_conv c(1,2) filter_text [OF c(3)] filter_shape_uid [OF c(3)] ..
next
  fix q
  have time: "placeholders HEAT_TIME = {''from'', ''to''}" by (auto simp: HEAT_TIME_def)
  have src: "x = ''from'' \<or> x = ''to''" if "x \<in> placeholders (flowSource t HEAT_TIME u)" for x t u
    using that placeholders_flowSource [of t HEAT_TIME u] time by auto
  show "bound_in (snd (heatmapQuery q)) (fst (heatmapQuery q))"
    unfolding heatmapQuery_def Let_def fst_conv snd_conv bound_in_def
    by (auto simp: filterSql_bound image_Un time dest!: src)
qed

section \<open>Every local hour counts once\<close>

definition cell_of :: "(int \<Rightarrow> int) \<Rightarrow> (int \<Rightarrow> int) \<Rightarrow> int \<Rightarrow> nat" where
  "cell_of dow hr h = nat (dow h * 24 + hr h)"

definition quarters :: "int \<Rightarrow> int \<Rightarrow> int set" where
  "quarters t to = {q. t \<le> q \<and> q < to \<and> QUARTER dvd q - t}"

lemma quarters_step: "t < to \<Longrightarrow> quarters t to = insert t (quarters (t + QUARTER) to)"
proof -
  assume "t < to"
  have "t + QUARTER \<le> q" if "t \<le> q" "q \<noteq> t" "QUARTER dvd q - t" for q
    using that zdvd_imp_le [of QUARTER "q - t"] by simp
  moreover have "QUARTER dvd q - (t + QUARTER) \<longleftrightarrow> QUARTER dvd q - t" for q
    using dvd_add_right_iff [of QUARTER "- QUARTER" "q - t"] by (simp add: algebra_simps)
  moreover have "0 < QUARTER" by (simp add: QUARTER_def)
  ultimately show ?thesis using \<open>t < to\<close> by (auto simp: quarters_def)
qed

lemma quarters_empty: "\<not> t < to \<Longrightarrow> quarters t to = {}"
  by (auto simp: quarters_def)

lemma finite_quarters [simp]: "finite (quarters t to)"
  by (rule finite_subset [of _ "{t..<to}"]) (auto simp: quarters_def)

text \<open>The sampled instants are time values when the ends of the range are; else the loop throws.\<close>

lemma floor_to_valid:
  assumes "- 8640000000000000 \<le> a"
  shows "- 8640000000000000 \<le> floor_to a QUARTER"
proof -
  have "- 9600000000 = (of_int (- 9600000000) :: rat)" by simp
  also have "\<dots> \<le> fdiv (of_int a) (of_int QUARTER)"
    unfolding fdiv_def using assms by (intro dbl.ge_int) (auto simp: QUARTER_def)
  finally have "- 9600000000 \<le> \<lfloor>fdiv (of_int a) (of_int QUARTER)\<rfloor>" by (simp add: le_floor_iff)
  then show ?thesis by (simp add: floor_to_def QUARTER_def)
qed

lemma sample_loop_throws:
  "sample_loop fmt parts t to prev out = Inl ex \<Longrightarrow> \<exists>q. t \<le> q \<and> q < to \<and> \<not> time_value q"
proof (induction fmt parts t to prev out rule: sample_loop.induct)
  case (1 fmt parts t to prev out)
  have q: "t \<le> t + QUARTER" by (simp add: QUARTER_def)
  from 1 show ?case
    by (subst (asm) (3) sample_loop.simps) (force simp: Let_def split: if_splits dest: order_trans [OF q])
qed

text \<open>\<^const>\<open>RangeError\<close> is thrown for an unknown zone and for an end beyond the time values only.\<close>

lemma sampleCounts_throws:
  assumes "sampleCounts zone a b = Inl ex"
  shows "zone = None \<or> a < - 8640000000000000 \<or> 8640000000000000 < b"
proof (cases zone)
  case (Some f)
  obtain fmt parts where "f = (fmt, parts)" by (cases f)
  with assms Some obtain q where "floor_to a QUARTER \<le> q" "q < b" "\<not> time_value q"
    by (auto simp: sampleCounts_def dest: sample_loop_throws)
  then show ?thesis using floor_to_valid [of a] unfolding time_value_def by linarith
qed simp

text \<open>
  What the sample count relies on of a calendar: \<open>L\<close> numbers the local hours (a later instant has
  no smaller number, an hour repeated by a clock change keeps its number), the text identifies the
  hour and is not empty, the parts give its weekday and hour of day, and local hours begin on
  quarters of an hour.
\<close>

locale calendar =
  fixes fmt :: "int \<Rightarrow> string" and parts :: "int \<Rightarrow> (string \<times> string) list"
    and L :: "int \<Rightarrow> int" and dow :: "int \<Rightarrow> int" and hr :: "int \<Rightarrow> int"
  assumes fmt_iff: "fmt s = fmt t \<longleftrightarrow> L s = L t" and fmt_ne: "fmt t \<noteq> []"
    and L_mono: "s \<le> t \<Longrightarrow> L s \<le> L t"
    and L_quarter: "L (t div QUARTER * QUARTER) = L t"
    and parts_read: "read_parts (parts t) (-1, -1) = (dow (L t), hr (L t))"
    and dow_range: "0 \<le> dow h \<and> dow h < 7" and hr_range: "0 \<le> hr h \<and> hr h < 24"
begin

lemma count_cell_nth:
  assumes "length out = HEATMAP_CELLS"
  shows "length (count_cell (parts t) out) = HEATMAP_CELLS"
    "count_cell (parts t) out ! c = out ! c + (if c = cell_of dow hr (L t) then 1 else 0)"
proof -
  note r = dow_range [of "L t"] hr_range [of "L t"]
  have "dow (L t) * 24 + hr (L t) < 168" using r by linarith
  then have "cell_of dow hr (L t) < HEATMAP_CELLS" by (simp add: cell_of_def HEATMAP_CELLS_def)
  then show "length (count_cell (parts t) out) = HEATMAP_CELLS"
    "count_cell (parts t) out ! c = out ! c + (if c = cell_of dow hr (L t) then 1 else 0)"
    using assms r by (auto simp: count_cell_def parts_read Let_def cell_of_def nth_list_update)
qed

lemma sample_loop_nth:
  assumes "length out = HEATMAP_CELLS" and "prev = [] \<and> E = {} \<or> (\<exists>p \<le> t. prev = fmt p \<and> E = {L p})"
    and valid: "\<forall>q \<in> quarters t to. time_value q"
  shows "\<exists>r. sample_loop fmt parts t to prev out = Inr r
    \<and> r ! c = out ! c + card {h \<in> L ` quarters t to - E. cell_of dow hr h = c}"
  using assms
proof (induction "nat (to - t)" arbitrary: t prev out E rule: less_induct)
  case less
  let ?S = "\<lambda>t E. {h \<in> L ` quarters t to - E. cell_of dow hr h = c}"
  show ?case
  proof (cases "t < to")
    case True
    then have lt: "nat (to - (t + QUARTER)) < nat (to - t)" and le: "t \<le> t + QUARTER" by (auto simp: QUARTER_def)
    note q = quarters_step [OF True]
    have tv: "time_value t" and tl: "\<forall>q \<in> quarters (t + QUARTER) to. time_value q" using less.prems(3) by (simp_all add: q)
    show ?thesis
    proof (cases "fmt t = prev")
      case same: True
      then have E: "E = {L t}" using less.prems(2) fmt_ne fmt_iff by auto
      have "\<exists>r. sample_loop fmt parts (t + QUARTER) to prev out = Inr r \<and> r ! c = out ! c + card (?S (t + QUARTER) E)"
        using less.hyps [OF lt less.prems(1) _ tl] same E le by blast
      moreover have "?S (t + QUARTER) E = ?S t E" by (auto simp: q E)
      ultimately show ?thesis using True same tv by (simp add: sample_loop.simps [of _ _ t] Let_def)
    next
      case False
      have below: "L t \<le> h" if "h \<in> L ` quarters (t + QUARTER) to" for h
        using that le by (auto simp: quarters_def intro!: L_mono)
      have "h \<notin> E" if "h = L t \<or> h \<in> L ` quarters (t + QUARTER) to" for h
      proof
        assume "h \<in> E"
        then obtain p where p: "p \<le> t" "prev = fmt p" "h = L p" using less.prems(2) by auto
        then have "L p < L t" using L_mono [of p t] False fmt_iff by fastforce
        then show False using that p(3) below [of h] by auto
      qed
      then have S: "?S t E = (if c = cell_of dow hr (L t) then {L t} else {}) \<union> ?S (t + QUARTER) {L t}"
        by (auto simp: q)
      have "card (?S t E) = (if c = cell_of dow hr (L t) then 1 else 0) + card (?S (t + QUARTER) {L t})"
        unfolding S by (subst card_Un_disjoint) auto
      moreover have "\<exists>r. sample_loop fmt parts (t + QUARTER) to (fmt t) (count_cell (parts t) out) = Inr r
          \<and> r ! c = count_cell (parts t) out ! c + card (?S (t + QUARTER) {L t})"
        using less.hyps [OF lt count_cell_nth(1) [OF less.prems(1)] _ tl] le by blast
      then obtain r where "sample_loop fmt parts (t + QUARTER) to (fmt t) (count_cell (parts t) out) = Inr r"
        "r ! c = count_cell (parts t) out ! c + card (?S (t + QUARTER) {L t})" by blast
      ultimately show ?thesis
        using True False tv count_cell_nth(2) [OF less.prems(1)] by (simp add: sample_loop.simps [of _ _ t] Let_def)
    qed
  next
    case False
    then show ?thesis by (simp add: sample_loop.simps [of _ _ t] quarters_empty)
  qed
qed

text \<open>The local hours of the sampled instants are those of the range.\<close>

lemma quarters_cover:
  assumes "a < b"
  shows "L ` quarters (a div QUARTER * QUARTER) b = L ` {a..<b}"
proof -
  let ?fl = "\<lambda>t. t div QUARTER * QUARTER"
  have Q: "0 < QUARTER" by (simp add: QUARTER_def)
  have fl: "?fl t \<le> t" "t < ?fl t + QUARTER" for t
    using div_mult_mod_eq [of t QUARTER] pos_mod_sign [OF Q, of t] pos_mod_bound [OF Q, of t] by linarith+
  show ?thesis
  proof (intro equalityI subsetI)
    fix h assume "h \<in> L ` quarters (?fl a) b"
    then obtain q where q: "h = L q" "?fl a \<le> q" "q < b" "QUARTER dvd q - ?fl a" by (auto simp: quarters_def)
    show "h \<in> L ` {a..<b}"
    proof (cases "a \<le> q")
      case False
      then have "q - ?fl a < QUARTER" using fl [of a] by linarith
      then have "q = ?fl a" using q(2,4) zdvd_imp_le [of QUARTER "q - ?fl a"] by fastforce
      then show ?thesis using q(1) L_quarter assms by auto
    qed (use q in auto)
  next
    fix h assume "h \<in> L ` {a..<b}"
    then obtain t where t: "h = L t" "a \<le> t" "t < b" by auto
    have "?fl a \<le> ?fl t" using t(2) Q by (intro mult_right_mono zdiv_mono1) auto
    moreover have "QUARTER dvd ?fl t - ?fl a" by (simp add: left_diff_distrib [symmetric])
    ultimately have "?fl t \<in> quarters (?fl a) b" using fl [of t] t(3) by (auto simp: quarters_def)
    then show "h \<in> L ` quarters (?fl a) b" using t(1) L_quarter [of t] by (metis imageI)
  qed
qed

lemma samples:
  assumes "a < b" "time_value a" "time_value b" and "c < HEATMAP_CELLS"
  shows "\<exists>r. sampleCounts (Some (fmt, parts)) a b = Inr r \<and> r ! c = card {h \<in> L ` {a..<b}. cell_of dow hr h = c}"
proof -
  have fl: "floor_to a QUARTER = a div QUARTER * QUARTER"
    using assms(2) by (intro floor_to_exact) (auto simp: QUARTER_def time_value_def)
  moreover have "time_value q" if "q \<in> quarters (a div QUARTER * QUARTER) b" for q
    using that floor_to_valid [of a] assms(2,3) unfolding quarters_def time_value_def fl by simp linarith
  ultimately show ?thesis
    using sample_loop_nth [of "replicate HEATMAP_CELLS 0" "[]" "{}" "a div QUARTER * QUARTER" b c] assms(4)
    by (simp add: sampleCounts_def quarters_cover [OF assms(1)])
qed

end

section \<open>The UTC calendar\<close>

definition WEEKDAYS :: "string list" where
  "WEEKDAYS = [''Mon'', ''Tue'', ''Wed'', ''Thu'', ''Fri'', ''Sat'', ''Sun'']"

definition utc_hour :: "int \<Rightarrow> int" where "utc_hour t = t div 3600000"

text \<open>The epoch was a Thursday.\<close>

definition utc_dow :: "int \<Rightarrow> int" where "utc_dow h = (h div 24 + 3) mod 7"

definition utc_fmt :: "int \<Rightarrow> string" where
  "utc_fmt t = (let h = utc_hour t in if h < 0 then ''-'' @ string_of_nat (nat (- h)) else string_of_nat (nat h))"

definition utc_parts :: "int \<Rightarrow> (string \<times> string) list" where
  "utc_parts t = [(''weekday'', WEEKDAYS ! nat (utc_dow (utc_hour t))), (''literal'', '', ''),
     (''hour'', string_of_nat (nat (utc_hour t mod 24)))]"

lemma string_of_nat_inj: "string_of_nat m = string_of_nat n \<longleftrightarrow> m = n"
  by (metis dec_val_string_of_nat)

interpretation utc: calendar utc_fmt utc_parts utc_hour utc_dow "\<lambda>h. h mod 24"
proof
  have digit: "string_of_nat m \<noteq> CHR ''-'' # s" for m s
    using string_of_nat_digits [of m] by (auto simp: list_all_iff)
  fix s t :: int
  show "utc_fmt s = utc_fmt t \<longleftrightarrow> utc_hour s = utc_hour t"
    by (auto simp: utc_fmt_def Let_def string_of_nat_inj digit digit [symmetric] split: if_splits)
  show "utc_fmt t \<noteq> []" by (simp add: utc_fmt_def Let_def)
  show "utc_hour s \<le> utc_hour t" if "s \<le> t" using that by (simp add: utc_hour_def zdiv_mono1)
  show "utc_hour (t div QUARTER * QUARTER) = utc_hour t" by (simp add: utc_hour_def QUARTER_def)
  have "0 \<le> utc_dow (utc_hour t)" "utc_dow (utc_hour t) < 7" by (simp_all add: utc_dow_def)
  then have "utc_dow (utc_hour t) \<in> {0, 1, 2, 3, 4, 5, 6}" unfolding insert_iff by linarith
  then have "map_of DOW (WEEKDAYS ! nat (utc_dow (utc_hour t))) = Some (utc_dow (utc_hour t))"
    by (auto simp: WEEKDAYS_def DOW_def)
  then show "read_parts (utc_parts t) (-1, -1) = (utc_dow (utc_hour t), utc_hour t mod 24)"
    by (simp add: utc_parts_def all_digits_def string_of_nat_digits)
  show "0 \<le> utc_dow s \<and> utc_dow s < 7" "0 \<le> s mod 24 \<and> s mod 24 < 24" by (auto simp: utc_dow_def)
qed

text \<open>
  The divisors of the averages are right: for every calendar that numbers its local hours
  (whose offsets are multiples of a quarter hour, so that hours begin on quarters), the sample
  count of a cell is the number of local hours of that weekday and hour of day that overlap the
  range; an hour that a clock change repeats counts once, one that it skips not at all. UTC is
  such a calendar. The count returns for every range of time values.
\<close>

theorem sampleCounts_hours:
  assumes "calendar fmt parts L dow hr" and "from < to" "time_value from" "time_value to" and "c < HEATMAP_CELLS"
  shows "\<exists>r. sampleCounts (Some (fmt, parts)) from to = Inr r
    \<and> r ! c = card {h \<in> L ` {from..<to}. cell_of dow hr h = c}"
  using assms by (rule calendar.samples)

theorem sampleCounts_hours_witness:
  "\<exists>r. sampleCounts (Some (utc_fmt, utc_parts)) 0 3600000 = Inr r \<and> r ! 72 = 1"
proof -
  have "utc_hour ` {0..<3600000} = {0}"
    by (auto simp: utc_hour_def intro!: image_eqI [of _ _ 0])
  moreover have "{h \<in> {0}. cell_of utc_dow (\<lambda>h. h mod 24) h = 72} = {0}" by (auto simp: cell_of_def utc_dow_def)
  ultimately show ?thesis
    using sampleCounts_hours [OF utc.calendar_axioms, of 0 3600000 72] by (simp add: HEATMAP_CELLS_def time_value_def)
qed

section \<open>The grids\<close>

lemma add_heat_fold:
  assumes "gs \<noteq> []" and "\<forall>g \<in> set gs. heat_in g"
  shows "foldl (\<lambda>v g. Some (add_heat v g)) None gs =
    Some \<lparr> ha_bytes = fill heat_cell (\<lambda>g. Number_cell (hm_bytes g)) HEATMAP_CELLS gs,
           ha_active = fill heat_cell (\<lambda>g. Number_cell (hm_days g)) HEATMAP_CELLS gs \<rparr>"
  using assms
proof (induction gs rule: rev_induct)
  case (snoc g gs)
  have i: "0 \<le> heat_cell g" "heat_cell g < int HEATMAP_CELLS" using snoc.prems by (auto simp: heat_in_def)
  show ?case
  proof (cases "gs = []")
    case True
    with i show ?thesis by (simp add: add_heat_def Let_def fill_def)
  next
    case False
    with snoc i show ?thesis by (simp add: add_heat_def Let_def fill_snoc)
  qed
qed simp

text \<open>
  Every grid of the heatmap belongs to one key of the rows and has 168 cells: a cell is missing
  exactly where the range holds no sample of it, and otherwise is the average rate of the key's
  bytes of that weekday and hour. The grids come largest first.
\<close>

theorem buildHeatmap_cells:
  assumes "collator lc" and "length samples = HEATMAP_CELLS" and "hb_split base = SplitApp"
    and "g \<in> set (hb_grids (buildHeatmap lc rows base samples))"
  shows "sorted_wrt (\<lambda>a b. g_bytes b \<le> g_bytes a) (hb_grids (buildHeatmap lc rows base samples))
    \<and> (\<exists>k \<in> hm_key ` set rows. g_key g = Some k \<and> length (g_kbps g) = HEATMAP_CELLS
        \<and> (\<forall>c < HEATMAP_CELLS.
            let b = fsum (map (\<lambda>r. Number_cell (hm_bytes r)) (filter (\<lambda>r. hm_key r = k \<and> heat_cell r = int c) rows)) in
            (g_kbps g ! c = None \<longleftrightarrow> samples ! c = 0)
            \<and> (samples ! c > 0 \<longrightarrow> g_kbps g ! c = Some (fdiv (fdiv (fdiv (fmul b 8) 1000) 3600) (of_nat (samples ! c))))))"
proof -
  have "sorted_wrt (\<lambda>a b. g_bytes b \<le> g_bytes a) (sort_by (grid_before lc) gs)" for gs
    by (rule sorted_wrt_mono_rel [OF _ sort_by_sorted_wrt])
      (auto simp: grid_before_def by_then_def desc_by_def intro: comparator_by_then comparator_collate assms(1))
  then have srt: "sorted_wrt (\<lambda>a b. g_bytes b \<le> g_bytes a) (hb_grids (buildHeatmap lc rows base samples))"
    by (simp add: buildHeatmap_def HeatBase.defs heat_grids_def)
  from assms(4) obtain k a where ka: "(k, a) \<in> set (accum hm_key add_heat (filter heat_in rows) [])"
    "g_key g = Some k" "g_kbps g = map (\<lambda>i. cell_kbps (ha_bytes a ! i) (if i < length samples then samples ! i else 0)) [0..<length (ha_bytes a)]"
    by (auto simp: buildHeatmap_def HeatBase.defs heat_grids_def Let_def assms(3))
  let ?gs = "filter (\<lambda>r. hm_key r = k) (filter heat_in rows)"
  have f: "foldl (\<lambda>v g. Some (add_heat v g)) None ?gs = Some a" using ka(1) unfolding in_accum_iff by simp
  then have ne: "?gs \<noteq> []" by auto
  with f add_heat_fold [OF ne] have a: "ha_bytes a = fill heat_cell (\<lambda>g. Number_cell (hm_bytes g)) HEATMAP_CELLS ?gs" by auto
  have "k \<in> hm_key ` set rows" using ne by (auto simp: filter_empty_conv)
  moreover have "filter (\<lambda>r. heat_cell r = int c) ?gs = filter (\<lambda>r. hm_key r = k \<and> heat_cell r = int c) rows"
    if "c < HEATMAP_CELLS" for c
    using that by (auto simp: heat_in_def intro!: filter_cong)
  ultimately show ?thesis
    using srt assms(2) by (auto intro!: bexI [of _ k] simp: ka(2,3) a nth_fill cell_kbps_def Let_def)
qed

definition sample_heat :: HeatmapRow where
  "sample_heat = \<lparr> hm_key = ''HTTPS'', hm_dow = 1, hm_hour = 0, hm_bytes = Plain 450000, hm_days = Plain 1 \<rparr>"

definition sample_heat_base :: HeatBase where
  "sample_heat_base = \<lparr> hb_from = 0, hb_to = 604800000, hb_tz = ''UTC'', hb_metric = HTotal, hb_split = SplitApp, hb_coveredFrom = Some 0 \<rparr>"

theorem buildHeatmap_cells_witness:
  "\<exists>g. hb_grids (buildHeatmap lc_codes [sample_heat] sample_heat_base (replicate 168 1)) = [g]
     \<and> g_key g = Some ''HTTPS'' \<and> g_kbps g ! 0 \<noteq> None"
proof -
  let ?gs = "hb_grids (buildHeatmap lc_codes [sample_heat] sample_heat_base (replicate 168 1))"
  have "heat_in sample_heat" by code_simp
  then obtain g where g: "?gs = [g]"
    by (auto simp: buildHeatmap_def HeatBase.defs heat_grids_def Let_def map_set_def)
  then have "g \<in> set ?gs" by simp
  from buildHeatmap_cells [OF collator_lc_codes _ _ this] show ?thesis
    using g by (auto simp: HEATMAP_CELLS_def sample_heat_base_def sample_heat_def)
qed

end
