(* ===== verification/Processes.thy ===== *)
theory Processes
  imports Throughput
begin

text \<open>
  \<^verbatim>\<open>web/src/server/ch/lifecycle.ts\<close>, \<^verbatim>\<open>lifetimes.ts\<close> and \<^verbatim>\<open>scatter.ts\<close>: the queries over the process table
  for start and end markers, lifetimes and the scatter of bytes sent against bytes received, the
  parameters they read, and the conversion of their rows.
\<close>

section \<open>Start and end markers\<close>

definition LIFECYCLE_LIMIT_DEFAULT :: int where "LIFECYCLE_LIMIT_DEFAULT = 200"
definition LIFECYCLE_LIMIT_MAX :: int where "LIFECYCLE_LIMIT_MAX = 1000"
definition MAX_NAMES :: nat where "MAX_NAMES = 50"
definition MAX_NAME_LEN :: nat where "MAX_NAME_LEN = 256"

definition parseNames :: "qval option \<Rightarrow> string list option result" where
  "parseNames raw =
     (if raw = None \<or> raw = Some (QStr []) then Inr None
      else
        let parts = concat (map (split_char (CHR '','')) (case raw of Some (QArr vs) \<Rightarrow> vs | Some (QStr s) \<Rightarrow> [s] | None \<Rightarrow> []));
            names = new_Set (filter (\<lambda>n. n \<noteq> []) parts)
        in if length names > MAX_NAMES then Inl (badRequest (''names: at most '' @ string_of_nat MAX_NAMES @ '' names''))
           else if \<exists>n \<in> set names. length n > MAX_NAME_LEN
           then Inl (badRequest (''names: a name is longer than '' @ string_of_nat MAX_NAME_LEN @ '' chars''))
           else Inr (if names \<noteq> [] then Some names else None))"

record lifecycle_req =
  lq_from :: int
  lq_to :: int
  lq_limit :: int
  lq_names :: "string list option"
  lq_uid :: "int option"

text \<open>An optional condition with its parameter, appended to the fixed ones.\<close>

definition opt_cond :: "frag list \<Rightarrow> string \<Rightarrow> pval option \<Rightarrow> sql_query" where
  "opt_cond cond name v = (case v of None \<Rightarrow> ([], []) | Some x \<Rightarrow> (cond, [(name, x)]))"

definition NAMES_COND :: sql where "NAMES_COND = [T '' AND name IN '', P ''names'' ''Array(String)'']"
definition UID_COND :: sql where "UID_COND = [T '' AND uid = '', P ''uid'' ''UInt32'']"
definition NAME_COND :: sql where "NAME_COND = [T '' AND name = '', P ''name'' ''String'']"

definition from_ms :: "string \<Rightarrow> sql" where
  "from_ms p = [T ''fromUnixTimestamp64Milli('', P p ''Int64'', T '')'']"

definition lifecycleQuery :: "lifecycle_req \<Rightarrow> sql_query" where
  "lifecycleQuery q =
     (let n = opt_cond NAMES_COND ''names'' (map_option PStrs (lq_names q));
          u = opt_cond UID_COND ''uid'' (map_option PInt (lq_uid q))
      in ([T (''SELECT pid, toString(proc_start) AS start_ns, argMax(name, version) AS pname, ''
             @ ''leftUTF8(argMax(cmdline, version), 120) AS cmd, argMax(first_seen, version) AS fs, ''
             @ ''argMax(ended, version) AS en, toUnixTimestamp64Milli(fs) AS first_seen_ms, ''
             @ ''toUnixTimestamp64Milli(en) AS ended_ms, argMax(tx_total, version) + argMax(rx_total, version) AS bytes ''
             @ ''FROM processes WHERE first_seen < '')] @ from_ms ''to'' @ fst n @ fst u
            @ [T '' GROUP BY pid, proc_start HAVING (fs >= ''] @ from_ms ''from'' @ [T '' AND fs < ''] @ from_ms ''to''
            @ [T '') OR (en >= ''] @ from_ms ''from'' @ [T '' AND en < ''] @ from_ms ''to''
            @ [T '') ORDER BY bytes DESC, pid, proc_start LIMIT '', P ''limit'' ''UInt32''],
          [(''from'', PInt (lq_from q)), (''to'', PInt (lq_to q)), (''limit'', PInt (lq_limit q))] @ snd n @ snd u))"

record LifecycleRow =
  lr_pid :: nat
  lr_start_ns :: string
  lr_pname :: string
  lr_cmd :: string
  lr_first_seen_ms :: cell
  lr_ended_ms :: "cell option"
  lr_bytes :: cell

record LifecycleProc =
  lp_id :: string
  lp_pid :: nat
  lp_name :: string
  lp_cmdline :: string
  lp_firstSeenMs :: num
  lp_endedMs :: "num option"
  lp_bytes :: num

definition instance_id :: "nat \<Rightarrow> string \<Rightarrow> string" where
  "instance_id pid start = string_of_nat pid @ '':'' @ start"

definition toLifecycleProc :: "LifecycleRow \<Rightarrow> LifecycleProc" where
  "toLifecycleProc r = \<lparr> lp_id = instance_id (lr_pid r) (lr_start_ns r), lp_pid = lr_pid r, lp_name = lr_pname r,
     lp_cmdline = lr_cmd r, lp_firstSeenMs = Number_cell (lr_first_seen_ms r),
     lp_endedMs = map_option Number_cell (lr_ended_ms r), lp_bytes = Number_cell (lr_bytes r) \<rparr>"

section \<open>Lifetimes\<close>

definition LIFETIMES_LIMIT_DEFAULT :: int where "LIFETIMES_LIMIT_DEFAULT = 500"
definition LIFETIMES_LIMIT_MAX :: int where "LIFETIMES_LIMIT_MAX = 2000"
definition CMDLINE :: nat where "CMDLINE = 120"

record lifetimes_req =
  lt_from :: int
  lt_to :: int
  lt_limit :: int
  lt_name :: "string option"
  lt_uid :: "int option"

definition lifetimesQuery :: "lifetimes_req \<Rightarrow> sql_query" where
  "lifetimesQuery q =
     (let n = opt_cond NAME_COND ''name'' (map_option PStr (lt_name q));
          u = opt_cond UID_COND ''uid'' (map_option PInt (lt_uid q))
      in ([T (''SELECT pid, toString(proc_start) AS start_ns, argMax(name, version) AS pname, leftUTF8(argMax(cmdline, version), ''
             @ string_of_nat CMDLINE @ '') AS cmd, argMax(uid, version) AS puid, argMax(start_ms, version) AS st, ''
             @ ''argMax(ended, version) AS en, toUnixTimestamp64Milli(st) AS start_ms_, ''
             @ ''toUnixTimestamp64Milli(argMax(first_seen, version)) AS first_seen_ms, ''
             @ ''toUnixTimestamp64Milli(argMax(last_seen, version)) AS last_seen_ms, toUnixTimestamp64Milli(en) AS ended_ms, ''
             @ ''argMax(tx_total, version) AS tx, argMax(rx_total, version) AS rx FROM processes WHERE start_ms < '')]
            @ from_ms ''to'' @ fst n @ fst u
            @ [T '' GROUP BY pid, proc_start HAVING en IS NULL OR en >= ''] @ from_ms ''from''
            @ [T '' ORDER BY st DESC, pid, proc_start LIMIT '', P ''limit'' ''UInt32''],
          [(''from'', PInt (lt_from q)), (''to'', PInt (lt_to q)), (''limit'', PInt (lt_limit q))] @ snd n @ snd u))"

record LifetimeRow =
  li_pid :: nat
  li_start_ns :: string
  li_pname :: string
  li_cmd :: string
  li_puid :: nat
  li_start_ms :: cell
  li_first_seen_ms :: cell
  li_last_seen_ms :: cell
  li_ended_ms :: "cell option"
  li_tx :: cell
  li_rx :: cell

record LifetimeBar =
  lb_id :: string
  lb_pid :: nat
  lb_name :: string
  lb_cmdline :: string
  lb_uid :: nat
  lb_startMs :: num
  lb_firstSeenMs :: num
  lb_lastSeenMs :: num
  lb_endedMs :: "num option"
  lb_tx :: num
  lb_rx :: num

definition toLifetimeBar :: "LifetimeRow \<Rightarrow> LifetimeBar" where
  "toLifetimeBar r =
     (let startMs = Number_cell (li_start_ms r) in
      \<lparr> lb_id = instance_id (li_pid r) (li_start_ns r), lb_pid = li_pid r, lb_name = li_pname r, lb_cmdline = li_cmd r,
        lb_uid = li_puid r, lb_startMs = startMs, lb_firstSeenMs = max startMs (Number_cell (li_first_seen_ms r)),
        lb_lastSeenMs = Number_cell (li_last_seen_ms r), lb_endedMs = map_option Number_cell (li_ended_ms r),
        lb_tx = Number_cell (li_tx r), lb_rx = Number_cell (li_rx r) \<rparr>)"

section \<open>The scatter\<close>

datatype ScatterGroup = ByInstance | ByProcName
datatype ScatterBasis = Lifetime | InRange

definition SCATTER_LIMIT_DEFAULT :: int where "SCATTER_LIMIT_DEFAULT = 2000"
definition SCATTER_LIMIT_MAX :: int where "SCATTER_LIMIT_MAX = 5000"
definition SCATTER_CMDLINE :: nat where "SCATTER_CMDLINE = 300"

definition parseGroup :: "qval option \<Rightarrow> ScatterGroup result" where
  "parseGroup raw = pick_msg ''group: expected instance or name'' [(''instance'', ByInstance), (''name'', ByProcName)] ByInstance raw"

definition parseBasis :: "qval option \<Rightarrow> ScatterBasis result" where
  "parseBasis raw = pick_msg ''basis: expected lifetime or range'' [(''lifetime'', Lifetime), (''range'', InRange)] Lifetime raw"

definition flowTime :: "Range \<Rightarrow> sql" where
  "flowTime r = (if r_table r = Flows
     then [T ''ts >= ''] @ from_ms ''from'' @ [T '' AND ts < ''] @ from_ms ''to''
     else [T ''minute >= toStartOfMinute(''] @ from_ms ''from'' @ [T '') AND minute < ''] @ from_ms ''to'')"

definition PROC_COLUMNS :: string where
  "PROC_COLUMNS = ''argMax(name, version) AS p_name, leftUTF8(argMax(cmdline, version), '' @ string_of_nat SCATTER_CMDLINE
     @ '') AS p_cmd, argMax(uid, version) AS p_uid, argMax(tx_total, version) AS p_tx, argMax(rx_total, version) AS p_rx, ''
     @ ''argMax(start_ms, version) AS p_start, argMax(ended, version) AS p_ended, argMax(last_seen, version) AS p_last''"

definition instances :: "Range \<Rightarrow> ScatterBasis \<Rightarrow> Filters \<Rightarrow> sql_query" where
  "instances r basis filters =
     (let time = flowTime r; f = filterSql filters; src = flowSource (r_table r) time (fl_uid filters \<noteq> None) in
      if basis = Lifetime then
        let wh = (if fst f \<noteq> [] then [T ''WHERE (pid, proc_start) IN (SELECT pid, proc_start FROM ''] @ src @ [T '' WHERE '']
              @ time @ fst f @ [T '')''] else [])
        in ([T (''SELECT pid, proc_start, p_name AS pname, p_cmd AS cmd, p_uid AS puid, p_tx AS tx, p_rx AS rx, ''
              @ ''toUnixTimestamp64Milli(p_start) AS start_ms, toUnixTimestamp64Milli(p_ended) AS ended_ms, ''
              @ ''toUnixTimestamp64Milli(p_last) AS last_ms FROM ( SELECT pid, proc_start, '' @ PROC_COLUMNS @ '' FROM processes '')]
             @ wh @ [T '' GROUP BY pid, proc_start HAVING p_start < ''] @ from_ms ''to''
             @ [T '' AND (p_ended IS NULL OR p_ended >= ''] @ from_ms ''from'' @ [T '') AND p_tx + p_rx > 0 )''], snd f)
      else
        ([T (''SELECT pid, proc_start, f_pname AS pname, p_cmd AS cmd, if(p_known = 1, p_uid, 4294967295) AS puid, ''
           @ ''f_tx AS tx, f_rx AS rx, if(p_known = 1, toUnixTimestamp64Milli(p_start), NULL) AS start_ms, ''
           @ ''if(p_known = 1, toUnixTimestamp64Milli(p_ended), NULL) AS ended_ms, ''
           @ ''if(p_known = 1, toUnixTimestamp64Milli(p_last), NULL) AS last_ms ''
           @ ''FROM ( SELECT pid, proc_start, any(name) AS f_pname, sum(tx_bytes) AS f_tx, sum(rx_bytes) AS f_rx FROM '')]
          @ src @ [T '' WHERE ''] @ time @ fst f
          @ [T ('' GROUP BY pid, proc_start HAVING f_tx + f_rx > 0 ) AS f LEFT JOIN ( SELECT pid, proc_start, '' @ PROC_COLUMNS
             @ '', toUInt8(1) AS p_known FROM processes GROUP BY pid, proc_start ) AS p USING (pid, proc_start)'')], snd f))"

record scatter_req =
  sq_range :: Range
  sq_group :: ScatterGroup
  sq_basis :: ScatterBasis
  sq_filters :: Filters
  sq_limit :: int

definition colon_id :: string where
  "colon_id = ''concat(toString(pid), '' @ quote '':'' @ '', toString(proc_start))''"

definition scatterQuery :: "scatter_req \<Rightarrow> sql_query" where
  "scatterQuery q =
     (let inner = instances (sq_range q) (sq_basis q) (sq_filters q)
      in ((if sq_group q = ByInstance
           then [T (''SELECT '' @ colon_id @ '' AS id, pid, pname AS name, cmd, puid AS uid, tx, rx, toUInt64(1) AS n, ''
                  @ ''start_ms, ended_ms, last_ms FROM ('')] @ fst inner
                @ [T '') ORDER BY tx + rx DESC, pid, proc_start LIMIT '', P ''limit'' ''UInt32'']
           else [T (''SELECT argMax(iid, itx + irx) AS id, argMax(pid, itx + irx) AS pid, pname AS name, ''
                  @ ''argMax(cmd, itx + irx) AS cmd, argMax(puid, itx + irx) AS uid, sum(itx) AS tx, sum(irx) AS rx, ''
                  @ ''count() AS n, min(start_ms) AS start_ms, if(countIf(ended_ms IS NULL) > 0, NULL, max(ended_ms)) AS ended_ms, ''
                  @ ''max(last_ms) AS last_ms FROM (SELECT '' @ colon_id
                  @ '' AS iid, pid, pname, cmd, puid, tx AS itx, rx AS irx, start_ms, ended_ms, last_ms FROM ('')] @ fst inner
                @ [T '')) GROUP BY pname ORDER BY tx + rx DESC, name LIMIT '', P ''limit'' ''UInt32'']),
          [(''from'', PInt (r_from (sq_range q))), (''to'', PInt (r_to (sq_range q))), (''limit'', PInt (sq_limit q))] @ snd inner))"

record ScatterRow =
  sc_id :: string
  sc_pid :: nat
  sc_name :: string
  sc_cmd :: string
  sc_uid :: nat
  sc_tx :: cell
  sc_rx :: cell
  sc_n :: cell
  sc_start_ms :: "cell option"
  sc_ended_ms :: "cell option"
  sc_last_ms :: "cell option"

record ScatterPoint =
  sp_id :: string
  sp_pid :: nat
  sp_name :: string
  sp_cmdline :: string
  sp_uid :: nat
  sp_user :: "string option"
  sp_tx :: num
  sp_rx :: num
  sp_instances :: num
  sp_startMs :: "num option"
  sp_endedMs :: "num option"
  sp_lastSeenMs :: "num option"

definition msOrNull :: "cell option \<Rightarrow> num option" where
  "msOrNull v = map_option Number_cell v"

definition toScatterPoint :: "ScatterRow \<Rightarrow> (nat \<Rightarrow> string option) \<Rightarrow> ScatterPoint" where
  "toScatterPoint r user = \<lparr> sp_id = sc_id r, sp_pid = sc_pid r, sp_name = sc_name r, sp_cmdline = sc_cmd r, sp_uid = sc_uid r,
     sp_user = (if int (sc_uid r) = UNKNOWN_UID then None else user (sc_uid r)), sp_tx = Number_cell (sc_tx r),
     sp_rx = Number_cell (sc_rx r), sp_instances = Number_cell (sc_n r), sp_startMs = msOrNull (sc_start_ms r),
     sp_endedMs = msOrNull (sc_ended_ms r), sp_lastSeenMs = msOrNull (sc_last_ms r) \<rparr>"

section \<open>The queries meet the contract\<close>

lemma opt_cond_text: "(v = None) = (w = None) \<Longrightarrow> fst (opt_cond t n v) = fst (opt_cond t n w)"
  by (auto simp: opt_cond_def split: option.splits)

lemma opt_cond_bound: "placeholders t = {n} \<Longrightarrow> placeholders (fst (opt_cond t n v)) = fst ` set (snd (opt_cond t n v))"
  by (auto simp: opt_cond_def split: option.splits)

lemma cond_placeholders [simp]:
  "placeholders NAMES_COND = {''names''}" "placeholders UID_COND = {''uid''}" "placeholders NAME_COND = {''name''}"
  "placeholders (from_ms p) = {p}"
  by (auto simp: NAMES_COND_def UID_COND_def NAME_COND_def from_ms_def)

interpretation lifecycle_query: param_query lifecycleQuery "\<lambda>q. (lq_names q \<noteq> None, lq_uid q \<noteq> None)"
proof
  fix q q' :: lifecycle_req
  assume "(lq_names q \<noteq> None, lq_uid q \<noteq> None) = (lq_names q' \<noteq> None, lq_uid q' \<noteq> None)"
  then have c: "(map_option PStrs (lq_names q) = None) = (map_option PStrs (lq_names q') = None)"
    "(map_option PInt (lq_uid q) = None) = (map_option PInt (lq_uid q') = None)" by auto
  show "fst (lifecycleQuery q) = fst (lifecycleQuery q')"
    unfolding lifecycleQuery_def Let_def fst_conv opt_cond_text [OF c(1)] opt_cond_text [OF c(2)] ..
next
  show "bound_in (snd (lifecycleQuery q)) (fst (lifecycleQuery q))" for q
    unfolding lifecycleQuery_def Let_def fst_conv snd_conv bound_in_def by (auto simp: opt_cond_bound image_Un)
qed

interpretation lifetimes_query: param_query lifetimesQuery "\<lambda>q. (lt_name q \<noteq> None, lt_uid q \<noteq> None)"
proof
  fix q q' :: lifetimes_req
  assume "(lt_name q \<noteq> None, lt_uid q \<noteq> None) = (lt_name q' \<noteq> None, lt_uid q' \<noteq> None)"
  then have c: "(map_option PStr (lt_name q) = None) = (map_option PStr (lt_name q') = None)"
    "(map_option PInt (lt_uid q) = None) = (map_option PInt (lt_uid q') = None)" by auto
  show "fst (lifetimesQuery q) = fst (lifetimesQuery q')"
    unfolding lifetimesQuery_def Let_def fst_conv opt_cond_text [OF c(1)] opt_cond_text [OF c(2)] ..
next
  show "bound_in (snd (lifetimesQuery q)) (fst (lifetimesQuery q))" for q
    unfolding lifetimesQuery_def Let_def fst_conv snd_conv bound_in_def by (auto simp: opt_cond_bound image_Un)
qed

definition scatter_shape :: "scatter_req \<Rightarrow> table \<times> ScatterGroup \<times> ScatterBasis \<times> bool list" where
  "scatter_shape q = (r_table (sq_range q), sq_group q, sq_basis q, filter_shape (sq_filters q))"

interpretation scatter_query: param_query scatterQuery scatter_shape
proof
  fix q q' :: scatter_req
  assume "scatter_shape q = scatter_shape q'"
  then have c: "r_table (sq_range q) = r_table (sq_range q')" "sq_group q = sq_group q'" "sq_basis q = sq_basis q'"
    "filter_shape (sq_filters q) = filter_shape (sq_filters q')" by (auto simp: scatter_shape_def)
  have time: "flowTime (sq_range q) = flowTime (sq_range q')" by (simp add: flowTime_def c(1))
  have "fst (instances (sq_range q) (sq_basis q) (sq_filters q)) = fst (instances (sq_range q') (sq_basis q') (sq_filters q'))"
    unfolding instances_def Let_def time c(1,3) filter_text [OF c(4)] filter_shape_uid [OF c(4)] by simp
  then show "fst (scatterQuery q) = fst (scatterQuery q')" unfolding scatterQuery_def Let_def c(2) by simp
next
  fix q :: scatter_req
  have time: "placeholders (flowTime r) = {''from'', ''to''}" for r by (auto simp: flowTime_def)
  have src: "x = ''from'' \<or> x = ''to''" if "x \<in> placeholders (flowSource t (flowTime r) u)" for x t r u
    using that placeholders_flowSource [of t "flowTime r" u] time [of r] by auto
  have snd: "snd (instances r b f) = snd (filterSql f)" for r b f by (simp add: instances_def Let_def)
  have "x = ''from'' \<or> x = ''to'' \<or> x \<in> fst ` set (snd (filterSql f))" if "x \<in> placeholders (fst (instances r b f))" for x r b f
    using that unfolding instances_def Let_def by (auto simp: filterSql_bound time split: if_splits dest!: src)
  then show "bound_in (snd (scatterQuery q)) (fst (scatterQuery q))"
    unfolding scatterQuery_def Let_def bound_in_def snd by (auto simp: image_Un)
qed

section \<open>Names\<close>

text \<open>
  The list of process names of a request: an accepted list holds exactly the non-empty pieces
  between the commas, each once, at most 50 of at most 256 characters; no list means that there is
  no such piece. A refusal is a client error.
\<close>

theorem parseNames_checked:
  "(\<forall>e. parseNames raw = Inl e \<longrightarrow> statusCode e = 400)
   \<and> (\<forall>names. parseNames raw = Inr (Some names) \<longrightarrow>
        names \<noteq> [] \<and> distinct names \<and> length names \<le> 50 \<and> (\<forall>n \<in> set names. n \<noteq> [] \<and> length n \<le> 256 \<and> CHR '','' \<notin> set n)
        \<and> set names = {n. n \<noteq> [] \<and> (\<exists>v \<in> (case raw of Some (QArr vs) \<Rightarrow> set vs | Some (QStr s) \<Rightarrow> {s} | None \<Rightarrow> {}).
             n \<in> set (split_char (CHR '','') v))})
   \<and> (parseNames (Some (QStr s)) = Inr None \<longleftrightarrow> set s \<subseteq> {CHR '',''})"
proof (intro conjI allI impI)
  fix e assume "parseNames raw = Inl e"
  then show "statusCode e = 400" by (auto simp: parseNames_def Let_def badRequest_def split: if_splits)
next
  fix names assume ok: "parseNames raw = Inr (Some names)"
  let ?vs = "case raw of Some (QArr vs) \<Rightarrow> vs | Some (QStr s) \<Rightarrow> [s] | None \<Rightarrow> []"
  define N where "N = new_Set (filter (\<lambda>n. n \<noteq> []) (concat (map (split_char (CHR '','')) ?vs)))"
  have "names = N \<and> length N \<le> MAX_NAMES \<and> (\<forall>n \<in> set N. length n \<le> MAX_NAME_LEN) \<and> N \<noteq> []"
    using ok unfolding parseNames_def Let_def N_def [symmetric] by (auto simp: not_less split: if_splits)
  then have n: "names = N" "length names \<le> MAX_NAMES" "\<forall>n \<in> set names. length n \<le> MAX_NAME_LEN" "names \<noteq> []" by auto
  show "distinct names" "names \<noteq> []" "length names \<le> 50" using n by (simp_all add: MAX_NAMES_def N_def)
  show "\<forall>n \<in> set names. n \<noteq> [] \<and> length n \<le> 256 \<and> CHR '','' \<notin> set n"
    using n(3) by (auto simp: n(1) N_def MAX_NAME_LEN_def dest: split_char_pieces)
  show "set names = {n. n \<noteq> [] \<and> (\<exists>v \<in> (case raw of Some (QArr vs) \<Rightarrow> set vs | Some (QStr s) \<Rightarrow> {s} | None \<Rightarrow> {}).
             n \<in> set (split_char (CHR '','') v))}"
    by (auto simp: n(1) N_def split: option.splits qval.splits)
next
  have f: "filter (\<lambda>n. n \<noteq> []) (split_char (CHR '','') s) = [] \<longleftrightarrow> set s \<subseteq> {CHR '',''}"
    by (induction s) (auto split: list.splits)
  define N where "N = new_Set (filter (\<lambda>n. n \<noteq> []) (split_char (CHR '','') s))"
  have N: "N = [] \<longleftrightarrow> set s \<subseteq> {CHR '',''}" unfolding f [symmetric] by (simp add: N_def new_Set_def)
  show "parseNames (Some (QStr s)) = Inr None \<longleftrightarrow> set s \<subseteq> {CHR '',''}"
    unfolding N [symmetric] using N by (cases "s = []") (auto simp: parseNames_def Let_def N_def [symmetric])
qed

theorem parseNames_checked_witness:
  "parseNames (Some (QStr ''curl,ssh,,curl'')) = Inr (Some [''curl'', ''ssh'']) \<and> distinct [''curl'', ''ssh'']"
proof -
  have "parseNames (Some (QStr ''curl,ssh,,curl'')) = Inr (Some [''curl'', ''ssh''])" by code_simp
  with parseNames_checked [of "Some (QStr ''curl,ssh,,curl'')" "''''"] show ?thesis by blast
qed

end
