(* ===== verification/Treemap.thy ===== *)
theory Treemap
  imports Throughput Sums
begin

text \<open>
  \<^verbatim>\<open>web/src/server/ch/treemap.ts\<close>: bytes per user, process and application as a tree, with the smaller
  processes of each user folded into one node. \<open>user\<close> is the lookup of user names.
\<close>

datatype TreemapDir = TmTotal | TmTx | TmRx

definition TREEMAP_TOP :: nat where "TREEMAP_TOP = 30"
definition TREEMAP_MAX_ROWS :: int where "TREEMAP_MAX_ROWS = 20000"

definition TREE_METRIC :: "TreemapDir \<Rightarrow> string" where
  "TREE_METRIC d = (case d of TmTotal \<Rightarrow> ''tx_bytes + rx_bytes'' | TmTx \<Rightarrow> ''tx_bytes'' | TmRx \<Rightarrow> ''rx_bytes'')"

definition parseTreemapDir :: "qval option \<Rightarrow> TreemapDir result" where
  "parseTreemapDir raw = pick_msg ''dir: expected total, tx or rx'' [(''total'', TmTotal), (''tx'', TmTx), (''rx'', TmRx)] TmTotal raw"

record treemap_req =
  tm_range :: Range
  tm_dir :: TreemapDir
  tm_filters :: Filters
  tm_limit :: int

definition treemapQuery :: "treemap_req \<Rightarrow> sql_query" where
  "treemapQuery q =
     (let r = tm_range q; time = timeFilter r; f = filterSql (tm_filters q)
      in ([T (''SELECT uid, name, app, sum('' @ TREE_METRIC (tm_dir q) @ '') AS bytes FROM '')] @ flowSource (r_table r) time True
            @ [T '' WHERE ''] @ time @ fst f
            @ [T '' GROUP BY uid, name, app HAVING bytes > 0 ORDER BY bytes DESC, uid, name, app LIMIT '', P ''limit'' ''UInt32''],
          [(''from'', PInt (r_from r)), (''to'', PInt (r_to r))] @ snd f @ [(''limit'', PInt (tm_limit q))]))"

record TreemapRow =
  tm_uid :: nat
  tm_name :: string
  tm_app :: string
  tm_bytes :: cell

record TreemapApp =
  ta_name :: string
  ta_value :: num

record TreemapProc =
  tp_name :: string
  tp_value :: num
  tp_folded :: "nat option"
  tp_children :: "TreemapApp list"

record TreemapUser =
  tu_name :: string
  tu_uid :: nat
  tu_value :: num
  tu_children :: "TreemapProc list"

definition userLabel :: "nat \<Rightarrow> (nat \<Rightarrow> string option) \<Rightarrow> string" where
  "userLabel uid user = (if int uid = UNKNOWN_UID then ''unknown uid''
     else case user uid of Some n \<Rightarrow> n | None \<Rightarrow> ''uid '' @ string_of_nat uid)"

definition byValue :: "('a \<Rightarrow> num) \<Rightarrow> ('a \<Rightarrow> string) \<Rightarrow> 'a \<Rightarrow> 'a \<Rightarrow> bool" where
  "byValue val name = by_then (desc_by val) (asc_by name)"

definition apps :: "(string, num) jsmap \<Rightarrow> TreemapApp list" where
  "apps m = sort_by (byValue ta_value ta_name) (map (\<lambda>(n, v). \<lparr> ta_name = n, ta_value = v \<rparr>) m)"

definition add_bytes :: "num option \<Rightarrow> num \<Rightarrow> num" where
  "add_bytes v b = fadd (case v of Some x \<Rightarrow> x | None \<Rightarrow> 0) b"

text \<open>The nested maps: the map of a user's processes, each with the map of its applications.\<close>

definition add_tree ::
  "(string, (string, num) jsmap) jsmap option \<Rightarrow> TreemapRow \<Rightarrow> (string, (string, num) jsmap) jsmap" where
  "add_tree v r =
     (let procs = (case v of Some m \<Rightarrow> m | None \<Rightarrow> []);
          a = (case map_get procs (tm_name r) of Some m \<Rightarrow> m | None \<Rightarrow> [])
      in map_set (tm_name r) (map_set (tm_app r) (add_bytes (map_get a (tm_app r)) (Number_cell (tm_bytes r))) a) procs)"

definition proc_node :: "string \<times> (string, num) jsmap \<Rightarrow> TreemapProc" where
  "proc_node p = (let children = apps (snd p) in
     \<lparr> tp_name = fst p, tp_value = fsum (map ta_value children), tp_folded = None, tp_children = children \<rparr>)"

definition fold_rest :: "TreemapProc list \<Rightarrow> TreemapProc" where
  "fold_rest rest =
     (let merged = accum ta_name (\<lambda>v c. add_bytes v (ta_value c)) (concat (map tp_children rest)) [] in
      \<lparr> tp_name = ''other ('' @ string_of_nat (length rest) @ '' processes)'', tp_value = fsum (map tp_value rest),
        tp_folded = Some (length rest), tp_children = apps merged \<rparr>)"

definition user_node :: "(nat \<Rightarrow> string option) \<Rightarrow> nat \<Rightarrow> nat \<times> (string, (string, num) jsmap) jsmap \<Rightarrow> TreemapUser" where
  "user_node user topn u =
     (let procs = sort_by (byValue tp_value tp_name) (map proc_node (snd u));
          kept = (if length procs > topn + 1 then take topn procs @ [fold_rest (drop topn procs)] else procs)
      in \<lparr> tu_name = userLabel (fst u) user, tu_uid = fst u, tu_value = fsum (map tp_value kept), tu_children = kept \<rparr>)"

definition buildTreemap :: "TreemapRow list \<Rightarrow> (nat \<Rightarrow> string option) \<Rightarrow> nat \<Rightarrow> TreemapUser list" where
  "buildTreemap rows user topn =
     (let users = accum tm_uid add_tree (filter (\<lambda>r. Number_cell (tm_bytes r) > 0) rows) []
      in sort_by (by_then (desc_by tu_value) (asc_by tu_uid)) (map (user_node user topn) users))"

interpretation treemap_query: param_query treemapQuery
  "\<lambda>q. (r_col (tm_range q), r_table (tm_range q), tm_dir q, filter_shape (tm_filters q))"
proof
  fix q q' :: treemap_req
  assume "(r_col (tm_range q), r_table (tm_range q), tm_dir q, filter_shape (tm_filters q))
    = (r_col (tm_range q'), r_table (tm_range q'), tm_dir q', filter_shape (tm_filters q'))"
  then have c: "r_col (tm_range q) = r_col (tm_range q')" "r_table (tm_range q) = r_table (tm_range q')" "tm_dir q = tm_dir q'"
    "filter_shape (tm_filters q) = filter_shape (tm_filters q')" by auto
  show "fst (treemapQuery q) = fst (treemapQuery q')"
    unfolding treemapQuery_def Let_def fst_conv timeFilter_cong [OF c(1)] c(2,3) filter_text [OF c(4)] ..
next
  fix q
  have src: "x = ''from'' \<or> x = ''to''" if "x \<in> placeholders (flowSource t (timeFilter r) u)" for x t r u
    using that placeholders_flowSource [of t "timeFilter r" u] by auto
  show "bound_in (snd (treemapQuery q)) (fst (treemapQuery q))"
    unfolding treemapQuery_def Let_def fst_conv snd_conv bound_in_def
    by (auto simp: filterSql_bound image_Un dest!: src)
qed

section \<open>No byte is lost\<close>

definition add_app_bytes :: "(string, num) jsmap option \<Rightarrow> TreemapRow \<Rightarrow> (string, num) jsmap" where
  "add_app_bytes v r = (let a = (case v of Some m \<Rightarrow> m | None \<Rightarrow> []) in
     map_set (tm_app r) (add_bytes (map_get a (tm_app r)) (Number_cell (tm_bytes r))) a)"

lemma add_tree_fold:
  "gs \<noteq> [] \<Longrightarrow> foldl (\<lambda>v g. Some (add_tree v g)) None gs = Some (accum tm_name add_app_bytes gs [])"
proof (induction gs rule: rev_induct)
  case (snoc g gs)
  have step: "add_tree (Some m) r = map_set (tm_name r) (add_app_bytes (map_get m (tm_name r)) r) m" for m r
    by (simp add: add_tree_def add_app_bytes_def Let_def)
  have none: "add_tree None r = add_tree (Some []) r" for r by (simp add: add_tree_def)
  show ?case using snoc step by (cases "gs = []") (simp_all add: none accum_def)
qed simp

lemma tree_app_fold:
  "gs \<noteq> [] \<Longrightarrow> foldl (\<lambda>v g. Some (add_app_bytes v g)) None gs
    = Some (accum tm_app (\<lambda>v r. add_bytes v (Number_cell (tm_bytes r))) gs [])"
proof (induction gs rule: rev_induct)
  case (snoc g gs)
  show ?case using snoc by (cases "gs = []") (simp_all add: add_app_bytes_def accum_def Let_def)
qed simp

lemma add_bytes_fold:
  "gs \<noteq> [] \<Longrightarrow> foldl (\<lambda>v g. Some (add_bytes v (f g))) None gs = Some (fsum (map f gs))"
proof (induction gs rule: rev_induct)
  case (snoc g gs)
  then show ?case by (cases "gs = []") (simp_all add: add_bytes_def fsum_def)
qed simp

text \<open>
  What a list of application nodes says about rows: the applications of the rows, each once, with
  the exact sum of its bytes.
\<close>

definition apps_exact :: "(TreemapRow \<Rightarrow> nat) \<Rightarrow> TreemapRow list \<Rightarrow> TreemapApp list \<Rightarrow> bool" where
  "apps_exact bn rs as \<longleftrightarrow> distinct (map ta_name as) \<and> ta_name ` set as = tm_app ` set rs
     \<and> (\<forall>a \<in> set as. ta_value a = of_nat (\<Sum>r \<leftarrow> filter (\<lambda>r. tm_app r = ta_name a) rs. bn r))"

lemma apps_accum:
  fixes key :: "'x \<Rightarrow> string" and f n xs
  assumes "\<And>x. x \<in> set xs \<Longrightarrow> f x = of_nat (n x)" and "(\<Sum>x \<leftarrow> xs. n x) \<le> 2 ^ 53"
  defines "as \<equiv> apps (accum key (\<lambda>v x. add_bytes v (f x)) xs [])"
  shows "distinct (map ta_name as)" "ta_name ` set as = key ` set xs"
    "a \<in> set as \<Longrightarrow> ta_value a = of_nat (\<Sum>x \<leftarrow> filter (\<lambda>x. key x = ta_name a) xs. n x)"
proof -
  let ?m = "accum key (\<lambda>v x. add_bytes v (f x)) xs []"
  have "mset (map ta_name as) = mset (map fst ?m)"
    unfolding as_def apps_def mset_map mset_sort_by
    by (simp add: image_mset.compositionality comp_def case_prod_unfold)
  then show "distinct (map ta_name as)" "ta_name ` set as = key ` set xs"
    by (metis distinct_keys_accum mset_eq_imp_distinct_iff, metis mset_eq_setD list.set_map set_keys_accum)
  assume "a \<in> set as"
  then obtain k v where a: "a = \<lparr> ta_name = k, ta_value = v \<rparr>" and kv: "(k, v) \<in> set ?m" by (auto simp: as_def apps_def)
  let ?xs = "filter (\<lambda>x. key x = k) xs"
  have fo: "foldl (\<lambda>w x. Some (add_bytes w (f x))) None ?xs = Some v" using kv unfolding in_accum_iff .
  then have "?xs \<noteq> []" by auto
  with fo have "v = fsum (map f ?xs)" by (simp add: add_bytes_fold)
  also have "\<dots> = of_nat (\<Sum>x \<leftarrow> ?xs. n x)"
    using assms order_trans [OF sum_list_filter_le assms(2)] by (intro fsum_nats) auto
  finally show "ta_value a = of_nat (\<Sum>x \<leftarrow> filter (\<lambda>x. key x = ta_name a) xs. n x)" by (simp add: a)
qed

lemma apps_exact_rows:
  assumes "\<And>r. r \<in> set rs \<Longrightarrow> Number_cell (tm_bytes r) = of_nat (bn r)" and "(\<Sum>r \<leftarrow> rs. bn r) \<le> 2 ^ 53"
  shows "apps_exact bn rs (apps (accum tm_app (\<lambda>v r. add_bytes v (Number_cell (tm_bytes r))) rs []))"
  unfolding apps_exact_def using apps_accum [OF assms, where key = tm_app] by auto

lemma apps_exact_sum:
  assumes "apps_exact bn rs as"
  shows "(\<Sum>a \<leftarrow> as. ta_value a) = of_nat (\<Sum>r \<leftarrow> rs. bn r)"
    "(\<Sum>r \<leftarrow> rs. bn r) \<le> 2 ^ 53 \<Longrightarrow> fsum (map ta_value as) = of_nat (\<Sum>r \<leftarrow> rs. bn r)"
proof -
  let ?g = "\<lambda>a. \<Sum>r \<leftarrow> filter (\<lambda>r. tm_app r = ta_name a) rs. bn r"
  have v: "\<And>a. a \<in> set as \<Longrightarrow> ta_value a = of_nat (?g a)" using assms by (simp add: apps_exact_def)
  have s: "(\<Sum>a \<leftarrow> as. ?g a) = (\<Sum>r \<leftarrow> rs. bn r)"
    using sum_by_key [of "map ta_name as" tm_app rs bn] assms by (simp add: apps_exact_def comp_def)
  have "map ta_value as = map (\<lambda>a. of_nat (?g a)) as" by (rule map_cong) (simp_all only: v)
  then show "(\<Sum>a \<leftarrow> as. ta_value a) = of_nat (\<Sum>r \<leftarrow> rs. bn r)"
    by (simp only: s [symmetric] of_nat_sum_list map_map comp_def)
  show "fsum (map ta_value as) = of_nat (\<Sum>r \<leftarrow> rs. bn r)" if "(\<Sum>r \<leftarrow> rs. bn r) \<le> 2 ^ 53"
    using fsum_nats [of as ta_value ?g] v that by (simp only: s)
qed

text \<open>The bytes of one application, read off its node; none, when it has no node.\<close>

lemma apps_exact_app:
  assumes "apps_exact bn rs as"
  shows "(\<Sum>a \<leftarrow> filter (\<lambda>a. ta_name a = n) as. nat \<lfloor>ta_value a\<rfloor>) = (\<Sum>r \<leftarrow> filter (\<lambda>r. tm_app r = n) rs. bn r)"
proof -
  define F where "F n = (\<Sum>r \<leftarrow> filter (\<lambda>r. tm_app r = n) rs. bn r)" for n
  have v: "ta_value a = of_nat (F (ta_name a))" if "a \<in> set as" for a using assms that by (simp add: apps_exact_def F_def)
  have d: "distinct (map ta_name as)" using assms by (simp add: apps_exact_def)
  have "(\<Sum>a \<leftarrow> filter (\<lambda>a. ta_name a = n) as. nat \<lfloor>ta_value a\<rfloor>) = (\<Sum>k \<leftarrow> map ta_name as. if k = n then F n else 0)"
    using v
  proof (induction as)
    case (Cons a as)
    then show ?case using Cons.prems [of a] by simp
  qed simp
  also have "\<dots> = (if n \<in> set (map ta_name as) then F n else 0)" by (rule sum_list_delta [OF d])
  also have "\<dots> = F n"
  proof -
    have "filter (\<lambda>r. tm_app r = n) rs = []" if "n \<notin> ta_name ` set as"
      using assms that by (auto simp: apps_exact_def filter_empty_conv)
    then show ?thesis by (auto simp: F_def)
  qed
  finally show ?thesis by (simp add: F_def)
qed

section \<open>The processes of a user\<close>

lemma proc_nodes:
  fixes bn gs
  defines "ps \<equiv> sort_by (byValue tp_value tp_name) (map proc_node (accum tm_name add_app_bytes gs []))"
  assumes "\<And>r. r \<in> set gs \<Longrightarrow> Number_cell (tm_bytes r) = of_nat (bn r)" and "(\<Sum>r \<leftarrow> gs. bn r) \<le> 2 ^ 53"
  shows "distinct (map tp_name ps)" "tp_name ` set ps = tm_name ` set gs"
    "p \<in> set ps \<Longrightarrow> tp_folded p = None \<and> apps_exact bn (filter (\<lambda>r. tm_name r = tp_name p) gs) (tp_children p)
       \<and> tp_value p = of_nat (\<Sum>r \<leftarrow> filter (\<lambda>r. tm_name r = tp_name p) gs. bn r)"
proof -
  let ?m = "accum tm_name add_app_bytes gs []"
  have "mset (map tp_name ps) = mset (map fst ?m)"
    unfolding ps_def mset_map mset_sort_by
    by (simp add: image_mset.compositionality comp_def proc_node_def Let_def)
  then show "distinct (map tp_name ps)" "tp_name ` set ps = tm_name ` set gs"
    by (metis distinct_keys_accum mset_eq_imp_distinct_iff, metis mset_eq_setD list.set_map set_keys_accum)
  assume "p \<in> set ps"
  then obtain n a where p: "p = proc_node (n, a)" and na: "(n, a) \<in> set ?m" by (auto simp: ps_def)
  let ?gs = "filter (\<lambda>r. tm_name r = n) gs"
  have f: "foldl (\<lambda>v g. Some (add_app_bytes v g)) None ?gs = Some a" using na unfolding in_accum_iff .
  then have ne: "?gs \<noteq> []" by auto
  with f tree_app_fold [OF ne] have a: "a = accum tm_app (\<lambda>v r. add_bytes v (Number_cell (tm_bytes r))) ?gs []" by simp
  have small: "(\<Sum>r \<leftarrow> ?gs. bn r) \<le> 2 ^ 53" by (rule order_trans [OF sum_list_filter_le assms(3)])
  have "apps_exact bn ?gs (apps a)" unfolding a using assms(2) small by (intro apps_exact_rows) auto
  with apps_exact_sum(2) [OF this small] show "tp_folded p = None
      \<and> apps_exact bn (filter (\<lambda>r. tm_name r = tp_name p) gs) (tp_children p)
      \<and> tp_value p = of_nat (\<Sum>r \<leftarrow> filter (\<lambda>r. tm_name r = tp_name p) gs. bn r)"
    by (simp add: p proc_node_def Let_def)
qed

text \<open>The sum over some processes of what each has from its own rows is the sum over all their rows.\<close>

lemma sum_by_names:
  fixes bn :: "TreemapRow \<Rightarrow> nat"
  assumes "distinct (map tp_name ps)"
  shows "(\<Sum>p \<leftarrow> ps. \<Sum>r \<leftarrow> filter pr (filter (\<lambda>r. tm_name r = tp_name p) gs). bn r)
    = (\<Sum>r \<leftarrow> filter pr (filter (\<lambda>r. tm_name r \<in> tp_name ` set ps) gs). bn r)"
proof -
  let ?R = "filter pr (filter (\<lambda>r. tm_name r \<in> tp_name ` set ps) gs)"
  have "filter pr (filter (\<lambda>r. tm_name r = tp_name p) gs) = filter (\<lambda>r. tm_name r = tp_name p) ?R"
    if "p \<in> set ps" for p
    using that by (auto intro!: filter_cong)
  then have "(\<Sum>p \<leftarrow> ps. \<Sum>r \<leftarrow> filter pr (filter (\<lambda>r. tm_name r = tp_name p) gs). bn r)
      = (\<Sum>k \<leftarrow> map tp_name ps. \<Sum>r \<leftarrow> filter (\<lambda>r. tm_name r = k) ?R. bn r)"
    by (simp add: comp_def del: filter_filter cong: map_cong)
  also have "\<dots> = (\<Sum>r \<leftarrow> ?R. bn r)" using assms by (intro sum_by_key) auto
  finally show ?thesis .
qed

lemma fold_rest_exact:
  fixes bn :: "TreemapRow \<Rightarrow> nat"
  assumes ps: "distinct (map tp_name rest)"
    "\<And>p. p \<in> set rest \<Longrightarrow> apps_exact bn (filter (\<lambda>r. tm_name r = tp_name p) gs) (tp_children p)"
    "\<And>p. p \<in> set rest \<Longrightarrow> tp_value p = of_nat (\<Sum>r \<leftarrow> filter (\<lambda>r. tm_name r = tp_name p) gs. bn r)"
    and small: "(\<Sum>r \<leftarrow> gs. bn r) \<le> 2 ^ 53"
  defines "R \<equiv> filter (\<lambda>r. tm_name r \<in> tp_name ` set rest) gs"
  shows "apps_exact bn R (tp_children (fold_rest rest))" "tp_value (fold_rest rest) = of_nat (\<Sum>r \<leftarrow> R. bn r)"
proof -
  have smallR: "(\<Sum>r \<leftarrow> R. bn r) \<le> 2 ^ 53" unfolding R_def by (rule order_trans [OF sum_list_filter_le small])
  have sumR: "(\<Sum>p \<leftarrow> rest. \<Sum>r \<leftarrow> filter (\<lambda>r. tm_name r = tp_name p) gs. bn r) = (\<Sum>r \<leftarrow> R. bn r)"
    using sum_by_names [OF ps(1), where pr = "\<lambda>r. True" and gs = gs and bn = bn] by (simp add: R_def)
  have "fsum (map tp_value rest) = of_nat (\<Sum>p \<leftarrow> rest. \<Sum>r \<leftarrow> filter (\<lambda>r. tm_name r = tp_name p) gs. bn r)"
    using ps(3) smallR by (intro fsum_nats) (simp_all only: sumR)
  then show "tp_value (fold_rest rest) = of_nat (\<Sum>r \<leftarrow> R. bn r)" by (simp only: sumR fold_rest_def Let_def TreemapProc.simps)
  define cs where "cs = concat (map tp_children rest)"
  let ?n = "\<lambda>c. nat \<lfloor>ta_value c\<rfloor>"
  have nat: "ta_value c = of_nat (?n c)" if "c \<in> set cs" for c
    using that ps(2) by (auto simp: cs_def apps_exact_def)
  have app: "(\<Sum>c \<leftarrow> filter (\<lambda>c. ta_name c = k) cs. ?n c) = (\<Sum>r \<leftarrow> filter (\<lambda>r. tm_app r = k) R. bn r)" for k
  proof -
    have "(\<Sum>c \<leftarrow> filter (\<lambda>c. ta_name c = k) (concat (map tp_children qs)). ?n c)
        = (\<Sum>p \<leftarrow> qs. \<Sum>c \<leftarrow> filter (\<lambda>c. ta_name c = k) (tp_children p). ?n c)" for qs
      by (induction qs) auto
    also have "(\<Sum>p \<leftarrow> rest. \<Sum>c \<leftarrow> filter (\<lambda>c. ta_name c = k) (tp_children p). ?n c)
        = (\<Sum>p \<leftarrow> rest. \<Sum>r \<leftarrow> filter (\<lambda>r. tm_app r = k) (filter (\<lambda>r. tm_name r = tp_name p) gs). bn r)"
      using apps_exact_app [OF ps(2)] by (simp del: filter_filter cong: map_cong)
    finally show ?thesis using sum_by_names [OF ps(1)] by (simp only: cs_def R_def)
  qed
  have names: "ta_name ` set cs = tm_app ` set R"
    using ps(2) by (fastforce simp: cs_def R_def apps_exact_def)
  have "(\<Sum>c \<leftarrow> cs. ?n c) = (\<Sum>k \<leftarrow> remdups (map ta_name cs). \<Sum>c \<leftarrow> filter (\<lambda>c. ta_name c = k) cs. ?n c)"
    by (rule sum_by_key [symmetric]) auto
  also have "\<dots> = (\<Sum>r \<leftarrow> R. bn r)" unfolding app using names by (intro sum_by_key) auto
  finally have "(\<Sum>c \<leftarrow> cs. ?n c) \<le> 2 ^ 53" using smallR by simp
  note acc = apps_accum [OF nat this, where key = ta_name]
  have ch: "tp_children (fold_rest rest) = apps (accum ta_name (\<lambda>v c. add_bytes v (ta_value c)) cs [])"
    by (simp add: fold_rest_def Let_def cs_def)
  show "apps_exact bn R (tp_children (fold_rest rest))"
    unfolding apps_exact_def ch using acc names by (simp only: app) blast
qed

text \<open>
  The rows a process node of a user stands for: those of the process, and for the folded node those
  of the processes that have no node of their own.
\<close>

definition node_rows :: "TreemapUser \<Rightarrow> TreemapProc \<Rightarrow> TreemapRow list \<Rightarrow> TreemapRow list" where
  "node_rows u p rs = filter (\<lambda>r. tm_uid r = tu_uid u \<and> (case tp_folded p of
       None \<Rightarrow> tm_name r = tp_name p
     | Some _ \<Rightarrow> list_all (\<lambda>q. tp_folded q = None \<longrightarrow> tp_name q \<noteq> tm_name r) (tu_children u))) rs"

definition user_exact :: "(TreemapRow \<Rightarrow> nat) \<Rightarrow> TreemapRow list \<Rightarrow> TreemapUser \<Rightarrow> bool" where
  "user_exact bn rs u \<longleftrightarrow>
     tu_value u = of_nat (\<Sum>r \<leftarrow> filter (\<lambda>r. tm_uid r = tu_uid u) rs. bn r)
     \<and> (\<Sum>p \<leftarrow> tu_children u. tp_value p) = tu_value u
     \<and> distinct (map tp_name (filter (\<lambda>p. tp_folded p = None) (tu_children u)))
     \<and> (\<forall>p \<in> set (tu_children u). tp_value p = of_nat (\<Sum>r \<leftarrow> node_rows u p rs. bn r)
         \<and> (\<Sum>a \<leftarrow> tp_children p. ta_value a) = tp_value p
         \<and> apps_exact bn (node_rows u p rs) (tp_children p))"

lemma user_node_exact:
  fixes bn :: "TreemapRow \<Rightarrow> nat" and rs uid
  defines "gs \<equiv> filter (\<lambda>r. tm_uid r = uid) rs"
  assumes "\<And>r. r \<in> set gs \<Longrightarrow> Number_cell (tm_bytes r) = of_nat (bn r)" and small: "(\<Sum>r \<leftarrow> gs. bn r) \<le> 2 ^ 53"
  shows "user_exact bn rs (user_node user topn (uid, accum tm_name add_app_bytes gs []))"
proof -
  define u where "u = user_node user topn (uid, accum tm_name add_app_bytes gs [])"
  define ps where "ps = sort_by (byValue tp_value tp_name) (map proc_node (accum tm_name add_app_bytes gs []))"
  note pn = proc_nodes [OF assms(2) small, folded ps_def]
  define kept where "kept = (if length ps > topn + 1 then take topn ps else ps)"
  define rest where "rest = (if length ps > topn + 1 then drop topn ps else [])"
  have ps: "ps = kept @ rest" by (simp add: kept_def rest_def)
  have u: "tu_uid u = uid" "tu_children u = kept @ (if rest = [] then [] else [fold_rest rest])"
    "tu_value u = fsum (map tp_value (tu_children u))"
    by (auto simp: u_def user_node_def Let_def kept_def rest_def ps_def)
  have kept: "tp_folded p = None" "apps_exact bn (filter (\<lambda>r. tm_name r = tp_name p) gs) (tp_children p)"
    "tp_value p = of_nat (\<Sum>r \<leftarrow> filter (\<lambda>r. tm_name r = tp_name p) gs. bn r)" if "p \<in> set kept \<or> p \<in> set rest" for p
    using that pn(3) [of p] by (auto simp: ps)
  have dis: "distinct (map tp_name kept)" "distinct (map tp_name rest)" "tp_name ` set kept \<inter> tp_name ` set rest = {}"
    using pn(1) by (auto simp: ps)
  let ?R = "filter (\<lambda>r. tm_name r \<in> tp_name ` set rest) gs"
  have rest: "apps_exact bn ?R (tp_children (fold_rest rest))" "tp_value (fold_rest rest) = of_nat (\<Sum>r \<leftarrow> ?R. bn r)"
    using fold_rest_exact [OF dis(2) kept(2,3) small] by blast+
  have fr: "tp_folded (fold_rest rest) \<noteq> None" by (simp add: fold_rest_def Let_def)
  have rows: "node_rows u p rs = filter (\<lambda>r. tm_name r = tp_name p) gs" if "p \<in> set kept" for p
    using kept(1) [of p] that by (simp add: node_rows_def gs_def u(1) conj_commute)
  have nm: "tm_name r \<in> tp_name ` set rest \<longleftrightarrow> (\<forall>q \<in> set (tu_children u). tp_folded q = None \<longrightarrow> tp_name q \<noteq> tm_name r)"
    if "r \<in> set gs" for r
  proof -
    have "tm_name r \<in> tp_name ` set kept \<union> tp_name ` set rest" using pn(2) that by (auto simp: ps)
    then show ?thesis using dis(3) kept(1) fr by (auto simp: u(2))
  qed
  have "node_rows u (fold_rest rest) rs = filter (\<lambda>r. \<forall>q \<in> set (tu_children u). tp_folded q = None \<longrightarrow> tp_name q \<noteq> tm_name r) gs"
    using fr by (auto simp: node_rows_def gs_def u(1) list_all_iff conj_commute)
  also have "\<dots> = ?R" by (rule filter_cong [OF refl nm [symmetric]])
  finally have rrows: "node_rows u (fold_rest rest) rs = ?R" .
  have node: "tp_value p = of_nat (\<Sum>r \<leftarrow> node_rows u p rs. bn r) \<and> apps_exact bn (node_rows u p rs) (tp_children p)"
    if "p \<in> set (tu_children u)" for p
    using that kept(2,3) [of p] rest rows rrows by (auto simp: u(2) split: if_splits)
  have "(\<Sum>p \<leftarrow> kept. \<Sum>r \<leftarrow> node_rows u p rs. bn r) + (\<Sum>r \<leftarrow> ?R. bn r) = (\<Sum>r \<leftarrow> gs. bn r)"
  proof -
    have "(\<Sum>p \<leftarrow> ps. \<Sum>r \<leftarrow> filter (\<lambda>r. tm_name r = tp_name p) gs. bn r) = (\<Sum>r \<leftarrow> gs. bn r)"
      using sum_by_key [of "map tp_name ps" tm_name gs bn] pn(1,2) by (simp add: comp_def)
    moreover have "(\<Sum>p \<leftarrow> rest. \<Sum>r \<leftarrow> filter (\<lambda>r. tm_name r = tp_name p) gs. bn r) = (\<Sum>r \<leftarrow> ?R. bn r)"
      using sum_by_names [OF dis(2), where pr = "\<lambda>r. True" and gs = gs and bn = bn] by simp
    moreover have "(\<Sum>p \<leftarrow> kept. \<Sum>r \<leftarrow> node_rows u p rs. bn r)
        = (\<Sum>p \<leftarrow> kept. \<Sum>r \<leftarrow> filter (\<lambda>r. tm_name r = tp_name p) gs. bn r)"
      using rows by (simp cong: map_cong)
    ultimately show ?thesis by (simp add: ps)
  qed
  then have all: "(\<Sum>p \<leftarrow> tu_children u. \<Sum>r \<leftarrow> node_rows u p rs. bn r) = (\<Sum>r \<leftarrow> gs. bn r)"
    by (auto simp: u(2) rrows)
  have val: "tu_value u = of_nat (\<Sum>r \<leftarrow> gs. bn r)"
    unfolding u(3) all [symmetric] using node small all by (intro fsum_nats) auto
  have "(\<Sum>p \<leftarrow> tu_children u. tp_value p) = (\<Sum>p \<leftarrow> tu_children u. of_nat (\<Sum>r \<leftarrow> node_rows u p rs. bn r))"
    using node by (simp cong: map_cong)
  also have "\<dots> = tu_value u" by (simp only: val all [symmetric] of_nat_sum_list map_map comp_def)
  finally have kids: "(\<Sum>p \<leftarrow> tu_children u. tp_value p) = tu_value u" .
  have "filter (\<lambda>p. tp_folded p = None) (tu_children u) = kept"
    using kept(1) fr by (auto simp: u(2) filter_id_conv)
  then show ?thesis
    using val kids node dis(1) apps_exact_sum(1) unfolding user_exact_def u_def [symmetric]
    by (metis gs_def u(1))
qed

text \<open>
  (C35) The treemap loses no bytes, at any level: for rows whose byte counts are natural numbers with
  a sum that a number holds exactly, every user of the rows occurs once, largest first, with the
  exact sum of the bytes of its rows, which is the sum of its processes' values. A process node has
  the bytes of the process's rows, and the folded node those of all processes without a node of their
  own; below each of them, the folded one included, every application of those rows occurs once,
  with exactly the bytes of its rows, and they add up to the node's value. No user has more than
  \<open>top\<close> processes besides the last one or the folded node (which is made only for two or more).
\<close>

theorem buildTreemap_conserved:
  fixes bn :: "TreemapRow \<Rightarrow> nat"
  assumes "\<forall>r \<in> set rows. Number_cell (tm_bytes r) = of_nat (bn r)" and "(\<Sum>r \<leftarrow> rows. bn r) \<le> 2 ^ 53"
  shows "let us = buildTreemap rows user topn; good = filter (\<lambda>r. 0 < bn r) rows in
    distinct (map tu_uid us) \<and> set (map tu_uid us) = tm_uid ` set good
    \<and> sorted_wrt (\<lambda>a b. tu_value b \<le> tu_value a) us
    \<and> (\<forall>u \<in> set us.
        tu_value u = of_nat (\<Sum>r \<leftarrow> filter (\<lambda>r. tm_uid r = tu_uid u) rows. bn r)
        \<and> (\<Sum>p \<leftarrow> tu_children u. tp_value p) = tu_value u
        \<and> distinct (map tp_name (filter (\<lambda>p. tp_folded p = None) (tu_children u)))
        \<and> (\<forall>p \<in> set (tu_children u). tp_value p = of_nat (\<Sum>r \<leftarrow> node_rows u p good. bn r)
            \<and> (\<Sum>a \<leftarrow> tp_children p. ta_value a) = tp_value p
            \<and> distinct (map ta_name (tp_children p))
            \<and> ta_name ` set (tp_children p) = tm_app ` set (node_rows u p good)
            \<and> (\<forall>a \<in> set (tp_children p). ta_value a
                = of_nat (\<Sum>r \<leftarrow> filter (\<lambda>r. tm_app r = ta_name a) (node_rows u p good). bn r)))
        \<and> length (tu_children u) \<le> topn + 1)"
proof -
  define good where "good = filter (\<lambda>r. Number_cell (tm_bytes r) > 0) rows"
  have good: "good = filter (\<lambda>r. 0 < bn r) rows" unfolding good_def using assms(1) by (intro filter_cong) auto
  let ?m = "accum tm_uid add_tree good []"
  let ?us = "buildTreemap rows user topn"
  have us: "?us = sort_by (by_then (desc_by tu_value) (asc_by tu_uid)) (map (user_node user topn) ?m)"
    by (simp add: buildTreemap_def good_def)
  have uids: "map tu_uid (map (user_node user topn) ?m) = map fst ?m" by (simp add: user_node_def Let_def comp_def)
  have "mset (map tu_uid ?us) = mset (map fst ?m)" by (metis us uids mset_map mset_sort_by)
  then have dis: "distinct (map tu_uid ?us)" "set (map tu_uid ?us) = tm_uid ` set good"
    by (metis distinct_keys_accum mset_eq_imp_distinct_iff, metis mset_eq_setD list.set_map set_keys_accum)
  have "sorted_wrt (by_then (desc_by tu_value) (asc_by tu_uid)) ?us"
    unfolding us by (intro sort_by_sorted_wrt comparator_by_then comparator_desc_by comparator_asc_by)
  then have "sorted_wrt (desc_by tu_value) ?us" by (rule sorted_by_then)
  then have srt: "sorted_wrt (\<lambda>a b. tu_value b \<le> tu_value a) ?us" by (simp add: desc_by_def [abs_def])
  have drop0: "(\<Sum>r \<leftarrow> filter (\<lambda>r. tm_uid r = uid) (filter (\<lambda>r. 0 < bn r) rs). bn r)
      = (\<Sum>r \<leftarrow> filter (\<lambda>r. tm_uid r = uid) rs. bn r)" for uid rs by (induction rs) auto
  have "user_exact bn good u \<and> length (tu_children u) \<le> topn + 1" if "u \<in> set ?us" for u
  proof -
    from that obtain uid m where u: "u = user_node user topn (uid, m)" and in_m: "(uid, m) \<in> set ?m" by (auto simp: us)
    let ?gs = "filter (\<lambda>r. tm_uid r = uid) good"
    have f: "foldl (\<lambda>v g. Some (add_tree v g)) None ?gs = Some m" using in_m unfolding in_accum_iff .
    then have ne: "?gs \<noteq> []" by auto
    with f add_tree_fold [OF ne] have m: "m = accum tm_name add_app_bytes ?gs []" by simp
    have "(\<Sum>r \<leftarrow> ?gs. bn r) \<le> 2 ^ 53" unfolding good drop0 by (rule order_trans [OF sum_list_filter_le assms(2)])
    then have "user_exact bn good u"
      unfolding u m using assms(1) by (intro user_node_exact) (auto simp: good_def)
    moreover have "length (tu_children u) \<le> topn + 1" by (simp add: u user_node_def Let_def)
    ultimately show ?thesis by simp
  qed
  then show ?thesis
    using dis srt unfolding Let_def good user_exact_def apps_exact_def drop0 by blast
qed

definition sample_tree :: "nat \<Rightarrow> string \<Rightarrow> TreemapRow" where
  "sample_tree u n = \<lparr> tm_uid = u, tm_name = n, tm_app = ''HTTPS'', tm_bytes = Quoted ''100'' \<rparr>"

theorem buildTreemap_conserved_witness:
  "\<exists>u. buildTreemap [sample_tree 1000 ''curl'', sample_tree 1000 ''ssh'', sample_tree 1000 ''wget''] (\<lambda>_. None) 1 = [u]
     \<and> tu_value u = 300 \<and> (\<Sum>p \<leftarrow> tu_children u. tp_value p) = 300
     \<and> list_all (\<lambda>p. (\<Sum>a \<leftarrow> tp_children p. ta_value a) = tp_value p) (tu_children u)"
proof -
  let ?rows = "[sample_tree 1000 ''curl'', sample_tree 1000 ''ssh'', sample_tree 1000 ''wget'']"
  have n: "Number_cell (Quoted ''100'') = 100" by code_simp
  have "\<forall>r \<in> set ?rows. Number_cell (tm_bytes r) = of_nat 100" using n by (auto simp: sample_tree_def)
  note t = buildTreemap_conserved [OF this, of "\<lambda>_. None" 1]
  define us where "us = buildTreemap ?rows (\<lambda>_. None) 1"
  have "distinct (map tu_uid us)" "set (map tu_uid us) = {1000}" 
    and v: "\<forall>u \<in> set us. tu_value u = of_nat (\<Sum>r \<leftarrow> filter (\<lambda>r. tm_uid r = tu_uid u) ?rows. 100)
        \<and> (\<Sum>p \<leftarrow> tu_children u. tp_value p) = tu_value u
        \<and> list_all (\<lambda>p. (\<Sum>a \<leftarrow> tp_children p. ta_value a) = tp_value p) (tu_children u)"
    using t by (simp_all add: Let_def us_def sample_tree_def list_all_iff)
  then have "map tu_uid us = [1000]" by (cases us; cases "tl us") auto
  then obtain u where "us = [u]" "tu_uid u = 1000" by auto
  with v show ?thesis by (auto simp: us_def sample_tree_def)
qed

end
