(* ===== verification/NewDests.thy ===== *)
theory NewDests
  imports Beacons Processes
begin

text \<open>
  \<^verbatim>\<open>web/src/server/ch/newDests.ts\<close>: the first contacts of programs with addresses. The two queries, and
  the answer built from their rows: hidden rows dropped, the bytes of each destination's first hour.
\<close>

definition NEW_DESTS_LIMIT_DEFAULT :: int where "NEW_DESTS_LIMIT_DEFAULT = 500"
definition NEW_DESTS_LIMIT_MAX :: int where "NEW_DESTS_LIMIT_MAX = 2000"
definition WARMUP_MS :: int where "WARMUP_MS = 24 * 3600000"
definition NEW_DESTS_SLOW_MS :: int where "NEW_DESTS_SLOW_MS = 1000"
definition HOUR_S :: int where "HOUR_S = 3600"

definition NO_PEER :: string where
  "NO_PEER = ''raddr NOT IN (toIPv6('' @ quote ''::'' @ ''), toIPv6('' @ quote ''0.0.0.0'' @ ''))''"

definition LOOPBACK :: string where
  "LOOPBACK = ''(raddr = toIPv6('' @ quote ''::1'' @ '') OR (raddr >= toIPv6('' @ quote ''127.0.0.0'' @ '') AND raddr <= toIPv6(''
     @ quote ''127.255.255.255'' @ '')))''"

text \<open>The first contacts' minute \<open>fm\<close> (or the expression in its place) within the range.\<close>

definition IN_RANGE :: "string \<Rightarrow> sql" where
  "IN_RANGE fm = [T (fm @ '' >= toDateTime(intDiv(''), P ''from'' ''Int64'', T ('', 1000)) AND '' @ fm @ '' < toDateTime(intDiv(''),
     P ''to'' ''Int64'', T '', 1000))'']"

record NewDestsOptions =
  nd_from :: int
  nd_to :: int
  nd_names :: "string list option"
  nd_ports :: bool
  nd_loopback :: bool
  nd_warmup :: bool
  nd_limit :: nat

definition flag :: "bool \<Rightarrow> pval" where
  "flag b = PInt (if b then 1 else 0)"

definition dest_key :: "bool \<Rightarrow> string" where
  "dest_key ports = (if ports then ''name, raddr, rport'' else ''name, raddr'')"

definition newDestsQuery :: "NewDestsOptions \<Rightarrow> sql_query" where
  "newDestsQuery o' =
     (let n = opt_cond NAMES_COND ''names'' (map_option PStrs (nd_names o'));
          port = (if nd_ports o' then ''rport'' else ''argMin(rport, minute)'');
          lo = P ''show_lo'' ''UInt8''; warm = P ''show_warm'' ''UInt8''
      in ([T ''SELECT name, ip, port, app, proto, first_s, iid, lo, warm, countIf(lo AND NOT '', lo,
           T '') OVER () AS n_lo, countIf(warm AND NOT '', warm, T '' AND NOT (lo AND NOT '', lo,
           T ('')) OVER () AS n_warm, countIf(NOT hidden) OVER () AS n_vis FROM ( SELECT name, '' @ DISPLAY_IP @ '' AS ip, '' @ port
             @ '' AS port, argMin(app, minute) AS app, argMin(proto, minute) AS proto, argMin('' @ colon_id
             @ '', minute) AS iid, min(minute) AS fm, toUnixTimestamp(fm) AS first_s, '' @ LOOPBACK
             @ '' AS lo, fm < (SELECT min(minute) FROM flows_1m) + toIntervalSecond(''), P ''warmup_s'' ''UInt32'',
           T '') AS warm, (lo AND NOT '', lo, T '') OR (warm AND NOT '', warm, T ('') AS hidden FROM flows_1m WHERE '' @ NO_PEER)]
           @ fst n @ [T ('' GROUP BY '' @ dest_key (nd_ports o') @ '' HAVING '')] @ IN_RANGE ''fm''
           @ [T '' ) ORDER BY hidden, first_s, name, ip, port LIMIT '', P ''limit'' ''UInt32''],
          [(''from'', PInt (nd_from o')), (''to'', PInt (nd_to o')), (''limit'', PInt (int (nd_limit o'))),
           (''show_lo'', flag (nd_loopback o')), (''show_warm'', flag (nd_warmup o')), (''warmup_s'', PInt (WARMUP_MS div 1000))]
          @ snd n))"

definition firstHourQuery :: "NewDestsOptions \<Rightarrow> sql_query" where
  "firstHourQuery o' =
     (let n = opt_cond NAMES_COND ''names'' (map_option PStrs (nd_names o')); key = dest_key (nd_ports o')
      in ([T (''SELECT name, '' @ DISPLAY_IP @ '' AS ip, '' @ (if nd_ports o' then ''rport'' else ''0'')
             @ '' AS port, toUnixTimestamp(minute) AS m, sum(tx_bytes + rx_bytes) AS bytes FROM flows_1m ''
             @ ''WHERE minute >= toDateTime(intDiv(''), P ''from'' ''Int64'',
           T '', 1000)) - INTERVAL 1 MINUTE AND minute < toDateTime(intDiv('', P ''to'' ''Int64'',
           T ('', 1000)) + INTERVAL 1 HOUR AND ('' @ key @ '') IN ( SELECT '' @ key @ '' FROM flows_1m WHERE '' @ NO_PEER)]
           @ fst n @ [T ('' GROUP BY '' @ key @ '' HAVING '')] @ IN_RANGE ''min(minute)''
           @ [T '') GROUP BY name, raddr, port, minute''],
          [(''from'', PInt (nd_from o')), (''to'', PInt (nd_to o'))] @ snd n))"

record NewDestRow =
  nr_name :: string
  nr_ip :: string
  nr_port :: nat
  nr_app :: string
  nr_proto :: string
  nr_first_s :: int
  nr_iid :: string
  nr_lo :: nat
  nr_warm :: nat
  nr_n_lo :: cell
  nr_n_warm :: cell
  nr_n_vis :: cell

record FirstHourRow =
  fh_name :: string
  fh_ip :: string
  fh_port :: nat
  fh_m :: int
  fh_bytes :: cell

definition keyOf :: "string \<Rightarrow> string \<Rightarrow> nat \<Rightarrow> string" where
  "keyOf name ip port = name @ [CHR 0x00] @ ip @ [CHR 0x00] @ string_of_nat port"

record NewDest =
  nw_name :: string
  nw_ip :: string
  nw_geo :: "Geo option"
  nw_port :: nat
  nw_dest :: string
  nw_app :: string
  nw_proto :: string
  nw_firstMs :: int
  nw_firstHourBytes :: num
  nw_id :: string
  nw_pid :: "num option"
  nw_loopback :: bool
  nw_warmup :: bool

record NewDestsResponse =
  nds_from :: int
  nds_to :: int
  nds_ports :: bool
  nds_dests :: "NewDest list"
  nds_truncated :: bool
  nds_hidden :: "num \<times> num"
  nds_warmupUntil :: "int option"

definition nd_visible :: "NewDestsOptions \<Rightarrow> NewDestRow \<Rightarrow> bool" where
  "nd_visible o' r \<longleftrightarrow> \<not> ((nr_lo r \<noteq> 0 \<and> \<not> nd_loopback o') \<or> (nr_warm r \<noteq> 0 \<and> \<not> nd_warmup o'))"

definition first_hour_bytes :: "(int \<times> num) list \<Rightarrow> int \<Rightarrow> num" where
  "first_hour_bytes l first = foldl (\<lambda>bytes (m, b). if m \<ge> first \<and> m < first + HOUR_S then fadd bytes b else bytes) 0 l"

definition push_hour :: "(int \<times> num) list option \<Rightarrow> FirstHourRow \<Rightarrow> (int \<times> num) list" where
  "push_hour v h = (case v of Some l \<Rightarrow> l | None \<Rightarrow> []) @ [(fh_m h, Number_cell (fh_bytes h))]"

definition buildNewDests ::
  "NewDestRow list \<Rightarrow> FirstHourRow list \<Rightarrow> NewDestsOptions \<Rightarrow> int option \<Rightarrow> NewDestsResponse" where
  "buildNewDests rows hours o' firstMinuteMs =
     (let perKey = accum (\<lambda>h. keyOf (fh_name h) (fh_ip h) (if nd_ports o' then fh_port h else 0)) push_hour hours [];
          visible = filter (nd_visible o') rows;
          dests = map (\<lambda>r.
            let first = nr_first_s r;
                bytes = first_hour_bytes (case map_get perKey (keyOf (nr_name r) (nr_ip r) (if nd_ports o' then nr_port r else 0)) of
                  Some l \<Rightarrow> l | None \<Rightarrow> []) first
            in \<lparr> nw_name = nr_name r, nw_ip = nr_ip r, nw_geo = None, nw_port = nr_port r, nw_dest = destText (nr_ip r) (nr_port r),
                 nw_app = nr_app r, nw_proto = nr_proto r, nw_firstMs = first * 1000, nw_firstHourBytes = bytes,
                 nw_id = nr_iid r,
                 nw_pid = js_Number (case index_of CHR '':'' (nr_iid r) of Some i \<Rightarrow> take i (nr_iid r) | None \<Rightarrow> butlast (nr_iid r)),
                 nw_loopback = (nr_lo r = 1), nw_warmup = (nr_warm r = 1) \<rparr>) (take (nd_limit o') visible);
          nVis = (case rows of [] \<Rightarrow> 0 | h # _ \<Rightarrow> Number_cell (nr_n_vis h))
      in \<lparr> nds_from = nd_from o', nds_to = nd_to o', nds_ports = nd_ports o', nds_dests = dests,
           nds_truncated = (nVis > of_nat (nd_limit o')),
           nds_hidden = (case rows of [] \<Rightarrow> (0, 0) | h # _ \<Rightarrow> (Number_cell (nr_n_lo h), Number_cell (nr_n_warm h))),
           nds_warmupUntil = map_option (\<lambda>m. m + WARMUP_MS) firstMinuteMs \<rparr>)"

section \<open>The queries meet the contract\<close>

lemma placeholders_IN_RANGE [simp]: "placeholders (IN_RANGE fm) = {''from'', ''to''}"
  by (auto simp: IN_RANGE_def)

interpretation new_dests_query: param_query newDestsQuery "\<lambda>o'. (nd_names o' \<noteq> None, nd_ports o')"
proof
  fix o' p' :: NewDestsOptions
  assume "(nd_names o' \<noteq> None, nd_ports o') = (nd_names p' \<noteq> None, nd_ports p')"
  then have c: "(map_option PStrs (nd_names o') = None) = (map_option PStrs (nd_names p') = None)" "nd_ports o' = nd_ports p'" by auto
  show "fst (newDestsQuery o') = fst (newDestsQuery p')"
    unfolding newDestsQuery_def Let_def fst_conv opt_cond_text [OF c(1)] c(2) ..
next
  show "bound_in (snd (newDestsQuery o')) (fst (newDestsQuery o'))" for o'
    unfolding newDestsQuery_def Let_def fst_conv snd_conv bound_in_def by (auto simp: opt_cond_bound image_Un)
qed

interpretation first_hour_query: param_query firstHourQuery "\<lambda>o'. (nd_names o' \<noteq> None, nd_ports o')"
proof
  fix o' p' :: NewDestsOptions
  assume "(nd_names o' \<noteq> None, nd_ports o') = (nd_names p' \<noteq> None, nd_ports p')"
  then have c: "(map_option PStrs (nd_names o') = None) = (map_option PStrs (nd_names p') = None)" "nd_ports o' = nd_ports p'" by auto
  show "fst (firstHourQuery o') = fst (firstHourQuery p')"
    unfolding firstHourQuery_def Let_def fst_conv opt_cond_text [OF c(1)] c(2) ..
next
  show "bound_in (snd (firstHourQuery o')) (fst (firstHourQuery o'))" for o'
    unfolding firstHourQuery_def Let_def fst_conv snd_conv bound_in_def by (auto simp: opt_cond_bound image_Un)
qed

section \<open>The answer\<close>

lemma push_hour_fold:
  "foldl (\<lambda>v h. Some (push_hour v h)) None hs = (if hs = [] then None else Some (map (\<lambda>h. (fh_m h, Number_cell (fh_bytes h))) hs))"
  by (induction hs rule: rev_induct) (auto simp: push_hour_def)

lemma first_hour_bytes_eq:
  "first_hour_bytes l t = fsum (map snd (filter (\<lambda>(m, b). t \<le> m \<and> m < t + HOUR_S) l))"
  by (induction l rule: rev_induct) (simp_all add: first_hour_bytes_def split: prod.split)

lemma keyOf_inj:
  assumes "CHR 0x00 \<notin> set n" "CHR 0x00 \<notin> set i" "CHR 0x00 \<notin> set n'" "CHR 0x00 \<notin> set i'"
  shows "keyOf n i p = keyOf n' i' p' \<longleftrightarrow> n = n' \<and> i = i' \<and> p = p'"
proof
  assume eq: "keyOf n i p = keyOf n' i' p'"
  have d: "CHR 0x00 \<notin> set (string_of_nat q)" for q
    using string_of_nat_digits [of q] by (auto simp: list_all_iff is_digit_def)
  have "split_char (CHR 0x00) (keyOf n i p) = [n, i, string_of_nat p]"
    using assms d [of p] by (simp add: keyOf_def split_char_append split_char_no_sep)
  moreover have "split_char (CHR 0x00) (keyOf n' i' p') = [n', i', string_of_nat p']"
    using assms d [of p'] by (simp add: keyOf_def split_char_append split_char_no_sep)
  ultimately have "n = n'" "i = i'" "string_of_nat p = string_of_nat p'" using eq by auto
  then show "n = n' \<and> i = i' \<and> p = p'" by (metis dec_val_string_of_nat)
qed simp

text \<open>
  The first contacts of a range: the answer lists the visible rows of the query in their order,
  up to the limit; loopback and warm-up rows only when asked for. Each one's first-hour bytes are
  the sum of exactly the rows of the second query with the same program and address (and port, when
  keyed by port) whose minute lies in the hour from its first contact, for names and addresses
  without null characters.
\<close>

theorem buildNewDests_first_hour:
  assumes "\<forall>r \<in> set rows. CHR 0x00 \<notin> set (nr_name r) \<and> CHR 0x00 \<notin> set (nr_ip r)"
    and "\<forall>h \<in> set hours. CHR 0x00 \<notin> set (fh_name h) \<and> CHR 0x00 \<notin> set (fh_ip h)"
  shows "let out = nds_dests (buildNewDests rows hours o' fm); vis = take (nd_limit o') (filter (nd_visible o') rows) in
    map nw_name out = map nr_name vis \<and> map nw_ip out = map nr_ip vis \<and> map nw_port out = map nr_port vis
    \<and> map nw_firstMs out = map (\<lambda>r. nr_first_s r * 1000) vis
    \<and> (\<forall>d \<in> set out. (nw_loopback d \<longrightarrow> nd_loopback o') \<and> (nw_warmup d \<longrightarrow> nd_warmup o'))
    \<and> map nw_firstHourBytes out = map (\<lambda>r. fsum (map (\<lambda>h. Number_cell (fh_bytes h))
        (filter (\<lambda>h. fh_name h = nr_name r \<and> fh_ip h = nr_ip r \<and> (nd_ports o' \<longrightarrow> fh_port h = nr_port r)
          \<and> nr_first_s r \<le> fh_m h \<and> fh_m h < nr_first_s r + 3600) hours))) vis"
proof -
  define vis where "vis = take (nd_limit o') (filter (nd_visible o') rows)"
  let ?kh = "\<lambda>h. keyOf (fh_name h) (fh_ip h) (if nd_ports o' then fh_port h else 0)"
  let ?kr = "\<lambda>r. keyOf (nr_name r) (nr_ip r) (if nd_ports o' then nr_port r else 0)"
  let ?m = "accum ?kh push_hour hours []"
  have sub: "r \<in> set rows" "nd_visible o' r" if "r \<in> set vis" for r
    using that unfolding vis_def by (auto dest: in_set_takeD)
  have "first_hour_bytes (case map_get ?m (?kr r) of Some l \<Rightarrow> l | None \<Rightarrow> []) (nr_first_s r)
      = fsum (map (\<lambda>h. Number_cell (fh_bytes h)) (filter (\<lambda>h. fh_name h = nr_name r \<and> fh_ip h = nr_ip r
          \<and> (nd_ports o' \<longrightarrow> fh_port h = nr_port r) \<and> nr_first_s r \<le> fh_m h \<and> fh_m h < nr_first_s r + 3600) hours))"
    if "r \<in> set vis" for r
  proof -
    have "?kh h = ?kr r \<longleftrightarrow> fh_name h = nr_name r \<and> fh_ip h = nr_ip r \<and> (nd_ports o' \<longrightarrow> fh_port h = nr_port r)"
      if "h \<in> set hours" for h
      using assms(1,2) sub(1) [OF \<open>r \<in> set vis\<close>] that by (subst keyOf_inj) auto
    then have "filter (\<lambda>h. ?kh h = ?kr r) hours
      = filter (\<lambda>h. fh_name h = nr_name r \<and> fh_ip h = nr_ip r \<and> (nd_ports o' \<longrightarrow> fh_port h = nr_port r)) hours"
      by (intro filter_cong) auto
    moreover have "map_get ?m k = foldl (\<lambda>v h. Some (push_hour v h)) None (filter (\<lambda>h. ?kh h = k) hours)" for k
      unfolding get_accum by (simp add: map_get_def)
    ultimately have "(case map_get ?m (?kr r) of Some l \<Rightarrow> l | None \<Rightarrow> []) = map (\<lambda>h. (fh_m h, Number_cell (fh_bytes h)))
        (filter (\<lambda>h. fh_name h = nr_name r \<and> fh_ip h = nr_ip r \<and> (nd_ports o' \<longrightarrow> fh_port h = nr_port r)) hours)"
      by (simp only: push_hour_fold) simp
    then show ?thesis by (simp add: first_hour_bytes_eq filter_map comp_def HOUR_S_def conj_ac)
  qed
  moreover have "nd_loopback o'" if "r \<in> set vis" "nr_lo r = 1" for r using sub(2) [OF that(1)] that(2) by (simp add: nd_visible_def)
  moreover have "nd_warmup o'" if "r \<in> set vis" "nr_warm r = 1" for r using sub(2) [OF that(1)] that(2) by (simp add: nd_visible_def)
  ultimately show ?thesis
    unfolding buildNewDests_def Let_def vis_def [symmetric] by (auto simp: comp_def)
qed

definition sample_nd :: NewDestRow where
  "sample_nd = \<lparr> nr_name = ''curl'', nr_ip = ''1.1.1.1'', nr_port = 443, nr_app = ''HTTPS'', nr_proto = ''tcp'', nr_first_s = 60,
     nr_iid = ''7:99'', nr_lo = 0, nr_warm = 0, nr_n_lo = Plain 0, nr_n_warm = Plain 0, nr_n_vis = Plain 1 \<rparr>"

definition sample_hour :: "int \<Rightarrow> FirstHourRow" where
  "sample_hour m = \<lparr> fh_name = ''curl'', fh_ip = ''1.1.1.1'', fh_port = 80, fh_m = m, fh_bytes = Plain 5 \<rparr>"

definition sample_opts :: NewDestsOptions where
  "sample_opts = \<lparr> nd_from = 0, nd_to = 120000, nd_names = None, nd_ports = False, nd_loopback = False, nd_warmup = False, nd_limit = 10 \<rparr>"

theorem buildNewDests_first_hour_witness:
  "map nw_firstHourBytes (nds_dests (buildNewDests [sample_nd] [sample_hour 0, sample_hour 60, sample_hour 3660] sample_opts None))
     = [fadd 0 5]"
proof -
  let ?hs = "[sample_hour 0, sample_hour 60, sample_hour 3660]"
  have h: "\<forall>r \<in> set [sample_nd]. CHR 0x00 \<notin> set (nr_name r) \<and> CHR 0x00 \<notin> set (nr_ip r)"
    "\<forall>h \<in> set ?hs. CHR 0x00 \<notin> set (fh_name h) \<and> CHR 0x00 \<notin> set (fh_ip h)" by (auto simp: sample_nd_def sample_hour_def)
  show ?thesis
    using buildNewDests_first_hour [OF h, of sample_opts None]
    by (simp add: Let_def sample_nd_def sample_hour_def sample_opts_def nd_visible_def Number_cell_def fsum_def)
qed

end
