(* ===== verification/GeoBreakdown.thy ===== *)
theory GeoBreakdown
  imports Beacons Sums
begin

text \<open>
  \<^verbatim>\<open>web/src/server/ch/geo.ts\<close>: bytes by autonomous system, by country and per destination. The database
  gives sums per address; the grouping runs here, with the lookup of the geo table (\<open>None\<close> when no
  table is loaded).
\<close>

datatype GeoDir = GTotal | GTx | GRx

definition GEO_IP_LIMIT :: int where "GEO_IP_LIMIT = 5000"

definition parseGeoDir :: "qval option \<Rightarrow> GeoDir result" where
  "parseGeoDir raw = pick_msg ''dir: expected total, tx or rx'' [(''total'', GTotal), (''tx'', GTx), (''rx'', GRx)] GTotal raw"

definition rankSql :: "GeoDir \<Rightarrow> string" where
  "rankSql d = (case d of GTx \<Rightarrow> ''tx'' | GRx \<Rightarrow> ''rx'' | GTotal \<Rightarrow> ''tx + rx'')"

definition rawRankSql :: "GeoDir \<Rightarrow> string" where
  "rawRankSql d = (case d of GTx \<Rightarrow> ''tx_bytes'' | GRx \<Rightarrow> ''rx_bytes'' | GTotal \<Rightarrow> ''tx_bytes + rx_bytes'')"

definition pick :: "GeoDir \<Rightarrow> num \<Rightarrow> num \<Rightarrow> num" where
  "pick d tx rx = (case d of GTx \<Rightarrow> tx | GRx \<Rightarrow> rx | GTotal \<Rightarrow> fadd tx rx)"

record IpTotalRow =
  ip_ip :: string
  ip_tx :: cell
  ip_rx :: cell

record TotalsRow =
  tot_tx :: cell
  tot_rx :: cell
  tot_ips :: cell

record geo_req =
  gq_range :: Range
  gq_dir :: GeoDir
  gq_filters :: Filters
  gq_limit :: int

definition geo_params :: "geo_req \<Rightarrow> params" where
  "geo_params q = rangeParams (gq_range q) @ snd (filterSql (gq_filters q)) @ [(''limit'', PInt (gq_limit q))]"

definition geo_source :: "geo_req \<Rightarrow> sql" where
  "geo_source q = (let r = gq_range q; time = timeFilter r in
     flowSource (r_table r) time (fl_uid (gq_filters q) \<noteq> None) @ [T '' WHERE ''] @ time @ fst (filterSql (gq_filters q)))"

definition perIpQuery :: "geo_req \<Rightarrow> sql_query" where
  "perIpQuery q =
     ([T (''SELECT '' @ DISPLAY_IP @ '' AS ip, sum(tx_bytes) AS tx, sum(rx_bytes) AS rx FROM '')] @ geo_source q
        @ [T ('' GROUP BY raddr HAVING '' @ rankSql (gq_dir q) @ '' > 0 ORDER BY '' @ rankSql (gq_dir q) @ '' DESC, ip LIMIT ''),
           P ''limit'' ''UInt32''], geo_params q)"

definition totalsQuery :: "geo_req \<Rightarrow> sql_query" where
  "totalsQuery q =
     ([T (''SELECT sum(tx_bytes) AS tx, sum(rx_bytes) AS rx, uniqExactIf(raddr, '' @ rawRankSql (gq_dir q) @ '' > 0) AS ips FROM '')]
        @ geo_source q, geo_params q)"

definition ipTotalsQueries :: "geo_req \<Rightarrow> sql_query \<times> sql_query" where
  "ipTotalsQueries q = (perIpQuery q, totalsQuery q)"

record GeoSum =
  gs_tx :: num
  gs_rx :: num
  gs_bytes :: num
  gs_ips :: nat

definition zero_sum :: GeoSum where
  "zero_sum = \<lparr> gs_tx = 0, gs_rx = 0, gs_bytes = 0, gs_ips = 0 \<rparr>"

definition addTo :: "GeoSum \<Rightarrow> num \<Rightarrow> num \<Rightarrow> num \<Rightarrow> GeoSum" where
  "addTo s tx rx bytes = \<lparr> gs_tx = fadd (gs_tx s) tx, gs_rx = fadd (gs_rx s) rx, gs_bytes = fadd (gs_bytes s) bytes,
     gs_ips = Suc (gs_ips s) \<rparr>"

type_synonym lookup = "ParsedIp \<Rightarrow> Geo option"

definition classify :: "string \<Rightarrow> lookup option \<Rightarrow> bool \<times> Geo option" where
  "classify ip lkp = (case parseIp ip of
       None \<Rightarrow> (False, None)
     | Some p \<Rightarrow> if ipScope p \<noteq> Public then (True, None)
         else (False, case lkp of Some l \<Rightarrow> l p | None \<Rightarrow> None))"

record AsnAcc =
  aa_asn :: int
  aa_org :: string
  aa_sum :: GeoSum
  aa_byCc :: "(string, num) jsmap"

record AsnRow =
  ar_asn :: int
  ar_org :: string
  ar_country :: string
  ar_sum :: GeoSum

record CountryRow =
  cr_country :: string
  cr_sum :: GeoSum

record geo_acc =
  ga_local :: GeoSum
  ga_unmatched :: GeoSum
  ga_asns :: "(int, AsnAcc) jsmap"
  ga_countries :: "(string, CountryRow) jsmap"
  ga_covered :: num

definition add_asn :: "Geo \<Rightarrow> num \<Rightarrow> num \<Rightarrow> num \<Rightarrow> AsnAcc option \<Rightarrow> AsnAcc" where
  "add_asn g tx rx bytes v =
     (let a = (case v of Some a \<Rightarrow> a | None \<Rightarrow> \<lparr> aa_asn = asn g, aa_org = org g, aa_sum = zero_sum, aa_byCc = [] \<rparr>)
      in a\<lparr> aa_sum := addTo (aa_sum a) tx rx bytes,
            aa_byCc := map_set (cc g) (fadd (case map_get (aa_byCc a) (cc g) of Some x \<Rightarrow> x | None \<Rightarrow> 0) bytes) (aa_byCc a) \<rparr>)"

definition add_country :: "string \<Rightarrow> num \<Rightarrow> num \<Rightarrow> num \<Rightarrow> CountryRow option \<Rightarrow> CountryRow" where
  "add_country c tx rx bytes v =
     (let ct = (case v of Some ct \<Rightarrow> ct | None \<Rightarrow> \<lparr> cr_country = c, cr_sum = zero_sum \<rparr>)
      in ct\<lparr> cr_sum := addTo (cr_sum ct) tx rx bytes \<rparr>)"

definition geo_step :: "GeoDir \<Rightarrow> lookup option \<Rightarrow> IpTotalRow \<Rightarrow> geo_acc \<Rightarrow> geo_acc" where
  "geo_step dir lkp row s =
     (let tx = Number_cell (ip_tx row); rx = Number_cell (ip_rx row); bytes = pick dir tx rx;
          s = s\<lparr> ga_covered := fadd (ga_covered s) bytes \<rparr>
      in case classify (ip_ip row) lkp of (local, geo) \<Rightarrow>
           if local then s\<lparr> ga_local := addTo (ga_local s) tx rx bytes \<rparr>
           else (case geo of
               None \<Rightarrow> s\<lparr> ga_unmatched := addTo (ga_unmatched s) tx rx bytes \<rparr>
             | Some g \<Rightarrow>
                 let s = s\<lparr> ga_asns := map_set (asn g) (add_asn g tx rx bytes (map_get (ga_asns s) (asn g))) (ga_asns s) \<rparr>
                 in if cc g \<noteq> []
                    then s\<lparr> ga_countries := map_set (cc g) (add_country (cc g) tx rx bytes (map_get (ga_countries s) (cc g))) (ga_countries s) \<rparr>
                    else s))"

definition best_country :: "(string, num) jsmap \<Rightarrow> string" where
  "best_country m = fst (foldl (\<lambda>(best, most) (c, b). if b > most \<or> (b = most \<and> c < best) then (c, b) else (best, most)) ([], -1) m)"

record Coverage =
  cov_ips :: nat
  cov_totalIps :: num
  cov_bytes :: num
  cov_totalBytes :: num

record GeoBreakdown =
  gb_from :: int
  gb_to :: int
  gb_table :: table
  gb_dir :: GeoDir
  gb_geo :: bool
  gb_coverage :: Coverage
  gb_local :: GeoSum
  gb_unmatched :: GeoSum

record GeoResult =
  gr_base :: GeoBreakdown
  gr_asns :: "AsnRow list"
  gr_countries :: "CountryRow list"

definition geo_init :: geo_acc where
  "geo_init = \<lparr> ga_local = zero_sum, ga_unmatched = zero_sum, ga_asns = [], ga_countries = [], ga_covered = 0 \<rparr>"

definition buildGeoBreakdown :: "IpTotalRow list \<Rightarrow> TotalsRow option \<Rightarrow> Range \<Rightarrow> GeoDir \<Rightarrow> lookup option \<Rightarrow> GeoResult" where
  "buildGeoBreakdown perIp totals r dir lkp =
     (let s = fold (geo_step dir lkp) perIp geo_init;
          asnRows = sort_by (by_then (desc_by (\<lambda>a. gs_bytes (ar_sum a))) (asc_by ar_asn))
            (map (\<lambda>(k, a). \<lparr> ar_asn = aa_asn a, ar_org = aa_org a, ar_country = best_country (aa_byCc a), ar_sum = aa_sum a \<rparr>) (ga_asns s));
          countryRows = sort_by (by_then (desc_by (\<lambda>c. gs_bytes (cr_sum c))) (asc_by cr_country)) (map snd (ga_countries s));
          tTx = (case totals of Some t \<Rightarrow> Number_cell (tot_tx t) | None \<Rightarrow> 0);
          tRx = (case totals of Some t \<Rightarrow> Number_cell (tot_rx t) | None \<Rightarrow> 0);
          tIps = (case totals of Some t \<Rightarrow> Number_cell (tot_ips t) | None \<Rightarrow> 0)
      in \<lparr> gr_base = \<lparr> gb_from = r_from r, gb_to = r_to r, gb_table = r_table r, gb_dir = dir, gb_geo = (lkp \<noteq> None),
             gb_coverage = \<lparr> cov_ips = length perIp, cov_totalIps = max (of_nat (length perIp)) tIps, cov_bytes = ga_covered s,
               cov_totalBytes = max (ga_covered s) (pick dir tTx tRx) \<rparr>,
             gb_local = ga_local s, gb_unmatched = ga_unmatched s \<rparr>,
           gr_asns = asnRows, gr_countries = countryRows \<rparr>)"

section \<open>The destination table\<close>

record DestQueryRow =
  dq_ip :: string
  dq_rport :: nat
  dq_tx :: cell
  dq_rx :: cell
  dq_app :: string
  dq_proto :: string
  dq_procs :: cell
  dq_names :: "string list"

definition destinationsQuery :: "geo_req \<Rightarrow> sql_query" where
  "destinationsQuery q =
     ([T (''SELECT '' @ DISPLAY_IP @ '' AS ip, rport, sum(ptx) AS tx, sum(prx) AS rx, argMax(app, ptx + prx) AS app, ''
          @ ''argMax(proto, ptx + prx) AS proto, length(arrayDistinct(arrayFlatten(groupArray(ids)))) AS procs, ''
          @ ''arraySlice(arrayDistinct(arrayFlatten(groupArray(nms))), 1, 5) AS names FROM ( SELECT raddr, rport, app, proto, ''
          @ ''sum(tx_bytes) AS ptx, sum(rx_bytes) AS prx, groupUniqArray(concat(toString(pid), '' @ quote '':''
          @ '', toString(proc_start))) AS ids, groupUniqArray(name) AS nms FROM '')] @ geo_source q
        @ [T ('' GROUP BY raddr, rport, app, proto ) GROUP BY raddr, rport HAVING '' @ rankSql (gq_dir q) @ '' > 0 ORDER BY ''
          @ rankSql (gq_dir q) @ '' DESC, ip, rport LIMIT ''), P ''limit'' ''UInt32''], geo_params q)"

datatype DestScope = ScopeAll | ScopePublic | ScopeLocal | ScopeUnmatched

record DestSelection =
  sel_asn :: "int option"
  sel_cc :: "string option"
  sel_scope :: DestScope

definition is_upper :: "char \<Rightarrow> bool" where
  "is_upper c \<longleftrightarrow> 65 \<le> (of_char c :: nat) \<and> (of_char c :: nat) \<le> 90"

definition parseDestSelection :: "query \<Rightarrow> DestSelection result" where
  "parseDestSelection q =
     bind_res (case q ''asn'' of
         None \<Rightarrow> Inr None
       | Some (QStr s) \<Rightarrow> if s = [] then Inr None
           else if digits_between 1 10 s \<and> 0 < Number_dec s \<and> Number_dec s < 2 ^ 32 then Inr (Some \<lfloor>Number_dec s\<rfloor>)
           else Inl (badRequest ''asn: expected an AS number'')
       | Some (QArr _) \<Rightarrow> Inl (badRequest ''asn: expected an AS number'')) (\<lambda>a.
     bind_res (case q ''cc'' of
         None \<Rightarrow> Inr None
       | Some (QStr s) \<Rightarrow> if s = [] then Inr None
           else if length s = 2 \<and> list_all is_upper s then Inr (Some s)
           else Inl (badRequest ''cc: expected an ISO 3166 alpha-2 code'')
       | Some (QArr _) \<Rightarrow> Inl (badRequest ''cc: expected an ISO 3166 alpha-2 code'')) (\<lambda>c.
     bind_res (case q ''scope'' of
         None \<Rightarrow> Inr ScopeAll
       | Some (QStr s) \<Rightarrow> if s = [] \<or> s = ''all'' then Inr ScopeAll else if s = ''public'' then Inr ScopePublic
           else if s = ''local'' then Inr ScopeLocal else if s = ''unmatched'' then Inr ScopeUnmatched
           else Inl (badRequest ''scope: expected all, public, local or unmatched'')
       | Some (QArr _) \<Rightarrow> Inl (badRequest ''scope: expected all, public, local or unmatched'')) (\<lambda>sc.
     Inr \<lparr> sel_asn = a, sel_cc = c, sel_scope = sc \<rparr>)))"

record DestRow =
  dr_ip :: string
  dr_port :: nat
  dr_dest :: string
  dr_geo :: "Geo option"
  dr_local :: bool
  dr_app :: string
  dr_proto :: string
  dr_tx :: num
  dr_rx :: num
  dr_procs :: num
  dr_names :: "string list"

definition keep_dest :: "DestSelection \<Rightarrow> lookup option \<Rightarrow> DestQueryRow \<Rightarrow> bool" where
  "keep_dest sel lkp row = (case classify (dq_ip row) lkp of (local, geo) \<Rightarrow>
     if sel_asn sel \<noteq> None \<and> map_option asn geo \<noteq> sel_asn sel then False
     else if sel_cc sel \<noteq> None \<and> map_option cc geo \<noteq> sel_cc sel then False
     else if sel_scope sel = ScopePublic \<and> local then False
     else if sel_scope sel = ScopeLocal \<and> \<not> local then False
     else if sel_scope sel = ScopeUnmatched \<and> (local \<or> geo \<noteq> None) then False
     else True)"

definition toDestRow :: "lookup option \<Rightarrow> DestQueryRow \<Rightarrow> DestRow" where
  "toDestRow lkp row = (case classify (dq_ip row) lkp of (local, geo) \<Rightarrow>
     \<lparr> dr_ip = dq_ip row, dr_port = dq_rport row, dr_dest = destText (dq_ip row) (dq_rport row), dr_geo = geo, dr_local = local,
       dr_app = dq_app row, dr_proto = dq_proto row, dr_tx = Number_cell (dq_tx row), dr_rx = Number_cell (dq_rx row),
       dr_procs = Number_cell (dq_procs row), dr_names = dq_names row \<rparr>)"

definition dest_step :: "DestSelection \<Rightarrow> lookup option \<Rightarrow> nat \<Rightarrow> DestQueryRow \<Rightarrow> DestRow list \<times> nat \<Rightarrow> DestRow list \<times> nat" where
  "dest_step sel lkp limit row s = (case s of (out, matched) \<Rightarrow>
     if \<not> keep_dest sel lkp row then (out, matched)
     else if length out \<ge> limit then (out, Suc matched)
     else (out @ [toDestRow lkp row], Suc matched))"

definition buildDestinations :: "DestQueryRow list \<Rightarrow> DestSelection \<Rightarrow> lookup option \<Rightarrow> nat \<Rightarrow> DestRow list \<times> nat" where
  "buildDestinations rows sel lkp limit = fold (dest_step sel lkp limit) rows ([], 0)"

section \<open>The queries meet the contract\<close>

definition geo_shape :: "geo_req \<Rightarrow> time_col \<times> table \<times> GeoDir \<times> bool list" where
  "geo_shape q = (r_col (gq_range q), r_table (gq_range q), gq_dir q, filter_shape (gq_filters q))"

lemma geo_source_text: "geo_shape q = geo_shape q' \<Longrightarrow> geo_source q = geo_source q' \<and> gq_dir q = gq_dir q'"
proof -
  assume "geo_shape q = geo_shape q'"
  then have c: "r_col (gq_range q) = r_col (gq_range q')" "r_table (gq_range q) = r_table (gq_range q')" "gq_dir q = gq_dir q'"
    "filter_shape (gq_filters q) = filter_shape (gq_filters q')" by (auto simp: geo_shape_def)
  show ?thesis
    unfolding geo_source_def Let_def timeFilter_cong [OF c(1)] c(2) filter_text [OF c(4)] filter_shape_uid [OF c(4)] using c(3) by simp
qed

lemma geo_source_bound: "placeholders (geo_source q) \<subseteq> fst ` set (geo_params q)"
  using placeholders_flowSource [of "r_table (gq_range q)" "timeFilter (gq_range q)" "fl_uid (gq_filters q) \<noteq> None"]
  by (auto simp: geo_source_def geo_params_def Let_def filterSql_bound image_Un)

lemma limit_bound: "''limit'' \<in> fst ` set (geo_params q)"
  by (auto simp: geo_params_def image_Un)

interpretation per_ip_query: param_query perIpQuery geo_shape
proof
  show "fst (perIpQuery i) = fst (perIpQuery j)" if "geo_shape i = geo_shape j" for i j
    using geo_source_text [OF that] by (simp add: perIpQuery_def)
  show "bound_in (snd (perIpQuery i)) (fst (perIpQuery i))" for i
    using geo_source_bound limit_bound by (simp add: perIpQuery_def bound_in_def)
qed

interpretation totals_query: param_query totalsQuery geo_shape
proof
  show "fst (totalsQuery i) = fst (totalsQuery j)" if "geo_shape i = geo_shape j" for i j
    using geo_source_text [OF that] by (simp add: totalsQuery_def)
  show "bound_in (snd (totalsQuery i)) (fst (totalsQuery i))" for i
    using geo_source_bound by (simp add: totalsQuery_def bound_in_def)
qed

interpretation destinations_query: param_query destinationsQuery geo_shape
proof
  show "fst (destinationsQuery i) = fst (destinationsQuery j)" if "geo_shape i = geo_shape j" for i j
    using geo_source_text [OF that] by (simp add: destinationsQuery_def)
  show "bound_in (snd (destinationsQuery i)) (fst (destinationsQuery i))" for i
    using geo_source_bound limit_bound by (simp add: destinationsQuery_def bound_in_def)
qed

section \<open>The breakdown loses nothing\<close>

abbreviation row_local :: "lookup option \<Rightarrow> IpTotalRow \<Rightarrow> bool" where
  "row_local lkp row \<equiv> fst (classify (ip_ip row) lkp)"

abbreviation row_geo :: "lookup option \<Rightarrow> IpTotalRow \<Rightarrow> Geo option" where
  "row_geo lkp row \<equiv> snd (classify (ip_ip row) lkp)"

abbreviation row_bytes :: "GeoDir \<Rightarrow> IpTotalRow \<Rightarrow> num" where
  "row_bytes dir row \<equiv> pick dir (Number_cell (ip_tx row)) (Number_cell (ip_rx row))"

definition row_sum :: "GeoDir \<Rightarrow> IpTotalRow list \<Rightarrow> GeoSum" where
  "row_sum dir rows = \<lparr> gs_tx = fsum (map (\<lambda>r. Number_cell (ip_tx r)) rows), gs_rx = fsum (map (\<lambda>r. Number_cell (ip_rx r)) rows),
     gs_bytes = fsum (map (row_bytes dir) rows), gs_ips = length rows \<rparr>"

lemma row_sum_simps [simp]:
  "row_sum dir [] = zero_sum"
  "row_sum dir (rows @ [r]) = addTo (row_sum dir rows) (Number_cell (ip_tx r)) (Number_cell (ip_rx r)) (row_bytes dir r)"
  by (simp_all add: row_sum_def zero_sum_def addTo_def)

definition upd_asn :: "GeoDir \<Rightarrow> lookup option \<Rightarrow> AsnAcc option \<Rightarrow> IpTotalRow \<Rightarrow> AsnAcc" where
  "upd_asn dir lkp v r = add_asn (the (row_geo lkp r)) (Number_cell (ip_tx r)) (Number_cell (ip_rx r)) (row_bytes dir r) v"

abbreviation matched_rows :: "lookup option \<Rightarrow> IpTotalRow list \<Rightarrow> IpTotalRow list" where
  "matched_rows lkp rows \<equiv> filter (\<lambda>r. \<not> row_local lkp r \<and> row_geo lkp r \<noteq> None) rows"

lemma geo_fold:
  "let s = fold (geo_step dir lkp) rows geo_init in
    ga_local s = row_sum dir (filter (row_local lkp) rows)
    \<and> ga_unmatched s = row_sum dir (filter (\<lambda>r. \<not> row_local lkp r \<and> row_geo lkp r = None) rows)
    \<and> ga_asns s = accum (\<lambda>r. asn (the (row_geo lkp r))) (upd_asn dir lkp) (matched_rows lkp rows) []
    \<and> ga_covered s = fsum (map (row_bytes dir) rows)"
proof (induction rows rule: rev_induct)
  case (snoc r rows)
  obtain loc g where c: "classify (ip_ip r) lkp = (loc, g)" by (cases "classify (ip_ip r) lkp")
  show ?case using snoc by (cases loc; cases g) (simp_all add: geo_step_def Let_def c accum_def upd_asn_def)
qed (simp add: geo_init_def Let_def)

lemma upd_asn_fold:
  assumes "gs \<noteq> []" and "\<forall>r \<in> set gs. asn (the (row_geo lkp r)) = k"
  shows "\<exists>a. foldl (\<lambda>v r. Some (upd_asn dir lkp v r)) None gs = Some a \<and> aa_asn a = k \<and> aa_sum a = row_sum dir gs"
  using assms
proof (induction gs rule: rev_induct)
  case (snoc r gs)
  show ?case
  proof (cases "gs = []")
    case True
    then show ?thesis using snoc.prems row_sum_simps(2) [of dir "[]" r] by (simp add: upd_asn_def add_asn_def Let_def)
  next
    case False
    then obtain a where "foldl (\<lambda>v r. Some (upd_asn dir lkp v r)) None gs = Some a" "aa_asn a = k" "aa_sum a = row_sum dir gs"
      using snoc by auto
    then show ?thesis by (simp add: upd_asn_def add_asn_def Let_def)
  qed
qed simp

text \<open>
  (C36) The geo breakdown loses nothing: for byte counts that are natural numbers with a sum that a
  number holds exactly, the local bytes, the unmatched bytes and the bytes of all autonomous
  systems add up to the covered bytes, which are the bytes of all rows; the address counts add up
  to the number of rows. Each autonomous system occurs once, largest first, and without a table
  there is none.
\<close>

theorem buildGeoBreakdown_conserved:
  fixes bn :: "IpTotalRow \<Rightarrow> nat"
  assumes "\<forall>r \<in> set rows. row_bytes dir r = of_nat (bn r)" and "(\<Sum>r \<leftarrow> rows. bn r) \<le> 2 ^ 53"
  shows "let b = buildGeoBreakdown rows totals rg dir lkp in
    cov_bytes (gb_coverage (gr_base b)) = of_nat (\<Sum>r \<leftarrow> rows. bn r)
    \<and> gs_bytes (gb_local (gr_base b)) + gs_bytes (gb_unmatched (gr_base b)) + (\<Sum>a \<leftarrow> gr_asns b. gs_bytes (ar_sum a)) = cov_bytes (gb_coverage (gr_base b))
    \<and> gs_ips (gb_local (gr_base b)) + gs_ips (gb_unmatched (gr_base b)) + (\<Sum>a \<leftarrow> gr_asns b. gs_ips (ar_sum a)) = length rows
    \<and> distinct (map ar_asn (gr_asns b)) \<and> sorted_wrt (\<lambda>x y. gs_bytes (ar_sum y) \<le> gs_bytes (ar_sum x)) (gr_asns b)
    \<and> (lkp = None \<longrightarrow> gr_asns b = [])"
proof -
  let ?s = "fold (geo_step dir lkp) rows geo_init" and ?b = "buildGeoBreakdown rows totals rg dir lkp"
  let ?m = "accum (\<lambda>r. asn (the (row_geo lkp r))) (upd_asn dir lkp) (matched_rows lkp rows) []"
  let ?row = "\<lambda>(k, a). \<lparr> ar_asn = aa_asn a, ar_org = aa_org a, ar_country = best_country (aa_byCc a), ar_sum = aa_sum a \<rparr>"
  let ?of = "\<lambda>k. filter (\<lambda>r. asn (the (row_geo lkp r)) = k) (matched_rows lkp rows)"
  let ?L = "filter (row_local lkp) rows" and ?U = "filter (\<lambda>r. \<not> row_local lkp r \<and> row_geo lkp r = None) rows"
  have f: "ga_local ?s = row_sum dir ?L" "ga_unmatched ?s = row_sum dir ?U" "ga_asns ?s = ?m" "ga_covered ?s = fsum (map (row_bytes dir) rows)"
    using geo_fold [of dir lkp rows] by (auto simp: Let_def)
  have b: "gb_local (gr_base ?b) = row_sum dir ?L" "gb_unmatched (gr_base ?b) = row_sum dir ?U" "cov_bytes (gb_coverage (gr_base ?b)) = fsum (map (row_bytes dir) rows)"
    "gr_asns ?b = sort_by (by_then (desc_by (\<lambda>a. gs_bytes (ar_sum a))) (asc_by ar_asn)) (map ?row ?m)"
    by (simp_all add: buildGeoBreakdown_def Let_def f)
  have acc: "aa_asn a = k \<and> aa_sum a = row_sum dir (?of k)" if ka: "(k, a) \<in> set ?m" for k a
  proof -
    have fa: "foldl (\<lambda>v r. Some (upd_asn dir lkp v r)) None (?of k) = Some a" using ka unfolding in_accum_iff .
    then have "?of k \<noteq> []" by auto
    from upd_asn_fold [OF this, of lkp k dir] fa show ?thesis by auto
  qed
  have exact: "fsum (map (row_bytes dir) (filter P rows)) = of_nat (\<Sum>r \<leftarrow> filter P rows. bn r)" for P
    using assms order_trans [OF sum_list_filter_le assms(2)] by (intro fsum_nats) auto
  have by_asn: "(\<Sum>(k, a) \<leftarrow> ?m. g (aa_sum a)) = (\<Sum>k \<leftarrow> map fst ?m. g (row_sum dir (?of k)))" for g :: "GeoSum \<Rightarrow> 'a :: comm_monoid_add"
  proof -
    have "map (\<lambda>(k, a). g (aa_sum a)) ?m = map (\<lambda>k. g (row_sum dir (?of k))) (map fst ?m)"
      unfolding map_map by (rule map_cong [OF refl]) (use acc in auto)
    then show ?thesis by (rule arg_cong)
  qed
  have part: "(\<Sum>k \<leftarrow> map fst ?m. \<Sum>r \<leftarrow> ?of k. h r) = (\<Sum>r \<leftarrow> matched_rows lkp rows. h r)" for h :: "IpTotalRow \<Rightarrow> nat"
    by (rule sum_by_key) (simp_all add: set_keys_accum)
  have ofk: "?of k = filter (\<lambda>r. \<not> row_local lkp r \<and> row_geo lkp r \<noteq> None \<and> asn (the (row_geo lkp r)) = k) rows" for k by simp
  have "(\<Sum>a \<leftarrow> gr_asns ?b. gs_bytes (ar_sum a)) = (\<Sum>(k, a) \<leftarrow> ?m. gs_bytes (aa_sum a))"
    by (simp add: b(4) comp_def case_prod_unfold)
  also have "\<dots> = (\<Sum>k \<leftarrow> map fst ?m. of_nat (\<Sum>r \<leftarrow> ?of k. bn r))"
    unfolding by_asn ofk using exact by (simp add: row_sum_def)
  also have "\<dots> = of_nat (\<Sum>r \<leftarrow> matched_rows lkp rows. bn r)"
    using arg_cong [OF part [of bn], of of_nat] by (simp add: of_nat_sum_list comp_def)
  finally have asn_bytes: "(\<Sum>a \<leftarrow> gr_asns ?b. gs_bytes (ar_sum a)) = of_nat (\<Sum>r \<leftarrow> matched_rows lkp rows. bn r)" .
  have "(\<Sum>a \<leftarrow> gr_asns ?b. gs_ips (ar_sum a)) = (\<Sum>(k, a) \<leftarrow> ?m. gs_ips (aa_sum a))"
    by (simp add: b(4) comp_def case_prod_unfold)
  also have "\<dots> = (\<Sum>k \<leftarrow> map fst ?m. \<Sum>r \<leftarrow> ?of k. 1)"
    unfolding by_asn by (simp add: row_sum_def sum_list_triv)
  also have "\<dots> = length (matched_rows lkp rows)" unfolding part by (simp add: sum_list_triv)
  finally have asn_ips: "(\<Sum>a \<leftarrow> gr_asns ?b. gs_ips (ar_sum a)) = length (matched_rows lkp rows)" .
  have three: "(\<Sum>r \<leftarrow> ?L. h r) + (\<Sum>r \<leftarrow> ?U. h r) + (\<Sum>r \<leftarrow> matched_rows lkp rows. h r) = (\<Sum>r \<leftarrow> rows. h r)" for h :: "IpTotalRow \<Rightarrow> nat"
    by (induction rows) auto
  have "fsum (map (row_bytes dir) rows) = of_nat (\<Sum>r \<leftarrow> rows. bn r)" using exact [of "\<lambda>_. True"] by simp
  moreover have "gs_bytes (row_sum dir ?L) + gs_bytes (row_sum dir ?U) + of_nat (\<Sum>r \<leftarrow> matched_rows lkp rows. bn r) = of_nat (\<Sum>r \<leftarrow> rows. bn r)"
    using arg_cong [OF three [of bn], of "of_nat :: nat \<Rightarrow> rat"] exact by (simp add: row_sum_def)
  moreover have "length ?L + length ?U + length (matched_rows lkp rows) = length rows"
    using three [of "\<lambda>_. 1"] by (simp add: sum_list_triv)
  moreover have "distinct (map ar_asn (gr_asns ?b))"
  proof -
    have "map ar_asn (map ?row ?m) = map fst ?m" using acc by auto
    moreover have "mset (map ar_asn (gr_asns ?b)) = mset (map ar_asn (map ?row ?m))" unfolding b(4) by (simp only: mset_map mset_sort_by)
    ultimately have "mset (map ar_asn (gr_asns ?b)) = mset (map fst ?m)" by (simp only:)
    then show ?thesis using mset_eq_imp_distinct_iff [of "map ar_asn (gr_asns ?b)" "map fst ?m"] distinct_keys_accum by blast
  qed
  moreover have "sorted_wrt (\<lambda>x y. gs_bytes (ar_sum y) \<le> gs_bytes (ar_sum x)) (gr_asns ?b)"
  proof -
    have "sorted_wrt (by_then (desc_by (\<lambda>a. gs_bytes (ar_sum a))) (asc_by ar_asn)) (gr_asns ?b)"
      unfolding b(4) by (intro sort_by_sorted_wrt comparator_by_then comparator_desc_by comparator_asc_by)
    from sorted_by_then [OF this] show ?thesis by (simp add: desc_by_def [abs_def])
  qed
  moreover have "gr_asns ?b = []" if "lkp = None"
  proof -
    have none: "row_geo None r = None" for r by (simp add: classify_def split: option.split)
    show ?thesis unfolding b(4) unfolding that by (simp add: none)
  qed
  ultimately show ?thesis by (simp add: b(1-3) asn_bytes asn_ips row_sum_def)
qed

definition sample_ip :: "string \<Rightarrow> IpTotalRow" where
  "sample_ip s = \<lparr> ip_ip = s, ip_tx = Quoted ''30'', ip_rx = Quoted ''12'' \<rparr>"

theorem buildGeoBreakdown_conserved_witness:
  "cov_bytes (gb_coverage (gr_base (buildGeoBreakdown [sample_ip ''10.0.0.1'', sample_ip ''1.1.1.1''] None sample_range GTx None))) = 60
   \<and> gr_asns (buildGeoBreakdown [sample_ip ''10.0.0.1'', sample_ip ''1.1.1.1''] None sample_range GTx None) = []"
proof -
  have "Number_cell (Quoted ''30'') = 30" by code_simp
  then have "\<forall>r \<in> set [sample_ip ''10.0.0.1'', sample_ip ''1.1.1.1'']. row_bytes GTx r = of_nat 30"
    by (auto simp: sample_ip_def pick_def)
  from buildGeoBreakdown_conserved [OF this, of None sample_range None] show ?thesis by (simp add: Let_def)
qed

section \<open>The destination table keeps the selected rows\<close>

text \<open>
  The destination table shows the first \<open>limit\<close> rows that the selection keeps, in the order of the
  query, and counts all that it keeps.
\<close>

theorem buildDestinations_selected:
  "buildDestinations rows sel lkp limit =
     (map (toDestRow lkp) (take limit (filter (keep_dest sel lkp) rows)), length (filter (keep_dest sel lkp) rows))"
proof -
  have "fold (dest_step sel lkp limit) rows ([], 0) =
     (map (toDestRow lkp) (take limit (filter (keep_dest sel lkp) rows)), length (filter (keep_dest sel lkp) rows))"
    by (induction rows rule: rev_induct) (auto simp: dest_step_def)
  then show ?thesis by (simp add: buildDestinations_def)
qed

end
