(* ===== verification/Users.thy ===== *)
theory Users
  imports JS_Map JS_Number
begin

text \<open>
  \<^verbatim>\<open>web/src/server/users.ts\<close>: the host's uid to user name map. \<open>Users_load\<close> is one run of \<open>#load\<close>
  on what reading the file gave (an error message or its text); the hourly timer calls it again.
\<close>

definition parse_line :: "string \<Rightarrow> (num, string) jsmap \<Rightarrow> (num, string) jsmap" where
  "parse_line line users =
     (if line = [] \<or> starts_with ''#'' line then users
      else let f = split_char (CHR '':'') line;
               name = f ! 0; uid = (if 2 < length f then f ! 2 else []) in
        if name = [] \<or> uid = [] \<or> \<not> all_digits uid then users
        else let n = Number_dec uid in
          if map_get users n = None then map_set n name users else users)"

definition parsePasswd :: "string \<Rightarrow> (num, string) jsmap" where
  "parsePasswd text = fold parse_line (split_char (CHR 0x0A) text) []"

record Users =
  user_map :: "(num, string) jsmap"

definition new_Users :: Users where "new_Users = \<lparr> user_map = [] \<rparr>"

definition Users_name :: "Users \<Rightarrow> num \<Rightarrow> string option" where
  "Users_name u uid = map_get (user_map u) uid"

definition Users_load :: "string + string \<Rightarrow> Users \<Rightarrow> Users \<times> string list" where
  "Users_load content u = (case content of
       Inl err \<Rightarrow> (u, [''cannot read the user list'' ])
     | Inr text \<Rightarrow> (u\<lparr> user_map := parsePasswd text \<rparr>, []))"

section \<open>What a name lookup returns\<close>

text \<open>The entry a line gives for a uid, if it is a well-formed one: the specification.\<close>

definition line_entry :: "string \<Rightarrow> (num \<times> string) option" where
  "line_entry line = (case split_char (CHR '':'') line of
       name # pw # uid # rest \<Rightarrow>
         if \<not> starts_with ''#'' line \<and> name \<noteq> [] \<and> all_digits uid then Some (Number_dec uid, name) else None
     | _ \<Rightarrow> None)"

lemma parse_line_entry:
  "parse_line line users = (case line_entry line of None \<Rightarrow> users
     | Some (n, name) \<Rightarrow> if map_get users n = None then map_set n name users else users)"
proof (cases "split_char (CHR '':'') line")
  case (Cons name r)
  show ?thesis
  proof (cases r)
    case Nil
    with Cons show ?thesis by (simp add: parse_line_def line_entry_def)
  next
    case r: (Cons pw r')
    show ?thesis
      using Cons r by (cases r') (auto simp: parse_line_def line_entry_def Let_def all_digits_def)
  qed
qed simp

lemma get_parse_lines:
  "map_get (fold parse_line ls m) n = (case map_get m n of Some v \<Rightarrow> Some v
     | None \<Rightarrow> map_of (List.map_filter line_entry ls) n)"
  by (induction ls arbitrary: m)
    (auto simp: parse_line_entry alm.get_put map_filter_simps split: option.splits if_splits)

text \<open>
  The first entry for a uid wins: the name found for a uid is that of the first well-formed
  line of the text that has this uid, comments and malformed lines aside, and there is none
  exactly when no such line has it; a failed reload keeps the previous map.
\<close>

theorem Users_name_first:
  "Users_name (fst (Users_load (Inr tx) u)) n
     = map_of (List.map_filter line_entry (split_char (CHR 0x0A) tx)) n
   \<and> fst (Users_load (Inl err) u) = u"
  by (simp add: Users_name_def Users_load_def parsePasswd_def get_parse_lines) (simp add: map_get_def)

end
