(* ===== verification/Rdns.thy ===== *)
theory Rdns
  imports JS_Map
begin

text \<open>
  \<^verbatim>\<open>web/src/server/geo/rdns.ts\<close>: the LRU cache with expiry (\<open>Lru\<close>) and the reverse-DNS lookup of a
  request (\<open>Rdns.lookup\<close>). Times are \<open>Date.now()\<close> milliseconds. The DNS resolver's answers are
  inputs: a request runs through \<open>lookup_start\<close> (everything up to the calls of \<open>resolve\<close>), one
  \<open>settle\<close> per answer in the order they arrive, and \<open>lookup_finish\<close> when the race between all
  answers and the timer is decided. Answers after that go through \<open>settle\<close> too.
\<close>

section \<open>The cache\<close>

record 'v Lru =
  lru_map :: "(string, 'v \<times> int) jsmap"
  lru_max :: nat
  lru_ttl :: int

definition new_Lru :: "nat \<Rightarrow> int \<Rightarrow> 'v Lru" where
  "new_Lru mx ttl = \<lparr> lru_map = [], lru_max = mx, lru_ttl = ttl \<rparr>"

definition Lru_get :: "int \<Rightarrow> string \<Rightarrow> 'v Lru \<Rightarrow> 'v option \<times> 'v Lru" where
  "Lru_get now k c = (case map_get (lru_map c) k of
       None \<Rightarrow> (None, c)
     | Some (v, ex) \<Rightarrow> let m = map_delete k (lru_map c) in
         if ex \<le> now then (None, c\<lparr> lru_map := m \<rparr>)
         else (Some v, c\<lparr> lru_map := map_set k (v, ex) m \<rparr>))"

text \<open>The \<open>while\<close> loop that drops the first key of the map until it fits.\<close>

function evict :: "nat \<Rightarrow> (string, 'a) jsmap \<Rightarrow> (string, 'a) jsmap" where
  "evict mx m = (if length m > mx then evict mx (map_delete (fst (hd m)) m) else m)"
  by pat_completeness auto
termination
proof (relation "measure (\<lambda>(mx, m). length m)")
  fix mx and m :: "(string, 'a) jsmap"
  assume "mx < length m"
  then have "length (AList.delete (fst (hd m)) m) < length m"
    by (cases m) (auto simp: AList.delete_eq less_Suc_eq_le)
  then show "((mx, map_delete (fst (hd m)) m), mx, m) \<in> measure (\<lambda>(mx, m). length m)"
    by (simp add: map_delete_def)
qed simp

declare evict.simps [simp del]

definition Lru_set :: "int \<Rightarrow> string \<Rightarrow> 'v \<Rightarrow> 'v Lru \<Rightarrow> 'v Lru" where
  "Lru_set now k v c = c\<lparr> lru_map := evict (lru_max c)
     (map_set k (v, now + lru_ttl c) (map_delete k (lru_map c))) \<rparr>"

definition Lru_size :: "'v Lru \<Rightarrow> nat" where
  "Lru_size c = length (lru_map c)"

section \<open>A request\<close>

definition RDNS_MAX_PER_REQUEST :: nat where "RDNS_MAX_PER_REQUEST = 20"
definition CACHE_SIZE :: nat where "CACHE_SIZE = 10000"
definition TTL_MS :: int where "TTL_MS = 3600000"

record Rdns =
  rdns_enabled :: bool
  rdns_cache :: "string option Lru"

definition new_Rdns :: "bool \<Rightarrow> Rdns" where
  "new_Rdns en = \<lparr> rdns_enabled = en, rdns_cache = new_Lru CACHE_SIZE TTL_MS \<rparr>"

text \<open>What \<open>resolve(ip)\<close> ends with: the host names, or an error with its code.\<close>

datatype answer = Hosts "string list" | DnsError string

record request =
  names :: "(string, string option) jsmap"
  pending :: "string list"
  todo :: "string list"
  done_ips :: "string list"

definition new_request :: request where
  "new_request = \<lparr> names = [], pending = [], todo = [], done_ips = [] \<rparr>"

definition scan_ip :: "int \<Rightarrow> string \<Rightarrow> string option Lru \<times> request \<Rightarrow> string option Lru \<times> request" where
  "scan_ip now ip s = (case s of (c, q) \<Rightarrow> case Lru_get now ip c of
       (Some hit, c') \<Rightarrow> (c', q\<lparr> names := map_set ip hit (names q) \<rparr>)
     | (None, c') \<Rightarrow>
         if length (todo q) < RDNS_MAX_PER_REQUEST then (c', q\<lparr> todo := todo q @ [ip] \<rparr>)
         else (c', q\<lparr> pending := pending q @ [ip] \<rparr>))"

definition lookup_start :: "int \<Rightarrow> string list \<Rightarrow> Rdns \<Rightarrow> string option Lru \<times> request" where
  "lookup_start now ips r =
     (if \<not> rdns_enabled r then (rdns_cache r, new_request)
      else fold (scan_ip now) (new_Set ips) (rdns_cache r, new_request))"

text \<open>One answer, at time \<open>now\<close>: \<open>hosts[0] ?? null\<close>, and what is cached.\<close>

definition settle :: "int \<times> string \<times> answer \<Rightarrow> string option Lru \<times> request \<Rightarrow> string option Lru \<times> request" where
  "settle e s = (case e of (now, ip, a) \<Rightarrow> case s of (c, q) \<Rightarrow> case a of
       Hosts hs \<Rightarrow>
         let name = (case hs of [] \<Rightarrow> None | h # _ \<Rightarrow> Some h) in
         (Lru_set now ip name c, q\<lparr> names := map_set ip name (names q), done_ips := ip # done_ips q \<rparr>)
     | DnsError code \<Rightarrow>
         (if code = ''ENOTFOUND'' \<or> code = ''ENODATA'' then Lru_set now ip None c else c,
          q\<lparr> names := map_set ip None (names q), done_ips := ip # done_ips q \<rparr>))"

definition lookup_finish :: "request \<Rightarrow> (string, string option) jsmap \<times> string list" where
  "lookup_finish q = (if todo q = [] then (names q, pending q)
     else (names q, pending q @ filter (\<lambda>ip. ip \<notin> set (done_ips q)) (todo q)))"

text \<open>A whole request: the answers that arrive before the race is decided are \<open>early\<close>.\<close>

definition Rdns_lookup ::
  "int \<Rightarrow> string list \<Rightarrow> (int \<times> string \<times> answer) list \<Rightarrow> Rdns \<Rightarrow>
   ((string, string option) jsmap \<times> string list) \<times> Rdns" where
  "Rdns_lookup now ips early r = (case fold settle early (lookup_start now ips r) of
     (c, q) \<Rightarrow> (lookup_finish q, r\<lparr> rdns_cache := c \<rparr>))"

section \<open>The cache keeps its bound and its order\<close>

definition Lru_ok :: "'v Lru \<Rightarrow> bool" where
  "Lru_ok c \<longleftrightarrow> map_ok (lru_map c) \<and> length (lru_map c) \<le> lru_max c"

lemma delete_hd: "map_ok m \<Longrightarrow> m \<noteq> [] \<Longrightarrow> map_delete (fst (hd m)) m = tl m"
  by (cases m) (force simp: map_ok_def map_delete_def AList.delete_eq filter_id_conv)+

lemma evict_drop: "map_ok m \<Longrightarrow> evict mx m = drop (length m - mx) m"
proof (induction mx m rule: evict.induct)
  case (1 mx m)
  show ?case
  proof (cases "length m > mx")
    case True
    then obtain x ms where m: "m = x # ms" by (cases m) auto
    with 1 have tl: "map_delete (fst (hd m)) m = ms" "map_ok ms"
      using delete_hd [of m] by (auto simp: map_ok_def)
    have "evict mx m = evict mx ms" using True tl(1) by (simp add: evict.simps [of mx m])
    also have "\<dots> = drop (length ms - mx) ms" using "1.IH" True tl by simp
    finally show ?thesis using True m by (simp add: Suc_diff_le)
  qed (simp add: evict.simps [of mx m])
qed

text \<open>
  The recency order: \<open>touch\<close> moves a key to the end. \<open>set\<close> touches and drops from the front what
  does not fit; a hit of \<open>get\<close> touches.
\<close>

definition touch :: "'k \<Rightarrow> 'a \<Rightarrow> ('k \<times> 'a) list \<Rightarrow> ('k \<times> 'a) list" where
  "touch k e m = filter (\<lambda>x. fst x \<noteq> k) m @ [(k, e)]"

lemma map_set_delete: "map_ok m \<Longrightarrow> map_set k e (map_delete k m) = touch k e m"
proof (induction m)
  case Nil
  show ?case by (simp add: map_set_def map_delete_def touch_def)
next
  case (Cons x m)
  then show ?case by (cases x) (auto simp: map_set_def map_delete_def map_ok_def touch_def)
qed

lemma map_ok_touch: "map_ok m \<Longrightarrow> map_ok (touch k e m)"
  by (auto simp: touch_def map_ok_def distinct_map inj_on_def)

lemma length_touch: "length (touch k e m) \<le> Suc (length m)"
  by (simp add: touch_def)

lemma length_touch_hit: "map_get m k \<noteq> None \<Longrightarrow> length (touch k e m) \<le> length m"
proof -
  assume "map_get m k \<noteq> None"
  then obtain v where "(k, v) \<in> set m" by (auto simp: map_get_def dest: map_of_SomeD)
  then have "length (filter (\<lambda>x. fst x \<noteq> k) m) < length m" by (intro length_filter_less) auto
  then show ?thesis by (simp add: touch_def)
qed

lemma Lru_set_map:
  assumes "map_ok (lru_map c)"
  shows "lru_map (Lru_set now k v c) = (let m = touch k (v, now + lru_ttl c) (lru_map c) in drop (length m - lru_max c) m)"
  using assms by (simp add: Lru_set_def map_set_delete evict_drop map_ok_touch Let_def)

lemma Lru_set_fields [simp]: "lru_max (Lru_set now k v c) = lru_max c" "lru_ttl (Lru_set now k v c) = lru_ttl c"
  by (simp_all add: Lru_set_def)

lemma map_ok_drop: "map_ok m \<Longrightarrow> map_ok (drop n m)"
  by (simp add: map_ok_def drop_map [symmetric])

lemma Lru_set_ok: "Lru_ok c \<Longrightarrow> Lru_ok (Lru_set now k v c)"
  by (auto simp: Lru_ok_def Lru_set_map Let_def intro!: map_ok_drop map_ok_touch)

lemma Lru_get_hit:
  assumes "map_ok (lru_map c)" "map_get (lru_map c) k = Some (v, ex)" "now < ex"
  shows "Lru_get now k c = (Some v, c\<lparr> lru_map := touch k (v, ex) (lru_map c) \<rparr>)"
  using assms by (simp add: Lru_get_def Let_def map_set_delete)

lemma Lru_get_value:
  "fst (Lru_get now k c) = (case map_get (lru_map c) k of None \<Rightarrow> None
     | Some (v, ex) \<Rightarrow> if ex \<le> now then None else Some v)"
  by (auto simp: Lru_get_def Let_def split: option.splits)

lemma Lru_get_ok:
  assumes "Lru_ok c"
  shows "Lru_ok (snd (Lru_get now k c))"
proof (cases "map_get (lru_map c) k")
  case (Some e)
  moreover have "map_ok (map_delete k (lru_map c))"
    using assms by (simp add: Lru_ok_def alm.invar_del)
  moreover have "length (map_delete k (lru_map c)) \<le> length (lru_map c)"
    by (simp add: map_delete_def AList.delete_eq)
  ultimately show ?thesis
    using assms length_touch_hit [of "lru_map c" k e]
    by (auto simp: Lru_get_def Lru_ok_def Let_def map_set_delete map_ok_touch split: prod.splits)
qed (simp add: Lru_get_def assms)

section \<open>Requests\<close>

interpretation settle_cache: handler settle "\<lambda>(c, q). Lru_ok c"
  by unfold_locales (auto simp: settle_def Let_def Lru_set_ok split: prod.splits answer.splits)

interpretation scan_cache: handler "scan_ip now" "\<lambda>(c, q). Lru_ok c" for now
proof
  fix s e
  assume ok: "case s of (c :: string option Lru, q :: request) \<Rightarrow> Lru_ok c"
  obtain c q where s: "s = (c, q)" by fastforce
  have "Lru_ok (snd (Lru_get now e c))" using ok s by (simp add: Lru_get_ok)
  then show "case scan_ip now e s of (c, q) \<Rightarrow> Lru_ok c"
    by (auto simp: s scan_ip_def split: prod.splits option.splits)
qed

text \<open>What the scan leaves: each address is named, to be resolved or pending, once.\<close>

definition req_part :: "string list \<Rightarrow> request \<Rightarrow> bool" where
  "req_part ips q \<longleftrightarrow> distinct (todo q @ pending q) \<and> length (todo q) \<le> RDNS_MAX_PER_REQUEST
     \<and> done_ips q = []
     \<and> set (map_keys (names q)) \<inter> (set (todo q) \<union> set (pending q)) = {}
     \<and> set (map_keys (names q)) \<union> set (todo q) \<union> set (pending q) = set ips"

lemma set_keys_map_set [simp]: "set (map_keys (map_set k v m)) = insert k (set (map_keys m))"
  by (auto simp: alm.keys_put alm.keys_get)

lemma req_part_scan:
  assumes "req_part ips q" and "ip \<notin> set ips"
  shows "req_part (ips @ [ip]) (snd (scan_ip now ip (c, q)))"
  using assms by (auto simp: req_part_def scan_ip_def split: prod.splits option.splits)

lemma req_part_fold:
  "req_part done q \<Longrightarrow> distinct (done @ ips) \<Longrightarrow>
     req_part (done @ ips) (snd (fold (scan_ip now) ips (c, q)))"
proof (induction ips arbitrary: "done" c q)
  case (Cons ip ips)
  obtain c' q' where s: "scan_ip now ip (c, q) = (c', q')" by fastforce
  have "req_part (done @ [ip]) q'"
    using req_part_scan [of "done" q ip now c] Cons.prems s by simp
  from Cons.IH [OF this, of c'] show ?case using Cons.prems s by simp
qed simp

lemma settle_request:
  assumes "snd (fold settle es (c, q)) = q'"
  shows "set (map_keys (names q')) = set (map_keys (names q)) \<union> (fst \<circ> snd) ` set es"
    "set (done_ips q') = set (done_ips q) \<union> (fst \<circ> snd) ` set es"
    "todo q' = todo q" "pending q' = pending q"
  using assms
proof (induction es arbitrary: c q)
  case (Cons e es)
  { case 1 show ?case using Cons(1) 1 by (auto simp: settle_def Let_def split: prod.splits answer.splits) }
  { case 2 show ?case using Cons(2) 2 by (auto simp: settle_def Let_def split: prod.splits answer.splits) }
  { case 3 show ?case using Cons(3) 3 by (auto simp: settle_def Let_def split: prod.splits answer.splits) }
  { case 4 show ?case using Cons(4) 4 by (auto simp: settle_def Let_def split: prod.splits answer.splits) }
qed auto

section \<open>Properties\<close>

lemma map_get_last: "map_get (drop n (touch k e m)) k = Some e" if "n \<le> length (touch k e m) - 1"
proof -
  have "n \<le> length (filter (\<lambda>x. fst x \<noteq> k) m)" using that by (simp add: touch_def)
  then show ?thesis
    by (auto simp: touch_def map_get_def map_add_def map_of_eq_None_iff
        dest!: map_of_SomeD in_set_dropD split: option.splits)
qed

text \<open>Reading an entry, by position: what a hit, an expired entry and a miss leave of the map.\<close>

lemma map_delete_filter: "map_delete k m = filter (\<lambda>x. fst x \<noteq> k) m"
  by (auto simp: map_delete_def AList.delete_eq intro: filter_cong)

lemma Lru_get_cases:
  assumes "map_ok (lru_map c)"
  shows "Lru_get now k c = (case map_get (lru_map c) k of
      None \<Rightarrow> (None, c)
    | Some (v, ex) \<Rightarrow>
        if now < ex then (Some v, c\<lparr> lru_map := touch k (v, ex) (lru_map c) \<rparr>)
        else (None, c\<lparr> lru_map := filter (\<lambda>x. fst x \<noteq> k) (lru_map c) \<rparr>))"
  using assms by (auto simp: Lru_get_def Let_def map_set_delete [unfolded map_delete_filter] map_delete_filter split: option.split)

lemma map_keys_touch: "map_keys (touch k e m) = filter (\<lambda>j. j \<noteq> k) (map_keys m) @ [k]"
  by (simp add: touch_def map_keys_def filter_map comp_def)

lemma Lru_set_keys:
  assumes "map_ok (lru_map c)"
  shows "map_keys (lru_map (Lru_set now k v c))
    = (let ks = filter (\<lambda>j. j \<noteq> k) (map_keys (lru_map c)) @ [k] in drop (length ks - lru_max c) ks)"
proof -
  let ?m = "touch k (v, now + lru_ttl c) (lru_map c)"
  have "map_keys (drop (length ?m - lru_max c) ?m) = (let ks = map_keys ?m in drop (length ks - lru_max c) ks)"
    by (simp add: map_keys_def drop_map Let_def)
  with assms show ?thesis by (simp only: Lru_set_map map_keys_touch Let_def)
qed

text \<open>The key of a hit is the last one of the map, so the next \<open>set\<close> does not evict it.\<close>

lemma Lru_hit_survives:
  assumes "Lru_ok c" and "2 \<le> lru_max c" and "fst (Lru_get now j c) \<noteq> None"
  shows "j \<in> set (map_keys (lru_map (Lru_set then' k v (snd (Lru_get now j c)))))"
proof -
  have ok: "map_ok (lru_map c)" using assms(1) by (simp add: Lru_ok_def)
  obtain w ex where hit: "snd (Lru_get now j c) = c\<lparr> lru_map := touch j (w, ex) (lru_map c) \<rparr>"
    using assms(3) by (auto simp: Lru_get_cases [OF ok] split: option.splits if_splits)
  have "map_keys (lru_map (Lru_set then' k v (snd (Lru_get now j c))))
      = (let ks = filter (\<lambda>i. i \<noteq> k) (filter (\<lambda>i. i \<noteq> j) (map_keys (lru_map c)) @ [j]) @ [k]
         in drop (length ks - lru_max c) ks)"
    using ok by (subst Lru_set_keys) (simp_all add: hit map_ok_touch map_keys_touch)
  then show ?thesis
    using assms(2) by (cases "k = j") (auto simp: Let_def in_set_conv_nth)
qed

text \<open>
  (C12) The cache is a least-recently-used cache with expiry. From any state that satisfies its
  invariant (distinct keys, at most \<open>max\<close> entries), in the order of the map, which is the order of
  the last uses: \<open>set\<close> keeps the invariant, moves the key to the end and evicts exactly the entries
  at the front that do not fit; reading the key back returns the value until \<open>ttl\<close> milliseconds
  have passed and nothing from then on; \<open>get\<close> keeps the invariant, changes nothing for a key that
  is not there, removes an entry that has expired, and on a hit moves its key to the end with the
  value and expiry it had and the other keys in their order. So a \<open>set\<close> of any key after a hit does
  not evict the key of the hit, in a cache of two entries or more.
\<close>

theorem Lru_recency:
  assumes "Lru_ok c" and "0 < lru_max c"
  shows "Lru_ok (Lru_set now k v c) \<and> Lru_ok (snd (Lru_get now k c))
    \<and> map_keys (lru_map (Lru_set now k v c))
        = (let ks = filter (\<lambda>j. j \<noteq> k) (map_keys (lru_map c)) @ [k] in drop (length ks - lru_max c) ks)
    \<and> fst (Lru_get later k (Lru_set now k v c)) = (if later < now + lru_ttl c then Some v else None)
    \<and> Lru_get later j c = (case map_get (lru_map c) j of
          None \<Rightarrow> (None, c)
        | Some (w, ex) \<Rightarrow> let others = filter (\<lambda>x. fst x \<noteq> j) (lru_map c) in
            if later < ex then (Some w, c\<lparr> lru_map := others @ [(j, w, ex)] \<rparr>)
            else (None, c\<lparr> lru_map := others \<rparr>))
    \<and> (2 \<le> lru_max c \<and> fst (Lru_get later j c) \<noteq> None
        \<longrightarrow> j \<in> set (map_keys (lru_map (Lru_set now k v (snd (Lru_get later j c))))))"
proof -
  let ?m = "touch k (v, now + lru_ttl c) (lru_map c)"
  have ok: "map_ok (lru_map c)" using assms(1) by (simp add: Lru_ok_def)
  have "map_get (drop (length ?m - lru_max c) ?m) k = Some (v, now + lru_ttl c)"
    using assms(2) by (intro map_get_last) auto
  then have kept: "fst (Lru_get later k (Lru_set now k v c)) = (if later < now + lru_ttl c then Some v else None)"
    using ok by (simp add: Lru_set_map Let_def Lru_get_value)
  have get: "Lru_get later j c = (case map_get (lru_map c) j of
          None \<Rightarrow> (None, c)
        | Some (w, ex) \<Rightarrow> let others = filter (\<lambda>x. fst x \<noteq> j) (lru_map c) in
            if later < ex then (Some w, c\<lparr> lru_map := others @ [(j, w, ex)] \<rparr>)
            else (None, c\<lparr> lru_map := others \<rparr>))"
    by (simp add: Lru_get_cases [OF ok] Let_def touch_def split: option.split)
  show ?thesis
    using Lru_set_ok [OF assms(1)] Lru_get_ok [OF assms(1)] Lru_set_keys [OF ok] kept get
      Lru_hit_survives [OF assms(1)] by blast
qed

text \<open>In a cache of two entries, reading the older one makes the next \<open>set\<close> evict the other.\<close>

theorem Lru_recency_witness:
  "fst (Lru_get 5 ''a'' (Lru_set 3 ''a'' (7 :: int) (new_Lru 1 10))) = Some 7
    \<and> (let c = Lru_set 4 ''b'' 8 (Lru_set 3 ''a'' (7 :: int) (new_Lru 2 10)) in
        map_keys (lru_map c) = [''a'', ''b'']
        \<and> ''a'' \<in> set (map_keys (lru_map (Lru_set 6 ''c'' 9 (snd (Lru_get 5 ''a'' c))))))"
proof -
  let ?c = "Lru_set 4 ''b'' 8 (Lru_set 3 ''a'' (7 :: int) (new_Lru 2 10))"
  have "Lru_ok (new_Lru 1 10 :: int Lru)" by (simp add: Lru_ok_def new_Lru_def)
  then have one: "fst (Lru_get 5 ''a'' (Lru_set 3 ''a'' (7 :: int) (new_Lru 1 10))) = Some 7"
    using Lru_recency [of "new_Lru 1 10 :: int Lru" 3 "''a''" 7 5] by (simp add: new_Lru_def)
  have m: "map_keys (lru_map ?c) = [''a'', ''b'']" "lru_max ?c = 2" "fst (Lru_get 5 ''a'' ?c) = Some 7" by code_simp+
  have "Lru_ok ?c" by (intro Lru_set_ok) (simp add: Lru_ok_def new_Lru_def)
  moreover have "0 < lru_max ?c" "2 \<le> lru_max ?c" "fst (Lru_get 5 ''a'' ?c) \<noteq> None" using m by simp_all
  ultimately have "''a'' \<in> set (map_keys (lru_map (Lru_set 6 ''c'' 9 (snd (Lru_get 5 ''a'' ?c)))))"
    using Lru_recency [of ?c 6 "''c''" 9 5 "''a''"] by blast
  with one m(1) show ?thesis by simp
qed

text \<open>
  (C13) A reverse-DNS request accounts for every address once: with the feature on, whichever
  answers arrive in time and in whatever order, each requested address is either named or pending,
  never both and never neither, no address is pending twice, and at most 20 addresses were sent to
  the resolver; the cache stays within its bound. With the feature off nothing is looked up.
\<close>

theorem Rdns_lookup_partition:
  assumes "Lru_ok (rdns_cache r)"
    and "\<forall>(t, ip, a) \<in> set early. ip \<in> set (todo (snd (lookup_start now ips r)))"
    and "Rdns_lookup now ips early r = ((nm, pend), r')"
  shows "(if rdns_enabled r
      then set (map_keys nm) \<union> set pend = set ips \<and> set (map_keys nm) \<inter> set pend = {} \<and> distinct pend
      else nm = [] \<and> pend = [])
    \<and> length (todo (snd (lookup_start now ips r))) \<le> RDNS_MAX_PER_REQUEST
    \<and> Lru_ok (rdns_cache r')"
proof (cases "rdns_enabled r")
  case False
  then have "early = []" using assms(2) by (cases early) (auto simp: lookup_start_def new_request_def)
  with False assms(1,3) show ?thesis
    by (auto simp: Rdns_lookup_def lookup_start_def new_request_def lookup_finish_def)
next
  case True
  obtain c q where s: "lookup_start now ips r = (c, q)" by fastforce
  obtain c' q' where f: "fold settle early (c, q) = (c', q')" by fastforce
  have start: "(c, q) = fold (scan_ip now) (new_Set ips) (rdns_cache r, new_request)"
    using True s by (simp add: lookup_start_def)
  have "req_part [] new_request" by (simp add: req_part_def new_request_def map_keys_def)
  from req_part_fold [OF this, of "new_Set ips" now "rdns_cache r"] start
  have part: "req_part (new_Set ips) q" by (metis append_Nil new_Set_simps(2) snd_conv)
  have "case (c, q) of (c, q) \<Rightarrow> Lru_ok c"
    unfolding start by (rule scan_cache.run_keeps) (simp add: assms(1))
  then have "case fold settle early (c, q) of (c, q) \<Rightarrow> Lru_ok c" by (rule settle_cache.run_keeps)
  then have ok: "Lru_ok c'" by (simp add: f)
  define A where "A = (fst \<circ> snd) ` set early"
  have ans: "A \<subseteq> set (todo q)" using assms(2) s by (fastforce simp: A_def)
  note sr = settle_request [of early c q q', unfolded f snd_conv, OF refl, folded A_def]
  have out: "nm = names q'" "set pend = set (pending q) \<union> (set (todo q) - A)"
    "distinct pend" "r' = r\<lparr> rdns_cache := c' \<rparr>"
    using assms(3) part
    by (auto simp: Rdns_lookup_def s f lookup_finish_def sr req_part_def split: if_splits)
  show ?thesis
    using True ok part ans s unfolding out(1,2) sr(1) by (auto simp: req_part_def out(3,4))
qed

theorem Rdns_lookup_partition_witness:
  "\<exists>nm pend r'. Rdns_lookup 0 [''1.1.1.1'', ''8.8.8.8'', ''1.1.1.1''] [(3, ''8.8.8.8'', Hosts [''dns'' ])]
      (new_Rdns True) = ((nm, pend), r')
    \<and> set (map_keys nm) \<union> set pend = {''1.1.1.1'', ''8.8.8.8''} \<and> set (map_keys nm) \<inter> set pend = {}"
proof -
  let ?ips = "[''1.1.1.1'', ''8.8.8.8'', ''1.1.1.1'']" and ?es = "[(3, ''8.8.8.8'', Hosts [''dns''])]"
  have todo: "todo (snd (lookup_start 0 ?ips (new_Rdns True))) = [''1.1.1.1'', ''8.8.8.8'']" by code_simp
  obtain nm pend r' where l: "Rdns_lookup 0 ?ips ?es (new_Rdns True) = ((nm, pend), r')" by (metis surj_pair)
  have "Lru_ok (rdns_cache (new_Rdns True))" by (simp add: Lru_ok_def new_Rdns_def new_Lru_def)
  from Rdns_lookup_partition [OF this _ l] todo l show ?thesis by (auto simp: new_Rdns_def)
qed

end
