(* ===== verification/Org.thy ===== *)
theory Org
  imports Asn
begin

text \<open>
  \<^verbatim>\<open>web/src/shared/org.ts\<close>: the short name of an organisation and the label of a destination. The
  ellipsis, which is outside the 8-bit alphabet of the model's strings, is the character 0x85.
\<close>

definition lower :: "char \<Rightarrow> char" where
  "lower c = (let n = of_char c :: nat in if 65 \<le> n \<and> n \<le> 90 then char_of (n + 32) else c)"

definition SUFFIX :: "string list" where
  "SUFFIX = [''inc'', ''inc.'', ''llc'', ''l.l.c.'', ''ltd'', ''ltd.'', ''limited'', ''corp'', ''corp.'', ''corporation'', ''co'', ''co.'',
     ''gmbh'', ''b.v.'', ''s.a.'', ''pbc'', ''plc'', ''ag'', ''sa'']"

text \<open>
  \<open>s.replace(SUFFIX, '')\<close>: the regular expression matches a last word of the list, in any case,
  with the white space before it and a comma before that.
\<close>

definition strip_suffix :: "string \<Rightarrow> string" where
  "strip_suffix s =
     (let r = rev s; w = rev (takeWhile (\<lambda>c. \<not> is_space c) r); rest = dropWhile (\<lambda>c. \<not> is_space c) r
      in if map lower w \<in> set SUFFIX \<and> rest \<noteq> []
         then let b = dropWhile is_space rest in rev (if b \<noteq> [] \<and> hd b = CHR '','' then tl b else b)
         else s)"

fun short_loop :: "nat \<Rightarrow> string \<Rightarrow> string" where
  "short_loop 0 s = s"
| "short_loop (Suc i) s = (let t = trim (strip_suffix s) in if t = s \<or> t = [] then s else short_loop i t)"

definition shortOrg :: "string \<Rightarrow> string" where
  "shortOrg org' = short_loop 3 (trim org')"

definition clip :: "string \<Rightarrow> nat \<Rightarrow> string" where
  "clip s mx = (if length s > mx then take (mx - 1) s @ [CHR 0x85] else s)"

definition orgDestLabel :: "Geo option \<Rightarrow> string \<Rightarrow> string" where
  "orgDestLabel geo dest = (case geo of Some g \<Rightarrow> clip (shortOrg (org g)) 24 @ '' ('' @ dest @ '')'' | None \<Rightarrow> dest)"

lemma strip_suffix_length: "length (strip_suffix s) \<le> length s"
proof -
  have "length (dropWhile is_space (dropWhile (\<lambda>c. \<not> is_space c) (rev s))) \<le> length s"
    by (metis length_dropWhile_le length_rev order_trans)
  then show ?thesis by (auto simp: strip_suffix_def Let_def)
qed

lemma trim_length: "length (trim s) \<le> length s"
  unfolding trim_def by (metis length_dropWhile_le length_rev order_trans)

lemma short_loop_length: "length (short_loop i s) \<le> length s"
proof (induction i s rule: short_loop.induct)
  case (2 i s)
  have "length (trim (strip_suffix s)) \<le> length s" using trim_length strip_suffix_length order_trans by blast
  then show ?case using 2 by (auto simp: Let_def)
qed simp

lemma short_loop_keeps: "s \<noteq> [] \<Longrightarrow> short_loop i s \<noteq> []"
  by (induction i s rule: short_loop.induct) (auto simp: Let_def)

text \<open>
  A short organisation name is never empty unless the name is blank, never longer than the name,
  and the label of a known destination is at most 24 characters of it followed by the destination
  in parentheses; an unknown destination is its own label.
\<close>

theorem orgDestLabel_bounds:
  "length (shortOrg s) \<le> length s \<and> (shortOrg s = [] \<longleftrightarrow> trim s = [])
   \<and> (\<exists>l. orgDestLabel (Some g) dest = l @ '' ('' @ dest @ '')'' \<and> length l \<le> 24) \<and> orgDestLabel None dest = dest"
proof -
  have "length (shortOrg s) \<le> length s"
    unfolding shortOrg_def using short_loop_length trim_length order_trans by blast
  moreover have "shortOrg s = [] \<longleftrightarrow> trim s = []"
    unfolding shortOrg_def using short_loop_keeps [of "trim s" 3] short_loop_length [of 3 "trim s"] by auto
  ultimately show ?thesis by (auto simp: orgDestLabel_def clip_def)
qed

end
