(* ===== verification/RoutesHistory.thy ===== *)
theory RoutesHistory
  imports Query BytesPerCall Heatmap Processes Treemap NewDests GeoBreakdown Users Rdns Org
begin

text \<open>
  \<^verbatim>\<open>web/src/server/routes/history.ts\<close>: the history endpoints. Each handler is split where the source
  first awaits the database: \<open>x_req\<close> parses the request (all its refusals happen there), \<open>x_answer\<close>
  runs the queries and builds the answer. The environment of a handler is a record: whether the
  client has gone, the isIP function, the clock, the user names and the geo table. Every query of
  an endpoint has a row type of its own, so each is given its own view of the database. (Characters
  of messages outside ASCII are spelled in ASCII.)
\<close>

record henv =
  he_aborted :: bool
  he_isIP :: "string \<Rightarrow> bool"
  he_now :: int
  he_users :: Users
  he_geo :: GeoDb
  he_lc :: "string \<Rightarrow> string \<Rightarrow> int"

definition MAX_FLOW_ROWS :: nat where "MAX_FLOW_ROWS = 2000"
definition DEST_TABLE_LIMIT_DEFAULT :: int where "DEST_TABLE_LIMIT_DEFAULT = 200"
definition DEST_TABLE_LIMIT_MAX :: nat where "DEST_TABLE_LIMIT_MAX = 2000"

definition user_of :: "henv \<Rightarrow> nat \<Rightarrow> string option" where
  "user_of env uid = Users_name (he_users env) (of_nat uid)"

definition geo_lookup :: "henv \<Rightarrow> lookup option" where
  "geo_lookup env = (if GeoDb_loaded (he_geo env) then Some (GeoDb_lookupParsed (he_geo env)) else None)"

record RangeInfo =
  ri_from :: int
  ri_to :: int
  ri_step :: int
  ri_table :: table

definition rangeInfo :: "Range \<Rightarrow> RangeInfo" where
  "rangeInfo r = \<lparr> ri_from = r_from r, ri_to = r_to r, ri_step = r_step r, ri_table = r_table r \<rparr>"

definition num_or_0 :: "('r \<Rightarrow> cell) \<Rightarrow> 'r list \<Rightarrow> num" where
  "num_or_0 c rows = (case rows of [] \<Rightarrow> 0 | r # _ \<Rightarrow> Number_cell (c r))"

section \<open>Summary\<close>

record SummaryRow =
  su_tx :: cell
  su_rx :: cell
  su_n :: cell

record HistorySummary =
  hs_range :: RangeInfo
  hs_txBytes :: num
  hs_rxBytes :: num
  hs_processes :: num

definition range_filters_req :: "henv \<Rightarrow> query \<Rightarrow> (Range \<times> Filters) result" where
  "range_filters_req env q = bind_res (parseRange q (he_now env)) (\<lambda>r. bind_res (parseFilters (he_isIP env) q) (\<lambda>f. Inr (r, f)))"

definition summaryQuery :: "Range \<times> Filters \<Rightarrow> sql_query" where
  "summaryQuery i = (case i of (r, fs) \<Rightarrow>
     let f = filterSql fs; time = timeFilter r
     in ([T ''SELECT sum(tx_bytes) AS tx, sum(rx_bytes) AS rx, uniqExact(pid, proc_start) AS n FROM '']
          @ flowSource (r_table r) time (fl_uid fs \<noteq> None) @ [T '' WHERE ''] @ time @ fst f, rangeParams r @ snd f))"

definition summary_answer :: "henv \<Rightarrow> SummaryRow db \<Rightarrow> Range \<times> Filters \<Rightarrow> HistorySummary result" where
  "summary_answer env db i = bind_res (chQuery (he_aborted env) db (summaryQuery i)) (\<lambda>rows.
     Inr \<lparr> hs_range = rangeInfo (fst i), hs_txBytes = num_or_0 su_tx rows, hs_rxBytes = num_or_0 su_rx rows,
       hs_processes = num_or_0 su_n rows \<rparr>)"

definition history_summary :: "henv \<Rightarrow> SummaryRow db \<Rightarrow> query \<Rightarrow> HistorySummary result" where
  "history_summary env db q = bind_res (range_filters_req env q) (summary_answer env db)"

section \<open>Flows\<close>

record FlowRow =
  fr_name :: string
  fr_proto :: string
  fr_app :: string
  fr_ip :: string
  fr_rport :: nat
  fr_tx :: cell
  fr_rx :: cell
  fr_id :: string

record HistoryFlow =
  hf_name :: string
  hf_proto :: string
  hf_app :: string
  hf_ip :: string
  hf_rport :: nat
  hf_tx :: num
  hf_rx :: num
  hf_id :: string
  hf_geo :: "Geo option"

record HistoryFlowsResponse =
  hfr_range :: RangeInfo
  hfr_flows :: "HistoryFlow list"
  hfr_truncated :: bool

type_synonym flows_input = "Range \<times> int \<times> Filters"

definition flows_req :: "henv \<Rightarrow> query \<Rightarrow> flows_input result" where
  "flows_req env q =
     bind_res (parseRange q (he_now env)) (\<lambda>r.
     bind_res (intInRange (q ''limit'') ''limit'' 300 1 MAX_FLOW_ROWS) (\<lambda>limit.
     bind_res (parseFilters (he_isIP env) q) (\<lambda>f. Inr (r, limit, f))))"

definition flows_time :: "Range \<Rightarrow> sql" where
  "flows_time r = (if r_table r = Flows then timeFilter r
     else [T ''minute >= toStartOfMinute(fromUnixTimestamp64Milli('', P ''from'' ''Int64'',
       T '')) AND minute < fromUnixTimestamp64Milli('', P ''to'' ''Int64'', T '')''])"

definition flowsQuery :: "flows_input \<Rightarrow> sql_query" where
  "flowsQuery i = (case i of (r, limit, fs) \<Rightarrow>
     let f = filterSql fs; time = flows_time r
     in ([T (''SELECT name, proto, app, '' @ DISPLAY_IP @ '' AS ip, rport, sum(itx) AS tx, sum(irx) AS rx, argMax(iid, itx + irx) AS id ''
           @ ''FROM ( SELECT name, proto, app, raddr, rport, '' @ colon_id
           @ '' AS iid, sum(tx_bytes) AS itx, sum(rx_bytes) AS irx FROM '')]
          @ flowSource (r_table r) time (fl_uid fs \<noteq> None) @ [T '' WHERE ''] @ time @ fst f
          @ [T ('' GROUP BY name, proto, app, raddr, rport, pid, proc_start ) GROUP BY name, proto, app, raddr, rport ''
              @ ''HAVING tx + rx > 0 ORDER BY tx + rx DESC, name, app, ip, rport LIMIT ''), P ''limit'' ''UInt32''],
         rangeParams r @ snd f @ [(''limit'', PInt (limit + 1))]))"

definition toHistoryFlow :: "FlowRow \<Rightarrow> HistoryFlow" where
  "toHistoryFlow r = \<lparr> hf_name = fr_name r, hf_proto = fr_proto r, hf_app = fr_app r, hf_ip = fr_ip r, hf_rport = fr_rport r,
     hf_tx = Number_cell (fr_tx r), hf_rx = Number_cell (fr_rx r), hf_id = fr_id r, hf_geo = None \<rparr>"

definition flows_answer :: "henv \<Rightarrow> FlowRow db \<Rightarrow> flows_input \<Rightarrow> HistoryFlowsResponse result" where
  "flows_answer env db i = (case i of (r, limit, fs) \<Rightarrow>
     bind_res (chQuery (he_aborted env) db (flowsQuery i)) (\<lambda>rows.
     Inr \<lparr> hfr_range = rangeInfo r,
       hfr_flows = GeoDb_enrich hf_ip (\<lambda>g f. f\<lparr> hf_geo := Some g \<rparr>) (he_geo env) (map toHistoryFlow (take (nat limit) rows)),
       hfr_truncated = int (length rows) > limit \<rparr>))"

definition history_flows :: "henv \<Rightarrow> FlowRow db \<Rightarrow> query \<Rightarrow> HistoryFlowsResponse result" where
  "history_flows env db q = bind_res (flows_req env q) (flows_answer env db)"

section \<open>Throughput\<close>

record throughput_input =
  ti_r :: Range
  ti_by :: ThroughputBy
  ti_dir :: ThroughputDir
  ti_top :: int
  ti_compare :: "int option"
  ti_filters :: Filters
  ti_unknown :: bool
  ti_calls :: bool

definition throughput_input_req :: "henv \<Rightarrow> query \<Rightarrow> throughput_input result" where
  "throughput_input_req env q =
     bind_res (parseRange q (he_now env)) (\<lambda>r.
     bind_res (parseBy (q ''by'')) (\<lambda>by.
     bind_res (parseDir (q ''dir'')) (\<lambda>dir.
     bind_res (intInRange (q ''top'') ''top'' 8 5 20) (\<lambda>topn.
     bind_res (parseCompare (q ''compare'')) (\<lambda>cmp.
     bind_res (parseFilters (he_isIP env) q) (\<lambda>f.
     bind_res (parseUnknown (q ''unknown'')) (\<lambda>u.
     bind_res (parseCalls (q ''calls'')) (\<lambda>c.
     Inr \<lparr> ti_r = alignRange r, ti_by = by, ti_dir = dir, ti_top = topn, ti_compare = cmp, ti_filters = f,
       ti_unknown = u, ti_calls = c \<rparr>))))))))"

definition uid_label :: "(num \<Rightarrow> string option) \<Rightarrow> string \<Rightarrow> string option" where
  "uid_label user key =
     (if \<not> all_digits key then None
      else
        let uid = Number_dec key in
        if uid = of_int UNKNOWN_UID then Some ''unknown uid''
        else case user uid of Some n \<Rightarrow> if n = [] then None else Some (n @ '' ('' @ key @ '')'') | None \<Rightarrow> None)"

text \<open>The loop over the rows sets a label for the first row of each key that has one.\<close>

definition uid_labels :: "(num \<Rightarrow> string option) \<Rightarrow> ThroughputRow list \<Rightarrow> (string, string) jsmap" where
  "uid_labels user rows = fold (\<lambda>row m.
     if \<not> all_digits (row_k row) \<or> map_get m (row_k row) \<noteq> None then m
     else case uid_label user (row_k row) of Some l \<Rightarrow> map_set (row_k row) l m | None \<Rightarrow> m) rows []"

text \<open>The address of a destination key, with \<open>slice\<close> to \<open>-1\<close> when the character is missing.\<close>

definition dest_key_ip :: "string \<Rightarrow> string" where
  "dest_key_ip key =
     (if starts_with ''['' key
      then (case last_index_of (CHR '']'') key of Some i \<Rightarrow> drop 1 (take i key) | None \<Rightarrow> drop 1 (butlast key))
      else (case last_index_of (CHR '':'') key of Some i \<Rightarrow> take i key | None \<Rightarrow> butlast key))"

definition dest_geos :: "GeoDb \<Rightarrow> ThroughputRow list \<Rightarrow> (string, Geo) jsmap" where
  "dest_geos geo rows = List.map_filter (\<lambda>key. map_option (Pair key) (GeoDb_lookup geo (dest_key_ip key))) (new_Set (map row_k rows))"

record ThroughputAnswer =
  ta_out :: ThroughputResponse
  ta_compare :: "ThroughputCompare option option"
  ta_unknown :: "ThroughputUnknown option"
  ta_calls :: "ThroughputCalls option"
  ta_geo :: "(string, Geo) jsmap option"

record throughput_dbs =
  td_rows :: "ThroughputRow db"
  td_ghost :: "CompareRow db"
  td_first :: "int db"
  td_unknown :: "UnknownRow db"
  td_calls :: "CompareRow db"

definition first_ms :: "int list \<Rightarrow> int option" where
  "first_ms rows = (case rows of [] \<Rightarrow> None | f # _ \<Rightarrow> Some (f * 1000))"

definition build_throughput_answer ::
  "henv \<Rightarrow> throughput_input \<Rightarrow> ThroughputRow list \<Rightarrow> CompareRow list option \<Rightarrow> int list option \<Rightarrow> UnknownRow list option \<Rightarrow>
   CompareRow list option \<Rightarrow> ThroughputAnswer" where
  "build_throughput_answer env i rows ghostRows first unkRows callRows =
     (let r = ti_r i;
          ulabels = (if ti_by i = ByUid then uid_labels (Users_name (he_users env)) rows else []);
          geoKeys = (if ti_by i = ByDest \<and> GeoDb_loaded (he_geo env) then dest_geos (he_geo env) rows else []);
          labels = ulabels @ map (\<lambda>(k, g). (k, orgDestLabel (Some g) k)) geoKeys;
          out = buildThroughput rows r (ti_dir i) labels
      in \<lparr> ta_out = out,
           ta_compare = (case (ghostRows, first) of
               (Some g, Some f) \<Rightarrow> Some (buildCompare g r (case ti_compare i of Some off \<Rightarrow> off | None \<Rightarrow> 0) (first_ms f)) | _ \<Rightarrow> None),
           ta_unknown = map_option (\<lambda>u. buildUnknown u r) unkRows,
           ta_calls = map_option (\<lambda>c. buildCalls c r) callRows,
           ta_geo = (if geoKeys = [] then None
             else Some (List.map_filter (\<lambda>k. map_option (Pair k) (map_get geoKeys k)) (t_keys out))) \<rparr>)"

definition throughput_answer :: "henv \<Rightarrow> throughput_dbs \<Rightarrow> throughput_input \<Rightarrow> ThroughputAnswer result" where
  "throughput_answer env d i =
     (let ab = he_aborted env; r = ti_r i;
          ghost = map_option (\<lambda>off. compareQuery \<lparr> c_range = r, c_offset = off, c_filters = ti_filters i \<rparr>) (ti_compare i)
      in bind_res (chQuery ab (td_rows d) (throughputQuery
             \<lparr> q_range = r, q_by = ti_by i, q_dir = ti_dir i, q_top = ti_top i, q_filters = ti_filters i \<rparr>)) (\<lambda>rows.
         bind_res (opt_query ab (td_ghost d) ghost) (\<lambda>ghostRows.
         bind_res (opt_query ab (td_first d) (map_option (\<lambda>_. (FIRST_MINUTE_SQL, [])) ghost)) (\<lambda>first.
         bind_res (opt_query ab (td_unknown d) (if ti_unknown i then Some (unknownQuery (r, ti_filters i)) else None)) (\<lambda>unkRows.
         bind_res (opt_query ab (td_calls d) (if ti_calls i then Some (callsQuery (r, ti_filters i)) else None)) (\<lambda>callRows.
         Inr (build_throughput_answer env i rows ghostRows first unkRows callRows)))))))"

definition history_throughput :: "henv \<Rightarrow> throughput_dbs \<Rightarrow> query \<Rightarrow> ThroughputAnswer result" where
  "history_throughput env d q = bind_res (throughput_input_req env q) (throughput_answer env d)"

section \<open>Burst band\<close>

type_synonym burst_input = "Range \<times> BurstDir \<times> (int \<times> string) option \<times> Filters"

definition burst_input_req :: "henv \<Rightarrow> query \<Rightarrow> burst_input result" where
  "burst_input_req env q =
     bind_res (parseRange q (he_now env)) (\<lambda>parsed.
     bind_res (parseBurstDir (q ''dir'')) (\<lambda>dir.
     bind_res (parseInstance q) (\<lambda>inst.
     if inst = None \<and> \<not> burstSpanOk (r_from parsed) (r_to parsed) then Inl (badRequest ''band needs <= 24 h range'')
     else bind_res (parseFilters (he_isIP env) q) (\<lambda>f. Inr (rawRange parsed, dir, inst, f)))))"

definition burst_answer :: "henv \<Rightarrow> BurstRow db \<Rightarrow> burst_input \<Rightarrow> BurstResponse result" where
  "burst_answer env db i = (case i of (r, dir, inst, f) \<Rightarrow>
     case chQuery (he_aborted env) db (burstQuery \<lparr> bu_range = r, bu_dir = dir, bu_filters = f, bu_instance = inst \<rparr>) of
       Inr rows \<Rightarrow> Inr (buildBurst rows r dir)
     | Inl e \<Rightarrow> if statusCode e = 504 then Inl (HttpError 504 ''The burst band query timed out; pick a shorter range'') else Inl e)"

definition history_burst :: "henv \<Rightarrow> BurstRow db \<Rightarrow> query \<Rightarrow> BurstResponse result" where
  "history_burst env db q = bind_res (burst_input_req env q) (burst_answer env db)"

section \<open>Lists of processes\<close>

text \<open>The parameters that a handler passes on, and only those: \<open>parseFilters({ uid: req.query.uid })\<close>.\<close>

definition only :: "string list \<Rightarrow> query \<Rightarrow> query" where
  "only ks q = (\<lambda>k. if k \<in> set ks then q k else None)"

record 'a listing =
  ls_from :: int
  ls_to :: int
  ls_items :: "'a list"
  ls_truncated :: bool

text \<open>The answer to a query that asked for one row more than the limit.\<close>

definition cut_listing :: "int \<Rightarrow> int \<Rightarrow> int \<Rightarrow> ('r \<Rightarrow> 'a) \<Rightarrow> 'r list \<Rightarrow> 'a listing" where
  "cut_listing from to limit conv rows =
     \<lparr> ls_from = from, ls_to = to, ls_items = map conv (take (nat limit) rows), ls_truncated = int (length rows) > limit \<rparr>"

definition lifecycle_input_req :: "henv \<Rightarrow> query \<Rightarrow> lifecycle_req result" where
  "lifecycle_input_req env q =
     bind_res (parseRange q (he_now env)) (\<lambda>r.
     bind_res (intInRange (q ''limit'') ''limit'' LIFECYCLE_LIMIT_DEFAULT 1 (nat LIFECYCLE_LIMIT_MAX)) (\<lambda>limit.
     bind_res (parseNames (q ''names'')) (\<lambda>names.
     bind_res (parseFilters (he_isIP env) (only [''uid''] q)) (\<lambda>f.
     Inr \<lparr> lq_from = r_from r, lq_to = r_to r, lq_limit = limit, lq_names = names, lq_uid = fl_uid f \<rparr>))))"

definition lifecycle_answer :: "henv \<Rightarrow> LifecycleRow db \<Rightarrow> lifecycle_req \<Rightarrow> LifecycleProc listing result" where
  "lifecycle_answer env db i =
     bind_res (chQuery (he_aborted env) db (lifecycleQuery (i\<lparr> lq_limit := lq_limit i + 1 \<rparr>))) (\<lambda>rows.
     Inr (cut_listing (lq_from i) (lq_to i) (lq_limit i) toLifecycleProc rows))"

definition history_lifecycle :: "henv \<Rightarrow> LifecycleRow db \<Rightarrow> query \<Rightarrow> LifecycleProc listing result" where
  "history_lifecycle env db q = bind_res (lifecycle_input_req env q) (lifecycle_answer env db)"

definition lifetimes_input_req :: "henv \<Rightarrow> query \<Rightarrow> lifetimes_req result" where
  "lifetimes_input_req env q =
     bind_res (parseRange q (he_now env)) (\<lambda>r.
     bind_res (intInRange (q ''limit'') ''limit'' LIFETIMES_LIMIT_DEFAULT 1 (nat LIFETIMES_LIMIT_MAX)) (\<lambda>limit.
     bind_res (parseFilters (he_isIP env) (only [''name'', ''uid''] q)) (\<lambda>f.
     Inr \<lparr> lt_from = r_from r, lt_to = r_to r, lt_limit = limit, lt_name = fl_name f, lt_uid = fl_uid f \<rparr>)))"

definition lifetimes_answer :: "henv \<Rightarrow> LifetimeRow db \<Rightarrow> lifetimes_req \<Rightarrow> LifetimeBar listing result" where
  "lifetimes_answer env db i =
     bind_res (chQuery (he_aborted env) db (lifetimesQuery (i\<lparr> lt_limit := lt_limit i + 1 \<rparr>))) (\<lambda>rows.
     Inr (cut_listing (lt_from i) (lt_to i) (lt_limit i) toLifetimeBar rows))"

definition history_lifetimes :: "henv \<Rightarrow> LifetimeRow db \<Rightarrow> query \<Rightarrow> LifetimeBar listing result" where
  "history_lifetimes env db q = bind_res (lifetimes_input_req env q) (lifetimes_answer env db)"

record ScatterResponse =
  sr_list :: "ScatterPoint listing"
  sr_group :: ScatterGroup
  sr_basis :: ScatterBasis
  sr_table :: table

definition scatter_input_req :: "henv \<Rightarrow> query \<Rightarrow> scatter_req result" where
  "scatter_input_req env q =
     bind_res (parseRange q (he_now env)) (\<lambda>range.
     bind_res (parseGroup (q ''group'')) (\<lambda>group.
     bind_res (parseBasis (q ''basis'')) (\<lambda>basis.
     bind_res (intInRange (q ''limit'') ''limit'' SCATTER_LIMIT_DEFAULT 1 (nat SCATTER_LIMIT_MAX)) (\<lambda>limit.
     bind_res (parseFilters (he_isIP env) q) (\<lambda>f.
     Inr \<lparr> sq_range = range, sq_group = group, sq_basis = basis, sq_filters = f, sq_limit = limit \<rparr>)))))"

definition scatter_answer :: "henv \<Rightarrow> ScatterRow db \<Rightarrow> scatter_req \<Rightarrow> ScatterResponse result" where
  "scatter_answer env db i =
     bind_res (chQuery (he_aborted env) db (scatterQuery (i\<lparr> sq_limit := sq_limit i + 1 \<rparr>))) (\<lambda>rows.
     Inr \<lparr> sr_list = cut_listing (r_from (sq_range i)) (r_to (sq_range i)) (sq_limit i) (\<lambda>r. toScatterPoint r (user_of env)) rows,
       sr_group = sq_group i, sr_basis = sq_basis i, sr_table = r_table (sq_range i) \<rparr>)"

definition history_scatter :: "henv \<Rightarrow> ScatterRow db \<Rightarrow> query \<Rightarrow> ScatterResponse result" where
  "history_scatter env db q = bind_res (scatter_input_req env q) (scatter_answer env db)"

section \<open>Heatmap\<close>

record heat_dbs =
  hd_rows :: "HeatmapRow db"
  hd_first :: "int db"
  hd_tz :: "nat db"

definition heat_input_req :: "henv \<Rightarrow> query \<Rightarrow> heat_req result" where
  "heat_input_req env q =
     bind_res (parseHeatRange q (he_now env)) (\<lambda>ft.
     bind_res (parseMetric (q ''metric'')) (\<lambda>metric.
     bind_res (parseSplit (q ''split'')) (\<lambda>spl.
     bind_res (parseFilters (he_isIP env) q) (\<lambda>f.
     Inr \<lparr> ht_from = fst ft, ht_to = snd ft, ht_tz = [], ht_metric = metric, ht_split = spl, ht_filters = f \<rparr>))))"

text \<open>The formatter of a time zone, if the runtime knows the zone.\<close>

type_synonym zone_calendar = "string \<Rightarrow> formatter option"

definition heat_samples :: "zone_calendar \<Rightarrow> string \<Rightarrow> int \<Rightarrow> int \<Rightarrow> js_exception + nat list" where
  "heat_samples cal tz start to =
     (if start < to then sampleCounts (cal tz) start to else Inr (replicate HEATMAP_CELLS 0))"

text \<open>An exception that is no \<open>HttpError\<close> and has no status: the error handler answers 500.\<close>

definition internal_error :: http_error where
  "internal_error = HttpError 500 ''internal error''"

definition heat_answer :: "henv \<Rightarrow> zone_calendar \<Rightarrow> heat_dbs \<Rightarrow> heat_req \<Rightarrow> HeatmapResponse result" where
  "heat_answer env cal d i =
     bind_res (chQuery (he_aborted env) (hd_rows d) (heatmapQuery i)) (\<lambda>rows.
     bind_res (chQuery (he_aborted env) (hd_first d) (FIRST_MINUTE_SQL, [])) (\<lambda>first.
     let coveredFrom = map_option (\<lambda>m. max (ht_from i) m) (first_ms first);
         start = (case coveredFrom of Some c \<Rightarrow> c | None \<Rightarrow> ht_from i)
     in case heat_samples cal (ht_tz i) start (ht_to i) of
          Inl RangeError \<Rightarrow> Inl internal_error
        | Inr samples \<Rightarrow> Inr (buildHeatmap (he_lc env) rows
          \<lparr> hb_from = ht_from i, hb_to = ht_to i, hb_tz = ht_tz i, hb_metric = ht_metric i, hb_split = ht_split i,
            hb_coveredFrom = coveredFrom \<rparr> samples)))"

definition history_heatmap ::
  "henv \<Rightarrow> zone_calendar \<Rightarrow> heat_dbs \<Rightarrow> string list \<Rightarrow> query \<Rightarrow> HeatmapResponse result \<times> string list" where
  "history_heatmap env cal d known q = (case heat_input_req env q of
       Inl e \<Rightarrow> (Inl e, known)
     | Inr i \<Rightarrow> (case parseTz (hd_tz d) known (q ''tz'') of
           (Inl e, known') \<Rightarrow> (Inl e, known')
         | (Inr tz, known') \<Rightarrow> (heat_answer env cal d (i\<lparr> ht_tz := tz \<rparr>), known')))"

section \<open>Treemap and bytes per call\<close>

record TreemapResponse =
  tr_from :: int
  tr_to :: int
  tr_table :: table
  tr_dir :: TreemapDir
  tr_total :: num
  tr_top :: nat
  tr_users :: "TreemapUser list"
  tr_truncated :: bool

definition treemap_input_req :: "henv \<Rightarrow> query \<Rightarrow> treemap_req result" where
  "treemap_input_req env q =
     bind_res (parseRange q (he_now env)) (\<lambda>r.
     bind_res (parseTreemapDir (q ''dir'')) (\<lambda>dir.
     bind_res (parseFilters (he_isIP env) q) (\<lambda>f.
     Inr \<lparr> tm_range = r, tm_dir = dir, tm_filters = f, tm_limit = TREEMAP_MAX_ROWS + 1 \<rparr>)))"

definition treemap_answer :: "henv \<Rightarrow> TreemapRow db \<Rightarrow> treemap_req \<Rightarrow> TreemapResponse result" where
  "treemap_answer env db i =
     bind_res (chQuery (he_aborted env) db (treemapQuery i)) (\<lambda>rows.
     let truncated = int (length rows) > TREEMAP_MAX_ROWS;
         tree = buildTreemap (if truncated then take (nat TREEMAP_MAX_ROWS) rows else rows) (user_of env) TREEMAP_TOP
     in Inr \<lparr> tr_from = r_from (tm_range i), tr_to = r_to (tm_range i), tr_table = r_table (tm_range i), tr_dir = tm_dir i,
          tr_total = fsum (map tu_value tree), tr_top = TREEMAP_TOP, tr_users = tree, tr_truncated = truncated \<rparr>)"

definition history_treemap :: "henv \<Rightarrow> TreemapRow db \<Rightarrow> query \<Rightarrow> TreemapResponse result" where
  "history_treemap env db q = bind_res (treemap_input_req env q) (treemap_answer env db)"

definition bpc_input_req :: "henv \<Rightarrow> query \<Rightarrow> bpc_req result" where
  "bpc_input_req env q =
     bind_res (parseRange q (he_now env)) (\<lambda>parsed.
     bind_res (parseBpcDir (q ''dir'')) (\<lambda>dir.
     bind_res (parseBpcBy (q ''by'')) (\<lambda>by.
     bind_res (parseInstance q) (\<lambda>inst.
     bind_res (parseFilters (he_isIP env) q) (\<lambda>f.
     Inr \<lparr> bq_range = (if inst \<noteq> None then parsed\<lparr> r_table := Flows, r_col := Ts \<rparr> else parsed),
       bq_dir = dir, bq_by = by, bq_filters = f, bq_instance = inst \<rparr>)))))"

definition bpc_answer :: "henv \<Rightarrow> BytesPerCallQueryRow db \<Rightarrow> bpc_req \<Rightarrow> BytesPerCallResponse result" where
  "bpc_answer env db i =
     bind_res (chQuery (he_aborted env) db (bytesPerCallQuery i)) (\<lambda>rows.
     Inr (buildBytesPerCall (he_lc env) rows
       \<lparr> bpr_from = r_from (bq_range i), bpr_to = r_to (bq_range i), bpr_table = r_table (bq_range i),
         bpr_dir = bq_dir i, bpr_by = bq_by i \<rparr> BPC_TOP))"

definition history_bytes_per_call :: "henv \<Rightarrow> BytesPerCallQueryRow db \<Rightarrow> query \<Rightarrow> BytesPerCallResponse result" where
  "history_bytes_per_call env db q = bind_res (bpc_input_req env q) (bpc_answer env db)"

section \<open>Beacons and new destinations\<close>

definition BEACON_DEST_LIMIT :: nat where "BEACON_DEST_LIMIT = 100"

definition BEACON_MAX_SPAN_MS :: "BeaconScope \<Rightarrow> int" where
  "BEACON_MAX_SPAN_MS s = (case s of Instance \<Rightarrow> 24 * 3600000 | ByNameScope \<Rightarrow> 6 * 3600000)"

definition enrich_beacons :: "GeoDb \<Rightarrow> BeaconsResponse \<Rightarrow> BeaconsResponse" where
  "enrich_beacons geo res = res\<lparr> br_dests := GeoDb_enrich bd_ip (\<lambda>g d. d\<lparr> bd_geo := Some g \<rparr>) geo (br_dests res) \<rparr>"

definition beacons_input_req :: "henv \<Rightarrow> query \<Rightarrow> (string \<times> (int \<times> int) \<times> bool) result" where
  "beacons_input_req env q =
     bind_res (parseFilters (he_isIP env) (only [''name''] q)) (\<lambda>f.
     case fl_name f of
       None \<Rightarrow> Inl (badRequest ''name: required'')
     | Some name \<Rightarrow> bind_res (parseRange q (he_now env)) (\<lambda>r.
         Inr (name, capSpan (r_from r, r_to r) (BEACON_MAX_SPAN_MS ByNameScope))))"

definition beacons_answer ::
  "(num \<Rightarrow> num) \<Rightarrow> henv \<Rightarrow> BeaconRow db \<Rightarrow> string \<times> (int \<times> int) \<times> bool \<Rightarrow> BeaconsResponse result" where
  "beacons_answer msqrt env db i = (case i of (name, r, capped) \<Rightarrow>
     bind_res (chQuery (he_aborted env) db (beaconsQuery (BeaconName name (fst r) (snd r) (int BEACON_DEST_LIMIT + 1)))) (\<lambda>rows.
     Inr (enrich_beacons (he_geo env) (buildBeacons msqrt (he_lc env) rows r ByNameScope capped BEACON_DEST_LIMIT))))"

definition history_beacons :: "(num \<Rightarrow> num) \<Rightarrow> henv \<Rightarrow> BeaconRow db \<Rightarrow> query \<Rightarrow> BeaconsResponse result" where
  "history_beacons msqrt env db q = bind_res (beacons_input_req env q) (beacons_answer msqrt env db)"

record new_dests_dbs =
  nb_rows :: "NewDestRow db"
  nb_hours :: "FirstHourRow db"
  nb_first :: "int db"

definition new_dests_input_req :: "henv \<Rightarrow> query \<Rightarrow> NewDestsOptions result" where
  "new_dests_input_req env q =
     bind_res (parseRange q (he_now env)) (\<lambda>r.
     bind_res (intInRange (q ''limit'') ''limit'' NEW_DESTS_LIMIT_DEFAULT 1 (nat NEW_DESTS_LIMIT_MAX)) (\<lambda>limit.
     bind_res (parseFilters (he_isIP env) (only [''name''] q)) (\<lambda>f.
     bind_res (parseNames (q ''names'')) (\<lambda>listed.
     bind_res (parse_flag ''ports'' '': expected 0 or 1'' (q ''ports'')) (\<lambda>ports.
     bind_res (parse_flag ''loopback'' '': expected 0 or 1'' (q ''loopback'')) (\<lambda>lo.
     bind_res (parse_flag ''warmup'' '': expected 0 or 1'' (q ''warmup'')) (\<lambda>warm.
     Inr \<lparr> nd_from = r_from r, nd_to = r_to r,
       nd_names = (case fl_name f of Some n \<Rightarrow> Some (new_Set (n # (case listed of Some l \<Rightarrow> l | None \<Rightarrow> []))) | None \<Rightarrow> listed),
       nd_ports = ports, nd_loopback = lo, nd_warmup = warm, nd_limit = nat limit \<rparr>)))))))"

definition new_dests_answer :: "henv \<Rightarrow> new_dests_dbs \<Rightarrow> NewDestsOptions \<Rightarrow> NewDestsResponse result" where
  "new_dests_answer env d o' =
     bind_res (chQuery (he_aborted env) (nb_rows d) (newDestsQuery (o'\<lparr> nd_limit := nd_limit o' + 1 \<rparr>))) (\<lambda>rows.
     bind_res (chQuery (he_aborted env) (nb_hours d) (firstHourQuery o')) (\<lambda>hours.
     bind_res (chQuery (he_aborted env) (nb_first d) (FIRST_MINUTE_SQL, [])) (\<lambda>first.
     let res = buildNewDests rows hours o' (first_ms first)
     in Inr (res\<lparr> nds_dests := GeoDb_enrich nw_ip (\<lambda>g n. n\<lparr> nw_geo := Some g \<rparr>) (he_geo env) (nds_dests res) \<rparr>))))"

definition history_new_dests :: "henv \<Rightarrow> new_dests_dbs \<Rightarrow> query \<Rightarrow> NewDestsResponse result" where
  "history_new_dests env d q = bind_res (new_dests_input_req env q) (new_dests_answer env d)"

section \<open>Geo\<close>

record geo_dbs =
  gd_ips :: "IpTotalRow db"
  gd_totals :: "TotalsRow db"

definition geo_input_req :: "henv \<Rightarrow> query \<Rightarrow> geo_req result" where
  "geo_input_req env q =
     bind_res (parseRange q (he_now env)) (\<lambda>r.
     bind_res (parseGeoDir (q ''dir'')) (\<lambda>dir.
     bind_res (parseFilters (he_isIP env) q) (\<lambda>f.
     Inr \<lparr> gq_range = r, gq_dir = dir, gq_filters = f, gq_limit = GEO_IP_LIMIT \<rparr>)))"

definition geoBreakdown :: "henv \<Rightarrow> geo_dbs \<Rightarrow> geo_req \<Rightarrow> GeoResult result" where
  "geoBreakdown env d i =
     bind_res (chQuery (he_aborted env) (gd_ips d) (fst (ipTotalsQueries i))) (\<lambda>ipRows.
     bind_res (chQuery (he_aborted env) (gd_totals d) (snd (ipTotalsQueries i))) (\<lambda>totalRows.
     Inr (buildGeoBreakdown ipRows (case totalRows of [] \<Rightarrow> None | t # _ \<Rightarrow> Some t) (gq_range i) (gq_dir i) (geo_lookup env))))"

definition history_asn :: "henv \<Rightarrow> geo_dbs \<Rightarrow> query \<Rightarrow> (GeoBreakdown \<times> AsnRow list) result" where
  "history_asn env d q = bind_res (geo_input_req env q) (\<lambda>i. bind_res (geoBreakdown env d i) (\<lambda>b. Inr (gr_base b, gr_asns b)))"

definition history_countries :: "henv \<Rightarrow> geo_dbs \<Rightarrow> query \<Rightarrow> (GeoBreakdown \<times> CountryRow list) result" where
  "history_countries env d q = bind_res (geo_input_req env q) (\<lambda>i. bind_res (geoBreakdown env d i) (\<lambda>b. Inr (gr_base b, gr_countries b)))"

record DestinationsResponse =
  ds_from :: int
  ds_to :: int
  ds_table :: table
  ds_dir :: GeoDir
  ds_geo :: bool
  ds_rdns :: bool
  ds_rows :: "DestRow list"
  ds_matched :: nat
  ds_truncated :: bool

definition destinations_input_req :: "henv \<Rightarrow> query \<Rightarrow> (geo_req \<times> DestSelection \<times> int) result" where
  "destinations_input_req env q =
     bind_res (parseRange q (he_now env)) (\<lambda>r.
     bind_res (parseGeoDir (q ''dir'')) (\<lambda>dir.
     bind_res (parseDestSelection q) (\<lambda>sel.
     bind_res (intInRange (q ''limit'') ''limit'' DEST_TABLE_LIMIT_DEFAULT 1 DEST_TABLE_LIMIT_MAX) (\<lambda>limit.
     bind_res (parseFilters (he_isIP env) q) (\<lambda>f.
     Inr (\<lparr> gq_range = r, gq_dir = dir, gq_filters = f, gq_limit = GEO_IP_LIMIT + 1 \<rparr>, sel, limit))))))"

definition destinations_answer ::
  "bool \<Rightarrow> henv \<Rightarrow> DestQueryRow db \<Rightarrow> geo_req \<times> DestSelection \<times> int \<Rightarrow> DestinationsResponse result" where
  "destinations_answer rdnsOn env db i = (case i of (g, sel, limit) \<Rightarrow>
     bind_res (chQuery (he_aborted env) db (destinationsQuery g)) (\<lambda>rows.
     let truncated = int (length rows) > GEO_IP_LIMIT;
         out = buildDestinations (if truncated then take (nat GEO_IP_LIMIT) rows else rows) sel (geo_lookup env) (nat limit)
     in Inr \<lparr> ds_from = r_from (gq_range g), ds_to = r_to (gq_range g), ds_table = r_table (gq_range g), ds_dir = gq_dir g,
          ds_geo = GeoDb_loaded (he_geo env), ds_rdns = rdnsOn, ds_rows = fst out, ds_matched = snd out,
          ds_truncated = truncated \<rparr>))"

definition history_destinations :: "bool \<Rightarrow> henv \<Rightarrow> DestQueryRow db \<Rightarrow> query \<Rightarrow> DestinationsResponse result" where
  "history_destinations rdnsOn env db q =
     bind_res (destinations_input_req env q) (destinations_answer rdnsOn env db)"

section \<open>Ingest\<close>

record IngestRow =
  in_last_ts :: cell
  in_rows_1m :: cell

record HistoryIngest =
  hi_serverTimeMs :: int
  hi_lastTsMs :: "num option"
  hi_rows1m :: num

definition INGEST_SQL :: sql where
  "INGEST_SQL = [T (''SELECT toUnixTimestamp64Milli(max(ts)) AS last_ts, countIf(ts > now() - INTERVAL 1 MINUTE) AS rows_1m ''
     @ ''FROM flows WHERE ts > now() - INTERVAL 10 MINUTE'')]"

definition history_ingest :: "henv \<Rightarrow> IngestRow db \<Rightarrow> HistoryIngest result" where
  "history_ingest env db =
     bind_res (chQuery (he_aborted env) db (INGEST_SQL, [])) (\<lambda>rows.
     let last_ts = num_or_0 in_last_ts rows
     in Inr \<lparr> hi_serverTimeMs = he_now env, hi_lastTsMs = (if last_ts > 0 then Some last_ts else None), hi_rows1m = num_or_0 in_rows_1m rows \<rparr>)"

section \<open>The registered routes\<close>

text \<open>What the handlers share beyond \<open>henv\<close>, one view of the database for each, and their answers.\<close>

record history_dbs =
  db_summary :: "SummaryRow db"
  db_flows :: "FlowRow db"
  db_throughput :: throughput_dbs
  db_burst :: "BurstRow db"
  db_lifecycle :: "LifecycleRow db"
  db_lifetimes :: "LifetimeRow db"
  db_scatter :: "ScatterRow db"
  db_heatmap :: heat_dbs
  db_treemap :: "TreemapRow db"
  db_bytes_per_call :: "BytesPerCallQueryRow db"
  db_beacons :: "BeaconRow db"
  db_new_dests :: new_dests_dbs
  db_geo :: geo_dbs
  db_destinations :: "DestQueryRow db"
  db_ingest :: "IngestRow db"

datatype history_response =
  RSummary HistorySummary | RFlows HistoryFlowsResponse | RThroughput ThroughputAnswer | RBurst BurstResponse
  | RLifecycle "LifecycleProc listing" | RLifetimes "LifetimeBar listing" | RScatter ScatterResponse
  | RHeatmap HeatmapResponse | RTreemap TreemapResponse | RBytesPerCall BytesPerCallResponse | RBeacons BeaconsResponse
  | RNewDests NewDestsResponse | RAsn "GeoBreakdown \<times> AsnRow list" | RCountries "GeoBreakdown \<times> CountryRow list"
  | RDestinations DestinationsResponse | RIngest HistoryIngest

record history_deps =
  dp_env :: henv
  dp_calendar :: zone_calendar
  dp_sqrt :: "num \<Rightarrow> num"
  dp_rdns :: bool

definition map_result :: "('a \<Rightarrow> 'b) \<Rightarrow> 'a result \<Rightarrow> 'b result" where
  "map_result f r = bind_res r (\<lambda>x. Inr (f x))"

definition history_plain ::
  "history_deps \<Rightarrow> history_dbs \<Rightarrow> query \<Rightarrow> (string \<times> history_response result) list" where
  "history_plain dp d q = (let env = dp_env dp in
     [(''/api/history/summary'', map_result RSummary (history_summary env (db_summary d) q)),
      (''/api/history/flows'', map_result RFlows (history_flows env (db_flows d) q)),
      (''/api/history/throughput'', map_result RThroughput (history_throughput env (db_throughput d) q)),
      (''/api/history/burst'', map_result RBurst (history_burst env (db_burst d) q)),
      (''/api/history/lifecycle'', map_result RLifecycle (history_lifecycle env (db_lifecycle d) q)),
      (''/api/history/lifetimes'', map_result RLifetimes (history_lifetimes env (db_lifetimes d) q)),
      (''/api/history/scatter'', map_result RScatter (history_scatter env (db_scatter d) q)),
      (''/api/history/treemap'', map_result RTreemap (history_treemap env (db_treemap d) q)),
      (''/api/history/bytes-per-call'', map_result RBytesPerCall (history_bytes_per_call env (db_bytes_per_call d) q)),
      (''/api/history/beacons'', map_result RBeacons (history_beacons (dp_sqrt dp) env (db_beacons d) q)),
      (''/api/history/new-dests'', map_result RNewDests (history_new_dests env (db_new_dests d) q)),
      (''/api/history/asn'', map_result RAsn (history_asn env (db_geo d) q)),
      (''/api/history/countries'', map_result RCountries (history_countries env (db_geo d) q)),
      (''/api/history/destinations'', map_result RDestinations (history_destinations (dp_rdns dp) env (db_destinations d) q)),
      (''/api/history/ingest'', map_result RIngest (history_ingest env (db_ingest d)))])"

text \<open>The time zones known so far are the only state; only the heatmap adds to them. \<open>None\<close>: no such route.\<close>

definition historyRoutes ::
  "history_deps \<Rightarrow> history_dbs \<Rightarrow> string list \<Rightarrow> string \<Rightarrow> query \<Rightarrow> (history_response result \<times> string list) option" where
  "historyRoutes dp d known path q =
     (if path = ''/api/history/heatmap''
      then (let (r, known') = history_heatmap (dp_env dp) (dp_calendar dp) (db_heatmap d) known q in Some (map_result RHeatmap r, known'))
      else map_option (\<lambda>r. (r, known)) (map_of (history_plain dp d q) path))"

section \<open>The two queries of this file\<close>

definition range_shape :: "Range \<times> Filters \<Rightarrow> time_col \<times> table \<times> bool list" where
  "range_shape i = (r_col (fst i), r_table (fst i), filter_shape (snd i))"

interpretation summary_query: param_query summaryQuery range_shape
proof
  fix i j :: "Range \<times> Filters"
  assume "range_shape i = range_shape j"
  then have c: "r_col (fst i) = r_col (fst j)" "r_table (fst i) = r_table (fst j)" "filter_shape (snd i) = filter_shape (snd j)"
    by (auto simp: range_shape_def)
  show "fst (summaryQuery i) = fst (summaryQuery j)"
    unfolding summaryQuery_def case_prod_beta Let_def fst_conv timeFilter_cong [OF c(1)] c(2) filter_text [OF c(3)] filter_shape_uid [OF c(3)] ..
next
  fix i :: "Range \<times> Filters"
  show "bound_in (snd (summaryQuery i)) (fst (summaryQuery i))"
    using placeholders_flowSource [of "r_table (fst i)" "timeFilter (fst i)" "fl_uid (snd i) \<noteq> None"]
    unfolding summaryQuery_def case_prod_beta Let_def fst_conv snd_conv bound_in_def by (auto simp: filterSql_bound image_Un)
qed

interpretation flows_query: param_query flowsQuery "\<lambda>i. range_shape (fst i, snd (snd i))"
proof
  fix i j :: flows_input
  assume "range_shape (fst i, snd (snd i)) = range_shape (fst j, snd (snd j))"
  then have c: "r_col (fst i) = r_col (fst j)" "r_table (fst i) = r_table (fst j)"
    "filter_shape (snd (snd i)) = filter_shape (snd (snd j))" by (auto simp: range_shape_def)
  have t: "flows_time (fst i) = flows_time (fst j)" by (simp add: flows_time_def c(2) timeFilter_cong [OF c(1)])
  show "fst (flowsQuery i) = fst (flowsQuery j)"
    unfolding flowsQuery_def case_prod_beta Let_def fst_conv t c(2) filter_text [OF c(3)] filter_shape_uid [OF c(3)] ..
next
  fix i :: flows_input
  have "placeholders (flows_time (fst i)) = {''from'', ''to''}" by (auto simp: flows_time_def)
  then show "bound_in (snd (flowsQuery i)) (fst (flowsQuery i))"
    using placeholders_flowSource [of "r_table (fst i)" "flows_time (fst i)" "fl_uid (snd (snd i)) \<noteq> None"]
    unfolding flowsQuery_def case_prod_beta Let_def fst_conv snd_conv bound_in_def by (auto simp: filterSql_bound image_Un)
qed

section \<open>Refusals and gateway errors\<close>

lemma fails_words [fails]:
  "fails_with refused (parseBurstDir raw)" "fails_with refused (parseGroup raw)" "fails_with refused (parseBasis raw)"
  "fails_with refused (parseMetric raw)" "fails_with refused (parseSplit raw)" "fails_with refused (parseTreemapDir raw)"
  "fails_with refused (parseBpcDir raw)" "fails_with refused (parseBpcBy raw)" "fails_with refused (parseGeoDir raw)"
  unfolding parseBurstDir_def parseGroup_def parseBasis_def parseMetric_def parseSplit_def parseTreemapDir_def parseBpcDir_def
    parseBpcBy_def parseGeoDir_def by (intro fails)+

lemma fails_case_option [fails]: "fails_with B n \<Longrightarrow> (\<And>x. fails_with B (f x)) \<Longrightarrow> fails_with B (case v of None \<Rightarrow> n | Some x \<Rightarrow> f x)"
  by (simp split: option.split)

lemma fails_case_qval [fails]:
  "(\<And>s. fails_with B (f s)) \<Longrightarrow> (\<And>l. fails_with B (g l)) \<Longrightarrow> fails_with B (case v of QStr s \<Rightarrow> f s | QArr l \<Rightarrow> g l)"
  by (simp split: qval.split)

lemma fails_parseInstance [fails]: "fails_with refused (parseInstance q)"
  unfolding parseInstance_def Let_def by (intro fails)

lemma fails_parseNames [fails]: "fails_with refused (parseNames raw)"
  unfolding parseNames_def Let_def by (intro fails)

lemma fails_msParam [fails]: "fails_with refused (msParam q n)"
  unfolding msParam_def by (intro fails)

lemma fails_parseHeatRange [fails]: "fails_with refused (parseHeatRange q now)"
  unfolding parseHeatRange_def Let_def by (intro fails)

lemma fails_parseDestSelection [fails]: "fails_with refused (parseDestSelection q)"
  unfolding parseDestSelection_def by (intro fails)

lemma fails_case_prod [fails]: "(\<And>a b. fails_with B (f a b)) \<Longrightarrow> fails_with B (case p of (a, b) \<Rightarrow> f a b)"
  by (cases p) simp

lemma fails_Let [fails]: "(\<And>x. fails_with B (f x)) \<Longrightarrow> fails_with B (Let v f)"
  by (simp add: Let_def)

interpretation summary_route: route "range_filters_req env" "summary_answer env" for env
  by unfold_locales (unfold range_filters_req_def summary_answer_def, (intro fails)+)

interpretation flows_route: route "flows_req env" "flows_answer env" for env
  by unfold_locales (unfold flows_req_def flows_answer_def, (intro fails)+)

interpretation throughput_route: route "throughput_input_req env" "throughput_answer env" for env
  by unfold_locales (unfold throughput_input_req_def throughput_answer_def, (intro fails)+)

lemma fails_burst_answer: "fails_with gateway (burst_answer env db i)"
proof -
  obtain r dir inst f where i: "i = (r, dir, inst, f)" by (cases i) auto
  show ?thesis
    using fails_chQuery [of "he_aborted env" db "burstQuery \<lparr> bu_range = r, bu_dir = dir, bu_filters = f, bu_instance = inst \<rparr>"]
    by (auto simp: i burst_answer_def fails_with_def gateway_def split: sum.splits)
qed

interpretation burst_route: route "burst_input_req env" "burst_answer env" for env
  by unfold_locales (unfold burst_input_req_def, (intro fails fails_burst_answer)+)

interpretation lifecycle_route: route "lifecycle_input_req env" "lifecycle_answer env" for env
  by unfold_locales (unfold lifecycle_input_req_def lifecycle_answer_def, (intro fails)+)

interpretation lifetimes_route: route "lifetimes_input_req env" "lifetimes_answer env" for env
  by unfold_locales (unfold lifetimes_input_req_def lifetimes_answer_def, (intro fails)+)

interpretation scatter_route: route "scatter_input_req env" "scatter_answer env" for env
  by unfold_locales (unfold scatter_input_req_def scatter_answer_def, (intro fails)+)

interpretation treemap_route: route "treemap_input_req env" "treemap_answer env" for env
  by unfold_locales (unfold treemap_input_req_def treemap_answer_def, (intro fails)+)

interpretation bpc_route: route "bpc_input_req env" "bpc_answer env" for env
  by unfold_locales (unfold bpc_input_req_def bpc_answer_def, (intro fails)+)

interpretation beacons_route: route "beacons_input_req env" "beacons_answer msqrt env" for env msqrt
  by unfold_locales (unfold beacons_input_req_def beacons_answer_def, (intro fails)+)

interpretation new_dests_route: route "new_dests_input_req env" "new_dests_answer env" for env
  by unfold_locales (unfold new_dests_input_req_def new_dests_answer_def, (intro fails)+)

lemma fails_geoBreakdown [fails]: "fails_with gateway (geoBreakdown env d i)"
  unfolding geoBreakdown_def by (intro fails)

interpretation asn_route: route "geo_input_req env" "\<lambda>d i. bind_res (geoBreakdown env d i) (\<lambda>b. Inr (gr_base b, gr_asns b))" for env
  by unfold_locales (unfold geo_input_req_def, (intro fails)+)

interpretation countries_route: route "geo_input_req env" "\<lambda>d i. bind_res (geoBreakdown env d i) (\<lambda>b. Inr (gr_base b, gr_countries b))"
  for env
  by unfold_locales (unfold geo_input_req_def, (intro fails)+)

interpretation destinations_route: route "destinations_input_req env" "destinations_answer rdnsOn env" for env rdnsOn
  by unfold_locales (unfold destinations_input_req_def destinations_answer_def, (intro fails)+)

lemma map_result_Inl [simp]: "map_result f r = Inl e \<longleftrightarrow> r = Inl e"
  by (cases r) (auto simp: map_result_def)

lemmas history_defs = history_summary_def history_flows_def history_throughput_def history_burst_def history_lifecycle_def
  history_lifetimes_def history_scatter_def history_treemap_def history_bytes_per_call_def history_beacons_def
  history_new_dests_def history_asn_def history_countries_def history_destinations_def

lemmas route_statuses = summary_route.statuses flows_route.statuses throughput_route.statuses burst_route.statuses
  lifecycle_route.statuses lifetimes_route.statuses scatter_route.statuses treemap_route.statuses bpc_route.statuses
  beacons_route.statuses new_dests_route.statuses asn_route.statuses countries_route.statuses destinations_route.statuses

lemmas route_refusals = summary_route.refusal_first flows_route.refusal_first throughput_route.refusal_first burst_route.refusal_first
  lifecycle_route.refusal_first lifetimes_route.refusal_first scatter_route.refusal_first treemap_route.refusal_first
  bpc_route.refusal_first beacons_route.refusal_first new_dests_route.refusal_first asn_route.refusal_first
  countries_route.refusal_first destinations_route.refusal_first

lemma fails_history_ingest: "fails_with gateway (history_ingest env db)"
  unfolding history_ingest_def by (intro fails)

lemma history_plain_statuses:
  assumes "map_of (history_plain dp d q) path = Some (Inl e)"
  shows "statusCode e \<in> {400, 499, 502, 504}"
proof -
  have ing: "history_ingest env db = Inl e \<Longrightarrow> statusCode e \<in> {400, 499, 502, 504}" for env db
    using fails_history_ingest [of env db] by (auto simp: fails_with_def gateway_def)
  from assms show ?thesis
    by (auto simp only: history_plain_def Let_def map_of.simps fun_upd_apply fst_conv snd_conv option.inject option.distinct
        map_result_Inl history_defs split: if_splits dest!: route_statuses ing)
qed

text \<open>A table of routes and the same table over another database.\<close>

definition same_refusals :: "(string \<times> 'a result) list \<Rightarrow> (string \<times> 'a result) list \<Rightarrow> bool" where
  "same_refusals = list_all2 (\<lambda>x y. fst x = fst y \<and> (\<forall>e. snd x = Inl e \<longrightarrow> refused e \<longrightarrow> snd y = Inl e))"

lemma same_refusals_map_of:
  "same_refusals xs ys \<Longrightarrow> map_of xs p = Some (Inl e) \<Longrightarrow> refused e \<Longrightarrow> map_of ys p = Some (Inl e)"
  unfolding same_refusals_def by (induction rule: list_all2_induct) (auto split: if_splits)

lemma history_plain_same: "same_refusals (history_plain dp d q) (history_plain dp d' q)"
proof -
  have ing: "\<not> refused e" if "history_ingest env db = Inl e" for env db e
    using fails_history_ingest [of env db] that by (auto simp: fails_with_def gateway_def refused_def)
  show ?thesis
    unfolding same_refusals_def history_plain_def Let_def list_all2_Cons fst_conv snd_conv map_result_Inl history_defs
    by (intro conjI allI impI refl list.rel_intros(1)) ((erule (1) route_refusals) | (drule ing, erule (1) notE))+
qed

text \<open>
  The errors of the heatmap: those of the others, and the uncaught \<open>RangeError\<close> of the calendar, for a
  zone that the database knows and the runtime does not and for instants beyond the time values.
\<close>

definition calendar_fails :: "zone_calendar \<Rightarrow> string \<Rightarrow> heat_req \<Rightarrow> bool" where
  "calendar_fails cal tz i \<longleftrightarrow> cal tz = None \<or> ht_from i < - 8640000000000000 \<or> 8640000000000000 < ht_to i"

lemma heat_answer_fails:
  assumes "heat_answer env cal d i = Inl e"
  shows "gateway e \<or> e = internal_error \<and> calendar_fails cal (ht_tz i) i"
proof -
  have gw: "gateway e'" if "chQuery ab db x = Inl e'" for ab x e' and db :: "'r db"
    using fails_chQuery [of ab db x] that by (simp add: fails_with_def)
  have cal: "calendar_fails cal (ht_tz i) i"
    if "heat_samples cal (ht_tz i) start (ht_to i) = Inl ex" "ht_from i \<le> start" for start ex
    using that sampleCounts_throws [of "cal (ht_tz i)" start "ht_to i" ex]
    by (auto simp: heat_samples_def calendar_fails_def split: if_splits)
  show ?thesis
    using assms unfolding heat_answer_def bind_res_Inl_iff Let_def
    by (elim disjE exE conjE) (auto dest: gw cal split: sum.splits js_exception.splits option.splits)
qed

lemma parseTz_fails: "parseTz db k raw = (Inl e, k') \<Longrightarrow> refused e \<or> gateway e"
proof -
  have "gateway e'" if "chQuery False db x = Inl e'" for x e'
    using fails_chQuery [of False db x] that by (simp add: fails_with_def)
  then show "parseTz db k raw = (Inl e, k') \<Longrightarrow> refused e \<or> gateway e"
    by (auto simp: parseTz_def refused_def badRequest_def split: option.splits qval.splits if_splits sum.splits)
qed

lemma fails_heat_input_req: "fails_with refused (heat_input_req env q)"
  unfolding heat_input_req_def by (intro fails)

lemma history_heatmap_errors:
  assumes "history_heatmap env cal d known q = (Inl e, known')"
  shows "refused e \<and> (\<forall>d'. hd_tz d' = hd_tz d \<longrightarrow> history_heatmap env cal d' known q = (Inl e, known'))
    \<or> gateway e
    \<or> e = internal_error \<and> (\<exists>i tz. heat_input_req env q = Inr i \<and> parseTz (hd_tz d) known (q ''tz'') = (Inr tz, known')
        \<and> calendar_fails cal tz i)"
proof (cases "heat_input_req env q")
  case (Inl e')
  then have "refused e'" using fails_heat_input_req [of env q] by (simp add: fails_with_def)
  with Inl assms show ?thesis by (auto simp: history_heatmap_def)
next
  case (Inr i)
  obtain r k where tz: "parseTz (hd_tz d) known (q ''tz'') = (r, k)" by fastforce
  show ?thesis
  proof (cases r)
    case (Inl e')
    with tz Inr assms parseTz_fails [of "hd_tz d" known "q ''tz''" e' k] show ?thesis
      by (auto simp: history_heatmap_def)
  next
    case tzr: (Inr z)
    then have a: "heat_answer env cal d (i\<lparr> ht_tz := z \<rparr>) = Inl e" "k = known'"
      using tz Inr assms by (simp_all add: history_heatmap_def)
    from heat_answer_fails [OF a(1)] have "gateway e \<or> e = internal_error \<and> calendar_fails cal z i"
      by (simp add: calendar_fails_def)
    with Inr tz tzr a(2) show ?thesis by auto
  qed
qed

text \<open>
  (C5) Errors of the history endpoints, for every request and every behaviour of the database: the
  status is 400 (the request is refused), 499 (the client went away), 502 or 504 (the database
  failed or took too long). The heatmap has one more, a 500, and only when the request and its time
  zone were accepted and the calendar of the runtime throws: it does not know a zone that the
  database knows, or the range ends beyond the time values of ECMAScript. A refusal does not depend
  on the database: with any other one the same request gets the same answer, at the heatmap provided
  that the two answer the question whether the time zone exists in the same way.
\<close>

theorem historyRoutes_errors:
  assumes "historyRoutes dp d known path q = Some (Inl e, known')"
  shows "(statusCode e \<in> {400, 499, 502, 504}
      \<or> statusCode e = 500 \<and> path = ''/api/history/heatmap''
        \<and> (\<exists>i tz. heat_input_req (dp_env dp) q = Inr i
            \<and> parseTz (hd_tz (db_heatmap d)) known (q ''tz'') = (Inr tz, known')
            \<and> (dp_calendar dp tz = None \<or> ht_from i < - 8640000000000000 \<or> 8640000000000000 < ht_to i)))
    \<and> (statusCode e = 400 \<and> (path = ''/api/history/heatmap'' \<longrightarrow> hd_tz (db_heatmap d') = hd_tz (db_heatmap d))
        \<longrightarrow> historyRoutes dp d' known path q = Some (Inl e, known'))"
proof (cases "path = ''/api/history/heatmap''")
  case True
  then have h: "history_heatmap (dp_env dp) (dp_calendar dp) (db_heatmap d) known q = (Inl e, known')"
    using assms by (auto simp: historyRoutes_def split: prod.splits)
  have st: "\<not> (statusCode e = 400 \<and> (gateway e \<or> e = internal_error))"
    by (auto simp: gateway_def internal_error_def)
  have "historyRoutes dp d' known path q = Some (Inl e, known')"
    if "history_heatmap (dp_env dp) (dp_calendar dp) (db_heatmap d') known q = (Inl e, known')"
    using that True by (simp add: historyRoutes_def map_result_def)
  with history_heatmap_errors [OF h] st True show ?thesis
    by (auto simp: refused_def gateway_def internal_error_def calendar_fails_def)
next
  case False
  with assms have e: "map_of (history_plain dp d q) path = Some (Inl e)" and k: "known' = known"
    by (auto simp: historyRoutes_def)
  show ?thesis
    using history_plain_statuses [OF e] same_refusals_map_of [OF history_plain_same e, of d'] False k
    by (auto simp: historyRoutes_def refused_def)
qed

definition no_rows :: history_dbs where
  "no_rows = \<lparr> db_summary = \<lambda>_. Inr [], db_flows = \<lambda>_. Inr [],
     db_throughput = \<lparr> td_rows = \<lambda>_. Inr [], td_ghost = \<lambda>_. Inr [], td_first = \<lambda>_. Inr [], td_unknown = \<lambda>_. Inr [], td_calls = \<lambda>_. Inr [] \<rparr>,
     db_burst = \<lambda>_. Inr [], db_lifecycle = \<lambda>_. Inr [], db_lifetimes = \<lambda>_. Inr [], db_scatter = \<lambda>_. Inr [],
     db_heatmap = \<lparr> hd_rows = \<lambda>_. Inr [], hd_first = \<lambda>_. Inr [], hd_tz = \<lambda>_. Inr [] \<rparr>, db_treemap = \<lambda>_. Inr [],
     db_bytes_per_call = \<lambda>_. Inr [], db_beacons = \<lambda>_. Inr [],
     db_new_dests = \<lparr> nb_rows = \<lambda>_. Inr [], nb_hours = \<lambda>_. Inr [], nb_first = \<lambda>_. Inr [] \<rparr>,
     db_geo = \<lparr> gd_ips = \<lambda>_. Inr [], gd_totals = \<lambda>_. Inr [] \<rparr>, db_destinations = \<lambda>_. Inr [], db_ingest = \<lambda>_. Inr [] \<rparr>"

definition sample_env :: henv where
  "sample_env = \<lparr> he_aborted = False, he_isIP = (\<lambda>_. False), he_now = 1789732800000, he_users = new_Users, he_geo = new_GeoDb None, he_lc = lc_codes \<rparr>"

definition sample_deps :: history_deps where
  "sample_deps = \<lparr> dp_env = sample_env, dp_calendar = (\<lambda>_. Some (\<lambda>_. [], \<lambda>_. [])), dp_sqrt = (\<lambda>x. x), dp_rdns = False \<rparr>"

theorem historyRoutes_errors_witness:
  "\<exists>e. historyRoutes sample_deps no_rows [] ''/api/history/summary'' [''to'' \<mapsto> QArr []] = Some (Inl e, [])
    \<and> historyRoutes sample_deps (no_rows\<lparr> db_summary := \<lambda>_. Inl \<lparr> ce_type = None, ce_code = None, ce_message = ''down'' \<rparr> \<rparr>)
        [] ''/api/history/summary'' [''to'' \<mapsto> QArr []] = Some (Inl e, [])"
proof -
  obtain e where e: "parseRange [''to'' \<mapsto> QArr []] 1789732800000 = Inl e" "statusCode e = 400"
    by (auto simp: parseRange_def intParam_def badRequest_def Let_def)
  then have h: "historyRoutes sample_deps no_rows [] ''/api/history/summary'' [''to'' \<mapsto> QArr []] = Some (Inl e, [])"
    by (simp add: historyRoutes_def history_plain_def Let_def history_summary_def range_filters_req_def sample_deps_def sample_env_def
        map_result_def)
  show ?thesis
    by (rule exI [of _ e]) (use historyRoutes_errors [OF h] e(2) h in simp)
qed

section \<open>Pages\<close>

text \<open>A database that honours \<open>LIMIT\<close>: of the matching rows it returns the first ones.\<close>

definition honours_limit :: "'r db \<Rightarrow> (int \<Rightarrow> sql_query) \<Rightarrow> 'r list \<Rightarrow> bool" where
  "honours_limit db query rows \<longleftrightarrow> (\<forall>n. db (query n) = Inr (take (nat n) rows))"

lemma chQuery_limit: "honours_limit db query rows \<Longrightarrow> chQuery ab db (query n) = Inr (take (nat n) rows)"
  by (simp add: honours_limit_def chQuery_def)

lemma cut_listing_page:
  assumes "0 \<le> limit"
  shows "cut_listing a b limit conv (take (nat (limit + 1)) rows)
    = \<lparr> ls_from = a, ls_to = b, ls_items = map conv (take (nat limit) rows), ls_truncated = (int (length rows) > limit) \<rparr>"
  using assms by (auto simp: cut_listing_def min_def)

lemma lifecycle_req_limit: "lifecycle_input_req env q = Inr i \<Longrightarrow> 1 \<le> lq_limit i \<and> lq_limit i \<le> LIFECYCLE_LIMIT_MAX"
  unfolding lifecycle_input_req_def
  by (auto dest!: intInRange_bounds simp: LIFECYCLE_LIMIT_DEFAULT_def LIFECYCLE_LIMIT_MAX_def)

lemma lifetimes_req_limit: "lifetimes_input_req env q = Inr i \<Longrightarrow> 1 \<le> lt_limit i \<and> lt_limit i \<le> LIFETIMES_LIMIT_MAX"
  unfolding lifetimes_input_req_def
  by (auto dest!: intInRange_bounds simp: LIFETIMES_LIMIT_DEFAULT_def LIFETIMES_LIMIT_MAX_def)

lemma scatter_req_limit: "scatter_input_req env q = Inr i \<Longrightarrow> 1 \<le> sq_limit i \<and> sq_limit i \<le> SCATTER_LIMIT_MAX"
  unfolding scatter_input_req_def
  by (auto dest!: intInRange_bounds simp: SCATTER_LIMIT_DEFAULT_def SCATTER_LIMIT_MAX_def)

text \<open>
  The listings are pages with an honest \<open>truncated\<close>: against a database that honours
  \<open>LIMIT\<close>, an accepted request for process markers, lifetimes or scatter points is answered with the
  first matching rows, as many as the limit (which is between 1 and its maximum), converted one by
  one and in order; and \<open>truncated\<close> is set exactly when more rows match than are shown.
\<close>

theorem listings_paged:
  assumes "lifecycle_input_req env q = Inr i" and "honours_limit db (\<lambda>n. lifecycleQuery (i\<lparr> lq_limit := n \<rparr>)) rows"
    and "lifetimes_input_req env q' = Inr i'" and "honours_limit db' (\<lambda>n. lifetimesQuery (i'\<lparr> lt_limit := n \<rparr>)) rows'"
    and "scatter_input_req env q'' = Inr i''" and "honours_limit db'' (\<lambda>n. scatterQuery (i''\<lparr> sq_limit := n \<rparr>)) rows''"
  shows "history_lifecycle env db q = Inr \<lparr> ls_from = lq_from i, ls_to = lq_to i,
      ls_items = map toLifecycleProc (take (nat (lq_limit i)) rows), ls_truncated = (int (length rows) > lq_limit i) \<rparr>
    \<and> 1 \<le> lq_limit i \<and> lq_limit i \<le> LIFECYCLE_LIMIT_MAX
    \<and> history_lifetimes env db' q' = Inr \<lparr> ls_from = lt_from i', ls_to = lt_to i',
      ls_items = map toLifetimeBar (take (nat (lt_limit i')) rows'), ls_truncated = (int (length rows') > lt_limit i') \<rparr>
    \<and> 1 \<le> lt_limit i' \<and> lt_limit i' \<le> LIFETIMES_LIMIT_MAX
    \<and> map_result sr_list (history_scatter env db'' q'') = Inr \<lparr> ls_from = r_from (sq_range i''), ls_to = r_to (sq_range i''),
      ls_items = map (\<lambda>r. toScatterPoint r (user_of env)) (take (nat (sq_limit i'')) rows''),
      ls_truncated = (int (length rows'') > sq_limit i'') \<rparr>
    \<and> 1 \<le> sq_limit i'' \<and> sq_limit i'' \<le> SCATTER_LIMIT_MAX"
proof -
  note lim = lifecycle_req_limit [OF assms(1)] lifetimes_req_limit [OF assms(3)] scatter_req_limit [OF assms(5)]
  have "history_lifecycle env db q = Inr (cut_listing (lq_from i) (lq_to i) (lq_limit i) toLifecycleProc (take (nat (lq_limit i + 1)) rows))"
    by (simp add: history_lifecycle_def assms(1) lifecycle_answer_def chQuery_limit [OF assms(2)])
  moreover have "history_lifetimes env db' q' = Inr (cut_listing (lt_from i') (lt_to i') (lt_limit i') toLifetimeBar (take (nat (lt_limit i' + 1)) rows'))"
    by (simp add: history_lifetimes_def assms(3) lifetimes_answer_def chQuery_limit [OF assms(4)])
  moreover have "map_result sr_list (history_scatter env db'' q'') = Inr (cut_listing (r_from (sq_range i'')) (r_to (sq_range i''))
      (sq_limit i'') (\<lambda>r. toScatterPoint r (user_of env)) (take (nat (sq_limit i'' + 1)) rows''))"
    by (simp add: history_scatter_def assms(5) scatter_answer_def chQuery_limit [OF assms(6)] map_result_def)
  ultimately show ?thesis using lim by (simp add: cut_listing_page)
qed

definition one_row :: query where
  "one_row = sample_query(''limit'' \<mapsto> QStr ''1'')"

definition no_filters :: Filters where
  "no_filters = \<lparr> fl_name = None, fl_app = None, fl_proto = None, fl_uid = None, fl_dest = None \<rparr>"

lemma parseRange_one_row: "parseRange one_row (he_now sample_env) = Inr sample_range"
proof -
  have "intParam one_row ''from'' n = intParam sample_query ''from'' n" "intParam one_row ''to'' n = intParam sample_query ''to'' n"
    "intParam one_row ''step'' n = intParam sample_query ''step'' n" for n
    by (simp_all add: intParam_def one_row_def)
  then have "parseRange one_row now = parseRange sample_query now" for now unfolding parseRange_def by presburger
  moreover have "parseRange sample_query (he_now sample_env) = Inr sample_range" by code_simp
  ultimately show ?thesis by simp
qed

lemma limit_one_row: "1 \<le> hi \<Longrightarrow> intInRange (one_row ''limit'') ''limit'' d (Suc 0) hi = Inr 1"
proof -
  have "all_digits ''1''" "Number_dec ''1'' = 1" by code_simp+
  then show "1 \<le> hi \<Longrightarrow> ?thesis" by (simp add: one_row_def intInRange_def)
qed

lemma one_row_other: "k \<noteq> ''limit'' \<Longrightarrow> k \<noteq> ''from'' \<Longrightarrow> k \<noteq> ''to'' \<Longrightarrow> k \<noteq> ''step'' \<Longrightarrow> one_row k = None"
  by (simp add: one_row_def sample_query_def)

lemma one_row_reqs:
  "lifecycle_input_req sample_env one_row
     = Inr \<lparr> lq_from = 1789646400000, lq_to = 1789732800000, lq_limit = 1, lq_names = None, lq_uid = None \<rparr>"
  "lifetimes_input_req sample_env one_row
     = Inr \<lparr> lt_from = 1789646400000, lt_to = 1789732800000, lt_limit = 1, lt_name = None, lt_uid = None \<rparr>"
  "scatter_input_req sample_env one_row
     = Inr \<lparr> sq_range = sample_range, sq_group = ByInstance, sq_basis = Lifetime, sq_filters = no_filters, sq_limit = 1 \<rparr>"
  unfolding lifecycle_input_req_def lifetimes_input_req_def scatter_input_req_def parseRange_one_row
  by (simp_all add: limit_one_row one_row_other only_def parseNames_def parseGroup_def parseBasis_def pick_msg_def parseFilters_def
      text_filter_def uid_filter_def parseDest_def no_filters_def sample_range_def LIFECYCLE_LIMIT_MAX_def LIFETIMES_LIMIT_MAX_def
      SCATTER_LIMIT_MAX_def)

definition sample_proc :: LifecycleRow where
  "sample_proc = \<lparr> lr_pid = 7, lr_start_ns = ''42'', lr_pname = ''curl'', lr_cmd = ''curl -s'', lr_first_seen_ms = Plain 5,
     lr_ended_ms = None, lr_bytes = Plain 9 \<rparr>"

text \<open>A database that holds the given rows and reads its limit from the request.\<close>

definition limit_db :: "'r list \<Rightarrow> 'r db" where
  "limit_db rows q = Inr (case map_of (snd q) ''limit'' of Some (PInt n) \<Rightarrow> take (nat n) rows | _ \<Rightarrow> [])"

lemma limit_db_honours:
  "honours_limit (limit_db rows) (\<lambda>n. lifecycleQuery (i\<lparr> lq_limit := n, lq_names := None, lq_uid := None \<rparr>)) rows"
  "honours_limit (limit_db rows') (\<lambda>n. lifetimesQuery (i'\<lparr> lt_limit := n, lt_name := None, lt_uid := None \<rparr>)) rows'"
  "honours_limit (limit_db rows'') (\<lambda>n. scatterQuery (i''\<lparr> sq_limit := n, sq_filters := no_filters \<rparr>)) rows''"
  unfolding honours_limit_def limit_db_def lifecycleQuery_def lifetimesQuery_def scatterQuery_def Let_def
  by (simp_all add: opt_cond_def instances_def Let_def filterSql_def no_filters_def opt_filter_def dest_filter_def rangeParams_def)

theorem listings_paged_witness:
  "\<exists>l. history_lifecycle sample_env (limit_db [sample_proc, sample_proc]) one_row = Inr l
     \<and> ls_items l = [toLifecycleProc sample_proc] \<and> ls_truncated l"
proof -
  let ?i = "\<lparr> lq_from = 1789646400000, lq_to = 1789732800000, lq_limit = 1, lq_names = None, lq_uid = None \<rparr>"
  let ?j = "\<lparr> lt_from = 1789646400000, lt_to = 1789732800000, lt_limit = 1, lt_name = None, lt_uid = None \<rparr>"
  let ?k = "\<lparr> sq_range = sample_range, sq_group = ByInstance, sq_basis = Lifetime, sq_filters = no_filters, sq_limit = 1 \<rparr>"
  have "honours_limit (limit_db [sample_proc, sample_proc]) (\<lambda>n. lifecycleQuery (?i\<lparr> lq_limit := n \<rparr>)) [sample_proc, sample_proc]"
    using limit_db_honours(1) [of "[sample_proc, sample_proc]" ?i] by simp
  moreover have "honours_limit (limit_db []) (\<lambda>n. lifetimesQuery (?j\<lparr> lt_limit := n \<rparr>)) []"
    using limit_db_honours(2) [of "[]" ?j] by simp
  moreover have "honours_limit (limit_db []) (\<lambda>n. scatterQuery (?k\<lparr> sq_limit := n \<rparr>)) []"
    using limit_db_honours(3) [of "[]" ?k] by simp
  ultimately show ?thesis
    using listings_paged [OF one_row_reqs(1) _ one_row_reqs(2) _ one_row_reqs(3)] by fastforce
qed

end
