(* ===== verification/RoutesProcess.thy ===== *)
theory RoutesProcess
  imports RoutesHistory
begin

text \<open>
  \<^verbatim>\<open>web/src/server/routes/process.ts\<close>: the endpoints of one process instance. As in the history routes each
  handler parses the request first and then asks the database. The 64-bit columns arrive as
  strings, so a row has \<open>cell\<close>s.
\<close>

definition parseId :: "string \<Rightarrow> string \<Rightarrow> (int \<times> string) result" where
  "parseId pid start =
     (if \<not> digits_between 1 10 pid \<or> Number_dec pid > 4294967295 then Inl (badRequest ''pid: expected a u32'')
      else if \<not> digits_between 1 20 start \<or> int (dec_val start) > 2 ^ 64 - 1 then Inl (badRequest ''start: expected a u64'')
      else Inr (\<lfloor>Number_dec pid\<rfloor>, string_of_nat (dec_val start)))"

section \<open>The process itself\<close>

record ProcessRow =
  pr_pid :: nat
  pr_start_ns :: string
  pr_name :: string
  pr_cmdline :: string
  pr_uid :: nat
  pr_start_ms :: cell
  pr_first_seen_ms :: cell
  pr_last_seen_ms :: cell
  pr_ended_ms :: "cell option"
  pr_tx_total :: cell
  pr_rx_total :: cell

record ProcessInfo =
  pi_pid :: nat
  pi_start_ns :: string
  pi_start_ms :: num
  pi_name :: string
  pi_cmdline :: string
  pi_uid :: nat
  pi_first_seen_ms :: num
  pi_last_seen_ms :: num
  pi_ended_ms :: "num option"
  pi_tx_total :: num
  pi_rx_total :: num

definition id_params :: "int \<times> string \<Rightarrow> params" where
  "id_params i = [(''pid'', PInt (fst i)), (''start'', PStr (snd i))]"

definition ID_COND :: sql where
  "ID_COND = [T ''pid = '', P ''pid'' ''UInt32'', T '' AND proc_start = '', P ''start'' ''UInt64'']"

definition infoQuery :: "int \<times> string \<Rightarrow> sql_query" where
  "infoQuery i = ([T (''SELECT pid, toString(proc_start) AS start_ns, name, cmdline, uid, toUnixTimestamp64Milli(start_ms) AS start_ms, ''
     @ ''toUnixTimestamp64Milli(first_seen) AS first_seen_ms, toUnixTimestamp64Milli(last_seen) AS last_seen_ms, ''
     @ ''toUnixTimestamp64Milli(ended) AS ended_ms, tx_total, rx_total FROM processes FINAL WHERE '')] @ ID_COND, id_params i)"

definition toProcessInfo :: "ProcessRow \<Rightarrow> ProcessInfo" where
  "toProcessInfo r = \<lparr> pi_pid = pr_pid r, pi_start_ns = pr_start_ns r, pi_start_ms = Number_cell (pr_start_ms r), pi_name = pr_name r,
     pi_cmdline = pr_cmdline r, pi_uid = pr_uid r, pi_first_seen_ms = Number_cell (pr_first_seen_ms r),
     pi_last_seen_ms = Number_cell (pr_last_seen_ms r), pi_ended_ms = map_option Number_cell (pr_ended_ms r),
     pi_tx_total = Number_cell (pr_tx_total r), pi_rx_total = Number_cell (pr_rx_total r) \<rparr>"

definition process_info :: "henv \<Rightarrow> ProcessRow db \<Rightarrow> string \<Rightarrow> string \<Rightarrow> ProcessInfo result" where
  "process_info env db pid start =
     bind_res (parseId pid start) (\<lambda>i.
     bind_res (chQuery (he_aborted env) db (infoQuery i)) (\<lambda>rows.
     case rows of [] \<Rightarrow> Inl (HttpError 404 ''no such process'') | r # _ \<Rightarrow> Inr (toProcessInfo r)))"

section \<open>Calls and bytes per call\<close>

definition process_calls_req :: "henv \<Rightarrow> (string \<times> string) \<times> query \<Rightarrow> ((int \<times> string) \<times> Range) result" where
  "process_calls_req env rq = (case rq of ((pid, start), q) \<Rightarrow>
     bind_res (parseId pid start) (\<lambda>i. bind_res (parseRange q (he_now env)) (\<lambda>r. Inr (i, rawRange r))))"

definition process_calls_answer :: "henv \<Rightarrow> ProcessCallsRow db \<Rightarrow> (int \<times> string) \<times> Range \<Rightarrow> ProcessCallsResponse result" where
  "process_calls_answer env db ir = (case ir of (i, r) \<Rightarrow>
     bind_res (chQuery (he_aborted env) db (processCallsQuery (r, i))) (\<lambda>rows. Inr (buildProcessCalls rows r)))"

definition process_calls :: "henv \<Rightarrow> ProcessCallsRow db \<Rightarrow> (string \<times> string) \<times> query \<Rightarrow> ProcessCallsResponse result" where
  "process_calls env db rq = bind_res (process_calls_req env rq) (process_calls_answer env db)"

definition process_bpc_req :: "henv \<Rightarrow> (string \<times> string) \<times> query \<Rightarrow> bpc_req result" where
  "process_bpc_req env rq = (case rq of ((pid, start), q) \<Rightarrow>
     bind_res (parseId pid start) (\<lambda>i.
     bind_res (parseRange q (he_now env)) (\<lambda>r.
     bind_res (parseBpcDir (q ''dir'')) (\<lambda>dir.
     bind_res (parseBpcBy (q ''by'')) (\<lambda>by.
     Inr \<lparr> bq_range = r\<lparr> r_table := Flows, r_col := Ts \<rparr>, bq_dir = dir, bq_by = by, bq_filters = no_filters, bq_instance = Some i \<rparr>)))))"

definition process_bytes_per_call :: "henv \<Rightarrow> BytesPerCallQueryRow db \<Rightarrow> (string \<times> string) \<times> query \<Rightarrow> BytesPerCallResponse result" where
  "process_bytes_per_call env db rq = bind_res (process_bpc_req env rq) (bpc_answer env db)"

section \<open>Beacons\<close>

record LifeRow =
  lf_first_seen_ms :: cell
  lf_last_seen_ms :: cell
  lf_ended_ms :: "cell option"

definition lifeQuery :: "int \<times> string \<Rightarrow> sql_query" where
  "lifeQuery i = ([T (''SELECT toUnixTimestamp64Milli(first_seen) AS first_seen_ms, toUnixTimestamp64Milli(last_seen) AS last_seen_ms, ''
     @ ''toUnixTimestamp64Milli(ended) AS ended_ms FROM processes FINAL WHERE '')] @ ID_COND, id_params i)"

text \<open>A time column is a whole number of milliseconds.\<close>

definition cell_ms :: "cell \<Rightarrow> int" where "cell_ms c = \<lfloor>Number_cell c\<rfloor>"

definition life_of :: "LifeRow \<Rightarrow> int \<Rightarrow> int \<times> int" where
  "life_of p now = lifetimeRange (cell_ms (lf_first_seen_ms p)) (cell_ms (lf_last_seen_ms p)) (map_option cell_ms (lf_ended_ms p)) now"

record beacon_dbs =
  bd_life :: "LifeRow db"
  bd_rows :: "BeaconRow db"

definition process_beacons_req :: "henv \<Rightarrow> (string \<times> string) \<times> query \<Rightarrow> ((int \<times> string) \<times> (int \<times> int) \<times> bool) result" where
  "process_beacons_req env rq = (case rq of ((pid, start), q) \<Rightarrow>
     bind_res (parseId pid start) (\<lambda>i.
     bind_res (parseRange q (he_now env)) (\<lambda>r.
     Inr (i, (r_from r, r_to r), \<not> has_param (q ''from'') \<and> \<not> has_param (q ''to'')))))"

text \<open>The range of the strip: the request's, or the lifetime when the request names none and the process is known.\<close>

definition beacons_base ::
  "henv \<Rightarrow> beacon_dbs \<Rightarrow> (int \<times> string) \<times> (int \<times> int) \<times> bool \<Rightarrow> (int \<times> int) result" where
  "beacons_base env d x = (case x of (i, base, lifetime) \<Rightarrow>
     if \<not> lifetime then Inr base
     else bind_res (chQuery (he_aborted env) (bd_life d) (lifeQuery i)) (\<lambda>ps.
       Inr (case ps of [] \<Rightarrow> base | p # _ \<Rightarrow> life_of p (he_now env))))"

definition process_beacons_answer ::
  "(num \<Rightarrow> num) \<Rightarrow> henv \<Rightarrow> beacon_dbs \<Rightarrow> (int \<times> string) \<times> (int \<times> int) \<times> bool \<Rightarrow> BeaconsResponse result" where
  "process_beacons_answer msqrt env d x =
     bind_res (beacons_base env d x) (\<lambda>base.
     let (r, capped) = capSpan base (BEACON_MAX_SPAN_MS Instance); i = fst x in
     bind_res (chQuery (he_aborted env) (bd_rows d) (beaconsQuery (BeaconInstance (fst i) (snd i) (fst r) (snd r) (int BEACON_DEST_LIMIT + 1)))) (\<lambda>rows.
     Inr (enrich_beacons (he_geo env) (buildBeacons msqrt (he_lc env) rows r Instance capped BEACON_DEST_LIMIT))))"

definition process_beacons :: "(num \<Rightarrow> num) \<Rightarrow> henv \<Rightarrow> beacon_dbs \<Rightarrow> (string \<times> string) \<times> query \<Rightarrow> BeaconsResponse result" where
  "process_beacons msqrt env d rq = bind_res (process_beacons_req env rq) (process_beacons_answer msqrt env d)"

section \<open>Errors\<close>

lemma fails_parseId [fails]: "fails_with refused (parseId pid start)"
  unfolding parseId_def by (intro fails)

lemma fails_beacons_base [fails]: "fails_with gateway (beacons_base env d x)"
  unfolding beacons_base_def by (intro fails)

interpretation process_calls_route: route "process_calls_req env" "process_calls_answer env" for env
  by unfold_locales (unfold process_calls_req_def process_calls_answer_def, (intro fails)+)

interpretation process_bpc_route: route "process_bpc_req env" "bpc_answer env" for env
  by unfold_locales (unfold process_bpc_req_def bpc_answer_def, (intro fails)+)

interpretation process_beacons_route: route "process_beacons_req env" "process_beacons_answer msqrt env" for env msqrt
  by unfold_locales (unfold process_beacons_req_def process_beacons_answer_def, (intro fails)+)

section \<open>The same answer by two routes\<close>

lemma digits_between_nonempty: "digits_between (Suc n) hi s \<Longrightarrow> s \<noteq> []"
  by (auto simp: digits_between_def)

lemma parseInstance_parseId:
  assumes "q ''pid'' = Some (QStr pid)" and "q ''start'' = Some (QStr start)"
  shows "parseInstance q = Inr (Some i) \<longleftrightarrow> parseId pid start = Inr i"
  using assms digits_between_nonempty [of 0]
  by (auto simp: parseInstance_def parseId_def has_param_def Let_def split: if_splits)

lemma parseInstance_not_None:
  assumes "q ''pid'' = Some (QStr pid)" and "pid \<noteq> []"
  shows "parseInstance q \<noteq> Inr None"
  using assms by (auto simp: parseInstance_def has_param_def Let_def split: option.splits qval.splits if_splits)

lemma parseFilters_none:
  assumes "\<forall>k \<in> {''name'', ''app'', ''proto'', ''uid'', ''dest''}. q k = None"
  shows "parseFilters isIP q = Inr no_filters"
  using assms by (simp add: parseFilters_def text_filter_def uid_filter_def parseDest_def no_filters_def)

lemma parse_other_params:
  assumes "\<And>k. k \<noteq> ''pid'' \<Longrightarrow> k \<noteq> ''start'' \<Longrightarrow> q k = q' k"
  shows "parseRange q now = parseRange q' now"
proof -
  have "intParam q ''to'' n = intParam q' ''to'' n" "intParam q ''from'' n = intParam q' ''from'' n"
    "intParam q ''step'' n = intParam q' ''step'' n" for n
    by (simp_all add: intParam_def assms)
  then show ?thesis unfolding parseRange_def by presburger
qed

text \<open>
  The bytes-per-call endpoint of a process gives the same answer as the history endpoint with
  \<open>pid\<close> and \<open>start\<close>: for every database, and a request without the page's filters, one answers with
  a distribution exactly when the other does, and with the same one.
\<close>

theorem process_bpc_same:
  assumes "\<forall>k \<in> {''name'', ''app'', ''proto'', ''uid'', ''dest''}. q k = None" and "pid \<noteq> []"
  shows "process_bytes_per_call env db ((pid, start), q) = Inr res
    \<longleftrightarrow> history_bytes_per_call env db (q(''pid'' \<mapsto> QStr pid, ''start'' \<mapsto> QStr start)) = Inr res"
proof -
  let ?q = "q(''pid'' \<mapsto> QStr pid, ''start'' \<mapsto> QStr start)"
  have r: "parseRange ?q now = parseRange q now" for now by (rule parse_other_params) simp
  have f: "parseFilters (he_isIP env) ?q = Inr no_filters" using assms(1) by (intro parseFilters_none) simp
  have i: "parseInstance ?q = Inr (Some i) \<longleftrightarrow> parseId pid start = Inr i" for i by (rule parseInstance_parseId) simp_all
  have n: "parseInstance ?q \<noteq> Inr None" using assms(2) by (intro parseInstance_not_None [of _ pid]) simp_all
  have "process_bpc_req env ((pid, start), q) = Inr x \<longleftrightarrow> bpc_input_req env ?q = Inr x" for x
  proof (cases "parseId pid start")
    case (Inl e)
    with i n have "\<nexists>y. parseInstance ?q = Inr y" by (metis option.exhaust sum.distinct(1))
    with Inl show ?thesis by (auto simp: process_bpc_req_def bpc_input_req_def bind_res_Inr_iff)
  next
    case (Inr i)
    then have "parseInstance ?q = Inr (Some i)" using parseInstance_parseId [of ?q pid start i] by simp
    with Inr show ?thesis by (auto simp: process_bpc_req_def bpc_input_req_def bind_res_Inr_iff r f)
  qed
  then show ?thesis by (auto simp: process_bytes_per_call_def history_bytes_per_call_def bind_res_Inr_iff)
qed

theorem process_bpc_same_witness:
  "\<exists>res. process_bytes_per_call sample_env (\<lambda>_. Inr []) ((''7'', ''42''), sample_query) = Inr res
    \<and> history_bytes_per_call sample_env (\<lambda>_. Inr []) (sample_query(''pid'' \<mapsto> QStr ''7'', ''start'' \<mapsto> QStr ''42'')) = Inr res"
proof -
  have "parseRange sample_query (he_now sample_env) = Inr sample_range" "parseId ''7'' ''42'' = Inr (7, ''42'')" by code_simp+
  then obtain res where "process_bytes_per_call sample_env (\<lambda>_. Inr []) ((''7'', ''42''), sample_query) = Inr res"
    by (simp add: process_bytes_per_call_def process_bpc_req_def bpc_answer_def chQuery_def parseBpcDir_def parseBpcBy_def pick_msg_def
        sample_query_def)
  moreover from this have "history_bytes_per_call sample_env (\<lambda>_. Inr []) (sample_query(''pid'' \<mapsto> QStr ''7'', ''start'' \<mapsto> QStr ''42'')) = Inr res"
    by (subst process_bpc_same [symmetric]) (simp_all add: sample_query_def)
  ultimately show ?thesis by blast
qed

section \<open>The range of a beacon strip\<close>

lemma capSpan_cases:
  assumes "0 \<le> m" and "capSpan (a, b) m = ((a', b'), c)"
  shows "b' = b \<and> a \<le> a' \<and> b' - a' \<le> m \<and> (c \<longleftrightarrow> b - a > m) \<and> (if c then b' - a' = m else a' = a)"
  using assms by (auto simp: capSpan_def split: if_splits)

lemma enrich_beacons_range [simp]:
  "br_from (enrich_beacons g b) = br_from b" "br_to (enrich_beacons g b) = br_to b" "br_capped (enrich_beacons g b) = br_capped b"
  by (simp_all add: enrich_beacons_def)

text \<open>
  The beacon strip of a process without a given range covers its networked lifetime: for a known
  process the strip ends one second after its end or its last activity (or
  now, if that is earlier), begins with its first activity (at least a second earlier than it
  ends), is never empty, and is cut to its last 24 hours exactly when it is longer, which \<open>capped\<close> says.
\<close>

theorem process_beacons_lifetime:
  assumes "process_beacons msqrt env d ((pid, start), q) = Inr res" and "parseId pid start = Inr i"
    and "q ''from'' = None" and "q ''to'' = None" and "bd_life d (lifeQuery i) = Inr [p]"
    and "first = cell_ms (lf_first_seen_ms p)"
    and "stop = max first (case lf_ended_ms p of Some e \<Rightarrow> cell_ms e | None \<Rightarrow> cell_ms (lf_last_seen_ms p))"
  shows "br_to res = min (he_now env) (stop + 1000)
    \<and> 0 < br_to res - br_from res \<and> br_to res - br_from res \<le> 86400000
    \<and> (br_capped res \<longleftrightarrow> br_to res - first > 86400000)
    \<and> br_from res = (if br_capped res then br_to res - 86400000 else min first (br_to res - 1000))"
proof -
  obtain base where b: "base = life_of p (he_now env)" by simp
  obtain fr tt c where cs: "capSpan base (BEACON_MAX_SPAN_MS Instance) = ((fr, tt), c)" by (metis prod.exhaust)
  have base: "beacons_base env d (i, x, True) = Inr base" for x using assms(5) by (simp add: beacons_base_def chQuery_def b)
  obtain x where req: "process_beacons_req env ((pid, start), q) = Inr (i, x, True)"
    using assms(1-4) by (auto simp: process_beacons_def process_beacons_req_def has_param_def)
  with assms(1) base cs have res: "br_from res = fr" "br_to res = tt" "br_capped res = c"
    by (auto simp: process_beacons_def process_beacons_answer_def buildBeacons_def Let_def)
  have life: "base = (min first (min (he_now env) (stop + 1000) - 1000), min (he_now env) (stop + 1000))"
    by (cases "lf_ended_ms p") (simp_all add: b life_of_def lifetimeRange_def Let_def assms(6,7))
  have cap: "BEACON_MAX_SPAN_MS Instance = 86400000" by (simp add: BEACON_MAX_SPAN_MS_def)
  have "0 \<le> BEACON_MAX_SPAN_MS Instance" by (simp add: cap)
  from capSpan_cases [OF this, of "fst base" "snd base" fr tt c] cs
  show ?thesis unfolding res cap life by auto
qed

definition sample_life :: LifeRow where
  "sample_life = \<lparr> lf_first_seen_ms = Quoted ''1789700000000'', lf_last_seen_ms = Quoted ''1789700005000'', lf_ended_ms = None \<rparr>"

definition no_range :: query where "no_range = (\<lambda>_. None)"

theorem process_beacons_lifetime_witness:
  "\<exists>res. process_beacons (\<lambda>x. x) sample_env \<lparr> bd_life = (\<lambda>_. Inr [sample_life]), bd_rows = (\<lambda>_. Inr []) \<rparr> ((''7'', ''42''), no_range) = Inr res
    \<and> br_to res = 1789700006000 \<and> br_from res = 1789700000000"
proof -
  let ?d = "\<lparr> bd_life = (\<lambda>_. Inr [sample_life]), bd_rows = (\<lambda>_. Inr []) \<rparr>"
  have c: "cell_ms (lf_first_seen_ms sample_life) = 1789700000000" "cell_ms (lf_last_seen_ms sample_life) = 1789700005000"
    "lf_ended_ms sample_life = None" "he_now sample_env = 1789732800000" by code_simp+
  have i: "parseId ''7'' ''42'' = Inr (7, ''42'')" by code_simp
  obtain r where "parseRange no_range (he_now sample_env) = Inr r"
    by (auto simp: parseRange_def intParam_def no_range_def Let_def DEFAULT_SPAN_def HOUR_def)
  with i obtain res where res: "process_beacons (\<lambda>x. x) sample_env ?d ((''7'', ''42''), no_range) = Inr res"
    by (auto simp: process_beacons_def process_beacons_req_def process_beacons_answer_def beacons_base_def chQuery_def
        has_param_def no_range_def Let_def case_prod_beta)
  from process_beacons_lifetime [OF res i] c have "br_to res = 1789700006000" "br_from res = 1789700000000"
    by (simp_all add: no_range_def)
  with res show ?thesis by blast
qed

end
