(* ===== verification/Storage.thy ===== *)
theory Storage
  imports Query
begin

text \<open>
  \<^verbatim>\<open>web/src/server/storage/clickhouse.ts\<close>: what the ClickHouse tables hold, partition by partition, the
  estimate of a partition's hours, and dropping partitions. The reading client is a \<open>db\<close>; the
  writing client is a function from the statements sent so far and a statement to its error, if
  any, and the statements sent are part of the result, so that a claim can say what was sent. The
  calendar of a time zone (\<open>Intl.DateTimeFormat\<close>) is a parameter: \<open>dayOf\<close> and \<open>hourOf\<close> of a time
  in milliseconds and a zone.
\<close>

section \<open>Texts\<close>

text \<open>\<open>a < b\<close> on strings: by character codes, a prefix before its extensions.\<close>

fun str_less :: "string \<Rightarrow> string \<Rightarrow> bool" where
  "str_less _ [] = False"
| "str_less [] (_ # _) = True"
| "str_less (a # as) (b # bs) \<longleftrightarrow> (of_char a :: nat) < of_char b \<or> a = b \<and> str_less as bs"

text \<open>The comparator \<open>(a, b) => (a < b ? 1 : -1)\<close> of distinct keys.\<close>

definition newest_first :: "('a \<Rightarrow> string) \<Rightarrow> 'a \<Rightarrow> 'a \<Rightarrow> bool" where
  "newest_first key x y \<longleftrightarrow> \<not> str_less (key x) (key y)"

lemma str_less_trans: "str_less s t \<Longrightarrow> str_less t u \<Longrightarrow> str_less s u"
  by (induction s u arbitrary: t rule: str_less.induct) (auto elim: str_less.elims dest: order_less_trans)

lemma str_less_linear: "str_less s t \<or> s = t \<or> str_less t s"
proof (induction s t rule: str_less.induct)
  case (3 a as b bs)
  then show ?case by (cases "(of_char a :: nat)" "of_char b :: nat" rule: linorder_cases) auto
next
  case (1 s)
  then show ?case by (cases s) auto
qed auto

lemma str_less_irrefl [simp]: "\<not> str_less s s"
  by (induction s) auto

lemma comparator_newest [simp, intro]: "comparator (newest_first key)"
  unfolding newest_first_def
  by unfold_locales (metis str_less_trans str_less_irrefl, metis str_less_linear str_less_trans)

definition is_day :: "string \<Rightarrow> bool" where
  "is_day s \<longleftrightarrow> length s = 10 \<and> list_all is_digit (take 4 s) \<and> s ! 4 = CHR ''-'' \<and> list_all is_digit (take 2 (drop 5 s))
     \<and> s ! 7 = CHR ''-'' \<and> list_all is_digit (drop 8 s)"

definition is_month :: "string \<Rightarrow> bool" where
  "is_month s \<longleftrightarrow> digits_between 6 6 s"

section \<open>Tables\<close>

record Spec =
  sp_by :: string
  sp_id :: "string \<Rightarrow> bool"
  sp_label :: "string \<Rightarrow> string"
  sp_deletable :: bool

definition TABLES :: "(string \<times> Spec) list" where
  "TABLES =
     [(''flows'', \<lparr> sp_by = ''day'', sp_id = is_day, sp_label = (\<lambda>i. i), sp_deletable = True \<rparr>),
      (''flows_1m'', \<lparr> sp_by = ''month'', sp_id = is_month, sp_label = (\<lambda>i. take 4 i @ ''-'' @ drop 4 i), sp_deletable = True \<rparr>),
      (''processes'', \<lparr> sp_by = ''not partitioned'', sp_id = (\<lambda>i. i = ''tuple()''), sp_label = (\<lambda>_. ''all''), sp_deletable = False \<rparr>)]"

record PartRow =
  pt_table :: string
  pt_partition :: string
  pt_disk :: cell
  pt_raw :: cell
  pt_rows :: cell

definition partitions_query :: "string \<Rightarrow> sql_query" where
  "partitions_query dbname =
     ([T (''SELECT table, partition, sum(bytes_on_disk) AS disk, sum(data_uncompressed_bytes) AS raw, sum(rows) AS rows ''
        @ ''FROM system.parts WHERE database = ''), P ''db'' ''String'', T '' AND active AND table IN '', P ''tables'' ''Array(String)'',
       T '' GROUP BY table, partition ORDER BY table, partition DESC''],
      [(''db'', PStr dbname), (''tables'', PStrs (map fst TABLES))])"

definition partitions :: "bool \<Rightarrow> PartRow db \<Rightarrow> string \<Rightarrow> PartRow list result" where
  "partitions aborted db dbname = chQuery aborted db (partitions_query dbname)"

definition clickhouseTimezone :: "bool \<Rightarrow> string db \<Rightarrow> string result" where
  "clickhouseTimezone aborted db =
     bind_res (chQuery aborted db ([T ''SELECT timezone() AS tz''], [])) (\<lambda>rows. Inr (case rows of [] \<Rightarrow> ''UTC'' | tz # _ \<Rightarrow> tz))"

text \<open>
  A row of the storage page. A field that is absent in the source is \<open>None\<close> or \<open>False\<close> here; a size
  is \<open>None\<close> when the store's text for it is not a finite number.
\<close>

datatype StorageRow = StorageRow
  (sw_key: string) (sw_label: string) (sw_bytes: "num option") (sw_count: num) (sw_rawBytes: "num option")
  (sw_deletable: bool) (sw_children: "StorageRow list option") (sw_expandable: bool) (sw_estimated: bool)

record StorageTable =
  tb_table :: string
  tb_bytes :: num
  tb_count :: num
  tb_by :: string
  tb_deletable :: bool
  tb_rows :: "StorageRow list"

record ClickHouseStorage =
  cs_bytes :: num
  cs_tables :: "StorageTable list"

definition part_row :: "string \<Rightarrow> Spec \<Rightarrow> PartRow \<Rightarrow> StorageRow" where
  "part_row table spec p = StorageRow (pt_partition p) (sp_label spec (pt_partition p)) (Some (Number_cell (pt_disk p)))
     (Number_cell (pt_rows p)) (Some (Number_cell (pt_raw p))) (sp_deletable spec) None (table \<noteq> ''processes'') False"

definition table_of :: "PartRow list \<Rightarrow> string \<times> Spec \<Rightarrow> StorageTable" where
  "table_of parts entry = (case entry of (table, spec) \<Rightarrow>
     let ps = filter (\<lambda>p. pt_table p = table) parts
     in \<lparr> tb_table = table, tb_bytes = fsum (map (\<lambda>p. Number_cell (pt_disk p)) ps), tb_count = fsum (map (\<lambda>p. Number_cell (pt_rows p)) ps),
          tb_by = sp_by spec, tb_deletable = sp_deletable spec, tb_rows = map (part_row table spec) ps \<rparr>)"

definition clickhouseStorage :: "bool \<Rightarrow> PartRow db \<Rightarrow> string \<Rightarrow> ClickHouseStorage result" where
  "clickhouseStorage aborted db dbname =
     bind_res (partitions aborted db dbname) (\<lambda>parts.
       let tables = map (table_of parts) TABLES
       in Inr \<lparr> cs_bytes = fsum (map tb_bytes tables), cs_tables = tables \<rparr>)"

section \<open>Dropping partitions\<close>

type_synonym admin = "string list \<Rightarrow> string \<Rightarrow> string option"

definition drop_statement :: "string \<Rightarrow> string \<Rightarrow> string \<Rightarrow> string" where
  "drop_statement dbname table k = ''ALTER TABLE `'' @ dbname @ ''`.`'' @ table @ ''` DROP PARTITION '' @ quote k"

fun drop_loop :: "admin \<Rightarrow> (string \<Rightarrow> string) \<Rightarrow> string list \<Rightarrow> string list \<Rightarrow> unit result \<times> string list" where
  "drop_loop admin stmt [] sent = (Inr (), sent)"
| "drop_loop admin stmt (k # ks) sent = (case admin sent (stmt k) of
       Some msg \<Rightarrow> (Inl (HttpError 502 (''ClickHouse: '' @ msg)), sent @ [stmt k])
     | None \<Rightarrow> drop_loop admin stmt ks (sent @ [stmt k]))"

definition bad_table :: "string \<Rightarrow> http_error" where
  "bad_table table = badRequest (''table: cannot delete from '' @ [CHR 0x22] @ table @ [CHR 0x22])"

definition no_partition :: "string \<Rightarrow> string \<Rightarrow> http_error" where
  "no_partition table k = badRequest (''keys: no such partition '' @ [CHR 0x22] @ take 20 k @ [CHR 0x22] @ '' in '' @ table)"

text \<open>The result, and every statement sent to the writing client.\<close>

definition dropPartitions ::
  "PartRow db \<Rightarrow> admin \<Rightarrow> string \<Rightarrow> string \<Rightarrow> string list \<Rightarrow> nat result \<times> string list" where
  "dropPartitions reader admin dbname table keys = (case map_of TABLES table of
       None \<Rightarrow> (Inl (bad_table table), [])
     | Some spec \<Rightarrow>
         if \<not> sp_deletable spec then (Inl (bad_table table), [])
         else (case partitions False reader dbname of
             Inl e \<Rightarrow> (Inl e, [])
           | Inr parts \<Rightarrow>
               let existing = map pt_partition (filter (\<lambda>p. pt_table p = table) parts)
               in case List.find (\<lambda>k. \<not> sp_id spec k \<or> k \<notin> set existing) keys of
                    Some k \<Rightarrow> (Inl (no_partition table k), [])
                  | None \<Rightarrow> (case drop_loop admin (drop_statement dbname table) keys [] of
                        (Inl e, sent) \<Rightarrow> (Inl e, sent)
                      | (Inr _, sent) \<Rightarrow> (Inr (length keys), sent))))"

section \<open>Hours and days of a partition\<close>

type_synonym zone = "num \<Rightarrow> string \<Rightarrow> string"

record BreakRow =
  bk_b :: string
  bk_n :: cell

definition hour_row :: "zone \<Rightarrow> zone \<Rightarrow> string \<Rightarrow> string \<Rightarrow> string \<times> string \<times> bool" where
  "hour_row dayOf hourOf tz b = (let ms = fmul (Number_dec b) 1000
     in (b, dayOf ms tz @ '' '' @ hourOf ms tz @ '':00'', False))"

definition breakdown_plan ::
  "zone \<Rightarrow> zone \<Rightarrow> string \<Rightarrow> string \<Rightarrow> string \<Rightarrow> (string \<times> sql_query \<times> (string \<Rightarrow> string \<times> string \<times> bool)) option" where
  "breakdown_plan dayOf hourOf table key tz =
     (if table = ''flows'' \<and> is_day key then
        Some (key, ([T ''SELECT toString(toUnixTimestamp(toStartOfHour(ts))) AS b, count() AS n FROM '', P ''t'' ''Identifier'',
            T '' WHERE toDate(ts) = '', P ''day'' ''Date'', T '' GROUP BY b''], [(''day'', PStr key), (''t'', PStr table)]), hour_row dayOf hourOf tz)
      else if table = ''flows_1m'' \<and> is_month key then
        Some (key, ([T ''SELECT toString(toDate(minute)) AS b, count() AS n FROM '', P ''t'' ''Identifier'',
            T '' WHERE toYYYYMM(minute) = '', P ''m'' ''UInt32'', T '' GROUP BY b''],
            [(''m'', PInt \<lfloor>Number_dec key\<rfloor>), (''t'', PStr table)]), (\<lambda>d. (d, d, True)))
      else if table = ''flows_1m'' \<and> is_day key then
        Some (take 4 key @ take 2 (drop 5 key), ([T ''SELECT toString(toUnixTimestamp(toStartOfHour(minute))) AS b, count() AS n FROM '',
            P ''t'' ''Identifier'', T '' WHERE toDate(minute) = '', P ''day'' ''Date'', T '' GROUP BY b''],
            [(''day'', PStr key), (''t'', PStr table)]), hour_row dayOf hourOf tz)
      else None)"

definition break_row :: "(string \<Rightarrow> string \<times> string \<times> bool) \<Rightarrow> PartRow \<Rightarrow> BreakRow \<Rightarrow> StorageRow" where
  "break_row toRow part r =
     (let rows = Number_cell (pt_rows part); total = (if rows = 0 then 1 else rows); (key, label, expandable) = toRow (bk_b r)
      in StorageRow key label (Some (of_int (Math_round (fdiv (fmul (Number_cell (pt_disk part)) (Number_cell (bk_n r))) total))))
           (Number_cell (bk_n r)) None False None expandable True)"

definition clickhouseBreakdown ::
  "zone \<Rightarrow> zone \<Rightarrow> bool \<Rightarrow> PartRow db \<Rightarrow> BreakRow db \<Rightarrow> string \<Rightarrow> string \<Rightarrow> string \<Rightarrow> string \<Rightarrow> StorageRow list result" where
  "clickhouseBreakdown dayOf hourOf aborted pdb bdb dbname table key tz = (case breakdown_plan dayOf hourOf table key tz of
       None \<Rightarrow> Inl (badRequest ''table/key: flows with a day, or flows_1m with a month or day'')
     | Some (part_id, query, toRow) \<Rightarrow>
         bind_res (partitions aborted pdb dbname) (\<lambda>parts.
           case filter (\<lambda>p. pt_table p = table \<and> pt_partition p = part_id) parts of
             [] \<Rightarrow> Inr []
           | part # _ \<Rightarrow> bind_res (chQuery aborted bdb query) (\<lambda>rows.
               Inr (sort_by (newest_first sw_key) (map (break_row toRow part) rows)))))"

section \<open>What is dropped\<close>

lemma drop_loop_sent:
  "\<exists>n \<le> length ks. snd (drop_loop admin stmt ks sent) = sent @ map stmt (take n ks)
     \<and> (fst (drop_loop admin stmt ks sent) = Inr () \<longrightarrow> n = length ks)
     \<and> (\<forall>e. fst (drop_loop admin stmt ks sent) = Inl e \<longrightarrow> statusCode e = 502)"
proof (induction ks arbitrary: sent)
  case (Cons k ks)
  show ?case
  proof (cases "admin sent (stmt k)")
    case None
    from Cons [of "sent @ [stmt k]"] obtain n where "n \<le> length ks"
      "snd (drop_loop admin stmt ks (sent @ [stmt k])) = (sent @ [stmt k]) @ map stmt (take n ks)"
      "fst (drop_loop admin stmt ks (sent @ [stmt k])) = Inr () \<longrightarrow> n = length ks"
      "\<forall>e. fst (drop_loop admin stmt ks (sent @ [stmt k])) = Inl e \<longrightarrow> statusCode e = 502" by blast
    with None show ?thesis by (intro exI [of _ "Suc n"]) simp
  next
    case (Some msg)
    then show ?thesis by (intro exI [of _ 1]) simp
  qed
qed simp

text \<open>What the checks before the first statement establish.\<close>

definition droppable :: "PartRow db \<Rightarrow> string \<Rightarrow> string \<Rightarrow> string \<Rightarrow> bool" where
  "droppable reader dbname table k \<longleftrightarrow>
     (table = ''flows'' \<and> is_day k \<or> table = ''flows_1m'' \<and> is_month k)
     \<and> (\<exists>parts. partitions False reader dbname = Inr parts \<and> (\<exists>p \<in> set parts. pt_table p = table \<and> pt_partition p = k))"

lemma dropPartitions_cases:
  assumes "dropPartitions reader admin dbname table keys = (r, sent)"
  obtains (refused) e where "r = Inl e" "sent = []" "statusCode e \<in> {400, 499, 502, 504}"
    | (loop) r' where "drop_loop admin (drop_statement dbname table) keys [] = (r', sent)" "r = bind_res r' (\<lambda>_. Inr (length keys))"
        "\<forall>k \<in> set keys. droppable reader dbname table k"
proof -
  have part: "statusCode e \<in> {400, 499, 502, 504}" if "partitions False reader dbname = Inl e" for e
    using that fails_chQuery [of False reader "partitions_query dbname"] by (auto simp: partitions_def fails_with_def gateway_def)
  show thesis
  proof (cases "\<exists>spec. map_of TABLES table = Some spec \<and> sp_deletable spec")
    case False
    with assms have "r = Inl (bad_table table)" "sent = []" by (auto simp: dropPartitions_def split: option.splits if_splits)
    then show ?thesis using refused by (simp add: bad_table_def badRequest_def)
  next
    case True
    then obtain spec where s: "map_of TABLES table = Some spec" "sp_deletable spec" by blast
    then have t: "table = ''flows'' \<and> sp_id spec = is_day \<or> table = ''flows_1m'' \<and> sp_id spec = is_month"
      by (auto simp: TABLES_def split: if_splits)
    show ?thesis
    proof (cases "partitions False reader dbname")
      case (Inl e)
      with assms s have "r = Inl e" "sent = []" by (auto simp: dropPartitions_def)
      then show ?thesis using refused part [OF Inl] by simp
    next
      case (Inr parts)
      let ?bad = "\<lambda>k. \<not> sp_id spec k \<or> k \<notin> set (map pt_partition (filter (\<lambda>p. pt_table p = table) parts))"
      show ?thesis
      proof (cases "List.find ?bad keys")
        case (Some k)
        with assms s Inr have "r = Inl (no_partition table k)" "sent = []" by (auto simp: dropPartitions_def Let_def)
        then show ?thesis using refused by (simp add: no_partition_def badRequest_def)
      next
        case None
        with t Inr have "\<forall>k \<in> set keys. droppable reader dbname table k"
          by (fastforce simp: find_None_iff droppable_def)
        moreover obtain r' sent' where l: "drop_loop admin (drop_statement dbname table) keys [] = (r', sent')" by fastforce
        moreover have "sent' = sent" "r = bind_res r' (\<lambda>_. Inr (length keys))"
          using assms s Inr None l by (auto simp: dropPartitions_def Let_def split: sum.splits)
        ultimately show ?thesis using loop by blast
      qed
    qed
  qed
qed

lemma dropPartitions_status:
  assumes "dropPartitions reader admin dbname table keys = (Inl e, sent)"
  shows "statusCode e \<in> {400, 499, 502, 504}"
  using assms
proof (cases rule: dropPartitions_cases)
  case (loop r')
  then show ?thesis
    using drop_loop_sent [of keys admin "drop_statement dbname table" "[]"] by (cases r') auto
qed auto

lemma is_day_chars: "is_day k \<Longrightarrow> set k \<subseteq> {c. is_digit c} \<union> {CHR ''-''}"
proof -
  assume k: "is_day k"
  then have len: "length k = 10" by (simp add: is_day_def)
  have "k = take 4 k @ [k ! 4] @ take 2 (drop 5 k) @ [k ! 7] @ drop 8 k"
    using len by (simp add: list_eq_iff_nth_eq nth_append nth_Cons' eval_nat_numeral less_Suc_eq)
  then have "set k = set (take 4 k) \<union> {k ! 4} \<union> set (take 2 (drop 5 k)) \<union> {k ! 7} \<union> set (drop 8 k)"
    by (metis set_append set_simps(1) set_simps(2) sup_assoc)
  with k show ?thesis by (auto simp: is_day_def list_all_iff)
qed

lemma droppable_chars: "droppable reader dbname table k \<Longrightarrow> set k \<subseteq> {c. is_digit c} \<union> {CHR ''-''}"
  using is_day_chars by (auto simp: droppable_def is_month_def digits_between_def list_all_iff)

text \<open>
  (C8) Dropping partitions, for every answer of the database. Statements are sent for the keys in
  order, at most one each, up to the first that fails; the call succeeds exactly with all of them
  sent, and then reports their number. Before the first statement every key has been checked: the
  table is one of the two flow tables, the key has the form of its partition ids (only digits and
  dashes, so it cannot leave its quotes), and the partition exists. A refused request (400) has
  sent nothing.
\<close>

theorem dropPartitions_safe:
  assumes "dropPartitions reader admin dbname table keys = (r, sent)"
  shows "(\<exists>n \<le> length keys. sent = map (drop_statement dbname table) (take n keys))
    \<and> (\<forall>m. r = Inr m \<longrightarrow> m = length keys \<and> sent = map (drop_statement dbname table) keys)
    \<and> (sent \<noteq> [] \<longrightarrow> (\<forall>k \<in> set keys. droppable reader dbname table k \<and> set k \<subseteq> {c. is_digit c} \<union> {CHR ''-''}))
    \<and> (\<forall>e. r = Inl e \<longrightarrow> statusCode e \<in> {400, 499, 502, 504} \<and> (statusCode e = 400 \<longrightarrow> sent = []))"
  using assms
proof (cases rule: dropPartitions_cases)
  case (refused e)
  then show ?thesis by auto
next
  case (loop r')
  then have "\<forall>k \<in> set keys. droppable reader dbname table k \<and> set k \<subseteq> {c. is_digit c} \<union> {CHR ''-''}"
    using droppable_chars by blast
  with loop show ?thesis
    using drop_loop_sent [of keys admin "drop_statement dbname table" "[]"] by (cases r') (auto simp: loop(1))
qed

definition sample_part :: PartRow where
  "sample_part = \<lparr> pt_table = ''flows'', pt_partition = ''2026-07-30'', pt_disk = Quoted ''1000'', pt_raw = Quoted ''9000'', pt_rows = Quoted ''40'' \<rparr>"

theorem dropPartitions_safe_witness:
  "dropPartitions (\<lambda>_. Inr [sample_part]) (\<lambda>_ _. None) ''netwatch'' ''flows'' [''2026-07-30'']
     = (Inr 1, [''ALTER TABLE `netwatch`.`flows` DROP PARTITION '' @ quote ''2026-07-30''])
   \<and> set ''2026-07-30'' \<subseteq> {c. is_digit c} \<union> {CHR ''-''}"
proof -
  have "dropPartitions (\<lambda>_. Inr [sample_part]) (\<lambda>_ _. None) ''netwatch'' ''flows'' [''2026-07-30'']
     = (Inr 1, [''ALTER TABLE `netwatch`.`flows` DROP PARTITION '' @ quote ''2026-07-30''])" by code_simp
  from this dropPartitions_safe [OF this] show ?thesis by (metis list.distinct(1) list.set_intros(1))
qed

end
