(* ===== verification/StorageRedis.thy ===== *)
theory StorageRedis
  imports Storage Sums
begin

text \<open>
  \<^verbatim>\<open>web/src/server/storage/redis.ts\<close>: what netwatch keeps in Redis, and deleting the processes that
  ended on given days. The Redis client is a parameter, a record of the commands the file sends;
  each takes the state of the server and returns a value or throws, with the new state. What the
  deletion relies on is the predicate \<open>redis_laws\<close>: ZREM removes the named members and nothing
  else from the sorted set, UNLINK leaves the sorted set alone.
\<close>

section \<open>Commands\<close>

type_synonym ('s, 'a) io = "'s \<Rightarrow> (string + 'a) \<times> 's"

definition ret :: "'a \<Rightarrow> ('s, 'a) io" where "ret x s = (Inr x, s)"

definition bind_io :: "('s, 'a) io \<Rightarrow> ('a \<Rightarrow> ('s, 'b) io) \<Rightarrow> ('s, 'b) io" where
  "bind_io m f s = (case m s of (Inl e, s') \<Rightarrow> (Inl e, s') | (Inr x, s') \<Rightarrow> f x s')"

record 's Redis =
  rd_info :: "string \<Rightarrow> ('s, string) io"
  rd_dbSize :: "('s, nat) io"
  rd_zRange :: "('s, (string \<times> num) list) io"
  rd_sMembers :: "('s, string list) io"
  rd_memory :: "string \<Rightarrow> ('s, num option) io"
  rd_unlink :: "string list \<Rightarrow> ('s, unit) io"
  rd_zRem :: "string list \<Rightarrow> ('s, unit) io"
  rd_rewrite :: "('s, unit) io"

definition CHUNK :: nat where "CHUNK = 500"
definition CACHE_MS :: int where "CACHE_MS = 30000"

text \<open>\<open>Promise.all\<close> over a list of commands, in the order they are sent.\<close>

fun all_io :: "('s, 'a) io list \<Rightarrow> ('s, 'a list) io" where
  "all_io [] = ret []"
| "all_io (m # ms) = bind_io m (\<lambda>x. bind_io (all_io ms) (\<lambda>xs. ret (x # xs)))"

text \<open>The loop \<open>for (let i = 0; i < xs.length; i += CHUNK)\<close>: the slices it visits.\<close>

function chunks :: "'a list \<Rightarrow> 'a list list" where
  "chunks xs = (if xs = [] then [] else take CHUNK xs # chunks (drop CHUNK xs))"
  by pat_completeness auto
termination
  by (relation "measure length") (auto simp: CHUNK_def)

declare chunks.simps [simp del]

definition num_of :: "num option \<Rightarrow> num" where
  "num_of v = (case v of Some n \<Rightarrow> n | None \<Rightarrow> 0)"

fun sizes_loop :: "'s Redis \<Rightarrow> string list list \<Rightarrow> num list \<Rightarrow> ('s, num list) io" where
  "sizes_loop redis [] out = ret out"
| "sizes_loop redis (part # parts) out =
     bind_io (all_io (map (rd_memory redis) part)) (\<lambda>vs. sizes_loop redis parts (out @ map num_of vs))"

definition sizes :: "'s Redis \<Rightarrow> string list \<Rightarrow> ('s, num list) io" where
  "sizes redis keys = sizes_loop redis (chunks keys) []"

definition procKeys :: "string \<Rightarrow> string list" where
  "procKeys i = [''netwatch:proc:'' @ i, ''netwatch:proc:'' @ i @ '':dests'']"

text \<open>
  The first line \<open>name:value\<close> of an INFO text. Lines end at a line feed or a carriage return. The
  outer \<open>None\<close> is the source's null, the inner one a value that is not a finite number.
\<close>

definition info_lines :: "string \<Rightarrow> string list" where
  "info_lines info = concat (map (split_char (CHR 0x0D)) (split_char (CHR 0x0A) info))"

definition infoField :: "string \<Rightarrow> string \<Rightarrow> num option option" where
  "infoField info name = (let p = name @ '':'' in
     map_option (\<lambda>l. js_Number (trim (drop (length p) l)))
       (List.find (\<lambda>l. starts_with p l \<and> length l > length p) (info_lines info)))"

section \<open>The scan\<close>

record RedisStorage =
  rs_usedMemory :: "num option"
  rs_maxMemory :: "num option"
  rs_aofBytes :: "num option option"
  rs_keys :: nat
  rs_fixed :: "StorageRow list"
  rs_days :: "StorageRow list"
  rs_scannedAt :: int

record scan_cache =
  ca_tz :: string
  ca_at :: int
  ca_value :: RedisStorage

record day_sum =
  dy_bytes :: num
  dy_count :: nat
  dy_hours :: "(string, num \<times> nat) jsmap"

text \<open>One ended process: its day, its hour and its bytes.\<close>

definition add_hour :: "(num \<times> nat) option \<Rightarrow> num \<Rightarrow> num \<times> nat" where
  "add_hour h b = (case h of Some (n, c) \<Rightarrow> (fadd n b, c + 1) | None \<Rightarrow> (fadd 0 b, 1))"

definition add_day :: "day_sum option \<Rightarrow> string \<times> string \<times> num \<Rightarrow> day_sum" where
  "add_day v e = (case e of (_, hour, b) \<Rightarrow>
     let d = (case v of Some d \<Rightarrow> d | None \<Rightarrow> \<lparr> dy_bytes = 0, dy_count = 0, dy_hours = [] \<rparr>)
     in \<lparr> dy_bytes = fadd (dy_bytes d) b, dy_count = dy_count d + 1,
          dy_hours = map_set hour (add_hour (map_get (dy_hours d) hour) b) (dy_hours d) \<rparr>)"

definition hour_child :: "string \<Rightarrow> string \<times> num \<times> nat \<Rightarrow> StorageRow" where
  "hour_child day h = (case h of (hour, b, c) \<Rightarrow>
     StorageRow (day @ '' '' @ hour) (hour @ '':00'') (Some b) (of_nat c) None False None False False)"

definition day_row :: "string \<times> day_sum \<Rightarrow> StorageRow" where
  "day_row e = (case e of (day, d) \<Rightarrow>
     StorageRow day day (Some (dy_bytes d)) (of_nat (dy_count d)) None True
       (Some (map (hour_child day) (sort_by (newest_first fst) (dy_hours d)))) False False)"

definition ended_entries :: "zone \<Rightarrow> zone \<Rightarrow> string \<Rightarrow> (string \<times> num) list \<Rightarrow> num list \<Rightarrow> (string \<times> string \<times> num) list" where
  "ended_entries dayOf hourOf tz ended szs = map (\<lambda>(i, e). (dayOf (snd e) tz, hourOf (snd e) tz,
       fadd (if 2 * i < length szs then szs ! (2 * i) else 0) (if 2 * i + 1 < length szs then szs ! (2 * i + 1) else 0)))
     (List.enumerate 0 ended)"

definition day_rows :: "(string \<times> string \<times> num) list \<Rightarrow> StorageRow list" where
  "day_rows es = map day_row (sort_by (newest_first fst) (accum fst add_day es []))"

definition fixed_row :: "string \<Rightarrow> string \<Rightarrow> num option \<Rightarrow> nat \<Rightarrow> StorageRow" where
  "fixed_row k l b c = StorageRow k l b (of_nat c) None False None False False"

definition row_bytes :: "StorageRow \<Rightarrow> num" where
  "row_bytes r = num_of (sw_bytes r)"

definition scan_value ::
  "zone \<Rightarrow> zone \<Rightarrow> string \<Rightarrow> int \<Rightarrow> string \<Rightarrow> string \<Rightarrow> nat \<Rightarrow> (string \<times> num) list \<Rightarrow> string list \<Rightarrow> num list \<Rightarrow> num list \<Rightarrow> num list \<Rightarrow>
   RedisStorage" where
  "scan_value dayOf hourOf tz now memInfo persInfo keys ended alive endedSizes aliveSizes fixedSizes =
     (let days = day_rows (ended_entries dayOf hourOf tz ended endedSizes);
          usedMemory = (case infoField memInfo ''used_memory'' of Some v \<Rightarrow> v | None \<Rightarrow> Some 0);
          size_at = (\<lambda>i. if i < length fixedSizes then fixedSizes ! i else 0);
          snapshot = size_at 0; stream = size_at 1; meta = size_at 2; aliveSet = size_at 3; endedIndex = size_at 4;
          liveBytes = fadd (fsum aliveSizes) aliveSet;
          known = fadd (fadd (fadd (fadd (fadd (fsum (map row_bytes days)) snapshot) stream) meta) liveBytes) endedIndex;
          aofOn = (infoField persInfo ''aof_enabled'' = Some (Some 1))
      in \<lparr> rs_usedMemory = usedMemory,
           rs_maxMemory = (case infoField memInfo ''maxmemory'' of Some v \<Rightarrow> v | None \<Rightarrow> Some 0),
           rs_aofBytes = (if aofOn then (case infoField persInfo ''aof_current_size'' of Some v \<Rightarrow> Some v
               | None \<Rightarrow> infoField persInfo ''aof_base_size'') else None),
           rs_keys = keys,
           rs_fixed = [fixed_row ''snapshot'' ''Latest snapshot'' (Some (fadd snapshot meta)) 1,
             fixed_row ''stream'' ''Tick stream (live charts)'' (Some stream) 0,
             fixed_row ''live'' ''Live processes'' (Some liveBytes) (length alive),
             fixed_row ''index'' ''Ended-process index'' (Some endedIndex) (length ended),
             fixed_row ''other'' ''Redis overhead and other'' (map_option (\<lambda>u. max 0 (fsub u known)) usedMemory) 0],
           rs_days = days, rs_scannedAt = now \<rparr>)"

definition FIXED_KEYS :: "string list" where
  "FIXED_KEYS = [''netwatch:snapshot'', ''netwatch:stream'', ''netwatch:meta'', ''netwatch:alive'', ''netwatch:ended'']"

text \<open>The state is the cache and the server; \<open>now\<close> is the clock at the start, \<open>now'\<close> after the scan.\<close>

definition redisStorage ::
  "zone \<Rightarrow> zone \<Rightarrow> 's Redis \<Rightarrow> string \<Rightarrow> int \<Rightarrow> int \<Rightarrow> scan_cache option \<Rightarrow> 's \<Rightarrow> (string + RedisStorage) \<times> scan_cache option \<times> 's" where
  "redisStorage dayOf hourOf redis tz now now' cache s =
     (if (case cache of Some c \<Rightarrow> ca_tz c = tz \<and> now - ca_at c < CACHE_MS | None \<Rightarrow> False)
      then (Inr (ca_value (the cache)), cache, s)
      else
        case bind_io (rd_info redis ''memory'') (\<lambda>memInfo.
             bind_io (rd_info redis ''persistence'') (\<lambda>persInfo.
             bind_io (rd_dbSize redis) (\<lambda>keys.
             bind_io (rd_zRange redis) (\<lambda>ended.
             bind_io (rd_sMembers redis) (\<lambda>alive.
             bind_io (sizes redis (concat (map (\<lambda>e. procKeys (fst e)) ended))) (\<lambda>es.
             bind_io (sizes redis (concat (map procKeys alive))) (\<lambda>as.
             bind_io (sizes redis FIXED_KEYS) (\<lambda>fs.
             ret (scan_value dayOf hourOf tz now' memInfo persInfo keys ended alive es as fs))))))))) s of
          (Inl e, s') \<Rightarrow> (Inl e, cache, s')
        | (Inr v, s') \<Rightarrow> (Inr v, Some \<lparr> ca_tz = tz, ca_at = now', ca_value = v \<rparr>, s'))"

section \<open>Deleting\<close>

fun delete_loop :: "'s Redis \<Rightarrow> string list list \<Rightarrow> ('s, unit) io" where
  "delete_loop redis [] = ret ()"
| "delete_loop redis (ids # rest) =
     bind_io (rd_unlink redis (concat (map procKeys ids))) (\<lambda>_.
     bind_io (rd_zRem redis ids) (\<lambda>_. delete_loop redis rest))"

text \<open>Asking for a rewrite of the append-only file; an error there is logged and ignored.\<close>

definition rewrite_aof :: "'s Redis \<Rightarrow> 's \<Rightarrow> bool \<times> 's" where
  "rewrite_aof redis s = (case rd_info redis ''persistence'' s of
       (Inl _, s') \<Rightarrow> (False, s')
     | (Inr info, s') \<Rightarrow>
         if infoField info ''aof_enabled'' = Some (Some 1)
         then (case rd_rewrite redis s' of (Inl _, s'') \<Rightarrow> (False, s'') | (Inr _, s'') \<Rightarrow> (True, s''))
         else (False, s'))"

definition deleteEndedDays ::
  "zone \<Rightarrow> 's Redis \<Rightarrow> string \<Rightarrow> string list \<Rightarrow> scan_cache option \<Rightarrow> 's \<Rightarrow> (string + nat \<times> bool) \<times> scan_cache option \<times> 's" where
  "deleteEndedDays dayOf redis tz days cache s = (case rd_zRange redis s of
       (Inl e, s1) \<Rightarrow> (Inl e, cache, s1)
     | (Inr ended, s1) \<Rightarrow>
         let doomed = map fst (filter (\<lambda>e. dayOf (snd e) tz \<in> set days) ended)
         in case delete_loop redis (chunks doomed) s1 of
              (Inl e, s2) \<Rightarrow> (Inl e, cache, s2)
            | (Inr _, s2) \<Rightarrow> (let (rw, s3) = rewrite_aof redis s2 in (Inr (length doomed, rw), None, s3)))"

section \<open>Chunks\<close>

lemma concat_chunks [simp]: "concat (chunks xs) = xs"
  by (induction xs rule: chunks.induct) (subst chunks.simps, simp)

lemma bind_ret [simp]: "bind_io (ret x) f = f x"
  by (simp add: fun_eq_iff bind_io_def ret_def)

lemma bind_io_assoc: "bind_io (bind_io m f) g = bind_io m (\<lambda>x. bind_io (f x) g)"
  by (simp add: fun_eq_iff bind_io_def split: prod.split sum.split)

lemma bind_io_ret [simp]: "bind_io m ret = m"
  by (simp add: fun_eq_iff bind_io_def ret_def split: prod.split sum.split)

lemma all_io_append: "all_io (ms @ ns) = bind_io (all_io ms) (\<lambda>xs. bind_io (all_io ns) (\<lambda>ys. ret (xs @ ys)))"
  by (induction ms) (simp_all add: bind_io_assoc)

lemma sizes_loop_all:
  "sizes_loop redis parts out = bind_io (all_io (map (rd_memory redis) (concat parts))) (\<lambda>vs. ret (out @ map num_of vs))"
  by (induction parts arbitrary: out) (simp_all add: all_io_append bind_io_assoc)

text \<open>
  Asking for the sizes of keys in chunks of 500 is asking for each in turn: the same commands in
  the same order, the same sizes (0 for a missing key), and the same error if one fails.
\<close>

theorem sizes_all: "sizes redis keys = bind_io (all_io (map (rd_memory redis) keys)) (\<lambda>vs. ret (map num_of vs))"
  by (simp add: sizes_def sizes_loop_all)

section \<open>Days and hours\<close>

lemma add_hour_fold:
  "foldl (\<lambda>v e. Some (add_hour v (b e))) (Some (x, c)) hs = Some (foldl fadd x (map b hs), c + length hs)"
  by (induction hs arbitrary: x c) (simp_all add: add_hour_def)

lemma add_hour_sum:
  assumes "hs \<noteq> []"
  shows "foldl (\<lambda>v e. Some (add_hour v (b e))) None hs = Some (fsum (map b hs), length hs)"
proof (cases hs)
  case (Cons h hs')
  have "add_hour None (b h) = (fadd 0 (b h), 1)" by (simp add: add_hour_def)
  then show ?thesis by (simp add: Cons add_hour_fold fsum_def)
qed (use assms in simp)

abbreviation ended_bytes :: "string \<times> string \<times> num \<Rightarrow> num" where "ended_bytes e \<equiv> snd (snd e)"
abbreviation ended_hour :: "string \<times> string \<times> num \<Rightarrow> string" where "ended_hour e \<equiv> fst (snd e)"

lemma add_day_fold:
  "foldl (\<lambda>v e. Some (add_day v e)) (Some d) gs = Some \<lparr> dy_bytes = foldl fadd (dy_bytes d) (map ended_bytes gs),
     dy_count = dy_count d + length gs, dy_hours = accum ended_hour (\<lambda>v e. add_hour v (ended_bytes e)) gs (dy_hours d) \<rparr>"
  by (induction gs arbitrary: d) (auto simp: add_day_def Let_def split: prod.split)

lemma add_day_sum:
  assumes "gs \<noteq> []"
  shows "foldl (\<lambda>v e. Some (add_day v e)) None gs = Some \<lparr> dy_bytes = fsum (map ended_bytes gs),
     dy_count = length gs, dy_hours = accum ended_hour (\<lambda>v e. add_hour v (ended_bytes e)) gs [] \<rparr>"
proof -
  have "foldl (\<lambda>v e. Some (add_day v e)) None gs
      = foldl (\<lambda>v e. Some (add_day v e)) (Some \<lparr> dy_bytes = 0, dy_count = 0, dy_hours = [] \<rparr>) gs"
    using assms by (cases gs) (simp_all add: add_day_def)
  then show ?thesis by (simp add: add_day_fold fsum_def)
qed

text \<open>The rows of a day.\<close>

lemma day_rows_mem:
  assumes "r \<in> set (day_rows es)"
  obtains d where "r = day_row (sw_key r, d)" "filter (\<lambda>e. fst e = sw_key r) es \<noteq> []"
    "d = \<lparr> dy_bytes = fsum (map ended_bytes (filter (\<lambda>e. fst e = sw_key r) es)), dy_count = length (filter (\<lambda>e. fst e = sw_key r) es),
       dy_hours = accum ended_hour (\<lambda>v e. add_hour v (ended_bytes e)) (filter (\<lambda>e. fst e = sw_key r) es) [] \<rparr>"
proof -
  from assms obtain k d where r: "r = day_row (k, d)" and m: "(k, d) \<in> set (accum fst add_day es [])"
    unfolding day_rows_def set_map set_sort_by by auto
  have k: "sw_key r = k" by (simp add: r day_row_def)
  from m have f: "foldl (\<lambda>v e. Some (add_day v e)) None (filter (\<lambda>e. fst e = k) es) = Some d" unfolding in_accum_iff .
  then have ne: "filter (\<lambda>e. fst e = k) es \<noteq> []" by auto
  have d: "d = \<lparr> dy_bytes = fsum (map ended_bytes (filter (\<lambda>e. fst e = k) es)), dy_count = length (filter (\<lambda>e. fst e = k) es),
       dy_hours = accum ended_hour (\<lambda>v e. add_hour v (ended_bytes e)) (filter (\<lambda>e. fst e = k) es) [] \<rparr>"
    using f unfolding add_day_sum [OF ne] by (rule option.inject [THEN iffD1, symmetric])
  show thesis unfolding k by (rule that [of d, unfolded k, OF r ne d])
qed

lemma day_rows_keys: "map sw_key (day_rows es) = map fst (sort_by (newest_first fst) (accum fst add_day es []))"
  by (simp add: day_rows_def day_row_def case_prod_beta comp_def)

lemma hour_sums:
  fixes n :: "string \<times> string \<times> num \<Rightarrow> nat"
  assumes "\<And>e. e \<in> set gs \<Longrightarrow> ended_bytes e = of_nat (n e)" and "(\<Sum>e \<leftarrow> gs. n e) \<le> 2 ^ 53"
  shows "(\<Sum>h \<leftarrow> accum ended_hour (\<lambda>v e. add_hour v (ended_bytes e)) gs []. fst (snd h)) = of_nat (\<Sum>e \<leftarrow> gs. n e)"
    "(\<Sum>h \<leftarrow> accum ended_hour (\<lambda>v e. add_hour v (ended_bytes e)) gs []. snd (snd h)) = length gs"
proof -
  let ?m = "accum ended_hour (\<lambda>v e. add_hour v (ended_bytes e)) gs []"
  have h: "fst (snd x) = of_nat (\<Sum>e \<leftarrow> filter (\<lambda>e. ended_hour e = fst x) gs. n e) \<and> snd (snd x) = (\<Sum>e \<leftarrow> filter (\<lambda>e. ended_hour e = fst x) gs. 1)"
    if "x \<in> set ?m" for x
  proof -
    let ?hs = "filter (\<lambda>e. ended_hour e = fst x) gs"
    from that have f: "foldl (\<lambda>v e. Some (add_hour v (ended_bytes e))) None ?hs = Some (snd x)"
      by (simp add: in_accum_iff [symmetric])
    then have "?hs \<noteq> []" by auto
    from f add_hour_sum [OF this, of ended_bytes] have x: "snd x = (fsum (map ended_bytes ?hs), length ?hs)" by simp
    moreover have "fsum (map ended_bytes ?hs) = of_nat (\<Sum>e \<leftarrow> ?hs. n e)"
      using assms order_trans [OF sum_list_filter_le assms(2)] by (intro fsum_nats) auto
    ultimately show ?thesis by (simp add: sum_list_triv)
  qed
  have keys: "distinct (map fst ?m)" "ended_hour ` set gs \<subseteq> set (map fst ?m)" by (simp_all add: set_keys_accum)
  have "(\<Sum>x \<leftarrow> ?m. fst (snd x)) = (\<Sum>x \<leftarrow> ?m. of_nat (\<Sum>e \<leftarrow> filter (\<lambda>e. ended_hour e = fst x) gs. n e))"
    using h by (intro arg_cong [of _ _ sum_list] map_cong) auto
  also have "\<dots> = of_nat (\<Sum>k \<leftarrow> map fst ?m. \<Sum>e \<leftarrow> filter (\<lambda>e. ended_hour e = k) gs. n e)"
    by (simp add: of_nat_sum_list comp_def)
  finally show "(\<Sum>x \<leftarrow> ?m. fst (snd x)) = of_nat (\<Sum>e \<leftarrow> gs. n e)" by (simp only: sum_by_key [OF keys])
  have "(\<Sum>x \<leftarrow> ?m. snd (snd x)) = (\<Sum>x \<leftarrow> ?m. \<Sum>e \<leftarrow> filter (\<lambda>e. ended_hour e = fst x) gs. 1)"
    using h by (intro arg_cong [of _ _ sum_list] map_cong) auto
  also have "\<dots> = (\<Sum>k \<leftarrow> map fst ?m. \<Sum>e \<leftarrow> filter (\<lambda>e. ended_hour e = k) gs. 1)" by (simp add: comp_def)
  finally show "(\<Sum>x \<leftarrow> ?m. snd (snd x)) = length gs" by (simp only: sum_by_key [OF keys]) (simp add: sum_list_triv)
qed

lemma day_row_sums:
  fixes n :: "string \<times> string \<times> num \<Rightarrow> nat"
  assumes nat: "\<forall>e \<in> set es. ended_bytes e = of_nat (n e)" and small: "(\<Sum>e \<leftarrow> es. n e) \<le> 2 ^ 53"
    and r: "r \<in> set (day_rows es)"
  shows "sw_bytes r = Some (of_nat (\<Sum>e \<leftarrow> filter (\<lambda>e. fst e = sw_key r) es. n e))
    \<and> sw_count r = of_nat (length (filter (\<lambda>e. fst e = sw_key r) es))
    \<and> (\<exists>hours. sw_children r = Some hours \<and> (\<Sum>h \<leftarrow> hours. row_bytes h) = of_nat (\<Sum>e \<leftarrow> filter (\<lambda>e. fst e = sw_key r) es. n e)
         \<and> (\<Sum>h \<leftarrow> hours. sw_count h) = of_nat (length (filter (\<lambda>e. fst e = sw_key r) es)))"
proof -
  let ?gs = "filter (\<lambda>e. fst e = sw_key r) es"
  let ?h = "accum ended_hour (\<lambda>v e. add_hour v (ended_bytes e)) ?gs []"
  from r obtain d where d: "r = day_row (sw_key r, d)" and dd: "d = \<lparr> dy_bytes = fsum (map ended_bytes ?gs), dy_count = length ?gs, dy_hours = ?h \<rparr>"
    by (rule day_rows_mem)
  have gs: "\<And>e. e \<in> set ?gs \<Longrightarrow> ended_bytes e = of_nat (n e)" using nat by auto
  have le: "(\<Sum>e \<leftarrow> ?gs. n e) \<le> 2 ^ 53" using order_trans [OF sum_list_filter_le small] .
  note hs = hour_sums [OF gs le]
  let ?k = "map (hour_child (sw_key r)) (sort_by (newest_first fst) ?h)"
  have c: "row_bytes (hour_child k x) = fst (snd x)" "sw_count (hour_child k x) = of_nat (snd (snd x))" for k x
    by (auto simp: hour_child_def row_bytes_def num_of_def split: prod.split)
  have "(\<Sum>h \<leftarrow> ?k. row_bytes h) = of_nat (\<Sum>e \<leftarrow> ?gs. n e)" using hs(1) by (simp add: comp_def c)
  moreover have "(\<Sum>h \<leftarrow> ?k. sw_count h) = of_nat (length ?gs)"
    using arg_cong [OF hs(2), of "of_nat :: nat \<Rightarrow> num"] by (simp add: comp_def c of_nat_sum_list)
  moreover have "sw_children r = Some ?k" "sw_bytes r = Some (dy_bytes d)" "sw_count r = of_nat (dy_count d)"
    by (subst d, simp add: day_row_def dd)+
  moreover have "dy_bytes d = of_nat (\<Sum>e \<leftarrow> ?gs. n e)" unfolding dd day_sum.simps using gs le by (rule fsum_nats)
  ultimately show ?thesis by (simp add: dd)
qed

text \<open>
  The days of the ended processes: one row per day with an ended process, newest first. When
  the sizes are whole numbers below \<open>2^53\<close> in all, a day's size and count are the sums over its
  processes, its hours add up to both, and the days add up to the total; no byte and no process
  is lost or counted twice.
\<close>

theorem day_rows_conserved:
  fixes n :: "string \<times> string \<times> num \<Rightarrow> nat"
  assumes nat: "\<forall>e \<in> set es. ended_bytes e = of_nat (n e)" and small: "(\<Sum>e \<leftarrow> es. n e) \<le> 2 ^ 53"
  shows "sorted_wrt (newest_first sw_key) (day_rows es) \<and> distinct (map sw_key (day_rows es))
    \<and> set (map sw_key (day_rows es)) = fst ` set es
    \<and> (\<forall>r \<in> set (day_rows es). let mine = filter (\<lambda>e. fst e = sw_key r) es in
         sw_bytes r = Some (of_nat (\<Sum>e \<leftarrow> mine. n e)) \<and> sw_count r = of_nat (length mine)
         \<and> (\<exists>hours. sw_children r = Some hours \<and> (\<Sum>h \<leftarrow> hours. row_bytes h) = of_nat (\<Sum>e \<leftarrow> mine. n e)
              \<and> (\<Sum>h \<leftarrow> hours. sw_count h) = of_nat (length mine)))
    \<and> fsum (map row_bytes (day_rows es)) = of_nat (\<Sum>e \<leftarrow> es. n e)"
proof -
  note row = day_row_sums [OF nat small]
  have dist: "distinct (map sw_key (day_rows es))"
    unfolding day_rows_keys by (metis distinct_keys_accum mset_eq_imp_distinct_iff mset_map mset_sort_by)
  have keys: "set (map sw_key (day_rows es)) = fst ` set es"
    unfolding day_rows_keys set_map set_sort_by by (rule set_keys_accum)
  have "sorted_wrt (newest_first fst) (sort_by (newest_first fst) (accum fst add_day es []))" by (intro sort_by_sorted_wrt) simp
  then have sorted: "sorted_wrt (newest_first sw_key) (day_rows es)"
    unfolding day_rows_def sorted_wrt_map by (rule sorted_wrt_mono_rel [rotated]) (simp add: newest_first_def day_row_def case_prod_beta)
  have "(\<Sum>r \<leftarrow> day_rows es. \<Sum>e \<leftarrow> filter (\<lambda>e. fst e = sw_key r) es. n e) = (\<Sum>e \<leftarrow> es. n e)"
    using sum_by_key [OF dist, of fst es n] keys by (simp add: comp_def)
  moreover have "\<And>r. r \<in> set (day_rows es) \<Longrightarrow> row_bytes r = of_nat (\<Sum>e \<leftarrow> filter (\<lambda>e. fst e = sw_key r) es. n e)"
    using row by (simp add: row_bytes_def num_of_def)
  ultimately have "fsum (map row_bytes (day_rows es)) = of_nat (\<Sum>e \<leftarrow> es. n e)"
    using fsum_nats [of "day_rows es" row_bytes "\<lambda>r. \<Sum>e \<leftarrow> filter (\<lambda>e. fst e = sw_key r) es. n e"] small by simp
  then show ?thesis using sorted dist keys row unfolding Let_def by blast
qed

theorem day_rows_conserved_witness:
  "fsum (map row_bytes (day_rows [(''2026-07-30'', ''08'', 3), (''2026-07-31'', ''08'', 4), (''2026-07-30'', ''09'', 5)])) = 12"
  using day_rows_conserved [of "[(''2026-07-30'', ''08'', 3), (''2026-07-31'', ''08'', 4), (''2026-07-30'', ''09'', 5)]" "\<lambda>e. nat \<lfloor>ended_bytes e\<rfloor>"]
  by simp

section \<open>What is deleted\<close>

text \<open>
  What the deletion relies on, for an abstraction of the server's state to the members of
  \<open>netwatch:ended\<close> with their scores and to the keys that exist. A command that throws may have
  done part of its work, but nothing else. (The sorted set itself vanishes with its last member.)
\<close>

definition redis_laws :: "'s Redis \<Rightarrow> ('s \<Rightarrow> (string \<times> num) list) \<Rightarrow> ('s \<Rightarrow> string set) \<Rightarrow> bool" where
  "redis_laws redis ended has \<longleftrightarrow>
     (\<forall>s r s'. rd_zRange redis s = (r, s') \<longrightarrow> ended s' = ended s \<and> has s' = has s \<and> (\<forall>x. r = Inr x \<longrightarrow> x = ended s))
   \<and> (\<forall>ks s r s'. rd_unlink redis ks s = (r, s') \<longrightarrow> ended s' = ended s \<and> has s' \<subseteq> has s \<and> has s - has s' \<subseteq> set ks
        \<and> (r = Inr () \<longrightarrow> has s' \<inter> set ks = {}))
   \<and> (\<forall>ids s r s'. rd_zRem redis ids s = (r, s') \<longrightarrow> (has s' - {''netwatch:ended''} = has s - {''netwatch:ended''})
        \<and> set (ended s') \<subseteq> set (ended s) \<and> (\<forall>e \<in> set (ended s) - set (ended s'). fst e \<in> set ids)
        \<and> (r = Inr () \<longrightarrow> ended s' = filter (\<lambda>e. fst e \<notin> set ids) (ended s)))
   \<and> (\<forall>f s r s'. rd_info redis f s = (r, s') \<longrightarrow> ended s' = ended s \<and> has s' = has s)
   \<and> (\<forall>s r s'. rd_rewrite redis s = (r, s') \<longrightarrow> ended s' = ended s \<and> has s' = has s)"

lemma redis_lawsD:
  assumes "redis_laws redis ended has"
  shows "rd_zRange redis s = (r, s') \<Longrightarrow> ended s' = ended s \<and> has s' = has s \<and> (\<forall>x. r = Inr x \<longrightarrow> x = ended s)"
    and "rd_unlink redis ks s = (u, s') \<Longrightarrow> ended s' = ended s \<and> has s' \<subseteq> has s \<and> has s - has s' \<subseteq> set ks
      \<and> (u = Inr () \<longrightarrow> has s' \<inter> set ks = {})"
    and "rd_zRem redis ids s = (u, s') \<Longrightarrow> has s' - {''netwatch:ended''} = has s - {''netwatch:ended''}
      \<and> set (ended s') \<subseteq> set (ended s) \<and> (\<forall>e \<in> set (ended s) - set (ended s'). fst e \<in> set ids)
      \<and> (u = Inr () \<longrightarrow> ended s' = filter (\<lambda>e. fst e \<notin> set ids) (ended s))"
    and "rd_info redis f s = (i, s') \<Longrightarrow> ended s' = ended s \<and> has s' = has s"
    and "rd_rewrite redis s = (u, s') \<Longrightarrow> ended s' = ended s \<and> has s' = has s"
proof (goal_cases)
  case 1
  with assms [unfolded redis_laws_def, THEN conjunct1] show ?case by blast
next
  case 2
  with assms [unfolded redis_laws_def, THEN conjunct2, THEN conjunct1] show ?case by blast
next
  case 3
  with assms [unfolded redis_laws_def, THEN conjunct2, THEN conjunct2, THEN conjunct1] show ?case by blast
next
  case 4
  with assms [unfolded redis_laws_def, THEN conjunct2, THEN conjunct2, THEN conjunct2, THEN conjunct1] show ?case by blast
next
  case 5
  with assms [unfolded redis_laws_def, THEN conjunct2, THEN conjunct2, THEN conjunct2, THEN conjunct2] show ?case by blast
qed

text \<open>One step of progress: nothing is removed that does not belong to one of \<open>ids\<close>.\<close>

definition removed_only :: "('s \<Rightarrow> (string \<times> num) list) \<Rightarrow> ('s \<Rightarrow> string set) \<Rightarrow> string list \<Rightarrow> 's \<Rightarrow> 's \<Rightarrow> bool" where
  "removed_only ended has ids s s' \<longleftrightarrow>
     has s - has s' \<subseteq> set (concat (map procKeys ids)) \<union> {''netwatch:ended''} \<and> has s' \<subseteq> has s \<union> {''netwatch:ended''}
   \<and> set (ended s') \<subseteq> set (ended s) \<and> (\<forall>e \<in> set (ended s) - set (ended s'). fst e \<in> set ids)"

lemma removed_only_refl: "removed_only ended has ids s s"
  by (auto simp: removed_only_def)

lemma removed_only_trans:
  "removed_only ended has ids s s' \<Longrightarrow> removed_only ended has ids' s' s'' \<Longrightarrow> removed_only ended has (ids @ ids') s s''"
  unfolding removed_only_def by auto

lemma removed_only_mono: "removed_only ended has ids s s' \<Longrightarrow> set ids \<subseteq> set ids' \<Longrightarrow> removed_only ended has ids' s s'"
  unfolding removed_only_def by auto blast+

lemma delete_loop_removes:
  assumes laws: "redis_laws redis ended has" and "delete_loop redis parts s = (r, s')"
  shows "removed_only ended has (concat parts) s s'
    \<and> (r = Inr () \<longrightarrow> ended s' = filter (\<lambda>e. fst e \<notin> set (concat parts)) (ended s)
         \<and> has s' \<inter> set (concat (map procKeys (concat parts))) \<subseteq> {''netwatch:ended''})"
  using assms(2)
proof (induction parts arbitrary: s)
  case Nil
  then show ?case by (simp add: ret_def removed_only_refl)
next
  case (Cons ids parts)
  obtain u s1 where u: "rd_unlink redis (concat (map procKeys ids)) s = (u, s1)" by fastforce
  obtain z s2 where z: "rd_zRem redis ids s1 = (z, s2)" by fastforce
  note lu = redis_lawsD(2) [OF laws u] and lz = redis_lawsD(3) [OF laws z]
  have r1: "removed_only ended has ids s s1" using lu by (auto simp: removed_only_def)
  have r2: "removed_only ended has ids s s2" using lu lz by (auto simp: removed_only_def)
  show ?case
  proof (cases "u = Inr () \<and> z = Inr ()")
    case False
    then have "s' = s1 \<or> s' = s2" "r \<noteq> Inr ()" using Cons.prems u z by (auto simp: bind_io_def split: sum.splits)
    then show ?thesis using r1 r2 by (auto intro: removed_only_mono)
  next
    case True
    then have l: "delete_loop redis parts s2 = (r, s')" using Cons.prems u z by (simp add: bind_io_def)
    note ih = Cons.IH [OF l]
    have "removed_only ended has (concat (ids # parts)) s s'" using removed_only_trans [OF r2 ih [THEN conjunct1]] by simp
    moreover have "ended s' = filter (\<lambda>e. fst e \<notin> set (concat (ids # parts))) (ended s)" if "r = Inr ()"
    proof -
      have "ended s' = filter (\<lambda>e. fst e \<notin> set (concat parts)) (ended s2)" "ended s2 = filter (\<lambda>e. fst e \<notin> set ids) (ended s1)"
        "ended s1 = ended s" using that ih lu lz True by blast+
      then show ?thesis by (auto intro!: filter_cong)
    qed
    moreover have "has s' \<inter> set (concat (map procKeys (concat (ids # parts)))) \<subseteq> {''netwatch:ended''}" if "r = Inr ()"
    proof -
      note h = ih [THEN conjunct2, THEN mp, OF that, THEN conjunct2]
      have "has s' \<subseteq> has s2 \<union> {''netwatch:ended''}" using ih [THEN conjunct1] unfolding removed_only_def by blast
      moreover have "has s2 \<subseteq> has s1 \<union> {''netwatch:ended''}" using lz [THEN conjunct1] by blast
      moreover have "has s1 \<inter> set (concat (map procKeys ids)) = {}" using lu True by blast
      ultimately have "has s' \<inter> set (concat (map procKeys ids)) \<subseteq> {''netwatch:ended''}" by blast
      then show ?thesis using h unfolding concat.simps map_append concat_append set_append by blast
    qed
    ultimately show ?thesis by blast
  qed
qed

lemma rewrite_aof_keeps:
  assumes "redis_laws redis ended has" and "rewrite_aof redis s = (rw, s')"
  shows "ended s' = ended s \<and> has s' = has s"
proof -
  obtain i s1 where i: "rd_info redis ''persistence'' s = (i, s1)" by fastforce
  obtain u s2 where u: "rd_rewrite redis s1 = (u, s2)" by fastforce
  show ?thesis
    using assms(2) redis_lawsD(4) [OF assms(1) i] redis_lawsD(5) [OF assms(1) u] i u
    by (auto simp: rewrite_aof_def split: sum.splits if_splits)
qed

lemma ended_not_proc: "''netwatch:ended'' \<notin> set (concat (map procKeys ids))"
  by (auto simp: procKeys_def)

lemma doomed_filter:
  assumes "distinct (map fst es)"
  shows "filter (\<lambda>e. fst e \<notin> set (map fst (filter p es))) es = filter (\<lambda>e. \<not> p e) es"
  using assms by (intro filter_cong) (auto simp: inj_on_def distinct_map)

lemma deleteEndedDays_cases:
  assumes laws: "redis_laws redis ended has" and "deleteEndedDays dayOf redis tz days cache s = (r, cache', s')"
  defines "doomed \<equiv> map fst (filter (\<lambda>e. dayOf (snd e) tz \<in> set days) (ended s))"
  obtains (failed) e where "r = Inl e" "removed_only ended has doomed s s'" "cache' = cache"
    | (finished) rw where "r = Inr (length doomed, rw)" "cache' = None" "removed_only ended has doomed s s'"
        "ended s' = filter (\<lambda>e. fst e \<notin> set doomed) (ended s)" "has s' \<inter> set (concat (map procKeys doomed)) = {}"
proof -
  obtain z s1 where z: "rd_zRange redis s = (z, s1)" by fastforce
  note lz = redis_lawsD(1) [OF laws z]
  show thesis
  proof (cases z)
    case (Inl e)
    with assms(2) z have "r = Inl e" "s' = s1" "cache' = cache" by (auto simp: deleteEndedDays_def)
    then show ?thesis using failed lz by (simp add: removed_only_def subset_insertI)
  next
    case (Inr es)
    with lz have es: "es = ended s" by simp
    obtain u s2 where u: "delete_loop redis (chunks doomed) s1 = (u, s2)" by fastforce
    obtain rw s3 where rw: "rewrite_aof redis s2 = (rw, s3)" by fastforce
    have d: "deleteEndedDays dayOf redis tz days cache s
        = (case u of Inl e \<Rightarrow> (Inl e, cache, s2) | Inr _ \<Rightarrow> (Inr (length doomed, rw), None, s3))"
      using z Inr es u rw by (simp add: deleteEndedDays_def doomed_def Let_def split: sum.split)
    note du = delete_loop_removes [OF laws u, unfolded concat_chunks] and dr = rewrite_aof_keeps [OF laws rw]
    have rem: "removed_only ended has doomed s s2" using du [THEN conjunct1] lz by (simp add: removed_only_def)
    show ?thesis
    proof (cases u)
      case (Inl e)
      with d assms(2) show ?thesis using failed rem by simp
    next
      case (Inr x)
      then have ok: "u = Inr ()" by simp
      note dn = du [THEN conjunct2, THEN mp, OF ok]
      have "ended s2 = filter (\<lambda>e. fst e \<notin> set doomed) (ended s)" using dn [THEN conjunct1] lz by (simp only:)
      moreover have "has s2 \<inter> set (concat (map procKeys doomed)) = {}" using dn [THEN conjunct2] ended_not_proc [of doomed] by blast
      ultimately show ?thesis using finished [of rw] d assms(2) Inr dr rem by (simp add: removed_only_def)
    qed
  qed
qed

text \<open>
  (C3) Deleting days refines one atomic deletion, for every calendar and whatever the server does
  within \<open>redis_laws\<close>. Whether it succeeds or stops at an error, only processes that ended on one of
  the days are removed, and only their two keys (so no live process is touched). When it succeeds,
  the sorted set holds exactly the members of the other days, none of the deleted processes' keys
  is left, the reported number is the number of processes removed, and the cached scan is
  forgotten.
\<close>

theorem deleteEndedDays_refines:
  assumes "redis_laws redis ended has" and "distinct (map fst (ended s))"
    and "deleteEndedDays dayOf redis tz days cache s = (r, cache', s')"
  shows "removed_only ended has (map fst (filter (\<lambda>e. dayOf (snd e) tz \<in> set days) (ended s))) s s'
    \<and> (\<forall>n rw. r = Inr (n, rw) \<longrightarrow>
         ended s' = filter (\<lambda>e. dayOf (snd e) tz \<notin> set days) (ended s) \<and> n = length (ended s) - length (ended s') \<and> cache' = None
         \<and> has s' \<inter> set (concat (map procKeys (map fst (filter (\<lambda>e. dayOf (snd e) tz \<in> set days) (ended s))))) = {})"
  using assms(1,3)
proof (cases rule: deleteEndedDays_cases)
  case (finished rw)
  note f = doomed_filter [OF assms(2), of "\<lambda>e. dayOf (snd e) tz \<in> set days"]
  have "length (filter (\<lambda>e. dayOf (snd e) tz \<in> set days) (ended s)) = length (ended s) - length (ended s')"
    using sum_length_filter_compl [of "\<lambda>e. dayOf (snd e) tz \<in> set days" "ended s"] finished(4) f by simp
  with finished f show ?thesis by (metis (no_types, lifting) Pair_inject length_map sum.inject(2))
qed simp

text \<open>A server that does what \<open>redis_laws\<close> says, holding the sorted set and the keys.\<close>

definition sample_redis :: "((string \<times> num) list \<times> string list) Redis" where
  "sample_redis = \<lparr> rd_info = (\<lambda>_. ret []), rd_dbSize = (\<lambda>s. (Inr (length (snd s)), s)), rd_zRange = (\<lambda>s. (Inr (fst s), s)),
     rd_sMembers = ret [], rd_memory = (\<lambda>_. ret None),
     rd_unlink = (\<lambda>ks s. (Inr (), fst s, filter (\<lambda>k. k \<notin> set ks) (snd s))),
     rd_zRem = (\<lambda>ids s. (Inr (), filter (\<lambda>e. fst e \<notin> set ids) (fst s), snd s)), rd_rewrite = ret () \<rparr>"

lemma sample_redis_laws: "redis_laws sample_redis fst (\<lambda>s. set (snd s))"
  by (auto simp: redis_laws_def sample_redis_def ret_def)

definition sample_day :: zone where
  "sample_day ms tz = (if ms < 10 then ''2026-07-30'' else ''2026-07-31'')"

theorem deleteEndedDays_refines_witness:
  "\<exists>s'. deleteEndedDays sample_day sample_redis ''UTC'' [''2026-07-30''] None
      ([(''7:1'', 5), (''8:2'', 15)], [''netwatch:proc:7:1'', ''netwatch:proc:8:2'', ''netwatch:stream'']) = (Inr (1, False), None, s')
    \<and> fst s' = [(''8:2'', 15)]"
proof -
  let ?s = "([(''7:1'', 5), (''8:2'', 15)], [''netwatch:proc:7:1'', ''netwatch:proc:8:2'', ''netwatch:stream''])"
  have d: "deleteEndedDays sample_day sample_redis ''UTC'' [''2026-07-30''] None ?s
    = (Inr (1, False), None, [(''8:2'', 15)], [''netwatch:proc:8:2'', ''netwatch:stream''])" by code_simp
  show ?thesis
    using deleteEndedDays_refines [OF sample_redis_laws _ d] d by (simp add: sample_day_def)
qed

end
