(* ===== verification/RoutesStorage.thy ===== *)
theory RoutesStorage
  imports StorageRedis
begin

text \<open>
  \<^verbatim>\<open>web/src/server/routes/storage.ts\<close>: sizes of both stores, the hours of a partition, and deleting stored
  data behind a password. The state is the list of recent wrong passwords (their times), the
  cached Redis scan and the Redis server. SHA-256 (\<open>digest\<close>), the zones the runtime knows and the
  clock are parameters. A field of a JSON body is a \<open>jval\<close>; one that is missing is \<open>JUndef\<close>. An
  exception is an HTTP error or, from the Redis client, a plain one (a 500 to the caller).
\<close>

datatype jval = JUndef | JStr string | JArr "jval list" | JOther

datatype thrown = Http http_error | Thrown string

definition MAX_KEYS :: nat where "MAX_KEYS = 400"
definition MAX_FAILS :: nat where "MAX_FAILS = 5"
definition FAIL_WINDOW_MS :: int where "FAIL_WINDOW_MS = 60000"

record 's storage_deps =
  sd_password :: string
  sd_dbname :: string
  sd_digest :: "string \<Rightarrow> string"
  sd_zone :: "string \<Rightarrow> bool"
  sd_dayOf :: zone
  sd_hourOf :: zone
  sd_redis :: "'s Redis"
  sd_ready :: bool
  sd_parts :: "PartRow db"
  sd_chtz :: "string db"
  sd_break :: "BreakRow db"
  sd_admin :: admin

record 's storage_state =
  st_fails :: "int list"
  st_cache :: "scan_cache option"
  st_redis :: 's

definition timezoneParam :: "(string \<Rightarrow> bool) \<Rightarrow> jval \<Rightarrow> string result" where
  "timezoneParam zone raw = (case raw of
       JStr s \<Rightarrow> if s = [] then Inl (badRequest ''tz: required'') else if zone s then Inr s else Inl (badRequest ''tz: unknown timezone'')
     | _ \<Rightarrow> Inl (badRequest ''tz: required''))"

definition passwordMatches :: "(string \<Rightarrow> string) \<Rightarrow> string \<Rightarrow> string \<Rightarrow> bool" where
  "passwordMatches digest given expected \<longleftrightarrow> digest given = digest expected"

definition errMsg :: "thrown \<Rightarrow> string" where
  "errMsg t = (case t of Http e \<Rightarrow> message e | Thrown m \<Rightarrow> m)"

text \<open>A query parameter; a repeated one is an array.\<close>

definition jval_of :: "qval option \<Rightarrow> jval" where
  "jval_of v = (case v of None \<Rightarrow> JUndef | Some (QStr s) \<Rightarrow> JStr s | Some (QArr l) \<Rightarrow> JArr (map JStr l))"

section \<open>Sizes\<close>

record StorageResponse =
  sp_deleteEnabled :: bool
  sp_timezone :: string
  sp_clickhouseTimezone :: string
  sp_clickhouse :: "ClickHouseStorage option"
  sp_clickhouseError :: "string option"
  sp_redis :: "RedisStorage option"
  sp_redisError :: "string option"

text \<open>The zone is kept when the sizes fail after it.\<close>

definition clickhouse_part :: "'s storage_deps \<Rightarrow> bool \<Rightarrow> string \<times> ClickHouseStorage result" where
  "clickhouse_part d aborted = (case clickhouseTimezone aborted (sd_chtz d) of
       Inl e \<Rightarrow> (''UTC'', Inl e)
     | Inr tz \<Rightarrow> (tz, clickhouseStorage aborted (sd_parts d) (sd_dbname d)))"

definition storage_get ::
  "'s storage_deps \<Rightarrow> bool \<Rightarrow> int \<Rightarrow> int \<Rightarrow> query \<Rightarrow> 's storage_state \<Rightarrow> StorageResponse result \<times> 's storage_state" where
  "storage_get d aborted now now' q st = (case timezoneParam (sd_zone d) (jval_of (q ''tz'')) of
       Inl e \<Rightarrow> (Inl e, st)
     | Inr tz \<Rightarrow> (let (chtz, ch) = clickhouse_part d aborted in
         if aborted \<and> isl ch then (Inl (projl ch), st)
         else
           let (r, cache', s') = (if \<not> sd_ready d then (Inl ''not connected'', st_cache st, st_redis st)
                 else redisStorage (sd_dayOf d) (sd_hourOf d) (sd_redis d) tz now now' (st_cache st) (st_redis st))
           in (Inr \<lparr> sp_deleteEnabled = (sd_password d \<noteq> []), sp_timezone = tz, sp_clickhouseTimezone = chtz,
                 sp_clickhouse = (case ch of Inl _ \<Rightarrow> None | Inr c \<Rightarrow> Some c),
                 sp_clickhouseError = (case ch of Inl e \<Rightarrow> Some (errMsg (Http e)) | Inr _ \<Rightarrow> None),
                 sp_redis = (case r of Inl _ \<Rightarrow> None | Inr v \<Rightarrow> Some v),
                 sp_redisError = (case r of Inl m \<Rightarrow> Some (errMsg (Thrown m)) | Inr _ \<Rightarrow> None) \<rparr>,
               st\<lparr> st_cache := cache', st_redis := s' \<rparr>)))"

text \<open>A repeated \<open>table\<close> or \<open>key\<close> is compared as its elements joined by commas, and refused like any other text.\<close>

definition qtext :: "qval option \<Rightarrow> string" where
  "qtext v = (case v of None \<Rightarrow> [] | Some (QStr s) \<Rightarrow> s | Some (QArr l) \<Rightarrow> join '','' l)"

definition storage_breakdown :: "'s storage_deps \<Rightarrow> bool \<Rightarrow> query \<Rightarrow> StorageRow list result" where
  "storage_breakdown d aborted q = bind_res (timezoneParam (sd_zone d) (jval_of (q ''tz''))) (\<lambda>tz.
     clickhouseBreakdown (sd_dayOf d) (sd_hourOf d) aborted (sd_parts d) (sd_break d) (sd_dbname d)
       (qtext (q ''table'')) (qtext (q ''key'')) tz)"

section \<open>Deleting\<close>

record StorageDeleteRequest =
  bq_store :: jval
  bq_table :: jval
  bq_keys :: jval
  bq_password :: jval
  bq_tz :: jval

definition password_ok :: "'s storage_deps \<Rightarrow> StorageDeleteRequest \<Rightarrow> bool" where
  "password_ok d b \<longleftrightarrow> (case bq_password b of JStr p \<Rightarrow> passwordMatches (sd_digest d) p (sd_password d) | _ \<Rightarrow> False)"

definition str_of :: "jval \<Rightarrow> string option" where
  "str_of v = (case v of JStr s \<Rightarrow> Some s | _ \<Rightarrow> None)"

text \<open>1 to 400 strings, without repetitions.\<close>

definition delete_keys :: "jval \<Rightarrow> string list result" where
  "delete_keys v = (case v of
       JArr ks \<Rightarrow>
         if ks = [] \<or> length ks > MAX_KEYS \<or> (\<exists>k \<in> set ks. str_of k = None)
         then Inl (badRequest (''keys: 1 to '' @ string_of_nat MAX_KEYS @ '' strings''))
         else Inr (new_Set (List.map_filter str_of ks))
     | _ \<Rightarrow> Inl (badRequest (''keys: 1 to '' @ string_of_nat MAX_KEYS @ '' strings'')))"

definition delete_clickhouse :: "'s storage_deps \<Rightarrow> StorageDeleteRequest \<Rightarrow> string list \<Rightarrow> (thrown + nat \<times> bool) \<times> string list" where
  "delete_clickhouse d b keys = (case bq_table b of
       JStr table \<Rightarrow> (case dropPartitions (sd_parts d) (sd_admin d) (sd_dbname d) table keys of
           (Inl e, sent) \<Rightarrow> (Inl (Http e), sent)
         | (Inr n, sent) \<Rightarrow> (Inr (n, False), sent))
     | _ \<Rightarrow> (Inl (Http (badRequest ''table: required'')), []))"

definition delete_redis ::
  "'s storage_deps \<Rightarrow> StorageDeleteRequest \<Rightarrow> string list \<Rightarrow> 's storage_state \<Rightarrow> (thrown + nat \<times> bool) \<times> 's storage_state" where
  "delete_redis d b keys st =
     (if \<exists>k \<in> set keys. \<not> is_day k then (Inl (Http (badRequest ''keys: days as YYYY-MM-DD'')), st)
      else if \<not> sd_ready d then (Inl (Http (HttpError 502 ''Redis: not connected'')), st)
      else (case timezoneParam (sd_zone d) (bq_tz b) of
          Inl e \<Rightarrow> (Inl (Http e), st)
        | Inr tz \<Rightarrow> (let (r, cache', s') = deleteEndedDays (sd_dayOf d) (sd_redis d) tz keys (st_cache st) (st_redis st)
            in (case r of Inl m \<Rightarrow> Inl (Thrown m) | Inr x \<Rightarrow> Inr x, st\<lparr> st_cache := cache', st_redis := s' \<rparr>))))"

definition delete_checked ::
  "'s storage_deps \<Rightarrow> StorageDeleteRequest \<Rightarrow> 's storage_state \<Rightarrow> (thrown + nat \<times> bool) \<times> string list \<times> 's storage_state" where
  "delete_checked d b st =
     (if bq_store b \<noteq> JStr ''clickhouse'' \<and> bq_store b \<noteq> JStr ''redis''
      then (Inl (Http (badRequest ''store: clickhouse or redis'')), [], st)
      else case delete_keys (bq_keys b) of
          Inl e \<Rightarrow> (Inl (Http e), [], st)
        | Inr keys \<Rightarrow>
            if bq_store b = JStr ''clickhouse'' then (let (r, sent) = delete_clickhouse d b keys in (r, sent, st))
            else (let (r, st') = delete_redis d b keys st in (r, [], st')))"

definition wrong_password :: http_error where "wrong_password = HttpError 403 ''wrong password''"

text \<open>The result, the statements sent to the writing ClickHouse client, and the new state.\<close>

definition storage_delete ::
  "'s storage_deps \<Rightarrow> int \<Rightarrow> StorageDeleteRequest \<Rightarrow> 's storage_state \<Rightarrow> (thrown + nat \<times> bool) \<times> string list \<times> 's storage_state" where
  "storage_delete d now b st =
     (if sd_password d = []
      then (Inl (Http (HttpError 403 ''deleting is disabled: STORAGE_ADMIN_PASSWORD is not set on the server'')), [], st)
      else
        let fails = filter (\<lambda>t. now - t < FAIL_WINDOW_MS) (st_fails st); st' = st\<lparr> st_fails := fails \<rparr>
        in if length fails \<ge> MAX_FAILS then (Inl (Http (HttpError 429 ''too many wrong passwords; wait a minute'')), [], st')
           else if \<not> password_ok d b then (Inl (Http wrong_password), [], st'\<lparr> st_fails := fails @ [now] \<rparr>)
           else delete_checked d b st')"

text \<open>A sequence of requests with their times: the outcome of each.\<close>

fun storage_run ::
  "'s storage_deps \<Rightarrow> (int \<times> StorageDeleteRequest) list \<Rightarrow> 's storage_state \<Rightarrow> (int \<times> (thrown + nat \<times> bool)) list" where
  "storage_run d [] st = []"
| "storage_run d ((now, b) # reqs) st = (let (r, sent, st') = storage_delete d now b st in (now, r) # storage_run d reqs st')"

section \<open>The password guards every deletion\<close>

lemma delete_checked_fails: "delete_checked d b st = (r, sent, st') \<Longrightarrow> st_fails st' = st_fails st"
  by (auto simp: delete_checked_def delete_redis_def Let_def split: sum.splits prod.splits if_splits)

text \<open>
  (C15) Only the password opens the deletion. Whenever a request sends a statement to ClickHouse,
  changes the Redis server or the cached scan, or is answered with anything but a refusal by the
  guard (403 or 429), a password is configured, the request carries a text with the same digest,
  and fewer than five wrong passwords were given in the last minute.
\<close>

theorem storage_delete_guarded:
  assumes "storage_delete d now b st = (r, sent, st')"
    and "sent \<noteq> [] \<or> st_redis st' \<noteq> st_redis st \<or> st_cache st' \<noteq> st_cache st
      \<or> (\<forall>e. r = Inl (Http e) \<longrightarrow> statusCode e \<notin> {403, 429})"
  shows "sd_password d \<noteq> []
    \<and> (\<exists>p. bq_password b = JStr p \<and> sd_digest d p = sd_digest d (sd_password d))
    \<and> length (filter (\<lambda>t. now - t < 60000) (st_fails st)) < 5"
  using assms
  by (auto simp: storage_delete_def Let_def wrong_password_def password_ok_def passwordMatches_def FAIL_WINDOW_MS_def MAX_FAILS_def
      split: if_splits jval.splits)

definition sample_store :: "((string \<times> num) list \<times> string list) storage_deps" where
  "sample_store = \<lparr> sd_password = ''secret'', sd_dbname = ''netwatch'', sd_digest = (\<lambda>s. s), sd_zone = (\<lambda>z. z = ''UTC''),
     sd_dayOf = sample_day, sd_hourOf = (\<lambda>_ _. ''00''), sd_redis = sample_redis, sd_ready = True,
     sd_parts = (\<lambda>_. Inr [sample_part]), sd_chtz = (\<lambda>_. Inr [''UTC'']), sd_break = (\<lambda>_. Inr []), sd_admin = (\<lambda>_ _. None) \<rparr>"

definition sample_state :: "((string \<times> num) list \<times> string list) storage_state" where
  "sample_state = \<lparr> st_fails = [], st_cache = None, st_redis = ([(''7:1'', 5)], [''netwatch:proc:7:1'']) \<rparr>"

definition sample_delete :: "string \<Rightarrow> StorageDeleteRequest" where
  "sample_delete p = \<lparr> bq_store = JStr ''redis'', bq_table = JUndef, bq_keys = JArr [JStr ''2026-07-30''], bq_password = JStr p, bq_tz = JStr ''UTC'' \<rparr>"

theorem storage_delete_guarded_witness:
  "\<exists>st'. storage_delete sample_store 100 (sample_delete ''secret'') sample_state = (Inr (1, False), [], st') \<and> st_redis st' = ([], [])
    \<and> length (filter (\<lambda>t. 100 - t < 60000) (st_fails sample_state)) < 5"
proof -
  have d: "storage_delete sample_store 100 (sample_delete ''secret'') sample_state
    = (Inr (1, False), [], \<lparr> st_fails = [], st_cache = None, st_redis = ([], []) \<rparr>)" by code_simp
  show ?thesis using storage_delete_guarded [OF d] d by simp
qed

section \<open>Guessing is slow\<close>

definition in_window :: "int \<Rightarrow> int \<Rightarrow> bool" where
  "in_window t u \<longleftrightarrow> t \<le> u \<and> u < t + FAIL_WINDOW_MS"

definition wrong_times :: "(int \<times> (thrown + 'a)) list \<Rightarrow> int list" where
  "wrong_times outs = map fst (filter (\<lambda>x. snd x = Inl (Http wrong_password)) outs)"

text \<open>The recorded failures are, for every later time, exactly the wrong passwords of its last minute.\<close>

definition fails_match :: "int \<Rightarrow> int list \<Rightarrow> int list \<Rightarrow> bool" where
  "fails_match since0 fails ws \<longleftrightarrow>
     (\<forall>now \<ge> since0. filter (\<lambda>t. now - t < FAIL_WINDOW_MS) fails = filter (\<lambda>t. now - t < FAIL_WINDOW_MS) ws) \<and> (\<forall>w \<in> set ws. w \<le> since0)"

lemma fails_match_recent:
  assumes "fails_match since0 fails ws" and "since0 \<le> now"
  shows "fails_match now (filter (\<lambda>t. now - t < FAIL_WINDOW_MS) fails) ws"
proof -
  have "filter (\<lambda>t. later - t < FAIL_WINDOW_MS) (filter (\<lambda>t. now - t < FAIL_WINDOW_MS) fails) = filter (\<lambda>t. later - t < FAIL_WINDOW_MS) fails"
    if "now \<le> later" for later
    unfolding filter_filter using that by (intro filter_cong) auto
  with assms show ?thesis unfolding fails_match_def by fastforce
qed

lemma fails_match_push: "fails_match now fails ws \<Longrightarrow> fails_match now (fails @ [now]) (ws @ [now])"
  by (simp add: fails_match_def)

lemma window_push:
  assumes m: "fails_match now fails ws" and few: "length (filter (\<lambda>t. now - t < FAIL_WINDOW_MS) fails) < MAX_FAILS"
    and le: "length (filter (in_window t) ws) \<le> MAX_FAILS"
  shows "length (filter (in_window t) (ws @ [now])) \<le> MAX_FAILS"
proof (cases "in_window t now")
  case True
  have "length (filter (in_window t) ws) = length (filter (in_window t) (filter (\<lambda>u. now - u < FAIL_WINDOW_MS) ws))"
    unfolding filter_filter using True m by (intro arg_cong [of _ _ length] filter_cong) (auto simp: in_window_def fails_match_def)
  also have "\<dots> \<le> length (filter (\<lambda>u. now - u < FAIL_WINDOW_MS) ws)" by (rule length_filter_le)
  also have "\<dots> < MAX_FAILS" using m few by (simp add: fails_match_def)
  finally show ?thesis using True by simp
qed (use le in simp)

lemma delete_checked_not_wrong: "fst (delete_checked d b st) \<noteq> Inl (Http wrong_password)"
proof -
  have drop: "r \<noteq> Inl (Http wrong_password)" if "delete_clickhouse d b keys = (r, sent)" for keys r sent
    using that
    by (auto simp: delete_clickhouse_def wrong_password_def badRequest_def split: jval.splits prod.splits sum.splits
        dest!: dropPartitions_status)
  have tz: "timezoneParam z v \<noteq> Inl wrong_password" for z v
    by (auto simp: timezoneParam_def wrong_password_def badRequest_def split: jval.splits if_splits)
  have keys: "delete_keys v \<noteq> Inl wrong_password" for v
    by (auto simp: delete_keys_def wrong_password_def badRequest_def split: jval.splits if_splits)
  show ?thesis
    using tz keys by (auto simp: delete_checked_def delete_redis_def wrong_password_def [symmetric] badRequest_def Let_def
        split: sum.splits prod.splits if_splits dest: drop) (auto simp: wrong_password_def)
qed

lemma storage_run_window:
  assumes "fails_match since0 (st_fails st) ws" and "sorted (since0 # map fst reqs)"
    and "\<And>t. length (filter (in_window t) ws) \<le> MAX_FAILS"
  shows "length (filter (in_window t) (ws @ wrong_times (storage_run d reqs st))) \<le> MAX_FAILS"
  using assms
proof (induction reqs arbitrary: st ws since0)
  case Nil
  then show ?case by (simp add: wrong_times_def)
next
  case (Cons rq reqs)
  obtain now b where rq: "rq = (now, b)" by (cases rq)
  obtain r sent st' where d: "storage_delete d now b st = (r, sent, st')" by (cases "storage_delete d now b st") auto
  let ?f = "filter (\<lambda>t. now - t < FAIL_WINDOW_MS) (st_fails st)"
  have le: "since0 \<le> now" and srt: "sorted (now # map fst reqs)" using Cons.prems(2) rq by auto
  have m: "fails_match now ?f ws" using Cons.prems(1) le by (rule fails_match_recent)
  have m': "fails_match now (st_fails st) ws" using Cons.prems(1) le by (auto simp: fails_match_def)
  have run: "wrong_times (storage_run d (rq # reqs) st)
      = (if r = Inl (Http wrong_password) then [now] else []) @ wrong_times (storage_run d reqs st')"
    by (simp add: rq d wrong_times_def)
  show ?case
  proof (cases "r = Inl (Http wrong_password)")
    case True
    then have st': "st_fails st' = ?f @ [now]" and few: "length ?f < MAX_FAILS"
      using d delete_checked_not_wrong [of d b "st\<lparr> st_fails := ?f \<rparr>"]
      by (auto simp: storage_delete_def Let_def wrong_password_def split: if_splits)
    have "\<And>t. length (filter (in_window t) (ws @ [now])) \<le> MAX_FAILS"
      using window_push [OF m' few Cons.prems(3)] .
    from Cons.IH [OF _ srt this, of st'] fails_match_push [OF m] st' run True show ?thesis by simp
  next
    case False
    then have "st_fails st' = ?f \<or> st' = st"
      using d by (auto simp: storage_delete_def Let_def split: if_splits dest: delete_checked_fails)
    then have "fails_match now (st_fails st') ws" using m m' by auto
    from Cons.IH [OF this srt Cons.prems(3)] run False show ?thesis by simp
  qed
qed

text \<open>
  (C2) Guessing is limited to five passwords a minute: in every sequence of delete requests, in the
  order of their times, and from any start with no recorded failures, every window of one minute
  holds at most five requests whose password was compared and found wrong. All further ones are
  refused without a comparison.
\<close>

theorem storage_guesses_limited:
  assumes "sorted (map fst reqs)" and "st_fails st = []"
  shows "length (filter (\<lambda>u. t \<le> u \<and> u < t + 60000) (wrong_times (storage_run d reqs st))) \<le> 5"
proof (cases reqs)
  case (Cons rq rest)
  have "sorted (fst rq # map fst reqs)" using assms(1) Cons by simp
  moreover have "fails_match (fst rq) (st_fails st) []" using assms(2) by (simp add: fails_match_def)
  ultimately have "length (filter (in_window t) ([] @ wrong_times (storage_run d reqs st))) \<le> MAX_FAILS"
    by (intro storage_run_window) auto
  then show ?thesis unfolding append_Nil MAX_FAILS_def in_window_def FAIL_WINDOW_MS_def .
qed (simp add: wrong_times_def)

theorem storage_guesses_limited_witness:
  "length (filter (\<lambda>u. 0 \<le> u \<and> u < 0 + 60000)
     (wrong_times (storage_run sample_store (map (\<lambda>i. (i, sample_delete ''guess'')) [0, 1, 2, 3, 4, 5, 6]) sample_state))) \<le> 5
   \<and> wrong_times (storage_run sample_store (map (\<lambda>i. (i, sample_delete ''guess'')) [0, 1, 2, 3, 4, 5, 6]) sample_state) = [0, 1, 2, 3, 4]"
proof
  show "length (filter (\<lambda>u. 0 \<le> u \<and> u < 0 + 60000)
     (wrong_times (storage_run sample_store (map (\<lambda>i. (i, sample_delete ''guess'')) [0, 1, 2, 3, 4, 5, 6]) sample_state))) \<le> 5"
    by (rule storage_guesses_limited) (simp_all add: sample_state_def)
  show "wrong_times (storage_run sample_store (map (\<lambda>i. (i, sample_delete ''guess'')) [0, 1, 2, 3, 4, 5, 6]) sample_state) = [0, 1, 2, 3, 4]"
    by code_simp
qed

section \<open>One store down does not hide the other\<close>

text \<open>
  The storage page: with a time zone the runtime knows and the browser still there, the request
  is always answered, whatever the two stores do; each store shows either its sizes or its error,
  never both and never neither; and what ClickHouse shows does not depend on Redis.
\<close>

theorem storage_get_independent:
  assumes "q ''tz'' = Some (QStr tz)" and "tz \<noteq> []" and "sd_zone d tz"
  shows "\<exists>res st'. storage_get d False now now' q st = (Inr res, st') \<and> sp_timezone res = tz
    \<and> (sp_clickhouse res = None \<longleftrightarrow> sp_clickhouseError res \<noteq> None)
    \<and> (sp_redis res = None \<longleftrightarrow> sp_redisError res \<noteq> None)
    \<and> (\<forall>redis ready st2. \<exists>res2 st2'. storage_get (d\<lparr> sd_redis := redis, sd_ready := ready \<rparr>) False now now' q st2 = (Inr res2, st2')
         \<and> sp_clickhouse res2 = sp_clickhouse res \<and> sp_clickhouseError res2 = sp_clickhouseError res)
    \<and> st_fails st' = st_fails st"
proof -
  have z: "timezoneParam (sd_zone d) (jval_of (q ''tz'')) = Inr tz" using assms by (simp add: timezoneParam_def jval_of_def)
  have "clickhouse_part (d\<lparr> sd_redis := redis, sd_ready := ready \<rparr>) False = clickhouse_part d False" for redis ready
    by (simp add: clickhouse_part_def split: sum.split)
  then show ?thesis using z by (auto simp: storage_get_def Let_def split: sum.split prod.split)
qed

theorem storage_get_independent_witness:
  "\<exists>res st'. storage_get (sample_store\<lparr> sd_ready := False \<rparr>) False 0 0 [''tz'' \<mapsto> QStr ''UTC''] sample_state = (Inr res, st')
    \<and> (sp_redis res = None \<longleftrightarrow> sp_redisError res \<noteq> None)"
  using storage_get_independent [of "[''tz'' \<mapsto> QStr ''UTC'']" "''UTC''" "sample_store\<lparr> sd_ready := False \<rparr>" 0 0 sample_state]
  by (auto simp: sample_store_def)

end
