(* ===== verification/Hub.thy ===== *)
theory Hub
  imports Live "HOL-Library.Sublist"
begin

text \<open>
  \<^verbatim>\<open>web/src/server/live/hub.ts\<close>: the single reader of the Redis stream. The state of the object is the
  record \<open>LiveHub\<close>; every method is a function on it. What Redis answers in one iteration of the
  read loop is the record \<open>redis_io\<close> (\<open>Inl\<close> is a rejected call), the snapshot parser
  (\<open>parseSnapshot\<close>, a \<open>JSON.parse\<close> with a check of the top-level fields) is the parameter \<open>parse\<close>,
  and the ticks handed to subscribers are returned as a list. A snapshot that passes
  \<open>parseSnapshot\<close> is taken to be well typed throughout.
\<close>

definition PAGE :: nat where "PAGE = 300"
definition GAP_INTERVALS :: num where "GAP_INTERVALS = 5 / 2"
definition RECENT_FLOWS :: nat where "RECENT_FLOWS = 30"

record Entry =
  e_id :: string
  e_json :: string

type_synonym parser = "string \<Rightarrow> string + LiveSnapshot"
type_synonym listener = nat

record LiveHub =
  capacity :: nat
  ring :: "CompactTick list"
  latest :: "LiveSnapshot option"
  recent :: "(num \<times> LiveFlow list) list"
  listeners :: "listener list"
  lastId :: "string option"
  resync :: bool
  pendingGap :: bool

definition new_LiveHub :: "nat \<Rightarrow> LiveHub" where
  "new_LiveHub cap = \<lparr> capacity = cap, ring = [], latest = None, recent = [], listeners = [],
     lastId = None, resync = False, pendingGap = False \<rparr>"

section \<open>Stream ids\<close>

text \<open>\<open>BigInt(text)\<close> on decimal digits (an empty text is 0); other texts throw.\<close>

definition bigInt :: "string \<Rightarrow> nat option" where
  "bigInt s = (if list_all is_digit s then Some (dec_val s) else None)"

fun bigInts :: "string list \<Rightarrow> nat list option" where
  "bigInts [] = Some []"
| "bigInts (x # xs) = (case bigInt x of None \<Rightarrow> None | Some n \<Rightarrow> map_option ((#) n) (bigInts xs))"

definition nth_or_0 :: "nat list \<Rightarrow> nat \<Rightarrow> nat" where
  "nth_or_0 xs i = (if i < length xs then xs ! i else 0)"

definition compareIds :: "string \<Rightarrow> string \<Rightarrow> int option" where
  "compareIds a b = (case (bigInts (split_char (CHR ''-'') a), bigInts (split_char (CHR ''-'') b)) of
       (Some as, Some bs) \<Rightarrow>
         let am = nth_or_0 as 0; as' = nth_or_0 as 1; bm = nth_or_0 bs 0; bs' = nth_or_0 bs 1 in
         Some (if am = bm then (if as' = bs' then 0 else if as' < bs' then -1 else 1)
               else if am < bm then -1 else 1)
     | _ \<Rightarrow> None)"

section \<open>Reading the buffers\<close>

text \<open>The loop \<open>while (i > 0 && xs[i - 1].ts > from) i--\<close>, for either buffer.\<close>

fun scan_back :: "('a \<Rightarrow> num) \<Rightarrow> num \<Rightarrow> 'a list \<Rightarrow> nat \<Rightarrow> nat" where
  "scan_back t from xs 0 = 0"
| "scan_back t from xs (Suc i) = (if t (xs ! i) > from then scan_back t from xs i else Suc i)"

definition since :: "('a \<Rightarrow> num) \<Rightarrow> num \<Rightarrow> 'a list \<Rightarrow> 'a list" where
  "since t seconds xs = (if xs = [] then []
     else let from = fsub (t (last xs)) (fmul seconds 1000) in
       drop (scan_back t from xs (length xs)) xs)"

definition series :: "num \<Rightarrow> LiveHub \<Rightarrow> CompactTick list" where
  "series seconds h = since ts seconds (ring h)"

definition recentFlows :: "num \<Rightarrow> LiveHub \<Rightarrow> (num \<times> LiveFlow list) list" where
  "recentFlows seconds h = since fst seconds (recent h)"

definition latestTs :: "LiveHub \<Rightarrow> num option" where
  "latestTs h = (if ring h = [] then None else Some (ts (last (ring h))))"

definition subscribe :: "listener \<Rightarrow> LiveHub \<Rightarrow> LiveHub" where
  "subscribe fn h = h\<lparr> listeners := (if fn \<in> set (listeners h) then listeners h else listeners h @ [fn]) \<rparr>"

definition unsubscribe :: "listener \<Rightarrow> LiveHub \<Rightarrow> LiveHub" where
  "unsubscribe fn h = h\<lparr> listeners := filter (\<lambda>g. g \<noteq> fn) (listeners h) \<rparr>"

section \<open>Ingesting an entry\<close>

text \<open>The condition of a gap before \<open>tick\<close>, apart from a pending one.\<close>

definition far_apart :: "CompactTick \<Rightarrow> CompactTick \<Rightarrow> bool" where
  "far_apart prev tick \<longleftrightarrow>
     fsub (ts tick) (ts prev) > fmul GAP_INTERVALS (max (intervalMs tick) (intervalMs prev))"

definition ingest :: "parser \<Rightarrow> bool \<Rightarrow> Entry \<Rightarrow> LiveHub \<Rightarrow> LiveHub \<times> (listener \<times> CompactTick) list" where
  "ingest parse notify entry h = (case parse (e_json entry) of
       Inl err \<Rightarrow> (h, [])
     | Inr snap \<Rightarrow>
         let tick = compactTick snap;
             prev = (if ring h = [] then None else Some (last (ring h)))
         in if (case prev of None \<Rightarrow> False | Some p \<Rightarrow> ts tick \<le> ts p) then (h, [])
            else
              let tick = (if pendingGap h \<or> (case prev of None \<Rightarrow> False | Some p \<Rightarrow> far_apart p tick)
                          then tick\<lparr> gap := True \<rparr> else tick);
                  rg = ring h @ [tick];
                  rc = recent h @ [(ts_ms snap, flows snap)]
              in (h\<lparr> pendingGap := False, latest := Some snap,
                     ring := (if length rg > capacity h then drop (length rg - capacity h) rg else rg),
                     recent := (if length rc > RECENT_FLOWS then tl rc else rc) \<rparr>,
                  if notify then map (\<lambda>fn. (fn, tick)) (listeners h) else []))"

section \<open>The read loop\<close>

record redis_io =
  io_ready :: "string + unit"
  io_xRevRange :: "string \<Rightarrow> nat \<Rightarrow> string + Entry list"
  io_exists :: "string + bool"
  io_xInfo :: "string + string option"
  io_xRead :: "string \<Rightarrow> string + Entry list"

text \<open>
  The paging loop of the backfill: \<open>entries\<close> newest first. It gives an error or the entries, and the
  requests it sent, each with its end of the range and its count.
\<close>

function backfill_pages ::
  "redis_io \<Rightarrow> nat \<Rightarrow> string \<Rightarrow> Entry list \<Rightarrow> (string + Entry list) \<times> (string \<times> nat) list" where
  "backfill_pages io cap end_id entries =
     (if length entries < cap then
        let count = min PAGE (cap - length entries) in
        (case io_xRevRange io end_id count of
           Inl err \<Rightarrow> (Inl err, [(end_id, count)])
         | Inr page \<Rightarrow>
             if length page < count then (Inr (entries @ page), [(end_id, count)])
             else let (r, reqs) = backfill_pages io cap (''('' @ e_id (last page)) (entries @ page)
               in (r, (end_id, count) # reqs))
      else (Inr entries, []))"
  by pat_completeness auto
termination
proof (relation "measure (\<lambda>(io, cap, end_id, entries). cap - length entries)", goal_cases)
  case (2 io cap end_id entries count page)
  then have "length page \<ge> 1" by (auto simp: PAGE_def min_def Suc_le_eq split: if_splits)
  with 2 show ?case by (simp del: One_nat_def length_greater_0_conv)
qed simp

declare backfill_pages.simps [simp del]

definition ingest_quiet :: "parser \<Rightarrow> Entry \<Rightarrow> LiveHub \<Rightarrow> LiveHub" where
  "ingest_quiet parse e h = fst (ingest parse False e h)"

definition backfill :: "parser \<Rightarrow> redis_io \<Rightarrow> LiveHub \<Rightarrow> (string + unit) \<times> LiveHub" where
  "backfill parse io h = (case fst (backfill_pages io (capacity h) ''+'' []) of
       Inl err \<Rightarrow> (Inl err, h)
     | Inr entries \<Rightarrow>
         let h = fold (ingest_quiet parse) (rev entries) (h\<lparr> ring := [], recent := [] \<rparr>) in
         (Inr (), h\<lparr> lastId := Some (case entries of [] \<Rightarrow> ''0-0'' | e # _ \<Rightarrow> e_id e) \<rparr>))"

definition checkTrimmed :: "redis_io \<Rightarrow> LiveHub \<Rightarrow> (string + unit) \<times> LiveHub" where
  "checkTrimmed io h = (case io_exists io of
       Inl err \<Rightarrow> (Inl err, h)
     | Inr ex \<Rightarrow> if \<not> ex then (Inr (), h)
         else (case io_xInfo io of
             Inl err \<Rightarrow> (Inl err, h)
           | Inr first \<Rightarrow> (case (first, lastId h) of
               (Some f, Some l) \<Rightarrow>
                 if f = [] \<or> l = [] then (Inr (), h)
                 else (case compareIds f l of
                     None \<Rightarrow> (Inl ''Cannot convert to a BigInt'', h)
                   | Some c \<Rightarrow> (Inr (), if c > 0 then h\<lparr> pendingGap := True \<rparr> else h))
             | _ \<Rightarrow> (Inr (), h))))"

definition read_entry ::
  "parser \<Rightarrow> Entry \<Rightarrow> LiveHub \<times> (listener \<times> CompactTick) list \<Rightarrow> LiveHub \<times> (listener \<times> CompactTick) list" where
  "read_entry parse e s = (case s of (h, out) \<Rightarrow>
     case ingest parse True e (h\<lparr> lastId := Some (e_id e) \<rparr>) of (h', sent) \<Rightarrow> (h', out @ sent))"

definition readOnce :: "parser \<Rightarrow> redis_io \<Rightarrow> LiveHub \<Rightarrow> (string + (listener \<times> CompactTick) list) \<times> LiveHub" where
  "readOnce parse io h = (case io_xRead io (the (lastId h)) of
       Inl err \<Rightarrow> (Inl err, h)
     | Inr messages \<Rightarrow> (case fold (read_entry parse) messages (h, []) of (h', out) \<Rightarrow> (Inr out, h')))"

text \<open>One iteration of the loop in \<open>#run\<close>; the flag is \<open>failing\<close>. A failure keeps what was changed.\<close>

definition run_failed :: "LiveHub \<Rightarrow> LiveHub \<times> bool \<times> (listener \<times> CompactTick) list" where
  "run_failed h = (h\<lparr> resync := True \<rparr>, True, [])"

definition run_iter :: "parser \<Rightarrow> redis_io \<Rightarrow> LiveHub \<Rightarrow> LiveHub \<times> bool \<times> (listener \<times> CompactTick) list" where
  "run_iter parse io h = (case io_ready io of
       Inl err \<Rightarrow> run_failed h
     | Inr _ \<Rightarrow>
         let (r, h) = (if lastId h = None then backfill parse io h
                       else if resync h then checkTrimmed io h else (Inr (), h))
         in case r of
             Inl err \<Rightarrow> run_failed h
           | Inr _ \<Rightarrow> (case readOnce parse io (h\<lparr> resync := False \<rparr>) of
               (Inl err, h) \<Rightarrow> run_failed h
             | (Inr out, h) \<Rightarrow> (h, False, out)))"

text \<open>The states the server can bring the hub to: iterations of the loop, with any answers of Redis,
  interleaved with clients that come and go.\<close>

inductive hub_reach :: "parser \<Rightarrow> nat \<Rightarrow> LiveHub \<Rightarrow> bool" for parse cap where
  start: "hub_reach parse cap (new_LiveHub cap)"
| iter: "hub_reach parse cap h \<Longrightarrow> hub_reach parse cap (fst (run_iter parse io h))"
| join: "hub_reach parse cap h \<Longrightarrow> hub_reach parse cap (subscribe fn h)"
| leave: "hub_reach parse cap h \<Longrightarrow> hub_reach parse cap (unsubscribe fn h)"

section \<open>The invariant\<close>

definition no_silent_gap :: "CompactTick list \<Rightarrow> bool" where
  "no_silent_gap rg \<longleftrightarrow> (\<forall>i. Suc i < length rg \<longrightarrow> far_apart (rg ! i) (rg ! Suc i) \<longrightarrow> gap (rg ! Suc i))"

text \<open>
  The two buffers were filled by the same \<open>n\<close> ticks, so that each is the last part of them that it
  has room for; the ring has strictly increasing times and no unmarked gap; the latest snapshot is
  the newest entry of both.
\<close>

definition buffers_ok :: "LiveHub \<Rightarrow> bool" where
  "buffers_ok h \<longleftrightarrow> sorted_wrt (<) (map ts (ring h)) \<and> no_silent_gap (ring h)
     \<and> sorted_wrt (<) (map fst (recent h))
     \<and> (\<exists>n. length (ring h) = min (capacity h) n \<and> length (recent h) = min RECENT_FLOWS n)
     \<and> (suffix (map ts (ring h)) (map fst (recent h)) \<or> suffix (map fst (recent h)) (map ts (ring h)))
     \<and> (ring h \<noteq> [] \<longrightarrow> (\<exists>s. latest h = Some s \<and> ts (last (ring h)) = ts_ms s
           \<and> last (recent h) = (ts_ms s, flows s)))
     \<and> distinct (listeners h)"

definition hub_inv :: "nat \<Rightarrow> LiveHub \<Rightarrow> bool" where
  "hub_inv cap h \<longleftrightarrow> capacity h = cap \<and> buffers_ok h"

lemma no_silent_gap_drop: "no_silent_gap rg \<Longrightarrow> no_silent_gap (drop n rg)"
  by (auto simp: no_silent_gap_def)

lemma no_silent_gap_snoc:
  assumes "no_silent_gap rg" and "rg \<noteq> [] \<Longrightarrow> far_apart (last rg) t \<Longrightarrow> gap t"
  shows "no_silent_gap (rg @ [t])"
  unfolding no_silent_gap_def
proof (intro allI impI)
  fix i assume i: "Suc i < length (rg @ [t])" and far: "far_apart ((rg @ [t]) ! i) ((rg @ [t]) ! Suc i)"
  show "gap ((rg @ [t]) ! Suc i)"
  proof (cases "Suc i < length rg")
    case True
    with assms(1) far show ?thesis by (simp add: no_silent_gap_def nth_append)
  next
    case False
    with i have "i = length rg - 1" "rg \<noteq> []" by auto
    with far assms(2) show ?thesis by (simp add: nth_append last_conv_nth)
  qed
qed

lemma sorted_snoc_last:
  fixes xs :: "'a::linorder list"
  assumes "sorted_wrt (<) xs" and "xs \<noteq> [] \<Longrightarrow> last xs < x"
  shows "sorted_wrt (<) (xs @ [x])"
proof (cases xs rule: rev_cases)
  case (snoc ys y)
  with assms show ?thesis by (auto simp: sorted_wrt_append intro: less_trans)
qed simp

lemma suffix_drops: "suffix xs zs \<Longrightarrow> suffix (drop m xs) (drop n zs) \<or> suffix (drop n zs) (drop m xs)"
  by (meson suffix_drop suffix_order.trans suffix_same_cases)

text \<open>What one accepted entry does to the buffers.\<close>

definition push :: "nat \<Rightarrow> 'a \<Rightarrow> 'a list \<Rightarrow> 'a list" where
  "push n x xs = drop (Suc (length xs) - n) (xs @ [x])"

lemma ingest_cases:
  assumes "length (recent h) \<le> RECENT_FLOWS"
  obtains (skip) "ingest parse notify e h = (h, [])"
  | (push) snap tick where "parse (e_json e) = Inr snap"
      "tick = (compactTick snap)\<lparr> gap := pendingGap h \<or> (ring h \<noteq> [] \<and> far_apart (last (ring h)) (compactTick snap)) \<rparr>"
      "ring h \<noteq> [] \<Longrightarrow> ts (last (ring h)) < ts tick"
      "ingest parse notify e h = (h\<lparr> pendingGap := False, latest := Some snap, ring := push (capacity h) tick (ring h),
         recent := push RECENT_FLOWS (ts_ms snap, flows snap) (recent h) \<rparr>,
         if notify then map (\<lambda>fn. (fn, tick)) (listeners h) else [])"
proof (cases "parse (e_json e)")
  case (Inl err)
  then show thesis by (intro skip) (simp add: ingest_def)
next
  case (Inr snap)
  define tick where "tick = (compactTick snap)\<lparr> gap := pendingGap h \<or>
    (ring h \<noteq> [] \<and> far_apart (last (ring h)) (compactTick snap)) \<rparr>"
  have [simp]: "(compactTick snap)\<lparr> gap := False \<rparr> = compactTick snap"
    by (simp add: compactTick_def Let_def)
  show thesis
  proof (cases "ring h \<noteq> [] \<and> ts (compactTick snap) \<le> ts (last (ring h))")
    case True
    then show thesis by (intro skip) (simp add: ingest_def Inr Let_def)
  next
    case False
    have rc: "(if length rc > RECENT_FLOWS then tl rc else rc) = push RECENT_FLOWS x (recent h)"
      if "rc = recent h @ [x]" for rc x
    proof (cases "length (recent h) = RECENT_FLOWS")
      case True
      then have "Suc (length (recent h)) - RECENT_FLOWS = Suc 0" by simp
      then show ?thesis using that True unfolding push_def by (simp add: drop_Suc del: drop_append)
    next
      case False
      with assms have "length (recent h) < RECENT_FLOWS" by simp
      then show ?thesis using that by (simp add: push_def)
    qed
    have rg: "(if length rg > capacity h then drop (length rg - capacity h) rg else rg) = push (capacity h) x (ring h)"
      if "rg = ring h @ [x]" for rg x
      using that by (auto simp: push_def)
    show thesis
    proof (rule push [OF Inr tick_def])
      show "ts (last (ring h)) < ts tick" if "ring h \<noteq> []" using False that by (simp add: tick_def)
      show "ingest parse notify e h = (h\<lparr> pendingGap := False, latest := Some snap,
         ring := push (capacity h) tick (ring h), recent := push RECENT_FLOWS (ts_ms snap, flows snap) (recent h) \<rparr>,
         if notify then map (\<lambda>fn. (fn, tick)) (listeners h) else [])"
        using False unfolding ingest_def Inr sum.case Let_def rc [OF refl] rg [OF refl]
        by (auto simp: tick_def)
    qed
  qed
qed

lemma length_push: "0 < n \<Longrightarrow> length xs = min n m \<Longrightarrow> length (push n x xs) = min n (Suc m)"
  by (auto simp: push_def)

lemma last_push [simp]: "0 < n \<Longrightarrow> last (push n x xs) = x"
  by (simp add: push_def)

lemma map_push: "map f (push n x xs) = push n (f x) (map f xs)"
  by (simp add: push_def drop_map [symmetric] del: drop_append)

lemma sorted_push:
  fixes x :: "'a::linorder"
  shows "sorted_wrt (<) xs \<Longrightarrow> (xs \<noteq> [] \<Longrightarrow> last xs < x) \<Longrightarrow> sorted_wrt (<) (push n x xs)"
  unfolding push_def by (intro sorted_wrt_drop sorted_snoc_last)

lemma suffix_push:
  assumes "suffix xs ys \<or> suffix ys xs"
  shows "suffix (push m x xs) (push n x ys) \<or> suffix (push n x ys) (push m x xs)"
  using assms unfolding push_def by (metis same_suffix_suffix suffix_drops)

lemma ts_gap [simp]: "ts (t\<lparr> gap := b \<rparr>) = ts t" "gap (t\<lparr> gap := b \<rparr>) = b"
  by simp_all

lemma far_apart_gap [simp]: "far_apart p (t\<lparr> gap := b \<rparr>) = far_apart p t"
  by (simp add: far_apart_def)

lemma ts_compactTick [simp]: "ts (compactTick s) = ts_ms s"
  by (simp add: compactTick_def Let_def)

lemma ring_nonempty:
  assumes "buffers_ok h" "0 < capacity h" "recent h \<noteq> []"
  shows "ring h \<noteq> []"
proof -
  obtain n where n: "length (ring h) = min (capacity h) n" "length (recent h) = min RECENT_FLOWS n"
    using assms(1) by (auto simp: buffers_ok_def)
  have "n \<noteq> 0" using n(2) assms(3) by (cases n) auto
  then have "length (ring h) \<noteq> 0" using n(1) assms(2) by simp
  then show ?thesis by auto
qed

lemma buffers_empty: "ring h = [] \<Longrightarrow> recent h = [] \<Longrightarrow> distinct (listeners h) \<Longrightarrow> buffers_ok h"
  unfolding buffers_ok_def by (auto simp: no_silent_gap_def intro: exI [of _ 0])

lemma ingest_ok:
  assumes inv: "buffers_ok h" and cap: "0 < capacity h"
  shows "buffers_ok (fst (ingest parse notify e h)) \<and> capacity (fst (ingest parse notify e h)) = capacity h"
proof -
  have len: "length (recent h) \<le> RECENT_FLOWS" using inv by (auto simp: buffers_ok_def)
  show ?thesis
  proof (cases rule: ingest_cases [OF len, of parse notify e, case_names skip push])
    case skip
    with inv show ?thesis by simp
  next
    case (push snap tick)
    let ?rg = "push (capacity h) tick (ring h)" and ?x = "(ts_ms snap, flows snap)"
    obtain n where n: "length (ring h) = min (capacity h) n" "length (recent h) = min RECENT_FLOWS n"
      using inv by (auto simp: buffers_ok_def)
    have t: "ts tick = ts_ms snap" by (simp add: push(2))
    have "no_silent_gap ?rg" unfolding push_def
      using inv push(2) by (intro no_silent_gap_drop no_silent_gap_snoc) (auto simp: buffers_ok_def)
    moreover have "sorted_wrt (<) (map ts ?rg)" unfolding map_push
      using inv push(3) by (intro sorted_push) (auto simp: buffers_ok_def last_map)
    moreover have "length ?rg = min (capacity h) (Suc n)" "length (push RECENT_FLOWS ?x (recent h)) = min RECENT_FLOWS (Suc n)"
      using n cap by (simp_all add: length_push RECENT_FLOWS_def)
    moreover have "suffix (map ts ?rg) (map fst (push RECENT_FLOWS ?x (recent h)))
        \<or> suffix (map fst (push RECENT_FLOWS ?x (recent h))) (map ts ?rg)"
      unfolding map_push t fst_conv using inv by (intro suffix_push) (simp add: buffers_ok_def)
    moreover have "sorted_wrt (<) (map fst (push RECENT_FLOWS ?x (recent h)))" unfolding map_push fst_conv
    proof (rule sorted_push)
      show "last (map fst (recent h)) < ts_ms snap" if "map fst (recent h) \<noteq> []"
      proof -
        have "ring h \<noteq> []" using ring_nonempty [OF inv cap] that by simp
        with that inv push(3) t show ?thesis by (auto simp: buffers_ok_def last_map)
      qed
    qed (use inv in \<open>simp add: buffers_ok_def\<close>)
    ultimately show ?thesis
      using inv cap t unfolding push(4) by (auto simp: buffers_ok_def RECENT_FLOWS_def)
  qed
qed

section \<open>Reachable states\<close>

lemma buffers_ok_flags [simp]:
  "buffers_ok (h\<lparr> lastId := l \<rparr>) = buffers_ok h" "buffers_ok (h\<lparr> resync := b \<rparr>) = buffers_ok h"
  "buffers_ok (h\<lparr> pendingGap := b \<rparr>) = buffers_ok h"
  by (simp_all add: buffers_ok_def)

interpretation quiet: handler "ingest_quiet parse" "\<lambda>h. buffers_ok h \<and> capacity h = cap \<and> 0 < cap" for parse cap
  by unfold_locales (auto simp: ingest_quiet_def ingest_ok)

interpretation reader: handler "read_entry parse" "\<lambda>(h, out). buffers_ok h \<and> capacity h = cap \<and> 0 < cap" for parse cap
proof
  fix s :: "LiveHub \<times> (listener \<times> CompactTick) list" and e
  assume inv: "case s of (h, out) \<Rightarrow> buffers_ok h \<and> capacity h = cap \<and> 0 < cap"
  obtain h out where s: "s = (h, out)" by fastforce
  have "buffers_ok (fst (ingest parse True e (h\<lparr> lastId := Some (e_id e) \<rparr>)))
      \<and> capacity (fst (ingest parse True e (h\<lparr> lastId := Some (e_id e) \<rparr>))) = capacity h"
    using inv s ingest_ok [of "h\<lparr> lastId := Some (e_id e) \<rparr>" parse True e] by simp
  then show "case read_entry parse e s of (h, out) \<Rightarrow> buffers_ok h \<and> capacity h = cap \<and> 0 < cap"
    using inv by (auto simp: s read_entry_def split: prod.splits)
qed

lemma backfill_ok:
  assumes "hub_inv cap h" and "0 < cap"
  shows "hub_inv cap (snd (backfill parse io h))"
proof (cases "fst (backfill_pages io (capacity h) ''+'' [])")
  case (Inr entries)
  have "buffers_ok (h\<lparr> ring := [], recent := [] \<rparr>)"
    using assms by (intro buffers_empty) (auto simp: hub_inv_def buffers_ok_def)
  then have "buffers_ok (h\<lparr> ring := [], recent := [] \<rparr>) \<and> capacity (h\<lparr> ring := [], recent := [] \<rparr>) = cap \<and> 0 < cap"
    using assms by (simp add: hub_inv_def)
  from quiet.run_keeps [OF this, of parse "rev entries"] show ?thesis
    by (simp add: backfill_def Inr Let_def hub_inv_def)
qed (simp add: backfill_def assms)

lemma checkTrimmed_ok: "hub_inv cap h \<Longrightarrow> hub_inv cap (snd (checkTrimmed io h))"
  by (auto simp: checkTrimmed_def hub_inv_def split: sum.splits option.splits if_splits)

lemma readOnce_ok:
  assumes "hub_inv cap h" and "0 < cap"
  shows "hub_inv cap (snd (readOnce parse io h))"
proof (cases "io_xRead io (the (lastId h))")
  case (Inr ms)
  have "case (h, []) of (h, out) \<Rightarrow> buffers_ok h \<and> capacity h = cap \<and> 0 < cap"
    using assms by (simp add: hub_inv_def)
  from reader.run_keeps [OF this, of parse ms] show ?thesis
    by (auto simp: readOnce_def Inr hub_inv_def split: prod.splits)
qed (simp add: readOnce_def assms)

lemma hub_inv_resync [simp]: "hub_inv cap (h\<lparr> resync := b \<rparr>) = hub_inv cap h"
  by (simp add: hub_inv_def)

lemma run_iter_ok:
  assumes "hub_inv cap h" and "0 < cap"
  shows "hub_inv cap (fst (run_iter parse io h))"
proof -
  define p where "p = (if lastId h = None then backfill parse io h
    else if resync h then checkTrimmed io h else (Inr (), h))"
  obtain r h1 where p1: "p = (r, h1)" by fastforce
  have "hub_inv cap h1"
    using backfill_ok [OF assms, of parse io] checkTrimmed_ok [OF assms(1), of io] p1 assms(1)
    by (auto simp: p_def split: if_splits)
  then have "hub_inv cap (snd (readOnce parse io (h1\<lparr> resync := False \<rparr>)))"
    by (intro readOnce_ok assms(2)) simp
  with \<open>hub_inv cap h1\<close> show ?thesis
    using assms(1) p1 unfolding run_iter_def p_def [symmetric]
    by (auto simp: run_failed_def split: sum.splits prod.splits)
qed

lemma hub_reach_hub_inv:
  assumes "hub_reach parse cap h" and "0 < cap"
  shows "hub_inv cap h"
  using assms
proof (induction rule: hub_reach.induct)
  case start
  show ?case by (simp add: hub_inv_def new_LiveHub_def buffers_empty)
next
  case (iter h io)
  then show ?case by (simp add: run_iter_ok)
next
  case (join h fn)
  then have "hub_inv cap h" by blast
  then show ?case by (simp add: hub_inv_def buffers_ok_def subscribe_def) blast
next
  case (leave h fn)
  then have "hub_inv cap h" by blast
  then show ?case by (simp add: hub_inv_def buffers_ok_def unsubscribe_def) blast
qed

text \<open>
  (C1) In every reachable state of the hub, for any answers and failures of Redis, any stream content
  and any clients: the ring never holds more ticks than its capacity, its times strictly increase,
  two neighbours that lie more than 2.5 intervals apart are marked as a gap, the flow buffer holds
  at most 30 ticks, the two buffers are the last parts of one sequence of ticks, and the latest
  snapshot is the newest entry of both.
\<close>

theorem hub_reach_inv:
  assumes "hub_reach parse cap h" and "0 < cap"
  shows "capacity h = cap \<and> length (ring h) \<le> cap \<and> buffers_ok h"
  using hub_reach_hub_inv [OF assms] by (auto simp: hub_inv_def buffers_ok_def)

definition idle_snapshot :: "num \<Rightarrow> LiveSnapshot" where
  "idle_snapshot t = \<lparr> ts_ms = t, interval_ms = 1000, drops = 0, processes = [], flows = [] \<rparr>"

definition sample_parse :: parser where
  "sample_parse j = (if j = ''a'' then Inr (idle_snapshot 5000)
     else if j = ''b'' then Inr (idle_snapshot 9000) else Inl ''bad'')"

definition sample_io :: redis_io where
  "sample_io = \<lparr> io_ready = Inr (), io_xRevRange = (\<lambda>e c. Inr [\<lparr> e_id = ''5-0'', e_json = ''a'' \<rparr>]),
     io_exists = Inr True, io_xInfo = Inr None,
     io_xRead = (\<lambda>i. Inr [\<lparr> e_id = ''6-0'', e_json = ''x'' \<rparr>, \<lparr> e_id = ''9-0'', e_json = ''b'' \<rparr>]) \<rparr>"

definition sample_hub :: LiveHub where
  "sample_hub = fst (run_iter sample_parse sample_io (new_LiveHub 900))"

theorem hub_reach_inv_witness:
  "map ts (ring sample_hub) = [5000, 9000] \<and> map gap (ring sample_hub) = [False, True]
   \<and> buffers_ok sample_hub"
proof -
  have "map ts (ring sample_hub) = [5000, 9000] \<and> map gap (ring sample_hub) = [False, True]" by code_simp
  moreover have "hub_reach sample_parse 900 sample_hub"
    unfolding sample_hub_def by (intro hub_reach.intros)
  ultimately show ?thesis using hub_reach_inv [of sample_parse 900 sample_hub] by simp
qed

section \<open>The paging loop ends\<close>

lemma pages_step:
  assumes "0 < k" and "k \<le> (n :: nat) \<or> n \<le> j" and "0 < n" and "min k n \<le> j"
  shows "1 + (n - j + (k - 1)) div k \<le> (n + (k - 1)) div k"
proof (cases "n \<le> j")
  case True
  have "1 \<le> (n + (k - 1)) div k" using assms(1,3) by (simp add: Suc_le_eq div_greater_zero_iff)
  with True assms(1) show ?thesis by simp
next
  case False
  with assms have "k \<le> n" "k \<le> j" by auto
  then have "1 + (n - j + (k - 1)) div k = (n - j + (k - 1) + k) div k" using assms(1) by (subst div_add_self2) (simp_all del: One_nat_def)
  also have "\<dots> \<le> (n + (k - 1)) div k" using \<open>k \<le> j\<close> False by (intro div_le_mono) simp
  finally show ?thesis .
qed

lemma backfill_pages_step:
  assumes "length entries < cap"
  shows "backfill_pages io cap end_id entries = (let count = min 300 (cap - length entries) in
    case io_xRevRange io end_id count of
      Inl err \<Rightarrow> (Inl err, [(end_id, count)])
    | Inr page \<Rightarrow> if length page < count then (Inr (entries @ page), [(end_id, count)])
        else let (r, reqs) = backfill_pages io cap (''('' @ e_id (last page)) (entries @ page)
          in (r, (end_id, count) # reqs))"
  using assms by (subst backfill_pages.simps) (simp add: PAGE_def)

text \<open>The page a request was answered with.\<close>

definition page_of :: "redis_io \<Rightarrow> string \<times> nat \<Rightarrow> Entry list" where
  "page_of io q = (case io_xRevRange io (fst q) (snd q) of Inl _ \<Rightarrow> [] | Inr page \<Rightarrow> page)"

lemma backfill_pages_ends:
  assumes "backfill_pages io cap end_id entries = (r, reqs)"
  shows "length reqs \<le> (cap - length entries + 299) div 300
    \<and> list_all (\<lambda>(e, n). 0 < n \<and> n \<le> 300) reqs
    \<and> (case r of
        Inl err \<Rightarrow> reqs \<noteq> [] \<and> io_xRevRange io (fst (last reqs)) (snd (last reqs)) = Inl err
      | Inr es \<Rightarrow> es = entries @ concat (map (page_of io) reqs)
          \<and> (length es < cap \<longrightarrow> length (page_of io (last reqs)) < snd (last reqs)))"
  using assms
proof (induction io cap end_id entries arbitrary: r reqs rule: backfill_pages.induct)
  case (1 io cap end_id entries)
  let ?n = "cap - length entries" and ?count = "min 300 (cap - length entries)"
  show ?case
  proof (cases "length entries < cap")
    case False
    then show ?thesis using "1.prems" by (auto simp: backfill_pages.simps [of io cap])
  next
    case True
    note step = "1.prems" [unfolded backfill_pages_step [OF True] Let_def]
    have one: "1 \<le> (?n + 299) div 300" using True by (simp add: Suc_le_eq div_greater_zero_iff)
    show ?thesis
    proof (cases "io_xRevRange io end_id ?count")
      case (Inl e)
      then have "r = Inl e" "reqs = [(end_id, ?count)]" using step by simp_all
      with Inl True one show ?thesis by simp
    next
      case (Inr page)
      show ?thesis
      proof (cases "length page < ?count")
        case short: True
        with step True Inr one show ?thesis by (auto simp: page_of_def)
      next
        case False
        obtain r' reqs' where rec: "backfill_pages io cap (''('' @ e_id (last page)) (entries @ page) = (r', reqs')"
          by fastforce
        have out: "r = r'" "reqs = (end_id, ?count) # reqs'" using step Inr False rec by auto
        have "length reqs' \<le> (cap - (length entries + length page) + 299) div 300"
          using "1.IH" [OF True refl Inr [folded PAGE_def] _ rec] False by (simp add: PAGE_def)
        moreover have "1 + (?n - length page + (300 - 1)) div 300 \<le> (?n + (300 - 1)) div 300"
          using False True by (intro pages_step) auto
        ultimately have len: "length reqs \<le> (?n + 299) div 300" by (simp add: out)
        have full: "\<not> length page < ?count" "page \<noteq> []" using False True by auto
        have "reqs' = [] \<Longrightarrow> cap \<le> length (entries @ page)"
          using rec by (subst (asm) backfill_pages.simps) (auto simp: Let_def split: sum.splits if_splits prod.splits)
        then show ?thesis
          using "1.IH" [OF True refl Inr [folded PAGE_def] _ rec] False len True Inr
          by (auto simp: out page_of_def PAGE_def split: sum.splits)
      qed
    qed
  qed
qed

text \<open>
  (C18) The backfill ends whatever Redis answers, even with full pages for ever: the loop that reads
  the stream back to front sends at most one request per 300 ticks of the buffer, each for at least
  one and at most 300 entries. It then ends with the error of its last request, or with exactly the
  entries of the pages it was answered, in their order, and it stops below the capacity only after a
  page that was shorter than asked for.
\<close>

theorem backfill_terminates:
  "case backfill_pages io cap ''+'' [] of (r, reqs) \<Rightarrow>
     length reqs \<le> (cap + 299) div 300
     \<and> list_all (\<lambda>(e, n). 0 < n \<and> n \<le> 300) reqs
     \<and> (case r of
         Inl err \<Rightarrow> reqs \<noteq> [] \<and> io_xRevRange io (fst (last reqs)) (snd (last reqs)) = Inl err
       | Inr es \<Rightarrow> es = concat (map (page_of io) reqs)
           \<and> (length es < cap \<longrightarrow> length (page_of io (last reqs)) < snd (last reqs)))"
  using backfill_pages_ends [of io cap "''+''" "[]"] by (auto split: prod.split sum.splits)

text \<open>A stream that answers every request with a full page: three requests fill 700 ticks.\<close>

definition endless_io :: redis_io where
  "endless_io = sample_io\<lparr> io_xRevRange := (\<lambda>e n. Inr (replicate n \<lparr> e_id = ''7-0'', e_json = e \<rparr>)) \<rparr>"

theorem backfill_terminates_witness:
  "\<exists>es reqs. backfill_pages endless_io 700 ''+'' [] = (Inr es, reqs) \<and> length reqs \<le> 3
     \<and> es = concat (map (page_of endless_io) reqs) \<and> 700 \<le> length es"
proof -
  obtain r reqs where b: "backfill_pages endless_io 700 ''+'' [] = (r, reqs)" by fastforce
  note t = backfill_terminates [where io = endless_io and cap = 700, unfolded b prod.case]
  have "length (page_of endless_io q) = snd q" for q by (simp add: page_of_def endless_io_def)
  with t b show ?thesis by (cases r) (auto simp: endless_io_def not_less)
qed

section \<open>Reading the last seconds\<close>

lemma scan_back_le: "scan_back t from xs i \<le> i"
  by (induction i) auto

lemma scan_back_filter:
  assumes "sorted_wrt (<) (map t (take i xs))" and "i \<le> length xs"
  shows "drop (scan_back t from xs i) (take i xs) = filter (\<lambda>x. from < t x) (take i xs)"
  using assms
proof (induction i)
  case (Suc i)
  have snoc: "take (Suc i) xs = take i xs @ [xs ! i]" using Suc.prems(2) by (simp add: take_Suc_conv_app_nth)
  have srt: "sorted_wrt (<) (map t (take i xs))" and lt: "\<And>x. x \<in> set (take i xs) \<Longrightarrow> t x < t (xs ! i)"
    using Suc.prems(1) unfolding snoc by (auto simp: sorted_wrt_append)
  show ?case
  proof (cases "from < t (xs ! i)")
    case True
    then show ?thesis
      using Suc.IH [OF srt] Suc.prems(2) scan_back_le [of t "from" xs i] by (simp add: snoc)
  next
    case False
    then have "filter (\<lambda>x. from < t x) (take (Suc i) xs) = []"
      unfolding snoc by (auto simp: filter_empty_conv dest!: lt)
    with False show ?thesis by (simp add: Suc.prems(2))
  qed
qed simp

lemma since_filter:
  assumes "sorted_wrt (<) (map t xs)"
  shows "since t seconds xs = filter (\<lambda>x. fsub (t (last xs)) (fmul seconds 1000) < t x) xs"
  using scan_back_filter [of t "length xs" xs] assms by (simp add: since_def Let_def)

text \<open>
  Reading the last seconds: in a reachable state, \<open>series\<close> and \<open>recentFlows\<close> return exactly the
  buffered ticks whose time is later than the newest one's minus the window, oldest first; the
  backwards scan misses none and stops at none.
\<close>

theorem series_window:
  assumes "hub_reach parse cap h" and "0 < cap"
  shows "series seconds h
      = filter (\<lambda>t. fsub (ts (last (ring h))) (fmul seconds 1000) < ts t) (ring h)
    \<and> recentFlows seconds h
      = filter (\<lambda>r. fsub (fst (last (recent h))) (fmul seconds 1000) < fst r) (recent h)"
  using hub_reach_hub_inv [OF assms]
  by (simp add: series_def recentFlows_def since_filter hub_inv_def buffers_ok_def)

theorem series_window_witness: "map ts (series 4 sample_hub) = [9000] \<and> map ts (series 5 sample_hub) = [5000, 9000]"
proof -
  have ring: "map ts (ring sample_hub) = [5000, 9000]" by code_simp
  then have "ts (last (ring sample_hub)) = 9000" by (cases "ring sample_hub" rule: rev_cases) auto
  moreover have "fsub 9000 (fmul 4 1000) = 5000" "fsub 9000 (fmul 5 1000) = 4000" by code_simp+
  moreover have "hub_reach sample_parse 900 sample_hub"
    unfolding sample_hub_def by (intro hub_reach.intros)
  ultimately have "series 4 sample_hub = filter (\<lambda>t. 5000 < ts t) (ring sample_hub)"
    "series 5 sample_hub = filter (\<lambda>t. 4000 < ts t) (ring sample_hub)"
    using series_window [of sample_parse 900 sample_hub] by simp_all
  moreover have "map ts (filter (\<lambda>t. x < ts t) (ring sample_hub)) = filter ((<) x) [5000, 9000]" for x
    unfolding ring [symmetric] by (simp add: filter_map comp_def)
  ultimately show ?thesis by simp
qed

section \<open>What subscribers receive\<close>

definition keep :: "nat \<Rightarrow> 'a list \<Rightarrow> 'a list" where
  "keep n xs = drop (length xs - n) xs"

lemma push_keep: "0 < n \<Longrightarrow> push n x (keep n xs) = keep n (xs @ [x])"
proof (cases "length xs \<le> n")
  case False
  assume "0 < n"
  have "Suc (length (keep n xs)) - n = 1" using False by (simp add: keep_def)
  moreover have "Suc (length xs) - n = Suc (length xs - n)" using False by simp
  ultimately show ?thesis
    unfolding push_def keep_def using False \<open>0 < n\<close> by (simp add: drop_Suc tl_drop tl_append split: list.splits)
qed (simp add: push_def keep_def)

lemma last_keep: "0 < n \<Longrightarrow> last (keep n xs) = last xs"
  by (cases xs rule: rev_cases) (auto simp: keep_def last_drop)

lemma keep_Nil_iff: "0 < n \<Longrightarrow> keep n xs = [] \<longleftrightarrow> xs = []"
  by (cases xs) (auto simp: keep_def)

lemma keep_short: "length xs \<le> n \<Longrightarrow> keep n xs = xs"
  by (simp add: keep_def)

text \<open>Each tick to each listener, tick by tick.\<close>

definition deliveries :: "listener list \<Rightarrow> CompactTick list \<Rightarrow> (listener \<times> CompactTick) list" where
  "deliveries ls tk = concat (map (\<lambda>t. map (\<lambda>fn. (fn, t)) ls) tk)"

definition delivered :: "LiveHub \<Rightarrow> LiveHub \<Rightarrow> (listener \<times> CompactTick) list \<Rightarrow> bool" where
  "delivered h0 h out \<longleftrightarrow> (\<exists>tk. out = deliveries (listeners h0) tk
     \<and> ring h = keep (capacity h0) (ring h0 @ tk) \<and> sorted_wrt (<) (map ts (ring h0 @ tk)))
   \<and> listeners h = listeners h0 \<and> capacity h = capacity h0 \<and> length (recent h) \<le> RECENT_FLOWS"

lemma delivered_read:
  assumes "delivered h0 h out" and "0 < capacity h0" and "read_entry parse e (h, out) = (h', out')"
  shows "delivered h0 h' out'"
proof -
  let ?h = "h\<lparr> lastId := Some (e_id e) \<rparr>"
  obtain tk where tk: "out = deliveries (listeners h0) tk" "ring h = keep (capacity h0) (ring h0 @ tk)"
    "sorted_wrt (<) (map ts (ring h0 @ tk))"
    and h: "listeners h = listeners h0" "capacity h = capacity h0" "length (recent h) \<le> RECENT_FLOWS"
    using assms(1) by (auto simp: delivered_def)
  have "length (recent ?h) \<le> RECENT_FLOWS" using h(3) by simp
  then show ?thesis
  proof (cases rule: ingest_cases [of ?h parse True e, case_names skip push])
    case skip
    then show ?thesis using assms(1,3) by (auto simp: read_entry_def delivered_def)
  next
    case (push snap tick)
    have lt: "ts (last (ring h0 @ tk)) < ts tick" if "ring h0 @ tk \<noteq> []"
    proof -
      have "last (ring h) = last (ring h0 @ tk)" "ring h \<noteq> []"
        using that assms(2) unfolding tk(2) by (simp_all add: last_keep keep_Nil_iff)
      then show ?thesis using push(3) by simp
    qed
    have "sorted_wrt (<) (map ts (ring h0 @ tk) @ [ts tick])"
      using tk(3) lt by (intro sorted_snoc_last) (auto simp: last_map simp del: map_append)
    moreover have "ring h' = keep (capacity h0) (ring h0 @ tk @ [tick])"
      "out' = deliveries (listeners h0) (tk @ [tick])"
      using assms(2,3) push(4) h tk(1,2) push_keep [of "capacity h0" tick "ring h0 @ tk"]
      by (auto simp: read_entry_def deliveries_def)
    moreover have "listeners h' = listeners h0" "capacity h' = capacity h0"
      "length (recent h') \<le> RECENT_FLOWS"
      using assms(3) push(4) h by (auto simp: read_entry_def push_def)
    ultimately show ?thesis unfolding delivered_def by (intro conjI exI [of _ "tk @ [tick]"]) auto
  qed
qed

lemma delivered_fold:
  "delivered h0 h out \<Longrightarrow> 0 < capacity h0 \<Longrightarrow> fold (read_entry parse) es (h, out) = (h', out')
     \<Longrightarrow> delivered h0 h' out'"
proof (induction es arbitrary: h out)
  case (Cons e es)
  obtain h1 out1 where r: "read_entry parse e (h, out) = (h1, out1)" by fastforce
  show ?case using Cons.IH [OF delivered_read [OF Cons.prems(1,2) r] Cons.prems(2)] Cons.prems(3) r by simp
qed simp

text \<open>
  (C16) What subscribers receive in one read of the stream: the ticks appended to the ring by that read
  and nothing else, each of them once to each client subscribed at that moment, in the order of
  their times, which continue after everything the ring held before.
\<close>

theorem readOnce_delivers:
  assumes "hub_reach parse cap h" and "0 < cap" and "readOnce parse io h = (Inr out, h')"
  shows "\<exists>tk. out = deliveries (listeners h) tk \<and> ring h' = keep cap (ring h @ tk)
    \<and> sorted_wrt (<) (map ts (ring h @ tk))"
proof -
  have inv: "capacity h = cap" "buffers_ok h"
    using hub_reach_hub_inv [OF assms(1,2)] by (simp_all add: hub_inv_def)
  then have "length (ring h) \<le> cap" "length (recent h) \<le> RECENT_FLOWS" by (auto simp: buffers_ok_def)
  then have "delivered h h []"
    using inv by (auto simp: delivered_def deliveries_def keep_short buffers_ok_def intro!: exI [of _ "[]"])
  moreover obtain ms where "fold (read_entry parse) ms (h, []) = (h', out)"
    using assms(3) by (auto simp: readOnce_def split: sum.splits prod.splits)
  ultimately have "delivered h h' out" using delivered_fold assms(2) inv(1) by blast
  then show ?thesis using inv(1) by (simp add: delivered_def)
qed

definition sample_joined :: LiveHub where
  "sample_joined = fst (run_iter sample_parse (sample_io\<lparr> io_xRead := (\<lambda>i. Inl ''down'') \<rparr>)
     (subscribe 1 (new_LiveHub 900)))"

theorem readOnce_delivers_witness:
  "\<exists>out h' tk. readOnce sample_parse sample_io sample_joined = (Inr out, h') \<and> out \<noteq> []
     \<and> out = deliveries [1] tk \<and> ring h' = keep 900 (ring sample_joined @ tk)"
proof -
  have "case readOnce sample_parse sample_io sample_joined of
      (Inl _, _) \<Rightarrow> False | (Inr out, _) \<Rightarrow> out \<noteq> []" by code_simp
  then obtain out h' where r: "readOnce sample_parse sample_io sample_joined = (Inr out, h')" "out \<noteq> []"
    by (auto split: sum.splits prod.splits)
  have "hub_reach sample_parse 900 sample_joined" unfolding sample_joined_def by (intro hub_reach.intros)
  moreover have "listeners sample_joined = [1]" by code_simp
  ultimately show ?thesis using readOnce_delivers [of sample_parse 900 sample_joined sample_io out h'] r by auto
qed

section \<open>The backfill\<close>

text \<open>A stream's entries, oldest first, as \<open>XREVRANGE key end - COUNT n\<close> pages through them.\<close>

definition stream_pages :: "Entry list \<Rightarrow> string \<Rightarrow> nat \<Rightarrow> Entry list" where
  "stream_pages S end_id n = (if end_id = ''+'' then take n (rev S)
     else take n (rev (takeWhile (\<lambda>e. e_id e \<noteq> tl end_id) S)))"

lemma takeWhile_before:
  assumes "distinct (map f xs)" and "i < length xs"
  shows "takeWhile (\<lambda>x. f x \<noteq> f (xs ! i)) xs = take i xs"
  using assms
proof (induction xs arbitrary: i)
  case (Cons x xs)
  show ?case
  proof (cases i)
    case (Suc j)
    then have "f x \<noteq> f (xs ! j)" using Cons.prems by auto
    with Suc Cons show ?thesis by simp
  qed simp
qed simp

lemma stream_pages_after:
  assumes "distinct (map e_id S)" and "0 < k" "k \<le> length S"
  shows "stream_pages S (''('' @ e_id (rev S ! (k - 1))) n = take n (drop k (rev S))"
proof -
  have "rev S ! (k - 1) = S ! (length S - k)" using assms(2,3) by (simp add: rev_nth)
  moreover have "takeWhile (\<lambda>e. e_id e \<noteq> e_id (S ! (length S - k))) S = take (length S - k) S"
    using assms by (intro takeWhile_before) auto
  moreover have "length S - (length S - k) = k" using assms(3) by simp
  ultimately show ?thesis by (simp add: stream_pages_def rev_take)
qed

lemma backfill_pages_stream:
  assumes "distinct (map e_id S)" and "io_xRevRange io = (\<lambda>e n. Inr (stream_pages S e n))"
    and "k \<le> length S" and "end_id = (if k = 0 then ''+'' else ''('' @ e_id (rev S ! (k - 1)))"
  shows "fst (backfill_pages io cap end_id (take k (rev S))) = Inr (take (max k cap) (rev S))"
  using assms(3,4)
proof (induction "cap - k" arbitrary: k end_id rule: less_induct)
  case less
  have len: "length (take k (rev S)) = k" using less.prems by simp
  show ?case
  proof (cases "k < cap")
    case False
    then show ?thesis unfolding backfill_pages.simps [of io cap end_id] len by (simp add: max_def)
  next
    case True
    define count where "count = min PAGE (cap - k)"
    have c: "0 < count" "k + count \<le> cap" using True by (auto simp: count_def PAGE_def)
    define page where "page = take count (drop k (rev S))"
    have pg: "stream_pages S end_id count = page"
      using less.prems stream_pages_after [OF assms(1), of k count]
      by (cases "k = 0") (auto simp: page_def stream_pages_def)
    have app: "take k (rev S) @ page = take (k + count) (rev S)" by (simp add: page_def take_add)
    have eq: "fst (backfill_pages io cap end_id (take k (rev S))) =
        (if length page < count then Inr (take k (rev S) @ page)
         else fst (backfill_pages io cap (''('' @ e_id (last page)) (take k (rev S) @ page)))"
      unfolding backfill_pages.simps [of io cap end_id] len
      using True pg by (simp add: assms(2) count_def [symmetric] split: prod.split)
    show ?thesis
    proof (cases "length page < count")
      case short: True
      then have "length S \<le> k + count" by (auto simp: page_def)
      then show ?thesis using short c True by (simp add: eq app max_def)
    next
      case full: False
      then have k': "k + count \<le> length S" using less.prems c by (auto simp: page_def)
      have "last page = rev S ! (k + count - 1)"
        using full c k' by (simp add: page_def last_conv_nth)
      then have "fst (backfill_pages io cap (''('' @ e_id (last page)) (take (k + count) (rev S)))
          = Inr (take (max (k + count) cap) (rev S))"
        using c k' True by (intro less.hyps) auto
      then show ?thesis using full c True by (simp add: eq app max_def)
    qed
  qed
qed

text \<open>
  (C17) The backfill loads the end of the stream: for any stream, however many pages it takes, the hub
  ingests its last \<open>capacity\<close> entries (all, if there are fewer), oldest first, into empty buffers,
  tells no subscriber, and continues reading after the newest entry.
\<close>

theorem backfill_loads:
  assumes "distinct (map e_id S)" and "io_xRevRange io = (\<lambda>e n. Inr (stream_pages S e n))"
  shows "backfill parse io h = (Inr (),
    (fold (ingest_quiet parse) (drop (length S - capacity h) S) (h\<lparr> ring := [], recent := [] \<rparr>))
      \<lparr> lastId := Some (if S = [] \<or> capacity h = 0 then ''0-0'' else e_id (last S)) \<rparr>)"
proof -
  have "fst (backfill_pages io (capacity h) ''+'' []) = Inr (take (capacity h) (rev S))"
    using backfill_pages_stream [OF assms, of 0 "''+''" "capacity h"] by simp
  moreover have "rev (take (capacity h) (rev S)) = drop (length S - capacity h) S"
    by (simp add: rev_take)
  moreover have "(case take (capacity h) (rev S) of [] \<Rightarrow> ''0-0'' | e # _ \<Rightarrow> e_id e)
      = (if S = [] \<or> capacity h = 0 then ''0-0'' else e_id (last S))"
    by (cases S rule: rev_cases; cases "capacity h") auto
  ultimately show ?thesis by (simp add: backfill_def Let_def)
qed

theorem backfill_loads_witness:
  "lastId (snd (backfill sample_parse (sample_io\<lparr> io_xRevRange := (\<lambda>e n. Inr (stream_pages
      [\<lparr> e_id = ''5-0'', e_json = ''a'' \<rparr>, \<lparr> e_id = ''9-0'', e_json = ''b'' \<rparr>] e n)) \<rparr>) (new_LiveHub 1))) = Some ''9-0''"
  by (subst backfill_loads [where S = "[\<lparr> e_id = ''5-0'', e_json = ''a'' \<rparr>, \<lparr> e_id = ''9-0'', e_json = ''b'' \<rparr>]"])
    (simp_all add: new_LiveHub_def)

section \<open>Stream ids\<close>

definition show_id :: "nat \<Rightarrow> nat \<Rightarrow> string" where
  "show_id ms sq = string_of_nat ms @ ''-'' @ string_of_nat sq"

lemma split_show_id: "split_char (CHR ''-'') (show_id ms sq) = [string_of_nat ms, string_of_nat sq]"
proof -
  have nd: "CHR ''-'' \<notin> set (string_of_nat n)" for n
    using string_of_nat_digits [of n] by (intro not_in_digits) (auto simp: is_digit_def)
  have "show_id ms sq = join ''-'' [string_of_nat ms, string_of_nat sq]" by (simp add: show_id_def)
  then show ?thesis using split_char_join [of "[string_of_nat ms, string_of_nat sq]" "CHR ''-''"] nd by simp
qed

text \<open>
  Stream ids are compared as numbers: on the ids \<open>ms-seq\<close> that Redis writes, \<open>compareIds\<close> is the
  lexicographic comparison of the two numbers, whatever their lengths.
\<close>

theorem compareIds_lex:
  "compareIds (show_id a b) (show_id c d) =
     Some (if a = c \<and> b = d then 0 else if a < c \<or> a = c \<and> b < d then -1 else 1)"
  by (auto simp: compareIds_def split_show_id bigInt_def string_of_nat_digits nth_or_0_def)

end
