(* ===== verification/RoutesLive.thy ===== *)
theory RoutesLive
  imports Hub Query Users Rdns
begin

text \<open>
  \<^verbatim>\<open>web/src/server/routes/live.ts\<close>, \<^verbatim>\<open>routes/rdns.ts\<close> and \<^verbatim>\<open>routes/health.ts\<close>: the live endpoints with their two
  caches, the streams of server-sent events, reverse DNS and the health answer. What Redis answers
  is an input; \<open>JSON.stringify\<close> is a parameter of the streams. A snapshot's identity is its value:
  the times of the hub's snapshots strictly increase.
\<close>

section \<open>Parameters\<close>

definition KEEPALIVE_MS :: int where "KEEPALIVE_MS = 15000"
definition MAX_BUFFERED_BYTES :: nat where "MAX_BUFFERED_BYTES = 1048576"

definition num_field :: "string option \<Rightarrow> num option" where
  "num_field v = (case v of None \<Rightarrow> None | Some s \<Rightarrow> if s = [] then None else js_Number s)"

text \<open>\<open>seconds\<close>: a repeated parameter does not match the digits.\<close>

definition seconds_param :: "qval option \<Rightarrow> nat \<Rightarrow> nat \<Rightarrow> num result" where
  "seconds_param raw fallback hi =
     (let bad = Inl (HttpError 400 (''seconds: expected an integer in 1..'' @ string_of_nat hi)) in
      case raw of
        None \<Rightarrow> Inr (of_nat fallback)
      | Some (QArr _) \<Rightarrow> bad
      | Some (QStr s) \<Rightarrow> if all_digits s \<and> 1 \<le> Number_dec s \<and> Number_dec s \<le> of_nat hi then Inr (Number_dec s) else bad)"

definition live_series :: "LiveHub \<Rightarrow> query \<Rightarrow> CompactTick list result" where
  "live_series h q = bind_res (seconds_param (q ''seconds'') 900 86400) (\<lambda>seconds. Inr (series seconds h))"

section \<open>Snapshot and flows, cached until the next tick\<close>

record LiveFlowsResponse =
  lfr_ts :: "num option"
  lfr_ticks :: nat
  lfr_flows :: "FlowAgg list"

record flows_cache =
  fc_ts :: num
  fc_seconds :: num
  fc_res :: LiveFlowsResponse

record live_cache =
  lc_reduced :: "(LiveSnapshot \<times> LiveSnapshotResponse) option"
  lc_flows :: "flows_cache option"

definition no_cache :: live_cache where "no_cache = \<lparr> lc_reduced = None, lc_flows = None \<rparr>"

text \<open>The answer comes with the server's clock.\<close>

definition live_snapshot :: "Users \<Rightarrow> int \<Rightarrow> LiveHub \<Rightarrow> live_cache \<Rightarrow> (LiveSnapshotResponse \<times> int) result \<times> live_cache" where
  "live_snapshot users now h c = (case latest h of
       None \<Rightarrow> (Inl (HttpError 503 ''no live data yet''), c)
     | Some snap \<Rightarrow>
         let red = (case lc_reduced c of
               Some (s, res) \<Rightarrow> if s = snap then (s, res) else (snap, snapshotRows snap (Users_name users))
             | None \<Rightarrow> (snap, snapshotRows snap (Users_name users)))
         in (Inr (snd red, now), c\<lparr> lc_reduced := Some red \<rparr>))"

definition flows_answer_of :: "GeoDb \<Rightarrow> num \<Rightarrow> (num \<times> LiveFlow list) list \<Rightarrow> LiveFlowsResponse" where
  "flows_answer_of geo tsv rec = \<lparr> lfr_ts = Some tsv, lfr_ticks = length rec,
     lfr_flows = GeoDb_enrich g_ip (\<lambda>g r. r\<lparr> g_geo := Some g \<rparr>) geo (aggregateFlows (map snd rec)) \<rparr>"

definition live_flows :: "GeoDb \<Rightarrow> LiveHub \<Rightarrow> query \<Rightarrow> live_cache \<Rightarrow> LiveFlowsResponse result \<times> live_cache" where
  "live_flows geo h q c = (case seconds_param (q ''seconds'') 10 RECENT_FLOWS of
       Inl e \<Rightarrow> (Inl e, c)
     | Inr seconds \<Rightarrow>
         let rec = recentFlows seconds h in
         if rec = [] then (Inr \<lparr> lfr_ts = None, lfr_ticks = 0, lfr_flows = [] \<rparr>, c)
         else
           let tsv = fst (last rec);
               fresh = \<lparr> fc_ts = tsv, fc_seconds = seconds, fc_res = flows_answer_of geo tsv rec \<rparr>;
               x = (case lc_flows c of Some y \<Rightarrow> if fc_ts y = tsv \<and> fc_seconds y = seconds then y else fresh | None \<Rightarrow> fresh)
           in (Inr (fc_res x), c\<lparr> lc_flows := Some x \<rparr>))"

section \<open>The health strip\<close>

record LiveMeta =
  lm_serverTimeMs :: int
  lm_lastTickMs :: "num option"
  lm_intervalMs :: "num option"
  lm_drops :: "num option"
  lm_alive :: nat
  lm_ended :: nat

text \<open>\<open>meta\<close>: whether Redis is connected, and what the three commands give (or the error, a timeout included).\<close>

definition live_meta :: "bool \<Rightarrow> string + (string, string) jsmap \<times> nat \<times> nat \<Rightarrow> int \<Rightarrow> LiveMeta result" where
  "live_meta ready meta now =
     (if \<not> ready then Inl (HttpError 503 ''Redis: not connected'')
      else case meta of
          Inl err \<Rightarrow> Inl (HttpError 503 (''Redis: '' @ err))
        | Inr (m, alive, ended) \<Rightarrow> Inr \<lparr> lm_serverTimeMs = now, lm_lastTickMs = num_field (map_get m ''last_tick_ms''),
            lm_intervalMs = num_field (map_get m ''interval_ms''), lm_drops = num_field (map_get m ''drops''),
            lm_alive = alive, lm_ended = ended \<rparr>)"

section \<open>Event streams\<close>

text \<open>
  A response: the bytes it has buffered, and whether it has been destroyed or ended (nothing is
  written any more; its close event is still to come). \<open>jtick\<close> and \<open>jhello\<close> are the JSON texts.
\<close>

record sse =
  sse_id :: nat
  sse_buf :: nat
  sse_dead :: bool

record live_server =
  lv_hub :: LiveHub
  lv_open :: "sse list"

definition event_text :: "string \<Rightarrow> string \<Rightarrow> string" where
  "event_text event data = ''event: '' @ event @ [CHR 0x0A] @ ''data: '' @ data @ [CHR 0x0A, CHR 0x0A]"

definition sse_write :: "string \<Rightarrow> sse \<Rightarrow> sse \<times> string list" where
  "sse_write t r = (if sse_dead r then (r, []) else (r\<lparr> sse_buf := sse_buf r + length t \<rparr>, [t]))"

definition sse_send :: "string \<Rightarrow> string \<Rightarrow> sse \<Rightarrow> sse \<times> string list" where
  "sse_send event data r =
     (if sse_buf r > MAX_BUFFERED_BYTES then (r\<lparr> sse_dead := True \<rparr>, []) else sse_write (event_text event data) r)"

text \<open>Runs \<open>f\<close> on the open response \<open>i\<close>; the writes are tagged with it.\<close>

definition on_response :: "nat \<Rightarrow> (sse \<Rightarrow> sse \<times> string list) \<Rightarrow> live_server \<Rightarrow> live_server \<times> (nat \<times> string) list" where
  "on_response i f s =
     (s\<lparr> lv_open := map (\<lambda>r. if sse_id r = i then fst (f r) else r) (lv_open s) \<rparr>,
      concat (map (\<lambda>r. if sse_id r = i then map (Pair i) (snd (f r)) else []) (lv_open s)))"

definition sse_connect :: "(num option \<Rightarrow> string) \<Rightarrow> nat \<Rightarrow> live_server \<Rightarrow> live_server \<times> (nat \<times> string) list" where
  "sse_connect jhello i s =
     (let s1 = s\<lparr> lv_open := lv_open s @ [\<lparr> sse_id = i, sse_buf = 0, sse_dead = False \<rparr>] \<rparr>;
          (s2, out) = on_response i (sse_send ''hello'' (jhello (latestTs (lv_hub s)))) s1
      in (s2\<lparr> lv_hub := subscribe i (lv_hub s2) \<rparr>, out))"

definition sse_close :: "nat \<Rightarrow> live_server \<Rightarrow> live_server" where
  "sse_close i s = s\<lparr> lv_hub := unsubscribe i (lv_hub s), lv_open := filter (\<lambda>r. sse_id r \<noteq> i) (lv_open s) \<rparr>"

definition sse_keepalive :: "nat \<Rightarrow> live_server \<Rightarrow> live_server \<times> (nat \<times> string) list" where
  "sse_keepalive i = on_response i (sse_write ('':keepalive'' @ [CHR 0x0A, CHR 0x0A]))"

definition sse_drain :: "nat \<Rightarrow> nat \<Rightarrow> live_server \<Rightarrow> live_server" where
  "sse_drain i n s = fst (on_response i (\<lambda>r. (r\<lparr> sse_buf := sse_buf r - n \<rparr>, [])) s)"

definition pre_close :: "live_server \<Rightarrow> live_server" where
  "pre_close s = s\<lparr> lv_open := map (\<lambda>r. r\<lparr> sse_dead := True \<rparr>) (lv_open s) \<rparr>"

text \<open>The ticks the hub hands out are sent in order.\<close>

fun deliver_all :: "(CompactTick \<Rightarrow> string) \<Rightarrow> (listener \<times> CompactTick) list \<Rightarrow> live_server \<Rightarrow> live_server \<times> (nat \<times> string) list" where
  "deliver_all jtick [] s = (s, [])"
| "deliver_all jtick ((i, t) # ds) s =
     (let (s1, out1) = on_response i (sse_send ''tick'' (jtick t)) s; (s2, out2) = deliver_all jtick ds s1 in (s2, out1 @ out2))"

definition hub_iter :: "parser \<Rightarrow> (CompactTick \<Rightarrow> string) \<Rightarrow> redis_io \<Rightarrow> live_server \<Rightarrow> live_server \<times> (nat \<times> string) list" where
  "hub_iter parse jtick io s =
     (let (h, retry, ds) = run_iter parse io (lv_hub s) in deliver_all jtick ds (s\<lparr> lv_hub := h \<rparr>))"

text \<open>The states of the server: browsers connect and go, buffers drain, the hub reads.\<close>

inductive live_reach :: "parser \<Rightarrow> (CompactTick \<Rightarrow> string) \<Rightarrow> (num option \<Rightarrow> string) \<Rightarrow> nat \<Rightarrow> live_server \<Rightarrow> bool"
  for parse jtick jhello cap where
  start: "live_reach parse jtick jhello cap \<lparr> lv_hub = new_LiveHub cap, lv_open = [] \<rparr>"
| connect: "live_reach parse jtick jhello cap s \<Longrightarrow> i \<notin> sse_id ` set (lv_open s) \<Longrightarrow>
    live_reach parse jtick jhello cap (fst (sse_connect jhello i s))"
| close: "live_reach parse jtick jhello cap s \<Longrightarrow> live_reach parse jtick jhello cap (sse_close i s)"
| keepalive: "live_reach parse jtick jhello cap s \<Longrightarrow> live_reach parse jtick jhello cap (fst (sse_keepalive i s))"
| drain: "live_reach parse jtick jhello cap s \<Longrightarrow> live_reach parse jtick jhello cap (sse_drain i n s)"
| shutdown: "live_reach parse jtick jhello cap s \<Longrightarrow> live_reach parse jtick jhello cap (pre_close s)"
| iter: "live_reach parse jtick jhello cap s \<Longrightarrow> live_reach parse jtick jhello cap (fst (hub_iter parse jtick io s))"

text \<open>
  The hub and the two caches: iterations of the read loop interleaved with requests and with reloads
  of the user list and of the IP table, which leave the caches as they are. \<open>us\<close> and \<open>gs\<close> are the user
  lists and the IP tables that have been in force since the latest tick, the current one first.
\<close>

inductive cache_reach :: "parser \<Rightarrow> nat \<Rightarrow> Users list \<Rightarrow> GeoDb list \<Rightarrow> LiveHub \<Rightarrow> live_cache \<Rightarrow> bool" for parse cap where
  start: "cache_reach parse cap [users] [geo] (new_LiveHub cap) no_cache"
| read: "cache_reach parse cap us gs h c \<Longrightarrow> h' = fst (run_iter parse io h) \<Longrightarrow> latest h' = latest h \<Longrightarrow>
    cache_reach parse cap us gs h' c"
| tick: "cache_reach parse cap us gs h c \<Longrightarrow> h' = fst (run_iter parse io h) \<Longrightarrow> latest h' \<noteq> latest h \<Longrightarrow>
    cache_reach parse cap [hd us] [hd gs] h' c"
| users: "cache_reach parse cap us gs h c \<Longrightarrow> cache_reach parse cap (users # us) gs h c"
| geo: "cache_reach parse cap us gs h c \<Longrightarrow> cache_reach parse cap us (geo # gs) h c"
| snapshot: "cache_reach parse cap us gs h c \<Longrightarrow> cache_reach parse cap us gs h (snd (live_snapshot (hd us) now h c))"
| flows: "cache_reach parse cap us gs h c \<Longrightarrow> cache_reach parse cap us gs h (snd (live_flows (hd gs) h q c))"

section \<open>Reverse DNS and health\<close>

definition MAX_IPS :: nat where "MAX_IPS = 200"

record RdnsResponse =
  rr_enabled :: bool
  rr_names :: "(string, string option) jsmap"
  rr_pending :: "string list"

text \<open>The route splits \<open>ips\<close> at commas; a repeated parameter has no \<open>split\<close> (a 500).\<close>

definition rdns_ips :: "qval option \<Rightarrow> string list result" where
  "rdns_ips raw = (case raw of
       Some (QArr _) \<Rightarrow> Inl (HttpError 500 ''internal error'')
     | _ \<Rightarrow>
         let ips = filter (\<lambda>s. s \<noteq> []) (split_char (CHR '','') (case raw of Some (QStr s) \<Rightarrow> s | _ \<Rightarrow> [])) in
         if length ips > MAX_IPS then Inl (badRequest (''ips: at most '' @ string_of_nat MAX_IPS))
         else case List.find (\<lambda>ip. parseIp ip = None) ips of
             Some ip \<Rightarrow> Inl (badRequest (''ips: not an IP address: '' @ take 60 ip))
           | None \<Rightarrow> Inr ips)"

definition rdns_route :: "int \<Rightarrow> (int \<times> string \<times> answer) list \<Rightarrow> query \<Rightarrow> Rdns \<Rightarrow> RdnsResponse result \<times> Rdns" where
  "rdns_route now early q r = (case rdns_ips (q ''ips'') of
       Inl e \<Rightarrow> (Inl e, r)
     | Inr ips \<Rightarrow>
         if \<not> rdns_enabled r then (Inr \<lparr> rr_enabled = False, rr_names = [], rr_pending = [] \<rparr>, r)
         else (let ((names, pend), r') = Rdns_lookup now ips early r
               in (Inr \<lparr> rr_enabled = True, rr_names = names, rr_pending = pend \<rparr>, r')))"

section \<open>The subscribers are the open streams\<close>

lemma listeners_ingest [simp]: "listeners (fst (ingest parse notify e h)) = listeners h"
  by (simp add: ingest_def Let_def split: sum.split)

lemma listeners_fold_quiet [simp]: "listeners (fold (ingest_quiet parse) es h) = listeners h"
  by (induction es arbitrary: h) (simp_all add: ingest_quiet_def)

lemma listeners_read_entry [simp]: "listeners (fst (read_entry parse e s)) = listeners (fst s)"
  by (simp add: read_entry_def case_prod_beta)

lemma listeners_fold_read [simp]: "listeners (fst (fold (read_entry parse) es s)) = listeners (fst s)"
  by (induction es arbitrary: s) simp_all

lemma listeners_backfill [simp]: "listeners (snd (backfill parse io h)) = listeners h"
  by (simp add: backfill_def Let_def split: sum.split)

lemma listeners_checkTrimmed [simp]: "listeners (snd (checkTrimmed io h)) = listeners h"
  by (simp add: checkTrimmed_def split: sum.split option.split)

lemma listeners_readOnce [simp]: "listeners (snd (readOnce parse io h)) = listeners h"
  by (simp add: readOnce_def case_prod_beta split: sum.split)

text \<open>The step before the read: a backfill the first time, a check for a trimmed stream after an error.\<close>

definition before_read :: "parser \<Rightarrow> redis_io \<Rightarrow> LiveHub \<Rightarrow> (string + unit) \<times> LiveHub" where
  "before_read parse io h = (if lastId h = None then backfill parse io h else if resync h then checkTrimmed io h else (Inr (), h))"

lemma run_iter_hub:
  obtains b where "fst (run_iter parse io h) = h\<lparr> resync := b \<rparr>"
  | b where "fst (run_iter parse io h) = snd (before_read parse io h)\<lparr> resync := b \<rparr>" "\<exists>e. fst (before_read parse io h) = Inl e"
  | b where "fst (run_iter parse io h) = snd (readOnce parse io (snd (before_read parse io h)\<lparr> resync := False \<rparr>))\<lparr> resync := b \<rparr>"
      "fst (before_read parse io h) = Inr ()"
proof -
  have same: "x = x\<lparr> resync := resync x \<rparr>" for x :: LiveHub by simp
  obtain r h1 where p: "before_read parse io h = (r, h1)" by fastforce
  obtain r' h2 where q: "readOnce parse io (h1\<lparr> resync := False \<rparr>) = (r', h2)" by fastforce
  note defs = run_iter_def before_read_def [symmetric] run_failed_def Let_def
  show thesis
  proof (cases "io_ready io")
    case (Inl e)
    then show ?thesis using that(1) by (simp add: defs)
  next
    case Inr': (Inr u)
    show ?thesis
    proof (cases r)
      case (Inl e)
      then show ?thesis using that(2) p Inr' by (simp add: defs)
    next
      case (Inr u)
      then have ok: "fst (before_read parse io h) = Inr ()" using p by simp
      have "fst (run_iter parse io h) = h2\<lparr> resync := (case r' of Inl _ \<Rightarrow> True | Inr _ \<Rightarrow> resync h2) \<rparr>"
        using p q Inr Inr' by (simp add: defs split: sum.split)
      then show ?thesis using that(3) ok p q by simp
    qed
  qed
qed

lemma listeners_run_iter [simp]: "listeners (fst (run_iter parse io h)) = listeners h"
proof -
  have "listeners (snd (before_read parse io h)) = listeners h" by (simp add: before_read_def)
  then show ?thesis by (cases rule: run_iter_hub [of parse io h]) simp_all
qed

definition streams_ok :: "live_server \<Rightarrow> bool" where
  "streams_ok s \<longleftrightarrow> distinct (map sse_id (lv_open s)) \<and> distinct (listeners (lv_hub s))
     \<and> set (listeners (lv_hub s)) = sse_id ` set (lv_open s)"

text \<open>Writing to a response keeps its number.\<close>

definition keeps_id :: "(sse \<Rightarrow> sse \<times> string list) \<Rightarrow> bool" where
  "keeps_id f \<longleftrightarrow> (\<forall>r. sse_id (fst (f r)) = sse_id r)"

lemma keeps_id_write [simp]: "keeps_id (sse_write t)" "keeps_id (sse_send e d)"
  by (simp_all add: keeps_id_def sse_write_def sse_send_def)

lemma ids_on_response:
  assumes "keeps_id f"
  shows "map sse_id (lv_open (fst (on_response i f s))) = map sse_id (lv_open s)" "lv_hub (fst (on_response i f s)) = lv_hub s"
  using assms by (auto simp: on_response_def keeps_id_def)

lemma streams_ok_ids:
  "map sse_id (lv_open s') = map sse_id (lv_open s) \<Longrightarrow> listeners (lv_hub s') = listeners (lv_hub s) \<Longrightarrow> streams_ok s' = streams_ok s"
  unfolding streams_ok_def by (metis set_map)

lemma streams_ok_on_response: "keeps_id f \<Longrightarrow> streams_ok (fst (on_response i f s)) = streams_ok s"
  by (rule streams_ok_ids) (simp_all add: ids_on_response)

lemma ids_deliver_all:
  "map sse_id (lv_open (fst (deliver_all jtick ds s))) = map sse_id (lv_open s) \<and> lv_hub (fst (deliver_all jtick ds s)) = lv_hub s"
proof (induction jtick ds s rule: deliver_all.induct)
  case (2 jtick i t ds s)
  then show ?case using ids_on_response [of "sse_send ''tick'' (jtick t)" i s] by (auto simp: Let_def split: prod.splits)
qed simp

lemma streams_ok_hub_iter: "streams_ok (fst (hub_iter parse jtick io s)) = streams_ok s"
proof (rule streams_ok_ids)
  show "map sse_id (lv_open (fst (hub_iter parse jtick io s))) = map sse_id (lv_open s)"
    using ids_deliver_all by (simp add: hub_iter_def split: prod.split)
  show "listeners (lv_hub (fst (hub_iter parse jtick io s))) = listeners (lv_hub s)"
    using ids_deliver_all by (simp add: hub_iter_def case_prod_beta)
qed

lemma streams_ok_connect:
  assumes "streams_ok s" and "i \<notin> sse_id ` set (lv_open s)"
  shows "streams_ok (fst (sse_connect jhello i s))"
proof -
  let ?s1 = "s\<lparr> lv_open := lv_open s @ [\<lparr> sse_id = i, sse_buf = 0, sse_dead = False \<rparr>] \<rparr>"
  obtain s2 out where c: "on_response i (sse_send ''hello'' (jhello (latestTs (lv_hub s)))) ?s1 = (s2, out)" by fastforce
  have ids: "map sse_id (lv_open s2) = map sse_id (lv_open s) @ [i]" "lv_hub s2 = lv_hub s"
    using ids_on_response [of "sse_send ''hello'' (jhello (latestTs (lv_hub s)))" i ?s1] c by simp_all
  then have set: "sse_id ` set (lv_open s2) = insert i (sse_id ` set (lv_open s))" by (metis list.set(2) rotate1.simps(2) set_map set_rotate1)
  show ?thesis using assms ids set c by (auto simp: streams_ok_def sse_connect_def Let_def subscribe_def)
qed

lemma streams_ok_close: "streams_ok s \<Longrightarrow> streams_ok (sse_close i s)"
  by (auto simp: streams_ok_def sse_close_def unsubscribe_def distinct_map inj_on_filter_key_eq inj_on_def)

text \<open>
  (C14) The event streams, in every state the server can reach, for any answers of Redis and any
  browsers: the subscribers of the hub are exactly the open responses, each once, so no closed
  stream stays subscribed and no open one is forgotten.
\<close>

theorem live_reach_streams:
  assumes "live_reach parse jtick jhello cap s"
  shows "distinct (map sse_id (lv_open s)) \<and> distinct (listeners (lv_hub s))
    \<and> set (listeners (lv_hub s)) = sse_id ` set (lv_open s)"
proof -
  from assms have "streams_ok s"
  proof (induction rule: live_reach.induct)
    case start
    show ?case by (simp add: streams_ok_def new_LiveHub_def)
  next
    case (connect s i)
    then show ?case by (simp add: streams_ok_connect)
  next
    case (close s i)
    then show ?case by (simp add: streams_ok_close)
  next
    case (keepalive s i)
    then show ?case by (simp add: sse_keepalive_def streams_ok_on_response)
  next
    case (drain s i n)
    have "keeps_id (\<lambda>r. (r\<lparr> sse_buf := sse_buf r - n \<rparr>, []))" by (simp add: keeps_id_def)
    with drain show ?case by (simp add: sse_drain_def streams_ok_on_response)
  next
    case (shutdown s)
    have "map sse_id (lv_open (pre_close s)) = map sse_id (lv_open s)" "lv_hub (pre_close s) = lv_hub s" by (auto simp: pre_close_def)
    with shutdown show ?case using streams_ok_ids [of "pre_close s" s] by simp
  next
    case (iter s io)
    then show ?case by (simp add: streams_ok_hub_iter)
  qed
  then show ?thesis by (simp add: streams_ok_def)
qed

theorem live_reach_streams_witness:
  "\<exists>s. live_reach sample_parse (\<lambda>_. ''t'') (\<lambda>_. ''h'') 4 s \<and> map sse_id (lv_open s) = [7] \<and> set (listeners (lv_hub s)) = {7}"
proof -
  let ?s = "fst (sse_connect (\<lambda>_. ''h'') 7 \<lparr> lv_hub = new_LiveHub 4, lv_open = [] \<rparr>)"
  have r: "live_reach sample_parse (\<lambda>_. ''t'') (\<lambda>_. ''h'') 4 ?s" by (intro live_reach.connect live_reach.start) simp
  have ids: "map sse_id (lv_open ?s) = [7]" by code_simp
  then have "sse_id ` set (lv_open ?s) = {7}" by (metis list.set(1) list.set(2) set_map)
  with live_reach_streams [OF r] have "set (listeners (lv_hub ?s)) = {7}" by simp
  with ids r show ?thesis by (intro exI [of _ ?s] conjI)
qed

section \<open>The caches are transparent\<close>

text \<open>The flow buffer and the latest snapshot are unchanged, or the buffer ends later.\<close>

definition grows :: "LiveHub \<Rightarrow> LiveHub \<Rightarrow> bool" where
  "grows h h' \<longleftrightarrow> recent h' = recent h \<and> latest h' = latest h
     \<or> recent h' \<noteq> [] \<and> (recent h \<noteq> [] \<longrightarrow> fst (last (recent h)) < fst (last (recent h')))"

lemma grows_refl: "grows h h"
  by (simp add: grows_def)

lemma grows_trans: "grows h h' \<Longrightarrow> grows h' h'' \<Longrightarrow> grows h h''"
  by (auto simp: grows_def)

lemma grows_fields [simp]:
  "grows (h\<lparr> lastId := l \<rparr>) h' = grows h h'" "grows h (h'\<lparr> lastId := l \<rparr>) = grows h h'"
  "grows (h\<lparr> resync := b \<rparr>) h' = grows h h'" "grows h (h'\<lparr> resync := b \<rparr>) = grows h h'"
  "grows h (h'\<lparr> pendingGap := b \<rparr>) = grows h h'"
  by (simp_all add: grows_def)

lemma ingest_grows:
  assumes inv: "buffers_ok h" and cap: "0 < capacity h"
  shows "grows h (fst (ingest parse notify e h))"
proof -
  have len: "length (recent h) \<le> RECENT_FLOWS" using inv by (auto simp: buffers_ok_def)
  show ?thesis
  proof (cases rule: ingest_cases [OF len, of parse notify e, case_names skip push])
    case skip
    then show ?thesis by (simp add: grows_refl)
  next
    case (push snap tick)
    have "fst (last (recent h)) < ts_ms snap" if "recent h \<noteq> []"
    proof -
      have "ring h \<noteq> []" using ring_nonempty [OF inv cap that] .
      with inv push(2,3) show ?thesis by (auto simp: buffers_ok_def)
    qed
    moreover have "push RECENT_FLOWS y xs \<noteq> []" "last (push RECENT_FLOWS y xs) = y" for y :: "num \<times> LiveFlow list" and xs
      by (simp_all add: push_def RECENT_FLOWS_def)
    ultimately show ?thesis unfolding grows_def push(4) by simp
  qed
qed

interpretation growing: handler "read_entry parse" "\<lambda>(h, out). buffers_ok h \<and> 0 < capacity h \<and> grows h0 h" for parse h0
proof
  fix s :: "LiveHub \<times> (listener \<times> CompactTick) list" and e :: Entry
  assume inv: "case s of (h, out) \<Rightarrow> buffers_ok h \<and> 0 < capacity h \<and> grows h0 h"
  let ?h = "fst s\<lparr> lastId := Some (e_id e) \<rparr>"
  have ok: "buffers_ok ?h" "0 < capacity ?h" and g: "grows h0 ?h" using inv by (auto split: prod.splits)
  have "grows h0 (fst (ingest parse True e ?h))" using g ingest_grows [OF ok] by (rule grows_trans)
  then show "case read_entry parse e s of (h, out) \<Rightarrow> buffers_ok h \<and> 0 < capacity h \<and> grows h0 h"
    using ingest_ok [OF ok, of parse True e] ok by (simp add: read_entry_def case_prod_beta)
qed

lemma readOnce_grows:
  assumes "buffers_ok h" and "0 < capacity h"
  shows "grows h (snd (readOnce parse io h))"
proof (cases "io_xRead io (the (lastId h))")
  case (Inr ms)
  have "case (h, []) of (h', out) \<Rightarrow> buffers_ok h' \<and> 0 < capacity h' \<and> grows h h'" using assms by (simp add: grows_refl)
  from growing.run_keeps [OF this, of parse ms] show ?thesis by (simp add: readOnce_def Inr case_prod_beta)
qed (simp add: readOnce_def grows_refl)

text \<open>There is a latest snapshot only with a tick in the buffers.\<close>

definition begun :: "LiveHub \<Rightarrow> bool" where
  "begun h \<longleftrightarrow> (recent h = [] \<longrightarrow> latest h = None)"

lemma begun_fields [simp]:
  "begun (h\<lparr> lastId := l \<rparr>) = begun h" "begun (h\<lparr> resync := b \<rparr>) = begun h" "begun (h\<lparr> pendingGap := b \<rparr>) = begun h"
  by (simp_all add: begun_def)

lemma ingest_begun: "begun h \<Longrightarrow> begun (fst (ingest parse notify e h))"
proof (cases "parse (e_json e)")
  case (Inr snap)
  have "tl xs \<noteq> []" if "RECENT_FLOWS < length xs" for xs :: "(num \<times> LiveFlow list) list"
    using that by (cases xs) (auto simp: RECENT_FLOWS_def)
  then show "begun h \<Longrightarrow> ?thesis" by (auto simp: ingest_def Inr Let_def begun_def)
qed (simp add: ingest_def)

interpretation begun_read: handler "read_entry parse" "\<lambda>(h, out). begun h" for parse
  by unfold_locales (auto simp: read_entry_def ingest_begun split: prod.splits
    dest!: arg_cong [where f = fst])

interpretation begun_quiet: handler "ingest_quiet parse" begun for parse
  by unfold_locales (simp add: ingest_quiet_def ingest_begun)

text \<open>Before the first backfill the buffers are empty.\<close>

definition hub_fresh :: "nat \<Rightarrow> LiveHub \<Rightarrow> bool" where
  "hub_fresh cap h \<longleftrightarrow> hub_inv cap h \<and> begun h \<and> (lastId h = None \<longrightarrow> recent h = [])"

lemma hub_fresh_latest:
  assumes "hub_fresh cap h" and "0 < cap" and "recent h \<noteq> []"
  shows "\<exists>s. latest h = Some s \<and> ts_ms s = fst (last (recent h))"
proof -
  have ok: "buffers_ok h" "0 < capacity h" using assms by (auto simp: hub_fresh_def hub_inv_def)
  then show ?thesis using ring_nonempty [OF ok assms(3)] by (auto simp: buffers_ok_def)
qed

lemma before_read_grows:
  assumes "hub_fresh cap h" and "0 < cap"
  shows "grows h (snd (before_read parse io h)) \<and> hub_inv cap (snd (before_read parse io h))
    \<and> (fst (before_read parse io h) = Inr () \<longrightarrow> lastId (snd (before_read parse io h)) \<noteq> None)
    \<and> begun (snd (before_read parse io h))
    \<and> (lastId (snd (before_read parse io h)) = None \<longrightarrow> recent (snd (before_read parse io h)) = [])"
proof (cases "lastId h")
  case None
  with assms have inv: "hub_inv cap (snd (backfill parse io h))" and h: "recent h = []" "latest h = None"
    by (auto simp: hub_fresh_def backfill_ok begun_def)
  have b: "begun (snd (backfill parse io h))"
  proof (cases "fst (backfill_pages io (capacity h) ''+'' [])")
    case (Inr es)
    have "begun (h\<lparr> ring := [], recent := [] \<rparr>)" using h by (simp add: begun_def)
    from begun_quiet.run_keeps [OF this, of parse "rev es"] show ?thesis by (simp add: backfill_def Inr Let_def)
  qed (use h in \<open>simp add: backfill_def begun_def\<close>)
  then have "grows h (snd (backfill parse io h))" using h by (auto simp: grows_def begun_def)
  with None inv h b show ?thesis
    by (auto simp: before_read_def) (auto simp: backfill_def Let_def split: sum.splits)
next
  case (Some l)
  have "recent (snd (checkTrimmed io h)) = recent h" "lastId (snd (checkTrimmed io h)) = lastId h"
    "latest (snd (checkTrimmed io h)) = latest h"
    by (auto simp: checkTrimmed_def split: sum.split option.split)
  with Some assms checkTrimmed_ok [of cap h io] show ?thesis by (auto simp: before_read_def grows_def hub_fresh_def begun_def)
qed

lemma lastId_fold_read: "lastId (fst s) \<noteq> None \<Longrightarrow> lastId (fst (fold (read_entry parse) es s)) \<noteq> None"
proof (induction es arbitrary: s)
  case (Cons e es)
  have "lastId (fst (read_entry parse e s)) = Some (e_id e)"
    by (auto simp: read_entry_def case_prod_beta ingest_def Let_def split: sum.split)
  then show ?case using Cons.IH [of "read_entry parse e s"] by simp
qed simp

lemma run_iter_grows:
  assumes "hub_fresh cap h" and "0 < cap"
  shows "grows h (fst (run_iter parse io h)) \<and> hub_fresh cap (fst (run_iter parse io h))"
proof -
  note b = before_read_grows [OF assms, of parse io]
  let ?h = "snd (before_read parse io h)\<lparr> resync := False \<rparr>"
  have inv: "buffers_ok ?h" "0 < capacity ?h" using b assms(2) by (auto simp: hub_inv_def)
  show ?thesis
  proof (cases rule: run_iter_hub [of parse io h, case_names skip failed read])
    case (skip x)
    then show ?thesis using assms by (simp add: grows_refl hub_fresh_def)
  next
    case (failed x)
    then show ?thesis using b by (auto simp: hub_fresh_def)
  next
    case (read x)
    then have "lastId ?h \<noteq> None" using b by auto
    then have "lastId (snd (readOnce parse io ?h)) \<noteq> None"
      using lastId_fold_read [of "(?h, [])" parse] by (auto simp: readOnce_def case_prod_beta split: sum.split)
    moreover have "grows h (snd (readOnce parse io ?h))"
      using grows_trans [of h ?h] readOnce_grows [OF inv] b by simp
    moreover have "begun (snd (readOnce parse io ?h))"
    proof (cases "io_xRead io (the (lastId ?h))")
      case (Inr ms)
      have "case (?h, []) of (h', out) \<Rightarrow> begun h'" using b by simp
      from begun_read.run_keeps [OF this, of parse ms] Inr show ?thesis by (simp add: readOnce_def case_prod_beta)
    qed (use b in \<open>simp add: readOnce_def\<close>)
    moreover have "hub_inv cap (snd (readOnce parse io ?h))" using b assms(2) by (intro readOnce_ok) simp_all
    ultimately show ?thesis using read(1) by (auto simp: hub_fresh_def)
  qed
qed

text \<open>
  An entry of a cache is not newer than the buffers; if it is of the latest tick, it holds what one of
  the tables in force since that tick gives.
\<close>

definition cache_ok :: "Users list \<Rightarrow> GeoDb list \<Rightarrow> LiveHub \<Rightarrow> live_cache \<Rightarrow> bool" where
  "cache_ok us gs h c \<longleftrightarrow>
     (\<forall>s res. lc_reduced c = Some (s, res) \<longrightarrow> recent h \<noteq> [] \<and> ts_ms s \<le> fst (last (recent h))
        \<and> (latest h = Some s \<longrightarrow> (\<exists>u \<in> set us. res = snapshotRows s (Users_name u))))
   \<and> (\<forall>y. lc_flows c = Some y \<longrightarrow> recent h \<noteq> [] \<and> fc_ts y \<le> fst (last (recent h))
        \<and> (fc_ts y = fst (last (recent h)) \<longrightarrow>
            (\<exists>g \<in> set gs. fc_res y = flows_answer_of g (fc_ts y) (recentFlows (fc_seconds y) h))))"

lemma recentFlows_last: "recentFlows n h \<noteq> [] \<Longrightarrow> recent h \<noteq> [] \<and> last (recentFlows n h) = last (recent h)"
  by (auto simp: recentFlows_def since_def Let_def split: if_splits)

lemma recentFlows_cong: "recent h = recent h' \<Longrightarrow> recentFlows n h = recentFlows n h'"
  by (simp add: recentFlows_def)

lemma cache_ok_same:
  assumes "cache_ok us gs h c" and "recent h' = recent h" and "latest h' = latest h"
  shows "cache_ok us gs h' c"
  using assms(1) unfolding cache_ok_def assms(2,3) recentFlows_cong [OF assms(2)] .

lemma cache_ok_newer:
  assumes "cache_ok us gs h c" and "recent h' \<noteq> []" and "recent h \<noteq> [] \<Longrightarrow> fst (last (recent h)) < fst (last (recent h'))"
    and "latest h' = Some s" "ts_ms s = fst (last (recent h'))"
  shows "cache_ok us' gs' h' c"
  using assms unfolding cache_ok_def by fastforce

lemma cache_ok_mono: "cache_ok us gs h c \<Longrightarrow> set us \<subseteq> set us' \<Longrightarrow> set gs \<subseteq> set gs' \<Longrightarrow> cache_ok us' gs' h c"
  unfolding cache_ok_def by blast

lemma live_flows_uncached:
  assumes "cache_ok us gs h c" and "geo \<in> set gs"
  shows "\<exists>g \<in> set gs. fst (live_flows geo h q c) = fst (live_flows g h q no_cache)"
    "cache_ok us gs h (snd (live_flows geo h q c))"
proof -
  show "cache_ok us gs h (snd (live_flows geo h q c))"
    using assms recentFlows_last [of _ h]
    by (auto simp: live_flows_def cache_ok_def Let_def split: sum.split option.split)
  show "\<exists>g \<in> set gs. fst (live_flows geo h q c) = fst (live_flows g h q no_cache)"
  proof (cases "\<exists>n y. seconds_param (q ''seconds'') 10 RECENT_FLOWS = Inr n \<and> recentFlows n h \<noteq> []
      \<and> lc_flows c = Some y \<and> fc_ts y = fst (last (recentFlows n h)) \<and> fc_seconds y = n")
    case True
    then obtain n y where y: "seconds_param (q ''seconds'') 10 RECENT_FLOWS = Inr n" "recentFlows n h \<noteq> []"
      "lc_flows c = Some y" "fc_ts y = fst (last (recentFlows n h))" "fc_seconds y = n" by blast
    with assms(1) recentFlows_last [OF y(2)] obtain g where "g \<in> set gs" "fc_res y = flows_answer_of g (fc_ts y) (recentFlows n h)"
      by (auto simp: cache_ok_def)
    then show ?thesis using y by (intro bexI [of _ g]) (simp_all add: live_flows_def no_cache_def Let_def)
  next
    case False
    then have "fst (live_flows geo h q c) = fst (live_flows geo h q no_cache)"
      by (auto simp: live_flows_def no_cache_def Let_def split: sum.split option.split)
    with assms(2) show ?thesis by blast
  qed
qed

lemma live_snapshot_uncached:
  assumes "cache_ok us gs h c" and "users \<in> set us" and "hub_fresh cap h" "0 < cap"
  shows "\<exists>u \<in> set us. fst (live_snapshot users now h c) = fst (live_snapshot u now h no_cache)"
    "cache_ok us gs h (snd (live_snapshot users now h c))"
proof -
  have tick: "recent h \<noteq> [] \<and> ts_ms s = fst (last (recent h))" if "latest h = Some s" for s
    using that assms(3) hub_fresh_latest [OF assms(3,4)] by (auto simp: hub_fresh_def begun_def)
  show "cache_ok us gs h (snd (live_snapshot users now h c))"
    using assms(1,2) tick by (auto simp: live_snapshot_def cache_ok_def Let_def split: option.split prod.split)
  show "\<exists>u \<in> set us. fst (live_snapshot users now h c) = fst (live_snapshot u now h no_cache)"
  proof (cases "\<exists>s res. latest h = Some s \<and> lc_reduced c = Some (s, res)")
    case True
    then obtain s res where y: "latest h = Some s" "lc_reduced c = Some (s, res)" by blast
    with assms(1) obtain u where "u \<in> set us" "res = snapshotRows s (Users_name u)" by (auto simp: cache_ok_def)
    then show ?thesis using y by (intro bexI [of _ u]) (simp_all add: live_snapshot_def no_cache_def Let_def)
  next
    case False
    then have "fst (live_snapshot users now h c) = fst (live_snapshot users now h no_cache)"
      by (auto simp: live_snapshot_def no_cache_def Let_def split: option.split prod.split)
    with assms(2) show ?thesis by blast
  qed
qed

lemma cache_reach_ok:
  assumes "cache_reach parse cap us gs h c" and "0 < cap"
  shows "cache_ok us gs h c \<and> hub_fresh cap h \<and> us \<noteq> [] \<and> gs \<noteq> []"
  using assms
proof (induction rule: cache_reach.induct)
  case (start users geo)
  show ?case by (simp add: cache_ok_def no_cache_def hub_fresh_def hub_inv_def begun_def new_LiveHub_def buffers_empty)
next
  case (read us gs h c h' io)
  then have g: "grows h h'" and f: "hub_fresh cap h'" using run_iter_grows [of cap h parse io] by simp_all
  have "recent h' = recent h"
  proof (rule ccontr)
    assume "recent h' \<noteq> recent h"
    with g have n: "recent h' \<noteq> []" "recent h \<noteq> [] \<Longrightarrow> fst (last (recent h)) < fst (last (recent h'))" by (auto simp: grows_def)
    from hub_fresh_latest [OF f read.prems n(1)] read(3) obtain s
      where s: "latest h = Some s" "ts_ms s = fst (last (recent h'))" by auto
    then have "recent h \<noteq> []" using read by (auto simp: hub_fresh_def begun_def)
    with hub_fresh_latest [of cap h] read s n(2) show False by auto
  qed
  with read f show ?case using cache_ok_same by blast
next
  case (tick us gs h c h' io)
  then have g: "grows h h'" and f: "hub_fresh cap h'" using run_iter_grows [of cap h parse io] by simp_all
  with tick have n: "recent h' \<noteq> []" "recent h \<noteq> [] \<Longrightarrow> fst (last (recent h)) < fst (last (recent h'))" by (auto simp: grows_def)
  from hub_fresh_latest [OF f tick.prems n(1)] tick f n show ?case using cache_ok_newer [of us gs h c h'] by auto
next
  case (users us gs h c u)
  then show ?case using cache_ok_mono [of us gs h c "u # us" gs] by auto
next
  case (geo us gs h c g)
  then show ?case using cache_ok_mono [of us gs h c us "g # gs"] by auto
next
  case (snapshot us gs h c now)
  then show ?case using live_snapshot_uncached(2) [of us gs h c "hd us" cap] by simp
next
  case (flows us gs h c q)
  then show ?case using live_flows_uncached(2) [of us gs h c "hd gs"] by simp
qed

text \<open>
  (C7) What the caches may show: after any interleaving of the hub's reads with snapshot and flow
  requests, of any windows and by any number of browsers, and with reloads of the user list and of
  the IP table, a request is answered as a server without caches would answer it for the same state
  of the hub, with the user names and the IP table of some moment since the latest tick. So an
  answer is never older than the newest tick, and while the tables have not been reloaded since that
  tick the caches cannot be seen at all; a reload is seen in these answers with the next tick at the
  latest.
\<close>

theorem live_caches_transparent:
  assumes "cache_reach parse cap us gs h c" and "0 < cap"
  shows "(\<exists>u \<in> set us. fst (live_snapshot (hd us) now h c) = fst (live_snapshot u now h no_cache))
    \<and> (\<exists>g \<in> set gs. fst (live_flows (hd gs) h q c) = fst (live_flows g h q no_cache))
    \<and> (set us \<subseteq> {hd us} \<longrightarrow> fst (live_snapshot (hd us) now h c) = fst (live_snapshot (hd us) now h no_cache))
    \<and> (set gs \<subseteq> {hd gs} \<longrightarrow> fst (live_flows (hd gs) h q c) = fst (live_flows (hd gs) h q no_cache))"
proof -
  note ok = cache_reach_ok [OF assms]
  then have "hd us \<in> set us" "hd gs \<in> set gs" by simp_all
  then have "\<exists>u \<in> set us. fst (live_snapshot (hd us) now h c) = fst (live_snapshot u now h no_cache)"
    "\<exists>g \<in> set gs. fst (live_flows (hd gs) h q c) = fst (live_flows g h q no_cache)"
    using ok live_snapshot_uncached(1) [OF _ _ _ assms(2)] live_flows_uncached(1) by blast+
  then show ?thesis by auto
qed

text \<open>A tick, a request and then a reload of the user list: the answer is still of the old list.\<close>

definition one_user :: Users where
  "one_user = new_Users\<lparr> user_map := [(0, ''root'')] \<rparr>"

theorem live_caches_transparent_witness:
  "\<exists>c. cache_reach sample_parse 900 [one_user, new_Users] [new_GeoDb None] sample_hub c \<and> lc_reduced c \<noteq> None
     \<and> (\<exists>u \<in> {one_user, new_Users}. fst (live_snapshot one_user 9 sample_hub c) = fst (live_snapshot u 9 sample_hub no_cache))"
proof -
  let ?c = "snd (live_snapshot new_Users 8 sample_hub no_cache)"
  have l: "latest sample_hub \<noteq> None" by code_simp
  have "cache_reach sample_parse 900 [hd [new_Users]] [hd [new_GeoDb None]] sample_hub no_cache"
    using l by (intro cache_reach.tick [OF cache_reach.start]) (simp_all add: sample_hub_def new_LiveHub_def)
  then have "cache_reach sample_parse 900 [new_Users] [new_GeoDb None] sample_hub no_cache" by simp
  from cache_reach.users [OF cache_reach.snapshot [OF this, of 8]]
  have r: "cache_reach sample_parse 900 [one_user, new_Users] [new_GeoDb None] sample_hub ?c" by simp
  have "lc_reduced ?c \<noteq> None" using l by (auto simp: live_snapshot_def Let_def)
  moreover have "\<exists>u \<in> {one_user, new_Users}. fst (live_snapshot one_user 9 sample_hub ?c) = fst (live_snapshot u 9 sample_hub no_cache)"
    using live_caches_transparent [OF r, of 9 Map.empty] by simp
  ultimately show ?thesis using r by blast
qed

end
