(* ===== verification/Server.thy ===== *)
theory Server
  imports RoutesStorage RoutesLive
begin

text \<open>
  \<^verbatim>\<open>web/src/server/config.ts\<close>, \<^verbatim>\<open>index.ts\<close>, \<^verbatim>\<open>timeout.ts\<close>, the status functions of \<^verbatim>\<open>db/clickhouse.ts\<close> and
  \<^verbatim>\<open>db/redis.ts\<close>, and \<^verbatim>\<open>routes/health.ts\<close>. The process environment is a map; the host of a URL
  (\<open>new URL(url).host\<close>, absent when it does not parse) is a parameter. A promise is the time it
  settles, in milliseconds from now, with its value or error; \<open>None\<close> is one that never settles.
\<close>

section \<open>Configuration\<close>

type_synonym environment = "string \<Rightarrow> string option"

definition env :: "environment \<Rightarrow> string \<Rightarrow> string \<Rightarrow> string" where
  "env e name fallback = (case e name of None \<Rightarrow> fallback | Some v \<Rightarrow> if v = [] then fallback else v)"

definition port :: "environment \<Rightarrow> string \<Rightarrow> nat \<Rightarrow> string + num" where
  "port e name fallback = (let raw = env e name (string_of_nat fallback) in case js_Number raw of
       Some n \<Rightarrow> if \<not> isInteger n \<or> n < 1 \<or> n > 65535 then Inl (name @ '': invalid port '' @ [CHR 0x22] @ raw @ [CHR 0x22]) else Inr n
     | None \<Rightarrow> Inl (name @ '': invalid port '' @ [CHR 0x22] @ raw @ [CHR 0x22]))"

definition config_int :: "environment \<Rightarrow> string \<Rightarrow> nat \<Rightarrow> nat \<Rightarrow> nat \<Rightarrow> string + num" where
  "config_int e name fallback lo hi = (let raw = env e name (string_of_nat fallback);
       bad = Inl (name @ '': expected an integer in '' @ string_of_nat lo @ ''..'' @ string_of_nat hi @ '', got '' @ [CHR 0x22] @ raw @ [CHR 0x22])
     in case js_Number raw of
       Some n \<Rightarrow> if \<not> isInteger n \<or> n < of_nat lo \<or> n > of_nat hi then bad else Inr n
     | None \<Rightarrow> bad)"

record Config =
  cf_host :: string
  cf_port :: num
  cf_logLevel :: string
  cf_redisUrl :: string
  cf_chUrl :: string
  cf_chUser :: string
  cf_chPassword :: string
  cf_chDatabase :: string
  cf_liveBackfill :: num
  cf_geoipFile :: string
  cf_rdns :: bool
  cf_storageAdminPassword :: string

text \<open>The module throws when a number is out of range. The geo file is named relative to the application.\<close>

definition load_config :: "environment \<Rightarrow> string + Config" where
  "load_config e =
     bind_res (port e ''WEB_PORT'' 8787) (\<lambda>p.
     bind_res (config_int e ''LIVE_BACKFILL'' 900 1 86400) (\<lambda>b.
     Inr \<lparr> cf_host = env e ''WEB_HOST'' ''127.0.0.1'', cf_port = p, cf_logLevel = env e ''LOG_LEVEL'' ''info'',
       cf_redisUrl = env e ''REDIS_URL'' ''redis://127.0.0.1:6379'', cf_chUrl = env e ''CLICKHOUSE_URL'' ''http://127.0.0.1:8123'',
       cf_chUser = env e ''CLICKHOUSE_USER'' ''netwatch'', cf_chPassword = env e ''CLICKHOUSE_PASSWORD'' ''netwatch'',
       cf_chDatabase = env e ''CLICKHOUSE_DATABASE'' ''netwatch'', cf_liveBackfill = b,
       cf_geoipFile = env e ''GEOIP_FILE'' ''data/ip2asn-combined.tsv.gz'', cf_rdns = (env e ''RDNS'' ''0'' = ''1''),
       cf_storageAdminPassword = (case e ''STORAGE_ADMIN_PASSWORD'' of None \<Rightarrow> [] | Some s \<Rightarrow> s) \<rparr>))"

definition displayTarget :: "(string \<Rightarrow> string option) \<Rightarrow> string \<Rightarrow> string" where
  "displayTarget host url = (case host url of Some h \<Rightarrow> h | None \<Rightarrow> ''(invalid url)'')"

section \<open>Errors and unknown paths\<close>

text \<open>An error as the handler sees it: its status, if it has one, and whether it is an \<open>HttpError\<close>.\<close>

record server_error =
  er_status :: "int option"
  er_http :: bool
  er_message :: string

definition error_handler :: "server_error \<Rightarrow> int \<times> string" where
  "error_handler err =
     (let status = (case er_status err of Some s \<Rightarrow> if s \<noteq> 0 \<and> s \<ge> 400 then s else 500 | None \<Rightarrow> 500);
          expose = (status < 500 \<or> er_http err)
      in (status, if expose then er_message err else ''internal error''))"

text \<open>What a route throws, as the handler sees it.\<close>

definition thrown_error :: "thrown \<Rightarrow> server_error" where
  "thrown_error t = (case t of
       Http e \<Rightarrow> \<lparr> er_status = Some (statusCode e), er_http = True, er_message = message e \<rparr>
     | Thrown m \<Rightarrow> \<lparr> er_status = None, er_http = False, er_message = m \<rparr>)"

datatype not_found = SendIndex | NotFound404

text \<open>\<open>/^\/api(\/|\?|$)/\<close>\<close>

definition api_path :: "string \<Rightarrow> bool" where
  "api_path url \<longleftrightarrow> starts_with ''/api'' url \<and> (case drop 4 url of [] \<Rightarrow> True | c # _ \<Rightarrow> c = CHR ''/'' \<or> c = CHR ''?'')"

definition not_found_handler :: "bool \<Rightarrow> string \<Rightarrow> string \<Rightarrow> not_found" where
  "not_found_handler serveClient meth url =
     (if meth = ''GET'' \<and> \<not> api_path url \<and> serveClient then SendIndex else NotFound404)"

section \<open>Health\<close>

text \<open>
  A promise: the milliseconds after which it settles and what with, or \<open>None\<close> if it never does. Awaiting
  one promise and then the one its value gives adds up their times.
\<close>

type_synonym 'a promise = "(nat \<times> (string + 'a)) option"

definition and_then :: "'a promise \<Rightarrow> ('a \<Rightarrow> 'b promise) \<Rightarrow> 'b promise" where
  "and_then p f = (case p of
       None \<Rightarrow> None
     | Some (t, Inl err) \<Rightarrow> Some (t, Inl err)
     | Some (t, Inr x) \<Rightarrow> map_option (\<lambda>(u, r). (t + u, r)) (f x))"

text \<open>\<open>withTimeout\<close>: the promise that settles first wins.\<close>

definition withTimeout :: "'a promise \<Rightarrow> nat \<Rightarrow> string \<Rightarrow> 'a promise" where
  "withTimeout p ms what =
     (let timeout = (ms, Inl (what @ '' timed out after '' @ string_of_nat ms @ '' ms'')) in case p of
       Some (t, r) \<Rightarrow> Some (if t < ms then (t, r) else timeout)
     | None \<Rightarrow> Some timeout)"

record BackendStatus =
  bs_ok :: bool
  bs_target :: string
  bs_latencyMs :: "num option"
  bs_version :: "string option"
  bs_error :: "string option"

definition down :: "string \<Rightarrow> string \<Rightarrow> BackendStatus" where
  "down target err = \<lparr> bs_ok = False, bs_target = target, bs_latencyMs = None, bs_version = None, bs_error = Some err \<rparr>"

definition up :: "string \<Rightarrow> num \<Rightarrow> string option \<Rightarrow> BackendStatus" where
  "up target latency version =
     \<lparr> bs_ok = True, bs_target = target, bs_latencyMs = Some (round_dec 10 latency), bs_version = version, bs_error = None \<rparr>"

definition redis_version :: "string \<Rightarrow> string option" where
  "redis_version info = map_option (\<lambda>l. trim (drop 14 l))
     (List.find (\<lambda>l. starts_with ''redis_version:'' l \<and> length l > 14) (info_lines info))"

text \<open>
  The status of a backend as a promise that does not reject: the time of the answer, and the answer,
  or \<open>None\<close>. \<open>latency\<close> is the elapsed time as the clock shows it.
\<close>

type_synonym status_promise = "(nat \<times> BackendStatus) option"

definition redisStatus :: "string \<Rightarrow> bool \<Rightarrow> string promise \<Rightarrow> num \<Rightarrow> status_promise" where
  "redisStatus target ready info latency =
     (if \<not> ready then Some (0, down target ''not connected'')
      else map_option (\<lambda>(t, r). (t, case r of
          Inl err \<Rightarrow> down target err
        | Inr text \<Rightarrow> up target latency (redis_version text))) (withTimeout info 2000 ''redis INFO''))"

text \<open>
  The client of ClickHouse is a parameter: \<open>client ms\<close> is \<open>client.query\<close> of the version with an
  \<open>abort_signal\<close> that fires after \<open>ms\<close> milliseconds. It gives a result set, which is here what its
  \<open>json()\<close> will give, the version of each row, counted from the call of \<open>json()\<close>.
\<close>

type_synonym ch_version_query = "nat \<Rightarrow> string list promise promise"

definition clickhouseStatus :: "string \<Rightarrow> ch_version_query \<Rightarrow> num \<Rightarrow> status_promise" where
  "clickhouseStatus target client latency =
     map_option (\<lambda>(t, r). (t, case r of
         Inl err \<Rightarrow> down target err
       | Inr vs \<Rightarrow> up target latency (case vs of [] \<Rightarrow> None | v # _ \<Rightarrow> Some v)))
       (and_then (client 2000) (\<lambda>json. json))"

record HealthResponse =
  hr_serverTimeMs :: int
  hr_uptimeS :: int
  hr_redis :: BackendStatus
  hr_clickhouse :: BackendStatus
  hr_geo :: GeoStatus
  hr_rdns :: bool

text \<open>\<open>Promise.all\<close> waits for the later of the two; the answer itself takes no time.\<close>

definition health :: "int \<Rightarrow> num \<Rightarrow> status_promise \<Rightarrow> status_promise \<Rightarrow> GeoDb \<Rightarrow> Rdns \<Rightarrow> (nat \<times> HealthResponse) option" where
  "health now uptime redis ch geo rdns = (case (redis, ch) of
       (Some (t, r), Some (u, c)) \<Rightarrow> Some (max t u,
         \<lparr> hr_serverTimeMs = now, hr_uptimeS = Math_round uptime, hr_redis = r, hr_clickhouse = c,
           hr_geo = GeoDb_status geo, hr_rdns = rdns_enabled rdns \<rparr>)
     | _ \<Rightarrow> None)"

section \<open>Laws\<close>

text \<open>
  What the abort signal of a request is documented to do: until it fires the request goes on as it
  would without it; when it fires, a request that has not been answered rejects, and so does reading
  a body that has not arrived. \<open>query\<close> is what the server would do without a signal, \<open>msg\<close> the message
  of the abort error.
\<close>

definition under_signal :: "nat \<Rightarrow> string \<Rightarrow> 'a promise \<Rightarrow> 'a promise" where
  "under_signal ms msg p = (case p of
       Some (t, r) \<Rightarrow> if t < ms then Some (t, r) else Some (ms, Inl msg)
     | None \<Rightarrow> Some (ms, Inl msg))"

definition honours_abort :: "string \<Rightarrow> string list promise promise \<Rightarrow> ch_version_query \<Rightarrow> bool" where
  "honours_abort msg query client \<longleftrightarrow> (\<forall>ms. client ms = (case under_signal ms msg query of
       Some (t, Inr json) \<Rightarrow> Some (t, Inr (under_signal (ms - t) msg json))
     | other \<Rightarrow> other))"

text \<open>Then query and body together are one promise that the signal ends.\<close>

lemma honours_abort_awaited:
  assumes "honours_abort msg query client"
  shows "and_then (client ms) (\<lambda>json. json) = under_signal ms msg (and_then query (\<lambda>json. json))"
  using assms unfolding honours_abort_def
  by (auto simp: and_then_def under_signal_def split: option.split sum.split)

lemma under_signal_settles: "\<exists>t r. under_signal ms msg p = Some (t, r) \<and> t \<le> ms"
  by (auto simp: under_signal_def split: option.split)

lemma withTimeout_signal:
  "withTimeout p ms what = under_signal ms (what @ '' timed out after '' @ string_of_nat ms @ '' ms'') p"
  by (auto simp: withTimeout_def under_signal_def Let_def split: option.split)

lemma under_signal_result:
  "under_signal ms msg p = Some (t, Inr x) \<longleftrightarrow> p = Some (t, Inr x) \<and> t < ms"
  by (auto simp: under_signal_def split: option.split if_splits)

text \<open>The state a backend is reported in, by what it was awaited for.\<close>

lemma redisStatus_report:
  "\<exists>t b. redisStatus target ready info l = Some (t, b) \<and> t \<le> 2000 \<and> (bs_ok b \<longleftrightarrow> bs_error b = None)
     \<and> (bs_ok b \<longleftrightarrow> ready \<and> (\<exists>u tx. info = Some (u, Inr tx) \<and> u < 2000))"
proof (cases ready)
  case True
  obtain t r where p: "withTimeout info 2000 ''redis INFO'' = Some (t, r)" "t \<le> 2000"
    unfolding withTimeout_signal using under_signal_settles by blast
  then have "(\<exists>tx. r = Inr tx) \<longleftrightarrow> (\<exists>u tx. info = Some (u, Inr tx) \<and> u < 2000)"
    unfolding withTimeout_signal using under_signal_result [of 2000 _ info] by (metis option.inject prod.inject)
  with p True show ?thesis by (cases r) (auto simp: redisStatus_def up_def down_def)
qed (simp add: redisStatus_def down_def)

lemma clickhouseStatus_report:
  assumes "honours_abort msg query client"
  shows "\<exists>t b. clickhouseStatus target client l = Some (t, b) \<and> t \<le> 2000 \<and> (bs_ok b \<longleftrightarrow> bs_error b = None)
     \<and> (bs_ok b \<longleftrightarrow> (\<exists>u v vs. query = Some (u, Inr (Some (v, Inr vs))) \<and> u + v < 2000))"
proof -
  let ?p = "and_then query (\<lambda>json. json)"
  obtain t r where p: "under_signal 2000 msg ?p = Some (t, r)" "t \<le> 2000" using under_signal_settles by blast
  then have "(\<exists>vs. r = Inr vs) \<longleftrightarrow> (\<exists>w vs. ?p = Some (w, Inr vs) \<and> w < 2000)"
    using under_signal_result [of 2000 msg ?p] by (metis option.inject prod.inject)
  also have "\<dots> \<longleftrightarrow> (\<exists>u v vs. query = Some (u, Inr (Some (v, Inr vs))) \<and> u + v < 2000)"
    by (auto simp: and_then_def split: option.split sum.split)
  finally show ?thesis
    using p by (cases r) (auto simp: clickhouseStatus_def honours_abort_awaited [OF assms] up_def down_def)
qed

text \<open>
  (C39) The health endpoint answers within two seconds, whatever Redis and ClickHouse do (answer,
  fail, or stay silent for ever, before the answer or in the middle of its body), provided that the
  client of ClickHouse honours the abort signal it is given. It reports Redis up exactly when it was
  connected and the reply came within the two seconds, and ClickHouse up exactly when the query and
  its body together did; a backend is reported up exactly without an error.
\<close>

theorem health_answers:
  assumes "honours_abort msg query client"
  shows "\<exists>t hr. health now uptime (redisStatus t1 ready info l1) (clickhouseStatus t2 client l2) geo rdns = Some (t, hr)
    \<and> t \<le> 2000
    \<and> (bs_ok (hr_redis hr) \<longleftrightarrow> ready \<and> (\<exists>u tx. info = Some (u, Inr tx) \<and> u < 2000))
    \<and> (bs_ok (hr_clickhouse hr) \<longleftrightarrow> (\<exists>u v vs. query = Some (u, Inr (Some (v, Inr vs))) \<and> u + v < 2000))
    \<and> (bs_ok (hr_redis hr) \<longleftrightarrow> bs_error (hr_redis hr) = None)
    \<and> (bs_ok (hr_clickhouse hr) \<longleftrightarrow> bs_error (hr_clickhouse hr) = None)"
proof -
  from redisStatus_report [of t1 ready info l1] obtain t r where r: "redisStatus t1 ready info l1 = Some (t, r) \<and> t \<le> 2000
      \<and> (bs_ok r \<longleftrightarrow> bs_error r = None) \<and> (bs_ok r \<longleftrightarrow> ready \<and> (\<exists>u tx. info = Some (u, Inr tx) \<and> u < 2000))"
    by (elim exE) (rule that)
  from clickhouseStatus_report [OF assms, of t2 l2] obtain u c where c: "clickhouseStatus t2 client l2 = Some (u, c) \<and> u \<le> 2000
      \<and> (bs_ok c \<longleftrightarrow> bs_error c = None)
      \<and> (bs_ok c \<longleftrightarrow> (\<exists>u v vs. query = Some (u, Inr (Some (v, Inr vs))) \<and> u + v < 2000))"
    by (elim exE) (rule that)
  let ?hr = "\<lparr> hr_serverTimeMs = now, hr_uptimeS = Math_round uptime, hr_redis = r, hr_clickhouse = c,
    hr_geo = GeoDb_status geo, hr_rdns = rdns_enabled rdns \<rparr>"
  have "health now uptime (redisStatus t1 ready info l1) (clickhouseStatus t2 client l2) geo rdns = Some (max t u, ?hr)"
    using r c by (simp add: health_def)
  moreover have "hr_redis ?hr = r" "hr_clickhouse ?hr = c" "max t u \<le> 2000" using r c by simp_all
  ultimately show ?thesis using r c by metis
qed

text \<open>
  A client that honours the signal, on a server that sends its headers after 3 ms and then nothing:
  with a silent Redis, both are down after two seconds.
\<close>

definition aborting :: "string list promise promise \<Rightarrow> ch_version_query" where
  "aborting query ms = (case under_signal ms ''aborted'' query of
       Some (t, Inr json) \<Rightarrow> Some (t, Inr (under_signal (ms - t) ''aborted'' json))
     | other \<Rightarrow> other)"

theorem health_answers_witness:
  "\<exists>t hr. health 0 0 (redisStatus ''redis'' True None 0) (clickhouseStatus ''ch'' (aborting (Some (3, Inr None))) 3)
       (new_GeoDb None) (new_Rdns False) = Some (t, hr)
     \<and> t \<le> 2000 \<and> \<not> bs_ok (hr_redis hr) \<and> \<not> bs_ok (hr_clickhouse hr) \<and> bs_error (hr_clickhouse hr) \<noteq> None"
proof -
  have "honours_abort ''aborted'' (Some (3, Inr None)) (aborting (Some (3, Inr None)))"
    by (simp add: honours_abort_def aborting_def)
  from health_answers [OF this, of 0 0 "''redis''" True None 0 "''ch''" 3 "new_GeoDb None" "new_Rdns False"]
  show ?thesis by (elim exE conjE) (intro exI conjI, assumption+, simp_all)
qed

text \<open>
  No internal message leaves the server: an error that is not an \<open>HttpError\<close> and has no client
  status is answered 500 \<open>internal error\<close>; an \<open>HttpError\<close> of the routes (all have a status of 400 or
  more) keeps its status and message.
\<close>

theorem error_handler_hides:
  "400 \<le> fst (error_handler err)
   \<and> (\<not> er_http err \<and> 500 \<le> fst (error_handler err) \<longrightarrow> snd (error_handler err) = ''internal error'')
   \<and> error_handler (thrown_error (Thrown m)) = (500, ''internal error'')
   \<and> (400 \<le> statusCode e \<longrightarrow> error_handler (thrown_error (Http e)) = (statusCode e, message e))"
  by (auto simp: error_handler_def thrown_error_def Let_def split: option.split)

theorem error_handler_hides_witness:
  "error_handler (thrown_error (Http (HttpError 429 ''wait''))) = (429, ''wait'')"
  using error_handler_hides [where e = "HttpError 429 ''wait''"] by simp

text \<open>
  A configuration that loads is within its bounds: the port is a whole number of 1 to 65535 and
  the live buffer of 1 to 86400 ticks; an empty variable counts as unset, and without variables the
  defaults hold.
\<close>

theorem load_config_bounds:
  assumes "load_config e = Inr c"
  shows "(\<exists>p. cf_port c = of_nat p \<and> 1 \<le> p \<and> p \<le> 65535) \<and> (\<exists>b. cf_liveBackfill c = of_nat b \<and> 1 \<le> b \<and> b \<le> 86400)
    \<and> load_config (\<lambda>k. if e k = Some [] \<and> k \<noteq> ''STORAGE_ADMIN_PASSWORD'' then None else e k) = Inr c"
proof -
  have nat: "\<exists>p. x = of_nat p \<and> lo \<le> p \<and> p \<le> hi" if "isInteger x" "\<not> x < of_nat lo" "\<not> x > of_nat hi" for x lo hi
  proof -
    from that(1) obtain z where z: "x = of_int z" by (auto simp: isInteger_def)
    with that(2) have "int lo \<le> z" by (metis not_less of_int_le_iff of_int_of_nat_eq)
    moreover from that(3) z have "z \<le> int hi" by (metis not_less of_int_le_iff of_int_of_nat_eq)
    ultimately show ?thesis using z by (intro exI [of _ "nat z"]) (auto simp: of_nat_nat)
  qed
  let ?e = "\<lambda>k. if e k = Some [] \<and> k \<noteq> ''STORAGE_ADMIN_PASSWORD'' then None else e k"
  have env: "Server.env ?e k d = Server.env e k d" if "k \<noteq> ''STORAGE_ADMIN_PASSWORD''" for k d
    using that by (auto simp: env_def split: option.split)
  have "load_config ?e = load_config e"
    by (simp add: load_config_def port_def config_int_def env)
  moreover have "\<exists>p. cf_port c = of_nat p \<and> 1 \<le> p \<and> p \<le> 65535"
    using assms nat [of _ 1 65535] by (auto simp: load_config_def port_def Let_def split: option.splits if_splits)
  moreover have "\<exists>b. cf_liveBackfill c = of_nat b \<and> 1 \<le> b \<and> b \<le> 86400"
    using assms nat [of _ 1 86400] by (auto simp: load_config_def config_int_def Let_def split: option.splits if_splits)
  ultimately show ?thesis using assms by simp
qed

theorem load_config_bounds_witness:
  "\<exists>c. load_config (\<lambda>k. if k = ''WEB_PORT'' then Some ''9000'' else None) = Inr c \<and> cf_port c = 9000 \<and> (\<exists>b. cf_liveBackfill c = of_nat b \<and> b \<le> 86400)"
proof -
  let ?e = "\<lambda>k. if k = ''WEB_PORT'' then Some ''9000'' else None"
  have "js_Number ''9000'' = Some 9000" "isInteger 9000" "js_Number (string_of_nat 900) = Some 900" "isInteger 900" by code_simp+
  then obtain c where "load_config ?e = Inr c" "cf_port c = 9000"
    by (auto simp: load_config_def port_def config_int_def env_def Let_def)
  with load_config_bounds [of ?e c] show ?thesis by blast
qed

end
