(* ===== verification/ClientBase.thy ===== *)
theory ClientBase
  imports Storage Sums
begin

text \<open>
  What the theories of the browser side (\<^verbatim>\<open>web/src/client\<close>) share: sorting by a text key,
  \<open>Array.prototype.findIndex\<close>, and the query string of the page, read as the list of its decoded
  parameters (\<open>URLSearchParams\<close>, whose \<open>get\<close> returns the first value of a name).
\<close>

section \<open>Orders and searches\<close>

text \<open>\<open>(a, b) => (a < b ? -1 : a > b ? 1 : 0)\<close> and, for distinct keys, \<open>(a, b) => (a < b ? -1 : 1)\<close>.\<close>

definition str_asc :: "('a \<Rightarrow> string) \<Rightarrow> 'a \<Rightarrow> 'a \<Rightarrow> bool" where
  "str_asc f x y \<longleftrightarrow> \<not> str_less (f y) (f x)"

lemma comparator_str_asc [simp, intro]: "comparator (str_asc f)"
  unfolding str_asc_def
  by unfold_locales (metis str_less_trans str_less_irrefl, metis str_less_linear str_less_trans)

lemma str_asc_antisym: "str_asc f x y \<Longrightarrow> str_asc f y x \<Longrightarrow> f x = f y"
  unfolding str_asc_def using str_less_linear by blast

lemma sort_by_eq_Nil [simp]: "sort_by le xs = [] \<longleftrightarrow> xs = []"
  by (metis length_0_conv length_sort_by)

text \<open>A sort whose ties are decided by unique keys does not depend on the order of its input.\<close>

lemma sorted_wrt_unique:
  assumes "sorted_wrt le xs" and "sorted_wrt le ys" and "mset xs = mset ys"
    and "\<And>x y. x \<in> set xs \<Longrightarrow> y \<in> set xs \<Longrightarrow> le x y \<Longrightarrow> le y x \<Longrightarrow> x = y"
  shows "xs = ys"
  using assms
proof (induction xs arbitrary: ys)
  case (Cons x xs)
  then obtain y ys' where ys: "ys = y # ys'" by (cases ys) auto
  have sets: "set (x # xs) = set (y # ys')" using Cons.prems(3) ys by (metis set_mset_mset)
  have "x = y"
  proof (rule ccontr)
    assume "x \<noteq> y"
    then have "y \<in> set xs" "x \<in> set ys'" using sets by auto
    then have "le x y" "le y x" using Cons.prems(1,2) ys by auto
    then show False using Cons.prems(4) [of x y] \<open>y \<in> set xs\<close> \<open>x \<noteq> y\<close> by simp
  qed
  moreover have "xs = ys'" using Cons.IH [of ys'] Cons.prems ys \<open>x = y\<close> by auto
  ultimately show ?case by (simp add: ys)
qed simp

fun find_index :: "('a \<Rightarrow> bool) \<Rightarrow> 'a list \<Rightarrow> nat option" where
  "find_index P' [] = None"
| "find_index P' (x # xs) = (if P' x then Some 0 else map_option Suc (find_index P' xs))"

lemma find_index_None_iff: "find_index P' xs = None \<longleftrightarrow> (\<forall>x \<in> set xs. \<not> P' x)"
  by (induction xs) auto

lemma find_index_SomeD:
  "find_index P' xs = Some r \<Longrightarrow> r < length xs \<and> P' (xs ! r) \<and> (\<forall>q < r. \<not> P' (xs ! q))"
proof (induction xs arbitrary: r)
  case (Cons x xs)
  show ?case
  proof (cases "P' x")
    case False
    with Cons.prems obtain q where q: "find_index P' xs = Some q" "r = Suc q" by auto
    show ?thesis using Cons.IH [OF q(1)] q(2) False by (auto simp: less_Suc_eq_0_disj)
  qed (use Cons.prems in auto)
qed simp

lemma mset_concat_cong: "mset xs = mset ys \<Longrightarrow> mset (concat xs) = mset (concat ys)"
proof -
  assume "mset xs = mset ys"
  then have "sum_mset (image_mset mset (mset xs)) = sum_mset (image_mset mset (mset ys))" by simp
  then show ?thesis by (simp only: mset_concat mset_map [symmetric] sum_mset_sum_list)
qed

text \<open>Rows grouped by a key, each group in the order of its rows: \<open>m.get(k)\<close> or a new array, then \<open>push_row\<close>.\<close>

definition push_row :: "'r list option \<Rightarrow> 'r \<Rightarrow> 'r list" where
  "push_row v r = (case v of None \<Rightarrow> [] | Some l \<Rightarrow> l) @ [r]"

lemma push_simps [simp]: "push_row None r = [r]" "push_row (Some l) r = l @ [r]"
  by (simp_all add: push_row_def)

lemma foldl_snoc: "foldl (\<lambda>v r. v @ [r]) l rs = l @ rs"
  by (induction rs arbitrary: l) auto

lemma foldl_push: "foldl (\<lambda>v r. Some (push_row v r)) None rs = (if rs = [] then None else Some rs)"
  by (cases rs) (simp_all add: foldl_Some foldl_snoc)

lemma in_accum_push: "(k, l) \<in> set (accum key push_row rows []) \<longleftrightarrow> l = filter (\<lambda>r. key r = k) rows \<and> l \<noteq> []"
  by (auto simp: in_accum_iff foldl_push)

lemma mset_map_set_push:
  "map_ok m \<Longrightarrow> mset (concat (map snd (map_set k (push_row (map_get m k) r) m))) = add_mset r (mset (concat (map snd m)))"
  by (induction m) (auto simp: map_set_def map_get_def map_ok_def split: option.splits)

lemma mset_accum_push: "mset (concat (map snd (accum key push_row rows []))) = mset rows"
proof -
  have "map_ok m \<Longrightarrow> mset (concat (map snd (accum key push_row rows m))) = mset (concat (map snd m)) + mset rows" for m
    by (induction rows arbitrary: m) (simp_all add: mset_map_set_push alm.invar_put)
  then show ?thesis by simp
qed

text \<open>Sums of whole numbers below \<open>2^53\<close> are exact.\<close>

lemma exact_fsum:
  fixes f :: "'a \<Rightarrow> num"
  assumes "\<forall>x \<in> set xs. f x \<in> \<nat>" and "(\<Sum>x \<leftarrow> xs. f x) \<le> 2 ^ 53"
  shows "fsum (map f xs) = (\<Sum>x \<leftarrow> xs. f x)"
proof -
  have f: "f x = of_nat (nat \<lfloor>f x\<rfloor>)" if "x \<in> set xs" for x
    using assms(1) that by (auto elim!: Nats_cases)
  have s: "(\<Sum>x \<leftarrow> xs. f x) = of_nat (\<Sum>x \<leftarrow> xs. nat \<lfloor>f x\<rfloor>)"
    using f by (simp add: of_nat_sum_list comp_def cong: map_cong)
  then have "of_nat (\<Sum>x \<leftarrow> xs. nat \<lfloor>f x\<rfloor>) \<le> (of_nat (2 ^ 53) :: num)" using assms(2) by simp
  then have "(\<Sum>x \<leftarrow> xs. nat \<lfloor>f x\<rfloor>) \<le> 2 ^ 53" unfolding of_nat_le_iff .
  from fsum_nats [OF f this] show ?thesis using s by simp
qed

lemma sum_list_ge_filter:
  fixes f :: "'a \<Rightarrow> num"
  assumes "\<forall>x \<in> set xs. 0 \<le> f x" shows "(\<Sum>x \<leftarrow> filter P' xs. f x) \<le> (\<Sum>x \<leftarrow> xs. f x)"
  using assms by (induction xs) (auto intro: add_mono order_trans [OF _ add_increasing])

lemma sum_list_ge_member:
  fixes h :: "'a \<Rightarrow> num"
  assumes "\<forall>x \<in> set xs. 0 \<le> h x" and "y \<in> set xs" shows "h y \<le> (\<Sum>x \<leftarrow> xs. h x)"
proof -
  obtain us vs where xs: "xs = us @ y # vs" using assms(2) by (metis split_list)
  have "0 \<le> (\<Sum>x \<leftarrow> us. h x)" "0 \<le> (\<Sum>x \<leftarrow> vs. h x)" using assms(1) by (auto simp: xs intro!: sum_list_nonneg)
  then show ?thesis by (simp add: xs)
qed

lemma distinct_map_sort_by: "distinct (map f (sort_by le xs)) \<longleftrightarrow> distinct (map f xs)"
  by (metis mset_map mset_sort_by mset_eq_imp_distinct_iff)

section \<open>The query string\<close>

type_synonym search = "(string \<times> string) list"

definition search_get :: "search \<Rightarrow> string \<Rightarrow> string option" where
  "search_get q k = map_of q k"

section \<open>Integers as text\<close>

definition show_int :: "int \<Rightarrow> string" where
  "show_int n = (if n < 0 then CHR ''-'' # string_of_nat (nat (- n)) else string_of_nat (nat n))"

lemma show_int_inj: "show_int m = show_int n \<longleftrightarrow> m = n"
proof -
  have digit: "string_of_nat k \<noteq> CHR ''-'' # s" for k s
    using string_of_nat_digits [of k] by (auto simp: list_all_iff)
  have inj: "string_of_nat k = string_of_nat j \<longleftrightarrow> k = j" for k j by (metis dec_val_string_of_nat)
  show ?thesis using digit digit [symmetric] by (auto simp: show_int_def inj)
qed

end
