(* ===== verification/ClientLanes.thy ===== *)
theory ClientLanes
  imports ClientBase Beacons Processes
begin

text \<open>
  \<^verbatim>\<open>web/src/client/history/packLanes.ts\<close>: the layout of the process lifetime chart. Instances are
  grouped into one lane per process name, and instances of a name that overlap in time get rows of
  their own, by greedy interval partitioning. The theory shows that no two bars of a row overlap and
  that no assignment of rows can do with fewer. \<open>Math.sqrt\<close> and \<open>Math.log10\<close> are parameters
  (\<open>msqrt\<close>, \<open>log10\<close>).
\<close>

section \<open>Rows of overlapping intervals\<close>

datatype GanttSort = ByStart | ByBytes

definition parseSort :: "string option \<Rightarrow> GanttSort" where
  "parseSort raw = (if raw = Some ''bytes'' then ByBytes else ByStart)"

definition barEnd :: "LifetimeBar \<Rightarrow> num \<Rightarrow> num" where
  "barEnd b now = max (max (case lb_endedMs b of Some e \<Rightarrow> e | None \<Rightarrow> now) (lb_firstSeenMs b)) (lb_lastSeenMs b)"

lemma barEnd_ge: "lb_startMs b \<le> lb_firstSeenMs b \<Longrightarrow> lb_startMs b \<le> barEnd b now"
  by (simp add: barEnd_def le_max_iff_disj)

type_synonym interval = "num \<times> num"

text \<open>
  One turn of the loop: the interval goes into the first row whose last interval has ended, or into
  a new one. Every index of \<open>out\<close> is written once, so its initial zeros never show.
\<close>

definition place :: "interval list \<Rightarrow> nat \<Rightarrow> num list \<times> nat list \<Rightarrow> num list \<times> nat list" where
  "place ivs i st = (case st of (rowEnd, out) \<Rightarrow> case ivs ! i of (start, en) \<Rightarrow>
     (case find_index (\<lambda>e. e \<le> start) rowEnd of
        None \<Rightarrow> (rowEnd @ [en], out[i := length rowEnd])
      | Some row \<Rightarrow> (rowEnd[row := en], out[i := row])))"

definition start_order :: "interval list \<Rightarrow> nat list" where
  "start_order ivs = sort_by (by_then (asc_by (\<lambda>i. fst (ivs ! i))) (asc_by (\<lambda>i. i))) [0..<length ivs]"

definition subRows :: "interval list \<Rightarrow> nat list" where
  "subRows ivs = snd (fold (place ivs) (start_order ivs) ([], replicate (length ivs) 0))"

section \<open>Statistics of a lane\<close>

record LaneStats =
  ls_n :: nat
  ls_ended :: nat
  medianLifetimeMs :: "num option"
  meanGapMs :: "num option"
  gapCv :: "num option"
  scheduled :: bool

definition median_opt :: "num list \<Rightarrow> num option" where
  "median_opt xs = (if xs = [] then None else Some (median xs))"

definition laneStats :: "(num \<Rightarrow> num) \<Rightarrow> LifetimeBar list \<Rightarrow> LaneStats" where
  "laneStats msqrt bars =
     (let lifetimes = map (\<lambda>b. fsub (barEnd b 0) (lb_startMs b)) (filter (\<lambda>b. lb_endedMs b \<noteq> None) bars);
          starts = sort_by (asc_by (\<lambda>x. x)) (map lb_startMs bars);
          gaps = map2 (\<lambda>s p. fsub s p) (tl starts) starts;
          k = of_nat (length gaps);
          mean = (if gaps \<noteq> [] then Some (fdiv (fsum gaps) k) else None);
          c = (case mean of
                 Some m \<Rightarrow> if length gaps \<ge> 2 \<and> m > 0
                   then Some (fdiv (msqrt (fdiv (fsum (map (\<lambda>g. fmul (fsub g m) (fsub g m)) gaps)) k)) m) else None
               | None \<Rightarrow> None)
      in \<lparr> ls_n = length bars, ls_ended = length lifetimes, medianLifetimeMs = median_opt lifetimes, meanGapMs = mean,
           gapCv = c, scheduled = (length bars \<ge> 5 \<and> (case c of Some x \<Rightarrow> x < fl (1 / 10) | None \<Rightarrow> False)) \<rparr>)"

section \<open>Lanes\<close>

record Lane =
  ln_name :: string
  ln_bars :: "LifetimeBar list"
  row0 :: nat
  ln_rows :: nat
  ln_bytes :: num
  firstStart :: num
  stats :: LaneStats

record PackedBar =
  pk_bar :: LifetimeBar
  pk_row :: nat
  pk_lane :: nat
  pk_end :: num

record Packed =
  pk_lanes :: "Lane list"
  pk_bars :: "PackedBar list"
  pk_rows :: nat

definition new_lane :: "(num \<Rightarrow> num) \<Rightarrow> string \<times> LifetimeBar list \<Rightarrow> Lane" where
  "new_lane msqrt nl = (case nl of (name, l) \<Rightarrow>
     let list = sort_by (by_then (asc_by lb_startMs) (str_asc lb_id)) l
     in \<lparr> ln_name = name, ln_bars = list, row0 = 0, ln_rows = 0,
          ln_bytes = foldl (\<lambda>s b. fadd (fadd s (lb_tx b)) (lb_rx b)) 0 list,
          firstStart = lb_startMs (hd list), stats = laneStats msqrt list \<rparr>)"

definition lane_order :: "GanttSort \<Rightarrow> Lane \<Rightarrow> Lane \<Rightarrow> bool" where
  "lane_order srt = (case srt of
       ByBytes \<Rightarrow> by_then (desc_by ln_bytes) (str_asc ln_name)
     | ByStart \<Rightarrow> by_then (asc_by firstStart) (str_asc ln_name))"

definition lane_intervals :: "num \<Rightarrow> Lane \<Rightarrow> interval list" where
  "lane_intervals now lane = map (\<lambda>b. (lb_startMs b, barEnd b now)) (ln_bars lane)"

definition lane_height :: "num \<Rightarrow> Lane \<Rightarrow> nat" where
  "lane_height now lane = foldr max (subRows (lane_intervals now lane)) 0 + 1"

definition lane_packed :: "num \<Rightarrow> nat \<Rightarrow> nat \<Rightarrow> Lane \<Rightarrow> PackedBar list" where
  "lane_packed now row li lane = map2 (\<lambda>b s. \<lparr> pk_bar = b, pk_row = row + s, pk_lane = li, pk_end = barEnd b now \<rparr>)
     (ln_bars lane) (subRows (lane_intervals now lane))"

fun pack_loop :: "num \<Rightarrow> nat \<Rightarrow> nat \<Rightarrow> Lane list \<Rightarrow> Lane list \<times> PackedBar list \<times> nat" where
  "pack_loop now row li [] = ([], [], row)"
| "pack_loop now row li (lane # rest) =
     (let h = lane_height now lane; (ls, bs, tot) = pack_loop now (row + h) (Suc li) rest
      in (lane\<lparr> row0 := row, ln_rows := h \<rparr> # ls, lane_packed now row li lane @ bs, tot))"

definition packLanes :: "(num \<Rightarrow> num) \<Rightarrow> LifetimeBar list \<Rightarrow> GanttSort \<Rightarrow> num \<Rightarrow> Packed" where
  "packLanes msqrt bars srt now =
     (let lanes = sort_by (lane_order srt) (map (new_lane msqrt) (accum lb_name push_row bars []));
          (ls, bs, tot) = pack_loop now 0 0 lanes
      in \<lparr> pk_lanes = ls, pk_bars = bs, pk_rows = tot \<rparr>)"

text \<open>The multiplication sign is the character 0xD7.\<close>

definition laneLabel :: "Lane \<Rightarrow> string" where
  "laneLabel lane = (if length (ln_bars lane) > 1
     then ln_name lane @ '' '' @ [CHR 0xD7] @ string_of_nat (length (ln_bars lane)) else ln_name lane)"

definition logBytes :: "(num \<Rightarrow> num) \<Rightarrow> num \<Rightarrow> num" where
  "logBytes log10 bytes = log10 (max 1 bytes)"

definition colorExtent :: "num list \<Rightarrow> num \<times> num" where
  "colorExtent values = (case values of
       [] \<Rightarrow> (0, 1)
     | v # vs \<Rightarrow> let lo = foldl min v vs; hi = foldl max v vs
         in if hi > lo then (lo, hi) else (max 0 (fsub lo (1 / 2)), fadd lo (1 / 2)))"

section \<open>The greedy assignment is correct and optimal\<close>

text \<open>
  After the intervals \<open>D\<close> have been placed: each row's last end bounds the ends in the row, intervals
  of one row do not overlap, and when an interval is in row \<open>r\<close> then every row below \<open>r\<close> has an
  interval that runs at its start.
\<close>

definition rows_ok :: "interval list \<Rightarrow> nat set \<Rightarrow> num list \<times> nat list \<Rightarrow> bool" where
  "rows_ok ivs D st \<longleftrightarrow> (case st of (rowEnd, out) \<Rightarrow>
     length out = length ivs \<and> D \<subseteq> {..<length ivs}
     \<and> (\<forall>j \<in> D. out ! j < length rowEnd \<and> snd (ivs ! j) \<le> rowEnd ! (out ! j))
     \<and> (\<forall>r < length rowEnd. \<exists>j \<in> D. out ! j = r \<and> rowEnd ! r = snd (ivs ! j))
     \<and> (\<forall>i \<in> D. \<forall>j \<in> D. i \<noteq> j \<and> out ! i = out ! j \<longrightarrow> snd (ivs ! i) \<le> fst (ivs ! j) \<or> snd (ivs ! j) \<le> fst (ivs ! i))
     \<and> (\<forall>i \<in> D. \<forall>r < out ! i. \<exists>j \<in> D. out ! j = r \<and> fst (ivs ! j) \<le> fst (ivs ! i) \<and> fst (ivs ! i) < snd (ivs ! j)))"

lemma place_eq:
  "place ivs i (rowEnd, out) = (case find_index (\<lambda>e. e \<le> fst (ivs ! i)) rowEnd of
     None \<Rightarrow> (rowEnd @ [snd (ivs ! i)], out[i := length rowEnd])
   | Some row \<Rightarrow> (rowEnd[row := snd (ivs ! i)], out[i := row]))"
  by (cases "ivs ! i") (auto simp: place_def split: option.split)

lemma place_rows_ok:
  assumes inv: "rows_ok ivs D st" and i: "i < length ivs" "i \<notin> D"
    and late: "\<forall>j \<in> D. fst (ivs ! j) \<le> fst (ivs ! i)" and pos: "fst (ivs ! i) \<le> snd (ivs ! i)"
  shows "rows_ok ivs (insert i D) (place ivs i st)"
proof -
  obtain rowEnd out where st: "st = (rowEnd, out)" by (cases st)
  have len: "length out = length ivs" and D: "D \<subseteq> {..<length ivs}"
    and ends: "\<And>j. j \<in> D \<Longrightarrow> out ! j < length rowEnd \<and> snd (ivs ! j) \<le> rowEnd ! (out ! j)"
    and lasts: "\<And>r. r < length rowEnd \<Longrightarrow> \<exists>j \<in> D. out ! j = r \<and> rowEnd ! r = snd (ivs ! j)"
    and apart: "\<And>i j. i \<in> D \<Longrightarrow> j \<in> D \<Longrightarrow> i \<noteq> j \<Longrightarrow> out ! i = out ! j \<Longrightarrow>
      snd (ivs ! i) \<le> fst (ivs ! j) \<or> snd (ivs ! j) \<le> fst (ivs ! i)"
    and busy: "\<And>i r. i \<in> D \<Longrightarrow> r < out ! i \<Longrightarrow>
      \<exists>j \<in> D. out ! j = r \<and> fst (ivs ! j) \<le> fst (ivs ! i) \<and> fst (ivs ! i) < snd (ivs ! j)"
    using inv unfolding rows_ok_def st prod.case by simp_all
  have old [simp]: "out[i := r] ! j = out ! j" if "j \<in> D" for j r using that i(2) by (cases "j = i") auto
  have new [simp]: "out[i := r] ! i = r" for r using i(1) len by simp
  obtain rowEnd' row where pl: "place ivs i st = (rowEnd', out[i := row])" and row: "row < length rowEnd'"
    and le: "length rowEnd \<le> length rowEnd'" and grow: "\<And>r. r < length rowEnd' \<Longrightarrow> r \<noteq> row \<Longrightarrow> r < length rowEnd \<and> rowEnd' ! r = rowEnd ! r"
    and put: "rowEnd' ! row = snd (ivs ! i)"
    and free: "row < length rowEnd \<Longrightarrow> rowEnd ! row \<le> fst (ivs ! i)"
    and full: "\<And>r. r < row \<Longrightarrow> r < length rowEnd \<and> fst (ivs ! i) < rowEnd ! r"
  proof (cases "find_index (\<lambda>e. e \<le> fst (ivs ! i)) rowEnd")
    case None
    show ?thesis
      by (rule that [of "rowEnd @ [snd (ivs ! i)]" "length rowEnd"])
        (use None None [unfolded find_index_None_iff] in \<open>auto simp: st place_eq nth_append not_le\<close>)
  next
    case (Some r)
    show ?thesis
      by (rule that [of "rowEnd[r := snd (ivs ! i)]" r])
        (use find_index_SomeD [OF Some] Some in \<open>auto simp: st place_eq not_le\<close>)
  qed
  have before: "snd (ivs ! j) \<le> fst (ivs ! i)" if "j \<in> D" "out ! j = row" for j
    using ends [OF that(1)] free that(2) by auto
  have ends': "out ! j < length rowEnd' \<and> snd (ivs ! j) \<le> rowEnd' ! (out ! j)" if "j \<in> D" for j
    using ends [OF that] grow [of "out ! j"] before [OF that] pos put le by (cases "out ! j = row") auto
  have lasts': "\<exists>j \<in> insert i D. out[i := row] ! j = r \<and> rowEnd' ! r = snd (ivs ! j)" if "r < length rowEnd'" for r
    using lasts [of r] grow [OF that] put by (cases "r = row") auto
  have run: "\<exists>j \<in> D. out ! j = r \<and> fst (ivs ! j) \<le> fst (ivs ! i) \<and> fst (ivs ! i) < snd (ivs ! j)" if "r < row" for r
    using lasts [of r] full [OF that] late by auto
  show ?thesis
    unfolding pl rows_ok_def prod.case
  proof (intro conjI allI impI ballI)
    fix a b assume "a \<in> insert i D" "b \<in> insert i D" "a \<noteq> b \<and> out[i := row] ! a = out[i := row] ! b"
    then show "snd (ivs ! a) \<le> fst (ivs ! b) \<or> snd (ivs ! b) \<le> fst (ivs ! a)"
      using apart [of a b] before by auto
  next
    fix a r assume "a \<in> insert i D" "r < out[i := row] ! a"
    then show "\<exists>j \<in> insert i D. out[i := row] ! j = r \<and> fst (ivs ! j) \<le> fst (ivs ! a) \<and> fst (ivs ! a) < snd (ivs ! j)"
      using busy [of a r] run [of r] by (cases "a = i") auto
  qed (use len D i(1) ends' lasts' row put in auto)
qed

lemma fold_place_rows_ok:
  assumes "rows_ok ivs D st" and "distinct is" and "set is \<inter> D = {}" and "set is \<subseteq> {..<length ivs}"
    and "sorted_wrt (\<lambda>i j. fst (ivs ! i) \<le> fst (ivs ! j)) is" and "\<forall>i \<in> set is. \<forall>j \<in> D. fst (ivs ! j) \<le> fst (ivs ! i)"
    and "\<forall>iv \<in> set ivs. fst iv \<le> snd iv"
  shows "rows_ok ivs (set is \<union> D) (fold (place ivs) is st)"
  using assms
proof (induction "is" arbitrary: D st)
  case (Cons i "is")
  have "rows_ok ivs (insert i D) (place ivs i st)"
    using Cons.prems by (intro place_rows_ok) (auto simp: nth_mem)
  then show ?case using Cons.IH [of "insert i D" "place ivs i st"] Cons.prems by auto
qed simp

lemma start_order_props:
  "distinct (start_order ivs)" "set (start_order ivs) = {..<length ivs}"
  "sorted_wrt (\<lambda>i j. fst (ivs ! i) \<le> fst (ivs ! j)) (start_order ivs)"
proof -
  show "sorted_wrt (\<lambda>i j. fst (ivs ! i) \<le> fst (ivs ! j)) (start_order ivs)"
    unfolding start_order_def
    by (rule sorted_wrt_mono_rel [OF _ sort_by_sorted_wrt [OF comparator_by_then [OF comparator_asc_by comparator_asc_by]]])
      (simp add: by_then_def asc_by_def)
qed (auto simp: start_order_def)

lemma subRows_ok:
  assumes "\<forall>iv \<in> set ivs. fst iv \<le> snd iv"
  obtains rowEnd where "rows_ok ivs {..<length ivs} (rowEnd, subRows ivs)"
proof -
  have "rows_ok ivs (set (start_order ivs) \<union> {}) (fold (place ivs) (start_order ivs) ([], replicate (length ivs) 0))"
    by (rule fold_place_rows_ok) (use assms start_order_props in \<open>auto simp: rows_ok_def\<close>)
  then show thesis using that by (simp add: start_order_props subRows_def) (metis prod.collapse)
qed

text \<open>
  Two intervals that share more than an end point; a valid assignment keeps them in different rows.
\<close>

definition overlap :: "interval \<Rightarrow> interval \<Rightarrow> bool" where
  "overlap a b \<longleftrightarrow> fst a < snd b \<and> fst b < snd a"

definition valid_rows :: "interval list \<Rightarrow> (nat \<Rightarrow> nat) \<Rightarrow> bool" where
  "valid_rows ivs f \<longleftrightarrow> (\<forall>i < length ivs. \<forall>j < length ivs. i \<noteq> j \<and> overlap (ivs ! i) (ivs ! j) \<longrightarrow> f i \<noteq> f j)"

lemma length_subRows [simp]: "length (subRows ivs) = length ivs"
proof -
  have "length (snd (fold (place ivs) is st)) = length (snd st)" for "is" st
    by (induction "is" arbitrary: st) (auto simp: place_def split: prod.splits option.splits)
  then show ?thesis by (simp add: subRows_def)
qed

lemma subRows_valid:
  assumes "\<forall>iv \<in> set ivs. fst iv \<le> snd iv"
  shows "valid_rows ivs (\<lambda>i. subRows ivs ! i)"
proof -
  obtain rowEnd where "rows_ok ivs {..<length ivs} (rowEnd, subRows ivs)" using subRows_ok [OF assms] .
  then show ?thesis by (fastforce simp: rows_ok_def valid_rows_def overlap_def)
qed

text \<open>The intervals that run when one of them starts, one for each row below its own.\<close>

lemma subRows_clique:
  assumes "\<forall>iv \<in> set ivs. fst iv < snd iv" and i: "i < length ivs"
  obtains js where "js \<subseteq> {..<length ivs}" "card js = Suc (subRows ivs ! i)"
    "\<And>a b. a \<in> js \<Longrightarrow> b \<in> js \<Longrightarrow> overlap (ivs ! a) (ivs ! b)"
proof -
  let ?out = "\<lambda>j. subRows ivs ! j" and ?s = "fst (ivs ! i)"
  obtain rowEnd where ok: "rows_ok ivs {..<length ivs} (rowEnd, subRows ivs)"
    using subRows_ok [of ivs] assms(1) by (metis order_less_imp_le)
  have "\<forall>r \<in> {..<?out i}. \<exists>j < length ivs. ?out j = r \<and> fst (ivs ! j) \<le> ?s \<and> ?s < snd (ivs ! j)"
    using ok i unfolding rows_ok_def prod.case Bex_def Ball_def lessThan_iff by blast
  then obtain g where g: "\<And>r. r < ?out i \<Longrightarrow> g r < length ivs \<and> ?out (g r) = r \<and> fst (ivs ! g r) \<le> ?s \<and> ?s < snd (ivs ! g r)"
    by (metis lessThan_iff)
  define js where "js = insert i (g ` {..<?out i})"
  have run: "j < length ivs \<and> fst (ivs ! j) \<le> ?s \<and> ?s < snd (ivs ! j)" if "j \<in> js" for j
    using that g i assms(1) by (auto simp: js_def)
  have "inj_on g {..<?out i}" by (rule inj_onI) (metis g lessThan_iff)
  moreover have "i \<notin> g ` {..<?out i}" using g by fastforce
  ultimately have "card js = Suc (?out i)" by (simp add: js_def card_image)
  moreover have "overlap (ivs ! a) (ivs ! b)" if "a \<in> js" "b \<in> js" for a b
    using run [OF that(1)] run [OF that(2)] by (auto simp: overlap_def)
  ultimately show thesis using that [of js] run by auto
qed

lemma subRows_minimal:
  assumes "\<forall>iv \<in> set ivs. fst iv < snd iv" and i: "i < length ivs" and f: "valid_rows ivs f"
  shows "subRows ivs ! i < card (f ` {..<length ivs})"
proof -
  obtain js where js: "js \<subseteq> {..<length ivs}" "card js = Suc (subRows ivs ! i)"
    "\<And>a b. a \<in> js \<Longrightarrow> b \<in> js \<Longrightarrow> overlap (ivs ! a) (ivs ! b)"
    using subRows_clique [OF assms(1) i] by blast
  have "inj_on f js"
    using f js(1,3) unfolding valid_rows_def by (intro inj_onI) (metis lessThan_iff subsetD)
  then have "card (f ` js) = Suc (subRows ivs ! i)" by (simp add: card_image js(2))
  moreover have "card (f ` js) \<le> card (f ` {..<length ivs})" by (intro card_mono image_mono js(1)) auto
  ultimately show ?thesis by simp
qed

section \<open>The layout\<close>

lemma lane_height_bound: "s \<in> set (subRows (lane_intervals now lane)) \<Longrightarrow> s < lane_height now lane"
proof -
  have "s \<in> set xs \<Longrightarrow> s \<le> foldr max xs (0::nat)" for s xs by (induction xs) auto
  then show "s \<in> set (subRows (lane_intervals now lane)) \<Longrightarrow> s < lane_height now lane"
    by (fastforce simp: lane_height_def)
qed

lemma lane_height_minimal:
  assumes "ln_bars lane \<noteq> []" and "\<forall>b \<in> set (ln_bars lane). lb_startMs b < barEnd b now"
    and "valid_rows (lane_intervals now lane) f"
  shows "lane_height now lane \<le> card (f ` {..<length (ln_bars lane)})"
proof -
  let ?ivs = "lane_intervals now lane"
  have n: "length ?ivs = length (ln_bars lane)" by (simp add: lane_intervals_def)
  have "xs \<noteq> [] \<Longrightarrow> foldr max xs (0::nat) \<in> set xs" for xs
  proof (induction xs)
    case (Cons x xs)
    then show ?case by (cases "xs = []") (auto simp: max_def)
  qed simp
  then have "foldr max (subRows ?ivs) 0 \<in> set (subRows ?ivs)" using assms(1) n by (metis length_0_conv length_subRows)
  then obtain i where i: "i < length ?ivs" "subRows ?ivs ! i = foldr max (subRows ?ivs) 0"
    by (auto simp: in_set_conv_nth)
  have "\<forall>iv \<in> set ?ivs. fst iv < snd iv" using assms(2) by (auto simp: lane_intervals_def)
  from subRows_minimal [OF this i(1) assms(3)] show ?thesis by (simp add: lane_height_def i(2) n)
qed

definition apart :: "PackedBar \<Rightarrow> PackedBar \<Rightarrow> bool" where
  "apart x y \<longleftrightarrow> (pk_row x = pk_row y \<longrightarrow> lb_name (pk_bar x) = lb_name (pk_bar y)
     \<and> (pk_end x \<le> lb_startMs (pk_bar y) \<or> pk_end y \<le> lb_startMs (pk_bar x)))"

definition lane_wf :: "num \<Rightarrow> Lane \<Rightarrow> bool" where
  "lane_wf now lane \<longleftrightarrow> (\<forall>b \<in> set (ln_bars lane). lb_name b = ln_name lane \<and> lb_startMs b \<le> barEnd b now)"

lemma lane_packed_apart: "lane_wf now lane \<Longrightarrow> sorted_wrt apart (lane_packed now row li lane)"
proof -
  assume wf: "lane_wf now lane"
  let ?ivs = "lane_intervals now lane"
  have v: "valid_rows ?ivs (\<lambda>i. subRows ?ivs ! i)"
    using wf by (intro subRows_valid) (auto simp: lane_intervals_def lane_wf_def)
  have n: "length ?ivs = length (ln_bars lane)" by (simp add: lane_intervals_def)
  have nth: "?ivs ! i = (lb_startMs (ln_bars lane ! i), barEnd (ln_bars lane ! i) now)" if "i < length (ln_bars lane)" for i
    using that by (simp add: lane_intervals_def)
  have "\<not> (lb_startMs (ln_bars lane ! i) < barEnd (ln_bars lane ! j) now \<and> lb_startMs (ln_bars lane ! j) < barEnd (ln_bars lane ! i) now)"
    if ij: "i < j" "j < length (ln_bars lane)" "subRows ?ivs ! i = subRows ?ivs ! j" for i j
    using v [unfolded valid_rows_def, rule_format, of i j] ij nth [of i] nth [of j] n by (auto simp: overlap_def)
  then show ?thesis
    using wf by (auto simp: sorted_wrt_iff_nth_less lane_packed_def apart_def lane_wf_def lane_intervals_def not_less)
qed

lemma lane_packed_bars: "map pk_bar (lane_packed now row li lane) = ln_bars lane"
  by (rule nth_equalityI) (simp_all add: lane_packed_def lane_intervals_def)

lemma lane_packed_rows: "x \<in> set (lane_packed now row li lane) \<Longrightarrow> row \<le> pk_row x \<and> pk_row x < row + lane_height now lane"
  using lane_height_bound by (auto simp: lane_packed_def dest: set_zip_rightD)

lemma pack_loop_rows:
  assumes "pack_loop now row li lanes = (ls, bs, tot)"
  shows "row \<le> tot \<and> (\<forall>x \<in> set bs. row \<le> pk_row x \<and> pk_row x < tot) \<and> tot = row + (\<Sum>l \<leftarrow> ls. ln_rows l)"
  using assms
proof (induction lanes arbitrary: row li ls bs tot)
  case (Cons lane rest)
  obtain ls' bs' tot' where p: "pack_loop now (row + lane_height now lane) (Suc li) rest = (ls', bs', tot')"
    by (metis prod_cases3)
  show ?case using Cons.IH [OF p] Cons.prems p lane_packed_rows [of _ now row li lane]
    by (fastforce simp: Let_def)
qed simp

lemma pack_loop_bars:
  assumes "pack_loop now row li lanes = (ls, bs, tot)"
  shows "map pk_bar bs = concat (map ln_bars lanes)"
  using assms
  by (induction lanes arbitrary: row li ls bs tot) (auto simp: Let_def lane_packed_bars split: prod.splits)

text \<open>What the loop leaves of a lane as it is.\<close>

definition lane_view :: "Lane \<Rightarrow> string \<times> LifetimeBar list \<times> num \<times> num \<times> LaneStats" where
  "lane_view l = (ln_name l, ln_bars l, ln_bytes l, firstStart l, stats l)"

lemma pack_loop_lanes:
  assumes "pack_loop now row li lanes = (ls, bs, tot)"
  shows "map lane_view ls = map lane_view lanes
    \<and> (\<forall>l \<in> set ls. ln_rows l = lane_height now l)"
  using assms
  by (induction lanes arbitrary: row li ls bs tot)
    (auto simp: Let_def lane_view_def lane_height_def lane_intervals_def split: prod.splits)

lemma pack_loop_apart:
  assumes "pack_loop now row li lanes = (ls, bs, tot)" and "\<forall>lane \<in> set lanes. lane_wf now lane"
  shows "sorted_wrt apart bs"
  using assms
proof (induction lanes arbitrary: row li ls bs tot)
  case (Cons lane rest)
  obtain ls' bs' tot' where p: "pack_loop now (row + lane_height now lane) (Suc li) rest = (ls', bs', tot')"
    by (metis prod_cases3)
  have "apart x y" if "x \<in> set (lane_packed now row li lane)" "y \<in> set bs'" for x y
    using lane_packed_rows [OF that(1)] pack_loop_rows [OF p] that(2) by (fastforce simp: apart_def)
  then show ?case using Cons p by (auto simp: Let_def sorted_wrt_append lane_packed_apart)
qed simp

lemma comparator_lane_order [simp, intro]: "comparator (lane_order srt)"
  by (cases srt) (auto simp: lane_order_def intro!: comparator_by_then)

lemma lane_order_cong: "lane_view a = lane_view a' \<Longrightarrow> lane_view b = lane_view b' \<Longrightarrow> lane_order srt a b = lane_order srt a' b'"
  by (simp add: lane_view_def lane_order_def by_then_def desc_by_def asc_by_def str_asc_def split: GanttSort.split)

lemma sorted_lane_view:
  assumes "map lane_view ls = map lane_view ls'" and "sorted_wrt (lane_order srt) ls'"
  shows "sorted_wrt (lane_order srt) ls"
  using assms
proof (induction ls arbitrary: ls')
  case (Cons l ls)
  then obtain l' ls'' where l: "ls' = l' # ls''" "lane_view l = lane_view l'" "map lane_view ls = map lane_view ls''"
    by (auto simp: Cons_eq_map_conv)
  have "lane_order srt l x" if "x \<in> set ls" for x
  proof -
    have "lane_view x \<in> set (map lane_view ls'')" unfolding l(3) [symmetric] using that by simp
    then obtain x' where "x' \<in> set ls''" "lane_view x = lane_view x'" by auto
    then show ?thesis using lane_order_cong [OF l(2), of x x' srt] Cons.prems(2) l(1) by auto
  qed
  then show ?case using Cons.IH [OF l(3)] Cons.prems(2) l(1) by auto
qed simp

text \<open>
  (C25) The lifetime chart: for instances that start no later than their first traffic, every instance is
  drawn exactly once, two bars in one row belong to the same process name and do not overlap in time,
  all rows are among those counted, the lanes are in the chosen order with one lane per name, and no
  assignment that keeps overlapping bars of a lane apart has fewer rows than the lane (when its bars
  have a positive length).
\<close>

theorem packLanes_layout:
  assumes "\<forall>b \<in> set bars. lb_startMs b \<le> lb_firstSeenMs b"
  shows "let p = packLanes msqrt bars srt now in
    mset (map pk_bar (pk_bars p)) = mset bars
    \<and> sorted_wrt apart (pk_bars p)
    \<and> (\<forall>x \<in> set (pk_bars p). pk_row x < pk_rows p)
    \<and> pk_rows p = (\<Sum>l \<leftarrow> pk_lanes p. ln_rows l)
    \<and> distinct (map ln_name (pk_lanes p)) \<and> sorted_wrt (lane_order srt) (pk_lanes p)
    \<and> (\<forall>l \<in> set (pk_lanes p). \<forall>f. (\<forall>b \<in> set (ln_bars l). lb_startMs b < barEnd b now) \<and> valid_rows (lane_intervals now l) f
      \<longrightarrow> ln_rows l \<le> card (f ` {..<length (ln_bars l)}))"
proof -
  let ?acc = "accum lb_name push_row bars []"
  define lanes where "lanes = sort_by (lane_order srt) (map (new_lane msqrt) ?acc)"
  obtain ls bs tot where p: "pack_loop now 0 0 lanes = (ls, bs, tot)" by (metis prod_cases3)
  have q: "packLanes msqrt bars srt now = \<lparr> pk_lanes = ls, pk_bars = bs, pk_rows = tot \<rparr>"
    using p by (simp add: packLanes_def lanes_def)
  have view: "map lane_view ls = map lane_view lanes" using pack_loop_lanes [OF p] by blast
  have lane: "ln_bars l \<noteq> [] \<and> lane_wf now l" if "l \<in> set lanes" for l
    using that assms by (auto simp: lanes_def new_lane_def Let_def in_accum_push lane_wf_def barEnd_ge)
  have "mset (concat (map ln_bars (map (new_lane msqrt) m))) = mset (concat (map snd m))" for m
    by (induction m) (auto simp: new_lane_def Let_def)
  moreover have "mset (map ln_bars (sort_by le xs)) = mset (map ln_bars xs)" for le and xs :: "Lane list"
    by simp
  then have "mset (concat (map ln_bars (sort_by le xs))) = mset (concat (map ln_bars xs))" for le and xs :: "Lane list"
    by (rule mset_concat_cong)
  ultimately have "mset (concat (map ln_bars lanes)) = mset bars"
    by (simp only: lanes_def mset_accum_push)
  then have drawn: "mset (map pk_bar bs) = mset bars" by (simp only: pack_loop_bars [OF p])
  have "ln_name (new_lane msqrt x) = fst x" for x by (cases x) (simp add: new_lane_def Let_def)
  then have "mset (map ln_name lanes) = mset (map fst ?acc)" by (simp add: lanes_def image_mset.compositionality comp_def)
  from mset_eq_imp_distinct_iff [OF this] have "distinct (map ln_name lanes)" by simp
  then have names: "distinct (map ln_name ls)" using arg_cong [OF view, of "map fst"] by (simp add: comp_def lane_view_def)
  have sorted: "sorted_wrt (lane_order srt) ls"
    by (rule sorted_lane_view [OF view]) (simp add: lanes_def sort_by_sorted_wrt)
  have rows: "ln_rows l \<le> card (f ` {..<length (ln_bars l)})"
    if "l \<in> set ls" "\<forall>b \<in> set (ln_bars l). lb_startMs b < barEnd b now" "valid_rows (lane_intervals now l) f" for l f
  proof -
    have "lane_view l \<in> set (map lane_view lanes)" unfolding view [symmetric] using that(1) by simp
    then obtain l' where "l' \<in> set lanes" "lane_view l = lane_view l'" by auto
    then have "ln_bars l \<noteq> []" using lane [of l'] by (simp add: lane_view_def)
    with that pack_loop_lanes [OF p] show ?thesis using lane_height_minimal [of l now f] by auto
  qed
  show ?thesis
    unfolding q Let_def using drawn names sorted rows pack_loop_rows [OF p] pack_loop_apart [OF p] lane by auto
qed

theorem packLanes_layout_witness:
  "let bar = (\<lambda>i n s e. \<lparr> lb_id = i, lb_pid = 1, lb_name = n, lb_cmdline = [], lb_uid = 0, lb_startMs = s, lb_firstSeenMs = s,
       lb_lastSeenMs = s, lb_endedMs = e, lb_tx = 0, lb_rx = 0 \<rparr>);
     p = packLanes id [bar ''1:1'' ''curl'' 5 (Some 9), bar ''1:2'' ''cron'' 0 (Some 4), bar ''1:3'' ''curl'' 7 None] ByStart 20
   in map (\<lambda>x. (lb_id (pk_bar x), pk_row x, pk_end x)) (pk_bars p) =
        [(''1:2'', 0, 4), (''1:1'', 1, 9), (''1:3'', 2, 20)]
      \<and> pk_rows p = 3 \<and> sorted_wrt apart (pk_bars p)"
proof -
  define bar where "bar = (\<lambda>i n s e. \<lparr> lb_id = i, lb_pid = 1, lb_name = n, lb_cmdline = [], lb_uid = 0, lb_startMs = s, lb_firstSeenMs = s,
       lb_lastSeenMs = s, lb_endedMs = e, lb_tx = 0, lb_rx = 0 \<rparr>)"
  let ?bars = "[bar ''1:1'' ''curl'' 5 (Some 9), bar ''1:2'' ''cron'' 0 (Some 4), bar ''1:3'' ''curl'' 7 None]"
  have "\<forall>b \<in> set ?bars. lb_startMs b \<le> lb_firstSeenMs b" by (simp add: bar_def)
  from packLanes_layout [OF this, of id ByStart 20]
  have "sorted_wrt apart (pk_bars (packLanes id ?bars ByStart 20))" unfolding Let_def by blast
  moreover have "(map (\<lambda>x. (lb_id (pk_bar x), pk_row x, pk_end x)) (pk_bars (packLanes id ?bars ByStart 20)), pk_rows (packLanes id ?bars ByStart 20)) =
        ([(''1:2'', 0, 4), (''1:1'', 1, 9), (''1:3'', 2, 20)], 3)" unfolding bar_def by code_simp
  ultimately show ?thesis unfolding bar_def Let_def by simp
qed

section \<open>Scheduled processes\<close>

text \<open>
  A process started by a timer is recognised: when at least five instances start exactly \<open>p\<close>
  milliseconds apart, in whatever order they are listed, the mean gap is \<open>p\<close>, its variation 0 and
  the lane is called scheduled; with three or four instances the statistics are the same and the
  lane is not.
\<close>

theorem laneStats_regular:
  assumes "mset (map lb_startMs bars) = mset (even_ticks t0 p n)" and "3 \<le> n" and "0 < p" "int n * p \<le> 2 ^ 53" and "msqrt 0 = 0"
  shows "meanGapMs (laneStats msqrt bars) = Some (of_int p) \<and> gapCv (laneStats msqrt bars) = Some 0
    \<and> (scheduled (laneStats msqrt bars) \<longleftrightarrow> n \<ge> 5) \<and> ls_n (laneStats msqrt bars) = n"
proof -
  define m where "m = n - 1"
  have m: "2 \<le> m" "m \<noteq> 0" using assms(2) by (auto simp: m_def)
  have mp: "int m * p \<le> int n * p" using assms(3) by (intro mult_right_mono) (auto simp: m_def)
  have "1 * p \<le> int n * p" using assms(2,3) by (intro mult_right_mono) auto
  from order.trans [OF this assms(4)] have p: "\<bar>p\<bar> \<le> 2 ^ 53" using assms(3) by simp
  have "sorted (even_ticks t0 p n)"
    using assms(3) by (auto simp: even_ticks_def sorted_iff_nth_mono mult_right_mono simp flip: of_int_le_iff)
  moreover have "sorted (sort_by (asc_by (\<lambda>x. x)) (map lb_startMs bars))"
    by (rule sorted_wrt_mono_rel [OF _ sort_by_sorted_wrt [OF comparator_asc_by]]) (simp add: asc_by_def)
  ultimately have st: "sort_by (asc_by (\<lambda>x. x)) (map lb_startMs bars) = even_ticks t0 p n"
    using assms(1) by (metis mset_sort_by properties_for_sort)
  have n: "length bars = n" using arg_cong [OF assms(1), of size] by simp
  have gaps: "map2 (\<lambda>s q. fsub s q) (tl (even_ticks t0 p n)) (even_ticks t0 p n) = replicate m (of_int p)"
    using even_gaps [OF p] by (simp add: m_def)
  have mean: "fdiv (fsum (replicate m (of_int p))) (of_nat m) = of_int p"
    by (rule even_mean [OF m(2) assms(3) order.trans [OF mp assms(4)]])
  have tenth: "0 < fl (1 / 10 :: num)" by code_simp
  have zeros: "fsum (replicate m 0) = 0" by (intro fsum_zeros) auto
  show ?thesis
    using m assms(3,5) unfolding laneStats_def Let_def st gaps length_replicate mean n
    by (simp add: zeros tenth fsub_def)
qed

end
