(* ===== verification/ClientColors.thy ===== *)
theory ClientColors
  imports ClientBase Throughput
begin

text \<open>
  The colors of the charts: \<^verbatim>\<open>web/src/client/charts/palette.ts\<close> with its \<open>SlotAssigner\<close>, and the places
  that hand out hues: \<open>bandColors\<close> (\<^verbatim>\<open>history/throughputSeries.ts\<close>), \<open>topNames\<close> and \<open>colorSlots\<close>
  (\<^verbatim>\<open>history/scatterPoints.ts\<close>) and \<open>userColors\<close> (\<^verbatim>\<open>history/treemapData.ts\<close>). A slot is a natural
  number below \<open>SLOTS\<close>; where the source uses -1 for none the model has \<open>None\<close>.
\<close>

section \<open>The palette\<close>

datatype Scheme = Light | Dark

definition CATEGORICAL :: "Scheme \<Rightarrow> string list" where
  "CATEGORICAL sc = (case sc of
       Light \<Rightarrow> [''#2a78d6'', ''#eb6834'', ''#1baf7a'', ''#eda100'', ''#e87ba4'', ''#008300'', ''#4a3aa7'', ''#e34948'']
     | Dark \<Rightarrow> [''#3987e5'', ''#d95926'', ''#199e70'', ''#c98500'', ''#d55181'', ''#008300'', ''#9085e9'', ''#e66767''])"

definition SLOTS :: nat where "SLOTS = 8"

definition OTHER_COLOR :: "Scheme \<Rightarrow> string" where
  "OTHER_COLOR sc = ''#898781''"

definition APP_SLOTS :: "(string \<times> nat) list" where
  "APP_SLOTS = [(''HTTPS'', 6), (''QUIC'', 2), (''DNS'', 3), (''SSH'', 7), (''HTTP'', 4)]"

definition APP_NEUTRAL :: "Scheme \<Rightarrow> string" where
  "APP_NEUTRAL sc = (case sc of Light \<Rightarrow> ''#5f7187'' | Dark \<Rightarrow> ''#7d8ea3'')"

text \<open>\<open>label.replace(/\/(TCP|UDP)$/, '')\<close>\<close>

definition strip_transport :: "string \<Rightarrow> string" where
  "strip_transport label = (let n = length label in
     if n \<ge> 4 \<and> drop (n - 4) label \<in> {''/TCP'', ''/UDP''} then take (n - 4) label else label)"

definition appColor :: "string \<Rightarrow> Scheme \<Rightarrow> string" where
  "appColor label sc = (let app = strip_transport label in
     if app = ''unknown'' then OTHER_COLOR sc
     else case map_of APP_SLOTS app of None \<Rightarrow> APP_NEUTRAL sc | Some slot \<Rightarrow> CATEGORICAL sc ! slot)"

definition slotColor :: "nat option \<Rightarrow> Scheme \<Rightarrow> string" where
  "slotColor slot sc = (case slot of Some i \<Rightarrow> if i < SLOTS then CATEGORICAL sc ! i else OTHER_COLOR sc | None \<Rightarrow> OTHER_COLOR sc)"

section \<open>The slots of a page\<close>

definition RELEASE_MS :: int where "RELEASE_MS = 60000"

record slot =
  sl_slot :: nat
  sl_lastSeen :: int

type_synonym SlotAssigner = "(string, slot) jsmap"

text \<open>\<open>while (used.has(slot)) slot++\<close>, the set as the list of its elements.\<close>

function first_free :: "nat list \<Rightarrow> nat \<Rightarrow> nat" where
  "first_free used i = (if i \<in> set used then first_free used (Suc i) else i)"
  by pat_completeness auto
termination
proof (relation "measure (\<lambda>(used, i). card (set used \<inter> {i..}))")
  fix used :: "nat list" and i assume "i \<in> set used"
  then have "i \<in> set used \<inter> {i..}" "i \<notin> set used \<inter> {Suc i..}" "set used \<inter> {Suc i..} \<subseteq> set used \<inter> {i..}" by auto
  then have "set used \<inter> {Suc i..} \<subset> set used \<inter> {i..}" by blast
  then have "card (set used \<inter> {Suc i..}) < card (set used \<inter> {i..})" by (intro psubset_card_mono) auto
  then show "((used, Suc i), (used, i)) \<in> measure (\<lambda>(used, i). card (set used \<inter> {i..}))" by simp
qed simp

definition expire :: "int \<Rightarrow> SlotAssigner \<Rightarrow> SlotAssigner" where
  "expire now m = filter (\<lambda>(k, s). \<not> now - sl_lastSeen s > RELEASE_MS) m"

definition used_slots :: "SlotAssigner \<Rightarrow> nat list" where
  "used_slots m = map (sl_slot \<circ> snd) m"

definition assign_one ::
  "int \<Rightarrow> string \<Rightarrow> SlotAssigner \<times> nat list \<times> (string, nat option) jsmap \<Rightarrow> SlotAssigner \<times> nat list \<times> (string, nat option) jsmap" where
  "assign_one now name st = (case st of (m, used, out) \<Rightarrow>
     (case map_get m name of
        Some s \<Rightarrow> (map_set name (s\<lparr> sl_lastSeen := now \<rparr>) m, used, map_set name (Some (sl_slot s)) out)
      | None \<Rightarrow>
          let i = first_free used 0 in
          if i \<ge> SLOTS then (m, used, map_set name None out)
          else (map_set name \<lparr> sl_slot = i, sl_lastSeen = now \<rparr> m, used @ [i], map_set name (Some i) out)))"

definition SlotAssigner_assign :: "string list \<Rightarrow> int \<Rightarrow> SlotAssigner \<Rightarrow> (string, nat option) jsmap \<times> SlotAssigner" where
  "SlotAssigner_assign names now m =
     (let m' = expire now m; (m'', used, out) = fold (assign_one now) names (m', used_slots m', []) in (out, m''))"

definition SlotAssigner_release :: "string list \<Rightarrow> SlotAssigner \<Rightarrow> SlotAssigner" where
  "SlotAssigner_release names m = fold map_delete names m"

definition SlotAssigner_slot :: "string \<Rightarrow> SlotAssigner \<Rightarrow> nat option" where
  "SlotAssigner_slot name m = map_option sl_slot (map_get m name)"

section \<open>Slots are never shared\<close>

lemma first_free_props:
  "first_free used i \<notin> set used \<and> i \<le> first_free used i \<and> (\<forall>j. i \<le> j \<and> j < first_free used i \<longrightarrow> j \<in> set used)"
proof (induction used i rule: first_free.induct)
  case (1 used i)
  show ?case
  proof (cases "i \<in> set used")
    case True
    then have e: "first_free used i = first_free used (Suc i)" by simp
    show ?thesis using 1 [OF True] True unfolding e by (metis Suc_leD Suc_leI le_neq_implies_less)
  next
    case False
    then have "first_free used i = i" by simp
    then show ?thesis using False by auto
  qed
qed

declare first_free.simps [simp del]

definition slots_ok :: "SlotAssigner \<Rightarrow> bool" where
  "slots_ok m \<longleftrightarrow> map_ok m \<and> distinct (used_slots m) \<and> (\<forall>i \<in> set (used_slots m). i < SLOTS)"

lemma slots_ok_get:
  assumes "slots_ok m" and "map_get m a = Some s" and "map_get m b = Some t" and "sl_slot s = sl_slot t"
  shows "a = b"
proof -
  have "(a, s) \<in> set m" "(b, t) \<in> set m" using assms(2,3) by (auto simp: map_get_def dest: map_of_SomeD)
  moreover have "inj_on (sl_slot \<circ> snd) (set m)" using assms(1) by (simp add: slots_ok_def used_slots_def distinct_map)
  ultimately show ?thesis using assms(4) inj_onD [of "sl_slot \<circ> snd" "set m" "(a, s)" "(b, t)"] by simp
qed

lemma used_slots_set_old:
  assumes "map_get m k = Some s" and "sl_slot s' = sl_slot s"
  shows "used_slots (map_set k s' m) = used_slots m"
  using assms by (induction m) (auto simp: used_slots_def map_get_def map_set_def split: if_splits)

lemma used_slots_set_new: "map_get m k = None \<Longrightarrow> used_slots (map_set k s m) = used_slots m @ [sl_slot s]"
  by (induction m) (auto simp: used_slots_def map_get_def map_set_def split: if_splits)

lemma slots_ok_filter: "slots_ok m \<Longrightarrow> slots_ok (filter Q m)"
  unfolding slots_ok_def map_ok_def used_slots_def
  by (auto simp: distinct_map intro: inj_on_subset)

lemma map_get_filter:
  "map_ok m \<Longrightarrow> map_get (filter Q m) k = (case map_get m k of Some v \<Rightarrow> if Q (k, v) then Some v else None | None \<Rightarrow> None)"
  by (induction m) (auto simp: map_get_def map_ok_def map_of_eq_None_iff split: option.splits)

text \<open>One name: slots stay apart, names keep theirs, and a name without one leaves no slot free.\<close>

definition assign_ok :: "SlotAssigner \<times> nat list \<times> (string, nat option) jsmap \<Rightarrow> bool" where
  "assign_ok st \<longleftrightarrow> (case st of (m, used, out) \<Rightarrow> slots_ok m \<and> set used = set (used_slots m)
     \<and> (\<forall>n v. map_get out n = Some v \<longrightarrow> v = SlotAssigner_slot n m)
     \<and> (\<forall>n. map_get out n = Some None \<longrightarrow> {..<SLOTS} \<subseteq> set used))"

lemma assign_one_ok:
  assumes "assign_ok (m, used, out)"
  shows "assign_ok (assign_one now name (m, used, out))"
    and "map_get m n = Some s \<Longrightarrow> SlotAssigner_slot n (fst (assign_one now name (m, used, out))) = Some (sl_slot s)"
proof -
  have ok: "slots_ok m" and used: "set used = set (used_slots m)"
    and out: "\<And>n v. map_get out n = Some v \<Longrightarrow> v = SlotAssigner_slot n m"
    and full: "\<And>n. map_get out n = Some None \<Longrightarrow> {..<SLOTS} \<subseteq> set used"
    using assms by (auto simp: assign_ok_def)
  have "assign_ok (assign_one now name (m, used, out)) \<and>
    (\<forall>n s. map_get m n = Some s \<longrightarrow> SlotAssigner_slot n (fst (assign_one now name (m, used, out))) = Some (sl_slot s))"
  proof (cases "map_get m name")
    case (Some s)
    have "slots_ok (map_set name (s\<lparr> sl_lastSeen := now \<rparr>) m)"
      using ok used_slots_set_old [OF Some, of "s\<lparr> sl_lastSeen := now \<rparr>"] by (simp add: slots_ok_def alm.invar_put)
    then show ?thesis
      using Some out full used used_slots_set_old [OF Some, of "s\<lparr> sl_lastSeen := now \<rparr>"]
      by (auto simp: assign_one_def assign_ok_def alm.get_put SlotAssigner_slot_def)
  next
    case None
    let ?i = "first_free used 0"
    have free: "?i \<notin> set used" "\<And>j. j < ?i \<Longrightarrow> j \<in> set used" using first_free_props [of used 0] by auto
    show ?thesis
    proof (cases "?i \<ge> SLOTS")
      case True
      then have "{..<SLOTS} \<subseteq> set used" using free(2) by auto
      then show ?thesis
        using None True out full ok used by (auto simp: assign_one_def assign_ok_def alm.get_put SlotAssigner_slot_def Let_def)
    next
      case False
      let ?e = "\<lparr> sl_slot = ?i, sl_lastSeen = now \<rparr>"
      have us: "used_slots (map_set name ?e m) = used_slots m @ [?i]" using used_slots_set_new [OF None, of ?e] by simp
      have "slots_ok (map_set name ?e m)" using ok free(1) used False us by (auto simp: slots_ok_def alm.invar_put)
      moreover have "\<not> {..<SLOTS} \<subseteq> set used" using free(1) False by (meson lessThan_iff not_le subsetD)
      ultimately show ?thesis
        using None False out full used us by (auto simp: assign_one_def assign_ok_def alm.get_put SlotAssigner_slot_def Let_def)
    qed
  qed
  then show "assign_ok (assign_one now name (m, used, out))"
    and "map_get m n = Some s \<Longrightarrow> SlotAssigner_slot n (fst (assign_one now name (m, used, out))) = Some (sl_slot s)"
    by blast+
qed

lemma assign_fold_ok: "assign_ok st \<Longrightarrow> assign_ok (fold (assign_one now) names st)"
proof (induction names arbitrary: st)
  case (Cons name names)
  then show ?case using assign_one_ok(1) by (cases st) auto
qed simp

lemma assign_fold_keeps:
  assumes "assign_ok st" and "SlotAssigner_slot n (fst st) = Some i"
  shows "SlotAssigner_slot n (fst (fold (assign_one now) names st)) = Some i"
  using assms
proof (induction names arbitrary: st)
  case (Cons name names)
  obtain m used out where st: "st = (m, used, out)" by (metis prod_cases3)
  from Cons.prems obtain s where "map_get m n = Some s" "sl_slot s = i" by (auto simp: st SlotAssigner_slot_def)
  then show ?case using Cons assign_one_ok(1) [of m used out now name] assign_one_ok(2) [of m used out n s now name] by (auto simp: st)
qed simp

lemma assign_fold_keys:
  "set (map_keys (snd (snd (fold (assign_one now) names st)))) = set (map_keys (snd (snd st))) \<union> set names"
proof (induction names arbitrary: st)
  case (Cons name names)
  have "set (map_keys (snd (snd (assign_one now name st)))) = insert name (set (map_keys (snd (snd st))))"
    by (auto simp: assign_one_def Let_def alm.keys_get alm.get_put split: option.splits if_splits prod.splits)
  then show ?case using Cons.IH by auto
qed simp

text \<open>
  Colors stay put and are never shared: from a state in which no two names share a slot, assigning
  slots to names keeps that so; every name asked for gets exactly the slot the assigner holds for
  it; a name that was seen within the last 60 seconds keeps its slot; and a name goes without one
  only when all eight are taken.
\<close>

theorem SlotAssigner_stable:
  assumes "slots_ok m" and "SlotAssigner_assign names now m = (out, m')"
  shows "slots_ok m'
    \<and> (\<forall>n. map_get out n = (if n \<in> set names then Some (SlotAssigner_slot n m') else None))
    \<and> (\<forall>n s. map_get m n = Some s \<and> now - sl_lastSeen s \<le> RELEASE_MS \<longrightarrow> SlotAssigner_slot n m' = Some (sl_slot s))
    \<and> (\<forall>n n' i. SlotAssigner_slot n m' = Some i \<and> SlotAssigner_slot n' m' = Some i \<longrightarrow> n = n')
    \<and> (\<forall>n \<in> set names. SlotAssigner_slot n m' = None \<longrightarrow> set (used_slots m') = {..<SLOTS})"
proof -
  let ?m = "expire now m"
  define st where "st = (?m, used_slots ?m, [] :: (string, nat option) jsmap)"
  obtain used where fold: "fold (assign_one now) names st = (m', used, out)"
    using assms(2) by (auto simp: SlotAssigner_assign_def Let_def st_def split: prod.splits)
  have "slots_ok ?m" unfolding expire_def by (rule slots_ok_filter [OF assms(1)])
  then have ok0: "assign_ok st" by (simp add: st_def assign_ok_def map_get_def)
  have ok: "assign_ok (m', used, out)" unfolding fold [symmetric] by (rule assign_fold_ok [OF ok0])
  have keys: "map_get out n \<noteq> None \<longleftrightarrow> n \<in> set names" for n
  proof -
    have "set (map_keys out) = set names" using assign_fold_keys [of now names st] fold by (simp add: st_def map_keys_def)
    then show ?thesis using alm.keys_get [of out] by auto
  qed
  have kept: "SlotAssigner_slot n m' = Some (sl_slot s)" if "map_get m n = Some s" "now - sl_lastSeen s \<le> RELEASE_MS" for n s
  proof -
    have "map_ok m" using assms(1) by (simp add: slots_ok_def)
    from map_get_filter [OF this] have "map_get ?m n = Some s" using that by (simp add: expire_def)
    then show ?thesis using assign_fold_keeps [OF ok0, of n "sl_slot s" now names] fold by (simp add: st_def SlotAssigner_slot_def)
  qed
  have shared: "n = n'" if "SlotAssigner_slot n m' = Some i" "SlotAssigner_slot n' m' = Some i" for n n' i
  proof -
    have "slots_ok m'" using ok by (simp add: assign_ok_def)
    from slots_ok_get [OF this] show ?thesis using that by (auto simp: SlotAssigner_slot_def)
  qed
  have full: "set (used_slots m') = {..<SLOTS}" if nn: "n \<in> set names" and none: "SlotAssigner_slot n m' = None" for n
  proof -
    obtain v where "map_get out n = Some v" using keys [of n] nn by auto
    then have "{..<SLOTS} \<subseteq> set (used_slots m')" using ok none by (auto simp: assign_ok_def)
    moreover have "set (used_slots m') \<subseteq> {..<SLOTS}" using ok by (auto simp: assign_ok_def slots_ok_def)
    ultimately show ?thesis by auto
  qed
  have got: "map_get out n = (if n \<in> set names then Some (SlotAssigner_slot n m') else None)" for n
    using keys [of n] ok by (auto simp: assign_ok_def)
  show ?thesis using ok got kept shared full by (auto simp: assign_ok_def)
qed

section \<open>The bands of the throughput chart\<close>

type_synonym band_color = "string \<times> bool"

definition slotted :: "(string, nat option) jsmap \<Rightarrow> string \<Rightarrow> nat option" where
  "slotted slotOf k = (if k = THROUGHPUT_OTHER then None else case map_get slotOf k of
       Some (Some i) \<Rightarrow> if i < SLOTS then Some i else None
     | _ \<Rightarrow> None)"

lemma slotted_OTHER [simp]: "slotted slotOf THROUGHPUT_OTHER = None"
  by (simp add: slotted_def)

definition taken_slots :: "string list \<Rightarrow> (string, nat option) jsmap \<Rightarrow> nat set" where
  "taken_slots keys slotOf = set (List.map_filter (slotted slotOf) keys)"

definition spare_slots :: "nat set \<Rightarrow> nat list" where
  "spare_slots taken = sort_by (by_then (asc_by (\<lambda>i. if i \<in> taken then 1 else 0 :: nat)) (asc_by (\<lambda>i. i))) [0..<SLOTS]"

definition band_step ::
  "(string, nat option) jsmap \<Rightarrow> Scheme \<Rightarrow> nat set \<Rightarrow> string \<Rightarrow> (string, band_color) jsmap \<times> nat \<Rightarrow> (string, band_color) jsmap \<times> nat" where
  "band_step slotOf sc taken k st = (case st of (out, extra) \<Rightarrow>
     (case slotted slotOf k of
        Some i \<Rightarrow> (map_set k (slotColor (Some i) sc, False) out, extra)
      | None \<Rightarrow>
          if k = THROUGHPUT_OTHER then (map_set k (slotColor None sc, False) out, extra)
          else (map_set k (CATEGORICAL sc ! (spare_slots taken ! (extra mod SLOTS)), extra \<ge> SLOTS - card taken) out, extra + 1)))"

definition bandColors :: "string list \<Rightarrow> (string, nat option) jsmap \<Rightarrow> Scheme \<Rightarrow> (string, band_color) jsmap" where
  "bandColors keys slotOf sc = fst (fold (band_step slotOf sc (taken_slots keys slotOf)) keys ([], 0))"

lemma length_CATEGORICAL [simp]: "length (CATEGORICAL sc) = SLOTS" and distinct_CATEGORICAL [simp]: "distinct (CATEGORICAL sc)"
  and OTHER_not_categorical: "OTHER_COLOR sc \<notin> set (CATEGORICAL sc)"
  by (cases sc; simp add: CATEGORICAL_def SLOTS_def OTHER_COLOR_def)+

lemma CATEGORICAL_eq: "i < SLOTS \<Longrightarrow> j < SLOTS \<Longrightarrow> CATEGORICAL sc ! i = CATEGORICAL sc ! j \<longleftrightarrow> i = j"
  by (simp add: nth_eq_iff_index_eq)

text \<open>The spare hues come first: those no slotted key of the chart has.\<close>

lemma sorted_flag_split:
  "sorted_wrt (\<lambda>x y. Q x \<longrightarrow> Q y) xs \<Longrightarrow> xs = filter (\<lambda>x. \<not> Q x) xs @ filter Q xs"
proof (induction xs)
  case (Cons x xs)
  then show ?case by (cases "Q x") (auto intro!: filter_True [symmetric] simp: filter_empty_conv)
qed simp

lemma spare_slots_props:
  assumes "taken \<subseteq> {..<SLOTS}"
  shows "distinct (spare_slots taken)" and "set (spare_slots taken) = {..<SLOTS}" and "length (spare_slots taken) = SLOTS"
    and "i < SLOTS - card taken \<Longrightarrow> spare_slots taken ! i \<notin> taken"
proof -
  let ?xs = "spare_slots taken" and ?free = "filter (\<lambda>i. i \<notin> taken) (spare_slots taken)"
  show d: "distinct ?xs" and s: "set ?xs = {..<SLOTS}" and "length ?xs = SLOTS"
    by (auto simp: spare_slots_def)
  have "sorted_wrt (\<lambda>x y. x \<in> taken \<longrightarrow> y \<in> taken) ?xs"
    by (rule sorted_wrt_mono_rel [OF _ sort_by_sorted_wrt [OF comparator_by_then [OF comparator_asc_by comparator_asc_by],
      of "\<lambda>i. if i \<in> taken then 1 else 0 :: nat" "\<lambda>i. i" "[0..<SLOTS]", folded spare_slots_def]])
      (auto simp: by_then_def asc_by_def split: if_splits)
  from sorted_flag_split [OF this] have split: "?xs = ?free @ filter (\<lambda>i. i \<in> taken) ?xs" .
  have "set ?free = {..<SLOTS} - taken" using s by auto
  then have "length ?free = SLOTS - card taken"
    using distinct_card [of ?free] d assms by (simp add: card_Diff_subset finite_subset)
  then show "spare_slots taken ! i \<notin> taken" if "i < SLOTS - card taken"
    using that nth_mem [of i ?free] arg_cong [OF split, of "\<lambda>xs. xs ! i"] by (simp add: nth_append)
qed

text \<open>What the loop leaves under a key.\<close>

definition extra_keys :: "(string, nat option) jsmap \<Rightarrow> string list \<Rightarrow> string list" where
  "extra_keys slotOf keys = filter (\<lambda>k. slotted slotOf k = None \<and> k \<noteq> THROUGHPUT_OTHER) keys"

lemma band_fold:
  assumes "distinct keys" and "fold (band_step slotOf sc taken) keys ([], 0) = (out, extra)"
  shows "extra = length (extra_keys slotOf keys)
    \<and> (\<forall>k. map_get out k \<noteq> None \<longleftrightarrow> k \<in> set keys)
    \<and> (\<forall>k \<in> set keys. \<forall>i. slotted slotOf k = Some i \<longrightarrow> map_get out k = Some (CATEGORICAL sc ! i, False))
    \<and> (THROUGHPUT_OTHER \<in> set keys \<longrightarrow> map_get out THROUGHPUT_OTHER = Some (OTHER_COLOR sc, False))
    \<and> (\<forall>i < extra. map_get out (extra_keys slotOf keys ! i) =
          Some (CATEGORICAL sc ! (spare_slots taken ! (i mod SLOTS)), i \<ge> SLOTS - card taken))"
  using assms
proof (induction keys arbitrary: out extra rule: rev_induct)
  case (snoc k keys)
  obtain out0 n where st: "fold (band_step slotOf sc taken) keys ([], 0) = (out0, n)" by (metis prod.exhaust)
  have k: "k \<notin> set keys" "distinct keys" using snoc.prems(1) by auto
  note IH = snoc.IH [OF k(2) st]
  have lt: "slotted slotOf a = Some i \<Longrightarrow> i < SLOTS" for a i by (auto simp: slotted_def split: option.splits if_splits)
  have oth: "slotted slotOf THROUGHPUT_OTHER = None" by (simp add: slotted_def)
  have step: "(out, extra) = band_step slotOf sc taken k (out0, n)" using snoc.prems(2) st by simp
  have ne: "extra_keys slotOf keys ! i \<noteq> k" if "i < length (extra_keys slotOf keys)" for i
    using k(1) nth_mem [OF that] by (auto simp: extra_keys_def)
  consider (slot) i where "slotted slotOf k = Some i" "k \<noteq> THROUGHPUT_OTHER" | (other) "k = THROUGHPUT_OTHER"
    | (extra) "slotted slotOf k = None" "k \<noteq> THROUGHPUT_OTHER" using oth by (cases "slotted slotOf k") auto
  then show ?case
  proof cases
    case slot
    then show ?thesis using IH step k(1) lt ne oth
      by (auto simp: band_step_def alm.get_put extra_keys_def slotColor_def)
  next
    case other
    then show ?thesis using IH step k(1) lt ne oth
      by (auto simp: band_step_def alm.get_put extra_keys_def slotColor_def)
  next
    case extra
    then show ?thesis using IH step k(1) lt ne oth
      by (auto simp: band_step_def alm.get_put extra_keys_def slotColor_def nth_append less_Suc_eq)
  qed
qed (simp_all add: map_get_def extra_keys_def)

lemma taken_slots_bound: "taken_slots keys slotOf \<subseteq> {..<SLOTS}"
  by (auto simp: taken_slots_def map_filter_def slotted_def split: option.splits if_splits)

lemma taken_slots_iff: "i \<in> taken_slots keys slotOf \<longleftrightarrow> (\<exists>k \<in> set keys. slotted slotOf k = Some i)"
  by (force simp: taken_slots_def map_filter_def)

lemma taken_extra_count:
  "card (taken_slots keys slotOf) + length (extra_keys slotOf keys) \<le> length (filter (\<lambda>k. k \<noteq> THROUGHPUT_OTHER) keys)"
proof -
  have "length (List.map_filter (slotted slotOf) keys) + length (extra_keys slotOf keys) = length (filter (\<lambda>k. k \<noteq> THROUGHPUT_OTHER) keys)"
  proof (induction keys)
    case (Cons k keys)
    then show ?case by (cases "slotted slotOf k") (auto simp: map_filter_simps extra_keys_def)
  qed (simp add: map_filter_simps extra_keys_def)
  then show ?thesis using card_length [of "List.map_filter (slotted slotOf) keys"] by (simp add: taken_slots_def)
qed

text \<open>The hue of a key: its own slot, or a spare one by its place among the keys without a slot.\<close>

lemma band_hue:
  assumes "distinct keys" and "k \<in> set keys" "k \<noteq> THROUGHPUT_OTHER" and "map_get (bandColors keys slotOf sc) k = Some (c, f)"
  obtains (slot) h where "c = CATEGORICAL sc ! h" "h < SLOTS" "slotted slotOf k = Some h" "\<not> f"
  | (spare) i where "i < length (extra_keys slotOf keys)" "extra_keys slotOf keys ! i = k"
      "c = CATEGORICAL sc ! (spare_slots (taken_slots keys slotOf) ! (i mod SLOTS))"
      "f \<longleftrightarrow> i \<ge> SLOTS - card (taken_slots keys slotOf)"
proof -
  obtain out extra where st: "fold (band_step slotOf sc (taken_slots keys slotOf)) keys ([], 0) = (out, extra)" by (metis prod.exhaust)
  note B = band_fold [OF assms(1) st]
  have get: "map_get out k = Some (c, f)" using assms(4) st by (simp add: bandColors_def)
  show thesis
  proof (cases "slotted slotOf k")
    case None
    then have "k \<in> set (extra_keys slotOf keys)" using assms(2,3) by (simp add: extra_keys_def)
    then obtain i where "i < length (extra_keys slotOf keys)" "extra_keys slotOf keys ! i = k" by (auto simp: in_set_conv_nth)
    then show thesis using B get by (intro spare) auto
  next
    case (Some h)
    then have "h < SLOTS" by (auto simp: slotted_def split: option.splits if_splits)
    then show thesis using B get Some assms(2) by (intro slot) auto
  qed
qed

lemma band_other:
  assumes "distinct keys" and "k \<in> set keys" and "map_get (bandColors keys slotOf sc) k = Some (c, f)"
  shows "c = OTHER_COLOR sc \<longleftrightarrow> k = THROUGHPUT_OTHER"
proof (cases "k = THROUGHPUT_OTHER")
  case True
  obtain out extra where st: "fold (band_step slotOf sc (taken_slots keys slotOf)) keys ([], 0) = (out, extra)" by (metis prod.exhaust)
  show ?thesis using band_fold [OF assms(1) st] True assms(2,3) st by (auto simp: bandColors_def)
next
  case False
  have "c \<in> set (CATEGORICAL sc)"
  proof (rule band_hue [OF assms(1,2) False assms(3)])
    fix i assume "c = CATEGORICAL sc ! (spare_slots (taken_slots keys slotOf) ! (i mod SLOTS))"
    moreover have "i mod SLOTS < SLOTS" by (simp add: SLOTS_def)
    then have "spare_slots (taken_slots keys slotOf) ! (i mod SLOTS) < SLOTS"
      using spare_slots_props(2,3) [OF taken_slots_bound [of keys slotOf]] nth_mem [of "i mod SLOTS" "spare_slots (taken_slots keys slotOf)"]
      by auto
    ultimately show ?thesis by simp
  qed simp
  then show ?thesis using False OTHER_not_categorical by metis
qed

lemma band_all: "distinct keys \<Longrightarrow> k \<in> set keys \<Longrightarrow> map_get (bandColors keys slotOf sc) k \<noteq> None"
  using band_fold [of keys slotOf sc "taken_slots keys slotOf"] by (auto simp: bandColors_def split: prod.split) (metis prod.collapse)

lemma spare_hue:
  assumes "\<not> i \<ge> SLOTS - card (taken_slots keys slotOf)"
  shows "i mod SLOTS = i \<and> i < SLOTS \<and> spare_slots (taken_slots keys slotOf) ! i < SLOTS
    \<and> spare_slots (taken_slots keys slotOf) ! i \<notin> taken_slots keys slotOf"
proof -
  note sp = spare_slots_props [OF taken_slots_bound [of keys slotOf]]
  show ?thesis using assms sp(4) [of i] sp(2,3) nth_mem [of i "spare_slots (taken_slots keys slotOf)"] by auto
qed

lemma band_unique:
  assumes "distinct keys" and "\<forall>k \<in> set keys. \<forall>k' \<in> set keys. slotted slotOf k = slotted slotOf k' \<and> slotted slotOf k \<noteq> None \<longrightarrow> k = k'"
    and k: "k \<in> set keys" "map_get (bandColors keys slotOf sc) k = Some (c, False)"
    and k': "k' \<in> set keys" "map_get (bandColors keys slotOf sc) k' = Some (c, False)"
  shows "k = k'"
proof (cases "k = THROUGHPUT_OTHER \<or> k' = THROUGHPUT_OTHER")
  case True
  then show ?thesis using band_other [OF assms(1) k] band_other [OF assms(1) k'] by auto
next
  case False
  have own: "slotted slotOf a = Some h \<Longrightarrow> a \<in> set keys \<Longrightarrow> h \<in> (taken_slots keys slotOf)" for a h using taken_slots_iff by blast
  from False have n: "k \<noteq> THROUGHPUT_OTHER" "k' \<noteq> THROUGHPUT_OTHER" by auto
  show ?thesis
  proof (cases rule: band_hue [OF assms(1) k(1) n(1) k(2)])
    case (1 h)
    note h = this
    show ?thesis
    proof (cases rule: band_hue [OF assms(1) k'(1) n(2) k'(2)])
      case (1 h')
      then have "h = h'" using h CATEGORICAL_eq [of h h' sc] by simp
      then show ?thesis using h 1 assms(2) k(1) k'(1) by simp
    next
      case (2 i)
      then show ?thesis using h CATEGORICAL_eq spare_hue [of keys slotOf i] own [OF h(3) k(1)] by auto
    qed
  next
    case (2 i)
    note i = this
    show ?thesis
    proof (cases rule: band_hue [OF assms(1) k'(1) n(2) k'(2)])
      case (1 h')
      then show ?thesis using i CATEGORICAL_eq spare_hue [of keys slotOf i] own [OF 1(3) k'(1)] by auto
    next
      case (2 j)
      then have "spare_slots (taken_slots keys slotOf) ! i = spare_slots (taken_slots keys slotOf) ! j" using i CATEGORICAL_eq spare_hue [of keys slotOf i] spare_hue [of keys slotOf j] by auto
      then have "i = j" using i 2 spare_hue [of keys slotOf i] spare_hue [of keys slotOf j] spare_slots_props(1,3) [OF taken_slots_bound [of keys slotOf]] by (auto simp: nth_eq_iff_index_eq)
      then show ?thesis using i 2 by simp
    qed
  qed
qed

lemma band_full:
  assumes "distinct keys" and "length (filter (\<lambda>k. k \<noteq> THROUGHPUT_OTHER) keys) \<le> SLOTS"
    and "k \<in> set keys" and "map_get (bandColors keys slotOf sc) k = Some (c, f)"
  shows "\<not> f"
proof (cases "k = THROUGHPUT_OTHER")
  case True
  obtain out extra where st: "fold (band_step slotOf sc (taken_slots keys slotOf)) keys ([], 0) = (out, extra)" by (metis prod.exhaust)
  show ?thesis using band_fold [OF assms(1) st] True assms(3,4) st by (simp add: bandColors_def)
next
  case False
  show ?thesis
    by (cases rule: band_hue [OF assms(1) assms(3) False assms(4)]) (use assms(2) taken_extra_count [of keys slotOf] in auto)
qed

text \<open>
  Bands can be told apart: when the slots of the page are not shared, two different keys that are
  both drawn at full strength have different colors, and only \<open>other\<close> is grey. A key is faded only
  when there are more keys than the eight hues, and every key has a color.
\<close>

theorem bandColors_apart:
  assumes "distinct keys" and "\<forall>k \<in> set keys. \<forall>k' \<in> set keys. slotted slotOf k = slotted slotOf k' \<and> slotted slotOf k \<noteq> None \<longrightarrow> k = k'"
  shows "(\<forall>k \<in> set keys. map_get (bandColors keys slotOf sc) k \<noteq> None)
    \<and> (\<forall>k \<in> set keys. \<forall>k' \<in> set keys. \<forall>c c'. map_get (bandColors keys slotOf sc) k = Some (c, False)
        \<and> map_get (bandColors keys slotOf sc) k' = Some (c', False) \<and> k \<noteq> k' \<longrightarrow> c \<noteq> c')
    \<and> (\<forall>k \<in> set keys. \<forall>c f. map_get (bandColors keys slotOf sc) k = Some (c, f) \<longrightarrow> (c = OTHER_COLOR sc \<longleftrightarrow> k = THROUGHPUT_OTHER))
    \<and> (length (filter (\<lambda>k. k \<noteq> THROUGHPUT_OTHER) keys) \<le> SLOTS \<longrightarrow>
        (\<forall>k \<in> set keys. \<forall>c f. map_get (bandColors keys slotOf sc) k = Some (c, f) \<longrightarrow> \<not> f))"
proof (intro conjI ballI allI impI)
  fix k k' c c'
  assume "k \<in> set keys" "k' \<in> set keys"
    "map_get (bandColors keys slotOf sc) k = Some (c, False) \<and> map_get (bandColors keys slotOf sc) k' = Some (c', False) \<and> k \<noteq> k'"
  then show "c \<noteq> c'" using band_unique [OF assms] by blast
qed (use band_all band_other band_full assms(1) in blast)+

definition sample_slots :: SlotAssigner where
  "sample_slots = snd (SlotAssigner_assign [''curl'', ''ssh''] 1000 [])"

lemma sample_slots_ok: "slots_ok sample_slots"
  by code_simp

theorem SlotAssigner_stable_witness:
  "SlotAssigner_slot ''ssh'' (snd (SlotAssigner_assign [''cron'', ''ssh''] 50000 sample_slots)) = Some 1
   \<and> SlotAssigner_slot ''ssh'' (snd (SlotAssigner_assign [''cron''] 61001 sample_slots)) = None"
proof -
  have "map_get sample_slots ''ssh'' = Some \<lparr> sl_slot = 1, sl_lastSeen = 1000 \<rparr>" by code_simp
  moreover have "50000 - sl_lastSeen \<lparr> sl_slot = 1, sl_lastSeen = 1000 \<rparr> \<le> RELEASE_MS" by (simp add: RELEASE_MS_def)
  ultimately have "SlotAssigner_slot ''ssh'' (snd (SlotAssigner_assign [''cron'', ''ssh''] 50000 sample_slots)) = Some 1"
    using SlotAssigner_stable [OF sample_slots_ok, of "[''cron'', ''ssh'']" 50000] by (metis prod.collapse slot.select_convs(1))
  moreover have "SlotAssigner_slot ''ssh'' (snd (SlotAssigner_assign [''cron''] 61001 sample_slots)) = None" by code_simp
  ultimately show ?thesis by blast
qed

theorem bandColors_apart_witness:
  "map_get (bandColors [''a'', ''b'', THROUGHPUT_OTHER] [(''b'', Some 0)] Light) ''a'' = Some (''#eb6834'', False)
   \<and> \<not> snd (the (map_get (bandColors [''a'', ''b'', THROUGHPUT_OTHER] [(''b'', Some 0)] Light) ''b''))"
proof -
  let ?ks = "[''a'', ''b'', THROUGHPUT_OTHER]" and ?so = "[(''b'', Some 0)] :: (string, nat option) jsmap"
  have "distinct ?ks" by (simp add: THROUGHPUT_OTHER_def)
  moreover have "\<forall>k \<in> set ?ks. \<forall>k' \<in> set ?ks. slotted ?so k = slotted ?so k' \<and> slotted ?so k \<noteq> None \<longrightarrow> k = k'"
    by (auto simp: slotted_def map_get_def THROUGHPUT_OTHER_def)
  moreover have "length (filter (\<lambda>k. k \<noteq> THROUGHPUT_OTHER) ?ks) \<le> SLOTS" by (simp add: THROUGHPUT_OTHER_def SLOTS_def)
  ultimately have "\<not> snd (the (map_get (bandColors ?ks ?so Light) ''b''))"
    using bandColors_apart [of ?ks ?so Light] by (metis list.set_intros(1,2) option.collapse prod.collapse)
  moreover have "map_get (bandColors ?ks ?so Light) ''a'' = Some (''#eb6834'', False)" by code_simp
  ultimately show ?thesis by blast
qed

section \<open>The scatter's names\<close>

fun topNames_from :: "nat \<Rightarrow> string list \<Rightarrow> string list \<Rightarrow> string list" where
  "topNames_from n [] out = out"
| "topNames_from n (p # ps) out =
     (if p \<in> set out then topNames_from n ps out
      else let out' = out @ [p] in if length out' \<ge> n then out' else topNames_from n ps out')"

text \<open>The names of the points, largest first.\<close>

definition topNames :: "string list \<Rightarrow> nat \<Rightarrow> string list" where
  "topNames names n = topNames_from n names []"

definition page_step :: "(string \<Rightarrow> nat option) \<Rightarrow> nat \<Rightarrow> string \<Rightarrow> (string, nat) jsmap \<times> nat list \<Rightarrow> (string, nat) jsmap \<times> nat list" where
  "page_step pageSlot slots name st = (case st of (out, used) \<Rightarrow>
     (case pageSlot name of
        Some s \<Rightarrow> if s < slots \<and> s \<notin> set used then (map_set name s out, used @ [s]) else (out, used)
      | None \<Rightarrow> (out, used)))"

fun fill_slots :: "nat \<Rightarrow> string list \<Rightarrow> nat \<Rightarrow> (string, nat) jsmap \<times> nat list \<Rightarrow> (string, nat) jsmap" where
  "fill_slots slots [] nxt (out, used) = out"
| "fill_slots slots (name # names) nxt (out, used) =
     (if map_get out name \<noteq> None then fill_slots slots names nxt (out, used)
      else let i = first_free used nxt in
        if i \<ge> slots then out else fill_slots slots names i (map_set name i out, used @ [i]))"

definition colorSlots :: "string list \<Rightarrow> (string \<Rightarrow> nat option) \<Rightarrow> nat \<Rightarrow> (string, nat) jsmap" where
  "colorSlots names pageSlot slots = fill_slots slots names 0 (fold (page_step pageSlot slots) names ([], []))"

definition color_ok :: "nat \<Rightarrow> (string, nat) jsmap \<times> nat list \<Rightarrow> bool" where
  "color_ok slots st \<longleftrightarrow> (case st of (out, used) \<Rightarrow>
     (\<forall>n i. map_get out n = Some i \<longrightarrow> i < slots \<and> i \<in> set used)
     \<and> (\<forall>n n' i. map_get out n = Some i \<and> map_get out n' = Some i \<longrightarrow> n = n'))"

lemma page_step_ok: "color_ok slots st \<Longrightarrow> color_ok slots (page_step pageSlot slots name st)"
  by (cases st; cases "pageSlot name") (auto simp: color_ok_def page_step_def alm.get_put split: if_splits)

interpretation page_slots: handler "page_step pageSlot slots" "color_ok slots" for pageSlot slots
  by unfold_locales (rule page_step_ok)

definition colors_apart :: "nat \<Rightarrow> (string, nat) jsmap \<Rightarrow> bool" where
  "colors_apart slots out \<longleftrightarrow> (\<forall>n i. map_get out n = Some i \<longrightarrow> i < slots)
     \<and> (\<forall>n n' i. map_get out n = Some i \<and> map_get out n' = Some i \<longrightarrow> n = n')"

lemma fill_slots_ok:
  assumes "color_ok slots (out, used)"
  shows "colors_apart slots (fill_slots slots names nxt (out, used))
    \<and> (\<forall>n i. map_get out n = Some i \<longrightarrow> map_get (fill_slots slots names nxt (out, used)) n = Some i)"
  using assms
proof (induction names arbitrary: nxt out used)
  case (Cons name names)
  let ?i = "first_free used nxt"
  consider "map_get out name \<noteq> None" | "map_get out name = None" "slots \<le> ?i" | "map_get out name = None" "?i < slots" by fastforce
  then show ?case
  proof cases
    case 1
    then show ?thesis using Cons.IH [OF Cons.prems] by auto
  next
    case 2
    then show ?thesis using Cons.prems by (auto simp: Let_def color_ok_def colors_apart_def)
  next
    case 3
    have "?i \<notin> set used" using first_free_props [of used nxt] by blast
    then have "color_ok slots (map_set name ?i out, used @ [?i])" using Cons.prems 3(2) by (auto simp: color_ok_def alm.get_put)
    moreover have "map_get (map_set name ?i out) n = Some j" if "map_get out n = Some j" for n j
      using that 3(1) by (auto simp: alm.get_put)
    ultimately show ?thesis using Cons.IH [of "map_set name ?i out" "used @ [?i]" ?i] 3 by (simp add: Let_def)
  qed
qed (auto simp: color_ok_def colors_apart_def)

lemma page_step_keeps: "map_get (fst st) n = Some i \<Longrightarrow> n \<notin> set ns \<Longrightarrow> map_get (fst (fold (page_step pageSlot slots) ns st)) n = Some i"
  by (induction ns arbitrary: st) (auto simp: page_step_def alm.get_put split: prod.splits option.splits if_splits)

lemma page_fold_own:
  assumes "n \<in> set ns" "distinct ns" "pageSlot n = Some i" "i < slots"
    and "\<forall>n' \<in> set ns. pageSlot n' = Some i \<longrightarrow> n' = n" and "i \<notin> set (snd st)"
  shows "map_get (fst (fold (page_step pageSlot slots) ns st)) n = Some i"
  using assms
proof (induction ns arbitrary: st)
  case (Cons a ns)
  show ?case
  proof (cases "a = n")
    case True
    have "map_get (fst (page_step pageSlot slots n st)) n = Some i"
      using Cons.prems by (cases st) (simp add: page_step_def alm.get_put)
    then show ?thesis using page_step_keeps [of "page_step pageSlot slots n st" n i ns pageSlot slots] Cons.prems(2) True by simp
  next
    case False
    have new: "i \<notin> set (snd (page_step pageSlot slots a st))"
    proof -
      have "pageSlot a \<noteq> Some i" using Cons.prems(5) False by auto
      then show ?thesis using Cons.prems(6) by (cases st) (auto simp: page_step_def split: option.split)
    qed
    have "map_get (fst (fold (page_step pageSlot slots) ns (page_step pageSlot slots a st))) n = Some i"
    proof (rule Cons.IH [OF _ _ Cons.prems(3,4) _ new])
      show "n \<in> set ns" using Cons.prems(1) False by simp
      show "distinct ns" using Cons.prems(2) by simp
      show "\<forall>n' \<in> set ns. pageSlot n' = Some i \<longrightarrow> n' = n" using Cons.prems(5) by (meson list.set_intros(2))
    qed
    then show ?thesis by simp
  qed
qed simp

text \<open>
  The scatter's hues: no two names share one, all are valid slots, and a name that is the only one
  to hold one of the page's slots keeps it.
\<close>

theorem colorSlots_apart:
  assumes "distinct names"
  shows "colors_apart slots (colorSlots names pageSlot slots)
    \<and> (\<forall>n i. n \<in> set names \<and> pageSlot n = Some i \<and> i < slots \<and> (\<forall>n' \<in> set names. pageSlot n' = Some i \<longrightarrow> n' = n)
        \<longrightarrow> map_get (colorSlots names pageSlot slots) n = Some i)"
proof -
  obtain out used where st: "fold (page_step pageSlot slots) names ([], []) = (out, used)" by (metis prod.exhaust)
  have "color_ok slots (fold (page_step pageSlot slots) names ([], []))"
    by (rule page_slots.run_keeps) (simp add: color_ok_def map_get_def)
  then have ok: "color_ok slots (out, used)" by (simp add: st)
  have "map_get out n = Some i"
    if "n \<in> set names" "pageSlot n = Some i" "i < slots" "\<forall>n' \<in> set names. pageSlot n' = Some i \<longrightarrow> n' = n" for n i
    using page_fold_own [OF that(1) assms that(2,3,4), of "([], [])"] by (simp add: st)
  then show ?thesis using fill_slots_ok [OF ok, of names 0] unfolding colorSlots_def st by blast
qed

section \<open>The users of the treemap\<close>

definition UNKNOWN_UID :: nat where "UNKNOWN_UID = 4294967295"
definition ROOT_UID :: nat where "ROOT_UID = 0"
definition ROOT_SLOT :: nat where "ROOT_SLOT = 7"

definition user_step :: "Scheme \<Rightarrow> nat \<Rightarrow> (nat, string) jsmap \<times> nat \<Rightarrow> (nat, string) jsmap \<times> nat" where
  "user_step sc uid st = (case st of (out, nxt) \<Rightarrow>
     if uid = ROOT_UID then (map_set uid (CATEGORICAL sc ! ROOT_SLOT) out, nxt)
     else if uid = UNKNOWN_UID then (map_set uid (OTHER_COLOR sc) out, nxt)
     else
       let nxt' = (if nxt = ROOT_SLOT then nxt + 1 else nxt)
       in if nxt' < length (CATEGORICAL sc) then (map_set uid (CATEGORICAL sc ! nxt') out, nxt' + 1)
          else (map_set uid (OTHER_COLOR sc) out, nxt'))"

definition userColors :: "nat list \<Rightarrow> Scheme \<Rightarrow> (nat, string) jsmap" where
  "userColors uids sc = fst (fold (user_step sc) uids ([], 0))"

definition user_color_ok :: "Scheme \<Rightarrow> nat \<Rightarrow> nat \<Rightarrow> string \<Rightarrow> bool" where
  "user_color_ok sc nxt u c \<longleftrightarrow> (if u = ROOT_UID then c = CATEGORICAL sc ! ROOT_SLOT
     else c = OTHER_COLOR sc \<or> (\<exists>i < SLOTS. i < nxt \<and> i \<noteq> ROOT_SLOT \<and> c = CATEGORICAL sc ! i))"

definition users_ok :: "Scheme \<Rightarrow> (nat, string) jsmap \<times> nat \<Rightarrow> bool" where
  "users_ok sc st \<longleftrightarrow> (case st of (out, nxt) \<Rightarrow>
     (\<forall>u c. map_get out u = Some c \<longrightarrow> user_color_ok sc nxt u c)
     \<and> (\<forall>u u' c. map_get out u = Some c \<and> map_get out u' = Some c \<and> c \<noteq> OTHER_COLOR sc \<longrightarrow> u = u'))"

lemma ROOT_SLOT_less: "ROOT_SLOT < SLOTS"
  by (simp add: ROOT_SLOT_def SLOTS_def)

lemma CATEGORICAL_not_OTHER: "i < SLOTS \<Longrightarrow> CATEGORICAL sc ! i \<noteq> OTHER_COLOR sc"
  by (metis OTHER_not_categorical length_CATEGORICAL nth_mem)

lemma user_color_later: "user_color_ok sc nxt u c \<Longrightarrow> nxt \<le> nxt' \<Longrightarrow> user_color_ok sc nxt' u c"
  unfolding user_color_ok_def by (metis less_le_trans)

lemma user_color_fresh:
  assumes "user_color_ok sc nxt u c" and "nxt \<le> i" "i < SLOTS" "i \<noteq> ROOT_SLOT"
  shows "c \<noteq> CATEGORICAL sc ! i"
proof
  assume c: "c = CATEGORICAL sc ! i"
  have "c \<noteq> OTHER_COLOR sc" using c assms(3) CATEGORICAL_not_OTHER by simp
  then consider "c = CATEGORICAL sc ! ROOT_SLOT" | j where "j < SLOTS" "j < nxt" "c = CATEGORICAL sc ! j"
    using assms(1) by (auto simp: user_color_ok_def split: if_splits)
  then show False
    by cases (use c assms(2,3,4) CATEGORICAL_eq [of _ i sc] ROOT_SLOT_less in force)+
qed

lemma user_color_root: "user_color_ok sc nxt u (CATEGORICAL sc ! ROOT_SLOT) \<Longrightarrow> u = ROOT_UID"
  using CATEGORICAL_eq [OF ROOT_SLOT_less, of _ sc] CATEGORICAL_not_OTHER [OF ROOT_SLOT_less, of sc]
  by (auto simp: user_color_ok_def split: if_splits)

lemma user_step_ok:
  assumes "users_ok sc (out, nxt)"
  shows "users_ok sc (user_step sc uid (out, nxt))"
proof -
  have old: "\<And>u c. map_get out u = Some c \<Longrightarrow> user_color_ok sc nxt u c"
    and one: "\<And>u u' c. map_get out u = Some c \<Longrightarrow> map_get out u' = Some c \<Longrightarrow> c \<noteq> OTHER_COLOR sc \<Longrightarrow> u = u'"
    using assms by (auto simp: users_ok_def)
  have put: "users_ok sc (map_set uid c out, nxt')"
    if "user_color_ok sc nxt' uid c" "nxt \<le> nxt'" "\<And>u. map_get out u = Some c \<Longrightarrow> c \<noteq> OTHER_COLOR sc \<Longrightarrow> u = uid" for c nxt'
  proof -
    have "user_color_ok sc nxt' u c'" if "map_get out u = Some c'" for u c'
      using user_color_later [OF old [OF that] \<open>nxt \<le> nxt'\<close>] .
    then show ?thesis using that(1,3) one by (auto simp: users_ok_def alm.get_put)
  qed
  let ?n = "if nxt = ROOT_SLOT then nxt + 1 else nxt"
  consider "uid = ROOT_UID" | "uid = UNKNOWN_UID" | "uid \<noteq> ROOT_UID" "uid \<noteq> UNKNOWN_UID" "?n < SLOTS"
    | "uid \<noteq> ROOT_UID" "uid \<noteq> UNKNOWN_UID" "\<not> ?n < SLOTS" by blast
  then show ?thesis
  proof cases
    case 1
    have "u = ROOT_UID" if "map_get out u = Some (CATEGORICAL sc ! ROOT_SLOT)" "CATEGORICAL sc ! ROOT_SLOT \<noteq> OTHER_COLOR sc" for u
      using user_color_root [OF old [OF that(1)]] .
    with 1 show ?thesis using put [of nxt "CATEGORICAL sc ! ROOT_SLOT"] by (simp add: user_step_def user_color_ok_def)
  next
    case 2
    then show ?thesis using put [of nxt "OTHER_COLOR sc"] by (simp add: user_step_def user_color_ok_def UNKNOWN_UID_def ROOT_UID_def)
  next
    case 3
    have ge: "nxt \<le> ?n" "?n \<noteq> ROOT_SLOT" by auto
    have "users_ok sc (map_set uid (CATEGORICAL sc ! ?n) out, ?n + 1)"
      by (rule put) (use 3 ge user_color_fresh [OF old ge(1) 3(3) ge(2)] in \<open>auto simp: user_color_ok_def\<close>)
    then show ?thesis using 3 by (simp add: user_step_def Let_def)
  next
    case 4
    have "users_ok sc (map_set uid (OTHER_COLOR sc) out, ?n)" by (rule put) (use 4 in \<open>auto simp: user_color_ok_def\<close>)
    then show ?thesis using 4 by (auto simp: user_step_def Let_def)
  qed
qed

interpretation user_colors: handler "user_step sc" "users_ok sc" for sc
  by unfold_locales (metis user_step_ok prod.exhaust)

text \<open>
  Root stands out: in the treemap root always has the reserved hue, nobody else has it, and two
  users share a color only when it is the neutral one.
\<close>

theorem userColors_root:
  "(\<forall>c. map_get (userColors uids sc) ROOT_UID = Some c \<longrightarrow> c = CATEGORICAL sc ! ROOT_SLOT)
   \<and> (\<forall>u. map_get (userColors uids sc) u = Some (CATEGORICAL sc ! ROOT_SLOT) \<longrightarrow> u = ROOT_UID)
   \<and> (\<forall>u u' c. map_get (userColors uids sc) u = Some c \<and> map_get (userColors uids sc) u' = Some c \<longrightarrow> u = u' \<or> c = OTHER_COLOR sc)"
proof -
  have "users_ok sc (fold (user_step sc) uids ([], 0))"
    by (rule user_colors.run_keeps) (simp add: users_ok_def map_get_def)
  then have ok: "users_ok sc (userColors uids sc, snd (fold (user_step sc) uids ([], 0)))" by (simp add: userColors_def)
  then have color: "\<And>u c. map_get (userColors uids sc) u = Some c \<Longrightarrow> user_color_ok sc (snd (fold (user_step sc) uids ([], 0))) u c"
    and one: "\<And>u u' c. map_get (userColors uids sc) u = Some c \<Longrightarrow> map_get (userColors uids sc) u' = Some c \<Longrightarrow> c \<noteq> OTHER_COLOR sc \<Longrightarrow> u = u'"
    by (auto simp: users_ok_def)
  show ?thesis using color [of ROOT_UID] user_color_root [OF color] one by (auto simp: user_color_ok_def)
qed

end
