(* ===== verification/ClientLive.thy ===== *)
theory ClientLive
  imports ClientBase RoutesLive
begin

text \<open>
  \<^verbatim>\<open>web/src/client/hooks/useLive.ts\<close>: the store behind every live chart of a browser tab. It holds one
  event stream, shared by all its users and closed two seconds after the last one leaves; when the
  stream says hello it reloads the series and merges it with the ticks that arrived meanwhile.

  A state of \<open>LiveStore\<close> is the object's fields between two callbacks. \<open>ls_es\<close> says whether \<open>#es\<close> is
  set and \<open>ls_sources\<close> counts the \<open>EventSource\<close> objects that are not closed; \<open>ls_loading\<close> says
  whether a request whose signal is not aborted is in flight (an aborted one ends without effect);
  \<open>ls_closeTimer\<close> and \<open>ls_reopen\<close> are the timers under way. The steps of \<open>client_reach\<close> are the
  callbacks, in any order the browser can run them; the series a request returns is one that a
  reachable hub answers, which ties the store to the server's model. The listeners of the store
  (React's) only read the state.
\<close>

section \<open>The buffer\<close>

definition CAPACITY :: nat where "CAPACITY = 3600"

datatype LiveStatus = Connecting | LiveNow | Reconnecting

record LiveStore =
  ls_ticks :: "CompactTick list"
  ls_status :: LiveStatus
  ls_error :: "string option"
  ls_users :: nat
  ls_es :: bool
  ls_sources :: nat
  ls_pending :: "CompactTick list option"
  ls_loading :: bool
  ls_closeTimer :: bool
  ls_reopen :: nat

definition new_LiveStore :: LiveStore where
  "new_LiveStore = \<lparr> ls_ticks = [], ls_status = Connecting, ls_error = None, ls_users = 0, ls_es = False, ls_sources = 0,
     ls_pending = None, ls_loading = False, ls_closeTimer = False, ls_reopen = 0 \<rparr>"

definition append_tick :: "CompactTick \<Rightarrow> CompactTick list \<Rightarrow> CompactTick list" where
  "append_tick t ticks = (if ticks \<noteq> [] \<and> ts t \<le> ts (last ticks) then ticks else ticks @ [t])"

definition append_ticks :: "CompactTick list \<Rightarrow> LiveStore \<Rightarrow> LiveStore" where
  "append_ticks incoming s =
     (let ticks = fold append_tick incoming (ls_ticks s)
      in s\<lparr> ls_ticks := (if length ticks > CAPACITY then drop (length ticks - CAPACITY) ticks else ticks) \<rparr>)"

definition merged :: "CompactTick list \<Rightarrow> CompactTick list \<Rightarrow> CompactTick list" where
  "merged ser ticks = (case ser of
       [] \<Rightarrow> ticks
     | first # rest \<Rightarrow>
         let kept = filter (\<lambda>t. ts t < ts first) ticks;
             hd' = (if kept \<noteq> [] \<and> fsub (ts first) (ts (last kept)) > fmul GAP_INTERVALS (intervalMs first)
                    then first\<lparr> gap := True \<rparr> else first)
         in kept @ hd' # rest)"

definition merge_series :: "CompactTick list \<Rightarrow> CompactTick list \<Rightarrow> LiveStore \<Rightarrow> LiveStore" where
  "merge_series ser pend s = append_ticks pend (s\<lparr> ls_ticks := merged ser (ls_ticks s) \<rparr>)"

section \<open>The stream and its users\<close>

definition store_open :: "LiveStore \<Rightarrow> LiveStore" where
  "store_open s = s\<lparr> ls_es := True, ls_sources := ls_sources s + 1 \<rparr>"

definition store_acquire :: "LiveStore \<Rightarrow> LiveStore" where
  "store_acquire s =
     (let s' = s\<lparr> ls_closeTimer := False, ls_users := ls_users s + 1 \<rparr>
      in if ls_users s = 0 \<and> \<not> ls_es s then store_open s' else s')"

definition store_release :: "LiveStore \<Rightarrow> LiveStore" where
  "store_release s = (let s' = s\<lparr> ls_users := ls_users s - 1 \<rparr> in if ls_users s' = 0 then s'\<lparr> ls_closeTimer := True \<rparr> else s')"

definition store_close :: "LiveStore \<Rightarrow> LiveStore" where
  "store_close s = s\<lparr> ls_loading := False, ls_sources := (if ls_es s then ls_sources s - 1 else ls_sources s), ls_es := False,
     ls_pending := None, ls_ticks := [], ls_status := Connecting, ls_error := None \<rparr>"

definition loadSeries :: "LiveStore \<Rightarrow> LiveStore" where
  "loadSeries s = s\<lparr> ls_loading := True, ls_pending := Some [] \<rparr>"

definition on_hello :: "num option \<Rightarrow> LiveStore \<Rightarrow> LiveStore" where
  "on_hello latest_ts s =
     (let s' = s\<lparr> ls_status := LiveNow, ls_error := None \<rparr>;
          newest = (if ls_ticks s = [] then None else Some (ts (last (ls_ticks s))))
      in if latest_ts \<noteq> None \<and> latest_ts \<noteq> newest then loadSeries s' else s')"

definition on_tick :: "CompactTick \<Rightarrow> LiveStore \<Rightarrow> LiveStore" where
  "on_tick t s = (case ls_pending s of
       Some p \<Rightarrow> s\<lparr> ls_pending := Some (p @ [t]) \<rparr>
     | None \<Rightarrow> append_ticks [t] s)"

text \<open>\<open>gone\<close>: the server refused, the browser does not retry.\<close>

definition on_es_error :: "bool \<Rightarrow> LiveStore \<Rightarrow> LiveStore" where
  "on_es_error gone s =
     (let s' = s\<lparr> ls_status := Reconnecting \<rparr>
      in if gone then s'\<lparr> ls_es := False, ls_sources := ls_sources s - 1, ls_reopen := ls_reopen s + 1 \<rparr> else s')"

definition on_reopen :: "LiveStore \<Rightarrow> LiveStore" where
  "on_reopen s = (let s' = s\<lparr> ls_reopen := ls_reopen s - 1 \<rparr> in if ls_users s > 0 \<and> \<not> ls_es s then store_open s' else s')"

text \<open>
  The answer of the request. A null \<open>#pending\<close> would make the loop over it throw (\<open>None\<close>).
\<close>

definition on_loaded :: "CompactTick list \<Rightarrow> LiveStore \<Rightarrow> LiveStore option" where
  "on_loaded ser s = (case ls_pending s of
       None \<Rightarrow> None
     | Some p \<Rightarrow> Some (merge_series ser p (s\<lparr> ls_pending := None, ls_loading := False \<rparr>)))"

definition on_load_failed :: "string \<Rightarrow> LiveStore \<Rightarrow> LiveStore" where
  "on_load_failed msg s =
     (let p = (case ls_pending s of Some p \<Rightarrow> p | None \<Rightarrow> [])
      in (append_ticks p (s\<lparr> ls_pending := None, ls_loading := False \<rparr>))\<lparr> ls_error := Some msg \<rparr>)"

inductive client_reach :: "parser \<Rightarrow> nat \<Rightarrow> LiveStore \<Rightarrow> bool" for parse cap where
  new: "client_reach parse cap new_LiveStore"
| acquire: "client_reach parse cap s \<Longrightarrow> client_reach parse cap (store_acquire s)"
| release: "client_reach parse cap s \<Longrightarrow> ls_users s > 0 \<Longrightarrow> client_reach parse cap (store_release s)"
| close: "client_reach parse cap s \<Longrightarrow> ls_closeTimer s \<Longrightarrow> client_reach parse cap (store_close (s\<lparr> ls_closeTimer := False \<rparr>))"
| hello: "client_reach parse cap s \<Longrightarrow> ls_sources s > 0 \<Longrightarrow> client_reach parse cap (on_hello l s)"
| tick: "client_reach parse cap s \<Longrightarrow> ls_sources s > 0 \<Longrightarrow> client_reach parse cap (on_tick t s)"
| error: "client_reach parse cap s \<Longrightarrow> ls_sources s > 0 \<Longrightarrow> client_reach parse cap (on_es_error gone s)"
| reopen: "client_reach parse cap s \<Longrightarrow> ls_reopen s > 0 \<Longrightarrow> client_reach parse cap (on_reopen s)"
| loaded: "client_reach parse cap s \<Longrightarrow> ls_loading s \<Longrightarrow> hub_reach parse cap h \<Longrightarrow>
    live_series h q = Inr ser \<Longrightarrow> on_loaded ser s = Some s' \<Longrightarrow> client_reach parse cap s'"
| failed: "client_reach parse cap s \<Longrightarrow> ls_loading s \<Longrightarrow> client_reach parse cap (on_load_failed msg s)"

text \<open>The window a chart sees.\<close>

definition useLive :: "num \<Rightarrow> LiveStore \<Rightarrow> CompactTick list \<times> num option" where
  "useLive seconds s = (since ts seconds (ls_ticks s), if ls_ticks s = [] then None else Some (ts (last (ls_ticks s))))"

section \<open>Invariants\<close>

definition increasing :: "CompactTick list \<Rightarrow> bool" where
  "increasing xs \<longleftrightarrow> sorted_wrt (<) (map ts xs)"

lemma increasing_simps [simp]: "increasing []" "increasing [t]"
  by (simp_all add: increasing_def)

lemma increasing_append: "increasing (xs @ ys) \<longleftrightarrow> increasing xs \<and> increasing ys \<and> (\<forall>x \<in> set xs. \<forall>y \<in> set ys. ts x < ts y)"
  by (auto simp: increasing_def sorted_wrt_append)

lemma increasing_last: "increasing xs \<Longrightarrow> x \<in> set xs \<Longrightarrow> ts x \<le> ts (last xs)"
  by (cases xs rule: rev_cases) (auto simp: increasing_append intro: order_less_imp_le)

lemma append_tick_increasing: "increasing xs \<Longrightarrow> increasing (append_tick t xs)"
  using increasing_last [of xs] by (fastforce simp: append_tick_def increasing_append not_le)

lemma fold_append_tick_increasing: "increasing xs \<Longrightarrow> increasing (fold append_tick ts' xs)"
  by (induction ts' arbitrary: xs) (simp_all add: append_tick_increasing)

lemma increasing_drop: "increasing xs \<Longrightarrow> increasing (drop n xs)"
  by (metis append_take_drop_id increasing_append)

lemma increasing_filter: "increasing xs \<Longrightarrow> increasing (filter Q xs)"
  by (induction xs) (auto simp: increasing_def)

lemma increasing_map_ts: "map ts xs = map ts ys \<Longrightarrow> increasing xs = increasing ys"
  by (simp add: increasing_def)

lemma merged_increasing:
  assumes "increasing ser" and "increasing ticks"
  shows "increasing (merged ser ticks)"
proof (cases ser)
  case (Cons first rest)
  define kept where "kept = filter (\<lambda>t. ts t < ts first) ticks"
  have kept: "increasing (kept @ first # rest)"
    using increasing_filter [OF assms(2)] assms(1) unfolding Cons kept_def increasing_append
    by (fastforce simp: increasing_def)
  have "map ts (merged ser ticks) = map ts (kept @ first # rest)" by (simp add: merged_def Cons Let_def kept_def)
  with kept show ?thesis using increasing_map_ts by blast
qed (use assms in \<open>simp add: merged_def\<close>)

lemma append_ticks_props:
  assumes "increasing (ls_ticks s)"
  shows "increasing (ls_ticks (append_ticks xs s))" "length (ls_ticks (append_ticks xs s)) \<le> CAPACITY"
  using fold_append_tick_increasing [OF assms, of xs] by (simp_all add: append_ticks_def Let_def increasing_drop)

text \<open>What the callbacks keep: the buffer, the stream and the request.\<close>

definition store_ok :: "LiveStore \<Rightarrow> bool" where
  "store_ok s \<longleftrightarrow> increasing (ls_ticks s) \<and> length (ls_ticks s) \<le> CAPACITY
     \<and> ls_sources s = (if ls_es s then 1 else 0)
     \<and> (ls_pending s \<noteq> None \<longleftrightarrow> ls_loading s)
     \<and> (ls_users s = 0 \<and> (ls_es s \<or> ls_loading s) \<longrightarrow> ls_closeTimer s)
     \<and> (ls_closeTimer s \<longrightarrow> ls_users s = 0)
     \<and> (ls_users s > 0 \<longrightarrow> ls_es s \<or> ls_reopen s > 0)"

lemma append_ticks_fields [simp]:
  "ls_sources (append_ticks xs s) = ls_sources s" "ls_es (append_ticks xs s) = ls_es s"
  "ls_pending (append_ticks xs s) = ls_pending s" "ls_loading (append_ticks xs s) = ls_loading s"
  "ls_users (append_ticks xs s) = ls_users s" "ls_closeTimer (append_ticks xs s) = ls_closeTimer s"
  "ls_reopen (append_ticks xs s) = ls_reopen s"
  by (simp_all add: append_ticks_def Let_def)

lemmas store_defs = store_ok_def store_acquire_def store_open_def store_release_def store_close_def on_hello_def loadSeries_def
  on_tick_def on_es_error_def on_reopen_def on_load_failed_def

lemma store_ok_steps:
  assumes "store_ok s"
  shows "store_ok (store_acquire s)" and "ls_users s > 0 \<Longrightarrow> store_ok (store_release s)"
    and "ls_closeTimer s \<Longrightarrow> store_ok (store_close (s\<lparr> ls_closeTimer := False \<rparr>))"
    and "ls_sources s > 0 \<Longrightarrow> store_ok (on_hello l s)" and "store_ok (on_tick t s)"
    and "ls_sources s > 0 \<Longrightarrow> store_ok (on_es_error gone s)" and "store_ok (on_reopen s)"
    and "store_ok (on_load_failed msg s)"
  using assms append_ticks_props [of s] append_ticks_props [of "s\<lparr> ls_pending := None, ls_loading := False \<rparr>"]
  by (auto simp: store_defs Let_def split: option.splits if_splits)

lemma on_loaded_ok:
  assumes "store_ok s" and "increasing ser" and "on_loaded ser s = Some s'"
  shows "store_ok s'"
proof -
  obtain p where p: "ls_pending s = Some p" "s' = merge_series ser p (s\<lparr> ls_pending := None, ls_loading := False \<rparr>)"
    using assms(3) by (auto simp: on_loaded_def split: option.splits)
  let ?s = "s\<lparr> ls_pending := None, ls_loading := False, ls_ticks := merged ser (ls_ticks s) \<rparr>"
  have "increasing (ls_ticks ?s)" using assms(1,2) by (simp add: merged_increasing store_ok_def)
  from append_ticks_props [OF this, of p] show ?thesis
    using assms(1) by (auto simp: p(2) merge_series_def store_ok_def)
qed

lemma live_series_increasing:
  assumes "hub_reach parse cap h" "0 < cap" and "live_series h q = Inr ser"
  shows "increasing ser"
proof -
  have "increasing (ring h)" using hub_reach_hub_inv [OF assms(1,2)] by (simp add: hub_inv_def buffers_ok_def increasing_def)
  moreover obtain n where "ser = series n h" using assms(3) by (auto simp: live_series_def)
  ultimately show ?thesis by (auto simp: series_def since_def Let_def increasing_drop)
qed

lemma client_reach_ok: "client_reach parse cap s \<Longrightarrow> 0 < cap \<Longrightarrow> store_ok s"
proof (induction rule: client_reach.induct)
  case new
  then show ?case by (simp add: store_ok_def new_LiveStore_def)
next
  case (loaded s h q ser s')
  then show ?case using live_series_increasing on_loaded_ok by blast
qed (auto simp: store_ok_steps)

text \<open>
  (C26) The live store of a tab, after any interleaving of users, stream events, timers and answers, with a
  server whose hub is reachable: the ticks strictly increase in time and are at most 3600; at most
  one event stream is open, exactly when the store holds it; ticks are set aside exactly while a
  request is in flight, so its answer always finds them; a store in use has a stream or a retry
  under way; and an unused stream or request has its closing timer running, while a store in use
  never has one.
\<close>

theorem client_reach_inv:
  assumes "client_reach parse cap s" and "0 < cap"
  shows "increasing (ls_ticks s) \<and> length (ls_ticks s) \<le> CAPACITY
    \<and> ls_sources s = (if ls_es s then 1 else 0)
    \<and> (ls_loading s \<longleftrightarrow> ls_pending s \<noteq> None) \<and> (ls_loading s \<longrightarrow> (\<exists>s'. on_loaded ser s = Some s'))
    \<and> (ls_users s > 0 \<longrightarrow> (ls_es s \<or> ls_reopen s > 0) \<and> \<not> ls_closeTimer s)
    \<and> (ls_users s = 0 \<and> (ls_es s \<or> ls_loading s) \<longrightarrow> ls_closeTimer s)"
  using client_reach_ok [OF assms] by (auto simp: store_ok_def on_loaded_def)

definition sample_store :: LiveStore where
  "sample_store = the (on_loaded (series 3600 sample_hub) (on_hello (Some 9000) (store_acquire new_LiveStore)))"

theorem client_reach_inv_witness:
  "client_reach sample_parse 900 sample_store \<and> map ts (ls_ticks sample_store) = [5000, 9000]
   \<and> ls_sources sample_store = 1 \<and> ls_pending sample_store = None \<and> increasing (ls_ticks sample_store)"
proof -
  let ?s = "on_hello (Some 9000) (store_acquire new_LiveStore)"
  have "client_reach sample_parse 900 (store_acquire new_LiveStore)" by (intro client_reach.intros)
  then have r: "client_reach sample_parse 900 ?s"
    by (rule client_reach.hello) (simp add: store_acquire_def store_open_def new_LiveStore_def)
  have h: "hub_reach sample_parse 900 sample_hub"
    unfolding sample_hub_def by (rule hub_reach.iter [OF hub_reach.start])
  have q: "live_series sample_hub (\<lambda>k. Some (QStr ''3600'')) = Inr (series 3600 sample_hub)"
    using fl_of_int [of 3600] by (simp add: live_series_def seconds_param_def all_digits_def is_digit_def Number_dec_def dec_val_def digit_val_def)
  have "ls_loading ?s" "on_loaded (series 3600 sample_hub) ?s = Some sample_store"
    by (simp_all add: sample_store_def on_loaded_def on_hello_def loadSeries_def store_acquire_def store_open_def new_LiveStore_def Let_def)
  then have c: "client_reach sample_parse 900 sample_store" using client_reach.loaded [OF r _ h q] by blast
  moreover have "map ts (ls_ticks sample_store) = [5000, 9000]" by code_simp
  moreover have "ls_es sample_store" "\<not> ls_loading sample_store" by code_simp+
  ultimately show ?thesis using client_reach_inv [OF c] by simp
qed

text \<open>
  What a reload leaves in the buffer: the older ticks the tab already had, then the server's series
  unchanged but for a gap mark on its first tick when it lies more than 2.5 intervals after them,
  then the ticks that arrived meanwhile and are newer, cut to the newest 3600.
\<close>

lemma fold_append_tick_filter:
  assumes "increasing xs" and "increasing ps" and "xs \<noteq> []"
  shows "fold append_tick ps xs = xs @ filter (\<lambda>t. ts (last xs) < ts t) ps"
  using assms
proof (induction ps arbitrary: xs)
  case (Cons p ps)
  have ps: "increasing ps" "\<forall>q \<in> set ps. ts p < ts q" using Cons.prems(2) by (auto simp: increasing_def)
  show ?case
  proof (cases "ts p \<le> ts (last xs)")
    case True
    then show ?thesis using Cons.IH [OF Cons.prems(1) ps(1) Cons.prems(3)] Cons.prems(3) by (simp add: append_tick_def)
  next
    case False
    then have "increasing (xs @ [p])" using append_tick_increasing [OF Cons.prems(1), of p] by (simp add: append_tick_def)
    then have "fold append_tick ps (xs @ [p]) = (xs @ [p]) @ filter (\<lambda>t. ts p < ts t) ps"
      using Cons.IH [of "xs @ [p]"] ps(1) by simp
    moreover have "filter (\<lambda>t. ts p < ts t) ps = ps" "filter (\<lambda>t. ts (last xs) < ts t) ps = ps"
      using ps(2) False by (auto intro!: filter_True dest: order_less_trans)
    moreover have "append_tick p xs = xs @ [p]" using False by (simp add: append_tick_def)
    ultimately show ?thesis using False by simp
  qed
qed simp

theorem merge_series_ticks:
  assumes "increasing (first # rest)" and "increasing (ls_ticks s)" and "increasing pend"
  shows "\<exists>first' all. first' \<in> {first, first\<lparr> gap := True \<rparr>}
    \<and> all = filter (\<lambda>t. ts t < ts first) (ls_ticks s) @ first' # rest @ filter (\<lambda>t. ts (last (first # rest)) < ts t) pend
    \<and> ls_ticks (merge_series (first # rest) pend s) = drop (length all - CAPACITY) all"
proof -
  define first' where "first' = hd (drop (length (filter (\<lambda>t. ts t < ts first) (ls_ticks s))) (merged (first # rest) (ls_ticks s)))"
  have m: "merged (first # rest) (ls_ticks s) = filter (\<lambda>t. ts t < ts first) (ls_ticks s) @ first' # rest"
    and f: "first' \<in> {first, first\<lparr> gap := True \<rparr>}"
    by (auto simp: merged_def Let_def first'_def)
  have "ts (last (first' # rest)) = ts (last (first # rest))" using f by auto
  then show ?thesis
    using fold_append_tick_filter [OF merged_increasing [OF assms(1,2)] assms(3)] f m
    by (intro exI [of _ first'] exI conjI) (auto simp: merge_series_def append_ticks_def Let_def)
qed

end
