(* ===== verification/ClientTalkers.thy ===== *)
theory ClientTalkers
  imports ClientLive
begin

text \<open>
  \<^verbatim>\<open>web/src/client/live/topTalkers.ts\<close>: the rows of the top-talkers table: the series behind each sparkline, the
  idle filter, the text filter, the list of names and sorting. \<open>toLowerCase\<close> (of the whole of
  Unicode) and \<open>localeCompare\<close> are parameters (\<open>lower\<close>, \<open>lc\<close>).
\<close>

section \<open>Sparklines\<close>

definition SPARK_MS :: num where "SPARK_MS = 60000"
definition IDLE_MS :: num where "IDLE_MS = 30000"
definition MAX_ROWS :: nat where "MAX_ROWS = 200"

record Spark =
  sp_tx :: "num option list"
  sp_rx :: "num option list"
  sp_sum :: num
  lastActiveTs :: "num option"

definition new_Spark :: Spark where
  "new_Spark = \<lparr> sp_tx = [], sp_rx = [], sp_sum = 0, lastActiveTs = None \<rparr>"

text \<open>A tick opens a point at 0 in every series, after a break when it follows a gap.\<close>

definition spark_open :: "bool \<Rightarrow> Spark \<Rightarrow> Spark" where
  "spark_open brk s =
     (let p = (if brk then [None, Some 0] else [Some 0]) in s\<lparr> sp_tx := sp_tx s @ p, sp_rx := sp_rx s @ p \<rparr>)"

definition set_last :: "'a \<Rightarrow> 'a list \<Rightarrow> 'a list" where
  "set_last v xs = xs[length xs - 1 := v]"

definition spark_put :: "num \<Rightarrow> CompactProc \<Rightarrow> Spark \<Rightarrow> Spark" where
  "spark_put t p s = s\<lparr> sp_tx := set_last (Some (cp_tx p)) (sp_tx s), sp_rx := set_last (Some (cp_rx p)) (sp_rx s),
     sp_sum := fadd (sp_sum s) (fadd (cp_tx p) (cp_rx p)),
     lastActiveTs := (if cp_tx p > 0 \<or> cp_rx p > 0 then Some t else lastActiveTs s) \<rparr>"

definition sparks_proc :: "num \<Rightarrow> CompactProc \<Rightarrow> (string, Spark) jsmap \<Rightarrow> (string, Spark) jsmap" where
  "sparks_proc t p m = (case map_get m (cp_id p) of None \<Rightarrow> m | Some s \<Rightarrow> map_set (cp_id p) (spark_put t p s) m)"

definition sparks_tick :: "bool \<Rightarrow> CompactTick \<Rightarrow> (string, Spark) jsmap \<Rightarrow> (string, Spark) jsmap" where
  "sparks_tick first t m =
     fold (sparks_proc (ts t)) (procs t) (map (\<lambda>(k, s). (k, spark_open (gap t \<and> \<not> first) s)) m)"

fun sparks_loop :: "bool \<Rightarrow> CompactTick list \<Rightarrow> (string, Spark) jsmap \<Rightarrow> (string, Spark) jsmap" where
  "sparks_loop first [] m = m"
| "sparks_loop first (t # ticks) m = sparks_loop False ticks (sparks_tick first t m)"

definition spark_window :: "num \<Rightarrow> CompactTick list \<Rightarrow> CompactTick list" where
  "spark_window windowMs ticks = drop (scan_back ts (fsub (ts (last ticks)) windowMs) ticks (length ticks)) ticks"

definition buildSparks :: "CompactTick list \<Rightarrow> string list \<Rightarrow> num \<Rightarrow> (string, Spark) jsmap" where
  "buildSparks ticks ids windowMs =
     (let out = fold (\<lambda>i. map_set i new_Spark) ids []
      in if ticks = [] \<or> out = [] then out else sparks_loop True (spark_window windowMs ticks) out)"

section \<open>Filters\<close>

definition isIdle :: "LiveProcessRow \<Rightarrow> Spark option \<Rightarrow> num option \<Rightarrow> bool" where
  "isIdle row spark newestTs =
     (if l_endedMs row \<noteq> None then False
      else if l_txKbps row > 0 \<or> l_rxKbps row > 0 then False
      else case (Option.bind spark lastActiveTs, newestTs) of
          (Some l, Some n) \<Rightarrow> fsub n l \<ge> IDLE_MS
        | _ \<Rightarrow> True)"

definition str_includes :: "string \<Rightarrow> string \<Rightarrow> bool" where
  "str_includes s f \<longleftrightarrow> index_of_str f s \<noteq> None"

definition matchesFilter :: "(string \<Rightarrow> string) \<Rightarrow> LiveProcessRow \<Rightarrow> string \<Rightarrow> bool" where
  "matchesFilter lower row flt = (let f = lower (trim flt) in
     f = [] \<or> str_includes (lower (l_name row)) f \<or> str_includes (lower (l_cmdline row)) f)"

definition fresh_names :: "string list \<Rightarrow> string list \<Rightarrow> string list" where
  "fresh_names known ns = fst (fold (\<lambda>n (fresh, have). if n \<noteq> [] \<and> n \<notin> set have then (fresh @ [n], have @ [n]) else (fresh, have))
     ns ([], known))"

definition appendNames :: "(string \<Rightarrow> string \<Rightarrow> int) \<Rightarrow> string list \<Rightarrow> LiveProcessRow list \<Rightarrow> string list" where
  "appendNames lc known rows =
     (let fresh = fresh_names known (map l_name rows)
      in if fresh = [] then known else known @ sort_by (collate lc (\<lambda>x. x)) fresh)"

section \<open>Sorting\<close>

datatype SortKey = KRate | KName | KPid | KUser | KTx | KRx | KSpark | KFlows | KTxTotal | KRxTotal | KAge

definition SORT_KEYS :: "(string \<times> SortKey) list" where
  "SORT_KEYS = [(''rate'', KRate), (''name'', KName), (''pid'', KPid), (''user'', KUser), (''tx'', KTx), (''rx'', KRx),
     (''spark'', KSpark), (''flows'', KFlows), (''txTotal'', KTxTotal), (''rxTotal'', KRxTotal), (''age'', KAge)]"

record Sort =
  so_key :: SortKey
  so_desc :: bool

definition DEFAULT_SORT :: string where "DEFAULT_SORT = ''-rate''"

definition parse_sort_key :: "string \<Rightarrow> Sort option" where
  "parse_sort_key param = (let desc = starts_with ''-'' param; key = (if desc then drop 1 param else param)
     in map_option (\<lambda>k. \<lparr> so_key = k, so_desc = desc \<rparr>) (map_of SORT_KEYS key))"

definition parseRowSort :: "string \<Rightarrow> Sort" where
  "parseRowSort param = (case parse_sort_key param of Some s \<Rightarrow> s | None \<Rightarrow> the (parse_sort_key DEFAULT_SORT))"

definition key_text :: "SortKey \<Rightarrow> string" where
  "key_text k = fst (hd (filter (\<lambda>e. snd e = k) SORT_KEYS))"

definition formatSort :: "Sort \<Rightarrow> string" where
  "formatSort s = (if so_desc s then ''-'' else []) @ key_text (so_key s)"

definition nextSort :: "Sort \<Rightarrow> SortKey \<Rightarrow> Sort" where
  "nextSort cur key = (if so_key cur = key then \<lparr> so_key = key, so_desc = \<not> so_desc cur \<rparr>
     else \<lparr> so_key = key, so_desc = key \<notin> {KName, KUser} \<rparr>)"

text \<open>\<open>`uid ${r.uid}`\<close>: an uid is a natural number.\<close>

definition userLabel :: "LiveProcessRow \<Rightarrow> string" where
  "userLabel r = (case l_user r of Some u \<Rightarrow> u | None \<Rightarrow> ''uid '' @ string_of_nat (nat \<lfloor>l_uid r\<rfloor>))"

datatype sort_value = SNum num | SStr string

definition sortValue :: "(string \<Rightarrow> string) \<Rightarrow> (string, Spark) jsmap \<Rightarrow> SortKey \<Rightarrow> LiveProcessRow \<Rightarrow> sort_value" where
  "sortValue lower sparks key r = (case key of
       KRate \<Rightarrow> SNum (fadd (l_txKbps r) (l_rxKbps r))
     | KName \<Rightarrow> SStr (lower (l_name r))
     | KPid \<Rightarrow> SNum (of_nat (l_pid r))
     | KUser \<Rightarrow> SStr (lower (userLabel r))
     | KTx \<Rightarrow> SNum (l_txKbps r)
     | KRx \<Rightarrow> SNum (l_rxKbps r)
     | KSpark \<Rightarrow> SNum (case map_get sparks (l_id r) of Some s \<Rightarrow> sp_sum s | None \<Rightarrow> 0)
     | KFlows \<Rightarrow> SNum (of_nat (l_nFlows r))
     | KTxTotal \<Rightarrow> SNum (l_txTotal r)
     | KRxTotal \<Rightarrow> SNum (l_rxTotal r)
     | KAge \<Rightarrow> SNum (- l_startMs r))"

text \<open>
  \<open>a.v < b.v\<close>. The values of one column are all numbers or all texts, so how the two compare is
  immaterial.
\<close>

fun value_less :: "sort_value \<Rightarrow> sort_value \<Rightarrow> bool" where
  "value_less (SNum a) (SNum b) = (a < b)"
| "value_less (SStr a) (SStr b) = str_less a b"
| "value_less (SNum a) (SStr b) = True"
| "value_less (SStr a) (SNum b) = False"

definition row_le :: "bool \<Rightarrow> sort_value \<times> LiveProcessRow \<Rightarrow> sort_value \<times> LiveProcessRow \<Rightarrow> bool" where
  "row_le desc a b = (if fst a \<noteq> fst b then (if desc then value_less (fst b) (fst a) else value_less (fst a) (fst b))
     else str_asc l_id (snd a) (snd b))"

definition sortRows :: "(string \<Rightarrow> string) \<Rightarrow> LiveProcessRow list \<Rightarrow> Sort \<Rightarrow> (string, Spark) jsmap \<Rightarrow> LiveProcessRow list" where
  "sortRows lower rows srt sparks =
     map snd (sort_by (row_le (so_desc srt)) (map (\<lambda>r. (sortValue lower sparks (so_key srt) r, r)) rows))"

section \<open>The table's order\<close>

lemma value_less_props:
  "\<not> value_less v v" "value_less u v \<Longrightarrow> value_less v w \<Longrightarrow> value_less u w" "value_less u v \<or> u = v \<or> value_less v u"
proof -
  show "\<not> value_less v v" by (cases v) auto
  show "value_less u v \<Longrightarrow> value_less v w \<Longrightarrow> value_less u w" by (cases u; cases v; cases w) (auto intro: str_less_trans)
  show "value_less u v \<or> u = v \<or> value_less v u" using str_less_linear by (cases u; cases v) auto
qed

lemma comparator_row_le [simp, intro]: "comparator (row_le desc)"
proof -
  have id: "comparator (str_asc l_id)" by simp
  show ?thesis
  proof
    show "row_le desc x y \<or> row_le desc y x" for x y
      using value_less_props(3) [of "fst x" "fst y"] comparator.total [OF id] by (auto simp: row_le_def)
    show "row_le desc x y \<Longrightarrow> row_le desc y z \<Longrightarrow> row_le desc x z" for x y z
      using value_less_props(1) value_less_props(2) [of "fst x" "fst y" "fst z"] value_less_props(2) [of "fst z" "fst y" "fst x"]
        comparator.trans [OF id, of "snd x" "snd y" "snd z"]
      by (auto simp: row_le_def split: if_splits)
  qed
qed

text \<open>
  The table is sorted and stands still: the rows shown are the rows given, in the chosen direction of
  the chosen column with ties by id; and when ids are unique the order depends only on which rows
  there are, not on the order they came in.
\<close>

theorem sortRows_stands_still:
  assumes "distinct (map l_id rows)" and "mset rows' = mset rows"
  shows "mset (sortRows lower rows srt sparks) = mset rows
    \<and> sorted_wrt (\<lambda>a b. row_le (so_desc srt) (sortValue lower sparks (so_key srt) a, a) (sortValue lower sparks (so_key srt) b, b))
        (sortRows lower rows srt sparks)
    \<and> sortRows lower rows' srt sparks = sortRows lower rows srt sparks"
proof -
  let ?v = "sortValue lower sparks (so_key srt)"
  let ?pair = "\<lambda>r. (?v r, r)"
  let ?le = "\<lambda>a b. row_le (so_desc srt) (?pair a) (?pair b)"
  have perm: "mset (sortRows lower rs srt sparks) = mset rs" for rs
    by (simp add: sortRows_def multiset.map_comp comp_def)
  have sorted: "sorted_wrt ?le (sortRows lower rs srt sparks)" for rs
  proof -
    let ?xs = "sort_by (row_le (so_desc srt)) (map ?pair rs)"
    have "\<forall>x \<in> set ?xs. x = ?pair (snd x)" by auto
    moreover have "sorted_wrt (row_le (so_desc srt)) ?xs" by (simp add: sort_by_sorted_wrt)
    ultimately show ?thesis by (simp add: sortRows_def sorted_wrt_map) (rule sorted_wrt_mono_rel, auto)
  qed
  have "a = b" if "a \<in> set rows" "b \<in> set rows" "?le a b" "?le b a" for a b
  proof -
    have "l_id a = l_id b"
      using that(3,4) value_less_props(1) value_less_props(2) [of "?v a" "?v b" "?v a"] str_asc_antisym [of l_id a b]
      by (auto simp: row_le_def split: if_splits)
    then show ?thesis using assms(1) that(1,2) by (auto simp: distinct_map dest: inj_onD)
  qed
  then have "sortRows lower rows' srt sparks = sortRows lower rows srt sparks"
    using sorted_wrt_unique [OF sorted sorted, of rows' rows] perm assms(2) by (metis mset_eq_setD)
  then show ?thesis using perm sorted by blast
qed

text \<open>The URL keeps a sort: reading back what is written gives the same sort, and every text is read as one.\<close>

theorem parseRowSort_roundtrip: "parseRowSort (formatSort s) = s"
proof -
  have "starts_with ''-'' (key_text k) = False" "map_of SORT_KEYS (key_text k) = Some k" for k
    by (cases k; simp add: key_text_def SORT_KEYS_def starts_with_def)+
  then show ?thesis by (cases s) (auto simp: parseRowSort_def parse_sort_key_def formatSort_def starts_with_def)
qed

text \<open>Clicking a header twice more returns to the same order.\<close>

lemma nextSort_twice: "nextSort (nextSort (nextSort cur key) key) key = nextSort cur key"
  by (auto simp: nextSort_def)

section \<open>Sparklines and idleness\<close>

text \<open>The series of one process on its own.\<close>

fun spark_of :: "string \<Rightarrow> bool \<Rightarrow> CompactTick list \<Rightarrow> Spark \<Rightarrow> Spark" where
  "spark_of i first [] s = s"
| "spark_of i first (t # ticks) s =
     spark_of i False ticks (fold (spark_put (ts t)) (filter (\<lambda>p. cp_id p = i) (procs t)) (spark_open (gap t \<and> \<not> first) s))"

lemma get_sparks_procs:
  "map_get (fold (sparks_proc t) ps m) i = map_option (fold (spark_put t) (filter (\<lambda>p. cp_id p = i) ps)) (map_get m i)"
proof (induction ps arbitrary: m)
  case Nil
  show ?case by (cases "map_get m i") auto
qed (auto simp: sparks_proc_def alm.get_put option.map_comp comp_def split: option.split)

lemma get_sparks_loop: "map_get (sparks_loop first ticks m) i = map_option (spark_of i first ticks) (map_get m i)"
proof (induction ticks arbitrary: first m)
  case (Cons t ticks)
  have "map_get (map (\<lambda>(k, s). (k, spark_open b s)) m) i = map_option (spark_open b) (map_get m i)" for b
    by (simp add: map_get_def map_of_map)
  then show ?case
    using Cons.IH by (simp add: sparks_tick_def get_sparks_procs option.map_comp comp_def)
next
  case Nil
  show ?case by (cases "map_get m i") auto
qed

lemma buildSparks_get:
  assumes "ticks \<noteq> []" and "i \<in> set ids"
  shows "map_get (buildSparks ticks ids w) i = Some (spark_of i True (spark_window w ticks) new_Spark)"
proof -
  have get: "map_get (fold (\<lambda>i. map_set i new_Spark) ids m) i = (if i \<in> set ids then Some new_Spark else map_get m i)" for ids m
    by (induction ids arbitrary: m) (auto simp: alm.get_put)
  have "fold (\<lambda>i. map_set i new_Spark) ids [] \<noteq> []" using get [of ids "[]"] assms(2) by (auto simp: map_get_def)
  then show ?thesis using get [of ids "[]"] assms by (simp add: buildSparks_def Let_def get_sparks_loop)
qed

definition active_in :: "string \<Rightarrow> CompactTick \<Rightarrow> bool" where
  "active_in i t \<longleftrightarrow> (\<exists>p \<in> set (procs t). cp_id p = i \<and> (cp_tx p > 0 \<or> cp_rx p > 0))"

lemma lastActive_put:
  "lastActiveTs (fold (spark_put t) ps s) = (if \<exists>p \<in> set ps. cp_tx p > 0 \<or> cp_rx p > 0 then Some t else lastActiveTs s)"
  by (induction ps arbitrary: s) (auto simp: spark_put_def)

lemma lastActive_spark_of:
  "lastActiveTs (spark_of i first ticks s) =
     (if filter (active_in i) ticks = [] then lastActiveTs s else Some (ts (last (filter (active_in i) ticks))))"
proof (induction ticks arbitrary: first s)
  case (Cons t ticks)
  have "lastActiveTs (fold (spark_put (ts t)) (filter (\<lambda>p. cp_id p = i) (procs t)) (spark_open b s)) =
      (if active_in i t then Some (ts t) else lastActiveTs s)" for b
    by (auto simp: lastActive_put active_in_def spark_open_def Let_def)
  then show ?case using Cons.IH by auto
qed simp

text \<open>
  Who is idle: for a buffer of strictly increasing whole milliseconds, a listed process is idle
  exactly when it has not ended, has no traffic now and had none in any buffered tick of the last
  30 seconds; that sparklines reach back only one minute does not matter.
\<close>

theorem isIdle_iff:
  assumes "increasing ticks" and "ticks \<noteq> []" and "\<forall>t \<in> set ticks. \<exists>n. ts t = of_int n \<and> \<bar>n\<bar> < 2 ^ 52" and "l_id row \<in> set ids"
  shows "isIdle row (map_get (buildSparks ticks ids SPARK_MS) (l_id row)) (Some (ts (last ticks))) \<longleftrightarrow>
    l_endedMs row = None \<and> \<not> l_txKbps row > 0 \<and> \<not> l_rxKbps row > 0
    \<and> (\<forall>t \<in> set ticks. active_in (l_id row) t \<longrightarrow> ts (last ticks) - ts t \<ge> IDLE_MS)"
proof -
  define n where "n = \<lfloor>ts (last ticks)\<rfloor>"
  have int: "\<exists>k. ts t = of_int k \<and> \<bar>k\<bar> < 2 ^ 52" if "t \<in> set ticks" for t using assms(3) that by blast
  have N: "ts (last ticks) = of_int n" "\<bar>n\<bar> < 2 ^ 52" using int [of "last ticks"] assms(2) by (auto simp: n_def)
  have gapms: "fsub (of_int n) (ts t) = of_int n - ts t" if "t \<in> set ticks" for t
  proof -
    obtain k where k: "ts t = of_int k" "\<bar>k\<bar> < 2 ^ 52" using int [OF \<open>t \<in> set ticks\<close>] by blast
    then have "\<bar>n - k\<bar> \<le> 2 ^ 53" using N(2) by simp
    then show ?thesis using fl_of_int [of "n - k"] k(1) by (simp add: fsub_def)
  qed
  have "\<bar>n - 60000\<bar> \<le> 2 ^ 53" using N(2) by simp
  then have "fsub (of_int n) SPARK_MS = of_int n - 60000" using fl_of_int [of "n - 60000"] by (simp add: fsub_def SPARK_MS_def)
  then have win: "spark_window SPARK_MS ticks = filter (\<lambda>t. of_int n - 60000 < ts t) ticks"
    using scan_back_filter [of ts "length ticks" ticks] assms(1) N(1) by (simp add: spark_window_def increasing_def)
  define acts where "acts = filter (active_in (l_id row)) (spark_window SPARK_MS ticks)"
  have A: "t \<in> set acts \<longleftrightarrow> t \<in> set ticks \<and> active_in (l_id row) t \<and> of_int n - 60000 < ts t" for t by (auto simp: acts_def win)
  have inc: "increasing acts" unfolding acts_def win by (intro increasing_filter assms(1))
  have spark: "Option.bind (map_get (buildSparks ticks ids SPARK_MS) (l_id row)) lastActiveTs =
      (if acts = [] then None else Some (ts (last acts)))"
    using buildSparks_get [OF assms(2,4), of SPARK_MS] by (simp add: lastActive_spark_of new_Spark_def acts_def)
  have "(acts = [] \<or> fsub (of_int n) (ts (last acts)) \<ge> IDLE_MS) \<longleftrightarrow> (\<forall>t \<in> set ticks. active_in (l_id row) t \<longrightarrow> of_int n - ts t \<ge> IDLE_MS)"
  proof (cases "acts = []")
    case True
    then have "\<not> of_int n - 60000 < ts t" if "t \<in> set ticks" "active_in (l_id row) t" for t using A [of t] that by auto
    then show ?thesis using True by (fastforce simp: IDLE_MS_def)
  next
    case False
    then have l: "last acts \<in> set ticks" "active_in (l_id row) (last acts)" using A last_in_set [OF False] by blast+
    have "ts t \<le> ts (last acts) \<or> ts t \<le> of_int n - 60000" if "t \<in> set ticks" "active_in (l_id row) t" for t
      using A [of t] that increasing_last [OF inc, of t] by auto
    then show ?thesis using False l gapms [OF l(1)] by (fastforce simp: IDLE_MS_def)
  qed
  then show ?thesis unfolding isIdle_def spark N(1) by auto
qed

definition sample_row :: "string \<Rightarrow> num \<Rightarrow> LiveProcessRow" where
  "sample_row i tx = \<lparr> l_id = i, l_pid = 1, l_startNs = ''1'', l_name = ''curl'', l_cmdline = [], l_uid = 0, l_user = None, l_startMs = 0,
     l_firstSeenMs = 0, l_lastSeenMs = 0, l_endedMs = None, l_txKbps = tx, l_rxKbps = 0, l_txTotal = 0, l_rxTotal = 0, l_nFlows = 0 \<rparr>"

definition sample_tick :: "num \<Rightarrow> CompactProc list \<Rightarrow> CompactTick" where
  "sample_tick t ps = \<lparr> ts = t, intervalMs = 1000, ct_drops = 0, nProcs = length ps, ct_nFlows = 0, txKbps = 0, rxKbps = 0, procs = ps,
     apps = [], gap = False \<rparr>"

theorem sortRows_stands_still_witness:
  "map l_id (sortRows id [sample_row ''b'' 2, sample_row ''a'' 2, sample_row ''c'' 5] \<lparr> so_key = KTx, so_desc = True \<rparr> []) = [''c'', ''a'', ''b'']
   \<and> sortRows id [sample_row ''c'' 5, sample_row ''b'' 2, sample_row ''a'' 2] \<lparr> so_key = KTx, so_desc = True \<rparr> [] =
     sortRows id [sample_row ''b'' 2, sample_row ''a'' 2, sample_row ''c'' 5] \<lparr> so_key = KTx, so_desc = True \<rparr> []"
proof -
  let ?rows = "[sample_row ''b'' 2, sample_row ''a'' 2, sample_row ''c'' 5]" and ?rows' = "[sample_row ''c'' 5, sample_row ''b'' 2, sample_row ''a'' 2]"
  have "distinct (map l_id ?rows)" "mset ?rows' = mset ?rows" by (simp_all add: sample_row_def)
  from sortRows_stands_still [OF this, of id "\<lparr> so_key = KTx, so_desc = True \<rparr>" "[]"]
  have "sortRows id ?rows' \<lparr> so_key = KTx, so_desc = True \<rparr> [] = sortRows id ?rows \<lparr> so_key = KTx, so_desc = True \<rparr> []" by blast
  moreover have "map l_id (sortRows id ?rows \<lparr> so_key = KTx, so_desc = True \<rparr> []) = [''c'', ''a'', ''b'']" by code_simp
  ultimately show ?thesis by blast
qed

theorem isIdle_iff_witness:
  "isIdle (sample_row ''1:1'' 0) (map_get (buildSparks [sample_tick 1000 [\<lparr> cp_id = ''1:1'', cp_name = ''curl'', cp_tx = 5, cp_rx = 0 \<rparr>],
     sample_tick 31000 []] [''1:1''] SPARK_MS) ''1:1'') (Some 31000)"
proof -
  let ?ticks = "[sample_tick 1000 [\<lparr> cp_id = ''1:1'', cp_name = ''curl'', cp_tx = 5, cp_rx = 0 \<rparr>], sample_tick 31000 []]"
  have "increasing ?ticks" by (simp add: increasing_def sample_tick_def)
  moreover have "\<forall>t \<in> set ?ticks. \<exists>n. ts t = of_int n \<and> \<bar>n\<bar> < 2 ^ 52"
    using exI [of "\<lambda>n. (1000 :: num) = of_int n \<and> \<bar>n\<bar> < 2 ^ 52" 1000] exI [of "\<lambda>n. (31000 :: num) = of_int n \<and> \<bar>n\<bar> < 2 ^ 52" 31000]
    by (simp add: sample_tick_def)
  moreover have "l_id (sample_row ''1:1'' 0) \<in> set [''1:1'']" by (simp add: sample_row_def)
  ultimately show ?thesis
    using isIdle_iff [of ?ticks "sample_row ''1:1'' 0" "[''1:1'']"]
    by (auto simp: sample_row_def sample_tick_def active_in_def IDLE_MS_def)
qed

section \<open>The list of names\<close>

lemma fresh_names_props:
  "set (fresh_names known ns) = {n \<in> set ns. n \<noteq> [] \<and> n \<notin> set known} \<and> distinct (fresh_names known ns)"
proof -
  let ?step = "\<lambda>n (fresh, have). if n \<noteq> [] \<and> n \<notin> set have then (fresh @ [n], have @ [n]) else (fresh, have)"
  have "\<exists>fresh have. fold ?step ns ([], known) = (fresh, have) \<and> set have = set known \<union> set fresh
      \<and> set fresh = {n \<in> set ns. n \<noteq> [] \<and> n \<notin> set known} \<and> distinct fresh"
    by (induction ns rule: rev_induct) (auto split: if_splits)
  then show ?thesis by (auto simp: fresh_names_def)
qed

text \<open>
  Names are only ever appended: the known names keep their places, every name of a row is in the
  list afterwards, none twice.
\<close>

theorem appendNames_grows:
  assumes "distinct known"
  shows "take (length known) (appendNames lc known rows) = known \<and> distinct (appendNames lc known rows)
    \<and> set (appendNames lc known rows) = set known \<union> (l_name ` set rows - {[]})"
  using assms fresh_names_props [of known "map l_name rows"] by (auto simp: appendNames_def Let_def)

end
