(* ===== verification/ClientLiveChart.thy ===== *)
theory ClientLiveChart
  imports ClientColors ClientTalkers
begin

text \<open>
  \<^verbatim>\<open>web/src/client/live/useLiveThroughput.ts\<close>: the series of the live throughput chart: which series are shown
  (a ranking that holds still), the mirrored stacks with the remainder, the band under the pointer,
  the window of ticks, and the hook that ties ranking and colors together. A point is a time and a
  rate, \<open>None\<close> for a break.
\<close>

section \<open>Ranking\<close>

datatype GroupBy = GName | GId

definition OTHER_KEY :: string where "OTHER_KEY = CHR 0x00 # ''other''"
definition TOP_N :: nat where "TOP_N = 8"
definition RANK_EVERY_MS :: num where "RANK_EVERY_MS = 5000"
definition HOLD_MS :: num where "HOLD_MS = 15000"

type_synonym point = "num \<times> num option"

record RankState =
  rk_by :: GroupBy
  rk_windowS :: num
  rankedAt :: num
  rk_top :: "string list"
  lastInTop :: "(string, num) jsmap"

definition pidOf :: "string \<Rightarrow> string" where
  "pidOf i = (case index_of (CHR '':'') i of Some n \<Rightarrow> take n i | None \<Rightarrow> butlast i)"

definition group_key :: "GroupBy \<Rightarrow> CompactProc \<Rightarrow> string" where
  "group_key by' p = (case by' of GName \<Rightarrow> cp_name p | GId \<Rightarrow> cp_id p)"

definition windowSums :: "CompactTick list \<Rightarrow> GroupBy \<Rightarrow> (string, num) jsmap" where
  "windowSums ticks by' = accum (group_key by') (\<lambda>v p. fadd (fadd (case v of Some x \<Rightarrow> x | None \<Rightarrow> 0) (cp_tx p)) (cp_rx p))
     (concat (map procs ticks)) []"

definition rank_fresh :: "(string, num) jsmap \<Rightarrow> nat \<Rightarrow> string list" where
  "rank_fresh totals n = map fst (take n (sort_by (by_then (desc_by snd) (str_asc fst)) (filter (\<lambda>(k, v). v > 0) totals)))"

definition held :: "num \<Rightarrow> (string, num) jsmap \<Rightarrow> (string, num) jsmap" where
  "held now m = filter (\<lambda>(k, t). fsub now t < HOLD_MS) m"

definition rank_new :: "GroupBy \<Rightarrow> num \<Rightarrow> nat \<Rightarrow> num \<Rightarrow> (string, num) jsmap \<Rightarrow> (string, num) jsmap \<Rightarrow> string list \<Rightarrow> RankState" where
  "rank_new by' windowS n now totals hold prevTop =
     (let fresh = rank_fresh totals n;
          lit = fold (\<lambda>k. map_set k now) fresh hold;
          kept = filter (\<lambda>k. k \<in> set fresh \<or> map_get lit k \<noteq> None) prevTop;
          joined = take (n - length kept) (filter (\<lambda>k. k \<notin> set kept) fresh)
      in \<lparr> rk_by = by', rk_windowS = windowS, rankedAt = now,
           rk_top = sort_by (by_then (desc_by (\<lambda>k. case map_get totals k of Some v \<Rightarrow> v | None \<Rightarrow> 0)) (str_asc (\<lambda>k. k))) (kept @ joined),
           lastInTop = lit \<rparr>)"

definition rank :: "CompactTick list \<Rightarrow> GroupBy \<Rightarrow> num \<Rightarrow> RankState option \<Rightarrow> nat \<Rightarrow> RankState" where
  "rank ticks by' windowS prev n =
     (let now = (if ticks = [] then 0 else ts (last ticks));
          same = (case prev of Some p \<Rightarrow> if rk_by p = by' \<and> rk_windowS p = windowS then Some p else None | None \<Rightarrow> None)
      in case same of
           Some p \<Rightarrow>
             if now \<ge> rankedAt p \<and> fsub now (rankedAt p) < RANK_EVERY_MS then p
             else rank_new by' windowS n now (windowSums ticks by') (held now (lastInTop p)) (rk_top p)
         | None \<Rightarrow> rank_new by' windowS n now (windowSums ticks by') [] [])"

text \<open>What the ranking keeps: distinct keys, at most \<open>n\<close>, each of them once in the plain top.\<close>

definition rank_ok :: "nat \<Rightarrow> RankState \<Rightarrow> bool" where
  "rank_ok n r \<longleftrightarrow> distinct (rk_top r) \<and> length (rk_top r) \<le> n \<and> map_ok (lastInTop r)"

lemma distinct_rank_fresh: "map_ok totals \<Longrightarrow> distinct (rank_fresh totals n)" and length_rank_fresh: "length (rank_fresh totals n) \<le> n"
proof -
  assume "map_ok totals"
  then have "distinct (map fst (filter (\<lambda>(k, v). v > 0) totals))" by (auto simp: map_ok_def distinct_map intro: inj_on_subset)
  then have "distinct (map fst (sort_by (by_then (desc_by snd) (str_asc fst)) (filter (\<lambda>(k, v). v > 0) totals)))"
    by (simp add: distinct_map)
  then show "distinct (rank_fresh totals n)" unfolding rank_fresh_def take_map [symmetric] by (rule distinct_take)
qed (simp add: rank_fresh_def)

lemma map_ok_windowSums: "map_ok (windowSums ticks by')"
  unfolding windowSums_def by (simp add: map_ok_accum)

lemma map_ok_held: "map_ok m \<Longrightarrow> map_ok (held now m)"
  by (auto simp: held_def map_ok_def distinct_map intro: inj_on_subset)

lemma get_hold_fresh: "map_get (fold (\<lambda>k. map_set k now) ks m) k = (if k \<in> set ks then Some now else map_get m k)"
  by (induction ks arbitrary: m) (auto simp: alm.get_put)

lemma map_ok_hold_fresh: "map_ok m \<Longrightarrow> map_ok (fold (\<lambda>k. map_set k now) ks m)"
  by (induction ks arbitrary: m) (simp_all add: alm.invar_put)

lemma rank_new_props:
  fixes by' :: GroupBy and w now :: num
  assumes "map_ok totals" and "map_ok hold" and "distinct top'" and "length top' \<le> n"
  defines "r \<equiv> rank_new by' w n now totals hold top'"
  shows "rank_ok n r" and "set (rk_top r) \<subseteq> set (rank_fresh totals n) \<union> {k \<in> set top'. map_get hold k \<noteq> None}"
    and "{k \<in> set top'. map_get hold k \<noteq> None} \<subseteq> set (rk_top r)"
    and "set (rank_fresh totals n) \<subseteq> set (rk_top r) \<or> length (rk_top r) = n"
    and "\<forall>k \<in> set (rank_fresh totals n). map_get (lastInTop r) k = Some now"
proof -
  let ?fresh = "rank_fresh totals n" and ?lit = "fold (\<lambda>k. map_set k now) (rank_fresh totals n) hold"
  define kept where "kept = filter (\<lambda>k. k \<in> set ?fresh \<or> map_get ?lit k \<noteq> None) top'"
  define joined where "joined = take (n - length kept) (filter (\<lambda>k. k \<notin> set kept) ?fresh)"
  have kept: "distinct kept" "length kept \<le> n" "set kept = {k \<in> set top'. k \<in> set ?fresh \<or> map_get hold k \<noteq> None}"
    using assms(3) le_trans [OF length_filter_le assms(4)] by (auto simp: kept_def get_hold_fresh)
  have joined: "distinct joined" "set joined \<inter> set kept = {}" "length joined \<le> n - length kept" "set joined \<subseteq> set ?fresh"
    using distinct_rank_fresh [OF assms(1)] by (auto simp: joined_def dest: in_set_takeD)
  have top: "set (rk_top r) = set kept \<union> set joined" "distinct (rk_top r)" "length (rk_top r) = length kept + length joined"
    using kept(1) joined(1,2) by (auto simp: r_def rank_new_def Let_def kept_def joined_def)
  have lit: "lastInTop r = ?lit" by (simp add: r_def rank_new_def Let_def)
  show "rank_ok n r" using top kept(2) joined(3) map_ok_hold_fresh [OF assms(2)] by (simp add: rank_ok_def lit)
  show "set (rk_top r) \<subseteq> set ?fresh \<union> {k \<in> set top'. map_get hold k \<noteq> None}" using top(1) kept(3) joined(4) by auto
  show "{k \<in> set top'. map_get hold k \<noteq> None} \<subseteq> set (rk_top r)" using top(1) kept(3) by auto
  show "\<forall>k \<in> set ?fresh. map_get (lastInTop r) k = Some now" by (simp add: lit get_hold_fresh)
  show "set ?fresh \<subseteq> set (rk_top r) \<or> length (rk_top r) = n"
  proof (cases "length (filter (\<lambda>k. k \<notin> set kept) ?fresh) \<le> n - length kept")
    case True
    then show ?thesis using top(1) by (auto simp: joined_def)
  next
    case False
    then show ?thesis using top(3) kept(2) by (simp add: joined_def)
  qed
qed

text \<open>
  The legend holds still: from any earlier ranking, the new one shows at most \<open>n\<close> different series;
  within five seconds of the last ranking it is unchanged; after that a shown series that was in
  the plain top \<open>n\<close> less than 15 seconds ago stays, every series of the plain top \<open>n\<close> is shown
  unless all places are held, and nothing else is.
\<close>

theorem rank_holds_still:
  assumes "rank_ok n p" and "rk_by p = by'" and "rk_windowS p = w" and "ticks \<noteq> []"
  shows "let r = rank ticks by' w (Some p) n; now = ts (last ticks); fresh = rank_fresh (windowSums ticks by') n in
    rank_ok n r
    \<and> (rankedAt p \<le> now \<and> fsub now (rankedAt p) < RANK_EVERY_MS \<longrightarrow> r = p)
    \<and> (\<not> (rankedAt p \<le> now \<and> fsub now (rankedAt p) < RANK_EVERY_MS) \<longrightarrow>
        (\<forall>k t. k \<in> set (rk_top p) \<and> map_get (lastInTop p) k = Some t \<and> fsub now t < HOLD_MS \<longrightarrow> k \<in> set (rk_top r))
        \<and> (set fresh \<subseteq> set (rk_top r) \<or> length (rk_top r) = n)
        \<and> (\<forall>k \<in> set (rk_top r). k \<in> set fresh \<or> k \<in> set (rk_top p) \<and> (\<exists>t. map_get (lastInTop p) k = Some t \<and> fsub now t < HOLD_MS)))"
proof -
  let ?now = "ts (last ticks)"
  have ok: "distinct (rk_top p)" "length (rk_top p) \<le> n" "map_ok (lastInTop p)" using assms(1) by (auto simp: rank_ok_def)
  have hold: "map_get (held ?now (lastInTop p)) k = Some t \<longleftrightarrow> map_get (lastInTop p) k = Some t \<and> fsub ?now t < HOLD_MS" for k t
    using map_get_filter [OF ok(3)] by (auto simp: held_def split: option.splits)
  show ?thesis
  proof (cases "rankedAt p \<le> ?now \<and> fsub ?now (rankedAt p) < RANK_EVERY_MS")
    case True
    then show ?thesis using assms by (simp add: rank_def)
  next
    case False
    then have r: "rank ticks by' w (Some p) n = rank_new by' w n ?now (windowSums ticks by') (held ?now (lastInTop p)) (rk_top p)"
      using assms(2-4) by (auto simp: rank_def Let_def)
    note N = rank_new_props [OF map_ok_windowSums [of ticks by'] map_ok_held [OF ok(3), of ?now] ok(1,2), of by' w ?now]
    show ?thesis unfolding Let_def r using False N(1,2,3,4) hold by blast
  qed
qed

section \<open>Bands\<close>

record Band =
  bd_key :: string
  bd_label :: string
  bd_slot :: "nat option"
  bd_tx :: "point list"
  bd_rx :: "point list"

record LiveThroughput =
  lt_bands :: "Band list"
  totalTx :: "point list"
  totalRx :: "point list"
  lt_instance :: "(string, string) jsmap"

text \<open>The arrays of the loop; \<open>b_tx\<close> and \<open>b_rx\<close> hold one array per shown key.\<close>

record bands_acc =
  b_tx :: "point list list"
  b_rx :: "point list list"
  b_otherTx :: "point list"
  b_otherRx :: "point list"
  b_totalTx :: "point list"
  b_totalRx :: "point list"
  b_perId :: "(string, num \<times> string) jsmap"
  b_labels :: "(string, string) jsmap"

definition neg_or_0 :: "num \<Rightarrow> num" where
  "neg_or_0 v = (if v \<noteq> 0 then - v else 0)"

definition key_index :: "string list \<Rightarrow> string \<Rightarrow> nat option" where
  "key_index top' = map_get (fold (\<lambda>(k, i). map_set k i) (zip top' [0..<length top']) [])"

record tick_sums =
  sumTx :: "num list"
  sumRx :: "num list"
  topTx :: num
  topRx :: num
  ts_perId :: "(string, num \<times> string) jsmap"
  ts_labels :: "(string, string) jsmap"

definition bands_proc :: "GroupBy \<Rightarrow> (string \<Rightarrow> nat option) \<Rightarrow> CompactProc \<Rightarrow> tick_sums \<Rightarrow> tick_sums" where
  "bands_proc by' index p s = (let k = group_key by' p in case index k of
       None \<Rightarrow> s
     | Some i \<Rightarrow> s\<lparr> sumTx := (sumTx s)[i := fadd (sumTx s ! i) (cp_tx p)], sumRx := (sumRx s)[i := fadd (sumRx s ! i) (cp_rx p)],
         topTx := fadd (topTx s) (cp_tx p), topRx := fadd (topRx s) (cp_rx p),
         ts_perId := (case map_get (ts_perId s) (cp_id p) of
             Some (sm, key) \<Rightarrow> map_set (cp_id p) (fadd sm (fadd (cp_tx p) (cp_rx p)), key) (ts_perId s)
           | None \<Rightarrow> map_set (cp_id p) (fadd (cp_tx p) (cp_rx p), k) (ts_perId s)),
         ts_labels := (if map_get (ts_labels s) k = None
           then map_set k (case by' of GName \<Rightarrow> cp_name p | GId \<Rightarrow> cp_name p @ '' ('' @ pidOf (cp_id p) @ '')'') (ts_labels s)
           else ts_labels s) \<rparr>)"

definition break_points :: "num \<Rightarrow> bands_acc \<Rightarrow> bands_acc" where
  "break_points t a = (let b = [(fsub t 1, None)] in a\<lparr> b_tx := map (\<lambda>s. s @ b) (b_tx a), b_rx := map (\<lambda>s. s @ b) (b_rx a),
     b_otherTx := b_otherTx a @ b, b_otherRx := b_otherRx a @ b, b_totalTx := b_totalTx a @ b, b_totalRx := b_totalRx a @ b \<rparr>)"

definition bands_tick :: "GroupBy \<Rightarrow> string list \<Rightarrow> CompactTick \<Rightarrow> bands_acc \<Rightarrow> bands_acc" where
  "bands_tick by' top' t a0 =
     (let a = (if gap t \<and> b_totalTx a0 \<noteq> [] then break_points (ts t) a0 else a0);
          z = replicate (length top') 0;
          s = fold (bands_proc by' (key_index top')) (procs t)
                \<lparr> sumTx = z, sumRx = z, topTx = 0, topRx = 0, ts_perId = b_perId a, ts_labels = b_labels a \<rparr>
      in \<lparr> b_tx = map2 (\<lambda>xs v. xs @ [(ts t, Some v)]) (b_tx a) (sumTx s),
           b_rx = map2 (\<lambda>xs v. xs @ [(ts t, Some (neg_or_0 v))]) (b_rx a) (sumRx s),
           b_otherTx = b_otherTx a @ [(ts t, Some (max 0 (fsub (txKbps t) (topTx s))))],
           b_otherRx = b_otherRx a @ [(ts t, Some (neg_or_0 (max 0 (fsub (rxKbps t) (topRx s)))))],
           b_totalTx = b_totalTx a @ [(ts t, Some (txKbps t))],
           b_totalRx = b_totalRx a @ [(ts t, Some (neg_or_0 (rxKbps t)))],
           b_perId = ts_perId s, b_labels = ts_labels s \<rparr>)"

definition best_step :: "string \<times> num \<times> string \<Rightarrow> (string, string) jsmap \<times> (string, num) jsmap \<Rightarrow> (string, string) jsmap \<times> (string, num) jsmap" where
  "best_step e st = (case (e, st) of ((i, sm, key), (inst, best)) \<Rightarrow>
     if sm > (case map_get best key of Some v \<Rightarrow> v | None \<Rightarrow> -1) then (map_set key i inst, map_set key sm best) else (inst, best))"

definition buildLiveThroughput :: "CompactTick list \<Rightarrow> GroupBy \<Rightarrow> string list \<Rightarrow> (string \<Rightarrow> nat option) \<Rightarrow> LiveThroughput" where
  "buildLiveThroughput ticks by' top' slotOf =
     (let e = map (\<lambda>_. []) top';
          a = fold (bands_tick by' top') ticks
                \<lparr> b_tx = e, b_rx = e, b_otherTx = [], b_otherRx = [], b_totalTx = [], b_totalRx = [], b_perId = [], b_labels = [] \<rparr>;
          inst = fst (fold best_step (b_perId a) ([], []));
          label = (\<lambda>k. case map_get (b_labels a) k of Some l \<Rightarrow> l | None \<Rightarrow>
             (case by' of GName \<Rightarrow> k | GId \<Rightarrow> k @ '' ('' @ pidOf k @ '')''))
      in \<lparr> lt_bands = map (\<lambda>(k, x, y). \<lparr> bd_key = k, bd_label = label k, bd_slot = slotOf k, bd_tx = x, bd_rx = y \<rparr>)
               (zip top' (zip (b_tx a) (b_rx a)))
             @ [\<lparr> bd_key = OTHER_KEY, bd_label = ''other'', bd_slot = None, bd_tx = b_otherTx a, bd_rx = b_otherRx a \<rparr>],
           totalTx = b_totalTx a, totalRx = b_totalRx a, lt_instance = inst \<rparr>)"

section \<open>Bands are the sums of their processes\<close>

text \<open>A series by what it shows at each tick: a break before every gap but at the start.\<close>

fun points_of :: "bool \<Rightarrow> (CompactTick \<Rightarrow> num) \<Rightarrow> CompactTick list \<Rightarrow> point list" where
  "points_of first v [] = []"
| "points_of first v (t # ticks) = (if gap t \<and> \<not> first then [(fsub (ts t) 1, None)] else []) @ (ts t, Some (v t)) # points_of False v ticks"

definition key_sum :: "(CompactProc \<Rightarrow> num) \<Rightarrow> (CompactProc \<Rightarrow> bool) \<Rightarrow> CompactTick \<Rightarrow> num" where
  "key_sum f Q t = foldl fadd 0 (map f (filter Q (procs t)))"

lemma points_of_snoc:
  "points_of first v (ticks @ [t]) = points_of first v ticks
     @ (if gap t \<and> (ticks \<noteq> [] \<or> \<not> first) then [(fsub (ts t) 1, None)] else []) @ [(ts t, Some (v t))]"
  by (induction first v ticks rule: points_of.induct) auto

lemma points_of_eq_Nil [simp]: "points_of first v ticks = [] \<longleftrightarrow> ticks = []"
  by (cases ticks) auto

lemma get_fold_pairs:
  "distinct (map fst kvs) \<Longrightarrow> map_get (fold (\<lambda>(k, i). map_set k i) kvs m) k = (case map_of kvs k of Some v \<Rightarrow> Some v | None \<Rightarrow> map_get m k)"
proof (induction kvs arbitrary: m)
  case (Cons kv kvs)
  obtain a b where kv: "kv = (a, b)" by fastforce
  have "map_of kvs a = None" using Cons.prems by (simp add: kv map_of_eq_None_iff)
  then show ?case using Cons by (cases "k = a") (simp_all add: kv alm.get_put split: option.split)
qed simp

lemma key_index_iff:
  assumes "distinct top'"
  shows "key_index top' k = Some i \<longleftrightarrow> i < length top' \<and> top' ! i = k"
proof -
  have d: "distinct (map fst (zip top' [0..<length top']))" using assms by simp
  have "key_index top' k = map_of (zip top' [0..<length top']) k"
    using get_fold_pairs [OF d, of "[]" k]
    by (cases "map_of (zip top' [0..<length top']) k") (simp_all only: key_index_def option.case map_get_def map_of.simps)
  then show ?thesis using map_of_eq_Some_iff [OF d] by (auto simp: in_set_zip)
qed

lemma bands_procs:
  fixes by' :: GroupBy and ps :: "CompactProc list"
  assumes "distinct top'" and "length (sumTx s) = length top'" "length (sumRx s) = length top'"
  defines "r \<equiv> fold (bands_proc by' (key_index top')) ps s"
  shows "length (sumTx r) = length top' \<and> length (sumRx r) = length top'
    \<and> (\<forall>i < length top'. sumTx r ! i = foldl fadd (sumTx s ! i) (map cp_tx (filter (\<lambda>p. group_key by' p = top' ! i) ps))
        \<and> sumRx r ! i = foldl fadd (sumRx s ! i) (map cp_rx (filter (\<lambda>p. group_key by' p = top' ! i) ps)))
    \<and> topTx r = foldl fadd (topTx s) (map cp_tx (filter (\<lambda>p. group_key by' p \<in> set top') ps))
    \<and> topRx r = foldl fadd (topRx s) (map cp_rx (filter (\<lambda>p. group_key by' p \<in> set top') ps))"
  using assms(2,3) unfolding r_def
proof (induction ps arbitrary: s)
  case (Cons p ps)
  let ?s = "bands_proc by' (key_index top') p s"
  show ?case
  proof (cases "key_index top' (group_key by' p)")
    case None
    then have no: "group_key by' p \<notin> set top'" using key_index_iff [OF assms(1)] by (metis in_set_conv_nth option.distinct(1))
    then have "group_key by' p \<noteq> top' ! i" if "i < length top'" for i using nth_mem [OF that] by auto
    then show ?thesis using Cons no None by (simp add: bands_proc_def)
  next
    case (Some j)
    then have j: "j < length top'" "top' ! j = group_key by' p" using key_index_iff [OF assms(1)] by auto
    then have mem: "group_key by' p \<in> set top'" by (metis nth_mem)
    have eq: "group_key by' p = top' ! i \<longleftrightarrow> i = j" if "i < length top'" for i
      using j that nth_eq_iff_index_eq [OF assms(1)] by metis
    have len: "length (sumTx ?s) = length top'" "length (sumRx ?s) = length top'"
      using Some Cons.prems by (simp_all add: bands_proc_def Let_def)
    show ?thesis using Cons.IH [OF len] Some mem eq j Cons.prems by (simp add: bands_proc_def Let_def nth_list_update)
  qed
qed simp

text \<open>
  The stacks of the live chart: with distinct shown keys, the band of a key shows at each tick the
  sum of that key's processes, received rates negated; the last band shows what the tick's total
  has beyond all shown keys, never below zero; all series have the same times, with a break before
  every tick that follows a gap.
\<close>

definition live_bands_spec :: "CompactTick list \<Rightarrow> GroupBy \<Rightarrow> string list \<Rightarrow> bands_acc \<Rightarrow> bool" where
  "live_bands_spec ticks by' top' a \<longleftrightarrow>
     b_tx a = map (\<lambda>k. points_of True (key_sum cp_tx (\<lambda>p. group_key by' p = k)) ticks) top'
     \<and> b_rx a = map (\<lambda>k. points_of True (\<lambda>t. neg_or_0 (key_sum cp_rx (\<lambda>p. group_key by' p = k) t)) ticks) top'
     \<and> b_otherTx a = points_of True (\<lambda>t. max 0 (fsub (txKbps t) (key_sum cp_tx (\<lambda>p. group_key by' p \<in> set top') t))) ticks
     \<and> b_otherRx a = points_of True (\<lambda>t. neg_or_0 (max 0 (fsub (rxKbps t) (key_sum cp_rx (\<lambda>p. group_key by' p \<in> set top') t)))) ticks
     \<and> b_totalTx a = points_of True txKbps ticks \<and> b_totalRx a = points_of True (\<lambda>t. neg_or_0 (rxKbps t)) ticks"

lemma bands_tick_spec:
  assumes "distinct top'" and "live_bands_spec ticks by' top' a"
  shows "live_bands_spec (ticks @ [t]) by' top' (bands_tick by' top' t a)"
proof -
  define brk where "brk \<longleftrightarrow> gap t \<and> b_totalTx a \<noteq> []"
  have tot: "b_totalTx a \<noteq> [] \<longleftrightarrow> ticks \<noteq> []" using assms(2) by (simp add: live_bands_spec_def)
  define z where "z = \<lparr> sumTx = replicate (length top') 0, sumRx = replicate (length top') 0, topTx = 0, topRx = 0, ts_perId = b_perId a, ts_labels = b_labels a \<rparr>"
  have z: "length (sumTx z) = length top'" "length (sumRx z) = length top'" by (simp_all add: z_def)
  define r where "r = fold (bands_proc by' (key_index top')) (procs t) z"
  note P = bands_procs [OF assms(1) z, of by' "procs t", folded r_def]
  have sums: "sumTx r = map (\<lambda>k. key_sum cp_tx (\<lambda>p. group_key by' p = k) t) top'"
    "sumRx r = map (\<lambda>k. key_sum cp_rx (\<lambda>p. group_key by' p = k) t) top'"
    "topTx r = key_sum cp_tx (\<lambda>p. group_key by' p \<in> set top') t" "topRx r = key_sum cp_rx (\<lambda>p. group_key by' p \<in> set top') t"
    using P by (auto simp: key_sum_def z_def intro: nth_equalityI)
  have keep: "b_perId (break_points (ts t) a) = b_perId a" "b_labels (break_points (ts t) a) = b_labels a"
    by (simp_all add: break_points_def Let_def)
  show ?thesis
    using assms(2) sums tot keep unfolding live_bands_spec_def bands_tick_def Let_def
    by (cases "gap t \<and> ticks \<noteq> []")
      (auto simp: points_of_snoc break_points_def Let_def map2_map_map z_def [symmetric] r_def [symmetric] simp del: map_eq_conv)
qed

definition no_bands :: "string list \<Rightarrow> bands_acc" where
  "no_bands top' = (let e = map (\<lambda>_. []) top' in
     \<lparr> b_tx = e, b_rx = e, b_otherTx = [], b_otherRx = [], b_totalTx = [], b_totalRx = [], b_perId = [], b_labels = [] \<rparr>)"

lemma bands_ticks_spec:
  assumes "distinct top'"
  shows "live_bands_spec ticks by' top' (fold (bands_tick by' top') ticks (no_bands top'))"
proof (induction ticks rule: rev_induct)
  case Nil
  show ?case by (simp add: live_bands_spec_def no_bands_def Let_def)
next
  case (snoc t ticks)
  then show ?case using bands_tick_spec [OF assms] by simp
qed

lemma live_bands_keys:
  assumes "distinct top'"
  shows "map (\<lambda>b. (bd_key b, bd_slot b)) (lt_bands (buildLiveThroughput ticks by' top' slotOf))
    = map (\<lambda>k. (k, slotOf k)) top' @ [(OTHER_KEY, None)]"
  using bands_ticks_spec [OF assms, of ticks by']
  unfolding live_bands_spec_def buildLiveThroughput_def no_bands_def Let_def
  by (auto simp: zip_map1 zip_map2 zip_same_conv_map comp_def)

text \<open>
  (C27) The bands of the live chart: one per ranked key, in rank order, then the remainder. At every tick
  a band holds the sum of the rates of the processes of its key, the remainder what the total of the
  tick leaves over all ranked processes (never negative), receive rates point downwards, and a gap
  in the ticks breaks every line.
\<close>

theorem buildLiveThroughput_bands:
  assumes "distinct top'"
  shows "let d = buildLiveThroughput ticks by' top' slotOf in
    map (\<lambda>b. (bd_key b, bd_slot b)) (lt_bands d) = map (\<lambda>k. (k, slotOf k)) top' @ [(OTHER_KEY, None)]
    \<and> map bd_tx (lt_bands d) = map (\<lambda>k. points_of True (key_sum cp_tx (\<lambda>p. group_key by' p = k)) ticks) top'
        @ [points_of True (\<lambda>t. max 0 (fsub (txKbps t) (key_sum cp_tx (\<lambda>p. group_key by' p \<in> set top') t))) ticks]
    \<and> map bd_rx (lt_bands d) = map (\<lambda>k. points_of True (\<lambda>t. neg_or_0 (key_sum cp_rx (\<lambda>p. group_key by' p = k) t)) ticks) top'
        @ [points_of True (\<lambda>t. neg_or_0 (max 0 (fsub (rxKbps t) (key_sum cp_rx (\<lambda>p. group_key by' p \<in> set top') t)))) ticks]
    \<and> totalTx d = points_of True txKbps ticks \<and> totalRx d = points_of True (\<lambda>t. neg_or_0 (rxKbps t)) ticks"
  using bands_ticks_spec [OF assms, of ticks by'] live_bands_keys [OF assms, of ticks by' slotOf]
  unfolding live_bands_spec_def buildLiveThroughput_def no_bands_def Let_def
  by (auto simp: zip_map1 zip_map2 zip_same_conv_map comp_def)

section \<open>The band under the pointer\<close>

function search_point :: "point list \<Rightarrow> num \<Rightarrow> nat \<Rightarrow> nat \<Rightarrow> nat" where
  "search_point pts t lo hi = (if lo < hi then
     let mid = (lo + hi) div 2 in if fst (pts ! mid) < t then search_point pts t (mid + 1) hi else search_point pts t lo mid
   else lo)"
  by pat_completeness auto
termination by (relation "measure (\<lambda>(pts, t, lo, hi). hi - lo)") auto

definition nearest_point :: "point list \<Rightarrow> num \<Rightarrow> nat" where
  "nearest_point pts t = (let lo = search_point pts t 0 (length pts - 1)
     in if lo > 0 \<and> fsub t (fst (pts ! (lo - 1))) < fsub (fst (pts ! lo)) t then lo - 1 else lo)"

fun pick_band :: "string set \<Rightarrow> (Band \<Rightarrow> point list) \<Rightarrow> nat \<Rightarrow> num \<Rightarrow> num \<Rightarrow> Band list \<Rightarrow> Band option" where
  "pick_band hidden dir i want acc [] = None"
| "pick_band hidden dir i want acc (b # bs) =
     (if bd_label b \<in> hidden then pick_band hidden dir i want acc bs
      else case snd (dir b ! i) of
          None \<Rightarrow> None
        | Some v \<Rightarrow> let acc' = fadd acc \<bar>v\<bar> in
            if want \<le> acc' \<and> v \<noteq> 0 then Some b else pick_band hidden dir i want acc' bs)"

definition bandAt :: "LiveThroughput \<Rightarrow> num \<Rightarrow> num \<Rightarrow> string set \<Rightarrow> Band option" where
  "bandAt d t v hidden = (if totalTx d = [] then None
     else pick_band hidden (if v \<ge> 0 then bd_tx else bd_rx) (nearest_point (totalTx d) t) \<bar>v\<bar> 0 (lt_bands d))"

declare search_point.simps [simp del]

lemma search_point_props:
  assumes "lo \<le> hi" "hi < length pts" and "sorted_wrt (\<le>) (map fst pts)"
    and "\<forall>j < lo. fst (pts ! j) < t" and "hi = length pts - 1 \<or> t \<le> fst (pts ! hi)"
  shows "search_point pts t lo hi \<le> hi \<and> (\<forall>j < search_point pts t lo hi. fst (pts ! j) < t)
    \<and> (search_point pts t lo hi = length pts - 1 \<or> t \<le> fst (pts ! search_point pts t lo hi))"
  using assms
proof (induction pts t lo hi rule: search_point.induct)
  case (1 pts t lo hi)
  show ?case
  proof (cases "lo < hi")
    case True
    let ?mid = "(lo + hi) div 2"
    have mid: "lo \<le> ?mid" "?mid < hi" using True by auto
    have mono: "fst (pts ! i) \<le> fst (pts ! j)" if "i \<le> j" "j < length pts" for i j
      using 1(5) that by (cases "i = j") (auto simp: sorted_wrt_iff_nth_less)
    show ?thesis
    proof (cases "fst (pts ! ?mid) < t")
      case less: True
      have "fst (pts ! j) < t" if "j < ?mid + 1" for j
        using le_less_trans [OF mono [of j ?mid] less] that mid 1(4) by simp
      then show ?thesis using 1(1) [OF True refl less] 1(4,5,7) mid less True search_point.simps [of pts t lo hi] by (simp add: Let_def)
    next
      case False
      then show ?thesis using 1(2) [OF True refl False] 1(4,5,6) mid True search_point.simps [of pts t lo hi] by (auto simp: Let_def not_less)
    qed
  next
    case False
    then show ?thesis using 1(3,6,7) search_point.simps [of pts t lo hi] by auto
  qed
qed

text \<open>The point the pointer is taken to be at: among points in time order, none is nearer, up to rounding.\<close>

theorem nearest_point_nearest:
  assumes "sorted_wrt (\<le>) (map fst pts)" and "j < length pts"
  shows "nearest_point pts t < length pts \<and> fl \<bar>fst (pts ! nearest_point pts t) - t\<bar> \<le> fl \<bar>fst (pts ! j) - t\<bar>"
proof -
  define r where "r = search_point pts t 0 (length pts - 1)"
  have r: "r \<le> length pts - 1" "\<And>j. j < r \<Longrightarrow> fst (pts ! j) < t" "r = length pts - 1 \<or> t \<le> fst (pts ! r)"
    using search_point_props [of 0 "length pts - 1" pts t] assms by (auto simp: r_def)
  have mono: "fst (pts ! i) \<le> fst (pts ! k)" if "i \<le> k" "k < length pts" for i k
    using assms(1) that by (cases "i = k") (auto simp: sorted_wrt_iff_nth_less)
  have n: "nearest_point pts t = (if r > 0 \<and> fsub t (fst (pts ! (r - 1))) < fsub (fst (pts ! r)) t then r - 1 else r)"
    by (simp add: nearest_point_def r_def Let_def)
  have before: "fl \<bar>fst (pts ! (r - 1)) - t\<bar> \<le> fl \<bar>fst (pts ! j) - t\<bar>" if "j < r"
    using mono [of j "r - 1"] r(1) r(2) [of "r - 1"] r(2) [OF that] that assms(2) by (intro fl_mono) auto
  have after: "fl \<bar>fst (pts ! r) - t\<bar> \<le> fl \<bar>fst (pts ! j) - t\<bar>" if "\<not> j < r" "t \<le> fst (pts ! r)"
    using mono [of r j] that assms(2) by (intro fl_mono) auto
  have dist: "fsub t (fst (pts ! (r - 1))) = fl \<bar>fst (pts ! (r - 1)) - t\<bar>" if "r > 0" using r(2) [of "r - 1"] that by (simp add: fsub_def)
  show ?thesis
  proof (cases "t \<le> fst (pts ! r)")
    case True
    then have "fsub (fst (pts ! r)) t = fl \<bar>fst (pts ! r) - t\<bar>" by (simp add: fsub_def)
    moreover have "r < length pts" "r - 1 < length pts" using r(1) assms(2) by linarith+
    ultimately show ?thesis using n dist before after [OF _ True] by (cases "j < r") (auto simp: not_less)
  next
    case False
    then have last: "r = length pts - 1" using r(3) by simp
    have "fsub (fst (pts ! r)) t \<le> 0" using False fl_mono [of "fst (pts ! r) - t" 0] by (simp add: fsub_def)
    moreover have "0 \<le> fsub t (fst (pts ! (r - 1)))" if "r > 0" using dist [OF that] fl_nonneg by simp
    ultimately have "nearest_point pts t = r" using n by force
    moreover have "fl \<bar>fst (pts ! r) - t\<bar> \<le> fl \<bar>fst (pts ! j) - t\<bar>"
    proof (rule fl_mono)
      have "fst (pts ! j) \<le> fst (pts ! r)" using last assms(2) by (intro mono) linarith+
      then show "\<bar>fst (pts ! r) - t\<bar> \<le> \<bar>fst (pts ! j) - t\<bar>" using False by simp
    qed
    ultimately show ?thesis using last assms(2) by simp
  qed
qed

section \<open>The window\<close>

definition nth_opt :: "'a list \<Rightarrow> nat \<Rightarrow> 'a option" where
  "nth_opt xs i = (if i < length xs then Some (xs ! i) else None)"

definition windowTicks :: "CompactTick list \<Rightarrow> num \<Rightarrow> num \<Rightarrow> CompactTick list option \<Rightarrow> CompactTick list" where
  "windowTicks ticks en seconds prev =
     (let hi = scan_back ts en ticks (length ticks);
          lo = scan_back ts (fsub en (fmul seconds 1000)) ticks hi
      in case prev of
           Some p \<Rightarrow> if length p = hi - lo \<and> nth_opt p 0 = nth_opt ticks lo
               \<and> (if p = [] then None else Some (last p)) = (if hi = 0 then None else nth_opt ticks (hi - 1))
             then p else drop lo (take hi ticks)
         | None \<Rightarrow> drop lo (take hi ticks))"

lemma increasing_distinct: "increasing xs \<Longrightarrow> distinct xs"
  by (induction xs) (auto simp: increasing_def)

text \<open>
  The window of a chart: for ticks in time order it holds exactly those after \<open>end\<close> minus the
  window and not after \<open>end\<close>; handing back the previous window never changes that, when it was a
  part of the same buffer.
\<close>

theorem windowTicks_filter:
  assumes "increasing ticks" and "\<forall>p. prev = Some p \<longrightarrow> (\<exists>a n. p = take n (drop a ticks))"
  shows "windowTicks ticks en seconds prev = filter (\<lambda>t. fsub en (fmul seconds 1000) < ts t \<and> ts t \<le> en) ticks"
proof -
  define hi where "hi = scan_back ts en ticks (length ticks)"
  define lo where "lo = scan_back ts (fsub en (fmul seconds 1000)) ticks hi"
  have hi: "hi \<le> length ticks" and lo: "lo \<le> hi" by (simp_all add: hi_def lo_def scan_back_le)
  have "drop hi ticks = filter (\<lambda>t. en < ts t) ticks"
    using scan_back_filter [of ts "length ticks" ticks en] assms(1) by (simp add: hi_def increasing_def)
  then have late: "\<forall>t \<in> set (drop hi ticks). \<not> ts t \<le> en" by auto
  have "filter (\<lambda>t. en < ts t) (take hi ticks) @ filter (\<lambda>t. en < ts t) (drop hi ticks) = drop hi ticks"
    unfolding filter_append [symmetric] append_take_drop_id by (rule \<open>drop hi ticks = _\<close> [symmetric])
  moreover have "filter (\<lambda>t. en < ts t) (drop hi ticks) = drop hi ticks" using late by (intro filter_True) auto
  ultimately have early: "\<forall>t \<in> set (take hi ticks). ts t \<le> en" by (auto simp: filter_empty_conv not_less)
  have inc: "sorted_wrt (<) (map ts (take hi ticks))"
    using assms(1) by (metis append_take_drop_id increasing_append increasing_def)
  have "drop lo (take hi ticks) = filter (\<lambda>t. fsub en (fmul seconds 1000) < ts t) (take hi ticks)"
    unfolding lo_def by (rule scan_back_filter [OF inc hi])
  also have "\<dots> = filter (\<lambda>t. fsub en (fmul seconds 1000) < ts t \<and> ts t \<le> en) (take hi ticks)"
    using early by (intro filter_cong) auto
  also have "\<dots> = filter (\<lambda>t. fsub en (fmul seconds 1000) < ts t \<and> ts t \<le> en) (take hi ticks @ drop hi ticks)"
    using late unfolding filter_append by (simp add: filter_empty_conv)
  finally have slice: "drop lo (take hi ticks) = filter (\<lambda>t. fsub en (fmul seconds 1000) < ts t \<and> ts t \<le> en) ticks" by simp
  have same: "p = drop lo (take hi ticks)" if "prev = Some p" "length p = hi - lo" "nth_opt p 0 = nth_opt ticks lo" for p
  proof -
    obtain a n where p: "p = take n (drop a ticks)" using assms(2) \<open>prev = Some p\<close> by blast
    show ?thesis
    proof (cases "lo = hi")
      case True
      then show ?thesis using \<open>length p = hi - lo\<close> by simp
    next
      case False
      then have pos: "0 < length p" "lo < length ticks" using \<open>length p = hi - lo\<close> lo hi by auto
      then have a: "a < length ticks" "ticks ! a = ticks ! lo" using \<open>nth_opt p 0 = _\<close> by (auto simp: nth_opt_def p)
      moreover have "distinct ticks" using assms(1) increasing_distinct by blast
      ultimately have "a = lo" using pos by (simp add: nth_eq_iff_index_eq)
      then show ?thesis using \<open>length p = hi - lo\<close> lo hi by (simp add: p take_drop min_def split: if_splits)
    qed
  qed
  have "windowTicks ticks en seconds prev = drop lo (take hi ticks)"
  proof (cases prev)
    case (Some p)
    have if_same: "(if C then a else b) = b" if "C \<Longrightarrow> a = b" for C and a b :: "CompactTick list" using that by simp
    show ?thesis unfolding windowTicks_def Let_def hi_def [symmetric] lo_def [symmetric] Some option.case
      by (rule if_same) (use same [OF Some] in blast)
  qed (simp add: windowTicks_def Let_def hi_def lo_def)
  then show ?thesis by (simp only: slice)
qed

section \<open>The chart over time\<close>

text \<open>
  The hook, with what its references hold between two renders: the last ranking, the keys it has
  asked slots for and their grouping, and the page's slots.
\<close>

record chart_state =
  cs_rank :: "RankState option"
  cs_by :: GroupBy
  cs_keys :: "string list"
  cs_slots :: SlotAssigner

definition useLiveThroughput :: "CompactTick list \<Rightarrow> GroupBy \<Rightarrow> num \<Rightarrow> int \<Rightarrow> chart_state \<Rightarrow> (LiveThroughput \<times> num) \<times> chart_state" where
  "useLiveThroughput ticks by' windowS now st =
     (let r = rank ticks by' windowS (cs_rank st) TOP_N;
          (slots, keys) = (if cs_by st \<noteq> rk_by r then (SlotAssigner_release (cs_keys st) (cs_slots st), []) else (cs_slots st, cs_keys st));
          (slot, slots') = SlotAssigner_assign (rk_top r) now slots
      in ((buildLiveThroughput ticks by' (rk_top r) (\<lambda>k. case map_get slot k of Some s \<Rightarrow> s | None \<Rightarrow> None), rankedAt r),
          \<lparr> cs_rank = Some r, cs_by = rk_by r, cs_keys = new_Set (keys @ rk_top r), cs_slots = slots' \<rparr>))"

definition chart_ok :: "chart_state \<Rightarrow> bool" where
  "chart_ok st \<longleftrightarrow> slots_ok (cs_slots st) \<and> (case cs_rank st of None \<Rightarrow> True | Some r \<Rightarrow> rank_ok TOP_N r)"

lemma slots_ok_release: "slots_ok m \<Longrightarrow> slots_ok (SlotAssigner_release ks m)"
proof -
  have "slots_ok m \<Longrightarrow> slots_ok (map_delete k m)" for k m
    unfolding map_delete_def AList.delete_eq by (rule slots_ok_filter)
  then show "slots_ok m \<Longrightarrow> slots_ok (SlotAssigner_release ks m)"
    unfolding SlotAssigner_release_def by (induction ks arbitrary: m) simp_all
qed

lemma rank_rank_ok:
  assumes "\<forall>p. prev = Some p \<longrightarrow> rank_ok n p"
  shows "rank_ok n (rank ticks by' w prev n)"
proof -
  have new: "rank_ok n (rank_new by' w n now (windowSums ticks by') hold top')"
    if "map_ok hold" "distinct top'" "length top' \<le> n" for now hold top'
    using rank_new_props(1) [OF map_ok_windowSums that] .
  show ?thesis
  proof (cases prev)
    case None
    then show ?thesis using new [of "[]" "[]"] by (simp add: rank_def Let_def)
  next
    case (Some p)
    then have p: "rank_ok n p" using assms by blast
    then have "map_ok (lastInTop p)" "distinct (rk_top p)" "length (rk_top p) \<le> n" by (simp_all add: rank_ok_def)
    then show ?thesis using p new [of "[]" "[]"] new [OF map_ok_held] by (simp add: rank_def Let_def Some)
  qed
qed

text \<open>
  (C28) Colors of the live chart: after every render the page's slots are still unshared and the ranking
  still bounded; the chart has at most eight bands and the remainder, with different keys, and no
  two bands have the same hue.
\<close>

theorem live_chart_colors:
  assumes "chart_ok st" and "useLiveThroughput ticks by' w now st = ((d, at'), st')"
  shows "chart_ok st' \<and> length (lt_bands d) \<le> TOP_N + 1 \<and> distinct (map bd_key (butlast (lt_bands d)))
    \<and> (\<forall>a \<in> set (lt_bands d). \<forall>b \<in> set (lt_bands d). \<forall>i. bd_slot a = Some i \<and> bd_slot b = Some i \<longrightarrow> bd_key a = bd_key b)"
proof -
  define r where "r = rank ticks by' w (cs_rank st) TOP_N"
  have r: "rank_ok TOP_N r"
    unfolding r_def using assms(1) by (intro rank_rank_ok) (auto simp: chart_ok_def)
  define slots where "slots = (if cs_by st \<noteq> rk_by r then SlotAssigner_release (cs_keys st) (cs_slots st) else cs_slots st)"
  have "slots_ok slots" using assms(1) by (simp add: slots_def chart_ok_def slots_ok_release)
  obtain slot slots' where as: "SlotAssigner_assign (rk_top r) now slots = (slot, slots')" by fastforce
  note S = SlotAssigner_stable [OF \<open>slots_ok slots\<close> as]
  let ?slotOf = "\<lambda>k. case map_get slot k of Some s \<Rightarrow> s | None \<Rightarrow> None"
  have d: "d = buildLiveThroughput ticks by' (rk_top r) ?slotOf" and st': "cs_rank st' = Some r" "cs_slots st' = slots'"
    using assms(2) as unfolding useLiveThroughput_def Let_def r_def [symmetric] slots_def by (auto split: if_splits)
  have "distinct (rk_top r)" using r by (simp add: rank_ok_def)
  from live_bands_keys [OF this, of ticks by' ?slotOf, folded d]
  have bands: "map (\<lambda>b. (bd_key b, bd_slot b)) (lt_bands d) = map (\<lambda>k. (k, ?slotOf k)) (rk_top r) @ [(OTHER_KEY, None)]" .
  have keys: "map bd_key (lt_bands d) = rk_top r @ [OTHER_KEY]" using arg_cong [OF bands, of "map fst"] by (simp add: comp_def)
  have len: "length (lt_bands d) = length (rk_top r) + 1" using arg_cong [OF keys, of length] by simp
  have "map bd_key (butlast (lt_bands d)) = rk_top r" using arg_cong [OF keys, of butlast] by (simp add: map_butlast)
  moreover have slot: "bd_key a \<in> set (rk_top r) \<and> SlotAssigner_slot (bd_key a) slots' = Some i" if "a \<in> set (lt_bands d)" "bd_slot a = Some i" for a i
  proof -
    have "(bd_key a, bd_slot a) \<in> set (map (\<lambda>b. (bd_key b, bd_slot b)) (lt_bands d))" using \<open>a \<in> set (lt_bands d)\<close> by auto
    then have "bd_key a \<in> set (rk_top r)" "?slotOf (bd_key a) = Some i" using \<open>bd_slot a = Some i\<close> unfolding bands by auto
    then show ?thesis using S by simp
  qed
  ultimately show ?thesis
    using S r st' len slot \<open>distinct (rk_top r)\<close> by (auto simp: chart_ok_def rank_ok_def)
qed

section \<open>Examples\<close>

definition proc_of :: "string \<Rightarrow> num \<Rightarrow> CompactProc" where
  "proc_of n v = \<lparr> cp_id = n @ '':1'', cp_name = n, cp_tx = v, cp_rx = 0 \<rparr>"

definition early_rank :: RankState where
  "early_rank = \<lparr> rk_by = GName, rk_windowS = 60, rankedAt = 0, rk_top = [''a''], lastInTop = [(''a'', 0)] \<rparr>"

theorem rank_holds_still_witness:
  "''a'' \<in> set (rk_top (rank [sample_tick 6000 [proc_of ''b'' 4]] GName 60 (Some early_rank) 1))
   \<and> rk_top (rank [sample_tick 16000 [proc_of ''b'' 4]] GName 60 (Some early_rank) 1) = [''b'']"
proof -
  let ?ticks = "[sample_tick 6000 [proc_of ''b'' 4]]"
  have "rank_ok 1 early_rank" "rk_by early_rank = GName" "rk_windowS early_rank = 60"
    by (simp_all add: rank_ok_def early_rank_def map_ok_def)
  moreover have "\<not> (rankedAt early_rank \<le> ts (last ?ticks) \<and> fsub (ts (last ?ticks)) (rankedAt early_rank) < RANK_EVERY_MS)"
    "fsub (ts (last ?ticks)) 0 < HOLD_MS" by code_simp+
  moreover have "''a'' \<in> set (rk_top early_rank)" "map_get (lastInTop early_rank) ''a'' = Some 0" by (simp_all add: early_rank_def map_get_def)
  ultimately have "''a'' \<in> set (rk_top (rank ?ticks GName 60 (Some early_rank) 1))"
    using rank_holds_still [of 1 early_rank GName 60 ?ticks] unfolding Let_def by blast
  moreover have "rk_top (rank [sample_tick 16000 [proc_of ''b'' 4]] GName 60 (Some early_rank) 1) = [''b'']" by code_simp
  ultimately show ?thesis by blast
qed

theorem buildLiveThroughput_bands_witness:
  "let d = buildLiveThroughput [sample_tick 1000 [proc_of ''a'' 4, proc_of ''b'' 1, proc_of ''a'' 2]] GName [''a''] (\<lambda>_. None)
   in map bd_key (lt_bands d) = [''a'', OTHER_KEY] \<and> bd_tx (hd (lt_bands d)) = [(1000, Some 6)]"
proof -
  let ?t = "sample_tick 1000 [proc_of ''a'' 4, proc_of ''b'' 1, proc_of ''a'' 2]"
  have d: "distinct [''a'']" by simp
  have "map bd_tx (lt_bands (buildLiveThroughput [?t] GName [''a''] (\<lambda>_. None))) =
      map (\<lambda>k. points_of True (key_sum cp_tx (\<lambda>p. group_key GName p = k)) [?t]) [''a'']
        @ [points_of True (\<lambda>t. max 0 (fsub (txKbps t) (key_sum cp_tx (\<lambda>p. group_key GName p \<in> set [''a'']) t))) [?t]]"
    using buildLiveThroughput_bands [OF d, of "[?t]" GName "\<lambda>_. None"] unfolding Let_def by blast
  moreover have "map (\<lambda>b. (bd_key b, bd_slot b)) (lt_bands (buildLiveThroughput [?t] GName [''a''] (\<lambda>_. None))) = [(''a'', None), (OTHER_KEY, None)]"
    using buildLiveThroughput_bands [OF d, of "[?t]" GName "\<lambda>_. None"] unfolding Let_def by simp
  moreover have "points_of True (key_sum cp_tx (\<lambda>p. group_key GName p = ''a'')) [?t] = [(1000, Some 6)]" by code_simp
  ultimately show ?thesis unfolding Let_def by (auto simp: map_eq_Cons_conv)
qed

definition first_render :: "(LiveThroughput \<times> num) \<times> chart_state" where
  "first_render = useLiveThroughput [sample_tick 1000 [proc_of ''a'' 4, proc_of ''b'' 1]] GName 60 1000
     \<lparr> cs_rank = None, cs_by = GName, cs_keys = [], cs_slots = [] \<rparr>"

theorem live_chart_colors_witness:
  "chart_ok (snd first_render) \<and> map bd_slot (lt_bands (fst (fst first_render))) = [Some 0, Some 1, None]"
proof -
  have "chart_ok \<lparr> cs_rank = None, cs_by = GName, cs_keys = [], cs_slots = [] \<rparr>"
    by (simp add: chart_ok_def slots_ok_def used_slots_def)
  moreover have "useLiveThroughput [sample_tick 1000 [proc_of ''a'' 4, proc_of ''b'' 1]] GName 60 1000
     \<lparr> cs_rank = None, cs_by = GName, cs_keys = [], cs_slots = [] \<rparr> = ((fst (fst first_render), snd (fst first_render)), snd first_render)"
    by (simp add: first_render_def)
  ultimately have "chart_ok (snd first_render)" using live_chart_colors by blast
  moreover have "map bd_slot (lt_bands (fst (fst first_render))) = [Some 0, Some 1, None]" by code_simp
  ultimately show ?thesis by blast
qed

end
