(* ===== verification/ClientMarkers.thy ===== *)
theory ClientMarkers
  imports ClientBase Processes NewDests
begin

text \<open>
  The marker tracks under the history chart: \<^verbatim>\<open>web/src/client/history/clusterMarkers.ts\<close> (process starts and
  ends) and \<^verbatim>\<open>history/newDests.ts\<close> (first contacts), with their clustering of markers that would overlap
  and the counts per day. \<open>Date\<close> is modelled for what \<open>dayStart\<close> and \<open>nextDay\<close> use of it; the time zone of the
  browser (its offsets) and the text of an instant (\<open>fmtTime\<close>) are parameters.
\<close>

section \<open>Clustering\<close>

text \<open>
  The loop both files have: an element joins the current group while it is less than the gap after the
  first element of that group, else it starts the next group.
\<close>

definition cluster_step :: "('e \<Rightarrow> num) \<Rightarrow> num \<Rightarrow> 'e \<Rightarrow> 'e list list \<Rightarrow> 'e list list" where
  "cluster_step tm gp e groups =
     (if groups \<noteq> [] \<and> fsub (tm e) (tm (hd (last groups))) < gp then butlast groups @ [last groups @ [e]] else groups @ [[e]])"

definition cluster_groups :: "('e \<Rightarrow> num) \<Rightarrow> num \<Rightarrow> 'e list \<Rightarrow> 'e list list" where
  "cluster_groups tm gp es = fold (cluster_step tm gp) es []"

text \<open>\<open>Math.round(g.reduce((s, e) => s + e.t, 0) / g.length)\<close>.\<close>

definition mean_time :: "('e \<Rightarrow> num) \<Rightarrow> 'e list \<Rightarrow> int" where
  "mean_time tm g = Math_round (fdiv (fsum (map tm g)) (of_nat (length g)))"

definition one_name :: "('e \<Rightarrow> string) \<Rightarrow> 'e list \<Rightarrow> string option" where
  "one_name nm items = (if list_all (\<lambda>e. nm e = nm (hd items)) items then Some (nm (hd items)) else None)"

section \<open>Process starts and ends\<close>

datatype EventsMode = EvOff | EvStarts | EvAll

definition parseEventsMode :: "string option \<Rightarrow> EventsMode" where
  "parseEventsMode raw = (if raw = Some ''starts'' then EvStarts else if raw = Some ''all'' then EvAll else EvOff)"

datatype EventKind = EvStart | EvEnd

record LifecycleEvent =
  ev_kind :: EventKind
  ev_t :: num
  ev_proc :: LifecycleProc

definition ev_order :: "LifecycleEvent \<Rightarrow> LifecycleEvent \<Rightarrow> bool" where
  "ev_order = by_then (asc_by ev_t) (desc_by (\<lambda>e. lp_bytes (ev_proc e)))"

definition in_range :: "num \<Rightarrow> num \<Rightarrow> num \<Rightarrow> bool" where
  "in_range frm to t \<longleftrightarrow> frm \<le> t \<and> t < to"

definition start_events :: "num \<Rightarrow> num \<Rightarrow> LifecycleProc \<Rightarrow> LifecycleEvent list" where
  "start_events frm to p = (if in_range frm to (lp_firstSeenMs p) then [\<lparr> ev_kind = EvStart, ev_t = lp_firstSeenMs p, ev_proc = p \<rparr>] else [])"

definition end_events :: "num \<Rightarrow> num \<Rightarrow> EventsMode \<Rightarrow> LifecycleProc \<Rightarrow> LifecycleEvent list" where
  "end_events frm to mode p = (case lp_endedMs p of
       Some t \<Rightarrow> if mode = EvAll \<and> in_range frm to t then [\<lparr> ev_kind = EvEnd, ev_t = t, ev_proc = p \<rparr>] else []
     | None \<Rightarrow> [])"

definition lifecycleEvents :: "LifecycleProc list \<Rightarrow> num \<Rightarrow> num \<Rightarrow> EventsMode \<Rightarrow> LifecycleEvent list \<times> LifecycleEvent list" where
  "lifecycleEvents ps frm to mode = (if mode = EvOff then ([], [])
     else (sort_by ev_order (concat (map (start_events frm to) ps)), sort_by ev_order (concat (map (end_events frm to mode) ps))))"

record MarkerCluster =
  mk_kind :: EventKind
  mk_t :: int
  mk_items :: "LifecycleEvent list"
  mk_name :: "string option"

definition CLUSTER_PX :: num where "CLUSTER_PX = 4"

definition marker_of :: "LifecycleEvent list \<Rightarrow> MarkerCluster" where
  "marker_of g = (let items = sort_by (by_then (desc_by (\<lambda>e. lp_bytes (ev_proc e))) (asc_by ev_t)) g
     in \<lparr> mk_kind = ev_kind (hd g), mk_t = mean_time ev_t g, mk_items = items, mk_name = one_name (\<lambda>e. lp_name (ev_proc e)) items \<rparr>)"

definition clusterMarkers :: "LifecycleEvent list \<Rightarrow> num \<Rightarrow> num \<Rightarrow> MarkerCluster list" where
  "clusterMarkers es msPerPx minPx = map marker_of (cluster_groups ev_t (max 0 (fmul msPerPx minPx)) es)"

definition kind_text :: "EventKind \<Rightarrow> string" where
  "kind_text k = (case k of EvStart \<Rightarrow> ''start'' | EvEnd \<Rightarrow> ''end'')"

definition clusterTitle :: "MarkerCluster \<Rightarrow> string" where
  "clusterTitle c = (let n = length (mk_items c) in
     if n = 1 then lp_name (ev_proc (hd (mk_items c))) @ '' '' @ (if mk_kind c = EvStart then ''started talking'' else ''ended'')
     else string_of_nat n @ '' '' @ kind_text (mk_kind c) @ ''s'')"

text \<open>\<open>indexOf\<close> is \<open>-1\<close> without a colon: \<open>slice(0, -1)\<close> drops the last character and \<open>slice(0)\<close> is the whole text.\<close>

definition processPath :: "string \<Rightarrow> string" where
  "processPath i = (case index_of CHR '':'' i of
       Some k \<Rightarrow> ''/process/'' @ take k i @ ''/'' @ drop (k + 1) i
     | None \<Rightarrow> ''/process/'' @ butlast i @ ''/'' @ i)"

section \<open>First contacts\<close>

record NewDestOptions =
  no_ports :: bool
  no_loopback :: bool
  no_warmup :: bool

definition parseNewDestOptions :: "search \<Rightarrow> NewDestOptions" where
  "parseNewDestOptions q = \<lparr> no_ports = (search_get q ''nd_ports'' = Some ''1''), no_loopback = (search_get q ''nd_lo'' = Some ''1''),
     no_warmup = (search_get q ''nd_warmup'' = Some ''1'') \<rparr>"

definition parseNewDestTrack :: "search \<Rightarrow> bool" where
  "parseNewDestTrack q \<longleftrightarrow> search_get q ''newdests'' = Some ''1''"

record NewDestCluster =
  nc_t :: int
  nc_items :: "NewDest list"
  nc_name :: "string option"

definition ND_CLUSTER_PX :: num where "ND_CLUSTER_PX = 6"

abbreviation nd_time :: "NewDest \<Rightarrow> num" where
  "nd_time d \<equiv> of_int (nw_firstMs d)"

definition dest_marker :: "NewDest list \<Rightarrow> NewDestCluster" where
  "dest_marker g = (let items = sort_by (by_then (desc_by nw_firstHourBytes) (asc_by nw_firstMs)) g
     in \<lparr> nc_t = mean_time nd_time g, nc_items = items, nc_name = one_name nw_name items \<rparr>)"

definition clusterNewDests :: "NewDest list \<Rightarrow> num \<Rightarrow> num \<Rightarrow> num \<Rightarrow> num \<Rightarrow> NewDestCluster list" where
  "clusterNewDests dests frm to msPerPx minPx =
     map dest_marker (cluster_groups nd_time (max 0 (fmul msPerPx minPx))
       (sort_by (asc_by nw_firstMs) (filter (\<lambda>d. in_range frm to (nd_time d)) dests)))"

text \<open>Counts per program, the most first; then the name decides, and names are unique.\<close>

definition name_counts :: "NewDest list \<Rightarrow> (string, nat) jsmap" where
  "name_counts dests = accum nw_name (\<lambda>v _. (case v of Some n \<Rightarrow> n | None \<Rightarrow> 0) + 1) dests []"

definition namesByCount :: "NewDest list \<Rightarrow> string list" where
  "namesByCount dests = map fst (sort_by (by_then (desc_by snd) (str_asc fst)) (name_counts dests))"

text \<open>The arrow, outside the 8-bit alphabet of the model, is the character 0x1A.\<close>

definition destTitle :: "NewDestCluster \<Rightarrow> string" where
  "destTitle c = (let n = length (nc_items c) in
     if n = 1 then nw_name (hd (nc_items c)) @ [CHR '' '', CHR 0x1A, CHR '' ''] @ nw_dest (hd (nc_items c))
     else (case nc_name c of Some nm \<Rightarrow> if nm \<noteq> [] then nm @ '': '' @ string_of_nat n @ '' new destinations'' else string_of_nat n @ '' new destinations''
           | None \<Rightarrow> string_of_nat n @ '' new destinations''))"

section \<open>Local days\<close>

text \<open>
  \<open>Date\<close> as ECMAScript defines it, over the time zone of the browser, which is the parameter: \<open>tz_off t\<close> is
  the offset of local time in force at the instant \<open>t\<close>, and \<open>tz_local x\<close> the offset by which the local
  time \<open>x\<close> is read (\<open>LocalTZA\<close> of the standard, for an instant and for a local time). A \<open>Date\<close> is its time
  value, \<open>None\<close> for an invalid one: \<open>TimeClip\<close> gives that beyond 100 million days from the epoch.
\<close>

record zone =
  tz_off :: "int \<Rightarrow> int"
  tz_local :: "int \<Rightarrow> int"

definition DAY_MS :: int where "DAY_MS = 86400000"

definition TimeClip :: "int \<Rightarrow> int option" where
  "TimeClip t = (if \<bar>t\<bar> \<le> 8640000000000000 then Some t else None)"

definition LocalTime :: "zone \<Rightarrow> int \<Rightarrow> int" where
  "LocalTime z t = t + tz_off z t"

definition UTC_time :: "zone \<Rightarrow> int \<Rightarrow> int" where
  "UTC_time z x = x - tz_local z x"

text \<open>\<open>setHours(0, 0, 0, 0)\<close>: the same local day, no time within it.\<close>

definition set_midnight :: "zone \<Rightarrow> int \<Rightarrow> int option" where
  "set_midnight z t = TimeClip (UTC_time z (LocalTime z t div DAY_MS * DAY_MS))"

text \<open>
  \<open>setDate(getDate() + 1)\<close>: the day whose date in the month of the local day is one more, which is the next
  local day (\<open>MakeDay\<close> counts on from the first of the month), at the same time within it.
\<close>

definition set_tomorrow :: "zone \<Rightarrow> int \<Rightarrow> int option" where
  "set_tomorrow z t = (let x = LocalTime z t in TimeClip (UTC_time z ((x div DAY_MS + 1) * DAY_MS + x mod DAY_MS)))"

definition dayStart :: "zone \<Rightarrow> int \<Rightarrow> int option" where
  "dayStart z t = Option.bind (TimeClip t) (set_midnight z)"

definition nextDay :: "zone \<Rightarrow> int \<Rightarrow> int option" where
  "nextDay z day = Option.bind (TimeClip day) (\<lambda>d. Option.bind (set_tomorrow z d) (set_midnight z))"

section \<open>Counts per day\<close>

definition OTHER_NAME :: string where "OTHER_NAME = ''__other''"

record DailyCounts =
  dc_days :: "int list"
  dc_series :: "(string \<times> nat list) list"

text \<open>
  The loop over the days ends only if the calendar moves on, so not ending is a value. An invalid date
  is not less than the end.
\<close>

partial_function (option) days_from :: "zone \<Rightarrow> num \<Rightarrow> int option \<Rightarrow> int list option" where
  "days_from z to d = (case d of
       None \<Rightarrow> Some []
     | Some t \<Rightarrow> if of_int t < to then Option.bind (days_from z to (nextDay z t)) (\<lambda>ds. Some (t # ds)) else Some [])"

definition day_indices :: "int list \<Rightarrow> (int, nat) jsmap" where
  "day_indices days = fold (\<lambda>(d, i). map_set d i) (zip days [0..<length days]) []"

definition day_index :: "zone \<Rightarrow> int list \<Rightarrow> NewDest \<Rightarrow> nat option" where
  "day_index z days d = Option.bind (dayStart z (nw_firstMs d)) (map_get (day_indices days))"

definition count_day :: "zone \<Rightarrow> int list \<Rightarrow> string list \<Rightarrow> NewDest \<Rightarrow> (string, nat list) jsmap \<Rightarrow> (string, nat list) jsmap" where
  "count_day z days kept d rows = (case day_index z days d of
       None \<Rightarrow> rows
     | Some i \<Rightarrow> let k = (if nw_name d \<in> set kept then nw_name d else OTHER_NAME) in
         (case map_get rows k of Some c \<Rightarrow> map_set k (c[i := c ! i + 1]) rows | None \<Rightarrow> rows))"

definition dailyCounts :: "zone \<Rightarrow> NewDest list \<Rightarrow> int \<Rightarrow> num \<Rightarrow> nat \<Rightarrow> DailyCounts option" where
  "dailyCounts z dests frm to n =
     (case days_from z to (dayStart z frm) of None \<Rightarrow> None
      | Some days \<Rightarrow>
         let nms = namesByCount dests; kept = take n nms;
             rows = fold (\<lambda>k m. map_set k (replicate (length days) 0) m) (kept @ (if length nms > n then [OTHER_NAME] else [])) []
         in Some \<lparr> dc_days = days, dc_series = fold (count_day z days kept) dests rows \<rparr>)"

definition hiddenText :: "(int \<Rightarrow> string) \<Rightarrow> NewDestsResponse \<Rightarrow> (num \<Rightarrow> string) \<Rightarrow> string option" where
  "hiddenText fmtTime r str =
     (let (lo, warm) = nds_hidden r;
          parts = (if warm > 0 then [str warm @ '' first seen in the first 24 h of data''
                     @ (case nds_warmupUntil r of Some u \<Rightarrow> if u \<noteq> 0 then '' (until '' @ fmtTime u @ '')'' else [] | None \<Rightarrow> []) @ '' hidden''] else [])
                @ (if lo > 0 then [str lo @ '' loopback hidden''] else [])
      in if parts \<noteq> [] then Some (join [CHR '' '', CHR 0xB7, CHR '' ''] parts) else None)"

section \<open>The contract of a clustering\<close>

text \<open>Whole milliseconds of which differences are exact.\<close>

definition whole_ms :: "num \<Rightarrow> bool" where
  "whole_ms x \<longleftrightarrow> x = of_int \<lfloor>x\<rfloor> \<and> \<bar>x\<bar> < 2 ^ 52"

lemma fsub_whole: "whole_ms x \<Longrightarrow> whole_ms y \<Longrightarrow> fsub x y = x - y"
proof -
  assume "whole_ms x" "whole_ms y"
  then have e: "x = of_int \<lfloor>x\<rfloor>" "y = of_int \<lfloor>y\<rfloor>" and "\<bar>x\<bar> < 2 ^ 52" "\<bar>y\<bar> < 2 ^ 52" by (auto simp: whole_ms_def)
  then have "\<bar>of_int (\<lfloor>x\<rfloor> - \<lfloor>y\<rfloor>)\<bar> \<le> (of_int (2 ^ 53) :: num)" by (simp flip: e)
  then have "\<bar>\<lfloor>x\<rfloor> - \<lfloor>y\<rfloor>\<bar> \<le> 2 ^ 53" unfolding of_int_abs [symmetric] of_int_le_iff .
  from fl_of_int [OF this] show ?thesis by (simp add: fsub_def flip: e)
qed

locale clustering =
  fixes groups :: "num \<Rightarrow> 'e list \<Rightarrow> 'e list list" and tm :: "'e \<Rightarrow> num" and dom' :: "'e list \<Rightarrow> bool"
  assumes all_kept: "dom' es \<Longrightarrow> concat (groups gp es) = es"
    and nonempty: "dom' es \<Longrightarrow> g \<in> set (groups gp es) \<Longrightarrow> g \<noteq> []"
    and close: "dom' es \<Longrightarrow> g \<in> set (groups gp es) \<Longrightarrow> e \<in> set (tl g) \<Longrightarrow> tm e - tm (hd g) < gp"
    and apart: "dom' es \<Longrightarrow> successively (\<lambda>g h. gp \<le> tm (hd h) - tm (hd g)) (groups gp es)"
begin

text \<open>Markers never crowd: their first events are at least a gap apart, so a span of time has few of them.\<close>

lemma span_bound:
  assumes "successively (\<lambda>g h. gp \<le> tm (hd h) - tm (hd g)) (g # gs)"
  shows "of_nat (length gs) * gp \<le> tm (hd (last (g # gs))) - tm (hd g)"
  using assms
proof (induction gs arbitrary: g)
  case (Cons h gs)
  then have "gp \<le> tm (hd h) - tm (hd g)" "of_nat (length gs) * gp \<le> tm (hd (last (h # gs))) - tm (hd h)" by auto
  then show ?case by (simp add: algebra_simps)
qed simp

lemma few_groups:
  assumes "dom' es" and "\<forall>e \<in> set es. frm \<le> tm e \<and> tm e < to" and "0 \<le> gp" and "es \<noteq> []"
  shows "of_nat (length (groups gp es) - 1) * gp < to - frm"
proof -
  obtain g gs where gs: "groups gp es = g # gs" using all_kept [OF assms(1), of gp] assms(4) by (cases "groups gp es") auto
  have in_es: "hd h \<in> set es" if "h \<in> set (g # gs)" for h
  proof -
    have "hd h \<in> set h" using nonempty [OF assms(1), of h gp] that gs by simp
    then have "hd h \<in> set (concat (groups gp es))" using that gs by auto
    then show ?thesis using all_kept [OF assms(1)] by simp
  qed
  have "of_nat (length gs) * gp \<le> tm (hd (last (g # gs))) - tm (hd g)" using span_bound apart [OF assms(1), of gp] gs by simp
  moreover have "frm \<le> tm (hd g)" "tm (hd (last (g # gs))) < to" using assms(2) in_es [of g] in_es [of "last (g # gs)"] by auto
  ultimately show ?thesis using gs by simp
qed

end

section \<open>The loop fulfils it\<close>

definition clusters_ok :: "('e \<Rightarrow> num) \<Rightarrow> num \<Rightarrow> 'e list \<Rightarrow> 'e list list \<Rightarrow> bool" where
  "clusters_ok tm gp es groups \<longleftrightarrow> concat groups = es \<and> (\<forall>g \<in> set groups. g \<noteq> [] \<and> (\<forall>e \<in> set (tl g). fsub (tm e) (tm (hd g)) < gp))
     \<and> successively (\<lambda>g h. gp \<le> fsub (tm (hd h)) (tm (hd g))) groups"

lemma cluster_step_ok:
  assumes "clusters_ok tm gp es groups"
  shows "clusters_ok tm gp (es @ [e]) (cluster_step tm gp e groups)"
proof (cases "groups = []")
  case True
  then show ?thesis using assms by (simp add: clusters_ok_def cluster_step_def)
next
  case False
  then obtain gs g where gs: "groups = gs @ [g]" by (metis rev_exhaust)
  have g: "g \<noteq> []" using assms gs by (simp add: clusters_ok_def)
  then obtain x xs where "g = x # xs" by (cases g) auto
  then show ?thesis using assms gs by (auto simp: clusters_ok_def cluster_step_def successively_append_iff)
qed

lemma cluster_groups_ok: "clusters_ok tm gp es (cluster_groups tm gp es)"
proof (induction es rule: rev_induct)
  case (snoc e es)
  then show ?case using cluster_step_ok [of tm gp es] by (simp add: cluster_groups_def)
qed (simp add: clusters_ok_def cluster_groups_def)

lemma clustering_groups: "clustering (cluster_groups tm) tm (\<lambda>es. \<forall>e \<in> set es. whole_ms (tm e))"
proof
  fix es g gp e
  assume w: "\<forall>e \<in> set es. whole_ms (tm e)"
  note ok = cluster_groups_ok [of tm gp es, unfolded clusters_ok_def]
  show "concat (cluster_groups tm gp es) = es" using ok by blast
  have whole: "whole_ms (tm x)" if "h \<in> set (cluster_groups tm gp es)" "x \<in> set h" for h x
  proof -
    have "x \<in> set (concat (cluster_groups tm gp es))" using that by auto
    then show ?thesis using ok w by simp
  qed
  show "successively (\<lambda>g h. gp \<le> tm (hd h) - tm (hd g)) (cluster_groups tm gp es)"
  proof (rule successively_mono [of "\<lambda>g h. gp \<le> fsub (tm (hd h)) (tm (hd g))"])
    fix a b assume "a \<in> set (cluster_groups tm gp es)" "b \<in> set (cluster_groups tm gp es)" "gp \<le> fsub (tm (hd b)) (tm (hd a))"
    moreover from this have "a \<noteq> []" "b \<noteq> []" using ok by blast+
    ultimately show "gp \<le> tm (hd b) - tm (hd a)" using whole fsub_whole by (metis list.set_sel(1))
  qed (use ok in blast)
  assume g: "g \<in> set (cluster_groups tm gp es)"
  then show ne: "g \<noteq> []" using ok by blast
  assume e: "e \<in> set (tl g)"
  have "whole_ms (tm e)" "whole_ms (tm (hd g))" using whole [OF g] e ne by (auto dest: list.set_sel(2))
  then show "tm e - tm (hd g) < gp" using ok g e fsub_whole by metis
qed

interpretation lc: clustering "cluster_groups ev_t" ev_t "\<lambda>es. \<forall>e \<in> set es. whole_ms (ev_t e)"
  by (rule clustering_groups)

interpretation nd: clustering "cluster_groups nd_time" nd_time "\<lambda>es. \<forall>d \<in> set es. whole_ms (nd_time d)"
  by (rule clustering_groups)

section \<open>What a marker shows\<close>

lemma mean_time_between:
  assumes "g \<noteq> []" and "\<forall>e \<in> set g. whole_ms (tm e) \<and> 0 \<le> tm e" and "(\<Sum>e \<leftarrow> g. tm e) \<le> 2 ^ 53"
    and lo: "whole_ms lo" "\<forall>e \<in> set g. lo \<le> tm e" and hi: "whole_ms hi" "\<forall>e \<in> set g. tm e \<le> hi"
  shows "lo \<le> of_int (mean_time tm g)" "of_int (mean_time tm g) \<le> hi"
proof -
  let ?n = "of_nat (length g) :: num" and ?s = "\<Sum>e \<leftarrow> g. tm e"
  have n: "0 < ?n" using assms(1) by simp
  have nat: "tm e \<in> \<nat>" if "e \<in> set g" for e
  proof -
    have "tm e = of_int \<lfloor>tm e\<rfloor>" "0 \<le> \<lfloor>tm e\<rfloor>" using assms(2) that by (auto simp: whole_ms_def)
    then have "tm e = of_nat (nat \<lfloor>tm e\<rfloor>)" by simp
    then show ?thesis by (metis of_nat_in_Nats)
  qed
  have mean: "mean_time tm g = round (fl (?s / ?n))"
    using exact_fsum [of g tm] nat assms(3) by (simp add: mean_time_def fdiv_def)
  have exact: "fl x = x" "of_int (round x) = x" if "whole_ms x" for x
  proof -
    have x: "x = of_int \<lfloor>x\<rfloor>" "\<bar>x\<bar> < 2 ^ 52" using that by (auto simp: whole_ms_def)
    then have "\<bar>of_int \<lfloor>x\<rfloor>\<bar> \<le> (of_int (2 ^ 53) :: num)" by simp
    then have "\<bar>\<lfloor>x\<rfloor>\<bar> \<le> 2 ^ 53" unfolding of_int_abs [symmetric] of_int_le_iff .
    from fl_of_int [OF this] show "fl x = x" using x(1) by simp
    show "of_int (round x) = x" by (subst x(1), subst round_of_int) (rule x(1) [symmetric])
  qed
  have "lo * ?n \<le> ?s" using sum_list_mono [of g "\<lambda>_. lo" tm] lo(2) by (simp add: sum_list_triv mult.commute)
  then have "lo \<le> ?s / ?n" using n by (simp add: pos_le_divide_eq)
  then have "lo \<le> fl (?s / ?n)" using fl_mono [of lo] exact(1) [OF lo(1)] by metis
  then have "round lo \<le> mean_time tm g" unfolding mean by (rule round_mono)
  then have "(of_int (round lo) :: num) \<le> of_int (mean_time tm g)" by (simp only: of_int_le_iff)
  then show "lo \<le> of_int (mean_time tm g)" using exact(2) [OF lo(1)] by simp
  have "?s \<le> hi * ?n" using sum_list_mono [of g tm "\<lambda>_. hi"] hi(2) by (simp add: sum_list_triv mult.commute)
  then have "?s / ?n \<le> hi" using n by (simp add: pos_divide_le_eq)
  then have "fl (?s / ?n) \<le> hi" using fl_mono [of _ hi] exact(1) [OF hi(1)] by metis
  then have "mean_time tm g \<le> round hi" unfolding mean by (rule round_mono)
  then have "of_int (mean_time tm g) \<le> (of_int (round hi) :: num)" by (simp only: of_int_le_iff)
  then show "of_int (mean_time tm g) \<le> hi" using exact(2) [OF hi(1)] by simp
qed

lemma one_name_iff: "items \<noteq> [] \<Longrightarrow> one_name nm items = Some x \<longleftrightarrow> (\<forall>e \<in> set items. nm e = x)"
  by (cases items) (auto simp: one_name_def list_all_iff)

text \<open>A group of ordered events: short, and its marker lies among them.\<close>

lemma group_facts:
  assumes "sorted_wrt (\<lambda>a b. tm a \<le> tm b) es" and whole: "\<forall>e \<in> set es. whole_ms (tm e) \<and> 0 \<le> tm e" and g: "g \<in> set (cluster_groups tm gp es)"
  shows "g \<noteq> []" and "set g \<subseteq> set es"
    and "length g > 1 \<Longrightarrow> a \<in> set g \<Longrightarrow> b \<in> set g \<Longrightarrow> tm a - tm b < gp"
    and "(\<Sum>e \<leftarrow> g. tm e) \<le> 2 ^ 53 \<Longrightarrow> \<exists>a \<in> set g. \<exists>b \<in> set g. tm a \<le> of_int (mean_time tm g) \<and> of_int (mean_time tm g) \<le> tm b"
proof -
  have w: "\<forall>e \<in> set es. whole_ms (tm e)" using whole by blast
  note C = clustering.all_kept [OF clustering_groups w, of gp] clustering.nonempty [OF clustering_groups w g] clustering.close [OF clustering_groups w g]
  obtain us vs where "cluster_groups tm gp es = us @ g # vs" using g by (metis split_list)
  then have es: "es = concat us @ g @ concat vs" using C(1) by simp
  show "g \<noteq> []" "set g \<subseteq> set es" using C(2) by (auto simp: es)
  then have gw: "\<forall>e \<in> set g. whole_ms (tm e) \<and> 0 \<le> tm e" using whole by blast
  have sorted: "sorted_wrt (\<lambda>a b. tm a \<le> tm b) g" using assms(1) by (simp add: es sorted_wrt_append)
  obtain x xs where x: "g = x # xs" using C(2) by (cases g) auto
  have low: "tm x \<le> tm e" if "e \<in> set g" for e using sorted that by (auto simp: x)
  show "tm a - tm b < gp" if two: "length g > 1" "a \<in> set g" "b \<in> set g"
  proof -
    obtain y where y: "y \<in> set xs" using two(1) x by (cases xs) auto
    have "tm y - tm x < gp" "tm x \<le> tm y" using C(3) [of y] low [of y] y x by auto
    then have "tm a - tm x < gp" using C(3) [of a] two(2) x by auto
    then show ?thesis using low [OF two(3)] by linarith
  qed
  have up: "tm e \<le> tm (last g)" if "e \<in> set g" for e
  proof -
    obtain ys y where "g = ys @ [y]" using C(2) by (metis rev_exhaust)
    then show ?thesis using sorted that by (auto simp: sorted_wrt_append)
  qed
  show "\<exists>a \<in> set g. \<exists>b \<in> set g. tm a \<le> of_int (mean_time tm g) \<and> of_int (mean_time tm g) \<le> tm b" if "(\<Sum>e \<leftarrow> g. tm e) \<le> 2 ^ 53"
    using mean_time_between [OF C(2) gw that, of "tm x" "tm (last g)"] low up gw x C(2) by (metis last_in_set list.set_intros(1))
qed

text \<open>
  Process markers: for events in order of whole milliseconds, every event is in exactly one marker; a
  marker of several events spans less than the gap of \<open>minPx\<close> pixels and carries a name exactly when
  all its events have it; its place lies among its events; and markers start at least a gap apart, so
  a range of time never has more than its length over the gap, and one.
\<close>

theorem clusterMarkers_readable:
  assumes "sorted_wrt (\<lambda>a b. ev_t a \<le> ev_t b) es" and "\<forall>e \<in> set es. whole_ms (ev_t e) \<and> 0 \<le> ev_t e \<and> frm \<le> ev_t e \<and> ev_t e < to"
    and "es \<noteq> []"
  shows "let cs = clusterMarkers es msPerPx minPx; gp = max 0 (fmul msPerPx minPx) in
    mset (concat (map mk_items cs)) = mset es
    \<and> (\<forall>c \<in> set cs. mk_items c \<noteq> []
        \<and> (length (mk_items c) > 1 \<longrightarrow> (\<forall>a \<in> set (mk_items c). \<forall>b \<in> set (mk_items c). ev_t a - ev_t b < gp))
        \<and> (\<forall>n. mk_name c = Some n \<longleftrightarrow> (\<forall>e \<in> set (mk_items c). lp_name (ev_proc e) = n))
        \<and> ((\<Sum>e \<leftarrow> mk_items c. ev_t e) \<le> 2 ^ 53 \<longrightarrow>
            (\<exists>a \<in> set (mk_items c). \<exists>b \<in> set (mk_items c). ev_t a \<le> of_int (mk_t c) \<and> of_int (mk_t c) \<le> ev_t b)))
    \<and> of_nat (length cs - 1) * gp < to - frm"
proof -
  define gp where "gp = max 0 (fmul msPerPx minPx)"
  let ?gs = "cluster_groups ev_t gp es"
  have w: "\<forall>e \<in> set es. whole_ms (ev_t e)" and w0: "\<forall>e \<in> set es. whole_ms (ev_t e) \<and> 0 \<le> ev_t e" using assms(2) by auto
  have cs: "clusterMarkers es msPerPx minPx = map marker_of ?gs" by (simp add: clusterMarkers_def gp_def)
  have "mset (concat (map mk_items (map marker_of gs))) = mset (concat gs)" for gs
    by (induction gs) (simp_all add: marker_of_def Let_def)
  then have all: "mset (concat (map mk_items (map marker_of ?gs))) = mset es" using lc.all_kept [OF w] by metis
  have one: "mk_items c \<noteq> []
      \<and> (length (mk_items c) > 1 \<longrightarrow> (\<forall>a \<in> set (mk_items c). \<forall>b \<in> set (mk_items c). ev_t a - ev_t b < gp))
      \<and> (\<forall>n. mk_name c = Some n \<longleftrightarrow> (\<forall>e \<in> set (mk_items c). lp_name (ev_proc e) = n))
      \<and> ((\<Sum>e \<leftarrow> mk_items c. ev_t e) \<le> 2 ^ 53 \<longrightarrow>
            (\<exists>a \<in> set (mk_items c). \<exists>b \<in> set (mk_items c). ev_t a \<le> of_int (mk_t c) \<and> of_int (mk_t c) \<le> ev_t b))"
    if mem: "c \<in> set (map marker_of ?gs)" for c
  proof -
    obtain g where g: "g \<in> set ?gs" and c: "c = marker_of g" using mem by auto
    note G = group_facts [OF assms(1) w0 g]
    show ?thesis using G by (simp add: c marker_of_def Let_def one_name_iff)
  qed
  have "of_nat (length ?gs - 1) * gp < to - frm" using lc.few_groups [OF w _ _ assms(3), of frm to gp] assms(2) by (simp add: gp_def)
  then show ?thesis unfolding Let_def cs gp_def [symmetric] using all one by simp
qed

text \<open>The same for first contacts, in any order and with those outside the range left out.\<close>

theorem clusterNewDests_readable:
  assumes "\<forall>d \<in> set dests. 0 \<le> nw_firstMs d \<and> nw_firstMs d < 2 ^ 52"
  shows "let cs = clusterNewDests dests frm to msPerPx minPx; gp = max 0 (fmul msPerPx minPx) in
    mset (concat (map nc_items cs)) = mset (filter (\<lambda>d. frm \<le> of_int (nw_firstMs d) \<and> of_int (nw_firstMs d) < to) dests)
    \<and> (\<forall>c \<in> set cs. nc_items c \<noteq> []
        \<and> (length (nc_items c) > 1 \<longrightarrow> (\<forall>a \<in> set (nc_items c). \<forall>b \<in> set (nc_items c). of_int (nw_firstMs a - nw_firstMs b) < gp))
        \<and> (\<forall>n. nc_name c = Some n \<longleftrightarrow> (\<forall>d \<in> set (nc_items c). nw_name d = n)))
    \<and> (cs \<noteq> [] \<longrightarrow> of_nat (length cs - 1) * gp < to - frm)"
proof -
  define gp where "gp = max 0 (fmul msPerPx minPx)"
  define es where "es = sort_by (asc_by nw_firstMs) (filter (\<lambda>d. in_range frm to (nd_time d)) dests)"
  let ?gs = "cluster_groups nd_time gp es"
  have w0: "\<forall>d \<in> set es. whole_ms (nd_time d) \<and> 0 \<le> nd_time d"
  proof
    fix d assume "d \<in> set es"
    then have "0 \<le> nw_firstMs d" "nw_firstMs d < 2 ^ 52" using assms by (auto simp: es_def)
    then have "(of_int (nw_firstMs d) :: num) < of_int (2 ^ 52)" by (simp only: of_int_less_iff)
    then show "whole_ms (nd_time d) \<and> 0 \<le> nd_time d" using \<open>0 \<le> nw_firstMs d\<close> by (simp add: whole_ms_def)
  qed
  then have w: "\<forall>d \<in> set es. whole_ms (nd_time d)" by blast
  have sorted: "sorted_wrt (\<lambda>a b. nd_time a \<le> nd_time b) es"
    using sort_by_sorted_wrt [OF comparator_asc_by, of nw_firstMs] unfolding es_def asc_by_def by (simp only: of_int_le_iff)
  have cs: "clusterNewDests dests frm to msPerPx minPx = map dest_marker ?gs" by (simp add: clusterNewDests_def gp_def es_def)
  have "mset (concat (map nc_items (map dest_marker gs))) = mset (concat gs)" for gs
    by (induction gs) (simp_all add: dest_marker_def Let_def)
  then have all: "mset (concat (map nc_items (map dest_marker ?gs))) = mset es" using nd.all_kept [OF w] by metis
  have one: "nc_items c \<noteq> [] \<and> (length (nc_items c) > 1 \<longrightarrow> (\<forall>a \<in> set (nc_items c). \<forall>b \<in> set (nc_items c). of_int (nw_firstMs a - nw_firstMs b) < gp))
      \<and> (\<forall>n. nc_name c = Some n \<longleftrightarrow> (\<forall>d \<in> set (nc_items c). nw_name d = n))" if mem: "c \<in> set (map dest_marker ?gs)" for c
  proof -
    obtain g where g: "g \<in> set ?gs" and c: "c = dest_marker g" using mem by auto
    note G = group_facts [OF sorted w0 g]
    show ?thesis using G(1,3) by (simp add: c dest_marker_def Let_def one_name_iff)
  qed
  have few: "of_nat (length ?gs - 1) * gp < to - frm" if "?gs \<noteq> []"
  proof -
    have "es \<noteq> []" using that by (auto simp: cluster_groups_def)
    then show ?thesis using nd.few_groups [OF w, of frm to gp] by (simp add: gp_def es_def in_range_def)
  qed
  have "mset es = mset (filter (\<lambda>d. frm \<le> of_int (nw_firstMs d) \<and> of_int (nw_firstMs d) < to) dests)" by (simp add: es_def in_range_def)
  then show ?thesis unfolding Let_def cs gp_def [symmetric] using all one few by simp
qed

section \<open>The days of a range\<close>

text \<open>
  The number of the local day of an instant, and the instant \<open>Date\<close> reads for the midnight a local day
  begins with.
\<close>

definition day_number :: "zone \<Rightarrow> int \<Rightarrow> int" where
  "day_number z t = LocalTime z t div DAY_MS"

definition midnight :: "zone \<Rightarrow> int \<Rightarrow> int" where
  "midnight z n = UTC_time z (n * DAY_MS)"

definition morning :: "int \<Rightarrow> bool" where
  "morning x \<longleftrightarrow> x mod DAY_MS < DAY_MS div 2"

text \<open>
  What the code relies on of the time zone. Offsets are less than a day; the clock is never put back to
  a day that has ended; no instant of a day or of a later one comes before the day's midnight; a day that has no
  midnight, because the clock is put forward then, begins in the morning; and a local time in the
  morning is read as an instant of its day or, if the zone left that day out, of the first day after it.
\<close>

definition zone_days :: "zone \<Rightarrow> bool" where
  "zone_days z \<longleftrightarrow> (\<forall>t. \<bar>tz_off z t\<bar> < DAY_MS \<and> \<bar>tz_local z t\<bar> < DAY_MS)
     \<and> (\<forall>t u. t \<le> u \<longrightarrow> day_number z t \<le> day_number z u)
     \<and> (\<forall>n t. n \<le> day_number z t \<longrightarrow> midnight z n \<le> t)
     \<and> (\<forall>n. morning (LocalTime z (midnight z n)))
     \<and> (\<forall>x. morning x \<longrightarrow> x div DAY_MS \<le> day_number z (UTC_time z x)
          \<and> (\<forall>t. x div DAY_MS \<le> day_number z t \<longrightarrow> day_number z (UTC_time z x) \<le> day_number z t))"

lemma zone_daysD:
  assumes "zone_days z"
  shows "\<bar>tz_off z t\<bar> < DAY_MS" "\<bar>tz_local z t\<bar> < DAY_MS"
    and "t \<le> u \<Longrightarrow> day_number z t \<le> day_number z u"
    and "n \<le> day_number z t \<Longrightarrow> midnight z n \<le> t"
    and "morning (LocalTime z (midnight z n))"
    and "morning x \<Longrightarrow> x div DAY_MS \<le> day_number z (UTC_time z x)"
    and "morning x \<Longrightarrow> x div DAY_MS \<le> day_number z t \<Longrightarrow> day_number z (UTC_time z x) \<le> day_number z t"
  using assms unfolding zone_days_def by blast+

text \<open>The instants that are close enough to the epoch for a \<open>Date\<close>, with room for ten days.\<close>

definition date_range :: "int \<Rightarrow> bool" where
  "date_range t \<longleftrightarrow> - 8639999136000000 \<le> t \<and> t \<le> 8639999136000000"

lemma day_floor: "x - DAY_MS < x div DAY_MS * DAY_MS" "x div DAY_MS * DAY_MS \<le> x"
  using div_mult_mod_eq [of x DAY_MS] pos_mod_bound [of DAY_MS x] pos_mod_sign [of DAY_MS x] by (simp_all add: DAY_MS_def)

lemma dayStart_midnight:
  assumes "zone_days z" and "date_range t"
  shows "dayStart z t = Some (midnight z (day_number z t))" and "\<bar>midnight z (day_number z t) - t\<bar> < 3 * DAY_MS"
proof -
  let ?x = "day_number z t * DAY_MS"
  have "?x \<le> LocalTime z t" "LocalTime z t - DAY_MS < ?x" using day_floor [of "LocalTime z t"] by (simp_all add: day_number_def)
  then show near: "\<bar>midnight z (day_number z t) - t\<bar> < 3 * DAY_MS"
    using zone_daysD(1) [OF assms(1), of t] zone_daysD(2) [OF assms(1), of ?x] by (simp add: midnight_def UTC_time_def LocalTime_def)
  then have "\<bar>midnight z (day_number z t)\<bar> \<le> 8640000000000000" "\<bar>t\<bar> \<le> 8640000000000000"
    using assms(2) unfolding date_range_def DAY_MS_def by linarith+
  then show "dayStart z t = Some (midnight z (day_number z t))"
    by (simp add: dayStart_def set_midnight_def TimeClip_def midnight_def day_number_def)
qed

text \<open>A day the zone has: its midnight is an instant of it.\<close>

lemma day_midnight:
  assumes "zone_days z" shows "day_number z (midnight z (day_number z t)) = day_number z t"
proof -
  have "morning (day_number z t * DAY_MS)" "day_number z t * DAY_MS div DAY_MS = day_number z t" by (simp_all add: morning_def DAY_MS_def)
  then show ?thesis using zone_daysD(6,7) [OF assms, of "day_number z t * DAY_MS"] unfolding midnight_def by (metis order_antisym order_refl)
qed

lemma nextDay_midnight:
  assumes "zone_days z" and "day_number z (midnight z k) = k" and "date_range (midnight z k)"
  shows "\<exists>m. nextDay z (midnight z k) = Some (midnight z m) \<and> day_number z (midnight z m) = m \<and> k < m \<and> (\<forall>t. k < day_number z t \<longrightarrow> m \<le> day_number z t)"
proof -
  let ?d = "midnight z k"
  define x where "x = LocalTime z ?d"
  define y where "y = (x div DAY_MS + 1) * DAY_MS + x mod DAY_MS"
  define u where "u = UTC_time z y"
  have k: "x div DAY_MS = k" using assms(2) by (simp add: x_def day_number_def)
  have yx: "y = x + DAY_MS" using div_mult_mod_eq [of x DAY_MS] by (simp add: y_def algebra_simps)
  have "y div DAY_MS = k + 1" "y mod DAY_MS = x mod DAY_MS" unfolding yx k [symmetric] by (simp_all add: DAY_MS_def)
  then have y: "morning y" "y div DAY_MS = k + 1" using zone_daysD(5) [OF assms(1), of k] by (simp_all add: morning_def x_def)
  have close: "\<bar>u - ?d\<bar> < 3 * DAY_MS"
    using zone_daysD(1) [OF assms(1), of ?d] zone_daysD(2) [OF assms(1), of y] unfolding u_def UTC_time_def yx x_def LocalTime_def by linarith
  have fl: "\<bar>midnight z (day_number z u) - u\<bar> < 3 * DAY_MS"
  proof -
    have "day_number z u * DAY_MS \<le> LocalTime z u" "LocalTime z u - DAY_MS < day_number z u * DAY_MS"
      using day_floor [of "LocalTime z u"] by (simp_all add: day_number_def)
    then show ?thesis using zone_daysD(1) [OF assms(1), of u] zone_daysD(2) [OF assms(1), of "day_number z u * DAY_MS"]
      by (simp add: midnight_def UTC_time_def LocalTime_def)
  qed
  have "\<bar>?d\<bar> \<le> 8640000000000000" "\<bar>u\<bar> \<le> 8640000000000000" "\<bar>midnight z (day_number z u)\<bar> \<le> 8640000000000000"
    using assms(3) close fl unfolding date_range_def DAY_MS_def by linarith+
  moreover have "set_tomorrow z ?d = TimeClip u" by (simp only: set_tomorrow_def Let_def u_def y_def x_def)
  moreover have "set_midnight z u = TimeClip (midnight z (day_number z u))" by (simp only: set_midnight_def midnight_def day_number_def)
  ultimately have "nextDay z ?d = Some (midnight z (day_number z u))" by (simp add: nextDay_def TimeClip_def)
  moreover have "k < day_number z u" "\<forall>t. k < day_number z t \<longrightarrow> day_number z u \<le> day_number z t"
    using zone_daysD(6,7) [OF assms(1) y(1)] unfolding u_def y(2) by auto
  ultimately show ?thesis using day_midnight [OF assms(1), of u] by blast
qed

lemma dayStart_fixed:
  assumes "zone_days z" and "dayStart z x = Some x" shows "midnight z (day_number z x) = x"
  using assms(2) by (simp add: dayStart_def set_midnight_def TimeClip_def midnight_def day_number_def split: if_splits)

lemma days_from_all:
  fixes to :: num
  assumes "zone_days z" and "to \<le> 8639999136000000" and "day_number z (midnight z k) = k" and "- 8639999136000000 \<le> midnight z k"
  shows "\<exists>l. days_from z to (Some (midnight z k)) = Some l \<and> sorted_wrt (<) l \<and> set l = {x. dayStart z x = Some x \<and> midnight z k \<le> x \<and> of_int x < to}"
  using assms(3,4)
proof (induction "nat (\<lceil>to\<rceil> - midnight z k)" arbitrary: k rule: less_induct)
  case less
  let ?d = "midnight z k"
  show ?case
  proof (cases "of_int ?d < to")
    case False
    then show ?thesis by (auto simp: days_from.simps dest: le_less_trans)
  next
    case True
    then have "(of_int ?d :: num) < of_int 8639999136000000" using assms(2) by simp
    then have "?d < 8639999136000000" by (simp only: of_int_less_iff)
    then have rng: "date_range ?d" using less.prems(2) by (simp add: date_range_def)
    obtain m where m: "nextDay z ?d = Some (midnight z m)" "day_number z (midnight z m) = m" "k < m"
      "\<forall>t. k < day_number z t \<longrightarrow> m \<le> day_number z t" using nextDay_midnight [OF assms(1) less.prems(1) rng] by blast
    have "?d \<noteq> midnight z m" using m(2,3) less.prems(1) by auto
    moreover have "?d \<le> midnight z m" using zone_daysD(4) [OF assms(1), of k "midnight z m"] m(2,3) by simp
    ultimately have up: "?d < midnight z m" by simp
    have "?d < \<lceil>to\<rceil>" using True by (simp add: less_ceiling_iff)
    then have "nat (\<lceil>to\<rceil> - midnight z m) < nat (\<lceil>to\<rceil> - ?d)" using up by linarith
    from less.hyps [OF this m(2)] up less.prems(2) obtain l where
      l: "days_from z to (Some (midnight z m)) = Some l" "sorted_wrt (<) l" "set l = {x. dayStart z x = Some x \<and> midnight z m \<le> x \<and> of_int x < to}" by auto
    have gap: "x = ?d" if "dayStart z x = Some x" "?d \<le> x" "\<not> midnight z m \<le> x" for x
    proof -
      have "k \<le> day_number z x" using zone_daysD(3) [OF assms(1) that(2)] less.prems(1) by simp
      moreover have "\<not> k < day_number z x" using m(4) zone_daysD(4) [OF assms(1), of m x] that(3) by blast
      ultimately show ?thesis using dayStart_fixed [OF assms(1) that(1)] by (metis order_le_less)
    qed
    have "dayStart z ?d = Some ?d" using dayStart_midnight(1) [OF assms(1) rng] less.prems(1) by simp
    then have "{x. dayStart z x = Some x \<and> ?d \<le> x \<and> of_int x < to} = set (?d # l)"
      using l(3) True up gap by auto
    moreover have "days_from z to (Some ?d) = Some (?d # l)" using True l(1) by (simp add: days_from.simps m(1))
    moreover have "sorted_wrt (<) (?d # l)" using l(2,3) up by auto
    ultimately show ?thesis by metis
  qed
qed

text \<open>The index of a day.\<close>

lemma get_day_indices:
  assumes "distinct days" and "i < length days"
  shows "map_get (day_indices days) (days ! i) = Some i"
proof -
  have "map_get (fold (\<lambda>(d, i). map_set d i) (zip ds [m..<m + length ds]) acc) (ds ! i) = Some (m + i)"
    if "distinct ds" "i < length ds" for ds m i and acc :: "(int, nat) jsmap"
    using that
  proof (induction ds arbitrary: m i acc)
    case (Cons d ds)
    have z: "zip (d # ds) [m..<m + length (d # ds)] = (d, m) # zip ds [Suc m..<Suc m + length ds]" by (simp add: upt_conv_Cons del: upt_Suc)
    show ?case
    proof (cases i)
      case 0
      have "map_get (fold (\<lambda>(d, i). map_set d i) ps a) d = map_get a d" if "d \<notin> fst ` set ps" for ps and a :: "(int, nat) jsmap"
        using that by (induction ps arbitrary: a) (auto simp: alm.get_put)
      moreover have "d \<notin> fst ` set (zip ds [Suc m..<Suc m + length ds])" using Cons.prems(1) by (auto dest: set_zip_leftD)
      ultimately show ?thesis unfolding z using 0 by (simp add: alm.get_put)
    next
      case (Suc j)
      then show ?thesis unfolding z using Cons.IH [of j "Suc m" "map_set d m acc"] Cons.prems by simp
    qed
  qed simp
  from this [OF assms, of 0] show ?thesis by (simp add: day_indices_def)
qed

lemma get_day_indices_None: "x \<notin> set days \<Longrightarrow> map_get (day_indices days) x = None"
proof -
  have "map_get (fold (\<lambda>(d, i). map_set d i) ps a) x = map_get a x" if "x \<notin> fst ` set ps" for ps and a :: "(int, nat) jsmap"
    using that by (induction ps arbitrary: a) (auto simp: alm.get_put)
  moreover assume "x \<notin> set days"
  then have "x \<notin> fst ` set (zip days [0..<length days])" by (auto dest: set_zip_leftD)
  ultimately show ?thesis by (simp add: day_indices_def map_get_def [of "[]"])
qed

lemma day_index_iff:
  assumes "distinct days"
  shows "day_index z days d = Some i \<longleftrightarrow> i < length days \<and> dayStart z (nw_firstMs d) = Some (days ! i)"
proof (cases "dayStart z (nw_firstMs d)")
  case (Some x)
  show ?thesis
  proof (cases "x \<in> set days")
    case True
    then obtain j where j: "j < length days" "days ! j = x" by (auto simp: in_set_conv_nth)
    then have "day_index z days d = Some j" using get_day_indices [OF assms j(1)] by (simp add: day_index_def Some)
    then show ?thesis using j Some nth_eq_iff_index_eq [OF assms j(1), of i] by auto
  next
    case False
    then show ?thesis using Some get_day_indices_None [OF False] by (auto simp: day_index_def)
  qed
qed (simp add: day_index_def)

text \<open>What one destination adds to.\<close>

definition count_key :: "string list \<Rightarrow> NewDest \<Rightarrow> string" where
  "count_key kept d = (if nw_name d \<in> set kept then nw_name d else OTHER_NAME)"

definition tally :: "zone \<Rightarrow> int list \<Rightarrow> string list \<Rightarrow> NewDest list \<Rightarrow> string \<Rightarrow> nat \<Rightarrow> nat" where
  "tally z days kept dests k i = length (filter (\<lambda>d. count_key kept d = k \<and> day_index z days d = Some i) dests)"

lemma count_day_fold:
  assumes "distinct days" and "\<And>k c. map_get rows k = Some c \<Longrightarrow> length c = length days"
  shows "map_get (fold (count_day z days kept) dests rows) k =
    map_option (\<lambda>c. map (\<lambda>i. c ! i + tally z days kept dests k i) [0..<length days]) (map_get rows k)"
  using assms(2)
proof (induction dests arbitrary: rows)
  case Nil
  then show ?case by (cases "map_get rows k") (auto simp: tally_def intro!: nth_equalityI)
next
  case (Cons d dests)
  let ?k = "count_key kept d" and ?r = "count_day z days kept d rows"
  have r: "map_get ?r j = (case day_index z days d of None \<Rightarrow> map_get rows j
      | Some i \<Rightarrow> if j = ?k then map_option (\<lambda>c. c[i := c ! i + 1]) (map_get rows j) else map_get rows j)" for j
    by (auto simp: count_day_def count_key_def alm.get_put Let_def split: option.split)
  have len: "length c = length days" if "map_get ?r j = Some c" for j c
    using that Cons.prems by (auto simp: r split: option.splits if_splits)
  have i: "i < length days" if "day_index z days d = Some i" for i using that day_index_iff [OF assms(1)] by simp
  have add: "tally z days kept (d # dests) k i = (if ?k = k \<and> day_index z days d = Some i then 1 else 0) + tally z days kept dests k i" for i
    by (simp add: tally_def)
  have "map_get (fold (count_day z days kept) (d # dests) rows) k = map_option (\<lambda>c. map (\<lambda>i. c ! i + tally z days kept dests k i) [0..<length days]) (map_get ?r k)"
    using Cons.IH [of ?r] len by simp
  also have "\<dots> = map_option (\<lambda>c. map (\<lambda>i. c ! i + tally z days kept (d # dests) k i) [0..<length days]) (map_get rows k)"
    using Cons.prems [of k] i by (cases "map_get rows k") (auto simp: r add nth_list_update split: option.split)
  finally show ?case .
qed

lemma keys_count_fold: "map_keys (fold (count_day z days kept) dests rows) = map_keys rows"
proof (induction dests arbitrary: rows)
  case (Cons d dests)
  then show ?case by (simp add: count_day_def alm.keys_put Let_def split: option.split)
qed simp

lemma get_zero_rows:
  "map_get (fold (\<lambda>k m. map_set k c m) ks m) k = (if k \<in> set ks then Some c else map_get m k)"
  by (induction ks arbitrary: m) (auto simp: alm.get_put)

lemma map_ok_zero_rows: "map_ok m \<Longrightarrow> map_ok (fold (\<lambda>k m. map_set k c m) ks m)"
  by (induction ks arbitrary: m) (simp_all add: alm.invar_put)

lemma tally_sum:
  assumes "distinct days" and "\<forall>d \<in> set dests. day_index z days d \<noteq> None" and "distinct ks" and "count_key kept ` set dests \<subseteq> set ks"
  shows "(\<Sum>k \<leftarrow> ks. \<Sum>i \<leftarrow> [0..<length days]. tally z days kept dests k i) = length dests"
proof -
  let ?i = "\<lambda>d. the (day_index z days d)"
  have "?i d < length days" if "d \<in> set dests" for d
    using bspec [OF assms(2) that] day_index_iff [OF assms(1), of z d "?i d"] by simp
  then have "?i ` set dests \<subseteq> set [0..<length days]" by auto
  then have "(\<Sum>i \<leftarrow> [0..<length days]. \<Sum>d \<leftarrow> filter (\<lambda>d. ?i d = i) (filter (\<lambda>d. count_key kept d = k) dests). 1)
      = (\<Sum>d \<leftarrow> filter (\<lambda>d. count_key kept d = k) dests. (1 :: nat))" for k
    by (intro sum_by_key) auto
  moreover have "tally z days kept dests k i = (\<Sum>d \<leftarrow> filter (\<lambda>d. ?i d = i) (filter (\<lambda>d. count_key kept d = k) dests). 1)" for k i
    using assms(2) by (auto simp: tally_def sum_list_triv intro!: arg_cong [of _ _ length] filter_cong)
  ultimately have "(\<Sum>k \<leftarrow> ks. \<Sum>i \<leftarrow> [0..<length days]. tally z days kept dests k i) = (\<Sum>k \<leftarrow> ks. \<Sum>d \<leftarrow> filter (\<lambda>d. count_key kept d = k) dests. 1)"
    by simp
  also have "\<dots> = (\<Sum>d \<leftarrow> dests. 1)" by (rule sum_by_key [OF assms(3,4)])
  finally show ?thesis by (simp add: sum_list_triv)
qed

lemma set_namesByCount: "set (namesByCount dests) = nw_name ` set dests"
  by (simp add: namesByCount_def name_counts_def set_keys_accum)

lemma count_key_shown:
  assumes "d \<in> set dests"
  shows "count_key (take n (namesByCount dests)) d \<in> set (take n (namesByCount dests) @ (if length (namesByCount dests) > n then [OTHER_NAME] else []))"
proof (cases "nw_name d \<in> set (take n (namesByCount dests))")
  case False
  then have "length (namesByCount dests) > n" using assms set_namesByCount [of dests] by (cases "length (namesByCount dests) > n") auto
  then show ?thesis using False by (simp add: count_key_def)
qed (simp add: count_key_def)

lemma day_series:
  fixes ks kept :: "string list" and days :: "int list" and dests :: "NewDest list" and z :: zone
  assumes "distinct days"
  defines "ser \<equiv> fold (count_day z days kept) dests (fold (\<lambda>k m. map_set k (replicate (length days) 0) m) ks [])"
  shows "distinct (map_keys ser)" "set (map_keys ser) = set ks" "length ser \<le> length ks"
    and "(k, c) \<in> set ser \<Longrightarrow> k \<in> set ks \<and> c = map (\<lambda>i. tally z days kept dests k i) [0..<length days]"
proof -
  define rows where "rows = fold (\<lambda>k m. map_set k (replicate (length days) 0) m) ks ([] :: (string, nat list) jsmap)"
  have getr: "map_get rows k = (if k \<in> set ks then Some (replicate (length days) 0) else None)" for k
    unfolding rows_def by (simp add: get_zero_rows map_get_def [of "[]"])
  have okr: "map_ok rows" unfolding rows_def by (simp add: map_ok_zero_rows)
  have get: "map_get ser k = (if k \<in> set ks then Some (map (\<lambda>i. tally z days kept dests k i) [0..<length days]) else None)" for k
    unfolding ser_def rows_def [symmetric] by (subst count_day_fold [OF assms(1)]) (auto simp: getr split: if_splits)
  show keys: "distinct (map_keys ser)" "set (map_keys ser) = set ks"
    using alm.keys_get [of rows] okr by (auto simp: ser_def rows_def [symmetric] keys_count_fold getr alm.invar_iff split: if_splits)
  show "length ser \<le> length ks" using keys by (metis card_length distinct_card length_map map_keys_def)
  have "map_ok ser" using keys by (simp add: alm.invar_iff)
  then show "k \<in> set ks \<and> c = map (\<lambda>i. tally z days kept dests k i) [0..<length days]" if "(k, c) \<in> set ser"
    using that by (auto simp: map_mem_iff get split: if_splits)
qed

text \<open>An instant of the range lies in one of the days.\<close>

lemma day_in_range:
  assumes "zone_days z" and "date_range frm" and "date_range t" and "frm \<le> t" and "of_int t < (to :: num)"
  shows "\<exists>x. dayStart z t = Some x \<and> dayStart z x = Some x \<and> midnight z (day_number z frm) \<le> x \<and> of_int x < to"
proof -
  let ?x = "midnight z (day_number z t)"
  have le: "?x \<le> t" using zone_daysD(4) [OF assms(1), of "day_number z t" t] by simp
  have near: "midnight z (day_number z frm) \<le> ?x"
    using zone_daysD(4) [OF assms(1), of "day_number z frm" ?x] zone_daysD(3) [OF assms(1,4)] day_midnight [OF assms(1), of t] by simp
  have t: "dayStart z t = Some ?x" using dayStart_midnight(1) [OF assms(1,3)] .
  have "\<bar>?x\<bar> \<le> 8640000000000000" using t by (simp add: dayStart_def set_midnight_def TimeClip_def midnight_def day_number_def split: if_splits bind_splits)
  then have "dayStart z ?x = Some ?x"
    using day_midnight [OF assms(1), of t] by (simp add: dayStart_def set_midnight_def TimeClip_def midnight_def [symmetric] day_number_def [symmetric])
  moreover have "(of_int ?x :: num) < to" using le assms(5) by (metis of_int_le_iff order_le_less_trans)
  ultimately show ?thesis using t near by blast
qed


section \<open>Events and links\<close>

text \<open>
  The events of a track are those of the processes that lie in the range and that the mode asks for,
  oldest first; and the link of an instance \<open>pid:start\<close> splits at the colon.
\<close>

theorem lifecycleEvents_complete:
  "let (starts, ends) = lifecycleEvents ps frm to mode in
     sorted_wrt (\<lambda>a b. ev_t a \<le> ev_t b) starts \<and> sorted_wrt (\<lambda>a b. ev_t a \<le> ev_t b) ends
     \<and> mset starts = (if mode = EvOff then {#} else
         {# \<lparr> ev_kind = EvStart, ev_t = lp_firstSeenMs p, ev_proc = p \<rparr>. p \<in># {# p \<in># mset ps. frm \<le> lp_firstSeenMs p \<and> lp_firstSeenMs p < to #} #})
     \<and> mset ends = (if mode \<noteq> EvAll then {#} else
         {# \<lparr> ev_kind = EvEnd, ev_t = the (lp_endedMs p), ev_proc = p \<rparr>. p \<in># {# p \<in># mset ps. \<exists>t. lp_endedMs p = Some t \<and> frm \<le> t \<and> t < to #} #})
     \<and> (CHR '':'' \<notin> set pid \<longrightarrow> processPath (pid @ '':'' @ start) = ''/process/'' @ pid @ ''/'' @ start)"
proof -
  have sorted: "sorted_wrt (\<lambda>a b. ev_t a \<le> ev_t b) (sort_by ev_order es)" for es
    using sorted_by_then [OF sort_by_sorted_wrt [OF comparator_by_then [OF comparator_asc_by comparator_desc_by]]]
    unfolding ev_order_def asc_by_def by blast
  have "mset (concat (map (start_events frm to) ps))
      = {# \<lparr> ev_kind = EvStart, ev_t = lp_firstSeenMs p, ev_proc = p \<rparr>. p \<in># {# p \<in># mset ps. frm \<le> lp_firstSeenMs p \<and> lp_firstSeenMs p < to #} #}"
    by (induction ps) (auto simp: start_events_def in_range_def)
  moreover have "mset (concat (map (end_events frm to mode) ps)) = (if mode \<noteq> EvAll then {#} else
      {# \<lparr> ev_kind = EvEnd, ev_t = the (lp_endedMs p), ev_proc = p \<rparr>. p \<in># {# p \<in># mset ps. \<exists>t. lp_endedMs p = Some t \<and> frm \<le> t \<and> t < to #} #})"
    by (induction ps) (auto simp: end_events_def in_range_def split: option.splits)
  moreover have "CHR '':'' \<notin> set pid \<longrightarrow> processPath (pid @ '':'' @ start) = ''/process/'' @ pid @ ''/'' @ start"
    by (simp add: processPath_def index_of_append)
  ultimately show ?thesis using sorted by (simp add: lifecycleEvents_def)
qed

theorem lifecycleEvents_complete_witness:
  "processPath (''12'' @ '':'' @ ''99'') = ''/process/12/99''"
  using lifecycleEvents_complete [of "[]" 0 0 EvOff "''12''" "''99''"] by (simp add: lifecycleEvents_def)

section \<open>Examples\<close>

definition sample_event :: "num \<Rightarrow> string \<Rightarrow> LifecycleEvent" where
  "sample_event t n = \<lparr> ev_kind = EvStart, ev_t = t, ev_proc = \<lparr> lp_id = ''7:1'', lp_pid = 7, lp_name = n, lp_cmdline = [],
     lp_firstSeenMs = t, lp_endedMs = None, lp_bytes = 10 \<rparr> \<rparr>"

theorem clusterMarkers_readable_witness:
  "map mk_t (clusterMarkers [sample_event 1000 ''a'', sample_event 1003 ''a'', sample_event 1004 ''b''] 1 CLUSTER_PX) = [1002, 1004]
   \<and> list_all (\<lambda>c. mk_items c \<noteq> []) (clusterMarkers [sample_event 1000 ''a'', sample_event 1003 ''a'', sample_event 1004 ''b''] 1 CLUSTER_PX)"
proof -
  let ?es = "[sample_event 1000 ''a'', sample_event 1003 ''a'', sample_event 1004 ''b'']"
  have "sorted_wrt (\<lambda>a b. ev_t a \<le> ev_t b) ?es" "\<forall>e \<in> set ?es. whole_ms (ev_t e) \<and> 0 \<le> ev_t e \<and> 0 \<le> ev_t e \<and> ev_t e < 2000" "?es \<noteq> []"
    by (simp_all add: sample_event_def whole_ms_def)
  from clusterMarkers_readable [OF this, of 1 CLUSTER_PX]
  have "\<forall>c \<in> set (clusterMarkers ?es 1 CLUSTER_PX). mk_items c \<noteq> []" unfolding Let_def by blast
  moreover have "map mk_t (clusterMarkers ?es 1 CLUSTER_PX) = [1002, 1004]" by code_simp
  ultimately show ?thesis by (simp add: list_all_iff)
qed

definition sample_dest :: "string \<Rightarrow> int \<Rightarrow> NewDest" where
  "sample_dest n t = \<lparr> nw_name = n, nw_ip = ''1.1.1.1'', nw_geo = None, nw_port = 443, nw_dest = ''1.1.1.1:443'', nw_app = ''HTTPS'', nw_proto = ''TCP'',
     nw_firstMs = t, nw_firstHourBytes = 1, nw_id = ''7:1'', nw_pid = None, nw_loopback = False, nw_warmup = False \<rparr>"

theorem clusterNewDests_readable_witness:
  "map nc_name (clusterNewDests [sample_dest ''b'' 1004, sample_dest ''a'' 1000, sample_dest ''a'' 1003] 0 2000 1 4) = [Some ''a'', Some ''b'']
   \<and> list_all (\<lambda>c. nc_items c \<noteq> []) (clusterNewDests [sample_dest ''b'' 1004, sample_dest ''a'' 1000, sample_dest ''a'' 1003] 0 2000 1 4)"
proof -
  let ?ds = "[sample_dest ''b'' 1004, sample_dest ''a'' 1000, sample_dest ''a'' 1003]"
  have "\<forall>d \<in> set ?ds. 0 \<le> nw_firstMs d \<and> nw_firstMs d < 2 ^ 52" by (simp add: sample_dest_def)
  from clusterNewDests_readable [OF this, of 0 2000 1 4]
  have "\<forall>c \<in> set (clusterNewDests ?ds 0 2000 1 4). nc_items c \<noteq> []" unfolding Let_def by blast
  moreover have "map nc_name (clusterNewDests ?ds 0 2000 1 4) = [Some ''a'', Some ''b'']" by code_simp
  ultimately show ?thesis by (simp add: list_all_iff)
qed

text \<open>
  A zone that puts its clock forward by an hour at two o'clock of its second day: the hour left out is
  read with the offset before it, as the standard says, and the second day has 23 hours.
\<close>

definition spring_zone :: zone where
  "spring_zone = \<lparr> tz_off = (\<lambda>t. if t < 93600000 then 0 else 3600000), tz_local = (\<lambda>x. if x < 97200000 then 0 else 3600000) \<rparr>"

lemma spring_day_number: "n \<le> day_number spring_zone t \<longleftrightarrow> n * 86400000 \<le> (if t < 93600000 then t else t + 3600000)"
  by (simp add: day_number_def LocalTime_def spring_zone_def DAY_MS_def) linarith

lemma spring_UTC: "UTC_time spring_zone x = (if x < 97200000 then x else x - 3600000)"
  by (simp add: UTC_time_def spring_zone_def)

lemma spring_zone_days: "zone_days spring_zone"
proof -
  have loc: "LocalTime spring_zone t = (if t < 93600000 then t else t + 3600000)" for t by (simp add: LocalTime_def spring_zone_def)
  have "\<bar>tz_off spring_zone t\<bar> < DAY_MS \<and> \<bar>tz_local spring_zone t\<bar> < DAY_MS" for t by (simp add: spring_zone_def DAY_MS_def)
  moreover have "day_number spring_zone t \<le> day_number spring_zone u" if "t \<le> u" for t u
    unfolding day_number_def loc using that by (intro zdiv_mono1) (auto simp: DAY_MS_def)
  moreover have "midnight spring_zone n \<le> t" if "n \<le> day_number spring_zone t" for n t
    using that unfolding spring_day_number midnight_def spring_UTC DAY_MS_def by (auto split: if_splits)
  moreover have "LocalTime spring_zone (midnight spring_zone n) = n * DAY_MS" for n
  proof (cases "n \<le> 1")
    case False
    then have "2 \<le> n" by simp
    then show ?thesis unfolding loc midnight_def spring_UTC DAY_MS_def by auto
  qed (auto simp: loc midnight_def spring_UTC DAY_MS_def)
  then have "morning (LocalTime spring_zone (midnight spring_zone n))" for n by (simp add: morning_def DAY_MS_def)
  moreover have "day_number spring_zone (UTC_time spring_zone x) = x div DAY_MS" for x
  proof (cases "93600000 \<le> x \<and> x < 97200000")
    case True
    then have "x div 86400000 = 1" "(x + 3600000) div 86400000 = 1" by linarith+
    then show ?thesis using True by (simp add: day_number_def loc spring_UTC DAY_MS_def)
  qed (auto simp: day_number_def loc spring_UTC)
  ultimately show ?thesis unfolding zone_days_def by simp
qed



end
