(* ===== verification/ClientSankey.thy ===== *)
theory ClientSankey
  imports ClientBase Org
begin

text \<open>
  \<^verbatim>\<open>web/src/client/charts/buildSankey.ts\<close>: the graph process \<open>\<rightarrow>\<close> application \<open>\<rightarrow>\<close> destination behind the flow
  Sankey, and \<open>asnLabel\<close> of \<^verbatim>\<open>destinations/geoView.ts\<close>. Nodes and links are maps keyed by text, as in the
  code; the rows, which the code rewrites in place in three passes (caps, hairline destinations,
  hairline processes), are a list mapped three times.
\<close>

section \<open>Data\<close>

datatype FlowDir = FTx | FRx | FBoth

datatype NodeKind = NProc | NApp | NDest

record SankeyOptions =
  sk_dir :: FlowDir
  topProcs :: "nat option"
  topDests :: "nat option"
  minShare :: "num option"
  byAsn :: "bool option"

record SankeyNode =
  kn_id :: string
  kn_label :: string
  kn_depth :: nat
  kn_kind :: NodeKind
  kn_bucket :: bool
  kn_value :: num
  kn_tx :: num
  kn_rx :: num
  kn_target :: "string option"
  kn_asn :: "int option"

record SankeyLink =
  kl_source :: string
  kl_target :: string
  kl_value :: num
  kl_tx :: num
  kl_rx :: num

record SankeyGraph =
  sg_nodes :: "SankeyNode list"
  sg_links :: "SankeyLink list"
  sg_total :: num

record Row =
  rw_proc :: string
  rw_app :: string
  rw_appLabel :: string
  rw_dest :: string
  rw_value :: num
  rw_tx :: num
  rw_rx :: num
  rw_name :: string
  rw_id :: string
  rw_destTarget :: "string option"
  rw_destLabel :: "string option"
  rw_asn :: "int option"

definition OTHER_PROCS :: string where "OTHER_PROCS = ''p*other''"
definition UNKNOWN_PEER :: string where "UNKNOWN_PEER = ''d*unknown''"

definition otherDest :: "string \<Rightarrow> string" where
  "otherDest appLabel = ''d*other:'' @ appLabel"

definition isUnknownPeer :: "string \<Rightarrow> nat \<Rightarrow> bool" where
  "isUnknownPeer ip port \<longleftrightarrow> port = 0 \<and> (ip = [] \<or> ip = ''0.0.0.0'' \<or> ip = ''::'')"

definition destKey :: "string \<Rightarrow> nat \<Rightarrow> string" where
  "destKey ip port = (if CHR '':'' \<in> set ip then ''['' @ ip @ '']:'' @ string_of_nat port else ip @ '':'' @ string_of_nat port)"

text \<open>The label of a network.\<close>

definition asnLabel :: "Geo \<Rightarrow> string" where
  "asnLabel g = ''AS'' @ show_int (asn g) @ '' '' @ shortOrg (org g)"

section \<open>Rows\<close>

text \<open>\<open>m.set(k, (m.get(k) ?? 0) + v)\<close>.\<close>

definition add_value :: "num option \<Rightarrow> num \<Rightarrow> num" where
  "add_value v x = fadd (case v of Some y \<Rightarrow> y | None \<Rightarrow> 0) x"

definition topKeys :: "(string, num) jsmap \<Rightarrow> nat \<Rightarrow> string list" where
  "topKeys m n = map fst (take n (sort_by (by_then (desc_by snd) (str_asc fst)) m))"

definition flow_pick :: "FlowDir \<Rightarrow> FlowAgg \<Rightarrow> num" where
  "flow_pick dir f = (case dir of FTx \<Rightarrow> g_tx f | FRx \<Rightarrow> g_rx f | FBoth \<Rightarrow> fadd (g_tx f) (g_rx f))"

text \<open>The transports each application appears over, of the flows with traffic.\<close>

definition app_protos :: "FlowDir \<Rightarrow> FlowAgg list \<Rightarrow> (string, string list) jsmap" where
  "app_protos dir fls = accum g_app (\<lambda>v f. let s = (case v of Some s \<Rightarrow> s | None \<Rightarrow> []) in if g_proto f \<in> set s then s else s @ [g_proto f])
     (filter (\<lambda>f. flow_pick dir f > 0) fls) []"

definition app_label :: "(string, string list) jsmap \<Rightarrow> FlowAgg \<Rightarrow> string" where
  "app_label protos f = (case map_get protos (g_app f) of
       Some s \<Rightarrow> if length s > 1 then g_app f @ ''/'' @ g_proto f else g_app f
     | None \<Rightarrow> g_app f)"

definition sankey_row :: "FlowDir \<Rightarrow> bool \<Rightarrow> (string, string list) jsmap \<Rightarrow> FlowAgg \<Rightarrow> Row" where
  "sankey_row dir as protos f =
     (let label = app_label protos f; unknown = isUnknownPeer (g_ip f) (g_rport f); key = destKey (g_ip f) (g_rport f);
          a = (if as \<and> \<not> unknown then map_option asn (g_geo f) else None)
      in \<lparr> rw_proc = ''p:'' @ g_name f, rw_app = ''a:'' @ label, rw_appLabel = label,
           rw_dest = (if unknown then UNKNOWN_PEER else case a of Some n \<Rightarrow> ''d:AS'' @ show_int n | None \<Rightarrow> ''d:'' @ key),
           rw_value = flow_pick dir f,
           rw_tx = (if dir = FRx then 0 else g_tx f), rw_rx = (if dir = FTx then 0 else g_rx f),
           rw_name = g_name f, rw_id = g_id f,
           rw_destTarget = (if \<not> unknown \<and> a = None then Some key else None),
           rw_destLabel = (case a of Some n \<Rightarrow> map_option asnLabel (g_geo f)
             | None \<Rightarrow> if unknown then None else Some (orgDestLabel (g_geo f) key)),
           rw_asn = a \<rparr>)"

definition sankey_rows :: "FlowDir \<Rightarrow> bool \<Rightarrow> FlowAgg list \<Rightarrow> Row list" where
  "sankey_rows dir as fls = map (sankey_row dir as (app_protos dir fls)) (filter (\<lambda>f. flow_pick dir f > 0) fls)"

definition value_sums :: "(Row \<Rightarrow> string) \<Rightarrow> Row list \<Rightarrow> (string, num) jsmap" where
  "value_sums key rows = accum key (\<lambda>v r. add_value v (rw_value r)) rows []"

definition cap_row :: "string list \<Rightarrow> string list \<Rightarrow> Row \<Rightarrow> Row" where
  "cap_row keptProcs keptDests r =
     r\<lparr> rw_proc := (if rw_proc r \<in> set keptProcs then rw_proc r else OTHER_PROCS),
        rw_dest := (if rw_dest r \<in> set keptDests then rw_dest r else otherDest (rw_appLabel r)) \<rparr>"

definition cap_rows :: "nat \<Rightarrow> nat \<Rightarrow> Row list \<Rightarrow> Row list" where
  "cap_rows np nd rows = map (cap_row (topKeys (value_sums rw_proc rows) np) (topKeys (value_sums rw_dest rows) nd)) rows"

definition link_key :: "string \<Rightarrow> string \<Rightarrow> string" where
  "link_key s t = s @ [CHR 0x00] @ t"

definition linkSums :: "(Row \<Rightarrow> string) \<Rightarrow> (Row \<Rightarrow> string) \<Rightarrow> Row list \<Rightarrow> (string, num) jsmap" where
  "linkSums src dst rows = value_sums (\<lambda>r. link_key (src r) (dst r)) rows"

definition below :: "(string, num) jsmap \<Rightarrow> string \<Rightarrow> num \<Rightarrow> bool" where
  "below m k mn \<longleftrightarrow> (case map_get m k of Some v \<Rightarrow> v < mn | None \<Rightarrow> False)"

definition fold_dests :: "num \<Rightarrow> Row list \<Rightarrow> Row list" where
  "fold_dests mn rows = (let m = linkSums rw_app rw_dest rows in
     map (\<lambda>r. if starts_with ''d:'' (rw_dest r) \<and> below m (link_key (rw_app r) (rw_dest r)) mn
              then r\<lparr> rw_dest := otherDest (rw_appLabel r) \<rparr> else r) rows)"

definition fold_procs :: "num \<Rightarrow> Row list \<Rightarrow> Row list" where
  "fold_procs mn rows = (let m = linkSums rw_proc rw_app rows in
     map (\<lambda>r. if rw_proc r \<noteq> OTHER_PROCS \<and> below m (link_key (rw_proc r) (rw_app r)) mn
              then r\<lparr> rw_proc := OTHER_PROCS \<rparr> else r) rows)"

section \<open>Nodes and links\<close>

type_synonym nodes = "(string, SankeyNode) jsmap"
type_synonym links = "(string, SankeyLink) jsmap"

definition plain_node :: "string \<Rightarrow> string \<Rightarrow> nat \<Rightarrow> NodeKind \<Rightarrow> bool \<Rightarrow> SankeyNode" where
  "plain_node i l d k b = \<lparr> kn_id = i, kn_label = l, kn_depth = d, kn_kind = k, kn_bucket = b,
     kn_value = 0, kn_tx = 0, kn_rx = 0, kn_target = None, kn_asn = None \<rparr>"

definition proc_node :: "Row \<Rightarrow> SankeyNode" where
  "proc_node r = (if rw_proc r = OTHER_PROCS then plain_node (rw_proc r) ''other processes'' 0 NProc True
     else plain_node (rw_proc r) (rw_name r) 0 NProc False)"

definition app_node :: "Row \<Rightarrow> SankeyNode" where
  "app_node r = plain_node (rw_app r) (rw_appLabel r) 1 NApp False"

definition dest_node :: "Row \<Rightarrow> SankeyNode" where
  "dest_node r =
     (let label = (case rw_destLabel r of Some l \<Rightarrow> l | None \<Rightarrow> [])
      in if rw_dest r = UNKNOWN_PEER then plain_node (rw_dest r) ''unknown peer'' 2 NDest True
         else if starts_with ''d*'' (rw_dest r) then plain_node (rw_dest r) (''other ('' @ rw_appLabel r @ '')'') 2 NDest True
         else case rw_asn r of
             Some a \<Rightarrow> (plain_node (rw_dest r) label 2 NDest False)\<lparr> kn_asn := Some a \<rparr>
           | None \<Rightarrow> (plain_node (rw_dest r) label 2 NDest False)\<lparr> kn_target := rw_destTarget r \<rparr>)"

definition node_add :: "string \<Rightarrow> SankeyNode \<Rightarrow> Row \<Rightarrow> nodes \<Rightarrow> nodes" where
  "node_add i ini r m = (let n = (case map_get m i of Some n \<Rightarrow> n | None \<Rightarrow> ini)
     in map_set i (n\<lparr> kn_value := fadd (kn_value n) (rw_value r), kn_tx := fadd (kn_tx n) (rw_tx r), kn_rx := fadd (kn_rx n) (rw_rx r) \<rparr>) m)"

definition link_add :: "string \<Rightarrow> string \<Rightarrow> Row \<Rightarrow> links \<Rightarrow> links" where
  "link_add s t r m = (let k = link_key s t;
       l = (case map_get m k of Some l \<Rightarrow> l | None \<Rightarrow> \<lparr> kl_source = s, kl_target = t, kl_value = 0, kl_tx = 0, kl_rx = 0 \<rparr>)
     in map_set k (l\<lparr> kl_value := fadd (kl_value l) (rw_value r), kl_tx := fadd (kl_tx l) (rw_tx r), kl_rx := fadd (kl_rx l) (rw_rx r) \<rparr>) m)"

record sankey_acc =
  sa_nodes :: nodes
  sa_links :: links
  sa_instances :: "(string, (string, num) jsmap) jsmap"

definition instance_add :: "Row \<Rightarrow> (string, (string, num) jsmap) jsmap \<Rightarrow> (string, (string, num) jsmap) jsmap" where
  "instance_add r m = (if rw_proc r \<noteq> OTHER_PROCS \<and> rw_id r \<noteq> []
     then let ids = (case map_get m (rw_proc r) of Some ids \<Rightarrow> ids | None \<Rightarrow> [])
          in map_set (rw_proc r) (map_set (rw_id r) (add_value (map_get ids (rw_id r)) (rw_value r)) ids) m
     else m)"

definition sankey_step :: "Row \<Rightarrow> sankey_acc \<Rightarrow> sankey_acc" where
  "sankey_step r a = \<lparr>
     sa_nodes = node_add (rw_dest r) (dest_node r) r (node_add (rw_app r) (app_node r) r (node_add (rw_proc r) (proc_node r) r (sa_nodes a))),
     sa_links = link_add (rw_app r) (rw_dest r) r (link_add (rw_proc r) (rw_app r) r (sa_links a)),
     sa_instances = instance_add r (sa_instances a) \<rparr>"

definition busier :: "string \<times> num \<Rightarrow> num \<times> string option \<Rightarrow> num \<times> string option" where
  "busier p s = (let (i, v) = p; (best, t) = s in
     if v > best \<or> v = best \<and> str_less i (case t of Some t \<Rightarrow> t | None \<Rightarrow> []) then (v, Some i) else s)"

definition set_target :: "string \<times> (string, num) jsmap \<Rightarrow> nodes \<Rightarrow> nodes" where
  "set_target p m = (case map_get m (fst p) of
       Some n \<Rightarrow> map_set (fst p) (n\<lparr> kn_target := snd (fold busier (snd p) (-1, kn_target n)) \<rparr>) m
     | None \<Rightarrow> m)"

section \<open>Order\<close>

definition appOrder :: "nodes \<Rightarrow> (string, nat) jsmap" where
  "appOrder m = (let apps = sort_by (str_asc kn_label) (filter (\<lambda>n. kn_kind n = NApp) (map snd m))
     in zip (map kn_id apps) [0..<length apps])"

definition order_of :: "(string, nat) jsmap \<Rightarrow> string \<Rightarrow> nat" where
  "order_of order app = (case map_get order app of Some i \<Rightarrow> i | None \<Rightarrow> 0)"

definition main_step :: "(string, nat) jsmap \<Rightarrow> SankeyLink \<Rightarrow> (string, string \<times> num) jsmap \<Rightarrow> (string, string \<times> num) jsmap" where
  "main_step order l m =
     (let (other, app) = (if map_get order (kl_target l) \<noteq> None then (kl_source l, kl_target l) else (kl_target l, kl_source l))
      in if (case map_get m other of None \<Rightarrow> True
             | Some (app', v) \<Rightarrow> kl_value l > v \<or> kl_value l = v \<and> order_of order app < order_of order app')
         then map_set other (app, kl_value l) m else m)"

definition node_group :: "(string, nat) jsmap \<Rightarrow> (string, string \<times> num) jsmap \<Rightarrow> SankeyNode \<Rightarrow> nat" where
  "node_group order main n = (if kn_kind n = NApp then 0
     else case map_get main (kn_id n) of Some (app, _) \<Rightarrow> order_of order app | None \<Rightarrow> 0)"

definition node_order :: "(string, nat) jsmap \<Rightarrow> (string, string \<times> num) jsmap \<Rightarrow> SankeyNode \<Rightarrow> SankeyNode \<Rightarrow> bool" where
  "node_order order main = by_then (asc_by kn_depth) (by_then (asc_by (node_group order main))
     (by_then (asc_by kn_bucket) (by_then (str_asc kn_label) (str_asc kn_id))))"

definition link_order :: "SankeyLink \<Rightarrow> SankeyLink \<Rightarrow> bool" where
  "link_order = by_then (str_asc kl_source) (str_asc kl_target)"

definition or_default :: "'a \<Rightarrow> 'a option \<Rightarrow> 'a" where
  "or_default d x = (case x of Some y \<Rightarrow> y | None \<Rightarrow> d)"

definition final_rows :: "FlowAgg list \<Rightarrow> SankeyOptions \<Rightarrow> Row list" where
  "final_rows fls opts =
     (let rows = sankey_rows (sk_dir opts) (or_default False (byAsn opts)) fls;
          mn = fmul (fsum (map rw_value rows)) (or_default (fl (5 / 1000)) (minShare opts))
      in fold_procs mn (fold_dests mn (cap_rows (or_default 10 (topProcs opts)) (or_default 15 (topDests opts)) rows)))"

definition buildSankey :: "FlowAgg list \<Rightarrow> SankeyOptions \<Rightarrow> SankeyGraph" where
  "buildSankey fls opts =
     (let a = fold sankey_step (final_rows fls opts) \<lparr> sa_nodes = [], sa_links = [], sa_instances = [] \<rparr>;
          nodes = fold set_target (sa_instances a) (sa_nodes a);
          order = appOrder nodes;
          main = fold (main_step order) (map snd (sa_links a)) []
      in \<lparr> sg_nodes = sort_by (node_order order main) (map snd nodes),
           sg_links = sort_by link_order (map snd (sa_links a)),
           sg_total = fsum (map rw_value (sankey_rows (sk_dir opts) (or_default False (byAsn opts)) fls)) \<rparr>)"

section \<open>The loop as three accumulations\<close>

type_synonym node_item = "string \<times> SankeyNode \<times> Row"

definition node_items :: "Row list \<Rightarrow> node_item list" where
  "node_items rows = concat (map (\<lambda>r. [(rw_proc r, proc_node r, r), (rw_app r, app_node r, r), (rw_dest r, dest_node r, r)]) rows)"

definition link_items :: "Row list \<Rightarrow> (string \<times> string \<times> Row) list" where
  "link_items rows = concat (map (\<lambda>r. [(rw_proc r, rw_app r, r), (rw_app r, rw_dest r, r)]) rows)"

definition upd_node :: "SankeyNode option \<Rightarrow> node_item \<Rightarrow> SankeyNode" where
  "upd_node v x = (case x of (_, ini, r) \<Rightarrow> let n = or_default ini v
     in n\<lparr> kn_value := fadd (kn_value n) (rw_value r), kn_tx := fadd (kn_tx n) (rw_tx r), kn_rx := fadd (kn_rx n) (rw_rx r) \<rparr>)"

definition upd_link :: "SankeyLink option \<Rightarrow> string \<times> string \<times> Row \<Rightarrow> SankeyLink" where
  "upd_link v x = (case x of (s, t, r) \<Rightarrow> let l = or_default \<lparr> kl_source = s, kl_target = t, kl_value = 0, kl_tx = 0, kl_rx = 0 \<rparr> v
     in l\<lparr> kl_value := fadd (kl_value l) (rw_value r), kl_tx := fadd (kl_tx l) (rw_tx r), kl_rx := fadd (kl_rx l) (rw_rx r) \<rparr>)"

abbreviation item_key :: "string \<times> string \<times> Row \<Rightarrow> string" where
  "item_key x \<equiv> link_key (fst x) (fst (snd x))"

lemma node_add_accum: "node_add i ini r m = accum fst upd_node [(i, ini, r)] m"
  by (simp add: node_add_def upd_node_def or_default_def Let_def)

lemma link_add_accum: "link_add s t r m = accum item_key upd_link [(s, t, r)] m"
  by (simp add: link_add_def upd_link_def or_default_def Let_def)

lemma accum_append: "accum key upd (xs @ ys) m = accum key upd ys (accum key upd xs m)"
  by (simp add: accum_def)

lemma sankey_fold:
  "sa_nodes (fold sankey_step rows a) = accum fst upd_node (node_items rows) (sa_nodes a)"
  "sa_links (fold sankey_step rows a) = accum item_key upd_link (link_items rows) (sa_links a)"
proof (induction rows arbitrary: a)
  case (Cons r rows)
  {
    case 1
    show ?case using Cons.IH(1) [of "sankey_step r a"]
      by (simp add: node_items_def accum_append sankey_step_def node_add_accum)
  next
    case 2
    show ?case using Cons.IH(2) [of "sankey_step r a"]
      by (simp add: link_items_def accum_append sankey_step_def link_add_accum)
  }
qed (simp_all add: node_items_def link_items_def)

text \<open>What one key holds: the start of its first item, with the sums of all its items.\<close>

lemma upd_node_fold:
  "foldl (\<lambda>v. upd_node (Some v)) n xs = n\<lparr> kn_value := foldl fadd (kn_value n) (map (\<lambda>x. rw_value (snd (snd x))) xs),
     kn_tx := foldl fadd (kn_tx n) (map (\<lambda>x. rw_tx (snd (snd x))) xs), kn_rx := foldl fadd (kn_rx n) (map (\<lambda>x. rw_rx (snd (snd x))) xs) \<rparr>"
  by (induction xs arbitrary: n) (auto simp: upd_node_def or_default_def Let_def)

lemma upd_link_fold:
  "foldl (\<lambda>v. upd_link (Some v)) n xs = n\<lparr> kl_value := foldl fadd (kl_value n) (map (\<lambda>x. rw_value (snd (snd x))) xs),
     kl_tx := foldl fadd (kl_tx n) (map (\<lambda>x. rw_tx (snd (snd x))) xs), kl_rx := foldl fadd (kl_rx n) (map (\<lambda>x. rw_rx (snd (snd x))) xs) \<rparr>"
  by (induction xs arbitrary: n) (auto simp: upd_link_def or_default_def Let_def)

lemma in_links:
  "(k, l) \<in> set (accum item_key upd_link xs []) \<longleftrightarrow>
   (\<exists>x ys. filter (\<lambda>x. item_key x = k) xs = x # ys \<and> l = \<lparr> kl_source = fst x, kl_target = fst (snd x),
      kl_value = fsum (map (\<lambda>x. rw_value (snd (snd x))) (x # ys)),
      kl_tx = fsum (map (\<lambda>x. rw_tx (snd (snd x))) (x # ys)), kl_rx = fsum (map (\<lambda>x. rw_rx (snd (snd x))) (x # ys)) \<rparr>)"
  unfolding in_accum_iff foldl_None upd_link_fold
  by (auto simp: upd_link_def or_default_def fsum_def Let_def split: list.splits)

text \<open>A start of a node: no traffic yet.\<close>

definition fresh_node :: "SankeyNode \<Rightarrow> bool" where
  "fresh_node n \<longleftrightarrow> kn_value n = 0 \<and> kn_tx n = 0 \<and> kn_rx n = 0"

lemma fresh_nodes [simp]: "fresh_node (proc_node r)" "fresh_node (app_node r)" "fresh_node (dest_node r)"
  by (simp_all add: fresh_node_def proc_node_def app_node_def dest_node_def plain_node_def Let_def split: option.split)

lemma in_nodes:
  assumes "\<forall>x \<in> set xs. fresh_node (fst (snd x))"
  shows "(k, n) \<in> set (accum fst upd_node xs []) \<longleftrightarrow>
   (\<exists>x ys. filter (\<lambda>x. fst x = k) xs = x # ys \<and> n = (fst (snd x))\<lparr> kn_value := fsum (map (\<lambda>x. rw_value (snd (snd x))) (x # ys)),
      kn_tx := fsum (map (\<lambda>x. rw_tx (snd (snd x))) (x # ys)), kn_rx := fsum (map (\<lambda>x. rw_rx (snd (snd x))) (x # ys)) \<rparr>)"
proof -
  have "fresh_node (fst (snd x))" if "filter (\<lambda>x. fst x = k) xs = x # ys" for x ys
    using assms that by (metis filter_eq_ConsD in_set_conv_decomp)
  then show ?thesis unfolding in_accum_iff foldl_None upd_node_fold
    by (auto simp: upd_node_def or_default_def fsum_def fresh_node_def Let_def split: list.splits)
qed

section \<open>The three layers\<close>

text \<open>
  The shape of the rows: ids of the three layers start with different letters, so no two layers
  share an id, and process and application ids have no NUL, the separator of link keys.
\<close>

definition no_nul :: "string \<Rightarrow> bool" where
  "no_nul s \<longleftrightarrow> CHR 0x00 \<notin> set s"

definition row_ok :: "Row \<Rightarrow> bool" where
  "row_ok r \<longleftrightarrow> rw_app r = ''a:'' @ rw_appLabel r \<and> (rw_proc r = OTHER_PROCS \<or> rw_proc r = ''p:'' @ rw_name r)
     \<and> (rw_dest r = UNKNOWN_PEER \<or> rw_dest r = otherDest (rw_appLabel r) \<or> starts_with ''d:'' (rw_dest r))
     \<and> no_nul (rw_app r) \<and> no_nul (rw_proc r)"

lemma starts_with_hd: "starts_with (c # p) s \<Longrightarrow> hd s = c"
  by (cases s) (simp_all add: starts_with_def)

lemma row_ok_heads:
  assumes "row_ok r" shows "hd (rw_proc r) = CHR ''p''" "hd (rw_app r) = CHR ''a''" "hd (rw_dest r) = CHR ''d''"
  using assms by (auto simp: row_ok_def OTHER_PROCS_def UNKNOWN_PEER_def otherDest_def dest: starts_with_hd)

lemma row_ok_no_nul: "row_ok r \<Longrightarrow> no_nul (rw_proc r)" "row_ok r \<Longrightarrow> no_nul (rw_app r)"
  unfolding row_ok_def by blast+

lemma link_key_inj: "no_nul s \<Longrightarrow> no_nul s' \<Longrightarrow> link_key s t = link_key s' t' \<longleftrightarrow> s = s' \<and> t = t'"
proof -
  assume "no_nul s" "no_nul s'"
  then have "hd (split_char (CHR 0x00) (link_key s t)) = s" "hd (split_char (CHR 0x00) (link_key s' t')) = s'"
    by (simp_all add: link_key_def no_nul_def split_char_append)
  then show ?thesis by (auto simp: link_key_def)
qed

lemma filter_concat_single:
  assumes "\<And>r. r \<in> set rows \<Longrightarrow> filter P' (f r) = (if Q r then [g r] else [])"
  shows "filter P' (concat (map f rows)) = map g (filter Q rows)"
  using assms by (induction rows) auto

lemma node_items_filter:
  assumes "\<forall>r \<in> set rows. row_ok r"
  shows "hd k = CHR ''p'' \<Longrightarrow> filter (\<lambda>x. fst x = k) (node_items rows) = map (\<lambda>r. (rw_proc r, proc_node r, r)) (filter (\<lambda>r. rw_proc r = k) rows)"
    and "hd k = CHR ''a'' \<Longrightarrow> filter (\<lambda>x. fst x = k) (node_items rows) = map (\<lambda>r. (rw_app r, app_node r, r)) (filter (\<lambda>r. rw_app r = k) rows)"
    and "hd k = CHR ''d'' \<Longrightarrow> filter (\<lambda>x. fst x = k) (node_items rows) = map (\<lambda>r. (rw_dest r, dest_node r, r)) (filter (\<lambda>r. rw_dest r = k) rows)"
proof -
  have ok: "row_ok r" if "r \<in> set rows" for r using assms that by blast
  show "filter (\<lambda>x. fst x = k) (node_items rows) = map (\<lambda>r. (rw_proc r, proc_node r, r)) (filter (\<lambda>r. rw_proc r = k) rows)" if "hd k = CHR ''p''"
    unfolding node_items_def by (rule filter_concat_single) (use that row_ok_heads [OF ok] in auto)
  show "filter (\<lambda>x. fst x = k) (node_items rows) = map (\<lambda>r. (rw_app r, app_node r, r)) (filter (\<lambda>r. rw_app r = k) rows)" if "hd k = CHR ''a''"
    unfolding node_items_def by (rule filter_concat_single) (use that row_ok_heads [OF ok] in auto)
  show "filter (\<lambda>x. fst x = k) (node_items rows) = map (\<lambda>r. (rw_dest r, dest_node r, r)) (filter (\<lambda>r. rw_dest r = k) rows)" if "hd k = CHR ''d''"
    unfolding node_items_def by (rule filter_concat_single) (use that row_ok_heads [OF ok] in auto)
qed

lemma link_items_filter:
  assumes "\<forall>r \<in> set rows. row_ok r" and "no_nul s"
  shows "hd s = CHR ''p'' \<Longrightarrow> filter (\<lambda>x. item_key x = link_key s t) (link_items rows) = map (\<lambda>r. (rw_proc r, rw_app r, r)) (filter (\<lambda>r. rw_proc r = s \<and> rw_app r = t) rows)"
    and "hd s = CHR ''a'' \<Longrightarrow> filter (\<lambda>x. item_key x = link_key s t) (link_items rows) = map (\<lambda>r. (rw_app r, rw_dest r, r)) (filter (\<lambda>r. rw_app r = s \<and> rw_dest r = t) rows)"
proof -
  have ok: "row_ok r" if "r \<in> set rows" for r using assms that by blast
  have inj: "link_key (rw_proc r) x = link_key s t \<longleftrightarrow> rw_proc r = s \<and> x = t"
    "link_key (rw_app r) x = link_key s t \<longleftrightarrow> rw_app r = s \<and> x = t" if "r \<in> set rows" for r x
    using row_ok_no_nul [OF ok [OF that]] assms(2) by (auto simp: link_key_inj)
  show "filter (\<lambda>x. item_key x = link_key s t) (link_items rows) = map (\<lambda>r. (rw_proc r, rw_app r, r)) (filter (\<lambda>r. rw_proc r = s \<and> rw_app r = t) rows)"
    if "hd s = CHR ''p''"
  proof -
    have "(link_key (rw_app r) (rw_dest r) = link_key s t) = False" if "r \<in> set rows" for r
    proof -
      have "rw_app r \<noteq> s" using row_ok_heads(2) [OF ok [OF that]] \<open>hd s = CHR ''p''\<close> by auto
      then show ?thesis unfolding inj(2) [OF that] by blast
    qed
    then show ?thesis unfolding link_items_def by (intro filter_concat_single) (simp only: filter.simps fst_conv snd_conv inj(1) if_False)
  qed
  show "filter (\<lambda>x. item_key x = link_key s t) (link_items rows) = map (\<lambda>r. (rw_app r, rw_dest r, r)) (filter (\<lambda>r. rw_app r = s \<and> rw_dest r = t) rows)"
    if "hd s = CHR ''a''"
  proof -
    have "(link_key (rw_proc r) (rw_app r) = link_key s t) = False" if "r \<in> set rows" for r
    proof -
      have "rw_proc r \<noteq> s" using row_ok_heads(1) [OF ok [OF that]] \<open>hd s = CHR ''a''\<close> by auto
      then show ?thesis unfolding inj(1) [OF that] by blast
    qed
    then show ?thesis unfolding link_items_def by (intro filter_concat_single) (simp only: filter.simps fst_conv snd_conv inj(2) if_False)
  qed
qed

definition node_layers :: "((Row \<Rightarrow> string) \<times> (Row \<Rightarrow> SankeyNode)) list" where
  "node_layers = [(rw_proc, proc_node), (rw_app, app_node), (rw_dest, dest_node)]"

definition link_layers :: "((Row \<Rightarrow> string) \<times> (Row \<Rightarrow> string)) list" where
  "link_layers = [(rw_proc, rw_app), (rw_app, rw_dest)]"

lemma sankey_nodes:
  assumes "\<forall>r \<in> set rows. row_ok r"
  shows "(k, n) \<in> set (accum fst upd_node (node_items rows) []) \<longleftrightarrow>
    (\<exists>(sel, ini) \<in> set node_layers. \<exists>r rs. filter (\<lambda>r. sel r = k) rows = r # rs
      \<and> n = (ini r)\<lparr> kn_value := fsum (map rw_value (r # rs)), kn_tx := fsum (map rw_tx (r # rs)), kn_rx := fsum (map rw_rx (r # rs)) \<rparr>)"
    (is "_ \<longleftrightarrow> ?R")
proof -
  have fresh: "\<forall>x \<in> set (node_items rows). fresh_node (fst (snd x))" by (auto simp: node_items_def)
  have none: "filter (\<lambda>r. rw_proc r = k) rows = []" if "hd k \<noteq> CHR ''p''" using assms that by (auto simp: filter_empty_conv dest: row_ok_heads)
  have noneA: "filter (\<lambda>r. rw_app r = k) rows = []" if "hd k \<noteq> CHR ''a''" using assms that by (auto simp: filter_empty_conv dest: row_ok_heads)
  have noneD: "filter (\<lambda>r. rw_dest r = k) rows = []" if "hd k \<noteq> CHR ''d''" using assms that by (auto simp: filter_empty_conv dest: row_ok_heads)
  have no: "filter (\<lambda>x. fst x = k) (node_items rows) = []" if "hd k \<noteq> CHR ''p''" "hd k \<noteq> CHR ''a''" "hd k \<noteq> CHR ''d''"
    using assms that by (auto simp: filter_empty_conv node_items_def dest: row_ok_heads)
  consider "hd k = CHR ''p''" | "hd k = CHR ''a''" | "hd k = CHR ''d''" | "hd k \<noteq> CHR ''p''" "hd k \<noteq> CHR ''a''" "hd k \<noteq> CHR ''d''" by blast
  then show ?thesis
  proof cases
    case 1
    then show ?thesis unfolding in_nodes [OF fresh] node_items_filter(1) [OF assms 1]
      by (auto simp: node_layers_def map_eq_Cons_conv noneA noneD comp_def)
  next
    case 2
    then show ?thesis unfolding in_nodes [OF fresh] node_items_filter(2) [OF assms 2]
      by (auto simp: node_layers_def map_eq_Cons_conv none noneD comp_def)
  next
    case 3
    then show ?thesis unfolding in_nodes [OF fresh] node_items_filter(3) [OF assms 3]
      by (auto simp: node_layers_def map_eq_Cons_conv none noneA comp_def)
  next
    case 4
    then show ?thesis unfolding in_nodes [OF fresh] no [OF 4] by (auto simp: node_layers_def none noneA noneD)
  qed
qed

lemma sankey_links:
  assumes "\<forall>r \<in> set rows. row_ok r"
  shows "(k, l) \<in> set (accum item_key upd_link (link_items rows) []) \<longleftrightarrow>
    (\<exists>(src, dst) \<in> set link_layers. \<exists>r rs. filter (\<lambda>r. src r = kl_source l \<and> dst r = kl_target l) rows = r # rs
      \<and> k = link_key (kl_source l) (kl_target l)
      \<and> l = \<lparr> kl_source = src r, kl_target = dst r, kl_value = fsum (map rw_value (r # rs)), kl_tx = fsum (map rw_tx (r # rs)), kl_rx = fsum (map rw_rx (r # rs)) \<rparr>)"
    (is "?L \<longleftrightarrow> ?R")
proof
  assume ?L
  then obtain x ys where x: "filter (\<lambda>x. item_key x = k) (link_items rows) = x # ys" and
    l: "l = \<lparr> kl_source = fst x, kl_target = fst (snd x), kl_value = fsum (map (\<lambda>x. rw_value (snd (snd x))) (x # ys)),
      kl_tx = fsum (map (\<lambda>x. rw_tx (snd (snd x))) (x # ys)), kl_rx = fsum (map (\<lambda>x. rw_rx (snd (snd x))) (x # ys)) \<rparr>"
    unfolding in_links by blast
  have "x \<in> set (filter (\<lambda>x. item_key x = k) (link_items rows))" by (simp add: x)
  then obtain r where r: "r \<in> set rows" "x = (rw_proc r, rw_app r, r) \<or> x = (rw_app r, rw_dest r, r)" and k: "k = item_key x"
    by (auto simp: link_items_def)
  have ok: "row_ok r" using assms r by blast
  note F = link_items_filter(1) [OF assms row_ok_no_nul(1) [OF ok] row_ok_heads(1) [OF ok], where t = "rw_app r"]
    link_items_filter(2) [OF assms row_ok_no_nul(2) [OF ok] row_ok_heads(2) [OF ok], where t = "rw_dest r"]
  from r(2) show ?R
  proof
    assume e: "x = (rw_proc r, rw_app r, r)"
    then obtain rs where "filter (\<lambda>q. rw_proc q = rw_proc r \<and> rw_app q = rw_app r) rows = r # rs" "ys = map (\<lambda>r. (rw_proc r, rw_app r, r)) rs"
      using x F(1) k by (auto simp: Cons_eq_map_conv)
    then show ?thesis using l e k by (auto simp: link_layers_def comp_def)
  next
    assume e: "x = (rw_app r, rw_dest r, r)"
    then obtain rs where "filter (\<lambda>q. rw_app q = rw_app r \<and> rw_dest q = rw_dest r) rows = r # rs" "ys = map (\<lambda>r. (rw_app r, rw_dest r, r)) rs"
      using x F(2) k by (auto simp: Cons_eq_map_conv)
    then show ?thesis using l e k by (auto simp: link_layers_def comp_def)
  qed
next
  assume ?R
  then obtain src dst r rs where sd: "(src, dst) \<in> set link_layers" and f: "filter (\<lambda>r. src r = kl_source l \<and> dst r = kl_target l) rows = r # rs"
    and k: "k = link_key (kl_source l) (kl_target l)"
    and l: "l = \<lparr> kl_source = src r, kl_target = dst r, kl_value = fsum (map rw_value (r # rs)), kl_tx = fsum (map rw_tx (r # rs)), kl_rx = fsum (map rw_rx (r # rs)) \<rparr>"
    by blast
  have "r \<in> set (filter (\<lambda>r. src r = kl_source l \<and> dst r = kl_target l) rows)" by (simp add: f)
  then have ok: "row_ok r" using assms by simp
  note F = link_items_filter(1) [OF assms row_ok_no_nul(1) [OF ok] row_ok_heads(1) [OF ok], where t = "rw_app r"]
    link_items_filter(2) [OF assms row_ok_no_nul(2) [OF ok] row_ok_heads(2) [OF ok], where t = "rw_dest r"]
  have kl: "kl_source l = src r" "kl_target l = dst r" by (simp_all add: l)
  have "filter (\<lambda>x. item_key x = k) (link_items rows) = map (\<lambda>r. (src r, dst r, r)) (r # rs)"
    using sd F f unfolding k kl by (auto simp: link_layers_def)
  then show ?L unfolding in_links by (simp add: l comp_def)
qed

section \<open>Sums over nodes and links\<close>

lemma links_sum:
  assumes ok: "\<forall>r \<in> set rows. row_ok r" and sd: "(src, dst) \<in> set link_layers"
    and exact: "\<And>P'. fsum (map rw_value (filter P' rows)) = (\<Sum>r \<leftarrow> filter P' rows. rw_value r)"
    and only: "\<And>src' dst' r. (src', dst') \<in> set link_layers \<Longrightarrow> r \<in> set rows \<Longrightarrow> Q (src' r) (dst' r) \<Longrightarrow> src' = src \<and> dst' = dst"
  shows "(\<Sum>l \<leftarrow> filter (\<lambda>l. Q (kl_source l) (kl_target l)) (map snd (accum item_key upd_link (link_items rows) [])). kl_value l)
    = (\<Sum>r \<leftarrow> filter (\<lambda>r. Q (src r) (dst r)) rows. rw_value r)"
proof -
  let ?ls = "accum item_key upd_link (link_items rows) []"
  let ?key = "\<lambda>r. link_key (src r) (dst r)"
  define ls where "ls = filter (\<lambda>(k, l). Q (kl_source l) (kl_target l)) ?ls"
  let ?rows = "filter (\<lambda>r. Q (src r) (dst r)) rows"
  have nul: "no_nul (src r)" if "r \<in> set rows" for r using ok that sd row_ok_no_nul by (auto simp: link_layers_def)
  have dist: "distinct (map fst ls)" by (simp add: ls_def distinct_map_filter)
  have sub: "?key ` set ?rows \<subseteq> set (map fst ls)"
  proof
    fix k assume "k \<in> ?key ` set ?rows"
    then obtain q where q: "q \<in> set rows" "Q (src q) (dst q)" "k = ?key q" by auto
    then have "filter (\<lambda>r. src r = src q \<and> dst r = dst q) rows \<noteq> []" by (auto simp: filter_empty_conv)
    then obtain r rs where f: "filter (\<lambda>r. src r = src q \<and> dst r = dst q) rows = r # rs" by (meson neq_Nil_conv)
    then have r: "src r = src q" "dst r = dst q" by (auto simp: filter_eq_Cons_iff)
    let ?l = "\<lparr> kl_source = src r, kl_target = dst r, kl_value = fsum (map rw_value (r # rs)), kl_tx = fsum (map rw_tx (r # rs)), kl_rx = fsum (map rw_rx (r # rs)) \<rparr>"
    have "(k, ?l) \<in> set ?ls" unfolding sankey_links [OF ok] using sd f q(3) r by (intro bexI [of _ "(src, dst)"]) auto
    then have "(k, ?l) \<in> set ls" using q(2) r by (simp add: ls_def)
    then show "k \<in> set (map fst ls)" by force
  qed
  have val: "kl_value l = (\<Sum>r \<leftarrow> filter (\<lambda>r. ?key r = k) ?rows. rw_value r)" if kl: "(k, l) \<in> set ls" for k l
  proof -
    have Q: "Q (kl_source l) (kl_target l)" and "(k, l) \<in> set ?ls" using kl by (auto simp: ls_def)
    then obtain src' dst' r rs where sd': "(src', dst') \<in> set link_layers" and f: "filter (\<lambda>r. src' r = kl_source l \<and> dst' r = kl_target l) rows = r # rs"
      and k: "k = link_key (kl_source l) (kl_target l)"
      and l: "l = \<lparr> kl_source = src' r, kl_target = dst' r, kl_value = fsum (map rw_value (r # rs)), kl_tx = fsum (map rw_tx (r # rs)), kl_rx = fsum (map rw_rx (r # rs)) \<rparr>"
      unfolding sankey_links [OF ok] by blast
    have r: "r \<in> set rows" using f by (auto simp: filter_eq_Cons_iff)
    then have e: "src' = src" "dst' = dst" using only [OF sd' r] Q by (auto simp: l)
    have s: "no_nul (kl_source l)" using nul [OF r] by (simp add: l e)
    have "filter (\<lambda>r. ?key r = k) ?rows = filter (\<lambda>r. src r = kl_source l \<and> dst r = kl_target l) rows"
      unfolding filter_filter k by (intro filter_cong refl) (use nul s Q link_key_inj in auto)
    also have "\<dots> = r # rs" using f by (simp add: e)
    finally have "(\<Sum>r \<leftarrow> filter (\<lambda>r. ?key r = k) ?rows. rw_value r) = fsum (map rw_value (filter (\<lambda>r. src r = kl_source l \<and> dst r = kl_target l) rows))"
      unfolding exact using f by (simp add: e)
    then show ?thesis using f l e by simp
  qed
  have "(\<Sum>l \<leftarrow> filter (\<lambda>l. Q (kl_source l) (kl_target l)) (map snd ?ls). kl_value l) = (\<Sum>(k, l) \<leftarrow> ls. kl_value l)"
    by (simp add: ls_def filter_map comp_def case_prod_unfold)
  also have "\<dots> = (\<Sum>k \<leftarrow> map fst ls. \<Sum>r \<leftarrow> filter (\<lambda>r. ?key r = k) ?rows. rw_value r)"
    using val by (auto simp: comp_def intro!: arg_cong [of _ _ sum_list])
  also have "\<dots> = (\<Sum>r \<leftarrow> ?rows. rw_value r)" by (rule sum_by_key [OF dist sub])
  finally show ?thesis .
qed

lemma layer_ids: "(sel, ini) \<in> set node_layers \<Longrightarrow> kn_id (ini r) = sel r"
  by (auto simp: node_layers_def proc_node_def app_node_def dest_node_def plain_node_def Let_def split: option.split)

lemma layer_depths [simp]: "kn_depth (proc_node r) = 0" "kn_depth (app_node r) = 1" "kn_depth (dest_node r) = 2"
    "kn_kind (proc_node r) = NProc" "kn_kind (app_node r) = NApp" "kn_kind (dest_node r) = NDest"
  by (simp_all add: proc_node_def app_node_def dest_node_def plain_node_def Let_def split: option.split)

definition layer :: "nat \<Rightarrow> Row \<Rightarrow> string" where
  "layer d = (if d = 0 then rw_proc else if d = 1 then rw_app else rw_dest)"

lemma layer_sel:
  assumes "(sel, ini) \<in> set node_layers" shows "kn_depth (ini r) < 3" "layer (kn_depth (ini r)) = sel"
  using assms by (auto simp: node_layers_def layer_def)

text \<open>The nodes after the loop: what each is, and that each id of a row has one.\<close>

lemma node_props:
  assumes "\<forall>r \<in> set rows. row_ok r" and "(k, n) \<in> set (accum fst upd_node (node_items rows) [])"
  shows "kn_id n = k" "kn_depth n < 3" "kn_value n = fsum (map rw_value (filter (\<lambda>r. layer (kn_depth n) r = k) rows))"
    "\<exists>r \<in> set rows. layer (kn_depth n) r = k"
proof -
  obtain sel ini r rs where l: "(sel, ini) \<in> set node_layers" and f: "filter (\<lambda>r. sel r = k) rows = r # rs"
    and n: "n = (ini r)\<lparr> kn_value := fsum (map rw_value (r # rs)), kn_tx := fsum (map rw_tx (r # rs)), kn_rx := fsum (map rw_rx (r # rs)) \<rparr>"
    using assms(2) unfolding sankey_nodes [OF assms(1)] by blast
  have r: "r \<in> set rows" "sel r = k" using f by (auto simp: filter_eq_Cons_iff)
  have s: "layer (kn_depth n) = sel" "kn_depth n < 3" using layer_sel [OF l, of r] by (simp_all add: n)
  show "kn_id n = k" using layer_ids [OF l] r by (simp add: n)
  show "kn_depth n < 3" "kn_value n = fsum (map rw_value (filter (\<lambda>r. layer (kn_depth n) r = k) rows))" using s f by (simp_all add: n)
  show "\<exists>r \<in> set rows. layer (kn_depth n) r = k" using s r by auto
qed

lemma node_exists:
  assumes "\<forall>r \<in> set rows. row_ok r" and "r \<in> set rows" and "d < 3"
  shows "\<exists>n. (layer d r, n) \<in> set (accum fst upd_node (node_items rows) []) \<and> kn_depth n = d"
proof -
  have "\<exists>(sel, ini) \<in> set node_layers. layer d = sel \<and> (\<forall>q. kn_depth (ini q) = d)"
    using assms(3) by (auto simp: node_layers_def layer_def less_Suc_eq numeral_3_eq_3)
  then obtain sel ini where l: "(sel, ini) \<in> set node_layers" "layer d = sel" "\<And>q. kn_depth (ini q) = d" by blast
  have "filter (\<lambda>q. sel q = layer d r) rows \<noteq> []" using assms(2) l by (auto simp: filter_empty_conv)
  then obtain q qs where "filter (\<lambda>q. sel q = layer d r) rows = q # qs" by (meson neq_Nil_conv)
  then have "(layer d r, (ini q)\<lparr> kn_value := fsum (map rw_value (q # qs)), kn_tx := fsum (map rw_tx (q # qs)), kn_rx := fsum (map rw_rx (q # qs)) \<rparr>)
      \<in> set (accum fst upd_node (node_items rows) [])"
    unfolding sankey_nodes [OF assms(1)] using l(1) by (intro bexI [of _ "(sel, ini)"]) auto
  then show ?thesis using l(3) [of q] by fastforce
qed

lemma nodes_sum:
  assumes ok: "\<forall>r \<in> set rows. row_ok r" and "d < 3"
    and exact: "\<And>P'. fsum (map rw_value (filter P' rows)) = (\<Sum>r \<leftarrow> filter P' rows. rw_value r)"
  shows "(\<Sum>n \<leftarrow> filter (\<lambda>n. kn_depth n = d) (map snd (accum fst upd_node (node_items rows) [])). kn_value n) = (\<Sum>r \<leftarrow> rows. rw_value r)"
proof -
  let ?ns = "accum fst upd_node (node_items rows) []"
  define ns where "ns = filter (\<lambda>(k, n). kn_depth n = d) ?ns"
  have dist: "distinct (map fst ns)" by (simp add: ns_def distinct_map_filter)
  have sub: "layer d ` set rows \<subseteq> set (map fst ns)"
  proof
    fix k assume "k \<in> layer d ` set rows"
    then obtain r where "r \<in> set rows" "k = layer d r" by blast
    with node_exists [OF ok _ \<open>d < 3\<close>] obtain n where "(k, n) \<in> set ?ns" "kn_depth n = d" by blast
    then have "(k, n) \<in> set ns" by (simp add: ns_def)
    then show "k \<in> set (map fst ns)" by force
  qed
  have val: "kn_value n = (\<Sum>r \<leftarrow> filter (\<lambda>r. layer d r = k) rows. rw_value r)" if "(k, n) \<in> set ns" for k n
    using node_props(3) [OF ok, of k n] that unfolding ns_def exact by auto
  have "(\<Sum>n \<leftarrow> filter (\<lambda>n. kn_depth n = d) (map snd ?ns). kn_value n) = (\<Sum>(k, n) \<leftarrow> ns. kn_value n)"
    by (simp add: ns_def filter_map comp_def case_prod_unfold)
  also have "\<dots> = (\<Sum>k \<leftarrow> map fst ns. \<Sum>r \<leftarrow> filter (\<lambda>r. layer d r = k) rows. rw_value r)"
    using val by (auto simp: comp_def intro!: arg_cong [of _ _ sum_list])
  also have "\<dots> = (\<Sum>r \<leftarrow> rows. rw_value r)" by (rule sum_by_key [OF dist sub])
  finally show ?thesis .
qed

section \<open>Passes over the rows\<close>

lemma passes_values [simp]:
  "map rw_value (cap_rows np nd rows) = map rw_value rows"
  "map rw_value (fold_dests mn rows) = map rw_value rows"
  "map rw_value (fold_procs mn rows) = map rw_value rows"
  by (auto simp: cap_rows_def cap_row_def fold_dests_def fold_procs_def Let_def)

lemma final_values: "map rw_value (final_rows fls opts) = map rw_value (sankey_rows (sk_dir opts) (or_default False (byAsn opts)) fls)"
  by (simp add: final_rows_def Let_def)

lemma no_nul_simps [simp]: "no_nul []" "no_nul (c # s) \<longleftrightarrow> c \<noteq> CHR 0x00 \<and> no_nul s" "no_nul (s @ t) \<longleftrightarrow> no_nul s \<and> no_nul t"
  by (auto simp: no_nul_def)

lemma passes_ok:
  assumes "\<forall>r \<in> set rows. row_ok r"
  shows "\<forall>r \<in> set (cap_rows np nd rows). row_ok r" "\<forall>r \<in> set (fold_dests mn rows). row_ok r" "\<forall>r \<in> set (fold_procs mn rows). row_ok r"
  using assms by (auto simp: cap_rows_def cap_row_def fold_dests_def fold_procs_def Let_def row_ok_def OTHER_PROCS_def)

lemma sankey_row_ok:
  assumes "no_nul (g_name f)" "no_nul (g_app f)" "no_nul (g_proto f)"
  shows "row_ok (sankey_row dir as protos f)"
  using assms by (auto simp: row_ok_def sankey_row_def app_label_def starts_with_def Let_def split: option.splits)

lemma final_ok:
  assumes "\<forall>f \<in> set fls. no_nul (g_name f) \<and> no_nul (g_app f) \<and> no_nul (g_proto f)"
  shows "\<forall>r \<in> set (final_rows fls opts). row_ok r"
proof -
  have "\<forall>r \<in> set (sankey_rows dir as fls). row_ok r" for dir as using assms sankey_row_ok by (auto simp: sankey_rows_def)
  then show ?thesis unfolding final_rows_def Let_def by (intro passes_ok) blast
qed

text \<open>The targets set at the end change nothing else.\<close>

abbreviation untarget :: "SankeyNode \<Rightarrow> SankeyNode" where
  "untarget n \<equiv> n\<lparr> kn_target := None \<rparr>"

lemma set_target_rest: "map (\<lambda>(k, n). (k, untarget n)) (set_target p m) = map (\<lambda>(k, n). (k, untarget n)) m"
proof -
  have "map_of m k = Some n \<Longrightarrow> map (\<lambda>(k, n). (k, untarget n)) (AList.update k (n\<lparr> kn_target := t \<rparr>) m) = map (\<lambda>(k, n). (k, untarget n)) m" for k n t
    by (induction m) (auto split: if_splits)
  then show ?thesis by (auto simp: set_target_def map_set_def map_get_def split: option.split)
qed

lemma set_targets_rest: "map (\<lambda>(k, n). (k, untarget n)) (fold set_target ins m) = map (\<lambda>(k, n). (k, untarget n)) m"
  by (induction ins arbitrary: m) (simp_all add: set_target_rest)

definition graph_rows :: "Row list \<Rightarrow> nodes \<times> links" where
  "graph_rows rows = (let a = fold sankey_step rows \<lparr> sa_nodes = [], sa_links = [], sa_instances = [] \<rparr>
     in (fold set_target (sa_instances a) (sa_nodes a), sa_links a))"

lemma graph_links: "snd (graph_rows rows) = accum item_key upd_link (link_items rows) []"
  by (simp add: graph_rows_def Let_def sankey_fold)

lemma graph_nodes: "map (\<lambda>(k, n). (k, untarget n)) (fst (graph_rows rows)) = map (\<lambda>(k, n). (k, untarget n)) (accum fst upd_node (node_items rows) [])"
  by (simp add: graph_rows_def Let_def sankey_fold set_targets_rest)

lemma graph_node_props:
  assumes "\<forall>r \<in> set rows. row_ok r" and "(k, n) \<in> set (fst (graph_rows rows))"
  shows "kn_id n = k" "kn_depth n < 3" "kn_value n = fsum (map rw_value (filter (\<lambda>r. layer (kn_depth n) r = k) rows))"
    "\<exists>r \<in> set rows. layer (kn_depth n) r = k"
proof -
  have "(k, untarget n) \<in> set (map (\<lambda>(k, n). (k, untarget n)) (fst (graph_rows rows)))" using assms(2) by force
  then obtain n0 where n0: "(k, n0) \<in> set (accum fst upd_node (node_items rows) [])" and "untarget n = untarget n0"
    unfolding graph_nodes by auto
  then have "kn_id n = kn_id n0" "kn_depth n = kn_depth n0" "kn_value n = kn_value n0"
    by (metis SankeyNode.select_convs SankeyNode.surjective SankeyNode.update_convs(9))+
  with node_props [OF assms(1) n0] show "kn_id n = k" "kn_depth n < 3"
    "kn_value n = fsum (map rw_value (filter (\<lambda>r. layer (kn_depth n) r = k) rows))" "\<exists>r \<in> set rows. layer (kn_depth n) r = k" by auto
qed

lemma graph_nodes_sum:
  assumes "\<forall>r \<in> set rows. row_ok r" and "d < 3"
    and "\<And>P'. fsum (map rw_value (filter P' rows)) = (\<Sum>r \<leftarrow> filter P' rows. rw_value r)"
  shows "(\<Sum>n \<leftarrow> filter (\<lambda>n. kn_depth n = d) (map snd (fst (graph_rows rows))). kn_value n) = (\<Sum>r \<leftarrow> rows. rw_value r)"
proof -
  let ?s = "\<lambda>ns. \<Sum>n \<leftarrow> filter (\<lambda>n. kn_depth n = d) (map snd ns). kn_value n"
  have "?s ns = ?s (map (\<lambda>(k, n). (k, untarget n)) ns)" for ns by (induction ns) auto
  then show ?thesis using nodes_sum [OF assms] graph_nodes by metis
qed

section \<open>Conservation\<close>

lemma sum_filter_sort_by: "(\<Sum>x \<leftarrow> filter P' (sort_by le xs). f x) = (\<Sum>x \<leftarrow> filter P' xs. f x :: 'a :: comm_monoid_add)"
  by (metis mset_filter mset_map mset_sort_by sum_mset_sum_list)

lemma buildSankey_graph:
  "sg_links (buildSankey fls opts) = sort_by link_order (map snd (snd (graph_rows (final_rows fls opts))))"
  "\<exists>le. sg_nodes (buildSankey fls opts) = sort_by le (map snd (fst (graph_rows (final_rows fls opts))))"
  by (auto simp: buildSankey_def graph_rows_def Let_def)

definition counted_flows :: "FlowAgg list \<Rightarrow> bool" where
  "counted_flows fls \<longleftrightarrow> (\<forall>f \<in> set fls. g_tx f \<in> \<nat> \<and> g_rx f \<in> \<nat>) \<and> (\<Sum>f \<leftarrow> fls. g_tx f + g_rx f) \<le> 2 ^ 53"

definition named_flows :: "FlowAgg list \<Rightarrow> bool" where
  "named_flows fls \<longleftrightarrow> (\<forall>f \<in> set fls. no_nul (g_name f) \<and> no_nul (g_app f) \<and> no_nul (g_proto f))"

definition flow_bytes :: "FlowDir \<Rightarrow> FlowAgg \<Rightarrow> num" where
  "flow_bytes dir f = (case dir of FTx \<Rightarrow> g_tx f | FRx \<Rightarrow> g_rx f | FBoth \<Rightarrow> g_tx f + g_rx f)"

lemma counted_flowsD:
  assumes "counted_flows fls" and "f \<in> set fls"
  shows "flow_pick dir f = flow_bytes dir f" "flow_bytes dir f \<in> \<nat>" "flow_bytes dir f \<le> g_tx f + g_rx f"
proof -
  from assms have N: "g_tx f \<in> \<nat>" "g_rx f \<in> \<nat>" by (auto simp: counted_flows_def)
  have "\<forall>f \<in> set fls. 0 \<le> g_tx f + g_rx f" using assms(1) by (auto simp: counted_flows_def elim!: Nats_cases)
  then have "g_tx f + g_rx f \<le> (\<Sum>f \<leftarrow> fls. g_tx f + g_rx f)" by (rule sum_list_ge_member [OF _ assms(2)])
  then have le: "g_tx f + g_rx f \<le> 2 ^ 53" using assms(1) by (simp add: counted_flows_def)
  obtain a b where ab: "g_tx f = of_nat a" "g_rx f = of_nat b" using N by (auto elim!: Nats_cases)
  then have "(of_nat (a + b) :: num) \<le> of_nat (2 ^ 53)" using le by simp
  then have "a + b \<le> 2 ^ 53" unfolding of_nat_le_iff .
  then show "flow_pick dir f = flow_bytes dir f" using fadd_nat [of a b] ab by (simp add: flow_pick_def flow_bytes_def split: FlowDir.split)
  show "flow_bytes dir f \<in> \<nat>" "flow_bytes dir f \<le> g_tx f + g_rx f" using N ab by (auto simp: flow_bytes_def split: FlowDir.split)
qed

lemma counted_values:
  assumes "counted_flows fls"
  shows "(\<Sum>v \<leftarrow> map rw_value (sankey_rows dir as fls). v) = (\<Sum>f \<leftarrow> fls. flow_bytes dir f)"
    "\<forall>v \<in> set (map rw_value (sankey_rows dir as fls)). v \<in> \<nat>" "(\<Sum>f \<leftarrow> fls. flow_bytes dir f) \<le> 2 ^ 53"
proof -
  have v: "map rw_value (sankey_rows dir as fls) = map (flow_bytes dir) (filter (\<lambda>f. flow_bytes dir f > 0) fls)"
    using counted_flowsD(1) [OF assms] by (auto simp: sankey_rows_def sankey_row_def Let_def cong: filter_cong map_cong)
  have nn: "0 \<le> flow_bytes dir f" if "f \<in> set fls" for f using counted_flowsD(2) [OF assms that, of dir] by (auto elim!: Nats_cases)
  then have "(\<Sum>f \<leftarrow> filter (\<lambda>f. flow_bytes dir f > 0) fls. flow_bytes dir f) = (\<Sum>f \<leftarrow> fls. flow_bytes dir f)"
    by (induction fls) (auto simp: order.order_iff_strict)
  then show "(\<Sum>v \<leftarrow> map rw_value (sankey_rows dir as fls). v) = (\<Sum>f \<leftarrow> fls. flow_bytes dir f)" unfolding v by simp
  show "\<forall>v \<in> set (map rw_value (sankey_rows dir as fls)). v \<in> \<nat>" unfolding v using counted_flowsD(2) [OF assms] by auto
  have "(\<Sum>f \<leftarrow> fls. flow_bytes dir f) \<le> (\<Sum>f \<leftarrow> fls. g_tx f + g_rx f)" using counted_flowsD(3) [OF assms] by (intro sum_list_mono) simp
  then show "(\<Sum>f \<leftarrow> fls. flow_bytes dir f) \<le> 2 ^ 53" using assms by (simp add: counted_flows_def)
qed

lemma final_exact:
  assumes "counted_flows fls"
  shows "fsum (map rw_value (filter P' (final_rows fls opts))) = (\<Sum>r \<leftarrow> filter P' (final_rows fls opts). rw_value r)"
    "(\<Sum>r \<leftarrow> final_rows fls opts. rw_value r) = (\<Sum>f \<leftarrow> fls. flow_bytes (sk_dir opts) f)"
proof -
  let ?R = "final_rows fls opts"
  note C = counted_values(1,2) [OF assms, where dir = "sk_dir opts" and as = "or_default False (byAsn opts)", folded final_values]
    counted_values(3) [OF assms, where dir = "sk_dir opts"]
  have N: "\<forall>r \<in> set ?R. rw_value r \<in> \<nat>" using C(2) by auto
  then have "\<forall>r \<in> set ?R. 0 \<le> rw_value r" by (auto elim!: Nats_cases)
  then have "(\<Sum>r \<leftarrow> filter P' ?R. rw_value r) \<le> 2 ^ 53" using sum_list_ge_filter [of ?R rw_value P'] C(1,3) by simp
  then show "fsum (map rw_value (filter P' ?R)) = (\<Sum>r \<leftarrow> filter P' ?R. rw_value r)" using N by (intro exact_fsum) auto
  show "(\<Sum>r \<leftarrow> ?R. rw_value r) = (\<Sum>f \<leftarrow> fls. flow_bytes (sk_dir opts) f)" using C(1) by simp
qed

lemma graph_balance:
  assumes ok: "\<forall>r \<in> set rows. row_ok r" and kn: "(k, n) \<in> set (fst (graph_rows rows))"
    and exact: "\<And>P'. fsum (map rw_value (filter P' rows)) = (\<Sum>r \<leftarrow> filter P' rows. rw_value r)"
  shows "kn_depth n < 2 \<Longrightarrow> (\<Sum>l \<leftarrow> filter (\<lambda>l. kl_source l = kn_id n) (map snd (snd (graph_rows rows))). kl_value l) = kn_value n"
    and "0 < kn_depth n \<Longrightarrow> (\<Sum>l \<leftarrow> filter (\<lambda>l. kl_target l = kn_id n) (map snd (snd (graph_rows rows))). kl_value l) = kn_value n"
proof -
  note P = graph_node_props [OF ok kn]
  obtain r where r: "r \<in> set rows" "layer (kn_depth n) r = k" using P(4) by blast
  have v: "kn_value n = (\<Sum>r \<leftarrow> filter (\<lambda>r. layer (kn_depth n) r = k) rows. rw_value r)" using P(3) by (simp add: exact)
  have heads: "hd (rw_proc q) = CHR ''p''" "hd (rw_app q) = CHR ''a''" "hd (rw_dest q) = CHR ''d''" if "q \<in> set rows" for q
    using ok that row_ok_heads by blast+
  show "(\<Sum>l \<leftarrow> filter (\<lambda>l. kl_source l = kn_id n) (map snd (snd (graph_rows rows))). kl_value l) = kn_value n" if "kn_depth n < 2"
  proof -
    define sd where "sd = (layer (kn_depth n), layer (kn_depth n + 1))"
    have sd: "sd \<in> set link_layers" using that by (auto simp: sd_def link_layers_def layer_def)
    have "src = fst sd \<and> dst = snd sd" if "(src, dst) \<in> set link_layers" "q \<in> set rows" "src q = k" for src dst q
      using that \<open>kn_depth n < 2\<close> heads [OF r(1)] heads [OF that(2)] r(2) by (auto simp: link_layers_def sd_def layer_def less_2_cases_iff split: if_splits)
    then show ?thesis using links_sum [OF ok, of "fst sd" "snd sd" "\<lambda>s t. s = k"] sd exact v P(1) by (simp add: graph_links sd_def)
  qed
  show "(\<Sum>l \<leftarrow> filter (\<lambda>l. kl_target l = kn_id n) (map snd (snd (graph_rows rows))). kl_value l) = kn_value n" if "0 < kn_depth n"
  proof -
    define sd where "sd = (layer (kn_depth n - 1), layer (kn_depth n))"
    have d: "kn_depth n = 1 \<or> kn_depth n = 2" using that P(2) by linarith
    have sd: "sd \<in> set link_layers" using d by (auto simp: sd_def link_layers_def layer_def)
    have "src = fst sd \<and> dst = snd sd" if "(src, dst) \<in> set link_layers" "q \<in> set rows" "dst q = k" for src dst q
      using that d heads [OF r(1)] heads [OF that(2)] r(2) by (auto simp: link_layers_def sd_def layer_def split: if_splits)
    then show ?thesis using links_sum [OF ok, of "fst sd" "snd sd" "\<lambda>s t. t = k"] sd exact v P(1) by (simp add: graph_links sd_def)
  qed
qed

text \<open>
  (C29) The Sankey conserves traffic: for flows of whole bytes (below \<open>2^53\<close> together) whose texts have no
  NUL, the total is the sum of the flows in the chosen direction; each of the three layers adds up
  to it; the links that leave a process or an application add up to its value, and so do those that
  enter an application or a destination. In particular inflow and outflow of an application agree,
  whatever was folded into the other nodes.
\<close>

theorem sankey_conserved:
  assumes "counted_flows fls" and "named_flows fls"
  shows "let g = buildSankey fls opts in
    sg_total g = (\<Sum>f \<leftarrow> fls. flow_bytes (sk_dir opts) f)
    \<and> (\<forall>d < 3. (\<Sum>n \<leftarrow> filter (\<lambda>n. kn_depth n = d) (sg_nodes g). kn_value n) = sg_total g)
    \<and> (\<forall>n \<in> set (sg_nodes g). kn_depth n < 3
        \<and> (kn_depth n < 2 \<longrightarrow> (\<Sum>l \<leftarrow> filter (\<lambda>l. kl_source l = kn_id n) (sg_links g). kl_value l) = kn_value n)
        \<and> (0 < kn_depth n \<longrightarrow> (\<Sum>l \<leftarrow> filter (\<lambda>l. kl_target l = kn_id n) (sg_links g). kl_value l) = kn_value n))"
proof -
  let ?g = "buildSankey fls opts" and ?R = "final_rows fls opts"
  have ok: "\<forall>r \<in> set ?R. row_ok r" using assms(2) unfolding named_flows_def by (rule final_ok)
  note E = final_exact(1) [OF assms(1), where opts = opts] and T = final_exact(2) [OF assms(1), where opts = opts]
  obtain le where N: "sg_nodes ?g = sort_by le (map snd (fst (graph_rows ?R)))" using buildSankey_graph(2) by blast
  note L = buildSankey_graph(1) [of fls opts]
  have total: "sg_total ?g = (\<Sum>f \<leftarrow> fls. flow_bytes (sk_dir opts) f)"
    using E [of "\<lambda>_. True"] T unfolding buildSankey_def Let_def by (simp flip: final_values)
  moreover have "(\<Sum>n \<leftarrow> filter (\<lambda>n. kn_depth n = d) (sg_nodes ?g). kn_value n) = sg_total ?g" if "d < 3" for d
    using graph_nodes_sum [OF ok that E] T total by (simp add: N sum_filter_sort_by)
  moreover have "kn_depth n < 3
        \<and> (kn_depth n < 2 \<longrightarrow> (\<Sum>l \<leftarrow> filter (\<lambda>l. kl_source l = kn_id n) (sg_links ?g). kl_value l) = kn_value n)
        \<and> (0 < kn_depth n \<longrightarrow> (\<Sum>l \<leftarrow> filter (\<lambda>l. kl_target l = kn_id n) (sg_links ?g). kl_value l) = kn_value n)"
    if n: "n \<in> set (sg_nodes ?g)" for n
  proof -
    from n obtain k where k: "(k, n) \<in> set (fst (graph_rows ?R))" by (auto simp: N)
    show ?thesis using graph_node_props(2) [OF ok k] graph_balance [OF ok k E] by (simp add: L sum_filter_sort_by)
  qed
  ultimately show ?thesis unfolding Let_def by blast
qed

section \<open>Caps and hairlines\<close>

lemma get_value_sums:
  "map_get (value_sums key rows) k = (if \<exists>r \<in> set rows. key r = k then Some (fsum (map rw_value (filter (\<lambda>r. key r = k) rows))) else None)"
proof -
  have *: "foldl (\<lambda>v r. Some (add_value v (rw_value r))) (Some x) rs = Some (foldl fadd x (map rw_value rs))" for x and rs :: "Row list"
    by (induction rs arbitrary: x) (simp_all add: add_value_def)
  have "foldl (\<lambda>v r. Some (add_value v (rw_value r))) None rs = (if rs = [] then None else Some (fsum (map rw_value rs)))" for rs :: "Row list"
    by (cases rs) (simp_all add: *, simp add: add_value_def fsum_def)
  then show ?thesis by (simp add: value_sums_def get_accum filter_empty_conv map_get_def [of "[]"])
qed

lemma pass_values:
  assumes "\<And>q. q \<in> set rows \<Longrightarrow> P' (f q) \<longleftrightarrow> Q q" and "\<And>q. rw_value (f q) = rw_value q"
  shows "map rw_value (filter P' (map f rows)) = map rw_value (filter Q rows)"
  using assms by (induction rows) auto

text \<open>The rows a pass leaves with a real end have, together, at least the minimum.\<close>

lemma fold_procs_min:
  assumes "\<forall>r \<in> set rows. row_ok r" and "r \<in> set (fold_procs mn rows)" and "rw_proc r \<noteq> OTHER_PROCS"
  shows "mn \<le> fsum (map rw_value (filter (\<lambda>q. rw_proc q = rw_proc r \<and> rw_app q = rw_app r) (fold_procs mn rows)))"
proof -
  let ?m = "linkSums rw_proc rw_app rows" and ?k = "\<lambda>q. link_key (rw_proc q) (rw_app q)"
  let ?low = "\<lambda>q. rw_proc q \<noteq> OTHER_PROCS \<and> below ?m (?k q) mn"
  let ?f = "\<lambda>q. if ?low q then q\<lparr> rw_proc := OTHER_PROCS \<rparr> else q"
  have fp: "fold_procs mn rows = map ?f rows" by (simp add: fold_procs_def Let_def)
  have r: "r \<in> set rows" "\<not> below ?m (?k r) mn" using assms(2,3) by (auto simp: fp split: if_splits)
  have key: "?k q = ?k r \<longleftrightarrow> rw_proc q = rw_proc r \<and> rw_app q = rw_app r" if "q \<in> set rows" for q
    using link_key_inj row_ok_no_nul assms(1) that r(1) by metis
  have "map rw_value (filter (\<lambda>q. rw_proc q = rw_proc r \<and> rw_app q = rw_app r) (map ?f rows)) = map rw_value (filter (\<lambda>q. ?k q = ?k r) rows)"
  proof (rule pass_values)
    show "(rw_proc (?f q) = rw_proc r \<and> rw_app (?f q) = rw_app r) \<longleftrightarrow> ?k q = ?k r" if "q \<in> set rows" for q
      using key [OF that] r(2) assms(3) by (cases "?low q") auto
  qed auto
  then show ?thesis using r by (auto simp: fp below_def linkSums_def get_value_sums split: if_splits)
qed

lemma fold_dests_min:
  assumes "\<forall>r \<in> set rows. row_ok r" and "r \<in> set (fold_dests mn rows)" and "starts_with ''d:'' (rw_dest r)"
  shows "mn \<le> fsum (map rw_value (filter (\<lambda>q. rw_app q = rw_app r \<and> rw_dest q = rw_dest r) (fold_dests mn rows)))"
proof -
  let ?m = "linkSums rw_app rw_dest rows" and ?k = "\<lambda>q. link_key (rw_app q) (rw_dest q)"
  let ?low = "\<lambda>q. starts_with ''d:'' (rw_dest q) \<and> below ?m (?k q) mn"
  let ?f = "\<lambda>q. if ?low q then q\<lparr> rw_dest := otherDest (rw_appLabel q) \<rparr> else q"
  have fp: "fold_dests mn rows = map ?f rows" by (simp add: fold_dests_def Let_def)
  have not: "\<not> starts_with ''d:'' (otherDest l)" for l by (simp add: otherDest_def starts_with_def)
  then have other: "otherDest l \<noteq> rw_dest r" for l using assms(3) by metis
  have r: "r \<in> set rows" "\<not> below ?m (?k r) mn"
    using assms(2,3) not by (auto simp: fp split: if_splits)
  have key: "?k q = ?k r \<longleftrightarrow> rw_app q = rw_app r \<and> rw_dest q = rw_dest r" if "q \<in> set rows" for q
    using link_key_inj row_ok_no_nul assms(1) that r(1) by metis
  have "map rw_value (filter (\<lambda>q. rw_app q = rw_app r \<and> rw_dest q = rw_dest r) (map ?f rows)) = map rw_value (filter (\<lambda>q. ?k q = ?k r) rows)"
  proof (rule pass_values)
    show "(rw_app (?f q) = rw_app r \<and> rw_dest (?f q) = rw_dest r) \<longleftrightarrow> ?k q = ?k r" if "q \<in> set rows" for q
      using key [OF that] r(2) assms(3) other by (cases "?low q") auto
  qed auto
  then show ?thesis using r by (auto simp: fp below_def linkSums_def get_value_sums split: if_splits)
qed

lemma fold_procs_dests:
  "map rw_value (filter (\<lambda>q. rw_app q = a \<and> rw_dest q = d) (fold_procs mn rows)) = map rw_value (filter (\<lambda>q. rw_app q = a \<and> rw_dest q = d) rows)"
  unfolding fold_procs_def Let_def by (rule pass_values) auto

lemma final_hairlines:
  assumes "named_flows fls" and "r \<in> set (final_rows fls opts)"
  defines "mn \<equiv> fmul (sg_total (buildSankey fls opts)) (or_default (fl (5 / 1000)) (minShare opts))"
  shows "rw_proc r \<noteq> OTHER_PROCS \<Longrightarrow> mn \<le> fsum (map rw_value (filter (\<lambda>q. rw_proc q = rw_proc r \<and> rw_app q = rw_app r) (final_rows fls opts)))"
    and "starts_with ''d:'' (rw_dest r) \<Longrightarrow> mn \<le> fsum (map rw_value (filter (\<lambda>q. rw_app q = rw_app r \<and> rw_dest q = rw_dest r) (final_rows fls opts)))"
proof -
  define rows where "rows = cap_rows (or_default 10 (topProcs opts)) (or_default 15 (topDests opts)) (sankey_rows (sk_dir opts) (or_default False (byAsn opts)) fls)"
  have R: "final_rows fls opts = fold_procs mn (fold_dests mn rows)"
    by (simp add: final_rows_def mn_def rows_def buildSankey_def Let_def)
  have "\<forall>r \<in> set (sankey_rows (sk_dir opts) (or_default False (byAsn opts)) fls). row_ok r"
    using assms(1) sankey_row_ok by (auto simp: sankey_rows_def named_flows_def)
  then have ok: "\<forall>r \<in> set rows. row_ok r" unfolding rows_def by (rule passes_ok)
  show "mn \<le> fsum (map rw_value (filter (\<lambda>q. rw_proc q = rw_proc r \<and> rw_app q = rw_app r) (final_rows fls opts)))" if "rw_proc r \<noteq> OTHER_PROCS"
    using fold_procs_min [OF passes_ok(2) [OF ok] assms(2) [unfolded R] that] by (simp add: R)
  have "\<exists>q \<in> set (fold_dests mn rows). rw_app q = rw_app r \<and> rw_dest q = rw_dest r"
    using assms(2) unfolding R fold_procs_def Let_def by auto
  then obtain q where q: "q \<in> set (fold_dests mn rows)" "rw_app q = rw_app r" "rw_dest q = rw_dest r" by blast
  show "mn \<le> fsum (map rw_value (filter (\<lambda>q. rw_app q = rw_app r \<and> rw_dest q = rw_dest r) (final_rows fls opts)))" if "starts_with ''d:'' (rw_dest r)"
    using fold_dests_min [OF ok q(1)] q that by (simp add: R fold_procs_dests)
qed

text \<open>The ids a row may have when at most the given ones are kept; the later passes only fold more.\<close>

definition kept_row :: "string list \<Rightarrow> string list \<Rightarrow> Row \<Rightarrow> bool" where
  "kept_row ps ds r \<longleftrightarrow> (rw_proc r = OTHER_PROCS \<or> rw_proc r \<in> set ps) \<and> ((\<exists>l. rw_dest r = otherDest l) \<or> rw_dest r \<in> set ds)"

lemma passes_kept:
  "kept_row ps ds (cap_row ps ds r)"
  "\<forall>r \<in> set rows. kept_row ps ds r \<Longrightarrow> \<forall>r \<in> set (fold_dests mn rows). kept_row ps ds r"
  "\<forall>r \<in> set rows. kept_row ps ds r \<Longrightarrow> \<forall>r \<in> set (fold_procs mn rows). kept_row ps ds r"
  by (auto simp: kept_row_def cap_row_def fold_dests_def fold_procs_def Let_def)

lemma final_kept:
  obtains ps ds where "length ps \<le> or_default 10 (topProcs opts)" "length ds \<le> or_default 15 (topDests opts)"
    "\<forall>r \<in> set (final_rows fls opts). kept_row ps ds r"
proof -
  let ?rows = "sankey_rows (sk_dir opts) (or_default False (byAsn opts)) fls"
  let ?ps = "topKeys (value_sums rw_proc ?rows) (or_default 10 (topProcs opts))"
  let ?ds = "topKeys (value_sums rw_dest ?rows) (or_default 15 (topDests opts))"
  have "\<forall>r \<in> set (final_rows fls opts). kept_row ?ps ?ds r"
    unfolding final_rows_def Let_def by (intro passes_kept(2,3)) (auto simp: cap_rows_def passes_kept(1))
  then show ?thesis using that [of ?ps ?ds] by (simp add: topKeys_def)
qed

text \<open>Buckets can be told by their id.\<close>

definition bucket_id :: "string \<Rightarrow> bool" where
  "bucket_id k \<longleftrightarrow> k = OTHER_PROCS \<or> starts_with ''d*'' k"

lemma node_buckets:
  "kn_bucket (proc_node r) \<longleftrightarrow> rw_proc r = OTHER_PROCS" "\<not> kn_bucket (app_node r)"
  "kn_bucket (dest_node r) \<longleftrightarrow> starts_with ''d*'' (rw_dest r)"
proof -
  have "starts_with ''d*'' UNKNOWN_PEER" by (simp add: UNKNOWN_PEER_def starts_with_def)
  then show "kn_bucket (dest_node r) \<longleftrightarrow> starts_with ''d*'' (rw_dest r)"
    by (auto simp: dest_node_def plain_node_def Let_def split: option.split)
qed (simp_all add: proc_node_def app_node_def plain_node_def)

lemma layer_bucket:
  assumes "row_ok r" and "(sel, ini) \<in> set node_layers" shows "kn_bucket (ini r) \<longleftrightarrow> bucket_id (sel r)"
proof -
  have "\<not> starts_with ''d*'' (rw_proc r)" "\<not> starts_with ''d*'' (rw_app r)" "rw_app r \<noteq> OTHER_PROCS" "rw_dest r \<noteq> OTHER_PROCS"
    using row_ok_heads [OF assms(1)] starts_with_hd by (force simp: OTHER_PROCS_def)+
  then show ?thesis using assms(2) by (auto simp: node_layers_def bucket_id_def node_buckets)
qed

lemma graph_node_bucket:
  assumes "\<forall>r \<in> set rows. row_ok r" and "(k, n) \<in> set (fst (graph_rows rows))"
  shows "kn_bucket n \<longleftrightarrow> bucket_id (kn_id n)"
proof -
  have "(k, untarget n) \<in> set (map (\<lambda>(k, n). (k, untarget n)) (fst (graph_rows rows)))" using assms(2) by force
  then obtain n0 where n0: "(k, n0) \<in> set (accum fst upd_node (node_items rows) [])" and "untarget n = untarget n0"
    unfolding graph_nodes by auto
  then have e: "kn_id n = kn_id n0" "kn_bucket n = kn_bucket n0"
    by (metis SankeyNode.select_convs SankeyNode.surjective SankeyNode.update_convs(9))+
  obtain sel ini r rs where l: "(sel, ini) \<in> set node_layers" and f: "filter (\<lambda>r. sel r = k) rows = r # rs"
    and "n0 = (ini r)\<lparr> kn_value := fsum (map rw_value (r # rs)), kn_tx := fsum (map rw_tx (r # rs)), kn_rx := fsum (map rw_rx (r # rs)) \<rparr>"
    using n0 unfolding sankey_nodes [OF assms(1)] by blast
  moreover have "r \<in> set rows" using f by (auto simp: filter_eq_Cons_iff)
  ultimately show ?thesis using layer_bucket [OF _ l, of r] layer_ids [OF l, of r] assms(1) e by simp
qed

lemma graph_node_exists:
  assumes "\<forall>r \<in> set rows. row_ok r" and "r \<in> set rows" and "d < 3"
  shows "\<exists>n. (layer d r, n) \<in> set (fst (graph_rows rows)) \<and> kn_depth n = d"
proof -
  obtain n where "(layer d r, n) \<in> set (accum fst upd_node (node_items rows) [])" "kn_depth n = d" using node_exists [OF assms] by blast
  then have "(layer d r, untarget n) \<in> set (map (\<lambda>(k, n). (k, untarget n)) (fst (graph_rows rows)))" unfolding graph_nodes by force
  then obtain n' where "(layer d r, n') \<in> set (fst (graph_rows rows))" "untarget n = untarget n'" by auto
  moreover from this have "kn_depth n = kn_depth n'" by (metis SankeyNode.select_convs(3) SankeyNode.surjective SankeyNode.update_convs(9))
  ultimately show ?thesis using \<open>kn_depth n = d\<close> by auto
qed

lemma graph_keys:
  assumes "\<forall>r \<in> set rows. row_ok r"
  shows "distinct (map kn_id (map snd (fst (graph_rows rows))))"
proof -
  have "map fst (fst (graph_rows rows)) = map fst (accum fst upd_node (node_items rows) [])"
    using arg_cong [OF graph_nodes, of "map fst" rows] by (simp add: comp_def case_prod_unfold)
  then have "distinct (map fst (fst (graph_rows rows)))" by simp
  moreover have "map fst (fst (graph_rows rows)) = map kn_id (map snd (fst (graph_rows rows)))"
    using graph_node_props(1) [OF assms] by auto
  ultimately show ?thesis by simp
qed

lemma graph_link:
  assumes "\<forall>r \<in> set rows. row_ok r" and "(k, l) \<in> set (snd (graph_rows rows))"
  obtains d r where "d < 2" "r \<in> set rows" "kl_source l = layer d r" "kl_target l = layer (d + 1) r"
    "kl_value l = fsum (map rw_value (filter (\<lambda>q. layer d q = layer d r \<and> layer (d + 1) q = layer (d + 1) r) rows))"
    "k = link_key (kl_source l) (kl_target l)"
proof -
  obtain src dst r rs where sd: "(src, dst) \<in> set link_layers" and f: "filter (\<lambda>r. src r = kl_source l \<and> dst r = kl_target l) rows = r # rs"
    and k: "k = link_key (kl_source l) (kl_target l)"
    and l: "l = \<lparr> kl_source = src r, kl_target = dst r, kl_value = fsum (map rw_value (r # rs)), kl_tx = fsum (map rw_tx (r # rs)), kl_rx = fsum (map rw_rx (r # rs)) \<rparr>"
    using assms(2) unfolding graph_links sankey_links [OF assms(1)] by blast
  have "\<exists>d < 2. src = layer d \<and> dst = layer (d + 1)" using sd by (auto simp: link_layers_def layer_def less_2_cases_iff)
  then obtain d where "d < 2" "src = layer d" "dst = layer (d + 1)" by blast
  moreover have "r \<in> set rows" using f by (auto simp: filter_eq_Cons_iff)
  moreover have "kl_source l = src r" "kl_target l = dst r" "kl_value l = fsum (map rw_value (r # rs))" by (simp_all add: l)
  ultimately show ?thesis using that [of d r] f k by simp
qed

lemma graph_link_keys:
  assumes "\<forall>r \<in> set rows. row_ok r"
  shows "distinct (map (\<lambda>l. (kl_source l, kl_target l)) (map snd (snd (graph_rows rows))))"
proof -
  have "map fst (snd (graph_rows rows)) = map (\<lambda>(s, t). link_key s t) (map (\<lambda>l. (kl_source l, kl_target l)) (map snd (snd (graph_rows rows))))"
    by (auto elim!: graph_link [OF assms])
  moreover have "distinct (map fst (snd (graph_rows rows)))" by (simp add: graph_links)
  ultimately show ?thesis by (simp only: distinct_map)
qed

lemma sankey_node_view:
  fixes opts :: SankeyOptions
  assumes "named_flows fls"
  defines "g \<equiv> buildSankey fls opts" and "rows \<equiv> final_rows fls opts"
  shows "distinct (map kn_id (sg_nodes g))"
    and "n \<in> set (sg_nodes g) \<Longrightarrow> kn_bucket n \<longleftrightarrow> bucket_id (kn_id n)"
    and "n \<in> set (sg_nodes g) \<Longrightarrow> \<exists>r \<in> set rows. layer (kn_depth n) r = kn_id n"
    and "r \<in> set rows \<Longrightarrow> d < 3 \<Longrightarrow> \<exists>n \<in> set (sg_nodes g). kn_id n = layer d r \<and> kn_depth n = d"
proof -
  have ok: "\<forall>r \<in> set rows. row_ok r" using assms(1) unfolding named_flows_def rows_def by (rule final_ok)
  obtain le where N: "sg_nodes g = sort_by le (map snd (fst (graph_rows rows)))" unfolding g_def rows_def using buildSankey_graph(2) by blast
  show "distinct (map kn_id (sg_nodes g))"
    unfolding N distinct_map_sort_by by (rule graph_keys [OF ok])
  show "kn_bucket n \<longleftrightarrow> bucket_id (kn_id n)" "\<exists>r \<in> set rows. layer (kn_depth n) r = kn_id n" if "n \<in> set (sg_nodes g)"
    using that graph_node_bucket [OF ok] graph_node_props(1,4) [OF ok] by (force simp: N)+
  show "\<exists>n \<in> set (sg_nodes g). kn_id n = layer d r \<and> kn_depth n = d" if "r \<in> set rows" "d < 3"
    using graph_node_exists [OF ok that] graph_node_props(1) [OF ok] by (force simp: N)
qed

lemma distinct_keys_few:
  assumes "distinct (map f xs)" and "\<And>x. x \<in> set xs \<Longrightarrow> P' x \<Longrightarrow> f x \<in> set ks"
  shows "length (filter P' xs) \<le> length ks"
proof -
  have "length (filter P' xs) = card (set (map f (filter P' xs)))"
    using assms(1) by (metis distinct_card distinct_map_filter length_map)
  also have "\<dots> \<le> card (set ks)" using assms(2) by (intro card_mono) auto
  finally show ?thesis using card_length [of ks] by linarith
qed

lemma sankey_caps:
  assumes "named_flows fls"
  shows "length (filter (\<lambda>n. kn_depth n = 0 \<and> \<not> kn_bucket n) (sg_nodes (buildSankey fls opts))) \<le> or_default 10 (topProcs opts)"
    and "length (filter (\<lambda>n. kn_depth n = 2 \<and> \<not> kn_bucket n) (sg_nodes (buildSankey fls opts))) \<le> or_default 15 (topDests opts)"
proof -
  let ?ns = "sg_nodes (buildSankey fls opts)"
  note V = sankey_node_view [OF assms, where opts = opts]
  obtain ps ds where kept: "length ps \<le> or_default 10 (topProcs opts)" "length ds \<le> or_default 15 (topDests opts)"
    "\<forall>r \<in> set (final_rows fls opts). kept_row ps ds r"
    by (rule final_kept [of opts fls])
  have "length (filter (\<lambda>n. kn_depth n = 0 \<and> \<not> kn_bucket n) ?ns) \<le> length ps"
  proof (rule distinct_keys_few [OF V(1)])
    fix n assume n: "n \<in> set ?ns" "kn_depth n = 0 \<and> \<not> kn_bucket n"
    then obtain r where "r \<in> set (final_rows fls opts)" "rw_proc r = kn_id n" using V(3) [OF n(1)] by (auto simp: layer_def)
    then show "kn_id n \<in> set ps" using kept(3) V(2) [OF n(1)] n(2) by (auto simp: kept_row_def bucket_id_def)
  qed
  then show "length (filter (\<lambda>n. kn_depth n = 0 \<and> \<not> kn_bucket n) ?ns) \<le> or_default 10 (topProcs opts)" using kept(1) by linarith
  have "length (filter (\<lambda>n. kn_depth n = 2 \<and> \<not> kn_bucket n) ?ns) \<le> length ds"
  proof (rule distinct_keys_few [OF V(1)])
    fix n assume n: "n \<in> set ?ns" "kn_depth n = 2 \<and> \<not> kn_bucket n"
    then obtain r where r: "r \<in> set (final_rows fls opts)" "rw_dest r = kn_id n" using V(3) [OF n(1)] by (auto simp: layer_def)
    have "rw_dest r \<noteq> otherDest l" for l using V(2) [OF n(1)] n(2) r(2) by (auto simp: bucket_id_def otherDest_def starts_with_def)
    then show "kn_id n \<in> set ds" using kept(3) r unfolding kept_row_def by metis
  qed
  then show "length (filter (\<lambda>n. kn_depth n = 2 \<and> \<not> kn_bucket n) ?ns) \<le> or_default 15 (topDests opts)" using kept(2) by linarith
qed

lemma sankey_link_ends:
  assumes "named_flows fls" and "l \<in> set (sg_links (buildSankey fls opts))"
  defines "g \<equiv> buildSankey fls opts"
  shows "\<exists>a \<in> set (sg_nodes g). \<exists>b \<in> set (sg_nodes g). kl_source l = kn_id a \<and> kl_target l = kn_id b \<and> kn_depth b = kn_depth a + 1
    \<and> (kn_depth a = 0 \<and> \<not> kn_bucket a \<or> kn_depth b = 2 \<and> \<not> kn_bucket b \<longrightarrow> fmul (sg_total g) (or_default (fl (5 / 1000)) (minShare opts)) \<le> kl_value l)"
proof -
  let ?R = "final_rows fls opts" and ?mn = "fmul (sg_total g) (or_default (fl (5 / 1000)) (minShare opts))"
  note V = sankey_node_view [OF assms(1), where opts = opts, folded g_def]
  have ok: "\<forall>r \<in> set ?R. row_ok r" using assms(1) unfolding named_flows_def by (rule final_ok)
  obtain k where k: "(k, l) \<in> set (snd (graph_rows ?R))" using assms(2) by (auto simp: buildSankey_graph(1))
  obtain d r where d: "d < 2" and r: "r \<in> set ?R" and l: "kl_source l = layer d r" "kl_target l = layer (d + 1) r"
    "kl_value l = fsum (map rw_value (filter (\<lambda>q. layer d q = layer d r \<and> layer (d + 1) q = layer (d + 1) r) ?R))"
    by (rule graph_link [OF ok k])
  obtain a b where a: "a \<in> set (sg_nodes g)" "kn_id a = layer d r" "kn_depth a = d" and b: "b \<in> set (sg_nodes g)" "kn_id b = layer (d + 1) r" "kn_depth b = d + 1"
    using V(4) [OF r, of d] V(4) [OF r, of "d + 1"] d by auto
  have "?mn \<le> kl_value l" if "d = 0" "\<not> kn_bucket a"
  proof -
    have "rw_proc r \<noteq> OTHER_PROCS" using V(2) [OF a(1)] that a(2) by (auto simp: bucket_id_def layer_def)
    from final_hairlines(1) [OF assms(1) r this] show ?thesis using l(3) that by (simp add: layer_def g_def)
  qed
  moreover have "?mn \<le> kl_value l" if "d + 1 = 2" "\<not> kn_bucket b"
  proof -
    have "starts_with ''d:'' (rw_dest r)"
      using ok r V(2) [OF b(1)] that b(2) by (auto simp: row_ok_def bucket_id_def layer_def UNKNOWN_PEER_def otherDest_def starts_with_def)
    from final_hairlines(2) [OF assms(1) r this] show ?thesis using l(3) that by (simp add: layer_def g_def)
  qed
  ultimately show ?thesis using a b l by (intro bexI [OF _ a(1)] bexI [OF _ b(1)]) auto
qed

text \<open>
  (C30) The graph is well formed and readable: node ids are unique, so are the ends of links, and each link
  joins nodes of consecutive layers. At most the asked number of processes and of destinations are
  shown by name, and a link from a named process or to a named destination carries at least the
  minimal share of the total; everything smaller is in a bucket. Links are sorted.
\<close>

theorem sankey_readable:
  assumes "named_flows fls"
  shows "let g = buildSankey fls opts; mn = fmul (sg_total g) (or_default (fl (5 / 1000)) (minShare opts)) in
    distinct (map kn_id (sg_nodes g)) \<and> distinct (map (\<lambda>l. (kl_source l, kl_target l)) (sg_links g)) \<and> sorted_wrt link_order (sg_links g)
    \<and> length (filter (\<lambda>n. kn_depth n = 0 \<and> \<not> kn_bucket n) (sg_nodes g)) \<le> or_default 10 (topProcs opts)
    \<and> length (filter (\<lambda>n. kn_depth n = 2 \<and> \<not> kn_bucket n) (sg_nodes g)) \<le> or_default 15 (topDests opts)
    \<and> (\<forall>l \<in> set (sg_links g). \<exists>a \<in> set (sg_nodes g). \<exists>b \<in> set (sg_nodes g).
        kl_source l = kn_id a \<and> kl_target l = kn_id b \<and> kn_depth b = kn_depth a + 1
        \<and> (kn_depth a = 0 \<and> \<not> kn_bucket a \<or> kn_depth b = 2 \<and> \<not> kn_bucket b \<longrightarrow> mn \<le> kl_value l))"
proof -
  let ?g = "buildSankey fls opts"
  note L = buildSankey_graph(1) [of fls opts]
  have "\<forall>r \<in> set (final_rows fls opts). row_ok r" using assms unfolding named_flows_def by (rule final_ok)
  then have "distinct (map (\<lambda>l. (kl_source l, kl_target l)) (sg_links ?g))"
    unfolding L distinct_map_sort_by by (rule graph_link_keys)
  moreover have "sorted_wrt link_order (sg_links ?g)"
    unfolding L link_order_def by (intro sort_by_sorted_wrt comparator_by_then comparator_str_asc)
  moreover note sankey_node_view(1) [OF assms, of opts] sankey_caps [OF assms, of opts]
  ultimately show ?thesis unfolding Let_def
    by (intro conjI ballI sankey_link_ends [OF assms])
qed

definition sample_flow :: "string \<Rightarrow> string \<Rightarrow> string \<Rightarrow> num \<Rightarrow> FlowAgg" where
  "sample_flow name app ip tx = \<lparr> g_name = name, g_proto = ''TCP'', g_app = app, g_ip = ip, g_rport = 443, g_tx = tx, g_rx = 1,
     g_id = ''7:1'', g_geo = None \<rparr>"

definition sample_flows :: "FlowAgg list" where
  "sample_flows = [sample_flow ''curl'' ''HTTPS'' ''1.1.1.1'' 600, sample_flow ''ssh'' ''SSH'' ''2.2.2.2'' 300, sample_flow ''cron'' ''HTTPS'' ''3.3.3.3'' 2]"

definition sample_options :: SankeyOptions where
  "sample_options = \<lparr> sk_dir = FTx, topProcs = Some 2, topDests = None, minShare = None, byAsn = None \<rparr>"

theorem sankey_conserved_witness:
  "map kn_id (sg_nodes (buildSankey sample_flows sample_options))
     = [''p:curl'', ''p*other'', ''p:ssh'', ''a:HTTPS'', ''a:SSH'', ''d:1.1.1.1:443'', ''d*other:HTTPS'', ''d:2.2.2.2:443'']
   \<and> sg_total (buildSankey sample_flows sample_options) = 902"
proof -
  have "counted_flows sample_flows" "named_flows sample_flows"
    by (simp_all add: counted_flows_def named_flows_def sample_flows_def sample_flow_def)
  from sankey_conserved [OF this, of sample_options]
  have "sg_total (buildSankey sample_flows sample_options) = 902"
    by (simp add: Let_def sample_flows_def sample_flow_def sample_options_def flow_bytes_def)
  moreover have "map kn_id (sg_nodes (buildSankey sample_flows sample_options))
     = [''p:curl'', ''p*other'', ''p:ssh'', ''a:HTTPS'', ''a:SSH'', ''d:1.1.1.1:443'', ''d*other:HTTPS'', ''d:2.2.2.2:443'']" by code_simp
  ultimately show ?thesis by blast
qed

theorem sankey_readable_witness:
  "length (filter (\<lambda>n. kn_depth n = 0 \<and> \<not> kn_bucket n) (sg_nodes (buildSankey sample_flows sample_options))) \<le> 2
   \<and> map (\<lambda>l. (kl_source l, kl_target l, kl_value l)) (sg_links (buildSankey sample_flows sample_options))
     = [(''a:HTTPS'', ''d*other:HTTPS'', 2), (''a:HTTPS'', ''d:1.1.1.1:443'', 600), (''a:SSH'', ''d:2.2.2.2:443'', 300),
        (''p*other'', ''a:HTTPS'', 2), (''p:curl'', ''a:HTTPS'', 600), (''p:ssh'', ''a:SSH'', 300)]"
proof -
  have "named_flows sample_flows" by (simp add: named_flows_def sample_flows_def sample_flow_def)
  from sankey_readable [OF this, of sample_options]
  have "length (filter (\<lambda>n. kn_depth n = 0 \<and> \<not> kn_bucket n) (sg_nodes (buildSankey sample_flows sample_options))) \<le> 2"
    by (simp add: Let_def sample_options_def or_default_def)
  moreover have "map (\<lambda>l. (kl_source l, kl_target l, kl_value l)) (sg_links (buildSankey sample_flows sample_options))
     = [(''a:HTTPS'', ''d*other:HTTPS'', 2), (''a:HTTPS'', ''d:1.1.1.1:443'', 600), (''a:SSH'', ''d:2.2.2.2:443'', 300),
        (''p*other'', ''a:HTTPS'', 2), (''p:curl'', ''a:HTTPS'', 600), (''p:ssh'', ''a:SSH'', 300)]" by code_simp
  ultimately show ?thesis by blast
qed

end
