(* ===== verification/ClientRouter.thy ===== *)
theory ClientRouter
  imports ClientBase
begin

text \<open>
  \<^verbatim>\<open>web/src/client/router.ts\<close>: matching a path against a pattern and patching the query string. The location
  of the page is its path, query and hash as text; the history of the browser and the subscribers of a
  change are its environment. Reading and writing a query string (\<open>new URLSearchParams(text)\<close>, \<open>toString\<close>)
  and \<open>decodeURIComponent\<close>, which throws on a malformed escape, are parameters.
\<close>

section \<open>The query string\<close>

text \<open>\<open>URLSearchParams\<close>: \<open>set\<close> keeps the place of the first value and drops the others; \<open>delete\<close> drops all.\<close>

fun set_first :: "string \<Rightarrow> string \<Rightarrow> search \<Rightarrow> search" where
  "set_first k v [] = [(k, v)]"
| "set_first k v ((j, w) # q) = (if j = k then (k, v) # filter (\<lambda>p. fst p \<noteq> k) q else (j, w) # set_first k v q)"

definition search_delete :: "string \<Rightarrow> search \<Rightarrow> search" where
  "search_delete k q = filter (\<lambda>p. fst p \<noteq> k) q"

type_synonym patch = "(string \<times> string option) list"

definition patch_one :: "string \<times> string option \<Rightarrow> search \<Rightarrow> search" where
  "patch_one p q = (case snd p of None \<Rightarrow> search_delete (fst p) q | Some v \<Rightarrow> set_first (fst p) v q)"

record location =
  pathname :: string
  loc_search :: string
  loc_hash :: string

definition href :: "location \<Rightarrow> string" where
  "href l = pathname l @ loc_search l @ loc_hash l"

text \<open>The location a URL without host stands for: a lone \<open>?\<close> or \<open>#\<close> leaves the part empty.\<close>

definition url_part :: "string \<Rightarrow> string" where
  "url_part s = (if length s = 1 then [] else s)"

definition new_location :: "string \<Rightarrow> location" where
  "new_location url = (let before = takeWhile (\<lambda>c. c \<noteq> CHR ''#'') url in
     \<lparr> pathname = takeWhile (\<lambda>c. c \<noteq> CHR ''?'') before, loc_search = url_part (dropWhile (\<lambda>c. c \<noteq> CHR ''?'') before),
       loc_hash = url_part (dropWhile (\<lambda>c. c \<noteq> CHR ''#'') url) \<rparr>)"

text \<open>\<open>navigate\<close>: the same URL changes nothing, any other becomes the location, as a new or as the current entry of the history.\<close>

datatype history_op = Push | Replace | Stay

definition navigate :: "string \<Rightarrow> bool \<Rightarrow> location \<Rightarrow> location \<times> history_op" where
  "navigate url replace' cur = (if url = href cur then (cur, Stay) else (new_location url, if replace' then Replace else Push))"

definition setSearchParams :: "(string \<Rightarrow> search) \<Rightarrow> (search \<Rightarrow> string) \<Rightarrow> patch \<Rightarrow> bool \<Rightarrow> location \<Rightarrow> location \<times> history_op" where
  "setSearchParams parse print ps replace' cur =
     (let qs = print (fold patch_one ps (parse (loc_search cur)))
      in navigate (pathname cur @ (if qs \<noteq> [] then CHR ''?'' # qs else [])) replace' cur)"

definition useSearchParam :: "(string \<Rightarrow> search) \<Rightarrow> string \<Rightarrow> string \<Rightarrow> location \<Rightarrow> string" where
  "useSearchParam parse name fallback cur = (case search_get (parse (loc_search cur)) name of Some v \<Rightarrow> v | None \<Rightarrow> fallback)"

definition set_search_param :: "(string \<Rightarrow> search) \<Rightarrow> (search \<Rightarrow> string) \<Rightarrow> string \<Rightarrow> string \<Rightarrow> string \<Rightarrow> bool \<Rightarrow> location \<Rightarrow> location \<times> history_op" where
  "set_search_param parse print name fallback v replace' cur =
     setSearchParams parse print [(name, if v = fallback then None else Some v)] replace' cur"

lemma search_get_delete: "search_get (search_delete k q) j = (if j = k then None else search_get q j)"
  by (induction q) (auto simp: search_get_def search_delete_def)

lemma search_get_set: "search_get (set_first k v q) j = (if j = k then Some v else search_get q j)"
proof (induction q)
  case (Cons p q)
  have "search_get (filter (\<lambda>p. fst p \<noteq> k) q) j = search_get q j" if "j \<noteq> k"
    using search_get_delete [of k q j] that by (simp add: search_delete_def)
  then show ?case using Cons by (cases p) (auto simp: search_get_def)
qed (simp add: search_get_def)

lemma search_get_patch_one: "search_get (patch_one p q) j = (if j = fst p then snd p else search_get q j)"
  by (simp add: patch_one_def search_get_set search_get_delete split: option.split)

text \<open>A patch leaves the parameters it does not name alone, and the last entry of a name decides.\<close>

lemma search_get_patch:
  "search_get (fold patch_one ps q) j = (case map_of (rev ps) j of Some v \<Rightarrow> v | None \<Rightarrow> search_get q j)"
proof (induction ps arbitrary: q)
  case (Cons p ps)
  show ?case using Cons [of "patch_one p q"]
    by (cases p) (auto simp: search_get_patch_one map_add_def split: option.splits)
qed simp

text \<open>
  What is relied on of the codec for a query: it reads back what it wrote, and writes no hash sign.
\<close>

definition printable :: "(string \<Rightarrow> search) \<Rightarrow> (search \<Rightarrow> string) \<Rightarrow> search \<Rightarrow> bool" where
  "printable parse print q \<longleftrightarrow> parse (if print q \<noteq> [] then CHR ''?'' # print q else []) = q \<and> CHR ''#'' \<notin> set (print q)"

lemma takeWhile_skip: "c \<notin> set s \<Longrightarrow> takeWhile (\<lambda>x. x \<noteq> c) (s @ t) = s @ takeWhile (\<lambda>x. x \<noteq> c) t"
  and dropWhile_skip: "c \<notin> set s \<Longrightarrow> dropWhile (\<lambda>x. x \<noteq> c) (s @ t) = dropWhile (\<lambda>x. x \<noteq> c) t"
  by (induction s) auto

lemma new_location_append:
  assumes "CHR ''?'' \<notin> set p" "CHR ''#'' \<notin> set p" "CHR ''#'' \<notin> set t" and "t = [] \<or> (\<exists>u. t = CHR ''?'' # u \<and> u \<noteq> [])"
  shows "new_location (p @ t) = \<lparr> pathname = p, loc_search = t, loc_hash = [] \<rparr>"
proof -
  have tw: "takeWhile (\<lambda>c. c \<noteq> CHR ''#'') t = t" "dropWhile (\<lambda>c. c \<noteq> CHR ''#'') t = []"
    using takeWhile_skip [of _ t "[]"] dropWhile_skip [of _ t "[]"] assms(3) by auto
  have "new_location (p @ t) = \<lparr> pathname = p @ takeWhile (\<lambda>c. c \<noteq> CHR ''?'') t, loc_search = url_part (dropWhile (\<lambda>c. c \<noteq> CHR ''?'') t), loc_hash = [] \<rparr>"
    unfolding new_location_def Let_def takeWhile_skip [OF assms(2)] dropWhile_skip [OF assms(2)] tw
      takeWhile_skip [OF assms(1)] dropWhile_skip [OF assms(1)] by (simp add: url_part_def)
  then show ?thesis using assms(4) by (elim disjE exE conjE) (simp_all add: url_part_def)
qed

lemma setSearchParams_location:
  assumes "setSearchParams parse print ps r cur = (loc, op)" and "printable parse print (fold patch_one ps (parse (loc_search cur)))"
    and "CHR ''?'' \<notin> set (pathname cur)" "CHR ''#'' \<notin> set (pathname cur)"
    and "loc_hash cur = [] \<or> hd (loc_hash cur) = CHR ''#''"
  shows "parse (loc_search loc) = fold patch_one ps (parse (loc_search cur)) \<and> pathname loc = pathname cur \<and> loc_hash loc = [] \<and> (op = Stay \<longleftrightarrow> loc = cur)"
proof -
  let ?q = "fold patch_one ps (parse (loc_search cur))"
  define t where "t = (if print ?q \<noteq> [] then CHR ''?'' # print ?q else [])"
  have t: "parse t = ?q" "CHR ''#'' \<notin> set t" "t = [] \<or> (\<exists>u. t = CHR ''?'' # u \<and> u \<noteq> [])"
    using assms(2) by (auto simp: t_def printable_def)
  have nav: "navigate (pathname cur @ t) r cur = (loc, op)" using assms(1) by (simp add: setSearchParams_def t_def Let_def)
  have new: "new_location (pathname cur @ t) = \<lparr> pathname = pathname cur, loc_search = t, loc_hash = [] \<rparr>"
    using t(2,3) assms(3,4) by (intro new_location_append)
  have same: "cur = new_location (pathname cur @ t)" if "pathname cur @ t = href cur"
  proof -
    have e: "t = loc_search cur @ loc_hash cur" using that by (simp add: href_def)
    then have "loc_hash cur = []" using t(2) assms(5) by (metis Un_iff list.set_sel(1) set_append)
    then show ?thesis unfolding new using e by simp
  qed
  then have loc: "loc = new_location (pathname cur @ t)" using nav by (auto simp: navigate_def split: if_splits)
  have "pathname cur @ t = href cur" if "loc = cur"
  proof -
    have "cur = \<lparr> pathname = pathname cur, loc_search = t, loc_hash = [] \<rparr>" using loc that unfolding new by simp
    then have "loc_search cur = t" "loc_hash cur = []" by (metis location.select_convs(2), metis location.select_convs(3))
    then show ?thesis by (simp add: href_def)
  qed
  moreover have "op = Stay \<longleftrightarrow> pathname cur @ t = href cur" using nav by (auto simp: navigate_def split: if_splits)
  ultimately have "op = Stay \<longleftrightarrow> loc = cur" using same loc by metis
  then show ?thesis unfolding loc new using t(1) by simp
qed

text \<open>
  A parameter as state: what is set is what is read, the default leaves no trace in the URL, other
  parameters and the path stay, and the history is left alone exactly when the location stays.
\<close>

theorem search_param_state:
  assumes "set_search_param parse print name fallback v r cur = (loc, op)"
    and "printable parse print (patch_one (name, if v = fallback then None else Some v) (parse (loc_search cur)))"
    and "CHR ''?'' \<notin> set (pathname cur)" and "CHR ''#'' \<notin> set (pathname cur)"
    and "loc_hash cur = [] \<or> hd (loc_hash cur) = CHR ''#''"
  shows "useSearchParam parse name fallback loc = v \<and> pathname loc = pathname cur
    \<and> (\<forall>other. other \<noteq> name \<longrightarrow> search_get (parse (loc_search loc)) other = search_get (parse (loc_search cur)) other)
    \<and> (v = fallback \<longrightarrow> search_get (parse (loc_search loc)) name = None)
    \<and> (op = Stay \<longleftrightarrow> loc = cur)"
  using setSearchParams_location [of parse print "[(name, if v = fallback then None else Some v)]" r cur loc op] assms
  by (auto simp: set_search_param_def useSearchParam_def search_get_patch_one)

theorem search_param_state_witness:
  "let parse = (\<lambda>s. if s = ''?tab=x'' then [(''tab'', ''x'')] else []); print = (\<lambda>q. if q = [] then [] else ''tab=x'');
       cur = \<lparr> pathname = ''/history'', loc_search = [], loc_hash = [] \<rparr>;
       res = set_search_param parse print ''tab'' ''all'' ''x'' False cur
   in useSearchParam parse ''tab'' ''all'' (fst res) = ''x'' \<and> res = (\<lparr> pathname = ''/history'', loc_search = ''?tab=x'', loc_hash = [] \<rparr>, Push)"
proof -
  let ?parse = "\<lambda>s. if s = ''?tab=x'' then [(''tab'', ''x'')] else []" and ?print = "\<lambda>q :: search. if q = [] then [] else ''tab=x''"
  let ?cur = "\<lparr> pathname = ''/history'', loc_search = [], loc_hash = [] \<rparr>"
  have r: "set_search_param ?parse ?print ''tab'' ''all'' ''x'' False ?cur = (\<lparr> pathname = ''/history'', loc_search = ''?tab=x'', loc_hash = [] \<rparr>, Push)"
    by code_simp
  moreover have "useSearchParam ?parse ''tab'' ''all'' \<lparr> pathname = ''/history'', loc_search = ''?tab=x'', loc_hash = [] \<rparr> = ''x''"
    using search_param_state [OF r] by (simp add: printable_def patch_one_def)
  ultimately show ?thesis by (simp add: Let_def)
qed

section \<open>Paths\<close>

text \<open>\<open>path.replace(/\/+$/, '')\<close>.\<close>

definition strip_slashes :: "string \<Rightarrow> string" where
  "strip_slashes s = rev (dropWhile (\<lambda>c. c = CHR ''/'') (rev s))"

datatype matched = NoMatch | Throws | Params "(string \<times> string) list"

fun match_loop :: "(string \<Rightarrow> string option) \<Rightarrow> string list \<Rightarrow> string list \<Rightarrow> (string, string) jsmap \<Rightarrow> matched" where
  "match_loop dec (w # want) (g # got) ps =
     (if starts_with '':'' w then
        (if g = [] then NoMatch else case dec g of None \<Rightarrow> Throws | Some v \<Rightarrow> match_loop dec want got (map_set (tl w) v ps))
      else if w \<noteq> g then NoMatch else match_loop dec want got ps)"
| "match_loop dec want got ps = Params ps"

definition matchPath :: "(string \<Rightarrow> string option) \<Rightarrow> string \<Rightarrow> string \<Rightarrow> matched" where
  "matchPath dec pattern path =
     (let want = split_char CHR ''/'' pattern; got = split_char CHR ''/'' (strip_slashes path)
      in if length want \<noteq> length got then NoMatch else match_loop dec want got [])"

text \<open>The path a pattern stands for, with its parameters filled in.\<close>

definition fill_part :: "(string \<Rightarrow> string) \<Rightarrow> string \<Rightarrow> string" where
  "fill_part f w = (if starts_with '':'' w then f (tl w) else w)"

definition fill_path :: "(string \<Rightarrow> string) \<Rightarrow> string \<Rightarrow> string" where
  "fill_path f pattern = join ''/'' (map (fill_part f) (split_char CHR ''/'' pattern))"

definition params_of :: "string \<Rightarrow> string list" where
  "params_of pattern = map tl (filter (starts_with '':'') (split_char CHR ''/'' pattern))"

lemma match_loop_filled:
  assumes "\<forall>w \<in> set want. starts_with '':'' w \<longrightarrow> f (tl w) \<noteq> [] \<and> dec (f (tl w)) = Some (v (tl w))"
  shows "match_loop dec want (map (fill_part f) want) ps = Params (fold (\<lambda>k m. map_set k (v k) m) (map tl (filter (starts_with '':'') want)) ps)"
  using assms by (induction want arbitrary: ps) (auto simp: fill_part_def)

lemma get_fold_set: "map_get (fold (\<lambda>k m. map_set k (v k) m) ks m) k = (if k \<in> set ks then Some (v k) else map_get m k)"
  by (induction ks arbitrary: m) (auto simp: alm.get_put)

text \<open>
  (C34) Links and routes agree: a path made from a pattern by filling its parameters with non-empty pieces
  without a slash matches the pattern, also with slashes after it, and gives the decoded pieces back.
\<close>

theorem matchPath_fill:
  assumes "\<forall>k \<in> set (params_of pattern). f k \<noteq> [] \<and> CHR ''/'' \<notin> set (f k) \<and> dec (f k) = Some (v k)"
    and "last (fill_path f pattern) \<noteq> CHR ''/''" and "fill_path f pattern \<noteq> []"
  shows "\<exists>ps. matchPath dec pattern (fill_path f pattern @ replicate n CHR ''/'') = Params ps
    \<and> (\<forall>k. map_get ps k = (if k \<in> set (params_of pattern) then Some (v k) else None))"
proof -
  let ?want = "split_char CHR ''/'' pattern" and ?path = "fill_path f pattern"
  have parts: "CHR ''/'' \<notin> set (fill_part f w)" if "w \<in> set ?want" for w
    using that assms(1) split_char_pieces [OF that] by (auto simp: fill_part_def params_of_def)
  obtain p c where "?path = p @ [c]" "c \<noteq> CHR ''/''" using assms(2,3) by (metis rev_exhaust last_snoc)
  then have "strip_slashes (?path @ replicate n CHR ''/'') = ?path"
    by (simp add: strip_slashes_def dropWhile_append)
  moreover have "split_char CHR ''/'' ?path = map (fill_part f) ?want"
    unfolding fill_path_def using parts by (intro split_char_join) auto
  moreover have "match_loop dec ?want (map (fill_part f) ?want) [] = Params (fold (\<lambda>k m. map_set k (v k) m) (params_of pattern) [])"
    unfolding params_of_def using assms(1) by (intro match_loop_filled) (auto simp: params_of_def)
  ultimately show ?thesis by (auto simp: matchPath_def get_fold_set map_get_def [of "[]"])
qed

theorem matchPath_fill_witness:
  "\<exists>ps. matchPath Some ''/process/:pid/:start'' (''/process/12/99'' @ ''/'') = Params ps \<and> map_get ps ''pid'' = Some ''12''"
proof -
  let ?f = "\<lambda>k. if k = ''pid'' then ''12'' else ''99''"
  have e: "fill_path ?f ''/process/:pid/:start'' = ''/process/12/99''" "params_of ''/process/:pid/:start'' = [''pid'', ''start'']"
    by (simp_all add: fill_path_def params_of_def fill_part_def starts_with_def)
  show ?thesis using matchPath_fill [of "''/process/:pid/:start''" ?f Some ?f 1] unfolding e by auto
qed

text \<open>
  A path with a malformed escape does not match nor fail to match: the decoder throws.
\<close>

lemma matchPath_throws:
  assumes "decode ''%'' = None"
  shows "matchPath decode ''/process/:pid/:start'' ''/process/%/1'' = Throws"
proof -
  have "strip_slashes ''/process/%/1'' = ''/process/%/1''" by code_simp
  moreover have "split_char CHR ''/'' ''/process/%/1'' = [[], ''process'', ''%'', ''1'']" "split_char CHR ''/'' ''/process/:pid/:start'' = [[], ''process'', '':pid'', '':start'']" by code_simp+
  ultimately show ?thesis using assms by (simp add: matchPath_def Let_def starts_with_def)
qed

end
