(* ===== verification/ClientSeries.thy ===== *)
theory ClientSeries
  imports ClientRouter ClientColors Burst
begin

text \<open>
  The series behind the history charts: \<^verbatim>\<open>web/src/client/history/throughputSeries.ts\<close> (parameters,
  drill-down, bands and totals; the colors are in \<open>ClientColors\<close>), \<^verbatim>\<open>history/ghost.ts\<close> (the week before),
  \<^verbatim>\<open>history/burst.ts\<close> (the peak band), \<^verbatim>\<open>history/callsSeries.ts\<close> and \<^verbatim>\<open>history/unknownShare.ts\<close>. Of the
  objects handed to the chart library the data is modelled and the styling left out.
\<close>

section \<open>Parameters of the throughput chart\<close>

definition by_text :: "ThroughputBy \<Rightarrow> string" where
  "by_text b = (case b of ByApp \<Rightarrow> ''app'' | ByName \<Rightarrow> ''name'' | ByProto \<Rightarrow> ''proto'' | ByUid \<Rightarrow> ''uid'' | ByDest \<Rightarrow> ''dest'')"

definition BY_VALUES :: "ThroughputBy list" where
  "BY_VALUES = [ByApp, ByName, ByProto, ByUid, ByDest]"

definition DIR_VALUES :: "(string \<times> ThroughputDir) list" where
  "DIR_VALUES = [(''both'', DBoth), (''tx'', DTx), (''rx'', DRx), (''total'', DTotal)]"

definition TOP_DEFAULT :: num where "TOP_DEFAULT = 8"
definition TOP_MIN :: num where "TOP_MIN = 5"
definition TOP_MAX :: num where "TOP_MAX = 20"

type_synonym Filters = "ThroughputBy \<rightharpoonup> string"

definition filterParam :: "ThroughputBy \<Rightarrow> string" where
  "filterParam d = ''filter.'' @ by_text d"

definition DRILL_NEXT :: "ThroughputBy \<Rightarrow> ThroughputBy" where
  "DRILL_NEXT b = (case b of ByApp \<Rightarrow> ByName | ByName \<Rightarrow> ByDest | ByDest \<Rightarrow> ByName | ByProto \<Rightarrow> ByApp | ByUid \<Rightarrow> ByName)"

record ThroughputParams =
  tp_by :: ThroughputBy
  tp_dir :: ThroughputDir
  tp_top :: num
  tp_filters :: Filters

definition parse_filters :: "search \<Rightarrow> Filters" where
  "parse_filters q = (\<lambda>d. case search_get q (filterParam d) of
       Some v \<Rightarrow> if v = [] \<or> d = ByUid \<and> \<not> all_digits v then None else Some v
     | None \<Rightarrow> None)"

definition parseThroughputParams :: "search \<Rightarrow> ThroughputParams" where
  "parseThroughputParams q =
     \<lparr> tp_by = (case search_get q ''by'' of Some s \<Rightarrow> (case List.find (\<lambda>b. by_text b = s) BY_VALUES of Some b \<Rightarrow> b | None \<Rightarrow> ByApp) | None \<Rightarrow> ByApp),
       tp_dir = (case search_get q ''dir'' of Some s \<Rightarrow> (case map_of DIR_VALUES s of Some d \<Rightarrow> d | None \<Rightarrow> DBoth) | None \<Rightarrow> DBoth),
       tp_top = (case search_get q ''top'' of None \<Rightarrow> TOP_DEFAULT
         | Some s \<Rightarrow> (case js_Number s of Some x \<Rightarrow> if isInteger x \<and> TOP_MIN \<le> x \<and> x \<le> TOP_MAX then x else TOP_DEFAULT | None \<Rightarrow> TOP_DEFAULT)),
       tp_filters = parse_filters q \<rparr>"

definition drill_next :: "ThroughputParams \<Rightarrow> string \<Rightarrow> ThroughputBy option" where
  "drill_next p key = (let filters = (tp_filters p)(tp_by p \<mapsto> key); nxt = DRILL_NEXT (tp_by p)
     in if filters nxt \<noteq> None then List.find (\<lambda>d. filters d = None) BY_VALUES else Some nxt)"

definition drillDown :: "ThroughputParams \<Rightarrow> string \<Rightarrow> patch option" where
  "drillDown p key = (if key = THROUGHPUT_OTHER then None else
     Some ((filterParam (tp_by p), Some key) # (case drill_next p key of
        Some b \<Rightarrow> [(''by'', if b = ByApp then None else Some (by_text b))] | None \<Rightarrow> [])))"

lemma by_text_inj [simp]: "by_text a = by_text b \<longleftrightarrow> a = b"
  by (cases a; cases b) (simp_all add: by_text_def)

lemma filterParam_inj [simp]: "filterParam a = filterParam b \<longleftrightarrow> a = b" "filterParam a \<noteq> ''by''" "filterParam a \<noteq> ''dir''" "filterParam a \<noteq> ''top''"
  by (simp_all add: filterParam_def)

lemma find_by_text: "List.find (\<lambda>b. by_text b = by_text a) BY_VALUES = Some a"
  by (cases a) (simp_all add: BY_VALUES_def by_text_def)

lemma set_BY_VALUES: "b \<in> set BY_VALUES"
  by (cases b) (simp_all add: BY_VALUES_def)

text \<open>The parameters after the patch of a drill-down.\<close>

lemma drillDown_parsed:
  assumes "drillDown p key = Some ps" and "p = parseThroughputParams q" and "key \<noteq> []" and "tp_by p = ByUid \<longrightarrow> all_digits key"
  defines "p' \<equiv> parseThroughputParams (fold patch_one ps q)"
  shows "tp_filters p' = (tp_filters p)(tp_by p \<mapsto> key) \<and> tp_dir p' = tp_dir p \<and> tp_top p' = tp_top p
    \<and> tp_by p' = (case drill_next p key of Some b \<Rightarrow> b | None \<Rightarrow> tp_by p)"
proof -
  define f where "f = (tp_filters p)(tp_by p \<mapsto> key)"
  define nxt where "nxt = drill_next p key"
  have ps: "ps = (filterParam (tp_by p), Some key) # (case nxt of Some b \<Rightarrow> [(''by'', if b = ByApp then None else Some (by_text b))] | None \<Rightarrow> [])"
    using assms(1) by (simp add: drillDown_def nxt_def split: if_splits)
  have get: "search_get (fold patch_one ps q) j = (if j = filterParam (tp_by p) then Some key
      else if j = ''by'' \<and> nxt \<noteq> None then (if the nxt = ByApp then None else Some (by_text (the nxt))) else search_get q j)" for j
    unfolding ps by (cases nxt) (auto simp: search_get_patch_one)
  have filters: "tp_filters p' = f"
  proof
    fix d
    have "parse_filters (fold patch_one ps q) d = ((parse_filters q)(tp_by p \<mapsto> key)) d"
      by (cases "d = tp_by p") (use assms(3,4) in \<open>simp_all add: parse_filters_def get\<close>)
    moreover have "tp_filters p = parse_filters q" unfolding assms(2) by (simp add: parseThroughputParams_def)
    ultimately show "tp_filters p' d = f d" by (simp add: p'_def parseThroughputParams_def f_def)
  qed
  have rest: "tp_dir p' = tp_dir p" "tp_top p' = tp_top p"
    unfolding p'_def assms(2) parseThroughputParams_def by (simp_all add: get filterParam_inj(3,4) [symmetric])
  have grp: "tp_by p' = (case nxt of Some b \<Rightarrow> b | None \<Rightarrow> tp_by p)"
  proof (cases nxt)
    case None
    then show ?thesis unfolding p'_def assms(2) parseThroughputParams_def by (simp add: get filterParam_inj(2) [symmetric])
  next
    case (Some b)
    then show ?thesis unfolding p'_def parseThroughputParams_def by (cases "b = ByApp") (auto simp: get find_by_text [unfolded by_text_inj] filterParam_inj(2) [symmetric])
  qed
  show ?thesis using filters rest grp by (simp add: f_def nxt_def)
qed

lemma find_filter: "List.find p xs = (case filter p xs of [] \<Rightarrow> None | x # _ \<Rightarrow> Some x)"
  by (induction xs) auto

text \<open>
  (C33) Drilling down through the address bar: writing the patch of a double-click on a key into the
  location of the page, whatever its query string, and reading the parameters of the new location
  gives the old ones with the key as one more filter, on the same path. The chart is then grouped by
  name after app and after user, by destination after name, by name after destination and by app
  after protocol; where that dimension is filtered already, by the first of app, name, protocol, user
  and destination that is not, and where all are, as before. Reading and writing a query string are
  assumed to be inverse for the query in question.
\<close>

theorem drillDown_applied:
  assumes "drillDown p key = Some ps" and "p = parseThroughputParams (parse (loc_search cur))"
    and "key \<noteq> []" and "tp_by p = ByUid \<longrightarrow> all_digits key"
    and "setSearchParams parse print ps r cur = (loc, op)"
    and "printable parse print (fold patch_one ps (parse (loc_search cur)))"
    and "CHR ''?'' \<notin> set (pathname cur)" "CHR ''#'' \<notin> set (pathname cur)"
    and "loc_hash cur = [] \<or> hd (loc_hash cur) = CHR ''#''"
  defines "p' \<equiv> parseThroughputParams (parse (loc_search loc))"
  defines "nxt \<equiv> case tp_by p of ByApp \<Rightarrow> ByName | ByName \<Rightarrow> ByDest | ByDest \<Rightarrow> ByName | ByProto \<Rightarrow> ByApp | ByUid \<Rightarrow> ByName"
  shows "pathname loc = pathname cur \<and> tp_filters p' = (tp_filters p)(tp_by p \<mapsto> key)
    \<and> tp_dir p' = tp_dir p \<and> tp_top p' = tp_top p
    \<and> tp_by p' = (if tp_filters p' nxt = None then nxt
        else case filter (\<lambda>d. tp_filters p' d = None) [ByApp, ByName, ByProto, ByUid, ByDest] of d # _ \<Rightarrow> d | [] \<Rightarrow> tp_by p)"
proof -
  have loc: "parse (loc_search loc) = fold patch_one ps (parse (loc_search cur))" "pathname loc = pathname cur"
    using setSearchParams_location [OF assms(5-9)] by simp_all
  note d = drillDown_parsed [OF assms(1-4), folded loc(1), folded p'_def]
  have n: "DRILL_NEXT (tp_by p) = nxt" by (simp add: DRILL_NEXT_def nxt_def)
  define l where "l = filter (\<lambda>d. tp_filters p' d = None) [ByApp, ByName, ByProto, ByUid, ByDest]"
  have f: "(tp_filters p)(tp_by p \<mapsto> key) = tp_filters p'" using d by (rule conjunct1 [THEN sym])
  have nx: "drill_next p key = (if tp_filters p' nxt \<noteq> None then (case l of [] \<Rightarrow> None | d # _ \<Rightarrow> Some d) else Some nxt)"
    by (simp only: drill_next_def Let_def n f find_filter BY_VALUES_def l_def)
  have "(case drill_next p key of Some b \<Rightarrow> b | None \<Rightarrow> tp_by p)
      = (if tp_filters p' nxt = None then nxt else case l of d # _ \<Rightarrow> d | [] \<Rightarrow> tp_by p)"
    unfolding nx by (cases l; cases "tp_filters p' nxt") simp_all
  moreover note d
  ultimately show ?thesis unfolding l_def using loc(2) by (simp only: simp_thms)
qed

text \<open>The codec of one query string, enough for the page that is opened without one.\<close>

definition sample_parse_search :: "string \<Rightarrow> search" where
  "sample_parse_search s = (if s = ''?filter.app=HTTPS&by=name'' then [(''filter.app'', ''HTTPS''), (''by'', ''name'')] else [])"

definition sample_print_search :: "search \<Rightarrow> string" where
  "sample_print_search q = (if q = [] then [] else ''filter.app=HTTPS&by=name'')"

theorem drillDown_applied_witness:
  "let cur = \<lparr> pathname = ''/history'', loc_search = [], loc_hash = [] \<rparr>; p = parseThroughputParams [];
       loc = fst (setSearchParams sample_parse_search sample_print_search (the (drillDown p ''HTTPS'')) False cur);
       p' = parseThroughputParams (sample_parse_search (loc_search loc))
   in loc = \<lparr> pathname = ''/history'', loc_search = ''?filter.app=HTTPS&by=name'', loc_hash = [] \<rparr>
      \<and> tp_by p' = ByName \<and> tp_filters p' = [ByApp \<mapsto> ''HTTPS'']"
proof -
  let ?cur = "\<lparr> pathname = ''/history'', loc_search = [], loc_hash = [] \<rparr>" and ?p = "parseThroughputParams []"
  let ?loc = "\<lparr> pathname = ''/history'', loc_search = ''?filter.app=HTTPS&by=name'', loc_hash = [] \<rparr>"
  have p: "tp_by ?p = ByApp" "tp_filters ?p = Map.empty"
    by (simp_all add: parseThroughputParams_def search_get_def parse_filters_def fun_eq_iff)
  have d: "drillDown ?p ''HTTPS'' = Some [(''filter.app'', Some ''HTTPS''), (''by'', Some ''name'')]"
    by (simp add: drillDown_def THROUGHPUT_OTHER_def drill_next_def p DRILL_NEXT_def filterParam_def by_text_def)
  have s: "setSearchParams sample_parse_search sample_print_search [(''filter.app'', Some ''HTTPS''), (''by'', Some ''name'')] False ?cur = (?loc, Push)"
    by code_simp
  have "printable sample_parse_search sample_print_search
      (fold patch_one [(''filter.app'', Some ''HTTPS''), (''by'', Some ''name'')] (sample_parse_search (loc_search ?cur)))"
    by (simp add: printable_def sample_parse_search_def sample_print_search_def patch_one_def)
  then show ?thesis
    using drillDown_applied [OF d _ _ _ s] by (simp add: s d p sample_parse_search_def [of "[]"])
qed

section \<open>Bands and totals\<close>

datatype Stack = KTx | KRx | KSum

type_synonym cpoint = "int \<times> num option"

definition keyLabel :: "string \<Rightarrow> (string, string) jsmap \<Rightarrow> string" where
  "keyLabel key labels = (if key = THROUGHPUT_OTHER then ''other'' else case map_get labels key of Some l \<Rightarrow> l | None \<Rightarrow> key)"

definition stacksOf :: "ThroughputDir \<Rightarrow> Stack list" where
  "stacksOf dir = (case dir of DBoth \<Rightarrow> [KTx, KRx] | DTotal \<Rightarrow> [KSum] | DTx \<Rightarrow> [KTx] | DRx \<Rightarrow> [KRx])"

record HistoryBand =
  hb_key :: string
  hb_label :: string
  hb_color :: string
  hb_faded :: bool
  hb_data :: "(Stack, cpoint list) jsmap"

record HistorySeries =
  hs_stacks :: "Stack list"
  hs_bands :: "HistoryBand list"
  hs_totals :: "(Stack, cpoint list) jsmap"
  hs_keyOf :: "(string, string) jsmap"

text \<open>\<open>v ? -v : 0\<close>, and \<open>v[i] ?? 0\<close>.\<close>

definition mirror :: "num \<Rightarrow> num" where
  "mirror v = (if v \<noteq> 0 then - v else 0)"

definition nth0 :: "num list \<Rightarrow> nat \<Rightarrow> num" where
  "nth0 v i = (if i < length v then v ! i else 0)"

definition key_list :: "(string, num list) jsmap \<Rightarrow> string \<Rightarrow> num list" where
  "key_list m k = (case map_get m k of Some l \<Rightarrow> l | None \<Rightarrow> [])"

definition band_values :: "ThroughputResponse \<Rightarrow> ThroughputDir \<Rightarrow> string \<Rightarrow> Stack \<Rightarrow> num list" where
  "band_values res dir key s = (let tx = key_list (t_tx res) key; rx = key_list (t_rx res) key in
     case s of KTx \<Rightarrow> tx
       | KRx \<Rightarrow> if dir = DBoth then map mirror rx else rx
       | KSum \<Rightarrow> map (\<lambda>i. fadd (tx ! i) (nth0 rx i)) [0..<length tx])"

text \<open>One key: its band, and what it adds to the running sums of the stacks.\<close>

type_synonym stack_sums = "(Stack \<times> num list) list"

definition band_of :: "ThroughputResponse \<Rightarrow> ThroughputDir \<Rightarrow> (string, string \<times> bool) jsmap \<Rightarrow> string \<Rightarrow> HistoryBand" where
  "band_of res dir colors key =
     (let (c, f) = (case map_get colors key of Some cf \<Rightarrow> cf | None \<Rightarrow> (''#898781'', False))
      in \<lparr> hb_key = key, hb_label = keyLabel key (t_labels res), hb_color = c, hb_faded = f,
           hb_data = map (\<lambda>s. (s, map2 (\<lambda>t i. (t, Some (nth0 (band_values res dir key s) i))) (t_t res) [0..<length (t_t res)])) (stacksOf dir) \<rparr>)"

definition add_sums :: "ThroughputResponse \<Rightarrow> ThroughputDir \<Rightarrow> string \<Rightarrow> stack_sums \<Rightarrow> stack_sums" where
  "add_sums res dir key sms = map (\<lambda>(s, xs). (s, map2 (\<lambda>x i. fadd x (nth0 (band_values res dir key s) i)) xs [0..<length xs])) sms"

definition buildSeries :: "ThroughputResponse \<Rightarrow> ThroughputDir \<Rightarrow> (string, string \<times> bool) jsmap \<Rightarrow> HistorySeries" where
  "buildSeries res dir colors =
     (let stacks = stacksOf dir; n = length (t_t res);
          sms = fold (add_sums res dir) (t_keys res) (map (\<lambda>s. (s, replicate n 0)) stacks)
      in \<lparr> hs_stacks = stacks, hs_bands = map (band_of res dir colors) (t_keys res),
           hs_totals = map (\<lambda>(s, xs). (s, zip (t_t res) (map (\<lambda>x. Some (round_dec 1000 x)) xs))) sms,
           hs_keyOf = fold (\<lambda>k. map_set (keyLabel k (t_labels res)) k) (t_keys res) [] \<rparr>)"

lemma add_sums_fold:
  assumes "\<forall>(s, xs) \<in> set sms. length xs = n"
  shows "fold (add_sums res dir) keys sms =
    map (\<lambda>(s, xs). (s, map (\<lambda>i. foldl fadd (xs ! i) (map (\<lambda>k. nth0 (band_values res dir k s) i) keys)) [0..<n])) sms"
  using assms
proof (induction keys arbitrary: sms)
  case Nil
  then show ?case by (auto intro!: map_idI [symmetric] nth_equalityI)
next
  case (Cons k keys)
  have "\<forall>(s, xs) \<in> set (add_sums res dir k sms). length xs = n" using Cons.prems by (auto simp: add_sums_def)
  from Cons.IH [OF this] show ?case using Cons.prems by (auto simp: add_sums_def)
qed

text \<open>
  The history chart: one band per key in the order of the answer, with a point in every bucket; in each
  stack of the direction the total line is, bucket by bucket, the sum of the bands (rounded to three
  decimals), and received traffic points down exactly when both directions are drawn.
\<close>

theorem buildSeries_totals:
  "let s = buildSeries res dir colors; n = length (t_t res);
       value = (\<lambda>b st i. snd (the (map_get (hb_data b) st) ! i)) in
    map hb_key (hs_bands s) = t_keys res
    \<and> (\<forall>st \<in> set (stacksOf dir). map_get (hs_totals s) st
        = Some (zip (t_t res) (map (\<lambda>i. Some (round_dec 1000 (foldl fadd 0 (map (\<lambda>b. the (value b st i)) (hs_bands s))))) [0..<n])))
    \<and> (\<forall>b \<in> set (hs_bands s). \<forall>st \<in> set (stacksOf dir). map fst (the (map_get (hb_data b) st)) = t_t res
        \<and> (\<forall>i < n. value b st i = Some (nth0 (band_values res dir (hb_key b) st) i)))
    \<and> (dir = DBoth \<longrightarrow> (\<forall>k i. nth0 (band_values res dir k KRx) i = - nth0 (key_list (t_rx res) k) i))"
proof -
  let ?n = "length (t_t res)"
  have get_map: "map_get (map (\<lambda>s. (s, f s)) ss) st = (if st \<in> set ss then Some (f st) else None)" for f :: "Stack \<Rightarrow> 'x" and ss st
    by (induction ss) (auto simp: map_get_def)
  have sms: "fold (add_sums res dir) (t_keys res) (map (\<lambda>s. (s, replicate ?n 0)) (stacksOf dir))
      = map (\<lambda>s. (s, map (\<lambda>i. foldl fadd 0 (map (\<lambda>k. nth0 (band_values res dir k s) i) (t_keys res))) [0..<?n])) (stacksOf dir)"
    by (subst add_sums_fold [of _ ?n]) auto
  let ?pts = "\<lambda>k st. map2 (\<lambda>t i. (t, Some (nth0 (band_values res dir k st) i))) (t_t res) [0..<?n]"
  have data: "map_get (hb_data (band_of res dir colors k)) st = Some (?pts k st)" if "st \<in> set (stacksOf dir)" for k st
    using that by (simp add: band_of_def get_map case_prod_unfold Let_def)
  have pts: "map fst (?pts k st) = t_t res" "i < ?n \<Longrightarrow> snd (?pts k st ! i) = Some (nth0 (band_values res dir k st) i)" for k st i
    by (auto simp: comp_def case_prod_unfold)
  have mir: "nth0 (map mirror l) i = - nth0 l i" for l i by (simp add: nth0_def mirror_def)
  have key: "hb_key (band_of res dir colors k) = k" for k by (simp add: band_of_def case_prod_unfold Let_def)
  have bands: "hs_bands (buildSeries res dir colors) = map (band_of res dir colors) (t_keys res)" by (simp add: buildSeries_def Let_def)
  have tot: "map_get (hs_totals (buildSeries res dir colors)) st
      = Some (zip (t_t res) (map (\<lambda>i. Some (round_dec 1000 (foldl fadd 0 (map (\<lambda>k. nth0 (band_values res dir k st) i) (t_keys res))))) [0..<?n]))"
    if "st \<in> set (stacksOf dir)" for st
    using that unfolding buildSeries_def Let_def sms by (simp add: get_map comp_def)
  have "map_get (hs_totals (buildSeries res dir colors)) st = Some (zip (t_t res) (map (\<lambda>i. Some (round_dec 1000
      (foldl fadd 0 (map (\<lambda>b. the (snd (the (map_get (hb_data b) st) ! i))) (hs_bands (buildSeries res dir colors)))))) [0..<?n]))"
    if st: "st \<in> set (stacksOf dir)" for st
  proof -
    have "map (\<lambda>b. the (snd (the (map_get (hb_data b) st) ! i))) (map (band_of res dir colors) (t_keys res)) = map (\<lambda>k. nth0 (band_values res dir k st) i) (t_keys res)"
      if "i < ?n" for i
      using data [OF st] pts(2) [OF that] by (simp only: map_map comp_def option.sel)
    then show ?thesis unfolding tot [OF st] bands by (intro arg_cong [of _ _ Some] arg_cong2 [of _ _ _ _ zip] refl map_cong) (simp only: set_upt atLeastLessThan_iff)
  qed
  moreover have "map hb_key (hs_bands (buildSeries res dir colors)) = t_keys res" by (simp add: bands key comp_def)
  moreover have "map fst (the (map_get (hb_data b) st)) = t_t res \<and> (\<forall>i < ?n. snd (the (map_get (hb_data b) st) ! i) = Some (nth0 (band_values res dir (hb_key b) st) i))"
    if "b \<in> set (hs_bands (buildSeries res dir colors))" "st \<in> set (stacksOf dir)" for b st
    using that data pts key unfolding bands by auto
  moreover have "nth0 (band_values res DBoth k KRx) i = - nth0 (key_list (t_rx res) k) i" for k i by (simp add: band_values_def mir Let_def)
  ultimately show ?thesis unfolding Let_def by blast
qed

end
