(* ===== verification/ClientOverlays.thy ===== *)
theory ClientOverlays
  imports ClientSeries
begin

text \<open>
  What is drawn over the history chart and in the panels beside it: \<^verbatim>\<open>web/src/client/history/ghost.ts\<close> (the
  same window a day or a week before, and where today is far above it), \<^verbatim>\<open>history/burst.ts\<close> (the band from
  mean to peak), \<^verbatim>\<open>history/callsSeries.ts\<close> (calls and bytes per call) and \<^verbatim>\<open>history/unknownShare.ts\<close>. The
  text of a rate is a parameter; characters outside the 8-bit alphabet of the model are control codes.
\<close>

section \<open>The ghost\<close>

definition parseCompareParam :: "search \<Rightarrow> string option" where
  "parseCompareParam q = (case search_get q ''compare'' of Some v \<Rightarrow> if v = ''1d'' \<or> v = ''1w'' then Some v else None | None \<Rightarrow> None)"

definition opt_nth :: "'a option list \<Rightarrow> nat \<Rightarrow> 'a option" where
  "opt_nth xs i = (if i < length xs then xs ! i else None)"

definition ghostValues :: "ThroughputCompare \<Rightarrow> Stack \<Rightarrow> ThroughputDir \<Rightarrow> num option list" where
  "ghostValues c st dir = (case st of
       KTx \<Rightarrow> cmp_tx c
     | KRx \<Rightarrow> if dir = DBoth then map (map_option mirror) (cmp_rx c) else cmp_rx c
     | KSum \<Rightarrow> map2 (\<lambda>v i. map_option (\<lambda>x. fadd x (case opt_nth (cmp_rx c) i of Some y \<Rightarrow> y | None \<Rightarrow> 0)) v) (cmp_tx c) [0..<length (cmp_tx c)])"

record GhostLine =
  gh_stack :: Stack
  gh_data :: "cpoint list"
  gh_areas :: "(num \<times> num) list"

definition ghostSeries :: "ThroughputCompare \<Rightarrow> ThroughputDir \<Rightarrow> (num \<times> num) list \<Rightarrow> GhostLine list" where
  "ghostSeries c dir areas = map2 (\<lambda>st i. \<lparr> gh_stack = st,
       gh_data = map2 (\<lambda>t j. (t, opt_nth (ghostValues c st dir) j)) (cmp_t c) [0..<length (cmp_t c)],
       gh_areas = (if i = 0 then areas else []) \<rparr>) (stacksOf dir) [0..<length (stacksOf dir)]"

definition ghostAt :: "ThroughputCompare \<Rightarrow> Stack \<Rightarrow> num \<Rightarrow> num option" where
  "ghostAt c st t = (case cmp_t c of [] \<Rightarrow> None | t0 # _ \<Rightarrow>
     let i = Math_floor (fdiv (fsub t (of_int t0)) (of_int (cmp_step c * 1000)))
     in if \<not> (i \<ge> 0 \<and> i < int (length (cmp_t c))) then None
        else let tx = opt_nth (cmp_tx c) (nat i); rx = opt_nth (cmp_rx c) (nat i) in
          (case st of KTx \<Rightarrow> tx | KRx \<Rightarrow> rx
           | KSum \<Rightarrow> (case (tx, rx) of (Some a, Some b) \<Rightarrow> Some (fadd a b) | _ \<Rightarrow> None)))"

definition pctChange :: "num \<Rightarrow> num \<Rightarrow> num option" where
  "pctChange current ghost = (if ghost > 0 then Some (fdiv (fsub current ghost) ghost) else None)"

text \<open>The real minus is the character 0x96, the times and plus-minus signs are 0xD7 and 0xB1.\<close>

definition fmtPct :: "num \<Rightarrow> string" where
  "fmtPct p = (if p \<ge> 9 then CHR 0xD7 # string_of_nat (nat (Math_round (fadd p 1)))
     else let n = Math_round (fmul p 100) in
       if n = 0 then [CHR 0xB1] @ ''0 %'' else (if n > 0 then ''+'' else [CHR 0x96]) @ string_of_nat (nat \<bar>n\<bar>) @ '' %'')"

definition ghostText :: "num option \<Rightarrow> num option \<Rightarrow> (num \<Rightarrow> string) \<Rightarrow> string" where
  "ghostText current ghost fmtRate = (case ghost of None \<Rightarrow> ''no data''
     | Some g \<Rightarrow> (case Option.bind current (\<lambda>c. pctChange \<bar>c\<bar> g) of None \<Rightarrow> fmtRate g | Some p \<Rightarrow> fmtRate g @ '' ('' @ fmtPct p @ '')''))"

section \<open>Deviations\<close>

definition DEVIATION_FACTOR :: num where "DEVIATION_FACTOR = 2"
definition DEVIATION_BUCKETS :: int where "DEVIATION_BUCKETS = 3"

type_synonym totals = "Stack \<Rightarrow> (num \<times> num option) list"

definition above_ghost :: "totals \<Rightarrow> Stack list \<Rightarrow> ThroughputCompare \<Rightarrow> nat \<Rightarrow> num \<Rightarrow> bool" where
  "above_ghost tot stacks c i t =
     (let (cur, ghost) = fold (\<lambda>st (cur, ghost).
            (fadd cur \<bar>case snd (tot st ! i) of Some v \<Rightarrow> v | None \<Rightarrow> 0\<bar>,
             case (ghostAt c st t, ghost) of (Some g, Some a) \<Rightarrow> Some (fadd a g) | _ \<Rightarrow> None)) stacks (0, Some 0)
      in (case ghost of Some g \<Rightarrow> cur > 0 \<and> cur > fmul DEVIATION_FACTOR g | None \<Rightarrow> False))"

type_synonym run_state = "num option \<times> (num \<times> num) list"

definition close_run :: "num \<Rightarrow> num \<Rightarrow> run_state \<Rightarrow> run_state" where
  "close_run minSpan e s = (None, case fst s of Some b \<Rightarrow> if fsub e b \<ge> minSpan then snd s @ [(b, e)] else snd s | None \<Rightarrow> snd s)"

definition run_step :: "num \<Rightarrow> num \<times> bool \<Rightarrow> run_state \<Rightarrow> run_state" where
  "run_step minSpan p s = (let (t, above) = p; s' = (if above \<and> fst s = None then (Some t, snd s) else s)
     in if above then s' else close_run minSpan t s')"

text \<open>The loop's view of the buckets: time, and whether the current total is far above the ghost.\<close>

definition dev_points :: "totals \<Rightarrow> Stack list \<Rightarrow> ThroughputCompare \<Rightarrow> (num \<times> bool) list" where
  "dev_points tot stacks c =
     (let n = Min (set (map (\<lambda>st. length (tot st)) stacks))
      in map (\<lambda>i. let t = fst (tot (hd stacks) ! i) in (t, above_ghost tot stacks c i t)) [0..<n])"

definition deviationRuns :: "totals \<Rightarrow> Stack list \<Rightarrow> ThroughputCompare \<Rightarrow> num \<Rightarrow> (num \<times> num) list" where
  "deviationRuns tot stacks c step_ms =
     (let minSpan = of_int (DEVIATION_BUCKETS * cmp_step c * 1000); pts = dev_points tot stacks c;
          s = fold (run_step minSpan) pts (None, [])
      in if pts \<noteq> [] then snd (close_run minSpan (fadd (fst (last pts)) step_ms) s) else snd s)"

text \<open>A run of a list of points: a longest stretch above, from its first point to the point that ends it.\<close>

definition is_run :: "(num \<times> bool) list \<Rightarrow> nat \<Rightarrow> nat \<Rightarrow> bool" where
  "is_run ps i j \<longleftrightarrow> i < j \<and> j < length ps \<and> (\<forall>k. i \<le> k \<and> k < j \<longrightarrow> snd (ps ! k)) \<and> \<not> snd (ps ! j) \<and> (i = 0 \<or> \<not> snd (ps ! (i - 1)))"

definition open_run :: "(num \<times> bool) list \<Rightarrow> nat \<Rightarrow> bool" where
  "open_run ps i \<longleftrightarrow> i < length ps \<and> (\<forall>k. i \<le> k \<and> k < length ps \<longrightarrow> snd (ps ! k)) \<and> (i = 0 \<or> \<not> snd (ps ! (i - 1)))"

definition runs_ok :: "num \<Rightarrow> (num \<times> bool) list \<Rightarrow> run_state \<Rightarrow> bool" where
  "runs_ok minSpan ps s \<longleftrightarrow>
     (\<forall>b. fst s = Some b \<longrightarrow> (\<exists>i. open_run ps i \<and> b = fst (ps ! i))) \<and> (fst s = None \<longrightarrow> \<not> (\<exists>i. open_run ps i))
     \<and> set (snd s) = {(fst (ps ! i), fst (ps ! j)) | i j. is_run ps i j \<and> fsub (fst (ps ! j)) (fst (ps ! i)) \<ge> minSpan}"

lemma open_run_unique: "open_run ps i \<Longrightarrow> open_run ps i' \<Longrightarrow> i = i'"
proof -
  have "\<not> i < i'" if "open_run ps i" "open_run ps i'" for i i'
  proof
    assume "i < i'"
    then have "i' - 1 < length ps" "i \<le> i' - 1" "i' \<noteq> 0" using that by (auto simp: open_run_def)
    then show False using that by (auto simp: open_run_def)
  qed
  then show "open_run ps i \<Longrightarrow> open_run ps i' \<Longrightarrow> i = i'" by (meson linorder_neqE_nat)
qed

lemma is_run_snoc: "is_run (ps @ [p]) i j \<longleftrightarrow> is_run ps i j \<or> j = length ps \<and> open_run ps i \<and> \<not> snd p"
proof (cases "j < length ps")
  case True
  then show ?thesis by (auto simp: is_run_def open_run_def nth_append)
next
  case False
  show ?thesis
  proof (cases "j = length ps")
    case True
    then show ?thesis by (auto simp: is_run_def open_run_def nth_append)
  qed (use False in \<open>auto simp: is_run_def\<close>)
qed

lemma open_run_ex: "(\<exists>i. open_run ps i) \<longleftrightarrow> ps \<noteq> [] \<and> snd (last ps)"
proof (induction ps rule: rev_induct)
  case (snoc p ps)
  show ?case
  proof
    assume "\<exists>i. open_run (ps @ [p]) i"
    then obtain i where "open_run (ps @ [p]) i" by blast
    then have "snd ((ps @ [p]) ! length ps)" unfolding open_run_def by (metis length_append_singleton lessI less_Suc_eq_le)
    then show "ps @ [p] \<noteq> [] \<and> snd (last (ps @ [p]))" by simp
  next
    assume p: "ps @ [p] \<noteq> [] \<and> snd (last (ps @ [p]))"
    show "\<exists>i. open_run (ps @ [p]) i"
    proof (cases "ps \<noteq> [] \<and> snd (last ps)")
      case True
      then obtain i where "open_run ps i" using snoc by blast
      then have "open_run (ps @ [p]) i" using p by (auto simp: open_run_def nth_append)
      then show ?thesis by blast
    next
      case False
      then have "open_run (ps @ [p]) (length ps)" using p by (cases ps rule: rev_cases) (auto simp: open_run_def nth_append)
      then show ?thesis by blast
    qed
  qed
qed (simp add: open_run_def)

lemma open_run_snoc: "open_run (ps @ [p]) i \<longleftrightarrow> snd p \<and> (open_run ps i \<or> i = length ps \<and> \<not> (\<exists>i. open_run ps i))"
proof (cases "i < length ps")
  case True
  then show ?thesis by (auto simp: open_run_def nth_append less_Suc_eq)
next
  case False
  then have "\<not> open_run ps i" by (simp add: open_run_def)
  then show ?thesis using False unfolding open_run_ex
    by (cases "i = length ps") (auto simp: open_run_def nth_append last_conv_nth)
qed

lemma run_step_ok:
  assumes "runs_ok minSpan ps s"
  shows "runs_ok minSpan (ps @ [p]) (run_step minSpan p s)"
proof -
  obtain t above where p: "p = (t, above)" by fastforce
  have out: "set (snd s) = {(fst (ps ! i), fst (ps ! j)) | i j. is_run ps i j \<and> fsub (fst (ps ! j)) (fst (ps ! i)) \<ge> minSpan}"
    using assms by (simp add: runs_ok_def)
  have old: "(ps @ [p]) ! i = ps ! i" "(ps @ [p]) ! j = ps ! j" if "is_run ps i j" for i j using that by (auto simp: is_run_def nth_append)
  have old': "(ps @ [p]) ! i = ps ! i" "i < length ps" if "open_run ps i" for i using that by (auto simp: open_run_def nth_append)
  have same: "(x = (fst ((ps @ [p]) ! i), fst ((ps @ [p]) ! j)) \<and> is_run ps i j \<and> fsub (fst ((ps @ [p]) ! j)) (fst ((ps @ [p]) ! i)) \<ge> minSpan)
      \<longleftrightarrow> (x = (fst (ps ! i), fst (ps ! j)) \<and> is_run ps i j \<and> fsub (fst (ps ! j)) (fst (ps ! i)) \<ge> minSpan)" for x i j
    using old [of i j] by (cases "is_run ps i j") simp_all
  have last: "(x = (fst ((ps @ [p]) ! i), fst ((ps @ [p]) ! j)) \<and> (j = length ps \<and> open_run ps i) \<and> fsub (fst ((ps @ [p]) ! j)) (fst ((ps @ [p]) ! i)) \<ge> minSpan)
      \<longleftrightarrow> (x = (fst (ps ! i), t) \<and> j = length ps \<and> open_run ps i \<and> fsub t (fst (ps ! i)) \<ge> minSpan)" for x i j
    using old' [of i] by (cases "open_run ps i \<and> j = length ps") (auto simp: p)
  show ?thesis
  proof (cases above)
    case True
    have "set (snd s) = {(fst ((ps @ [p]) ! i), fst ((ps @ [p]) ! j)) | i j. is_run (ps @ [p]) i j \<and> fsub (fst ((ps @ [p]) ! j)) (fst ((ps @ [p]) ! i)) \<ge> minSpan}"
    proof -
      have "(j = length ps \<and> open_run ps i \<and> \<not> snd p) = False" for i j using True by (simp add: p)
      then show ?thesis unfolding out is_run_snoc by (simp only: simp_thms same)
    qed
    moreover have "\<exists>i. open_run (ps @ [p]) i \<and> b = fst ((ps @ [p]) ! i)" if run: "fst (run_step minSpan p s) = Some b" for b
    proof (cases "fst s")
      case None
      then have "\<not> (\<exists>i. open_run ps i)" "b = t" using assms run True by (auto simp: runs_ok_def run_step_def p)
      then show ?thesis using True p by (intro exI [of _ "length ps"]) (simp add: open_run_snoc)
    next
      case (Some b')
      then obtain i where "open_run ps i" "b = fst (ps ! i)" using assms run True by (auto simp: runs_ok_def run_step_def p)
      then show ?thesis using old' True p by (intro exI [of _ i]) (simp add: open_run_snoc)
    qed
    ultimately show ?thesis using True unfolding runs_ok_def by (auto simp: run_step_def p)
  next
    case False
    then have "\<not> snd p" by (simp add: p)
    have none: "\<not> open_run (ps @ [p]) i" for i using False p by (simp add: open_run_snoc)
    have "{(fst ((ps @ [p]) ! i), fst ((ps @ [p]) ! j)) | i j. is_run (ps @ [p]) i j \<and> fsub (fst ((ps @ [p]) ! j)) (fst ((ps @ [p]) ! i)) \<ge> minSpan}
      = set (snd s) \<union> {(fst (ps ! i), t) | i. open_run ps i \<and> fsub t (fst (ps ! i)) \<ge> minSpan}"
      (is "?A = _ \<union> ?B")
    proof -
      have "?A = {x. \<exists>i j. x = (fst ((ps @ [p]) ! i), fst ((ps @ [p]) ! j)) \<and> is_run ps i j \<and> fsub (fst ((ps @ [p]) ! j)) (fst ((ps @ [p]) ! i)) \<ge> minSpan}
        \<union> {x. \<exists>i j. x = (fst ((ps @ [p]) ! i), fst ((ps @ [p]) ! j)) \<and> (j = length ps \<and> open_run ps i) \<and> fsub (fst ((ps @ [p]) ! j)) (fst ((ps @ [p]) ! i)) \<ge> minSpan}"
        unfolding is_run_snoc using \<open>\<not> snd p\<close> by blast
      also have "\<dots> = set (snd s) \<union> ?B" unfolding same last out by auto
      finally show ?thesis .
    qed
    also have "\<dots> = set (snd (run_step minSpan p s))"
    proof (cases "fst s")
      case None
      then show ?thesis using assms False by (simp add: runs_ok_def run_step_def close_run_def p)
    next
      case (Some b)
      then obtain i where i: "open_run ps i" "b = fst (ps ! i)" using assms by (auto simp: runs_ok_def)
      then have "{(fst (ps ! i), t) | i. open_run ps i \<and> fsub t (fst (ps ! i)) \<ge> minSpan} = (if fsub t b \<ge> minSpan then {(b, t)} else {})"
        using open_run_unique by auto
      then show ?thesis using Some False by (simp add: run_step_def close_run_def p)
    qed
    finally show ?thesis using False none unfolding runs_ok_def by (simp add: run_step_def close_run_def p)
  qed
qed

lemma runs_fold: "runs_ok minSpan ps (fold (run_step minSpan) ps (None, []))"
proof (induction ps rule: rev_induct)
  case Nil
  show ?case by (auto simp: runs_ok_def is_run_def open_run_def)
next
  case (snoc p ps)
  then show ?case using run_step_ok by simp
qed

text \<open>
  The condition of the shading, with its numbers written out: every stack has a ghost there, and the
  current total is positive and more than twice the ghost's.
\<close>

definition far_above :: "totals \<Rightarrow> Stack list \<Rightarrow> ThroughputCompare \<Rightarrow> nat \<Rightarrow> bool" where
  "far_above tot stacks c i \<longleftrightarrow>
     (let t = fst (tot (hd stacks) ! i);
          cur = fsum (map (\<lambda>st. \<bar>case snd (tot st ! i) of Some v \<Rightarrow> v | None \<Rightarrow> 0\<bar>) stacks)
      in list_all (\<lambda>st. ghostAt c st t \<noteq> None) stacks
         \<and> 0 < cur \<and> fmul 2 (fsum (map (\<lambda>st. the (ghostAt c st t)) stacks)) < cur)"

lemma ghost_fold:
  "fold (\<lambda>st (cur, ghost). (fadd cur (f st), case (g st, ghost) of (Some x, Some a) \<Rightarrow> Some (fadd a x) | _ \<Rightarrow> None)) stacks (a, b)
   = (foldl fadd a (map f stacks),
      if list_all (\<lambda>st. g st \<noteq> None) stacks then map_option (\<lambda>y. foldl fadd y (map (\<lambda>st. the (g st)) stacks)) b else None)"
proof (induction stacks arbitrary: a b)
  case (Cons st stacks)
  then show ?case by (cases "g st"; cases b) auto
qed (simp add: option.map_ident)

lemma above_ghost_far: "above_ghost tot stacks c i (fst (tot (hd stacks) ! i)) \<longleftrightarrow> far_above tot stacks c i"
  unfolding above_ghost_def ghost_fold far_above_def by (simp add: Let_def fsum_def DEVIATION_FACTOR_def)

definition bucket_end :: "totals \<Rightarrow> Stack list \<Rightarrow> num \<Rightarrow> nat \<Rightarrow> nat \<Rightarrow> num" where
  "bucket_end tot stacks step_ms n j = (if j < n then fst (tot (hd stacks) ! j) else fadd (fst (tot (hd stacks) ! (n - 1))) step_ms)"

lemma run_points:
  fixes tot stacks c step_ms
  defines "n \<equiv> length (dev_points tot stacks c)"
  defines "ps \<equiv> dev_points tot stacks c @ [(bucket_end tot stacks step_ms n n, False)]"
  shows "is_run ps i j \<longleftrightarrow> i < j \<and> j \<le> n \<and> (\<forall>k. i \<le> k \<and> k < j \<longrightarrow> far_above tot stacks c k)
      \<and> (j < n \<longrightarrow> \<not> far_above tot stacks c j) \<and> (i = 0 \<or> \<not> far_above tot stacks c (i - 1))"
    "k \<le> n \<Longrightarrow> fst (ps ! k) = bucket_end tot stacks step_ms n k"
proof -
  have pt: "dev_points tot stacks c ! k = (fst (tot (hd stacks) ! k), far_above tot stacks c k)" if "k < n" for k
    using that unfolding n_def dev_points_def Let_def above_ghost_far by simp
  have at: "snd (ps ! k) = (k < n \<and> far_above tot stacks c k)" if "k \<le> n" for k
    using that pt [of k] by (auto simp: ps_def n_def nth_append)
  show "k \<le> n \<Longrightarrow> fst (ps ! k) = bucket_end tot stacks step_ms n k"
    using pt [of k] by (auto simp: ps_def n_def nth_append bucket_end_def)
  have len: "length ps = Suc n" by (simp add: ps_def n_def)
  show "is_run ps i j \<longleftrightarrow> i < j \<and> j \<le> n \<and> (\<forall>k. i \<le> k \<and> k < j \<longrightarrow> far_above tot stacks c k)
      \<and> (j < n \<longrightarrow> \<not> far_above tot stacks c j) \<and> (i = 0 \<or> \<not> far_above tot stacks c (i - 1))"
    unfolding is_run_def len by (auto simp: at less_Suc_eq_le)
qed

text \<open>
  (C31) Deviations: the shaded spans are exactly the longest stretches of buckets in which every stack
  has a ghost and the current total is positive and more than twice the ghost's, from the start of
  their first bucket to the start of the bucket that ends them (or the end of the chart), that last
  at least three of the ghost's buckets. The chart has as many buckets as its shortest line.
\<close>

theorem deviationRuns_exact:
  fixes tot stacks c step_ms
  assumes "stacks \<noteq> []" and "list_all (\<lambda>st. tot st \<noteq> []) stacks"
  defines "n \<equiv> Min ((\<lambda>st. length (tot st)) ` set stacks)"
    and "time \<equiv> \<lambda>i. fst (tot (hd stacks) ! i)"
    and "far \<equiv> \<lambda>i. list_all (\<lambda>st. ghostAt c st (fst (tot (hd stacks) ! i)) \<noteq> None) stacks
      \<and> 0 < fsum (map (\<lambda>st. \<bar>case snd (tot st ! i) of Some v \<Rightarrow> v | None \<Rightarrow> 0\<bar>) stacks)
      \<and> fmul 2 (fsum (map (\<lambda>st. the (ghostAt c st (fst (tot (hd stacks) ! i)))) stacks))
          < fsum (map (\<lambda>st. \<bar>case snd (tot st ! i) of Some v \<Rightarrow> v | None \<Rightarrow> 0\<bar>) stacks)"
    and "end_of \<equiv> \<lambda>j. if j < Min ((\<lambda>st. length (tot st)) ` set stacks) then fst (tot (hd stacks) ! j)
      else fadd (fst (tot (hd stacks) ! (Min ((\<lambda>st. length (tot st)) ` set stacks) - 1))) step_ms"
  shows "set (deviationRuns tot stacks c step_ms) =
      {(time i, end_of j) | i j. i < j \<and> j \<le> n \<and> (\<forall>k. i \<le> k \<and> k < j \<longrightarrow> far k) \<and> (j < n \<longrightarrow> \<not> far j) \<and> (i = 0 \<or> \<not> far (i - 1))
        \<and> fsub (end_of j) (time i) \<ge> of_int (3 * cmp_step c * 1000)}"
proof -
  let ?m = "of_int (DEVIATION_BUCKETS * cmp_step c * 1000) :: num"
  let ?ds = "dev_points tot stacks c"
  have n: "length ?ds = n" by (simp add: dev_points_def n_def Let_def)
  have pos: "0 < n" using assms(1,2) unfolding n_def by (subst Min_gr_iff) (auto simp: list_all_iff)
  then have ne: "?ds \<noteq> []" using n by auto
  have far: "far = far_above tot stacks c" by (rule ext) (simp add: far_def far_above_def Let_def)
  have fin: "bucket_end tot stacks step_ms n = end_of" by (rule ext) (simp add: bucket_end_def end_of_def n_def)
  have tm: "time i = bucket_end tot stacks step_ms n i" if "i < n" for i using that by (simp add: time_def bucket_end_def)
  define ps where "ps = ?ds @ [(bucket_end tot stacks step_ms n n, False)]"
  have lt: "fst (last ?ds) = fst (tot (hd stacks) ! (n - 1))"
    using ne n pos by (simp add: last_conv_nth dev_points_def Let_def n_def)
  then have "deviationRuns tot stacks c step_ms = snd (fold (run_step ?m) ps (None, []))"
    using ne by (simp add: deviationRuns_def run_step_def Let_def ps_def bucket_end_def)
  then have "set (deviationRuns tot stacks c step_ms)
      = {(fst (ps ! i), fst (ps ! j)) | i j. is_run ps i j \<and> fsub (fst (ps ! j)) (fst (ps ! i)) \<ge> ?m}"
    using runs_fold [of ?m ps] by (simp add: runs_ok_def)
  also have "\<dots> = {(bucket_end tot stacks step_ms n i, bucket_end tot stacks step_ms n j) | i j. is_run ps i j
      \<and> fsub (bucket_end tot stacks step_ms n j) (bucket_end tot stacks step_ms n i) \<ge> ?m}"
  proof -
    have "fst (ps ! i) = bucket_end tot stacks step_ms n i \<and> fst (ps ! j) = bucket_end tot stacks step_ms n j" if "is_run ps i j" for i j
    proof -
      have "i \<le> n" "j \<le> n" using that by (auto simp: is_run_def ps_def n)
      then show ?thesis using run_points(2) [of _ tot stacks c step_ms] unfolding n ps_def by blast
    qed
    then show ?thesis by (intro Collect_cong) metis
  qed
  also have "\<dots> = {(time i, end_of j) | i j. i < j \<and> j \<le> n \<and> (\<forall>k. i \<le> k \<and> k < j \<longrightarrow> far k) \<and> (j < n \<longrightarrow> \<not> far j)
      \<and> (i = 0 \<or> \<not> far (i - 1)) \<and> fsub (end_of j) (time i) \<ge> of_int (3 * cmp_step c * 1000)}"
  proof -
    have r: "is_run ps i j \<longleftrightarrow> i < j \<and> j \<le> n \<and> (\<forall>k. i \<le> k \<and> k < j \<longrightarrow> far k) \<and> (j < n \<longrightarrow> \<not> far j) \<and> (i = 0 \<or> \<not> far (i - 1))"
      for i j
      using run_points(1) [of tot stacks c step_ms i j] unfolding n far ps_def .
    have "bucket_end tot stacks step_ms n i = time i" if "is_run ps i j" for i j using r [of i j] that tm [of i] by simp
    then have "(x = (bucket_end tot stacks step_ms n i, bucket_end tot stacks step_ms n j) \<and> is_run ps i j
          \<and> fsub (bucket_end tot stacks step_ms n j) (bucket_end tot stacks step_ms n i) \<ge> ?m)
        \<longleftrightarrow> (x = (time i, end_of j) \<and> is_run ps i j \<and> fsub (end_of j) (time i) \<ge> of_int (3 * cmp_step c * 1000))" for x i j
      by (cases "is_run ps i j") (simp_all add: fin [symmetric] DEVIATION_BUCKETS_def)
    then show ?thesis unfolding r conj_assoc by (simp only:)
  qed
  finally show ?thesis .
qed

definition sample_compare :: ThroughputCompare where
  "sample_compare = \<lparr> cmp_offset = 86400000, cmp_step = 1, cmp_since = 0, cmp_t = [0, 1000, 2000, 3000, 4000],
     cmp_tx = [Some 1, Some 1, Some 1, Some 1, None], cmp_rx = [Some 0, Some 0, Some 0, Some 0, None] \<rparr>"

definition sample_totals :: totals where
  "sample_totals = (\<lambda>_. [(0, Some 3)])"

theorem deviationRuns_exact_witness:
  "(0, 3000) \<in> set (deviationRuns sample_totals [KTx] sample_compare 3000)"
proof -
  have g: "ghostAt sample_compare KTx 0 = Some 1" "fsum [3 :: num] = 3" "fsum [1 :: num] = 1" "fmul 2 1 = (2 :: num)"
    "fadd 0 3000 = (3000 :: num)" "fsub 3000 0 = (3000 :: num)" by code_simp+
  have c: "cmp_step sample_compare = 1" by (simp add: sample_compare_def)
  have "[KTx] \<noteq> []" "list_all (\<lambda>st. sample_totals st \<noteq> []) [KTx]" by (simp_all add: sample_totals_def)
  note runs = deviationRuns_exact [OF this, of sample_compare 3000]
  show ?thesis
    unfolding runs by (rule CollectI, rule exI [of _ 0], rule exI [of _ 1]) (simp add: g c sample_totals_def)
qed

text \<open>
  The ghost under the pointer is the value of the bucket that holds the instant, for whole
  milliseconds and buckets one step apart; outside the ghost there is none.
\<close>

theorem ghostAt_bucket:
  assumes "cmp_t c = map (\<lambda>i. t0 + int i * (cmp_step c * 1000)) [0..<n]" and "0 < cmp_step c"
    and "\<bar>t\<bar> < 2 ^ 52" and "\<bar>t0\<bar> < 2 ^ 52" and "0 < n"
  shows "(\<forall>i < n. t0 + int i * (cmp_step c * 1000) \<le> t \<and> t < t0 + int (i + 1) * (cmp_step c * 1000) \<longrightarrow>
      ghostAt c KTx (of_int t) = opt_nth (cmp_tx c) i \<and> ghostAt c KRx (of_int t) = opt_nth (cmp_rx c) i)
    \<and> (t < t0 \<or> t0 + int n * (cmp_step c * 1000) \<le> t \<longrightarrow> (\<forall>st. ghostAt c st (of_int t) = None))"
proof -
  let ?w = "cmp_step c * 1000"
  have t: "cmp_t c = t0 # map (\<lambda>i. t0 + int i * ?w) [1..<n]" "length (cmp_t c) = n" using assms(1,5) by (simp_all add: upt_conv_Cons)
  have "fsub (of_int t) (of_int t0) = of_int (t - t0)"
    using fl_of_int [of "t - t0"] assms(3,4) by (simp add: fsub_def)
  moreover have "\<bar>t - t0\<bar> < 2 ^ 53" using assms(3,4) by simp
  ultimately have floor: "Math_floor (fdiv (fsub (of_int t) (of_int t0)) (of_int ?w)) = (t - t0) div ?w"
    using floor_fdiv [of "t - t0" ?w] assms(2) by simp
  have at: "ghostAt c st (of_int t) = (let i = (t - t0) div ?w in if \<not> (i \<ge> 0 \<and> i < int n) then None
      else let tx = opt_nth (cmp_tx c) (nat i); rx = opt_nth (cmp_rx c) (nat i) in
          (case st of KTx \<Rightarrow> tx | KRx \<Rightarrow> rx | KSum \<Rightarrow> (case (tx, rx) of (Some a, Some b) \<Rightarrow> Some (fadd a b) | _ \<Rightarrow> None)))" for st
    unfolding ghostAt_def floor [symmetric] t(2) [symmetric] by (simp add: t(1))
  have inside: "(t - t0) div ?w = int i" if "t0 + int i * ?w \<le> t" "t < t0 + int (i + 1) * ?w" for i
    using that assms(2) by (intro int_div_pos_eq [of _ _ _ "t - t0 - int i * ?w"]) (auto simp: algebra_simps)
  have "\<not> ((t - t0) div ?w \<ge> 0 \<and> (t - t0) div ?w < int n)" if "t < t0 \<or> t0 + int n * ?w \<le> t"
  proof -
    have w: "0 < ?w" using assms(2) by simp
    have "(t - t0) div ?w < 0 \<or> int n \<le> (t - t0) div ?w"
      using that pos_imp_zdiv_neg_iff [OF w, of "t - t0"] pos_imp_zdiv_nonneg_iff [OF w] zdiv_mono1 [OF _ w, of "int n * ?w" "t - t0"] w by auto
    then show ?thesis by linarith
  qed
  then have out: "ghostAt c st (of_int t) = None" if "t < t0 \<or> t0 + int n * ?w \<le> t" for st
    unfolding at Let_def using that by (simp only: if_True not_False_eq_True)
  have "ghostAt c KTx (of_int t) = opt_nth (cmp_tx c) i \<and> ghostAt c KRx (of_int t) = opt_nth (cmp_rx c) i"
    if "i < n" "t0 + int i * ?w \<le> t \<and> t < t0 + int (i + 1) * ?w" for i
    using inside [of i] that unfolding at Let_def by (simp del: of_nat_add)
  then show ?thesis using out by blast
qed

theorem ghostAt_bucket_witness:
  "ghostAt sample_compare KTx (of_int 1999) = Some 1 \<and> ghostAt sample_compare KTx (of_int 5000) = None"
proof -
  have c: "cmp_t sample_compare = map (\<lambda>i. 0 + int i * (cmp_step sample_compare * 1000)) [0..<5]"
    by (simp add: sample_compare_def upt_conv_Cons)
  have "ghostAt sample_compare KTx (of_int 1999) = opt_nth (cmp_tx sample_compare) 1"
    using ghostAt_bucket [OF c, of 1999] by (simp add: sample_compare_def)
  moreover have "ghostAt sample_compare KTx (of_int 5000) = None"
    using ghostAt_bucket [OF c, of 5000] by (simp add: sample_compare_def)
  ultimately show ?thesis by (simp add: sample_compare_def opt_nth_def)
qed

section \<open>The peak band\<close>

definition parseBandParam :: "search \<Rightarrow> bool" where
  "parseBandParam q \<longleftrightarrow> search_get q ''band'' = Some ''1''"

definition bandSpanOk :: "int \<Rightarrow> int \<Rightarrow> bool" where
  "bandSpanOk frm to \<longleftrightarrow> to - frm \<le> BURST_MAX_SPAN_MS"

definition sideOf :: "Stack \<Rightarrow> BurstSide" where
  "sideOf st = (case st of KSum \<Rightarrow> STotal | KTx \<Rightarrow> STx | KRx \<Rightarrow> SRx)"

definition statsOf :: "BurstResponse \<Rightarrow> Stack \<Rightarrow> BurstStats option" where
  "statsOf res st = map_get (bu_stats res) (sideOf st)"

datatype BurstLine = Lo | Hi | Mx

text \<open>\<open>sign * v || 0\<close>: the zero is plain, and a value out of range counts as 0.\<close>

definition signed :: "bool \<Rightarrow> num \<Rightarrow> num" where
  "signed neg v = (if neg then - v else v)"

definition burst_line :: "BurstStats \<Rightarrow> BurstLine \<Rightarrow> nat \<Rightarrow> num" where
  "burst_line s l i = (case l of Lo \<Rightarrow> nth0 (bs_mean s) i
     | Hi \<Rightarrow> if i < length (bs_p95 s) \<and> i < length (bs_mean s) then max 0 (fsub (bs_p95 s ! i) (bs_mean s ! i)) else 0
     | Mx \<Rightarrow> nth0 (bs_max s) i)"

definition burstSeries :: "BurstResponse \<Rightarrow> ThroughputDir \<Rightarrow> (Stack \<times> BurstLine \<times> (int \<times> num) list) list" where
  "burstSeries res dir = concat (map (\<lambda>st. case statsOf res st of None \<Rightarrow> []
     | Some s \<Rightarrow> map (\<lambda>l. (st, l, map2 (\<lambda>t i. (t, signed (st = KRx \<and> dir = DBoth) (burst_line s l i))) (bu_times res) [0..<length (bu_times res)])) [Lo, Hi, Mx])
     (stacksOf dir))"

definition burstAt :: "BurstResponse \<Rightarrow> Stack \<Rightarrow> num \<Rightarrow> (num \<times> num \<times> num) option" where
  "burstAt res st t = (let i = Math_floor (fdiv (fsub t (of_int (bu_from res))) (of_int (bu_step res * 1000))) in
     case statsOf res st of None \<Rightarrow> None
     | Some s \<Rightarrow> if \<not> (i \<ge> 0 \<and> i < int (length (bu_times res))) then None
         else Some (bs_mean s ! nat i, bs_p95 s ! nat i, bs_max s ! nat i))"

definition burstRatio :: "num \<Rightarrow> num \<Rightarrow> num option" where
  "burstRatio mean p95 = (if mean > 0 then Some (fdiv p95 mean) else None)"

section \<open>Calls\<close>

definition parseCallsParam :: "search \<Rightarrow> bool" where
  "parseCallsParam q \<longleftrightarrow> search_get q ''calls'' = Some ''1''"

text \<open>The totals over every key, when the answer was asked with calls.\<close>

definition sum_keys :: "ThroughputResponse \<Rightarrow> (string, num list) jsmap \<Rightarrow> num list" where
  "sum_keys a m = map (round_dec 1000) (fold (\<lambda>k out. case map_get m k of None \<Rightarrow> out
       | Some v \<Rightarrow> map2 (\<lambda>x i. if i < length v then fadd x (v ! i) else x) out [0..<length out]) (t_keys a) (replicate (length (t_t a)) 0))"

definition fromThroughput :: "ThroughputResponse \<Rightarrow> ThroughputCalls option \<Rightarrow> ProcessCallsResponse option" where
  "fromThroughput a calls = map_option (\<lambda>c. \<lparr> pcr_step = t_step a, pcr_from = t_from a, pcr_to = t_to a, pcr_t = t_t a,
     pcr_tx = sum_keys a (t_tx a), pcr_rx = sum_keys a (t_rx a), pcr_calls = c \<rparr>) calls"

definition bytesPerCall :: "num \<Rightarrow> num \<Rightarrow> num option" where
  "bytesPerCall rate perSec = (if \<not> perSec > 0 \<or> \<not> rate > 0 then None else Some (fdiv (fmul rate 125) perSec))"

record CallsPoints =
  cq_bytes :: "cpoint list \<times> cpoint list"
  cq_calls :: "cpoint list \<times> cpoint list"
  cq_perCall :: "cpoint list \<times> cpoint list"

definition points :: "ProcessCallsResponse \<Rightarrow> (nat \<Rightarrow> num option) \<Rightarrow> cpoint list" where
  "points d f = map2 (\<lambda>t i. (t, f i)) (pcr_t d) [0..<length (pcr_t d)]"

definition callsPoints :: "ProcessCallsResponse \<Rightarrow> CallsPoints" where
  "callsPoints d = (let c = pcr_calls d in \<lparr>
     cq_bytes = (points d (\<lambda>i. Some (pcr_tx d ! i)), points d (\<lambda>i. Some (mirror (pcr_rx d ! i)))),
     cq_calls = (points d (\<lambda>i. Some (calls_tx c ! i)), points d (\<lambda>i. Some (mirror (calls_rx c ! i)))),
     cq_perCall = (points d (\<lambda>i. bytesPerCall (pcr_tx d ! i) (calls_tx c ! i)), points d (\<lambda>i. bytesPerCall (pcr_rx d ! i) (calls_rx c ! i))) \<rparr>)"

definition lonely :: "(nat \<Rightarrow> num option) \<Rightarrow> nat \<Rightarrow> bool" where
  "lonely v i \<longleftrightarrow> v i \<noteq> None \<and> (i = 0 \<or> v (i - 1) = None) \<and> v (i + 1) = None"

definition dotIsolated :: "cpoint list \<Rightarrow> (cpoint \<times> bool) list" where
  "dotIsolated pts = map2 (\<lambda>p i. (p, lonely (opt_nth (map snd pts)) i)) pts [0..<length pts]"

definition hasTraffic :: "ProcessCallsResponse \<Rightarrow> bool" where
  "hasTraffic d \<longleftrightarrow> list_ex (\<lambda>v. v > 0) (pcr_tx d) \<or> list_ex (\<lambda>v. v > 0) (pcr_rx d)
     \<or> list_ex (\<lambda>v. v > 0) (calls_tx (pcr_calls d)) \<or> list_ex (\<lambda>v. v > 0) (calls_rx (pcr_calls d))"

definition processCallsRange :: "num \<Rightarrow> num \<Rightarrow> num option \<Rightarrow> num \<Rightarrow> num \<times> num" where
  "processCallsRange first_seen last_seen ended now =
     (let e = max first_seen (case ended of Some x \<Rightarrow> x | None \<Rightarrow> last_seen);
          span = fsub e first_seen;
          pad = max (max 5000 (fmul span (fl (2 / 100)))) (fdiv (fsub 60000 span) 2);
          to = min now (of_int (Math_round (fadd e pad)));
          frm = of_int (Math_round (min (fsub first_seen pad) (fsub to 60000)))
      in (frm, to))"

section \<open>The unknown share\<close>

definition parseUnknownParam :: "search \<Rightarrow> bool" where
  "parseUnknownParam q \<longleftrightarrow> search_get q ''unknown'' = Some ''1''"

definition medianShare :: "num option list \<Rightarrow> num option" where
  "medianShare share = (let v = sort_by (asc_by (\<lambda>x. x)) (List.map_filter (\<lambda>x. x) share); mid = length v div 2 in
     if v = [] then None else if length v mod 2 = 1 then Some (v ! mid) else Some (fdiv (fadd (v ! (mid - 1)) (v ! mid)) 2))"

definition UNKNOWN_DRILL :: patch where
  "UNKNOWN_DRILL = [(filterParam ByApp, Some ''unknown''), (''by'', Some ''dest'')]"

definition sharePoints :: "int list \<Rightarrow> ThroughputUnknown \<Rightarrow> (cpoint \<times> bool) list" where
  "sharePoints t u = map2 (\<lambda>x i. ((x, opt_nth (unk_share u) i), lonely (opt_nth (unk_share u)) i)) t [0..<length t]"

section \<open>Properties of the panels\<close>

text \<open>
  The window of a process page: it ends by now, is at least a minute, starts at least five seconds
  before the first traffic, and, when now is late enough, reaches past the last traffic.
\<close>

theorem processCallsRange_covers:
  assumes "first_seen = of_int f" "0 \<le> f" "f < 2 ^ 52" and "now = of_int n" "0 \<le> n" "n < 2 ^ 52"
    and "case ended of Some x \<Rightarrow> x = of_int l | None \<Rightarrow> last_seen = of_int l" "0 \<le> l" "l < 2 ^ 52"
  shows "let (frm, to) = processCallsRange first_seen last_seen ended now in
    to \<le> now \<and> frm + 60000 \<le> to \<and> frm + 5000 \<le> first_seen \<and> (of_int (max f l + 5000) \<le> to \<or> to = now)"
proof -
  define e where "e = max f l"
  have e: "max first_seen (case ended of Some x \<Rightarrow> x | None \<Rightarrow> last_seen) = of_int e" "0 \<le> e" "e < 2 ^ 52"
    using assms by (auto simp: e_def split: option.splits)
  define pad where "pad = max (max 5000 (fmul (fsub (of_int e) first_seen) (fl (2 / 100)))) (fdiv (fsub 60000 (fsub (of_int e) first_seen)) 2)"
  define to where "to = min now (of_int (Math_round (fadd (of_int e) pad)))"
  define frm where "frm = (of_int (Math_round (min (fsub first_seen pad) (fsub to 60000))) :: num)"
  have res: "processCallsRange first_seen last_seen ended now = (frm, to)"
    unfolding processCallsRange_def Let_def e(1) pad_def [symmetric] to_def [symmetric] frm_def [symmetric] ..
  have pad: "5000 \<le> pad" by (simp add: pad_def)
  have exact: "fl (of_int m) = of_int m" "Math_round (of_int m :: num) = m" if "\<bar>m\<bar> \<le> 2 ^ 53" for m using that by simp_all
  define z where "z = min n (Math_round (fadd (of_int e) pad))"
  have to: "to = of_int z" by (simp add: to_def z_def assms(4) min_def)
  have "of_int (e + 5000) \<le> fadd (of_int e) pad"
    using fl_mono [of "of_int (e + 5000)" "of_int e + pad"] pad exact(1) [of "e + 5000"] e(2,3) by (simp add: fadd_def)
  then have "Math_round (of_int (e + 5000) :: num) \<le> Math_round (fadd (of_int e) pad)" by (rule round_mono)
  then have up: "e + 5000 \<le> Math_round (fadd (of_int e) pad)" using exact(2) [of "e + 5000"] e(2,3) by simp
  then have z: "0 \<le> z" "z < 2 ^ 52" using assms(5,6) e(2) by (auto simp: z_def)
  have "fsub to 60000 = of_int (z - 60000)" using exact(1) [of "z - 60000"] z by (simp add: to fsub_def)
  moreover have "fsub first_seen pad \<le> of_int (f - 5000)"
    using fl_mono [of "of_int f - pad" "of_int (f - 5000)"] pad exact(1) [of "f - 5000"] assms(1-3) by (simp add: fsub_def)
  ultimately have le: "min (fsub first_seen pad) (fsub to 60000) \<le> of_int (z - 60000)" "min (fsub first_seen pad) (fsub to 60000) \<le> of_int (f - 5000)"
    by (auto simp: min_le_iff_disj)
  have "frm \<le> of_int (z - 60000)" "frm \<le> of_int (f - 5000)"
    using round_mono [OF le(1)] round_mono [OF le(2)] by (simp_all only: frm_def of_int_le_iff round_of_int)
  then have "frm + 60000 \<le> to" "frm + 5000 \<le> first_seen" by (simp_all add: to assms(1))
  moreover have "to \<le> now" by (simp add: to_def)
  moreover have "of_int (e + 5000) \<le> to \<or> to = now" using up by (auto simp: to z_def assms(4))
  ultimately show ?thesis by (simp add: res e_def of_int_max)
qed

theorem processCallsRange_covers_witness:
  "let (frm, to) = processCallsRange 1000000 1000000 None 2000000 in frm + 60000 \<le> to \<and> frm + 5000 \<le> 1000000 \<and> 1005000 \<le> to \<or> to = 2000000"
  using processCallsRange_covers [where first_seen = 1000000 and f = 1000000 and now = 2000000 and n = 2000000 and ended = None and last_seen = 1000000 and l = 1000000] by (auto simp: Let_def split: prod.splits)

text \<open>The click on the unknown share filters the chart to unknown traffic, by destination.\<close>

theorem unknown_drill_applied:
  "let p = parseThroughputParams q; p' = parseThroughputParams (fold patch_one UNKNOWN_DRILL q) in
     tp_by p' = ByDest \<and> tp_filters p' = (tp_filters p)(ByApp \<mapsto> ''unknown'') \<and> tp_dir p' = tp_dir p \<and> tp_top p' = tp_top p"
proof -
  have get: "search_get (fold patch_one UNKNOWN_DRILL q) j
      = (if j = ''by'' then Some ''dest'' else if j = filterParam ByApp then Some ''unknown'' else search_get q j)" for j
    by (simp add: UNKNOWN_DRILL_def search_get_patch_one)
  have "parse_filters (fold patch_one UNKNOWN_DRILL q) d = ((parse_filters q)(ByApp \<mapsto> ''unknown'')) d" for d
    by (cases "d = ByApp") (simp_all add: parse_filters_def get)
  moreover have "find (\<lambda>b. by_text b = ''dest'') BY_VALUES = Some ByDest" using find_by_text [of ByDest] by (simp add: by_text_def)
  ultimately show ?thesis
    by (auto simp: Let_def parseThroughputParams_def get filterParam_def by_text_def)
qed

text \<open>
  The panels of calls show every bucket, so an index is a bucket in each; what is drawn as bytes per
  call is the payload of the bucket over its calls, and missing exactly without calls or bytes.
\<close>

theorem callsPoints_aligned:
  "let p = callsPoints d; n = length (pcr_t d); per = fst (cq_perCall p) in
    (\<forall>l \<in> {fst (cq_bytes p), snd (cq_bytes p), fst (cq_calls p), snd (cq_calls p), per, snd (cq_perCall p)}. map fst l = pcr_t d)
    \<and> (\<forall>i < n. snd (fst (cq_bytes p) ! i) = Some (pcr_tx d ! i) \<and> snd (snd (cq_bytes p) ! i) = Some (- (pcr_rx d ! i))
        \<and> (snd (per ! i) = None \<longleftrightarrow> \<not> (pcr_tx d ! i > 0 \<and> calls_tx (pcr_calls d) ! i > 0)))"
proof -
  have pts: "map fst (points d f) = pcr_t d" "i < length (pcr_t d) \<Longrightarrow> snd (points d f ! i) = f i" for f i
    by (auto simp: points_def comp_def case_prod_unfold)
  show ?thesis by (auto simp: callsPoints_def Let_def pts mirror_def bytesPerCall_def)
qed

end
