(* ===== verification/ClientApi.thy ===== *)
theory ClientApi
  imports ClientOverlays RoutesHistory
begin

text \<open>
  \<^verbatim>\<open>web/src/client/api.ts\<close>: the URLs of the endpoints, and \<^verbatim>\<open>hooks/useTimeRange.ts\<close>: the range of a page. A URL is its path
  and the list of its parameters; the text of the query (\<open>URLSearchParams.toString\<close>) and the escaping
  of a path segment (\<open>encodeURIComponent\<close>) are arguments. \<open>server_query\<close> is what the server's parser of
  the query string makes of the parameters: each name occurs once, so every value is a string. With
  it the requests of the pages are composed with the handlers of \<open>RoutesHistory\<close>.
\<close>

section \<open>Query strings\<close>

type_synonym url = "string \<times> search"

definition qs :: "patch \<Rightarrow> search" where
  "qs params = fold (\<lambda>(k, v) p. case v of Some x \<Rightarrow> set_first k x p | None \<Rightarrow> p) params []"

definition url_text :: "(search \<Rightarrow> string) \<Rightarrow> url \<Rightarrow> string" where
  "url_text print u = fst u @ ''?'' @ print (snd u)"

definition server_query :: "search \<Rightarrow> query" where
  "server_query q = (\<lambda>k. map_option QStr (search_get q k))"

definition filter_params :: "ClientSeries.Filters \<Rightarrow> patch" where
  "filter_params f = map (\<lambda>d. (by_text d, f d)) BY_VALUES"

record TimeRange =
  tm_from :: int
  tm_to :: int

definition range_params :: "TimeRange \<Rightarrow> patch" where
  "range_params r = [(''from'', Some (show_int (tm_from r))), (''to'', Some (show_int (tm_to r)))]"

definition finestStep :: "TimeRange \<Rightarrow> int" where
  "finestStep r = max 1 (Math_ceil (fdiv (fdiv (of_int (tm_to r - tm_from r)) 1000) 1500))"

text \<open>\<open>v === d ? undefined : v\<close>, \<open>flag ? 1 : undefined\<close> and \<open>names?.length ? names.join(',') : undefined\<close>.\<close>

definition unless_default :: "string \<Rightarrow> string \<Rightarrow> string option" where
  "unless_default d v = (if v = d then None else Some v)"

definition flag_param :: "bool \<Rightarrow> string option" where
  "flag_param b = (if b then Some ''1'' else None)"

definition names_param :: "string list option \<Rightarrow> string option" where
  "names_param ns = (case ns of Some (n # ns') \<Rightarrow> Some (join '','' (n # ns')) | _ \<Rightarrow> None)"

definition dir_text :: "ThroughputDir \<Rightarrow> string" where
  "dir_text d = (case d of DBoth \<Rightarrow> ''both'' | DTx \<Rightarrow> ''tx'' | DRx \<Rightarrow> ''rx'' | DTotal \<Rightarrow> ''total'')"

section \<open>The URLs\<close>

definition urls_historySummary :: "TimeRange \<Rightarrow> ClientSeries.Filters \<Rightarrow> url" where
  "urls_historySummary r f = (''/api/history/summary'', qs (range_params r @ filter_params f))"

definition urls_process :: "(string \<Rightarrow> string) \<Rightarrow> string \<Rightarrow> string \<Rightarrow> string" where
  "urls_process enc pid start = ''/api/process/'' @ enc pid @ ''/'' @ enc start"

definition urls_historyFlows :: "TimeRange \<Rightarrow> ClientSeries.Filters \<Rightarrow> url" where
  "urls_historyFlows r f = (''/api/history/flows'', qs (range_params r @ filter_params f))"

definition urls_liveFlows :: "int \<Rightarrow> url" where
  "urls_liveFlows seconds = (''/api/live/flows'', qs [(''seconds'', Some (show_int seconds))])"

definition urls_historyThroughput :: "TimeRange \<Rightarrow> ThroughputParams \<Rightarrow> string option \<Rightarrow> bool \<Rightarrow> bool \<Rightarrow> url" where
  "urls_historyThroughput r p compare unknown calls = (''/api/history/throughput'', qs (range_params r
     @ [(''step'', Some (show_int (finestStep r))), (''by'', Some (by_text (tp_by p))), (''dir'', Some (dir_text (tp_dir p))), (''top'', Some (show_int \<lfloor>tp_top p\<rfloor>))]
     @ filter_params (tp_filters p) @ [(''compare'', compare), (''unknown'', flag_param unknown), (''calls'', flag_param calls)]))"

definition urls_historyBurst :: "TimeRange \<Rightarrow> ThroughputDir \<Rightarrow> ClientSeries.Filters \<Rightarrow> url" where
  "urls_historyBurst r dir f = (''/api/history/burst'', qs (range_params r
     @ [(''step'', Some (show_int (finestStep r))), (''dir'', Some (dir_text dir))] @ filter_params f))"

definition urls_processCalls :: "(string \<Rightarrow> string) \<Rightarrow> string \<Rightarrow> string \<Rightarrow> TimeRange \<Rightarrow> url" where
  "urls_processCalls enc pid start r = (urls_process enc pid start @ ''/calls'', qs (range_params r @ [(''step'', Some (show_int (finestStep r)))]))"

definition urls_historyLifecycle :: "TimeRange \<Rightarrow> string list option \<Rightarrow> string option \<Rightarrow> int option \<Rightarrow> url" where
  "urls_historyLifecycle r ns uid limit = (''/api/history/lifecycle'',
     qs (range_params r @ [(''names'', names_param ns), (''uid'', uid), (''limit'', map_option show_int limit)]))"

definition urls_historyHeatmap :: "TimeRange \<Rightarrow> string \<Rightarrow> string \<Rightarrow> string \<Rightarrow> ClientSeries.Filters \<Rightarrow> url" where
  "urls_historyHeatmap r tz metric spl f = (''/api/history/heatmap'',
     qs (range_params r @ [(''tz'', Some tz), (''metric'', unless_default ''total'' metric), (''split'', unless_default ''none'' spl)] @ filter_params f))"

definition urls_historyTreemap :: "TimeRange \<Rightarrow> string \<Rightarrow> ClientSeries.Filters \<Rightarrow> url" where
  "urls_historyTreemap r dir f = (''/api/history/treemap'', qs (range_params r @ [(''dir'', unless_default ''total'' dir)] @ filter_params f))"

definition urls_historyLifetimes :: "TimeRange \<Rightarrow> string option \<Rightarrow> string option \<Rightarrow> int option \<Rightarrow> url" where
  "urls_historyLifetimes r name uid limit = (''/api/history/lifetimes'',
     qs (range_params r @ [(''name'', name), (''uid'', uid), (''limit'', map_option show_int limit)]))"

definition urls_historyBytesPerCall :: "TimeRange \<Rightarrow> string \<Rightarrow> string \<Rightarrow> ClientSeries.Filters \<Rightarrow> url" where
  "urls_historyBytesPerCall r dir b f = (''/api/history/bytes-per-call'',
     qs (range_params r @ [(''dir'', unless_default ''tx'' dir), (''by'', unless_default ''app'' b)] @ filter_params f))"

definition urls_processBytesPerCall :: "(string \<Rightarrow> string) \<Rightarrow> string \<Rightarrow> string \<Rightarrow> TimeRange \<Rightarrow> string \<Rightarrow> url" where
  "urls_processBytesPerCall enc pid start r dir =
     (urls_process enc pid start @ ''/bytes-per-call'', qs (range_params r @ [(''dir'', unless_default ''tx'' dir)]))"

definition urls_processBeacons :: "(string \<Rightarrow> string) \<Rightarrow> string \<Rightarrow> string \<Rightarrow> TimeRange \<Rightarrow> url" where
  "urls_processBeacons enc pid start r = (urls_process enc pid start @ ''/beacons'', qs (range_params r))"

definition urls_historyBeacons :: "string \<Rightarrow> TimeRange \<Rightarrow> url" where
  "urls_historyBeacons name r = (''/api/history/beacons'', qs ((''name'', Some name) # range_params r))"

definition urls_historyNewDests :: "TimeRange \<Rightarrow> string list option \<Rightarrow> bool \<Rightarrow> bool \<Rightarrow> bool \<Rightarrow> int option \<Rightarrow> url" where
  "urls_historyNewDests r ns ports loopback warmup limit = (''/api/history/new-dests'',
     qs (range_params r @ [(''names'', names_param ns), (''ports'', flag_param ports), (''loopback'', flag_param loopback),
       (''warmup'', flag_param warmup), (''limit'', map_option show_int limit)]))"

definition urls_historyAsn :: "TimeRange \<Rightarrow> string \<Rightarrow> ClientSeries.Filters \<Rightarrow> url" where
  "urls_historyAsn r dir f = (''/api/history/asn'', qs (range_params r @ [(''dir'', unless_default ''total'' dir)] @ filter_params f))"

definition urls_historyCountries :: "TimeRange \<Rightarrow> string \<Rightarrow> ClientSeries.Filters \<Rightarrow> url" where
  "urls_historyCountries r dir f = (''/api/history/countries'', qs (range_params r @ [(''dir'', unless_default ''total'' dir)] @ filter_params f))"

definition urls_historyDestinations ::
  "TimeRange \<Rightarrow> string \<Rightarrow> int option \<Rightarrow> string option \<Rightarrow> string option \<Rightarrow> int option \<Rightarrow> ClientSeries.Filters \<Rightarrow> url" where
  "urls_historyDestinations r dir a ctry scope limit f = (''/api/history/destinations'',
     qs (range_params r @ [(''dir'', unless_default ''total'' dir), (''asn'', map_option show_int a), (''cc'', ctry),
       (''scope'', Option.bind scope (unless_default ''all'')), (''limit'', map_option show_int limit)] @ filter_params f))"

definition urls_storage :: "string \<Rightarrow> url" where
  "urls_storage tz = (''/api/storage'', qs [(''tz'', Some tz)])"

definition urls_storageBreakdown :: "string \<Rightarrow> string \<Rightarrow> string \<Rightarrow> url" where
  "urls_storageBreakdown tbl key tz = (''/api/storage/breakdown'', qs [(''table'', Some tbl), (''key'', Some key), (''tz'', Some tz)])"

definition urls_rdns :: "string list \<Rightarrow> url" where
  "urls_rdns ips = (''/api/rdns'', qs [(''ips'', Some (join '','' ips))])"

definition urls_historyScatter :: "TimeRange \<Rightarrow> string \<Rightarrow> string \<Rightarrow> ClientSeries.Filters \<Rightarrow> url" where
  "urls_historyScatter r grp basis f = (''/api/history/scatter'',
     qs (range_params r @ [(''group'', Some grp), (''basis'', Some basis)] @ filter_params f))"

section \<open>The range of the page\<close>

definition DEFAULT_SPAN_MS :: int where "DEFAULT_SPAN_MS = 24 * 3600000"

definition number_param :: "search \<Rightarrow> string \<Rightarrow> num option" where
  "number_param q k = (case search_get q k of None \<Rightarrow> Some 0 | Some s \<Rightarrow> js_Number s)"

definition useTimeRange :: "int \<Rightarrow> search \<Rightarrow> TimeRange" where
  "useTimeRange openedAt q = (case (number_param q ''from'', number_param q ''to'') of
       (Some f, Some t) \<Rightarrow> if isSafeInteger f \<and> isSafeInteger t \<and> f > 0 \<and> f < t then \<lparr> tm_from = \<lfloor>f\<rfloor>, tm_to = \<lfloor>t\<rfloor> \<rparr>
         else \<lparr> tm_from = openedAt - DEFAULT_SPAN_MS, tm_to = openedAt \<rparr>
     | _ \<Rightarrow> \<lparr> tm_from = openedAt - DEFAULT_SPAN_MS, tm_to = openedAt \<rparr>)"

section \<open>Reading back what was sent\<close>

lemma search_get_qs:
  assumes "distinct (map fst ps)"
  shows "search_get (qs ps) k = (case map_of ps k of Some v \<Rightarrow> v | None \<Rightarrow> None)"
proof -
  have "search_get (fold (\<lambda>(k, v) p. case v of Some x \<Rightarrow> set_first k x p | None \<Rightarrow> p) ps q) k
      = (case map_of ps k of Some (Some v) \<Rightarrow> Some v | _ \<Rightarrow> search_get q k)" for q
    using assms
  proof (induction ps arbitrary: q)
    case (Cons p ps)
    obtain j v where p: "p = (j, v)" by (cases p)
    have "map_of ps j = None" using Cons.prems by (simp add: p map_of_eq_None_iff)
    then show ?case using Cons.IH Cons.prems by (auto simp: p search_get_set split: option.splits)
  qed simp
  then show ?thesis by (simp add: qs_def search_get_def split: option.split)
qed

lemma intParam_show:
  assumes "int mn \<le> n" and "n \<le> MAX_SAFE" and "q k = Some (QStr (show_int n))"
  shows "intParam q k mn = Inr (Some n)"
proof -
  have pos: "0 \<le> n" using assms(1) by linarith
  have s: "show_int n = string_of_nat (nat n)" using pos by (simp add: show_int_def)
  have d: "all_digits (show_int n)" using string_of_nat_digits by (simp add: s all_digits_def)
  have hd: "\<not> starts_with ''-'' (show_int n)" using d by (cases "show_int n") (auto simp: starts_with_def all_digits_def is_digit_def)
  have v: "Number_dec (show_int n) = of_int n"
    using pos assms(2) Number_dec_exact [of "show_int n"] by (simp add: s MAX_SAFE_def nat_le_iff)
  have "isSafeInteger (of_int n :: num)" using pos assms(2) by (simp add: isSafeInteger_def)
  moreover have "\<not> (of_int n :: num) < of_nat mn" using assms(1) by (metis of_int_less_iff of_int_of_nat_eq not_less)
  ultimately show ?thesis using assms(3) d hd v by (simp add: intParam_def int_text_def s)
qed

section \<open>The page's request is served\<close>

lemma parseRange_ends:
  assumes "intParam q ''to'' 0 = Inr (Some to)" and "intParam q ''from'' 0 = Inr (Some fr)" and "fr < to" and "intParam q ''step'' 1 = Inr (Some st)"
  shows "parseRange q now = Inr (range_of (max fr (to - MAX_SPAN)) to (Some st))"
  unfolding parseRange_def assms(1,2,4) bind_res_simps Let_def range_of_def using assms(3) by simp

lemma finestStep_bounds:
  assumes "0 \<le> tm_from r" "tm_from r < tm_to r" "tm_to r \<le> MAX_SAFE"
  shows "1 \<le> finestStep r" "finestStep r \<le> MAX_SAFE"
proof -
  let ?n = "tm_to r - tm_from r"
  have n: "0 \<le> ?n" "?n \<le> MAX_SAFE" using assms by auto
  have "(of_int ?n / 1000 :: num) \<le> of_int MAX_SAFE" using n by (simp add: MAX_SAFE_def divide_le_eq)
  then have a: "fdiv (of_int ?n) 1000 \<le> of_int MAX_SAFE"
    using dbl.mono [of "of_int ?n / 1000" "of_int MAX_SAFE"] fl_of_int [of MAX_SAFE] by (simp add: fdiv_def MAX_SAFE_def)
  then have "fdiv (of_int ?n) 1000 / 1500 \<le> of_int MAX_SAFE" by (simp add: divide_le_eq MAX_SAFE_def)
  then have "fdiv (fdiv (of_int ?n) 1000) 1500 \<le> of_int MAX_SAFE"
    using dbl.mono [of "fdiv (of_int ?n) 1000 / 1500" "of_int MAX_SAFE"] fl_of_int [of MAX_SAFE] by (simp add: fdiv_def MAX_SAFE_def)
  then show "finestStep r \<le> MAX_SAFE" by (simp add: finestStep_def ceiling_le_iff MAX_SAFE_def)
qed (simp add: finestStep_def)

lemma throughput_params_distinct:
  "distinct (map fst (range_params r @ [(''step'', s), (''by'', b), (''dir'', d), (''top'', t)] @ filter_params f @ [(''compare'', c), (''unknown'', u), (''calls'', l)]))"
  by (simp add: range_params_def filter_params_def BY_VALUES_def by_text_def)

text \<open>What the server reads of the parameters of a throughput request.\<close>

lemma throughput_query:
  fixes r :: TimeRange and p :: ThroughputParams and compare :: "string option" and unknown calls :: bool
  defines "q \<equiv> server_query (snd (urls_historyThroughput r p compare unknown calls))"
  shows "q ''from'' = Some (QStr (show_int (tm_from r)))" "q ''to'' = Some (QStr (show_int (tm_to r)))" "q ''step'' = Some (QStr (show_int (finestStep r)))"
    "q ''by'' = Some (QStr (by_text (tp_by p)))" "q ''dir'' = Some (QStr (dir_text (tp_dir p)))" "q ''top'' = Some (QStr (show_int \<lfloor>tp_top p\<rfloor>))"
    "q (by_text d) = map_option QStr (tp_filters p d)" "q ''compare'' = map_option QStr compare"
    "q ''unknown'' = map_option QStr (flag_param unknown)" "q ''calls'' = map_option QStr (flag_param calls)"
  unfolding q_def server_query_def urls_historyThroughput_def snd_conv search_get_qs [OF throughput_params_distinct]
  by (cases d; simp add: range_params_def filter_params_def BY_VALUES_def by_text_def)+

lemma tp_top_parsed: "\<exists>n \<in> {5..20}. tp_top (parseThroughputParams s) = of_int n"
proof -
  have "\<exists>n \<in> {5..20}. x = (of_int n :: num)" if "isInteger x" "TOP_MIN \<le> x" "x \<le> TOP_MAX" for x
    using that by (intro bexI [of _ "\<lfloor>x\<rfloor>"]) (auto simp: isInteger_def TOP_MIN_def TOP_MAX_def le_floor_iff floor_le_iff)
  moreover have "\<exists>n \<in> {5..20}. TOP_DEFAULT = of_int n" by (intro bexI [of _ 8]) (simp_all add: TOP_DEFAULT_def)
  ultimately show ?thesis by (auto simp: parseThroughputParams_def split: option.split)
qed

lemma intInRange_show:
  assumes "int lo \<le> n" "n \<le> int hi" "int hi \<le> MAX_SAFE"
  shows "intInRange (Some (QStr (show_int n))) name fb lo hi = Inr n"
proof -
  have pos: "0 \<le> n" using assms(1) by linarith
  have s: "show_int n = string_of_nat (nat n)" using pos by (simp add: show_int_def)
  have "all_digits (show_int n)" using string_of_nat_digits by (simp add: s all_digits_def)
  moreover have "Number_dec (show_int n) = of_int n"
    using pos assms Number_dec_exact [of "show_int n"] by (simp add: s MAX_SAFE_def nat_le_iff)
  moreover have "(of_nat lo :: num) \<le> of_int n" "(of_int n :: num) \<le> of_nat hi" using assms(1,2) by (metis of_int_le_iff of_int_of_nat_eq)+
  ultimately show ?thesis by (simp add: intInRange_def s)
qed

text \<open>
  (C22) The request of the history chart, from the address bar to the handler: whatever the query string
  of the page is, the request the page sends for its range is understood by the server as the page
  means it (range, grouping, direction, number of keys, comparison and extras); it can be refused
  for a filter only, and accepted filters are those of the page: the texts of the name, application
  and protocol, the number of the user, and the address and port of the destination, each there
  exactly when the page has it.
\<close>

theorem throughput_request_served:
  assumes "0 \<le> tm_from r" "tm_from r < tm_to r" "tm_to r \<le> MAX_SAFE"
    and "p = parseThroughputParams s" and "compare = parseCompareParam s"
    and "q = server_query (snd (urls_historyThroughput r p compare unknown calls))"
    and "rng = range_of (max (tm_from r) (tm_to r - MAX_SPAN)) (tm_to r) (Some (finestStep r))"
  shows "throughput_input_req env q = bind_res (parseFilters (he_isIP env) q) (\<lambda>f. Inr \<lparr> ti_r = alignRange rng, ti_by = tp_by p, ti_dir = tp_dir p,
      ti_top = \<lfloor>tp_top p\<rfloor>, ti_compare = Option.bind compare (map_of COMPARE_OFFSET_MS), ti_filters = f, ti_unknown = unknown, ti_calls = calls \<rparr>)
    \<and> (\<forall>f. parseFilters (he_isIP env) q = Inr f \<longrightarrow>
        fl_name f = tp_filters p ByName \<and> fl_app f = tp_filters p ByApp \<and> fl_proto f = tp_filters p ByProto
        \<and> fl_uid f = map_option (\<lambda>u. \<lfloor>Number_dec u\<rfloor>) (tp_filters p ByUid)
        \<and> (fl_dest f = None \<longleftrightarrow> tp_filters p ByDest = None)
        \<and> parseDest (he_isIP env) (map_option QStr (tp_filters p ByDest)) = Inr (fl_dest f))"
proof -
  note q = throughput_query [of r p compare unknown calls, folded assms(6)]
  note st = finestStep_bounds [OF assms(1-3)]
  have ends: "intParam q ''to'' 0 = Inr (Some (tm_to r))" "intParam q ''from'' 0 = Inr (Some (tm_from r))" "intParam q ''step'' 1 = Inr (Some (finestStep r))"
    using assms(1-3) st q(1-3) by (auto intro!: intParam_show)
  have range: "parseRange q (he_now env) = Inr rng" unfolding assms(7) by (rule parseRange_ends [OF ends(1,2) assms(2) ends(3)])
  have by_ok: "parseBy (q ''by'') = Inr (tp_by p)" unfolding q(4) by (cases "tp_by p") (simp_all add: parseBy_def pick_word_def by_text_def DIMENSIONS_def)
  have dir_ok: "parseDir (q ''dir'') = Inr (tp_dir p)" unfolding q(5) by (cases "tp_dir p") (simp_all add: parseDir_def pick_word_def dir_text_def DIRS_def)
  obtain n where n: "5 \<le> n" "n \<le> 20" "tp_top p = of_int n" using tp_top_parsed [of s] assms(4) by auto
  have top_ok: "intInRange (q ''top'') ''top'' 8 5 20 = Inr \<lfloor>tp_top p\<rfloor>"
    unfolding q(6) n(3) using n(1,2) by (simp add: intInRange_show MAX_SAFE_def)
  have cmp_ok: "parseCompare (q ''compare'') = Inr (Option.bind compare (map_of COMPARE_OFFSET_MS))"
    unfolding q(8) assms(5) by (auto simp: parseCompareParam_def parseCompare_def pick_word_def COMPARE_OFFSET_MS_def split: option.split)
  have flags: "parseUnknown (q ''unknown'') = Inr unknown" "parseCalls (q ''calls'') = Inr calls"
    unfolding q(9,10) by (auto simp: parseUnknown_def parseCalls_def parse_flag_def flag_param_def)
  have filt: "text_filter q (by_text d) = Inr v \<Longrightarrow> v = tp_filters p d" for d v
    using q(7) [of d] assms(4) by (auto simp: text_filter_def parseThroughputParams_def parse_filters_def split: option.splits if_splits)
  have ne: "tp_filters p d \<noteq> Some []" for d
    using assms(4) by (auto simp: parseThroughputParams_def parse_filters_def split: option.splits if_splits)
  have uid: "uid_filter q = Inr v \<Longrightarrow> v = map_option (\<lambda>u. \<lfloor>Number_dec u\<rfloor>) (tp_filters p ByUid)" for v
    using q(7) [of ByUid] ne [of ByUid] by (auto simp: uid_filter_def by_text_def split: option.splits if_splits)
  have qd: "q ''dest'' = map_option QStr (tp_filters p ByDest)" using q(7) [of ByDest] by (simp add: by_text_def)
  have dest: "v = None \<longleftrightarrow> tp_filters p ByDest = None" if "parseDest (he_isIP env) (map_option QStr (tp_filters p ByDest)) = Inr v" for v
    using that ne [of ByDest] by (auto simp: parseDest_def dest_bad_def Let_def split: option.splits if_splits)
  have "fl_name f = tp_filters p ByName \<and> fl_app f = tp_filters p ByApp \<and> fl_proto f = tp_filters p ByProto
      \<and> fl_uid f = map_option (\<lambda>u. \<lfloor>Number_dec u\<rfloor>) (tp_filters p ByUid) \<and> (fl_dest f = None \<longleftrightarrow> tp_filters p ByDest = None)
      \<and> parseDest (he_isIP env) (map_option QStr (tp_filters p ByDest)) = Inr (fl_dest f)" if f: "parseFilters (he_isIP env) q = Inr f" for f
  proof -
    have "text_filter q ''name'' = Inr (fl_name f)" "text_filter q ''app'' = Inr (fl_app f)" "text_filter q ''proto'' = Inr (fl_proto f)"
      "uid_filter q = Inr (fl_uid f)" "parseDest (he_isIP env) (q ''dest'') = Inr (fl_dest f)"
      using f by (auto simp: parseFilters_def)
    then show ?thesis using filt [of ByName] filt [of ByApp] filt [of ByProto] uid dest unfolding qd by (simp add: by_text_def)
  qed
  then show ?thesis unfolding throughput_input_req_def range by_ok dir_ok top_ok cmp_ok flags bind_res_simps by simp
qed

text \<open>A page that groups by process and shows one user only: its request is accepted.\<close>

definition sample_range :: TimeRange where
  "sample_range = \<lparr> tm_from = 1000, tm_to = 61000 \<rparr>"

definition sample_search :: search where
  "sample_search = [(''by'', ''name''), (''filter.uid'', ''1000'')]"

definition sample_request :: query where
  "sample_request = server_query (snd (urls_historyThroughput sample_range (parseThroughputParams sample_search) None True False))"

theorem throughput_request_served_witness:
  "\<exists>f. throughput_input_req sample_env sample_request = Inr \<lparr> ti_r = alignRange (range_of (max 1000 (61000 - MAX_SPAN)) 61000 (Some (finestStep sample_range))),
     ti_by = ByName, ti_dir = DBoth, ti_top = 8, ti_compare = None, ti_filters = f, ti_unknown = True, ti_calls = False \<rparr>
   \<and> fl_name f = None \<and> fl_uid f = Some 1000 \<and> fl_dest f = None"
proof -
  have n: "Number_dec ''1000'' = 1000" "digits_between 1 10 ''1000''" by code_simp+
  have e: "parseCompareParam sample_search = None" "tp_by (parseThroughputParams sample_search) = ByName" "tp_dir (parseThroughputParams sample_search) = DBoth"
    "\<lfloor>tp_top (parseThroughputParams sample_search)\<rfloor> = 8"
    by (simp_all add: sample_search_def parseCompareParam_def parseThroughputParams_def search_get_def BY_VALUES_def by_text_def TOP_DEFAULT_def)
  have fs: "tp_filters (parseThroughputParams sample_search) d = (if d = ByUid then Some ''1000'' else None)" for d
    by (cases d) (simp_all add: sample_search_def parseThroughputParams_def parse_filters_def filterParam_def search_get_def by_text_def all_digits_def is_digit_def)
  have "sample_request (by_text d) = (if d = ByUid then Some (QStr ''1000'') else None)" for d
    unfolding sample_request_def throughput_query(7) by (simp add: fs)
  from this [of ByName] this [of ByApp] this [of ByProto] this [of ByUid] this [of ByDest]
  have "\<exists>f. parseFilters (he_isIP sample_env) sample_request = Inr f"
    by (simp add: parseFilters_def text_filter_def uid_filter_def parseDest_def by_text_def n n(2) [unfolded One_nat_def] Sql.UNKNOWN_UID_def)
  then obtain f where f: "parseFilters (he_isIP sample_env) sample_request = Inr f" ..
  from throughput_request_served [where r = sample_range and s = sample_search and unknown = True and calls = False and env = sample_env, OF _ _ _ refl refl refl refl] e
  show ?thesis by (intro exI [of _ f]) (simp add: sample_range_def MAX_SAFE_def sample_request_def [symmetric, unfolded sample_range_def] f fs n)
qed

section \<open>The finest step\<close>

lemma find_mono:
  assumes "sorted xs" and "w \<le> (w' :: int)" and "find (\<lambda>s. w' \<le> s) xs = Some b"
  shows "\<exists>a. find (\<lambda>s. w \<le> s) xs = Some a \<and> a \<le> b"
  using assms
proof (induction xs)
  case (Cons x xs)
  have "b \<in> set xs" if "\<not> w' \<le> x" using Cons.prems(3) that by (auto simp: find_Some_iff)
  then show ?case using Cons by (cases "w \<le> x"; cases "w' \<le> x") auto
qed simp

lemma nice_step_mono:
  assumes "1 \<le> w" "w \<le> w'" "w' \<le> 2 ^ 33"
  shows "nice_step w \<le> nice_step w'"
proof (cases "find (\<lambda>s. w' \<le> s) NICE_STEPS")
  case (Some b)
  moreover have "sorted NICE_STEPS" by (simp add: NICE_STEPS_def)
  ultimately obtain a where "find (\<lambda>s. w \<le> s) NICE_STEPS = Some a" "a \<le> b" using find_mono assms(2) by blast
  with Some show ?thesis by (simp add: nice_step_def)
next
  case None
  have big: "x < w'" if "x \<in> set NICE_STEPS" for x using None that by (auto simp: find_None_iff not_le)
  have ge: "w' \<le> ceil_to w' 86400" using assms by (intro ceil_to_ge) auto
  show ?thesis
  proof (cases "find (\<lambda>s. w \<le> s) NICE_STEPS")
    case (Some a)
    then have "a \<in> set NICE_STEPS" by (auto simp: find_Some_iff)
    with big ge None Some show ?thesis by (fastforce simp: nice_step_def)
  next
    case n: None
    have "ceil_to w 86400 \<le> ceil_to w' 86400" using assms by (simp add: ceil_to_exact zdiv_mono1)
    with None n show ?thesis by (simp add: nice_step_def)
  qed
qed

lemma range_step_nice:
  assumes "fr < to" "to - fr \<le> MAX_SPAN" "1 \<le> s" "s < 2 ^ 32"
  defines "w \<equiv> max s (min_step (to - fr \<le> 2 * HOUR) (to - fr))"
  shows "r_step (range_of fr to (Some s)) = nice_step w" "1 \<le> w" "w \<le> 2 ^ 33"
proof -
  have "min_step (to - fr \<le> 2 * HOUR) (to - fr) \<le> 86400" using min_step_le [of "to - fr"] assms(1,2) by auto
  then show w: "1 \<le> w" "w \<le> 2 ^ 33" using assms(3,4) by (auto simp: w_def)
  show "r_step (range_of fr to (Some s)) = nice_step w"
  proof (cases "to - fr \<le> 2 * HOUR")
    case False
    then have "60 \<le> w" using min_step_pos(2) [of "to - fr"] by (auto simp: w_def)
    from nice_step_minutes [OF this w(2)] have "ceil_to (nice_step w) 60 = nice_step w"
      using nice_step_ge [of w] w by (intro ceil_to_id) (auto simp: MAX_SAFE_def)
    with False show ?thesis by (simp add: range_of_def w_def Let_def)
  qed (simp add: range_of_def w_def Let_def)
qed

text \<open>
  The step the page asks for is the finest the server allows: no other step gives an answer with
  shorter buckets for the same range.
\<close>

theorem finestStep_finest:
  assumes "tm_from r < tm_to r" "tm_to r - tm_from r \<le> MAX_SPAN" and "1 \<le> s" "s < 2 ^ 32"
  shows "r_step (range_of (tm_from r) (tm_to r) (Some (finestStep r))) \<le> r_step (range_of (tm_from r) (tm_to r) (Some s))"
proof -
  let ?n = "tm_to r - tm_from r"
  let ?m = "min_step (?n \<le> 2 * HOUR) ?n"
  have f: "finestStep r \<le> ?m" "1 \<le> finestStep r" by (auto simp: finestStep_def min_step_def MAX_POINTS_def)
  have "?m \<le> 86400" using min_step_le [of ?n] assms(1,2) by auto
  then have "finestStep r \<le> 86400" using f(1) by linarith
  then have "finestStep r < 2 ^ 32" by simp
  note a = range_step_nice [OF assms(1,2) f(2) this] and b = range_step_nice [OF assms]
  have "max (finestStep r) ?m \<le> max s ?m" using f(1) by linarith
  then show ?thesis unfolding a(1) b(1) using a(2) b(3) by (intro nice_step_mono)
qed

theorem finestStep_finest_witness:
  "finestStep sample_range = 1 \<and> r_step (range_of 1000 61000 (Some 1)) \<le> r_step (range_of 1000 61000 (Some 10))"
proof -
  have "finestStep sample_range = 1" by code_simp
  then show ?thesis using finestStep_finest [of sample_range 10] by (simp add: sample_range_def MAX_SPAN_def DAY_def HOUR_def)
qed

section \<open>The range in the address bar\<close>

text \<open>
  A range picked on a page is the range read from its URL, whatever else the URL holds; and any
  query string gives a non-empty range, the last day when it names none.
\<close>

theorem useTimeRange_link:
  assumes "0 < tm_from r" "tm_from r < tm_to r" "tm_to r \<le> MAX_SAFE"
  shows "useTimeRange t (fold patch_one (range_params r) q) = r
    \<and> tm_from (useTimeRange t q) < tm_to (useTimeRange t q)
    \<and> (search_get q ''from'' = None \<longrightarrow> useTimeRange t q = \<lparr> tm_from = t - DEFAULT_SPAN_MS, tm_to = t \<rparr>)"
proof -
  have num: "js_Number (show_int n) = Some (of_int n)" if "0 \<le> n" "n \<le> MAX_SAFE" for n
  proof -
    have s: "show_int n = string_of_nat (nat n)" using that by (simp add: show_int_def)
    have "all_digits (show_int n)" using string_of_nat_digits by (simp add: s all_digits_def)
    moreover have "Number_dec (show_int n) = of_int n"
      using that Number_dec_exact [of "show_int n"] by (simp add: s MAX_SAFE_def nat_le_iff)
    moreover have "(of_int n :: num) < 2 ^ 1024"
    proof -
      have "n < 2 ^ 53" using that by (simp add: MAX_SAFE_def)
      also have "\<dots> \<le> (2 :: int) ^ 1024" by (rule power_increasing) simp_all
      finally show ?thesis by (metis of_int_less_iff of_int_numeral of_int_power)
    qed
    ultimately show ?thesis using js_Number_digits [of "show_int n"] by simp
  qed
  have safe: "isSafeInteger (of_int n :: num)" if "0 \<le> n" "n \<le> MAX_SAFE" for n using that by (simp add: isSafeInteger_def)
  have "number_param (fold patch_one (range_params r) q) ''from'' = Some (of_int (tm_from r))"
    "number_param (fold patch_one (range_params r) q) ''to'' = Some (of_int (tm_to r))"
    using assms by (simp_all add: number_param_def search_get_patch_one range_params_def num)
  then have "useTimeRange t (fold patch_one (range_params r) q) = r" using assms safe by (simp add: useTimeRange_def)
  moreover have "tm_from (useTimeRange t q) < tm_to (useTimeRange t q)"
    using isSafe_floor by (auto simp: useTimeRange_def DEFAULT_SPAN_MS_def split: option.split) (metis of_int_less_iff)
  moreover have "useTimeRange t q = \<lparr> tm_from = t - DEFAULT_SPAN_MS, tm_to = t \<rparr>" if "search_get q ''from'' = None"
    using that by (simp add: useTimeRange_def number_param_def split: option.split)
  ultimately show ?thesis by blast
qed

end
