(* ===== verification/ClientHeat.thy ===== *)
theory ClientHeat
  imports ClientApi
begin

text \<open>
  The calendar heatmap and the stacked panels: \<^verbatim>\<open>web/src/client/history/heatmapCells.ts\<close> and the layout of
  \<^verbatim>\<open>charts/smallMultiples.ts\<close>. \<open>Math.log10\<close> is an argument, and so is the wall clock of a time zone
  (\<open>Intl.DateTimeFormat.formatToParts\<close>, the parts of an instant as pairs of type and text). The dash
  of the labels, outside the 8-bit alphabet of the model, is the character 0x96.
\<close>

section \<open>Parameters and windows\<close>

definition parseHeatMetric :: "string option \<Rightarrow> HeatmapMetric" where
  "parseHeatMetric raw = (if raw = Some ''tx'' then HTx else if raw = Some ''rx'' then HRx else HTotal)"

definition parseHeatSplit :: "string option \<Rightarrow> HeatmapSplit" where
  "parseHeatSplit raw = (if raw = Some ''app'' then SplitApp else SplitNone)"

definition WEEKS_VALUES :: "string list" where
  "WEEKS_VALUES = [''1'', ''4'', ''12'']"

definition parseWeeks :: "string option \<Rightarrow> string" where
  "parseWeeks raw = (case raw of Some s \<Rightarrow> if s \<in> set WEEKS_VALUES then s else ''4'' | None \<Rightarrow> ''4'')"

definition DAYS :: "string list" where
  "DAYS = [''Mon'', ''Tue'', ''Wed'', ''Thu'', ''Fri'', ''Sat'', ''Sun'']"

definition HOURS :: "string list" where
  "HOURS = map (\<lambda>h. if h < 10 then CHR ''0'' # string_of_nat h else string_of_nat h) [0..<24]"

definition WEEK :: int where "WEEK = 7 * 24 * HOUR"

definition heatWindow :: "int \<Rightarrow> int \<Rightarrow> TimeRange" where
  "heatWindow weeks now = (let to = Math_floor (fdiv (of_int now) (of_int HOUR)) * HOUR in \<lparr> tm_from = to - weeks * WEEK, tm_to = to \<rparr>)"

section \<open>Cells\<close>

definition toLog :: "(num \<Rightarrow> num) \<Rightarrow> num \<Rightarrow> num" where
  "toLog log10 v = log10 (fadd v 1)"

definition heat_item :: "(num \<Rightarrow> num) \<Rightarrow> nat \<Rightarrow> num \<Rightarrow> nat \<times> nat \<times> num \<times> nat" where
  "heat_item log10 i v = (i mod 24, i div 24, toLog log10 v, i)"

definition heat_step :: "(num \<Rightarrow> num) \<Rightarrow> nat \<times> num option \<Rightarrow> (nat \<times> nat \<times> num \<times> nat) list \<times> num \<Rightarrow> (nat \<times> nat \<times> num \<times> nat) list \<times> num" where
  "heat_step log10 iv acc = (case snd iv of None \<Rightarrow> acc
     | Some v \<Rightarrow> let l = toLog log10 v in (fst acc @ [heat_item log10 (fst iv) v], if l > snd acc then l else snd acc))"

definition heatData :: "(num \<Rightarrow> num) \<Rightarrow> HeatmapGrid \<Rightarrow> (nat \<times> nat \<times> num \<times> nat) list \<times> num" where
  "heatData log10 g = fold (heat_step log10) (zip [0..<length (g_kbps g)] (g_kbps g)) ([], toLog log10 1)"

definition cellLabel :: "nat \<Rightarrow> string" where
  "cellLabel c = (let h = c mod 24 in (DAYS ! (c div 24)) @ '' '' @ (HOURS ! h) @ '':00'' @ [CHR 0x96]
     @ (if h = 23 then ''24'' else HOURS ! (h + 1)) @ '':00'')"

definition samplesText :: "nat \<Rightarrow> string" where
  "samplesText n = string_of_nat n @ '' week'' @ (if n = 1 then [] else ''s'')"

definition coveredDays :: "int \<Rightarrow> int \<Rightarrow> int option \<Rightarrow> num" where
  "coveredDays frm to coveredFrom = (let start = (case coveredFrom of None \<Rightarrow> to | Some c \<Rightarrow> max frm c)
     in fdiv (of_int (max 0 (to - start))) (of_int (24 * HOUR)))"

section \<open>The last occurrence of a cell\<close>

record wall =
  wl_dow :: int
  wl_hour :: int
  wl_minute :: int

definition DOW :: "string \<Rightarrow> int" where
  "DOW s = (case find_index (\<lambda>d. d = s) DAYS of Some i \<Rightarrow> int i | None \<Rightarrow> -1)"

text \<open>A text that is not a number gives NaN, which equals no hour: \<open>-2\<close>.\<close>

definition part_int :: "string \<Rightarrow> int" where
  "part_int s = (case js_Number s of Some x \<Rightarrow> if isInteger x then \<lfloor>x\<rfloor> else -2 | None \<Rightarrow> -2)"

definition wall_part :: "string \<times> string \<Rightarrow> wall \<Rightarrow> wall" where
  "wall_part p w = (if fst p = ''weekday'' then w\<lparr> wl_dow := DOW (snd p) \<rparr>
     else if fst p = ''hour'' then w\<lparr> wl_hour := (if part_int (snd p) = -2 then -2 else part_int (snd p) mod 24) \<rparr>
     else if fst p = ''minute'' then w\<lparr> wl_minute := part_int (snd p) \<rparr> else w)"

definition local_wall :: "(int \<Rightarrow> (string \<times> string) list) \<Rightarrow> int \<Rightarrow> wall" where
  "local_wall parts t = fold wall_part (parts t) \<lparr> wl_dow = -1, wl_hour = -1, wl_minute = -1 \<rparr>"

definition Q15 :: int where "Q15 = 15 * 60000"

function occurrence_loop :: "(int \<Rightarrow> bool) \<Rightarrow> int \<Rightarrow> int \<Rightarrow> int option" where
  "occurrence_loop ok stp t = (if t > stp then if ok t then Some t else occurrence_loop ok stp (t - Q15) else None)"
  by auto
termination by (relation "measure (\<lambda>(ok, stp, t). nat (t - stp))") (auto simp: Q15_def)

declare occurrence_loop.simps [simp del]

definition starts_cell :: "(int \<Rightarrow> (string \<times> string) list) \<Rightarrow> nat \<Rightarrow> int \<Rightarrow> bool" where
  "starts_cell parts c t \<longleftrightarrow> (let l = local_wall parts t in wl_minute l = 0 \<and> wl_hour l = int (c mod 24) \<and> wl_dow l = int (c div 24))"

definition lastOccurrence :: "(int \<Rightarrow> (string \<times> string) list) \<Rightarrow> nat \<Rightarrow> int \<Rightarrow> TimeRange option" where
  "lastOccurrence parts c before = map_option (\<lambda>t. \<lparr> tm_from = t, tm_to = t + HOUR \<rparr>)
     (occurrence_loop (starts_cell parts c) (before - 8 * 24 * HOUR) (Math_floor (fdiv (of_int (before - HOUR)) (of_int Q15)) * Q15))"

section \<open>Stacked panels\<close>

record Layout =
  ly_height :: int
  ly_top :: "int option"
  ly_bottom :: "int option"
  ly_gap :: "int option"

definition or_int :: "int \<Rightarrow> int option \<Rightarrow> int" where
  "or_int d v = (case v of Some x \<Rightarrow> x | None \<Rightarrow> d)"

fun grid_rows :: "num \<Rightarrow> num \<Rightarrow> int \<Rightarrow> int \<Rightarrow> num list \<Rightarrow> (int \<times> int) list" where
  "grid_rows plot sm gp y [] = []"
| "grid_rows plot sm gp y (w # ws) = (let h = Math_floor (fdiv (fmul plot w) sm) in (y, h) # grid_rows plot sm gp (y + h + gp) ws)"

definition plot_height :: "nat \<Rightarrow> Layout \<Rightarrow> int" where
  "plot_height n l = max 0 (ly_height l - or_int 24 (ly_top l) - or_int 28 (ly_bottom l) - or_int 30 (ly_gap l) * (int n - 1))"

definition gridLayout :: "num list \<Rightarrow> Layout \<Rightarrow> (int \<times> int) list" where
  "gridLayout weights l = (let sm = (if fsum weights = 0 then 1 else fsum weights)
     in grid_rows (of_int (plot_height (length weights) l)) sm (or_int 30 (ly_gap l)) (or_int 24 (ly_top l)) weights)"

section \<open>Properties\<close>

lemma occurrence_loop_Some:
  "occurrence_loop ok stp t = Some x \<Longrightarrow> ok x \<and> stp < x \<and> x \<le> t \<and> Q15 dvd (t - x) \<and> (\<forall>y. x < y \<and> y \<le> t \<and> Q15 dvd (t - y) \<longrightarrow> \<not> ok y)"
proof (induction ok stp t rule: occurrence_loop.induct)
  case (1 ok stp t)
  show ?case
  proof (cases "ok t")
    case True
    then show ?thesis using "1.prems" by (auto simp: occurrence_loop.simps [of ok stp t] split: if_splits)
  next
    case False
    then have gt: "t > stp" and x: "occurrence_loop ok stp (t - Q15) = Some x"
      using "1.prems" by (auto simp: occurrence_loop.simps [of ok stp t] split: if_splits)
    note ih = "1.IH" [OF gt False x]
    have d: "Q15 dvd (t - Q15 - y) \<longleftrightarrow> Q15 dvd (t - y)" for y
      using dvd_add_right_iff [of Q15 "- Q15" "t - y"] by (simp add: algebra_simps)
    have "\<not> ok y" if y: "x < y" "y \<le> t" "Q15 dvd (t - y)" for y
    proof (cases "y = t")
      case neq: False
      with y have "0 < t - y" by simp
      then have "Q15 \<le> t - y" using zdvd_imp_le y(3) by blast
      then show ?thesis using ih y d by (metis (no_types, lifting) diff_le_eq le_diff_eq add.commute)
    qed (use False in simp)
    moreover have "x \<le> t" using ih by (simp add: Q15_def)
    ultimately show ?thesis using ih d by blast
  qed
qed

lemma occurrence_loop_None:
  "occurrence_loop ok stp t = None \<Longrightarrow> stp < y \<Longrightarrow> y \<le> t \<Longrightarrow> Q15 dvd (t - y) \<Longrightarrow> \<not> ok y"
proof (induction ok stp t rule: occurrence_loop.induct)
  case (1 ok stp t)
  then have t: "t > stp" "\<not> ok t" "occurrence_loop ok stp (t - Q15) = None"
    by (auto simp: occurrence_loop.simps [of ok stp t] split: if_splits)
  show ?case
  proof (cases "y = t")
    case False
    then have "Q15 \<le> t - y" using "1.prems" zdvd_imp_le [of Q15 "t - y"] by simp
    moreover have "Q15 dvd (t - Q15 - y)" using "1.prems"(4) dvd_diff [of Q15 "t - y" Q15] by (simp add: algebra_simps)
    ultimately show ?thesis using "1.IH" [OF t] "1.prems"(2) by simp
  qed (use t in simp)
qed

text \<open>
  The click on a cell: the span opened is one hour that ends by the given instant, starts on the
  weekday and hour of the cell in the zone, and is the last such hour among the quarter hours of the
  last eight days; there is none exactly when none of them starts the cell.
\<close>

theorem lastOccurrence_latest:
  assumes "0 \<le> before" and "before < 2 ^ 52"
  shows "(\<forall>r. lastOccurrence parts c before = Some r \<longrightarrow>
      tm_to r = tm_from r + HOUR \<and> tm_to r \<le> before \<and> before - 8 * 24 * HOUR < tm_from r \<and> Q15 dvd tm_from r \<and> starts_cell parts c (tm_from r)
      \<and> (\<forall>t. starts_cell parts c t \<and> Q15 dvd t \<and> t + HOUR \<le> before \<longrightarrow> t \<le> tm_from r))
    \<and> (lastOccurrence parts c before = None \<longleftrightarrow>
        \<not> (\<exists>t. starts_cell parts c t \<and> Q15 dvd t \<and> t + HOUR \<le> before \<and> before - 8 * 24 * HOUR < t))"
proof -
  define t0 where "t0 = (before - HOUR) div Q15 * Q15"
  have fl: "Math_floor (fdiv (of_int (before - HOUR)) (of_int Q15)) = (before - HOUR) div Q15"
    using assms by (intro floor_fdiv) (auto simp: Q15_def HOUR_def)
  let ?lp = "occurrence_loop (starts_cell parts c) (before - 8 * 24 * HOUR) t0"
  have lo: "lastOccurrence parts c before = map_option (\<lambda>t. \<lparr> tm_from = t, tm_to = t + HOUR \<rparr>) ?lp"
    unfolding lastOccurrence_def fl t0_def by (rule refl)
  have t0: "t0 \<le> before - HOUR" "Q15 dvd t0" "before - HOUR < t0 + Q15" unfolding t0_def Q15_def by auto
  have le: "t \<le> t0" if "Q15 dvd t" "t + HOUR \<le> before" for t
  proof (rule ccontr)
    assume "\<not> t \<le> t0"
    then have "Q15 \<le> t - t0" using that(1) t0(2) by (intro zdvd_imp_le) auto
    with t0(3) that(2) show False by linarith
  qed
  have dv: "Q15 dvd (t0 - t) \<longleftrightarrow> Q15 dvd t" for t using t0(2) by (meson dvd_diff_right_iff)
  have some: "tm_to r = tm_from r + HOUR \<and> tm_to r \<le> before \<and> before - 8 * 24 * HOUR < tm_from r \<and> Q15 dvd tm_from r \<and> starts_cell parts c (tm_from r)
      \<and> (\<forall>t. starts_cell parts c t \<and> Q15 dvd t \<and> t + HOUR \<le> before \<longrightarrow> t \<le> tm_from r)" if res: "lastOccurrence parts c before = Some r" for r
  proof -
    obtain x where x: "?lp = Some x" "r = \<lparr> tm_from = x, tm_to = x + HOUR \<rparr>" using res lo by auto
    note p = occurrence_loop_Some [OF x(1), unfolded dv]
    have "t \<le> x" if "starts_cell parts c t" "Q15 dvd t" "t + HOUR \<le> before" for t
      using p that le [OF that(2,3)] by (meson not_le)
    then show ?thesis using p t0(1) by (simp add: x(2))
  qed
  have "?lp = None \<longleftrightarrow> \<not> (\<exists>t. starts_cell parts c t \<and> Q15 dvd t \<and> t + HOUR \<le> before \<and> before - 8 * 24 * HOUR < t)"
  proof
    assume "?lp = None"
    then show "\<not> (\<exists>t. starts_cell parts c t \<and> Q15 dvd t \<and> t + HOUR \<le> before \<and> before - 8 * 24 * HOUR < t)"
      using occurrence_loop_None le dv by blast
  next
    assume n: "\<not> (\<exists>t. starts_cell parts c t \<and> Q15 dvd t \<and> t + HOUR \<le> before \<and> before - 8 * 24 * HOUR < t)"
    show "?lp = None"
    proof (cases ?lp)
      case (Some x)
      note p = occurrence_loop_Some [OF this, unfolded dv]
      moreover have "x + HOUR \<le> before" using p t0(1) by linarith
      ultimately show ?thesis using n by blast
    qed
  qed
  then show ?thesis using some lo by (metis (no_types, lifting) option.map_disc_iff)
qed

text \<open>A zone whose clock is that of the server, without minutes of its own.\<close>

definition sample_parts :: "int \<Rightarrow> (string \<times> string) list" where
  "sample_parts t = [(''weekday'', DAYS ! nat ((t div 86400000 + 3) mod 7)), (''literal'', '' ''),
     (''hour'', string_of_nat (nat (t div 3600000 mod 24))), (''minute'', string_of_nat (nat (t div 60000 mod 60)))]"

theorem lastOccurrence_latest_witness:
  "lastOccurrence sample_parts 73 10000000 = Some \<lparr> tm_from = 3600000, tm_to = 7200000 \<rparr>
   \<and> Q15 dvd 3600000 \<and> starts_cell sample_parts 73 3600000"
proof -
  have v: "lastOccurrence sample_parts 73 10000000 = Some \<lparr> tm_from = 3600000, tm_to = 7200000 \<rparr>" by code_simp
  have "Q15 dvd tm_from r \<and> starts_cell sample_parts 73 (tm_from r)" if "lastOccurrence sample_parts 73 10000000 = Some r" for r
    using lastOccurrence_latest [of 10000000 sample_parts 73] that by simp
  from this [OF v] show ?thesis using v by simp
qed

lemma sum_div_le:
  fixes p S :: int
  assumes "0 < S" "0 \<le> p"
  shows "S * (\<Sum>w \<leftarrow> ws. p * int w div S) \<le> p * int (sum_list ws)"
proof (induction ws)
  case (Cons w ws)
  have "S * (p * int w div S) \<le> p * int w" using assms(1) by (simp add: mult_div_mod_eq [symmetric] flip: minus_mod_eq_mult_div)
  then show ?case using Cons by (simp add: distrib_left)
qed simp

lemma grid_rows_nat:
  assumes "0 \<le> p" "0 < S" and "\<And>w. w \<in> set ws \<Longrightarrow> p * int w < 2 ^ 53" and "S < 2 ^ 53"
  shows "map snd (grid_rows (of_int p) (of_int S) gp y (map of_nat ws)) = map (\<lambda>w. p * int w div S) ws
    \<and> map fst (grid_rows (of_int p) (of_int S) gp y (map of_nat ws))
      = map (\<lambda>i. y + (\<Sum>w \<leftarrow> take i ws. p * int w div S) + int i * gp) [0..<length ws]"
  using assms(3)
proof (induction ws arbitrary: y)
  case (Cons w ws)
  have pw: "p * int w < 2 ^ 53" "0 \<le> p * int w" using Cons.prems [of w] assms(1) by auto
  have "fmul (of_int p) (of_nat w) = fl (of_int (p * int w))" by (simp add: fmul_def)
  then have "fmul (of_int p) (of_nat w) = of_int (p * int w)" using pw fl_of_int [of "p * int w"] by simp
  then have h: "Math_floor (fdiv (fmul (of_int p) (of_nat w)) (of_int S)) = p * int w div S" using pw assms(2) floor_fdiv [of "p * int w" S] by simp
  have up: "[0..<length (w # ws)] = 0 # map Suc [0..<length ws]" by (simp add: upt_conv_Cons map_Suc_upt del: upt_Suc)
  show ?case using Cons.IH [of "y + p * int w div S + gp"] Cons.prems unfolding up by (simp add: h Let_def algebra_simps)
qed simp

text \<open>
  The panels of a stacked chart never overlap: for whole weights each panel starts below the one
  before it by its height and the gap, heights are not negative, a heavier panel is not lower, and
  when the chart is tall enough for its margins the last panel ends above the bottom margin.
\<close>

theorem gridLayout_fits:
  assumes "ws \<noteq> []" and "sum_list ws > 0" and "int (sum_list ws) * max 1 (plot_height (length ws) l) < 2 ^ 53"
  defines "g \<equiv> gridLayout (map of_nat ws) l" and "gp \<equiv> or_int 30 (ly_gap l)"
  shows "length g = length ws \<and> fst (hd g) = or_int 24 (ly_top l)
    \<and> (\<forall>i. Suc i < length g \<longrightarrow> fst (g ! Suc i) = fst (g ! i) + snd (g ! i) + gp)
    \<and> (\<forall>i < length g. 0 \<le> snd (g ! i)) \<and> (\<forall>i < length g. \<forall>j < length g. ws ! i \<le> ws ! j \<longrightarrow> snd (g ! i) \<le> snd (g ! j))
    \<and> (or_int 24 (ly_top l) + or_int 28 (ly_bottom l) + gp * (int (length ws) - 1) \<le> ly_height l
        \<longrightarrow> fst (last g) + snd (last g) \<le> ly_height l - or_int 28 (ly_bottom l))"
proof -
  define p where "p = plot_height (length ws) l"
  define S where "S = int (sum_list ws)"
  define y where "y = or_int 24 (ly_top l)"
  have p: "0 \<le> p" by (simp add: p_def plot_height_def)
  have S: "0 < S" using assms(2) by (simp add: S_def)
  have Sp: "S * p < 2 ^ 53" "S < 2 ^ 53"
  proof -
    have "S * p \<le> S * max 1 p" "S * 1 \<le> S * max 1 p" using S by (intro mult_left_mono; simp)+
    then show "S * p < 2 ^ 53" "S < 2 ^ 53" using assms(3) unfolding S_def p_def by linarith+
  qed
  have w: "p * int w < 2 ^ 53" if "w \<in> set ws" for w
  proof -
    have "int w \<le> S" using member_le_sum_list [OF that] by (simp add: S_def)
    then have "p * int w \<le> p * S" using p by (intro mult_left_mono)
    then show ?thesis using Sp(1) by (simp add: mult.commute)
  qed
  have "fsum (map of_nat ws) = of_int S" using fsum_nat [of ws] Sp(2) by (simp add: S_def)
  then have g: "g = grid_rows (of_int p) (of_int S) gp y (map of_nat ws)"
    using S unfolding g_def gridLayout_def by (simp add: p_def gp_def y_def)
  define h where "h = (\<lambda>w. p * int w div S)"
  have rows: "map snd g = map h ws" "map fst g = map (\<lambda>i. y + (\<Sum>w \<leftarrow> take i ws. h w) + int i * gp) [0..<length ws]"
    using grid_rows_nat [OF p S w Sp(2), where gp = gp and y = y] unfolding g h_def by blast+
  have len: "length g = length ws" using arg_cong [OF rows(1), of length] by simp
  have sn: "snd (g ! i) = h (ws ! i)" and ft: "fst (g ! i) = y + (\<Sum>w \<leftarrow> take i ws. h w) + int i * gp" if "i < length ws" for i
  proof -
    have "map snd g ! i = map h ws ! i" "map fst g ! i = map (\<lambda>i. y + (\<Sum>w \<leftarrow> take i ws. h w) + int i * gp) [0..<length ws] ! i" using rows by simp_all
    then show "snd (g ! i) = h (ws ! i)" "fst (g ! i) = y + (\<Sum>w \<leftarrow> take i ws. h w) + int i * gp" using that len by simp_all
  qed
  have tk: "(\<Sum>w \<leftarrow> take (Suc i) ws. h w) = (\<Sum>w \<leftarrow> take i ws. h w) + h (ws ! i)" if "i < length ws" for i
    using that by (simp add: take_Suc_conv_app_nth)
  have first: "fst (hd g) = y" using assms(1) ft [of 0] len by (simp add: hd_conv_nth flip: length_greater_0_conv)
  have gaps: "fst (g ! Suc i) = fst (g ! i) + snd (g ! i) + gp" if "Suc i < length ws" for i
    using that ft [of i] ft [of "Suc i"] sn [of i] tk [of i] by (simp add: algebra_simps)
  have nn: "0 \<le> h w" for w using p S by (simp add: h_def pos_imp_zdiv_nonneg_iff)
  have mono: "h v \<le> h w" if "v \<le> w" for v w using that p S by (simp add: h_def zdiv_mono1 mult_left_mono)
  have "fst (last g) + snd (last g) \<le> ly_height l - or_int 28 (ly_bottom l)" if fit: "y + or_int 28 (ly_bottom l) + gp * (int (length ws) - 1) \<le> ly_height l"
  proof -
    let ?i = "length ws - 1"
    have i: "?i < length ws" "Suc ?i = length ws" using assms(1) by (cases ws; simp)+
    have "g \<noteq> []" using len assms(1) by auto
    then have "last g = g ! ?i" by (simp add: last_conv_nth len)
    then have e: "fst (last g) + snd (last g) = y + (\<Sum>w \<leftarrow> ws. h w) + int ?i * gp" using ft [OF i(1)] sn [OF i(1)] tk [OF i(1)] i(2) by simp
    have "S * (\<Sum>w \<leftarrow> ws. h w) \<le> S * p" using sum_div_le [OF S p, of ws] by (simp add: h_def S_def mult.commute)
    then have "(\<Sum>w \<leftarrow> ws. h w) \<le> p" using S by simp
    moreover have "p = ly_height l - y - or_int 28 (ly_bottom l) - gp * (int (length ws) - 1)" using fit by (simp add: p_def plot_height_def y_def gp_def)
    moreover have "int ?i = int (length ws) - 1" using i by linarith
    ultimately show ?thesis using e by (simp add: mult.commute)
  qed
  then show ?thesis using len first gaps sn nn mono unfolding y_def by simp
qed

theorem gridLayout_fits_witness:
  "gridLayout [2, 1] \<lparr> ly_height = 242, ly_top = None, ly_bottom = None, ly_gap = None \<rparr> = [(24, 106), (160, 53)]
   \<and> fst (last (gridLayout (map of_nat [2, 1]) \<lparr> ly_height = 242, ly_top = None, ly_bottom = None, ly_gap = None \<rparr>))
     + snd (last (gridLayout (map of_nat [2, 1]) \<lparr> ly_height = 242, ly_top = None, ly_bottom = None, ly_gap = None \<rparr>)) \<le> 214"
proof -
  have "gridLayout [2, 1] \<lparr> ly_height = 242, ly_top = None, ly_bottom = None, ly_gap = None \<rparr> = [(24, 106), (160, 53)]" by code_simp
  then show ?thesis using gridLayout_fits [of "[2, 1]" "\<lparr> ly_height = 242, ly_top = None, ly_bottom = None, ly_gap = None \<rparr>"]
    by (simp add: plot_height_def or_int_def)
qed

lemma in_map_filter: "y \<in> set (List.map_filter f xs) \<longleftrightarrow> (\<exists>x \<in> set xs. f x = Some y)"
  by (induction xs) (auto simp: List.map_filter_simps split: option.split)

lemma heat_fold:
  "fold (heat_step log10) ivs acc = (fst acc @ List.map_filter (\<lambda>(i, v). map_option (heat_item log10 i) v) ivs,
     fold (\<lambda>(i, v) mx. case v of None \<Rightarrow> mx | Some x \<Rightarrow> max mx (toLog log10 x)) ivs (snd acc))"
proof (induction ivs arbitrary: acc)
  case (Cons iv ivs)
  then show ?case by (cases iv) (auto simp: heat_step_def Let_def List.map_filter_simps max_def split: option.split)
qed (simp add: List.map_filter_simps)

lemma heat_item_index: "snd (snd (snd (heat_item log10 i v))) = i"
  by (simp add: heat_item_def)

lemma heat_sorted:
  "sorted_wrt (\<lambda>a b. fst a < fst b) ivs \<Longrightarrow>
   sorted_wrt (\<lambda>a b. snd (snd (snd a)) < snd (snd (snd b))) (List.map_filter (\<lambda>(i, v). map_option (heat_item log10 i) v) ivs)"
proof (induction ivs)
  case (Cons iv ivs)
  obtain i v where iv: "iv = (i, v)" by (cases iv)
  have "snd (snd (snd y)) > i" if "y \<in> set (List.map_filter (\<lambda>(i, v). map_option (heat_item log10 i) v) ivs)" for y
  proof -
    from that obtain j w where "(j, w) \<in> set ivs" "map_option (heat_item log10 j) w = Some y" unfolding in_map_filter by auto
    then show ?thesis using Cons.prems by (auto simp: iv heat_item_def)
  qed
  then show ?case using Cons by (cases v) (auto simp: iv List.map_filter_simps heat_item_index)
qed (simp add: List.map_filter_simps)

lemma scale_ge:
  "mx \<le> fold (\<lambda>(i, v) mx. case v of None \<Rightarrow> mx | Some x \<Rightarrow> max mx (toLog log10 x)) ivs mx
   \<and> (\<forall>(i, v) \<in> set ivs. \<forall>x. v = Some x \<longrightarrow> toLog log10 x \<le> fold (\<lambda>(i, v) mx. case v of None \<Rightarrow> mx | Some x \<Rightarrow> max mx (toLog log10 x)) ivs mx)"
proof (induction ivs arbitrary: mx)
  case (Cons iv ivs)
  obtain i v where iv: "iv = (i, v)" by (cases iv)
  show ?case
  proof (cases v)
    case None
    then show ?thesis using Cons [of mx] by (simp add: iv)
  next
    case (Some x)
    note ih = Cons [of "max mx (toLog log10 x)"]
    then have "mx \<le> fold (\<lambda>(i, v) mx. case v of None \<Rightarrow> mx | Some x \<Rightarrow> max mx (toLog log10 x)) ivs (max mx (toLog log10 x))"
      "toLog log10 x \<le> fold (\<lambda>(i, v) mx. case v of None \<Rightarrow> mx | Some x \<Rightarrow> max mx (toLog log10 x)) ivs (max mx (toLog log10 x))" by auto
    with ih show ?thesis by (simp add: iv Some)
  qed
qed simp

text \<open>
  The heatmap's window and cells: the window is whole weeks long and ends at the start of the hour of
  now, so every weekday and hour has as many samples; every cell with samples is drawn once, at the
  column of its hour and the row of its weekday, with its value on the scale; the scale reaches the
  largest of them.
\<close>

theorem heatData_cells:
  assumes "0 \<le> now" "now < 2 ^ 53" and "heatData log10 g = (items, mx)"
  shows "tm_to (heatWindow weeks now) \<le> now \<and> now < tm_to (heatWindow weeks now) + HOUR \<and> HOUR dvd tm_to (heatWindow weeks now)
    \<and> tm_to (heatWindow weeks now) - tm_from (heatWindow weeks now) = weeks * 7 * 24 * HOUR
    \<and> set items = {(i mod 24, i div 24, toLog log10 v, i) | i v. i < length (g_kbps g) \<and> g_kbps g ! i = Some v}
    \<and> sorted_wrt (\<lambda>a b. snd (snd (snd a)) < snd (snd (snd b))) items
    \<and> toLog log10 1 \<le> mx \<and> (\<forall>x \<in> set items. fst (snd (snd x)) \<le> mx)"
proof -
  have "Math_floor (fdiv (of_int now) (of_int HOUR)) = now div HOUR" using assms(1,2) by (intro floor_fdiv) (auto simp: HOUR_def)
  then have w: "tm_to (heatWindow weeks now) = now div HOUR * HOUR" "tm_from (heatWindow weeks now) = now div HOUR * HOUR - weeks * WEEK"
    by (simp_all add: heatWindow_def Let_def)
  have now: "now div HOUR * HOUR \<le> now \<and> now < now div HOUR * HOUR + HOUR" by (auto simp: HOUR_def)
  let ?ivs = "zip [0..<length (g_kbps g)] (g_kbps g)"
  have items: "items = List.map_filter (\<lambda>(i, v). map_option (heat_item log10 i) v) ?ivs"
    and mx: "mx = fold (\<lambda>(i, v) mx. case v of None \<Rightarrow> mx | Some x \<Rightarrow> max mx (toLog log10 x)) ?ivs (toLog log10 1)"
    using assms(3) by (simp_all add: heatData_def heat_fold)
  have set_ivs: "(i, v) \<in> set ?ivs \<longleftrightarrow> i < length (g_kbps g) \<and> g_kbps g ! i = v" for i v by (auto simp: set_zip intro!: exI [of _ i])
  have st: "set items = {(i mod 24, i div 24, toLog log10 v, i) | i v. i < length (g_kbps g) \<and> g_kbps g ! i = Some v}"
  proof (rule set_eqI)
    fix x
    have "x \<in> set items \<longleftrightarrow> (\<exists>i v. (i, v) \<in> set ?ivs \<and> map_option (heat_item log10 i) v = Some x)"
      unfolding items in_map_filter by (simp add: Bex_def split_paired_Ex)
    also have "\<dots> \<longleftrightarrow> (\<exists>i v. i < length (g_kbps g) \<and> g_kbps g ! i = Some v \<and> heat_item log10 i v = x)" unfolding set_ivs by auto
    finally show "x \<in> set items \<longleftrightarrow> x \<in> {(i mod 24, i div 24, toLog log10 v, i) | i v. i < length (g_kbps g) \<and> g_kbps g ! i = Some v}"
      by (auto simp: heat_item_def)
  qed
  have "sorted_wrt (\<lambda>a b. fst a < fst b) ?ivs" by (simp add: sorted_wrt_iff_nth_less)
  then have "sorted_wrt (\<lambda>a b. snd (snd (snd a)) < snd (snd (snd b))) items" unfolding items
    by (rule heat_sorted)
  moreover have "toLog log10 1 \<le> mx" unfolding mx using scale_ge by blast
  moreover have "fst (snd (snd x)) \<le> mx" if x: "x \<in> set items" for x
  proof -
    obtain i v where iv: "i < length (g_kbps g)" "g_kbps g ! i = Some v" "fst (snd (snd x)) = toLog log10 v" using x unfolding st by auto
    then have "(i, Some v) \<in> set ?ivs" by (simp add: set_ivs)
    then show ?thesis unfolding iv(3) mx using scale_ge [of "toLog log10 1" log10 ?ivs] by blast
  qed
  ultimately show ?thesis using w now st by (simp add: WEEK_def)
qed

end
