(* ===== verification/ClientQuery.thy ===== *)
theory ClientQuery
  imports ClientBase Rdns Server
begin

text \<open>
  The data hooks of the browser side: \<^verbatim>\<open>web/src/client/hooks/useQuery.ts\<close> (one request per URL with a shared
  cache), \<^verbatim>\<open>hooks/usePoll.ts\<close> and \<^verbatim>\<open>useHealth.ts\<close> (polling), and \<^verbatim>\<open>geoStatus.ts\<close> (the state of the IP table, shared
  by the pages).

  A \<open>hook\<close> is the state of one mounted component that calls \<open>useQuery\<close>: the arguments of its last
  render, its React state and references, the URL its last effect ran for and the request of that
  effect. React is the environment: it renders, runs the effects of a render, and unmounts in the
  order of the steps of \<open>query_reach\<close>; requests are answered or fail at any time. An aborted request
  normally rejects without effect; one whose answer was already there when it was aborted can still
  call back, which is the step \<open>late\<close>. \<open>pg_log\<close> records the answers, oldest first, and is read by the
  theorems only. Answers are never null.
\<close>

section \<open>The cache and the hook\<close>

definition MAX_CACHED :: nat where "MAX_CACHED = 50"

type_synonym 'd cache = "(string, 'd) jsmap"

definition remember :: "string \<Rightarrow> 'd \<Rightarrow> 'd cache \<Rightarrow> 'd cache" where
  "remember url d c = (let c' = map_set url d (map_delete url c)
     in if length c' > MAX_CACHED then map_delete (fst (hd c')) c' else c')"

record 'd query_state =
  st_url :: "string option"
  st_data :: "'d option"
  st_error :: "string option"
  st_loading :: bool

record 'd hook =
  hk_url :: "string option"
  hk_refresh :: "string option"
  hk_state :: "'d query_state"
  hk_nonce :: nat
  hk_seen :: "string option"
  hk_deps :: "(string option \<times> nat) option"
  hk_flight :: "string option"

text \<open>\<open>url ? cache.get(url) : undefined\<close>: an empty URL counts as none.\<close>

definition fetchable :: "string option \<Rightarrow> bool" where
  "fetchable url \<longleftrightarrow> url \<noteq> None \<and> url \<noteq> Some []"

definition hook_mount :: "'d cache \<Rightarrow> string option \<Rightarrow> string option \<Rightarrow> 'd hook" where
  "hook_mount c url r = \<lparr> hk_url = url, hk_refresh = r,
     hk_state = \<lparr> st_url = url, st_data = (if fetchable url then map_get c (the url) else None), st_error = None, st_loading = (url \<noteq> None) \<rparr>,
     hk_nonce = 0, hk_seen = r, hk_deps = None, hk_flight = None \<rparr>"

definition hook_render :: "string option \<Rightarrow> string option \<Rightarrow> 'd hook \<Rightarrow> 'd hook" where
  "hook_render url r h = h\<lparr> hk_url := url, hk_refresh := r \<rparr>"

definition hook_reload :: "'d hook \<Rightarrow> 'd hook" where
  "hook_reload h = h\<lparr> hk_nonce := hk_nonce h + 1 \<rparr>"

text \<open>
  The first effect runs when the URL or the nonce changed since it last ran. Its cleanup aborts the
  request of the previous run, which the step relation moves to the aborted ones.
\<close>

definition effect_due :: "'d hook \<Rightarrow> bool" where
  "effect_due h \<longleftrightarrow> hk_deps h \<noteq> Some (hk_url h, hk_nonce h)"

definition fetch_effect :: "'d cache \<Rightarrow> 'd hook \<Rightarrow> 'd hook" where
  "fetch_effect c h = (if \<not> effect_due h then h else
     let s = hk_state h; h' = h\<lparr> hk_deps := Some (hk_url h, hk_nonce h) \<rparr> in
     if \<not> fetchable (hk_url h)
     then h'\<lparr> hk_state := \<lparr> st_url = hk_url h, st_data = None, st_error = None, st_loading = False \<rparr>, hk_flight := None \<rparr>
     else let u = the (hk_url h) in
       h'\<lparr> hk_state := \<lparr> st_url = Some u, st_data = (case map_get c u of Some d \<Rightarrow> Some d | None \<Rightarrow> st_data s), st_error = None, st_loading = True \<rparr>,
          hk_flight := Some u \<rparr>)"

definition refresh_effect :: "'d hook \<Rightarrow> 'd hook" where
  "refresh_effect h = (let prev = hk_seen h; h' = h\<lparr> hk_seen := hk_refresh h \<rparr>
     in if prev \<noteq> None \<and> prev \<noteq> hk_refresh h then hook_reload h' else h')"

definition hook_effects :: "'d cache \<Rightarrow> 'd hook \<Rightarrow> 'd hook" where
  "hook_effects c h = refresh_effect (fetch_effect c h)"

definition aborted_by :: "'d hook \<Rightarrow> string list" where
  "aborted_by h = (if effect_due h then (case hk_flight h of Some u \<Rightarrow> [u] | None \<Rightarrow> []) else [])"

text \<open>What a request calls when it settles.\<close>

definition set_answer :: "string \<Rightarrow> 'd \<Rightarrow> 'd hook \<Rightarrow> 'd hook" where
  "set_answer u d h = h\<lparr> hk_state := \<lparr> st_url = Some u, st_data = Some d, st_error = None, st_loading = False \<rparr> \<rparr>"

definition on_answer :: "string \<Rightarrow> 'd \<Rightarrow> 'd hook \<Rightarrow> 'd hook" where
  "on_answer u d h = (set_answer u d h)\<lparr> hk_flight := None \<rparr>"

definition on_failure :: "string \<Rightarrow> 'd hook \<Rightarrow> 'd hook" where
  "on_failure msg h = h\<lparr> hk_state := (hk_state h)\<lparr> st_error := Some msg, st_loading := False \<rparr>, hk_flight := None \<rparr>"

record 'd QueryState =
  qs_data :: "'d option"
  qs_error :: "string option"
  qs_loading :: bool
  qs_stale :: bool

definition useQuery :: "'d hook \<Rightarrow> 'd QueryState" where
  "useQuery h = (let s = hk_state h; fresh = (st_url s = hk_url h \<and> \<not> st_loading s)
     in \<lparr> qs_data = st_data s, qs_error = st_error s, qs_loading = st_loading s, qs_stale = (\<not> fresh \<and> st_data s \<noteq> None) \<rparr>)"

section \<open>The page\<close>

record 'd page =
  pg_cache :: "'d cache"
  pg_hooks :: "nat \<rightharpoonup> 'd hook"
  pg_aborted :: "(nat \<times> string) list"
  pg_log :: "(string \<times> 'd) list"

definition new_page :: "'d page" where
  "new_page = \<lparr> pg_cache = [], pg_hooks = Map.empty, pg_aborted = [], pg_log = [] \<rparr>"

definition put_hook :: "nat \<Rightarrow> 'd hook \<Rightarrow> 'd page \<Rightarrow> 'd page" where
  "put_hook i h p = p\<lparr> pg_hooks := (pg_hooks p)(i \<mapsto> h) \<rparr>"

definition page_mount :: "nat \<Rightarrow> string option \<Rightarrow> string option \<Rightarrow> 'd page \<Rightarrow> 'd page" where
  "page_mount i url r p = put_hook i (hook_mount (pg_cache p) url r) p"

definition page_effects :: "nat \<Rightarrow> 'd hook \<Rightarrow> 'd page \<Rightarrow> 'd page" where
  "page_effects i h p = put_hook i (hook_effects (pg_cache p) h) (p\<lparr> pg_aborted := pg_aborted p @ map (Pair i) (aborted_by h) \<rparr>)"

definition page_answered :: "string \<Rightarrow> 'd \<Rightarrow> 'd page \<Rightarrow> 'd page" where
  "page_answered u d p = p\<lparr> pg_cache := remember u d (pg_cache p), pg_log := pg_log p @ [(u, d)] \<rparr>"

definition page_late :: "nat \<Rightarrow> string \<Rightarrow> 'd \<Rightarrow> 'd page \<Rightarrow> 'd page" where
  "page_late i u d p = (let p' = page_answered u d (p\<lparr> pg_aborted := remove1 (i, u) (pg_aborted p) \<rparr>)
     in case pg_hooks p i of Some h \<Rightarrow> put_hook i (set_answer u d h) p' | None \<Rightarrow> p')"

definition page_unmount :: "nat \<Rightarrow> 'd hook \<Rightarrow> 'd page \<Rightarrow> 'd page" where
  "page_unmount i h p = p\<lparr> pg_hooks := (pg_hooks p)(i := None),
     pg_aborted := pg_aborted p @ (case hk_flight h of Some u \<Rightarrow> [(i, u)] | None \<Rightarrow> []) \<rparr>"

inductive query_reach :: "'d page \<Rightarrow> bool" where
  new: "query_reach new_page"
| mount: "query_reach p \<Longrightarrow> pg_hooks p i = None \<Longrightarrow> i \<notin> fst ` set (pg_aborted p) \<Longrightarrow> query_reach (page_mount i url r p)"
| render: "query_reach p \<Longrightarrow> pg_hooks p i = Some h \<Longrightarrow> query_reach (put_hook i (hook_render url r h) p)"
| effects: "query_reach p \<Longrightarrow> pg_hooks p i = Some h \<Longrightarrow> query_reach (page_effects i h p)"
| reload: "query_reach p \<Longrightarrow> pg_hooks p i = Some h \<Longrightarrow> query_reach (put_hook i (hook_reload h) p)"
| answer: "query_reach p \<Longrightarrow> pg_hooks p i = Some h \<Longrightarrow> hk_flight h = Some u \<Longrightarrow>
    query_reach (put_hook i (on_answer u d h) (page_answered u d p))"
| failure: "query_reach p \<Longrightarrow> pg_hooks p i = Some h \<Longrightarrow> hk_flight h = Some u \<Longrightarrow> query_reach (put_hook i (on_failure msg h) p)"
| late: "query_reach p \<Longrightarrow> (i, u) \<in> set (pg_aborted p) \<Longrightarrow> query_reach (page_late i u d p)"
| unmount: "query_reach p \<Longrightarrow> pg_hooks p i = Some h \<Longrightarrow> query_reach (page_unmount i h p)"

section \<open>The cache holds the last answers\<close>

text \<open>The newest answer of each URL, in the order of these answers.\<close>

fun newest :: "(string \<times> 'd) list \<Rightarrow> (string \<times> 'd) list" where
  "newest [] = []"
| "newest (x # xs) = (if fst x \<in> fst ` set xs then newest xs else x # newest xs)"

definition last_n :: "nat \<Rightarrow> 'a list \<Rightarrow> 'a list" where
  "last_n n xs = drop (length xs - n) xs"

lemma fst_newest: "fst ` set (newest xs) = fst ` set xs"
  by (induction xs) auto

lemma newest_ok: "map_ok (newest xs)"
  using fst_newest by (induction xs) (auto simp: map_ok_def)

lemma newest_snoc: "newest (xs @ [(u, d)]) = touch u d (newest xs)"
  by (induction xs) (auto simp: touch_def)

lemma newest_get: "map_get (newest xs) u = Some d \<Longrightarrow> (u, d) \<in> set xs"
proof (induction xs)
  case (Cons x xs)
  then show ?case by (cases x) (auto simp: map_get_def split: if_splits)
qed (simp add: map_get_def)

lemma last_n_snoc: "last_n (Suc n) (xs @ [x]) = last_n n xs @ [x]"
  by (simp add: last_n_def)

lemma last_n_append: "n \<le> length ys \<Longrightarrow> last_n n (xs @ ys) = last_n n ys"
  by (simp add: last_n_def)

lemma last_n_subset: "set (last_n n xs) \<subseteq> set xs"
  by (simp add: last_n_def set_drop_subset)

lemma length_last_n: "length (last_n n xs) \<le> n"
  by (simp add: last_n_def)

text \<open>Forgetting one key beforehand does not matter for one entry less.\<close>

lemma touch_last_n:
  assumes "map_ok m"
  shows "last_n (Suc n) (touch k v (last_n (Suc n) m)) = last_n (Suc n) (touch k v m)"
proof (cases "length m \<le> Suc n")
  case False
  define ys where "ys = last_n (Suc n) m"
  obtain xs where m: "m = xs @ ys" unfolding ys_def last_n_def by (metis append_take_drop_id)
  have len: "length ys = Suc n" using False by (simp add: ys_def last_n_def)
  have ok: "distinct (map fst ys)" using assms by (simp add: map_ok_def m)
  have "length (filter (\<lambda>x. fst x = k) ys) \<le> 1"
    using ok by (induction ys) (auto simp: image_iff filter_empty_conv)
  then have "n \<le> length (filter (\<lambda>x. fst x \<noteq> k) ys)" using sum_length_filter_compl [of "\<lambda>x. fst x = k" ys] len by simp
  then have "last_n n (filter (\<lambda>x. fst x \<noteq> k) m) = last_n n (filter (\<lambda>x. fst x \<noteq> k) ys)" by (simp add: m last_n_append)
  then show ?thesis by (simp add: touch_def last_n_snoc ys_def [symmetric])
qed (simp add: last_n_def [of _ m])

lemma remember_touch:
  assumes "map_ok c" and "length c \<le> MAX_CACHED"
  shows "remember u d c = last_n MAX_CACHED (touch u d c)"
proof -
  have "length (touch u d c) \<le> Suc MAX_CACHED" using length_touch [of u d c] assms(2) by linarith
  moreover have "touch u d c \<noteq> []" by (simp add: touch_def)
  ultimately show ?thesis using delete_hd [OF map_ok_touch [OF assms(1)], of u d]
    by (cases "length (touch u d c) = Suc MAX_CACHED") (simp_all add: remember_def map_set_delete [OF assms(1)] last_n_def Let_def drop_Suc)
qed

definition recent_ok :: "'d page \<Rightarrow> bool" where
  "recent_ok p \<longleftrightarrow> pg_cache p = last_n MAX_CACHED (newest (pg_log p))"

lemma cache_answered: "recent_ok p \<Longrightarrow> recent_ok (page_answered u d p)"
proof -
  assume c: "recent_ok p"
  let ?m = "newest (pg_log p)"
  obtain n where n: "MAX_CACHED = Suc n" by (simp add: MAX_CACHED_def)
  have "map_ok (last_n MAX_CACHED ?m)" unfolding last_n_def by (intro map_ok_drop newest_ok)
  then have "remember u d (pg_cache p) = last_n MAX_CACHED (touch u d (last_n MAX_CACHED ?m))"
    using c remember_touch [of "last_n MAX_CACHED ?m" u d] length_last_n [of MAX_CACHED ?m] by (simp add: recent_ok_def)
  then show ?thesis using touch_last_n [OF newest_ok, of n u d "pg_log p"] unfolding recent_ok_def n
    by (simp add: page_answered_def newest_snoc)
qed

lemma cached_logged: "recent_ok p \<Longrightarrow> map_get (pg_cache p) u = Some d \<Longrightarrow> (u, d) \<in> set (pg_log p)"
proof -
  assume "recent_ok p" and "map_get (pg_cache p) u = Some d"
  then have "(u, d) \<in> set (newest (pg_log p))" using last_n_subset unfolding recent_ok_def map_get_def by (metis map_of_SomeD subsetD)
  then have "map_get (newest (pg_log p)) u = Some d" using newest_ok [of "pg_log p"] by (simp add: map_get_def map_ok_def)
  then show ?thesis by (rule newest_get)
qed


section \<open>What a hook shows\<close>

text \<open>
  The invariant of a hook, for the answers received so far: what it holds without an error and not
  loading is an answer for its URL; whatever it holds is some answer; it waits only while a request
  is under way or its first effects are still to run; and the request under way is that of the last
  effect.
\<close>

definition hook_ok :: "(string \<times> 'd) list \<Rightarrow> 'd hook \<Rightarrow> bool" where
  "hook_ok lg h \<longleftrightarrow> (let s = hk_state h in
       (\<forall>u d. st_url s = Some u \<and> \<not> st_loading s \<and> st_error s = None \<and> st_data s = Some d \<longrightarrow> (u, d) \<in> set lg)
     \<and> (\<forall>d. st_data s = Some d \<longrightarrow> d \<in> snd ` set lg)
     \<and> (st_url s = None \<longrightarrow> st_data s = None \<and> \<not> st_loading s)
     \<and> (st_loading s \<longrightarrow> st_error s = None \<and> (hk_flight h \<noteq> None \<or> hk_deps h = None))
     \<and> (\<forall>u. hk_flight h = Some u \<longrightarrow> u \<noteq> [] \<and> (\<exists>n. hk_deps h = Some (Some u, n))))"

lemma hook_ok_mono: "hook_ok lg h \<Longrightarrow> hook_ok (lg @ xs) h"
  by (auto simp: hook_ok_def Let_def)

lemma cached_some: "recent_ok p \<Longrightarrow> map_get (pg_cache p) u = Some d \<Longrightarrow> d \<in> snd ` set (pg_log p)"
  using cached_logged [of p u d] by force

lemma mount_ok: "recent_ok p \<Longrightarrow> hook_ok (pg_log p) (hook_mount (pg_cache p) url r)"
  by (cases url) (auto simp: hook_ok_def hook_mount_def Let_def fetchable_def split: if_splits dest: cached_some)

lemma render_ok: "hook_ok lg h \<Longrightarrow> hook_ok lg (hook_render url r h)"
  by (simp add: hook_ok_def hook_render_def)

lemma reload_ok: "hook_ok lg h \<Longrightarrow> hook_ok lg (hook_reload h)"
  by (simp add: hook_ok_def hook_reload_def)

lemma fetch_ok:
  assumes "recent_ok p" and "hook_ok (pg_log p) h"
  shows "hook_ok (pg_log p) (fetch_effect (pg_cache p) h)"
  using assms(2) cached_some [OF assms(1)] by (auto simp: hook_ok_def fetch_effect_def Let_def fetchable_def split: option.splits)

lemma effects_ok: "recent_ok p \<Longrightarrow> hook_ok (pg_log p) h \<Longrightarrow> hook_ok (pg_log p) (hook_effects (pg_cache p) h)"
proof -
  assume "recent_ok p" "hook_ok (pg_log p) h"
  then have "hook_ok (pg_log p) (fetch_effect (pg_cache p) h)" by (rule fetch_ok)
  then show ?thesis by (simp add: hook_effects_def refresh_effect_def Let_def hook_ok_def hook_reload_def)
qed

lemma answer_ok: "hook_ok lg h \<Longrightarrow> hook_ok (lg @ [(u, d)]) (set_answer u d h)" "hook_ok lg h \<Longrightarrow> hook_ok (lg @ [(u, d)]) (on_answer u d h)"
  by (auto simp: hook_ok_def on_answer_def set_answer_def Let_def)

lemma failure_ok: "hook_ok lg h \<Longrightarrow> hook_ok lg (on_failure msg h)"
  by (auto simp: hook_ok_def on_failure_def Let_def)

definition page_ok :: "'d page \<Rightarrow> bool" where
  "page_ok p \<longleftrightarrow> recent_ok p \<and> (\<forall>i h. pg_hooks p i = Some h \<longrightarrow> hook_ok (pg_log p) h)"

lemma page_hook: "page_ok p \<Longrightarrow> pg_hooks p i = Some h \<Longrightarrow> hook_ok (pg_log p) h"
  by (simp add: page_ok_def)

lemma put_hook_ok: "page_ok p \<Longrightarrow> hook_ok (pg_log p) h \<Longrightarrow> page_ok (put_hook i h p)"
  by (auto simp: page_ok_def put_hook_def recent_ok_def)

lemma answered_ok: "page_ok p \<Longrightarrow> page_ok (page_answered u d p)"
  using cache_answered [of p u d] by (auto simp: page_ok_def page_answered_def intro: hook_ok_mono)

lemma page_ok_aborted: "page_ok (p\<lparr> pg_aborted := a \<rparr>) \<longleftrightarrow> page_ok p"
  by (simp add: page_ok_def recent_ok_def)

lemma page_answered_log [simp]: "pg_log (page_answered u d p) = pg_log p @ [(u, d)]" "pg_hooks (page_answered u d p) = pg_hooks p"
  by (simp_all add: page_answered_def)

lemma query_reach_ok: "query_reach p \<Longrightarrow> page_ok p"
proof (induction rule: query_reach.induct)
  case new
  show ?case by (simp add: page_ok_def recent_ok_def new_page_def last_n_def)
next
  case (mount p i url r)
  then show ?case unfolding page_mount_def by (intro put_hook_ok mount_ok) (auto simp: page_ok_def)
next
  case (effects p i h)
  then have "page_ok (p\<lparr> pg_aborted := pg_aborted p @ map (Pair i) (aborted_by h) \<rparr>)" by (simp add: page_ok_aborted)
  then show ?case unfolding page_effects_def using effects by (intro put_hook_ok) (auto simp: page_ok_def intro: effects_ok)
next
  case (answer p i h u d)
  then show ?case by (intro put_hook_ok answered_ok) (auto simp: page_ok_def intro: answer_ok(2))
next
  case (late p i u d)
  define p' where "p' = page_answered u d (p\<lparr> pg_aborted := remove1 (i, u) (pg_aborted p) \<rparr>)"
  have ok: "page_ok p'" unfolding p'_def using late.IH by (intro answered_ok) (simp add: page_ok_aborted)
  have "hook_ok (pg_log p') (set_answer u d h)" if "pg_hooks p i = Some h" for h
    using late.IH that unfolding p'_def by (auto simp: page_ok_def intro: answer_ok(1))
  with ok show ?case unfolding page_late_def Let_def p'_def [symmetric] by (auto split: option.split intro: put_hook_ok)
next
  case (unmount p i h)
  then show ?case by (auto simp: page_unmount_def page_ok_def recent_ok_def)
qed (blast intro: put_hook_ok render_ok reload_ok failure_ok page_hook)+

text \<open>
  (C21) The data hooks of a page, in every reachable state, for any number of components and any order of
  renders, effects, answers, failures and late answers of aborted requests: the cache holds the
  newest answers of the last 50 answered URLs; data shown without an error and not marked stale is
  an answer for the URL just rendered; data is never anything but an answer received before; and a
  component waits only while its request is under way or its first effects are to run.
\<close>

theorem query_reach_fresh:
  assumes "query_reach p" and "pg_hooks p i = Some h"
  shows "pg_cache p = last_n 50 (newest (pg_log p))
    \<and> (qs_data (useQuery h) = Some d \<and> \<not> qs_stale (useQuery h) \<and> qs_error (useQuery h) = None
        \<longrightarrow> (\<exists>u. hk_url h = Some u \<and> (u, d) \<in> set (pg_log p)))
    \<and> (qs_data (useQuery h) = Some d \<longrightarrow> (\<exists>u. (u, d) \<in> set (pg_log p)))
    \<and> (qs_loading (useQuery h) \<longrightarrow> qs_error (useQuery h) = None \<and> (hk_flight h \<noteq> None \<or> effect_due h))"
proof -
  have ok: "recent_ok p" "hook_ok (pg_log p) h" using query_reach_ok [OF assms(1)] assms(2) by (auto simp: page_ok_def)
  have "\<exists>u. hk_url h = Some u \<and> (u, d) \<in> set (pg_log p)"
    if "qs_data (useQuery h) = Some d" "\<not> qs_stale (useQuery h)" "qs_error (useQuery h) = None"
    using ok(2) that by (cases "hk_url h") (auto simp: useQuery_def hook_ok_def Let_def)
  moreover have "\<exists>u. (u, d) \<in> set (pg_log p)" if "qs_data (useQuery h) = Some d"
    using ok(2) that by (force simp: useQuery_def hook_ok_def Let_def)
  moreover have "qs_error (useQuery h) = None \<and> (hk_flight h \<noteq> None \<or> effect_due h)" if "qs_loading (useQuery h)"
    using ok(2) that by (auto simp: useQuery_def hook_ok_def Let_def effect_due_def)
  ultimately show ?thesis using ok(1) by (simp add: recent_ok_def MAX_CACHED_def)
qed

text \<open>
  A component that renders a URL ends with its answer: once its effects have run (twice, if the
  refresh value changed with the URL), the request under way is for that URL, and its answer is
  shown, fresh and without an error, and cached under the URL.
\<close>

theorem query_settles:
  assumes "query_reach p" and "pg_hooks p i = Some h" and "hk_url h = Some u" and "u \<noteq> []" and "effect_due h"
    and "h' = hook_effects c (hook_effects (pg_cache p) h)"
  shows "hk_flight h' = Some u \<and> \<not> effect_due h' \<and> qs_loading (useQuery h')
    \<and> useQuery (on_answer u d h') = \<lparr> qs_data = Some d, qs_error = None, qs_loading = False, qs_stale = False \<rparr>
    \<and> map_get (pg_cache (page_answered u d p)) u = Some d"
proof -
  have e: "hk_url (hook_effects c k) = hk_url k" "hk_seen (hook_effects c k) = hk_refresh k" "hk_refresh (hook_effects c k) = hk_refresh k" for c and k :: "'a hook"
    by (auto simp: hook_effects_def refresh_effect_def fetch_effect_def hook_reload_def Let_def)
  have f: "hk_flight (hook_effects c k) = Some u \<and> st_loading (hk_state (hook_effects c k))" if "effect_due k" "hk_url k = Some u" for c and k :: "'a hook"
    using that assms(4) by (simp add: hook_effects_def refresh_effect_def fetch_effect_def hook_reload_def Let_def fetchable_def)
  have s: "\<not> effect_due (hook_effects c k)" if "hk_seen k = hk_refresh k" for c and k :: "'a hook"
    using that by (simp add: hook_effects_def refresh_effect_def fetch_effect_def hook_reload_def Let_def effect_due_def)
  let ?k = "hook_effects (pg_cache p) h"
  have k: "hk_flight ?k = Some u" "st_loading (hk_state ?k)" "hk_url ?k = Some u" using f [OF assms(5,3)] e(1) assms(3) by simp_all
  have h': "hk_flight h' = Some u" "st_loading (hk_state h')" "hk_url h' = Some u"
  proof -
    show "hk_url h' = Some u" using assms(6) e(1) k(3) by simp
    have "hk_flight h' = Some u \<and> st_loading (hk_state h')"
    proof (cases "effect_due ?k")
      case True
      then show ?thesis using f k(3) assms(6) by simp
    next
      case False
      then show ?thesis using k e(2,3) by (simp add: assms(6) hook_effects_def [of c] refresh_effect_def fetch_effect_def Let_def)
    qed
    then show "hk_flight h' = Some u" "st_loading (hk_state h')" by simp_all
  qed
  have "\<not> effect_due h'" unfolding assms(6) using e by (intro s) simp
  moreover have "map_get (pg_cache (page_answered u d p)) u = Some d"
  proof -
    obtain n where n: "MAX_CACHED = Suc n" by (simp add: MAX_CACHED_def)
    have "recent_ok (page_answered u d p)" using query_reach_ok [OF assms(1)] cache_answered by (auto simp: page_ok_def)
    then have c: "pg_cache (page_answered u d p) = last_n (Suc n) (touch u d (newest (pg_log p)))" by (simp add: recent_ok_def newest_snoc n)
    have "map_ok (pg_cache (page_answered u d p))" unfolding c last_n_def by (intro map_ok_drop map_ok_touch newest_ok)
    then show ?thesis unfolding map_get_def by (intro map_of_is_SomeI) (simp_all add: c touch_def last_n_snoc map_ok_def)
  qed
  ultimately show ?thesis using h' by (simp add: useQuery_def on_answer_def set_answer_def effect_due_def Let_def)
qed

text \<open>A component whose first URL was answered, and one step further.\<close>

definition sample_mounted :: "nat page" where
  "sample_mounted = page_mount 0 (Some ''/a'') None new_page"

definition sample_hook :: "nat hook" where
  "sample_hook = hook_effects [] (hook_mount [] (Some ''/a'') None)"

definition sample_page :: "nat page" where
  "sample_page = put_hook 0 (on_answer ''/a'' 1 sample_hook) (page_answered ''/a'' 1 (put_hook 0 sample_hook new_page))"

lemmas sample_page_defs = sample_page_def sample_mounted_def sample_hook_def page_mount_def page_effects_def page_answered_def put_hook_def
  hook_mount_def hook_effects_def refresh_effect_def fetch_effect_def hook_render_def on_answer_def set_answer_def on_failure_def
  fetchable_def effect_due_def aborted_by_def hook_reload_def remember_def MAX_CACHED_def Let_def new_page_def map_set_def map_delete_def map_get_def useQuery_def

lemma sample_mounted_reach: "query_reach sample_mounted" "pg_hooks sample_mounted 0 = Some (hook_mount [] (Some ''/a'') None)"
proof -
  show "query_reach sample_mounted" unfolding sample_mounted_def by (rule query_reach.mount [OF query_reach.new]) (simp_all add: new_page_def)
qed (simp add: sample_mounted_def page_mount_def put_hook_def new_page_def)

lemma sample_page_reach: "query_reach sample_page" "pg_hooks sample_page 0 = Some (on_answer ''/a'' 1 sample_hook)" "pg_log sample_page = [(''/a'', 1)]"
proof -
  have "page_effects 0 (hook_mount [] (Some ''/a'') None) sample_mounted = put_hook 0 sample_hook new_page"
    by (simp add: sample_page_defs)
  then have r: "query_reach (put_hook 0 sample_hook new_page)" using query_reach.effects [OF sample_mounted_reach] by simp
  show "query_reach sample_page" unfolding sample_page_def
    by (rule query_reach.answer [OF r]) (simp_all add: put_hook_def, simp add: sample_page_defs)
qed (simp_all add: sample_page_defs)

theorem query_reach_fresh_witness:
  "query_reach sample_page \<and> qs_data (useQuery (on_answer ''/a'' 1 sample_hook)) = Some 1
   \<and> \<not> qs_stale (useQuery (on_answer ''/a'' 1 sample_hook)) \<and> qs_error (useQuery (on_answer ''/a'' 1 sample_hook)) = None
   \<and> (\<exists>u. hk_url (on_answer ''/a'' (1 :: nat) sample_hook) = Some u \<and> (u, 1) \<in> set (pg_log sample_page))"
proof -
  have "qs_data (useQuery (on_answer ''/a'' 1 sample_hook)) = Some 1" "\<not> qs_stale (useQuery (on_answer ''/a'' 1 sample_hook))"
    "qs_error (useQuery (on_answer ''/a'' 1 sample_hook)) = None" by (simp_all add: sample_page_defs)
  then show ?thesis using query_reach_fresh [OF sample_page_reach(1,2), of 1] sample_page_reach(1) by blast
qed

theorem query_settles_witness:
  "hk_flight (hook_effects [] (hook_effects [] (hook_mount [] (Some ''/a'') None :: nat hook))) = Some ''/a''"
proof -
  have c: "pg_cache sample_mounted = []" by (simp add: sample_page_defs)
  have "hk_url (hook_mount [] (Some ''/a'') None :: nat hook) = Some ''/a''" "effect_due (hook_mount [] (Some ''/a'') None :: nat hook)"
    by (simp_all add: hook_mount_def effect_due_def)
  then show ?thesis using query_settles [OF sample_mounted_reach _ _ _ refl, of "''/a''" "[]" 1] by (simp add: c)
qed

text \<open>The steps of a component that renders another URL, asks for it and is refused.\<close>

definition refused_hook :: "'d cache \<Rightarrow> string \<Rightarrow> string option \<Rightarrow> string \<Rightarrow> 'd hook \<Rightarrow> 'd hook" where
  "refused_hook c u r msg h = on_failure msg (hook_effects c (hook_render (Some u) r h))"

definition refused_page :: "nat \<Rightarrow> string \<Rightarrow> string option \<Rightarrow> string \<Rightarrow> 'd hook \<Rightarrow> 'd page \<Rightarrow> 'd page" where
  "refused_page i u r msg h p = put_hook i (refused_hook (pg_cache p) u r msg h)
     (page_effects i (hook_render (Some u) r h) (put_hook i (hook_render (Some u) r h) p))"

lemma asked_hook:
  assumes "effect_due (hook_render (Some u) r h)" and "u \<noteq> []"
  shows "hk_flight (hook_effects c (hook_render (Some u) r h)) = Some u"
    "hk_state (hook_effects c (hook_render (Some u) r h)) = \<lparr> st_url = Some u,
       st_data = (case map_get c u of Some d \<Rightarrow> Some d | None \<Rightarrow> st_data (hk_state h)), st_error = None, st_loading = True \<rparr>"
  using assms by (simp_all add: hook_effects_def refresh_effect_def fetch_effect_def hook_reload_def hook_render_def fetchable_def Let_def)

lemma refused_page_reach:
  assumes "query_reach p" and "pg_hooks p i = Some h" and "effect_due (hook_render (Some u) r h)" and "u \<noteq> []"
  shows "query_reach (refused_page i u r msg h p)"
proof -
  let ?h = "hook_render (Some u) r h"
  let ?p = "put_hook i ?h p"
  have "query_reach ?p" by (rule query_reach.render [OF assms(1,2)])
  moreover have "pg_hooks ?p i = Some ?h" by (simp add: put_hook_def)
  ultimately have "query_reach (page_effects i ?h ?p)" by (rule query_reach.effects)
  moreover have "pg_hooks (page_effects i ?h ?p) i = Some (hook_effects (pg_cache p) ?h)" by (simp add: page_effects_def put_hook_def)
  ultimately show ?thesis
    unfolding refused_page_def refused_hook_def using asked_hook(1) [OF assms(3,4)] by (rule query_reach.failure)
qed

text \<open>
  (C23) What the mark \<open>stale\<close> leaves out, on every page: a component that shows some data and then
  renders another URL that no answer was ever received for and whose request fails, with whatever
  message, goes on showing that data, which is the answer for another URL, with the error but not
  marked stale.
\<close>

theorem query_failure_not_stale:
  assumes "query_reach p" and "pg_hooks p i = Some h" and "qs_data (useQuery h) = Some d"
    and "effect_due (hook_render (Some u) r h)" and "u \<noteq> []" and "u \<notin> fst ` set (pg_log p)"
  shows "\<exists>h'. query_reach (refused_page i u r msg h p) \<and> pg_hooks (refused_page i u r msg h p) i = Some h'
    \<and> hk_url h' = Some u \<and> pg_log (refused_page i u r msg h p) = pg_log p
    \<and> (\<exists>v. v \<noteq> u \<and> (v, d) \<in> set (pg_log p))
    \<and> useQuery h' = \<lparr> qs_data = Some d, qs_error = Some msg, qs_loading = False, qs_stale = False \<rparr>"
proof -
  let ?h = "refused_hook (pg_cache p) u r msg h"
  have ok: "recent_ok p" "hook_ok (pg_log p) h" using query_reach_ok [OF assms(1)] assms(2) by (auto simp: page_ok_def)
  have d: "st_data (hk_state h) = Some d" using assms(3) by (simp add: useQuery_def Let_def)
  have "map_get (pg_cache p) u = None"
    using cached_logged [OF ok(1), of u] assms(6) by (cases "map_get (pg_cache p) u") force+
  with asked_hook(2) [OF assms(4,5), of "pg_cache p"] d
  have "hk_state ?h = \<lparr> st_url = Some u, st_data = Some d, st_error = Some msg, st_loading = False \<rparr>"
    by (simp add: refused_hook_def on_failure_def)
  moreover have url: "hk_url ?h = Some u"
    by (simp add: refused_hook_def on_failure_def hook_effects_def refresh_effect_def fetch_effect_def hook_reload_def hook_render_def Let_def)
  ultimately have "useQuery ?h = \<lparr> qs_data = Some d, qs_error = Some msg, qs_loading = False, qs_stale = False \<rparr>"
    by (simp add: useQuery_def Let_def)
  moreover have "\<exists>v. v \<noteq> u \<and> (v, d) \<in> set (pg_log p)"
  proof -
    have "d \<in> snd ` set (pg_log p)" using ok(2) d unfolding hook_ok_def Let_def by (elim conjE) simp
    then obtain v where v: "(v, d) \<in> set (pg_log p)" by auto
    then have "v \<in> fst ` set (pg_log p)" by (rule image_eqI [rotated]) simp
    with v assms(6) show ?thesis by (intro exI [of _ v]) auto
  qed
  ultimately show ?thesis
    using refused_page_reach [OF assms(1,2,4,5), of msg] url
    by (intro exI [of _ ?h]) (simp add: refused_page_def put_hook_def page_effects_def)
qed

theorem query_failure_not_stale_witness:
  "\<exists>p h'. query_reach p \<and> pg_hooks p 0 = Some h' \<and> hk_url h' = Some ''/b'' \<and> pg_log p = [(''/a'', 1 :: nat)]
     \<and> useQuery h' = \<lparr> qs_data = Some 1, qs_error = Some ''timeout'', qs_loading = False, qs_stale = False \<rparr>"
proof -
  have "qs_data (useQuery (on_answer ''/a'' (1 :: nat) sample_hook)) = Some 1"
    "effect_due (hook_render (Some ''/b'') None (on_answer ''/a'' (1 :: nat) sample_hook))"
    by (simp_all add: sample_page_defs)
  from query_failure_not_stale [OF sample_page_reach(1,2) this, of "''timeout''"] sample_page_reach(3)
  show ?thesis by (intro exI [of _ "refused_page 0 ''/b'' None ''timeout'' (on_answer ''/a'' 1 sample_hook) sample_page"]) auto
qed

section \<open>Polling\<close>

text \<open>
  A poller is the state of the hook and what its effect is doing: a request under way, the timer to
  the next one, or nothing once unmounted (then an answer has no effect any more).
\<close>

datatype poll_phase = Requesting | Waiting | Stopped

record 'd PollState =
  po_data :: "'d option"
  po_error :: "string option"
  po_receivedAt :: int

type_synonym 'd poller = "'d PollState \<times> poll_phase"

definition poll_start :: "'d poller" where
  "poll_start = (\<lparr> po_data = None, po_error = None, po_receivedAt = 0 \<rparr>, Requesting)"

definition poll_settle :: "int \<Rightarrow> string + 'd \<Rightarrow> 'd PollState \<Rightarrow> 'd poller" where
  "poll_settle now res s = ((case res of
       Inr d \<Rightarrow> \<lparr> po_data = Some d, po_error = None, po_receivedAt = now \<rparr>
     | Inl msg \<Rightarrow> s\<lparr> po_error := Some msg \<rparr>), Waiting)"

inductive poll_reach :: "(int \<times> (string + 'd)) list \<Rightarrow> 'd poller \<Rightarrow> bool" where
  start: "poll_reach [] poll_start"
| settle: "poll_reach rs (s, Requesting) \<Longrightarrow> poll_reach (rs @ [(now, res)]) (poll_settle now res s)"
| timer: "poll_reach rs (s, Waiting) \<Longrightarrow> poll_reach rs (s, Requesting)"
| stop: "poll_reach rs (s, ph) \<Longrightarrow> poll_reach rs (s, Stopped)"

text \<open>The last good answer with its time.\<close>

definition last_good :: "(int \<times> (string + 'd)) list \<Rightarrow> (int \<times> 'd) option" where
  "last_good rs = (let gs = filter (\<lambda>r. \<not> isl (snd r)) rs in if gs = [] then None else Some (fst (last gs), projr (snd (last gs))))"

lemma last_good_snoc: "last_good (rs @ [(now, res)]) = (case res of Inr d \<Rightarrow> Some (now, d) | Inl _ \<Rightarrow> last_good rs)"
  by (cases res) (simp_all add: last_good_def Let_def)

text \<open>
  Polling: whatever the requests answer, the hook shows the last good answer and the time it came,
  and an error exactly while the latest poll failed, with its message; nothing is shown before the
  first answer.
\<close>

theorem poll_shows_last_good:
  assumes "poll_reach rs (s, ph)"
  shows "po_data s = map_option snd (last_good rs)
    \<and> po_receivedAt s = (case last_good rs of Some (now, _) \<Rightarrow> now | None \<Rightarrow> 0)
    \<and> po_error s = (if rs = [] then None else case snd (last rs) of Inl msg \<Rightarrow> Some msg | Inr _ \<Rightarrow> None)"
  using assms
proof (induction rs "(s, ph)" arbitrary: s ph rule: poll_reach.induct)
  case start
  then show ?case by (auto simp: poll_start_def last_good_def)
next
  case (settle rs s now res)
  then show ?case by (cases res) (auto simp: poll_settle_def last_good_snoc)
qed auto

theorem poll_shows_last_good_witness:
  "poll_reach [(5, Inr 7), (9, Inl ''timeout'')] (\<lparr> po_data = Some (7 :: nat), po_error = Some ''timeout'', po_receivedAt = 5 \<rparr>, Waiting)
   \<and> map_option snd (last_good [(5, Inr 7), (9, Inl ''timeout'')]) = Some (7 :: nat)"
proof -
  have "poll_reach ([] @ [(5, Inr (7 :: nat))]) (poll_settle 5 (Inr 7) (fst poll_start))"
    by (rule poll_reach.settle) (use poll_reach.start in \<open>simp add: poll_start_def\<close>)
  then have "poll_reach [(5, Inr 7)] (\<lparr> po_data = Some (7 :: nat), po_error = None, po_receivedAt = 5 \<rparr>, Requesting)"
    by (simp add: poll_settle_def poll_reach.timer)
  from poll_reach.settle [OF this, of 9 "Inl ''timeout''"]
  have "poll_reach [(5, Inr 7), (9, Inl ''timeout'')] (\<lparr> po_data = Some (7 :: nat), po_error = Some ''timeout'', po_receivedAt = 5 \<rparr>, Waiting)"
    by (simp add: poll_settle_def)
  with poll_shows_last_good [OF this] show ?thesis by simp
qed

section \<open>The state of the IP table\<close>

definition sameStatus :: "GeoStatus option \<Rightarrow> GeoStatus \<Rightarrow> bool" where
  "sameStatus a b = (case a of None \<Rightarrow> False
     | Some g \<Rightarrow> gs_loaded g = gs_loaded b \<and> gs_entries g = gs_entries b \<and> gs_fileDate g = gs_fileDate b \<and> gs_error g = gs_error b)"

record geo_store =
  gx_current :: "GeoStatus option"
  gx_listeners :: "nat list"

text \<open>The listeners called are the second component.\<close>

definition publishGeoStatus :: "GeoStatus \<Rightarrow> geo_store \<Rightarrow> geo_store \<times> nat list" where
  "publishGeoStatus status st = (if sameStatus (gx_current st) status then (st, [])
     else (st\<lparr> gx_current := Some status \<rparr>, gx_listeners st))"

definition geo_subscribe :: "nat \<Rightarrow> geo_store \<Rightarrow> geo_store" where
  "geo_subscribe l st = st\<lparr> gx_listeners := (if l \<in> set (gx_listeners st) then gx_listeners st else gx_listeners st @ [l]) \<rparr>"

definition geo_unsubscribe :: "nat \<Rightarrow> geo_store \<Rightarrow> geo_store" where
  "geo_unsubscribe l st = st\<lparr> gx_listeners := filter (\<lambda>x. x \<noteq> l) (gx_listeners st) \<rparr>"

definition useGeoEpoch :: "GeoStatus option \<Rightarrow> string option" where
  "useGeoEpoch g = map_option (\<lambda>s. if gs_loaded s
     then string_of_nat (gs_entries s) @ '':'' @ (case gs_fileDate s of Some t \<Rightarrow> show_int t | None \<Rightarrow> ''null'') else ''none'') g"

datatype HealthState = HLoading | HOk HealthResponse | HError string

definition health_settle :: "string + HealthResponse \<Rightarrow> geo_store \<Rightarrow> HealthState \<times> geo_store \<times> nat list" where
  "health_settle res st = (case res of
       Inr h \<Rightarrow> (HOk h, publishGeoStatus (hr_geo h) st)
     | Inl msg \<Rightarrow> (HError msg, st, []))"

text \<open>What a page tells tables apart by.\<close>

definition same_table :: "GeoStatus \<Rightarrow> GeoStatus \<Rightarrow> bool" where
  "same_table a b \<longleftrightarrow> gs_loaded a = gs_loaded b \<and> (gs_loaded a \<longrightarrow> gs_entries a = gs_entries b \<and> gs_fileDate a = gs_fileDate b)"

lemma char_split: "c \<notin> set a \<Longrightarrow> c \<notin> set b \<Longrightarrow> a @ c # x = b @ c # y \<longleftrightarrow> a = b \<and> x = y"
  by (induction a arbitrary: b) (case_tac b; auto)+

lemma digits_free: "\<not> is_digit c \<Longrightarrow> c \<notin> set (string_of_nat n)"
  using string_of_nat_digits [of n] by (auto simp: list_all_iff)

lemma fileDate_inj: "(case a of Some t \<Rightarrow> show_int t | None \<Rightarrow> ''null'') = (case b of Some t \<Rightarrow> show_int t | None \<Rightarrow> ''null'') \<longleftrightarrow> a = b"
proof -
  have "CHR ''n'' \<notin> set (string_of_nat k)" for k by (intro digits_free) (simp add: is_digit_def)
  then have "string_of_nat k \<noteq> ''null''" for k by (metis list.set_intros(1))
  then have "show_int t \<noteq> ''null''" for t by (simp add: show_int_def)
  then show ?thesis by (auto simp: show_int_inj split: option.split) metis
qed

lemma useGeoEpoch_inj: "useGeoEpoch (Some a) = useGeoEpoch (Some b) \<longleftrightarrow> same_table a b"
proof -
  have c: "CHR '':'' \<notin> set (string_of_nat n)" for n by (intro digits_free) simp
  have n: "string_of_nat n @ '':'' @ x \<noteq> ''none''" for n x
  proof
    assume "string_of_nat n @ '':'' @ x = ''none''"
    then have "CHR '':'' \<in> set ''none''" by (metis in_set_conv_decomp append_Cons append_Nil)
    then show False by simp
  qed
  have "string_of_nat m = string_of_nat n \<longleftrightarrow> m = n" for m n by (metis dec_val_string_of_nat)
  then show ?thesis using n n [symmetric] by (auto simp: useGeoEpoch_def same_table_def char_split [OF c c] fileDate_inj)
qed

text \<open>
  (C24) From the server's table to the charts: when a health poll answers with a table, every subscriber
  is told exactly if the status differs from the last one; and a settled component that shows data
  with geography asks again exactly if there was a table status before and the new one is another
  table (a change of the error alone does not refetch).
\<close>

theorem geo_reload_refetches:
  assumes "health_settle (Inr hr) st = (hs, st', called)" and "\<not> effect_due h" and "hk_seen h = useGeoEpoch (gx_current st)"
  shows "hs = HOk hr \<and> useGeoEpoch (gx_current st') = useGeoEpoch (Some (hr_geo hr))
    \<and> called = (if sameStatus (gx_current st) (hr_geo hr) then [] else gx_listeners st)
    \<and> (effect_due (hook_effects c (hook_render (hk_url h) (useGeoEpoch (gx_current st')) h))
        \<longleftrightarrow> (\<exists>g. gx_current st = Some g \<and> \<not> same_table g (hr_geo hr)))"
proof -
  have st': "hs = HOk hr" "called = (if sameStatus (gx_current st) (hr_geo hr) then [] else gx_listeners st)"
    "gx_current st' = (if sameStatus (gx_current st) (hr_geo hr) then gx_current st else Some (hr_geo hr))"
    using assms(1) by (auto simp: health_settle_def publishGeoStatus_def split: if_splits)
  have ep: "useGeoEpoch (gx_current st') = useGeoEpoch (Some (hr_geo hr))"
    unfolding st'(3) by (auto simp: sameStatus_def useGeoEpoch_def split: option.splits)
  have due: "effect_due (hook_effects c (hook_render (hk_url h) r h)) \<longleftrightarrow> hk_seen h \<noteq> None \<and> hk_seen h \<noteq> r" for r
    using assms(2) by (auto simp: hook_effects_def refresh_effect_def fetch_effect_def hook_render_def hook_reload_def effect_due_def Let_def)
  have "hk_seen h \<noteq> None \<longleftrightarrow> gx_current st \<noteq> None" unfolding assms(3) by (simp add: useGeoEpoch_def)
  then have "effect_due (hook_effects c (hook_render (hk_url h) (useGeoEpoch (gx_current st')) h))
      \<longleftrightarrow> (\<exists>g. gx_current st = Some g \<and> \<not> same_table g (hr_geo hr))"
    unfolding due ep assms(3) using useGeoEpoch_inj by (cases "gx_current st") auto
  then show ?thesis using st'(1,2) ep by simp
qed

text \<open>A page that knew no table, then one, then its successor.\<close>

definition sample_status :: "nat \<Rightarrow> GeoStatus" where
  "sample_status n = \<lparr> gs_loaded = True, gs_entries = n, gs_fileDate = Some 5, gs_error = None \<rparr>"

definition sample_backend :: BackendStatus where
  "sample_backend = \<lparr> bs_ok = True, bs_target = ''db'', bs_latencyMs = Some 1, bs_version = None, bs_error = None \<rparr>"

definition sample_health :: "nat \<Rightarrow> HealthResponse" where
  "sample_health n = \<lparr> hr_serverTimeMs = 0, hr_uptimeS = 0, hr_redis = sample_backend, hr_clickhouse = sample_backend, hr_geo = sample_status n, hr_rdns = False \<rparr>"

definition sample_settled :: "nat hook" where
  "sample_settled = (hook_effects [] (hook_mount [] (Some ''/a'') (useGeoEpoch (Some (sample_status 3)))))"

theorem geo_reload_refetches_witness:
  "effect_due (hook_effects [] (hook_render (Some ''/a'') (useGeoEpoch (Some (sample_status 4))) sample_settled))
   \<and> snd (snd (health_settle (Inr (sample_health 4)) \<lparr> gx_current = Some (sample_status 3), gx_listeners = [7] \<rparr>)) = [7]"
proof -
  let ?st = "\<lparr> gx_current = Some (sample_status 3), gx_listeners = [7] \<rparr>"
  have h: "\<not> effect_due sample_settled" "hk_seen sample_settled = useGeoEpoch (gx_current ?st)" "hk_url sample_settled = Some ''/a''"
    by (simp_all add: sample_settled_def sample_page_defs)
  have s: "health_settle (Inr (sample_health 4)) ?st = (HOk (sample_health 4), ?st\<lparr> gx_current := Some (sample_status 4) \<rparr>, [7])"
    by (simp add: health_settle_def sample_health_def publishGeoStatus_def sameStatus_def sample_status_def)
  have "\<not> same_table (sample_status 3) (sample_status 4)" by (simp add: same_table_def sample_status_def)
  then show ?thesis using geo_reload_refetches [OF s h(1,2), of "[]"] s by (simp add: h(3) sample_health_def)
qed

end
