(* ===== verification/ClientPanels.thy ===== *)
theory ClientPanels
  imports ClientSankey ClientHeat ClientQuery
begin

text \<open>
  The logic of the smaller panels: \<^verbatim>\<open>web/src/client/history/bytesPerCall.ts\<close> (histograms and their median),
  \<^verbatim>\<open>process/beaconStrip.ts\<close> (rows and dots), \<^verbatim>\<open>destinations/geoView.ts\<close> (parameters, bars, map) and
  \<^verbatim>\<open>history/scatterPoints.ts\<close> (parameters, axes, reference lines, brush). Powers with a fractional
  exponent, logarithms, square roots, the browser's names of regions and the formatting of durations
  are arguments.
\<close>

section \<open>Bytes per call\<close>

definition parseBpcDirParam :: "string option \<Rightarrow> string" where
  "parseBpcDirParam raw = (if raw = Some ''rx'' then ''rx'' else ''tx'')"

definition parseBpcByParam :: "string option \<Rightarrow> BytesPerCallBy" where
  "parseBpcByParam raw = (if raw = Some ''name'' then BpcName else BpcApp)"

definition pow2_text :: "nat \<Rightarrow> string" where
  "pow2_text b = (if b < 10 then string_of_nat (2 ^ b) @ '' B'' else if b < 20 then string_of_nat (2 ^ (b - 10)) @ '' KiB''
     else string_of_nat (2 ^ (b - 20)) @ '' MiB'')"

definition unitOf :: "nat \<Rightarrow> nat" where
  "unitOf b = (if b < 10 then 0 else if b < 20 then 1 else 2)"

definition bucketTick :: "nat \<Rightarrow> string" where
  "bucketTick b = (if b \<ge> BPC_BUCKETS - 1 then pow2_text b @ ''+'' else pow2_text b)"

text \<open>The dash between the bounds is the character 0x96; \<open>lo.replace(/ .*/, '')\<close> keeps the number.\<close>

definition bucketRange :: "nat \<Rightarrow> string" where
  "bucketRange b = (if b = 0 then ''under 2 B'' else if b \<ge> BPC_BUCKETS - 1 then pow2_text b @ '' or more''
     else let lo = pow2_text b; hi = pow2_text (b + 1)
       in (if unitOf b = unitOf (b + 1) then takeWhile (\<lambda>c. c \<noteq> CHR '' '') lo else lo) @ [CHR 0x96] @ hi)"

definition bpc_rowLabel :: "BytesPerCallRow \<Rightarrow> BytesPerCallBy \<Rightarrow> nat \<Rightarrow> string" where
  "bpc_rowLabel row by' folded = (case h_key row of
       Some k \<Rightarrow> if k = [] then ''all'' else k
     | None \<Rightarrow> ''other ('' @ string_of_nat folded @ '' '' @ (if by' = BpcApp then if folded = 1 then ''app'' else ''apps''
         else if folded = 1 then ''process'' else ''processes'') @ '')'')"

definition shares :: "BytesPerCallRow \<Rightarrow> num list \<times> num list" where
  "shares row = (let c = h_totalCalls row; b = h_totalBytes row
     in (map (\<lambda>v. if c > 0 then fdiv v c else 0) (h_calls row), map (\<lambda>v. if b > 0 then fdiv v b else 0) (h_bytes row)))"

definition heatRows :: "BytesPerCallRow \<Rightarrow> BytesPerCallRow list \<Rightarrow> BytesPerCallRow list" where
  "heatRows tot rows = (if length rows > 1 \<or> (rows \<noteq> [] \<and> h_key (hd rows) = None) then tot # rows else rows)"

definition row_cells :: "nat \<Rightarrow> BytesPerCallRow \<Rightarrow> (nat \<times> nat \<times> num) list" where
  "row_cells y row = map (\<lambda>b. (b, y, fst (shares row) ! b)) (filter (\<lambda>b. b < length (h_calls row) \<and> h_calls row ! b > 0) [0..<BPC_BUCKETS])"

definition heatCells :: "BytesPerCallRow list \<Rightarrow> (nat \<times> nat \<times> num) list \<times> num" where
  "heatCells rows = (let cells = concat (map2 row_cells [0..<length rows] rows)
     in (cells, fold (\<lambda>(_, _, s) mx. if s > mx then s else mx) cells 0))"

text \<open>The median's bucket and how far into it: the loop over the buckets, with the calls before the current one.\<close>

fun median_loop :: "num \<Rightarrow> num \<Rightarrow> nat \<Rightarrow> num list \<Rightarrow> (nat \<times> num) option" where
  "median_loop half before b [] = None"
| "median_loop half before b (n # ns) =
     (if n > 0 \<and> fadd before n \<ge> half then Some (b, min 1 (max 0 (fdiv (fsub half before) n)))
      else median_loop half (fadd before n) (b + 1) ns)"

definition medianOf :: "(num \<Rightarrow> num) \<Rightarrow> num list \<Rightarrow> (nat \<times> num \<times> num) option" where
  "medianOf exp2 calls = (let tot = fsum calls in if \<not> tot > 0 then None
     else map_option (\<lambda>(b, f). (b, f, exp2 (fadd (of_nat b) f))) (median_loop (fdiv tot 2) 0 0 calls))"

definition medianX :: "nat \<Rightarrow> num \<Rightarrow> num" where
  "medianX b f = fadd (fsub (of_nat b) (1 / 2)) f"

lemma median_loop_nats:
  assumes "of_nat a < half" and "half \<le> of_nat (a + sum_list ns)" and "a + sum_list ns \<le> 2 ^ 53"
  shows "\<exists>i f. median_loop half (of_nat a) b (map of_nat ns) = Some (b + i, f) \<and> i < length ns \<and> 0 \<le> f \<and> f \<le> 1
    \<and> of_nat (a + sum_list (take i ns)) < half \<and> half \<le> of_nat (a + sum_list (take (Suc i) ns))"
  using assms
proof (induction ns arbitrary: a b)
  case (Cons n ns)
  have add: "fadd (of_nat a) (of_nat n) = of_nat (a + n)" using Cons.prems(3) by (intro fadd_nat) simp
  show ?case
  proof (cases "half \<le> of_nat (a + n)")
    case True
    then have "n > 0" using Cons.prems(1) by (cases n) auto
    then show ?thesis using True Cons.prems(1) add
      by (intro exI [of _ 0] exI [of _ "min 1 (max 0 (fdiv (fsub half (of_nat a)) (of_nat n)))"]) auto
  next
    case False
    then have "of_nat (a + n) < half" "half \<le> of_nat (a + n + sum_list ns)" "a + n + sum_list ns \<le> 2 ^ 53" using Cons.prems(2,3) by (auto simp: add.assoc)
    from Cons.IH [OF this, of "b + 1"] obtain i f where
      i: "median_loop half (of_nat (a + n)) (b + 1) (map of_nat ns) = Some (b + 1 + i, f)" "i < length ns" "0 \<le> f" "f \<le> 1"
        "of_nat (a + n + sum_list (take i ns)) < half" "half \<le> of_nat (a + n + sum_list (take (Suc i) ns))" by blast
    have "\<not> half \<le> fadd (of_nat a) (of_nat n)" using False add by simp
    then show ?thesis using i add by (intro exI [of _ "Suc i"] exI [of _ f]) (simp add: add.assoc)
  qed
qed simp

text \<open>
  The median of the calls: for counts below \<open>2^53\<close> together, there is one exactly when there are calls,
  and fewer than half of the calls are in the buckets before it and at least half in the buckets up to
  it; the fraction is between 0 and 1.
\<close>

theorem medianOf_halves:
  assumes "sum_list ns \<le> 2 ^ 53"
  shows "(medianOf exp2 (map of_nat ns) = None \<longleftrightarrow> sum_list ns = 0)
    \<and> (\<forall>b f x. medianOf exp2 (map of_nat ns) = Some (b, f, x) \<longrightarrow>
        b < length ns \<and> 0 \<le> f \<and> f \<le> 1 \<and> x = exp2 (fadd (of_nat b) f)
        \<and> 2 * sum_list (take b ns) < sum_list ns \<and> sum_list ns \<le> 2 * sum_list (take (Suc b) ns))"
proof -
  let ?t = "sum_list ns"
  have tot: "fsum (map of_nat ns) = of_nat ?t" by (rule fsum_nat [OF assms])
  show ?thesis
  proof (cases "?t = 0")
    case True
    then show ?thesis by (simp add: medianOf_def tot)
  next
    case False
    have half: "fdiv (of_nat ?t) 2 = of_nat ?t / 2"
    proof -
      have "fl (of_int (int ?t) * 2 powi (- 1)) = of_int (int ?t) * 2 powi (- 1)" using assms by (intro fl_exact) simp
      then show ?thesis by (simp add: fdiv_def power_int_minus)
    qed
    obtain i f where i: "median_loop (of_nat ?t / 2) 0 0 (map of_nat ns) = Some (i, f)" "i < length ns" "0 \<le> f" "f \<le> 1"
      "of_nat (sum_list (take i ns)) < (of_nat ?t / 2 :: num)" "(of_nat ?t / 2 :: num) \<le> of_nat (sum_list (take (Suc i) ns))"
      using median_loop_nats [of 0 "of_nat ?t / 2" ns 0] False assms by auto
    have "(of_nat (2 * sum_list (take i ns)) :: num) < of_nat ?t" "(of_nat ?t :: num) \<le> of_nat (2 * sum_list (take (Suc i) ns))" using i(5,6) by simp_all
    then have "2 * sum_list (take i ns) < ?t" "?t \<le> 2 * sum_list (take (Suc i) ns)" by (simp_all only: of_nat_less_iff of_nat_le_iff)
    then show ?thesis using i False by (auto simp: medianOf_def tot half Let_def)
  qed
qed

theorem medianOf_halves_witness:
  "medianOf (\<lambda>x. x) (map of_nat [1, 2, 1]) = Some (1, 1 / 2, 3 / 2) \<and> 2 * sum_list (take 1 [1, 2, 1 :: nat]) < sum_list [1, 2, 1]"
proof -
  have v: "medianOf (\<lambda>x. x) (map of_nat [1, 2, 1]) = Some (1, 1 / 2, 3 / 2)" by code_simp
  have "2 * sum_list (take b [1, 2, 1 :: nat]) < sum_list [1, 2, 1]" if "medianOf (\<lambda>x. x) (map of_nat [1, 2, 1]) = Some (b, f, x)" for b f x
    using medianOf_halves [of "[1, 2, 1]" "\<lambda>x. x"] that by simp
  from this [OF v] v show ?thesis by simp
qed

section \<open>The beaconing strip\<close>

definition focusRows :: "BeaconDest list \<Rightarrow> string option \<Rightarrow> nat list" where
  "focusRows dests ip = (case ip of None \<Rightarrow> [] | Some a \<Rightarrow> if a = [] then []
     else filter (\<lambda>i. bd_ip (dests ! i) = a) [0..<length dests])"

definition scrollStart :: "int \<Rightarrow> int \<Rightarrow> int \<Rightarrow> int" where
  "scrollStart row n visible = max 0 (min (row - 2) (n - visible))"

definition parseBeaconScope :: "string option \<Rightarrow> BeaconScope" where
  "parseBeaconScope raw = (if raw = Some ''name'' then ByNameScope else Instance)"

definition DOT_MIN :: num where "DOT_MIN = 3"
definition DOT_MAX :: num where "DOT_MAX = 9"
definition BEACON_PERIODIC_SCORE :: num where "BEACON_PERIODIC_SCORE = fl (8 / 10)"

definition isPeriodic :: "BeaconDest \<Rightarrow> bool" where
  "isPeriodic d \<longleftrightarrow> score (bd_stats d) > BEACON_PERIODIC_SCORE"

definition base_label :: "BeaconDest \<Rightarrow> string" where
  "base_label d = bd_dest d @ '' '' @ bd_app d"

definition rowLabels :: "BeaconDest list \<Rightarrow> string list" where
  "rowLabels dests = (let n = accum base_label (\<lambda>v _. (case v of Some k \<Rightarrow> k | None \<Rightarrow> 0) + (1 :: nat)) dests []
     in map (\<lambda>d. if the (map_get n (base_label d)) > 1 then base_label d @ ''/'' @ bd_proto d else base_label d) dests)"

definition dotSize :: "(num \<Rightarrow> num) \<Rightarrow> num \<Rightarrow> num \<Rightarrow> num \<Rightarrow> num" where
  "dotSize log1p b lo hi = (let l = log1p (max 0 b); a = log1p (max 0 lo); h = log1p (max 0 hi) in
     if \<not> h > a then fdiv (fadd DOT_MIN DOT_MAX) 2
     else fadd DOT_MIN (fmul (fsub DOT_MAX DOT_MIN) (min 1 (max 0 (fdiv (fsub l a) (fsub h a))))))"

definition bytesExtent :: "BeaconDest list \<Rightarrow> num \<times> num" where
  "bytesExtent dests = (case concat (map (\<lambda>d. map (\<lambda>(_, b, _). b) (bd_dots d)) dests) of [] \<Rightarrow> (0, 0) | x # xs \<Rightarrow> (fold min xs x, fold max xs x))"

definition gapText :: "(num \<Rightarrow> string) \<Rightarrow> num option \<Rightarrow> string" where
  "gapText fmtDuration g = (case g of None \<Rightarrow> ''first burst''
     | Some x \<Rightarrow> if x = 0 then ''continues a burst'' else fmtDuration x @ '' after the previous burst'')"

definition historyHref :: "string \<Rightarrow> TimeRange \<Rightarrow> url" where
  "historyHref dest r = (''/history'', [(''from'', show_int (tm_from r)), (''to'', show_int (tm_to r)), (''filter.dest'', dest)])"

definition scopeRange :: "TimeRange \<Rightarrow> BeaconScope \<Rightarrow> TimeRange" where
  "scopeRange r scope = (let mx = BEACON_MAX_SPAN_MS scope in
     if tm_to r - tm_from r > mx then \<lparr> tm_from = tm_to r - mx, tm_to = tm_to r \<rparr> else r)"

definition dotData :: "BeaconDest list \<Rightarrow> (num \<times> nat \<times> num \<times> num option) list" where
  "dotData dests = concat (map2 (\<lambda>d row. map (\<lambda>(t, b, g). (t, row, b, g)) (bd_dots d)) dests [0..<length dests])"

text \<open>Labels of rows are different, for destinations without spaces and protocols without slashes.\<close>

definition plain_dest :: "BeaconDest \<Rightarrow> bool" where
  "plain_dest d \<longleftrightarrow> CHR '' '' \<notin> set (bd_dest d) \<and> CHR ''/'' \<notin> set (bd_app d) \<and> CHR ''/'' \<notin> set (bd_proto d)"

lemma count_get:
  "map_get (accum base_label (\<lambda>v _. (case v of Some k \<Rightarrow> k | None \<Rightarrow> 0) + (1 :: nat)) ds []) l =
   (let n = length (filter (\<lambda>d. base_label d = l) ds) in if n = 0 then None else Some n)"
proof -
  have "foldl (\<lambda>v r. Some ((case v of Some k \<Rightarrow> k | None \<Rightarrow> 0) + 1)) (Some k) xs = Some (k + length xs)" for k and xs :: "BeaconDest list"
    by (induction xs arbitrary: k) auto
  then show ?thesis unfolding get_accum by (cases "filter (\<lambda>d. base_label d = l) ds") (simp_all add: map_get_def)
qed

text \<open>
  The rows of the strip: there is one label per destination, and destinations that differ in address,
  application or transport have different labels; a focused row is in the visible part of the list;
  the window of the name scope is the one the server would cut to; and the dots are those of the
  destinations in order, each with the index of its row.
\<close>

theorem beacon_rows:
  assumes "distinct (map (\<lambda>d. (bd_dest d, bd_app d, bd_proto d)) dests)" and "list_all plain_dest dests"
    and "0 \<le> row" "row < n" "3 \<le> visible" "visible \<le> n"
  shows "length (rowLabels dests) = length dests \<and> distinct (rowLabels dests)
    \<and> (let s = scrollStart row n visible in 0 \<le> s \<and> s \<le> row \<and> row < s + visible \<and> s + visible \<le> n)
    \<and> capSpan (tm_from r, tm_to r) (BEACON_MAX_SPAN_MS scope) = ((tm_from (scopeRange r scope), tm_to (scopeRange r scope)), scopeRange r scope \<noteq> r)
    \<and> map (\<lambda>(t, i, b, g). (t, b, g)) (dotData dests) = concat (map bd_dots dests)"
proof -
  define lb where "lb = (\<lambda>d. if length (filter (\<lambda>e. base_label e = base_label d) dests) > 1 then base_label d @ ''/'' @ bd_proto d else base_label d)"
  have lb: "rowLabels dests = map lb dests"
    unfolding rowLabels_def Let_def count_get lb_def by (auto simp: Let_def filter_empty_conv)
  have inj: "d = e" if d: "d \<in> set dests" and e: "e \<in> set dests" and eq: "lb d = lb e" for d e
  proof -
    have pd: "plain_dest d" "plain_dest e" using assms(2) d e by (auto simp: list_all_iff)
    have same: "d = e" if "bd_dest d = bd_dest e" "bd_app d = bd_app e" "bd_proto d = bd_proto e"
      using assms(1) d e that by (auto simp: distinct_map inj_on_def)
    have base: "bd_dest d = bd_dest e \<and> bd_app d = bd_app e" if "base_label d = base_label e"
      using that pd char_split [of "CHR '' ''" "bd_dest d" "bd_dest e"] by (auto simp: base_label_def plain_dest_def)
    have ends: "x = bd_app d @ u \<Longrightarrow> y = bd_app e @ v \<Longrightarrow> bd_dest d @ '' '' @ x = bd_dest e @ '' '' @ y \<Longrightarrow> x = y" for x y u v
      using pd char_split [of "CHR '' ''" "bd_dest d" "bd_dest e" x y] by (simp add: plain_dest_def)
    consider "lb d = base_label d" "lb e = base_label e" | "lb d = base_label d @ ''/'' @ bd_proto d" "lb e = base_label e @ ''/'' @ bd_proto e"
      | "lb d = base_label d @ ''/'' @ bd_proto d" "lb e = base_label e" | "lb d = base_label d" "lb e = base_label e @ ''/'' @ bd_proto e"
      unfolding lb_def by metis
    then show ?thesis
    proof cases
      case 1
      then have b: "base_label d = base_label e" using eq by simp
      have "length (filter (\<lambda>x. base_label x = base_label d) dests) \<le> 1" using 1 unfolding lb_def by (auto split: if_splits)
      moreover have "distinct dests" using assms(1) by (simp add: distinct_map)
      then have "card {x \<in> set dests. base_label x = base_label d} = length (filter (\<lambda>x. base_label x = base_label d) dests)"
        by (metis distinct_card distinct_filter set_filter)
      ultimately have "card {x \<in> set dests. base_label x = base_label d} \<le> 1" by simp
      then show ?thesis using d e b by (auto simp: card_le_Suc0_iff_eq)
    next
      case 2
      then have "bd_dest d @ '' '' @ (bd_app d @ ''/'' @ bd_proto d) = bd_dest e @ '' '' @ (bd_app e @ ''/'' @ bd_proto e)" using eq by (simp add: base_label_def)
      then have "bd_dest d = bd_dest e \<and> bd_app d @ ''/'' @ bd_proto d = bd_app e @ ''/'' @ bd_proto e"
        using pd char_split [of "CHR '' ''" "bd_dest d" "bd_dest e"] by (simp add: plain_dest_def)
      then show ?thesis using pd char_split [of "CHR ''/''" "bd_app d" "bd_app e"] same by (auto simp: plain_dest_def)
    next
      case 3
      then have "bd_app d @ ''/'' @ bd_proto d = bd_app e" using eq ends [of _ "''/'' @ bd_proto d" _ "[]"] by (simp add: base_label_def)
      then have "CHR ''/'' \<in> set (bd_app e)" by (metis in_set_conv_decomp append_Cons append_Nil)
      then show ?thesis using pd by (simp add: plain_dest_def)
    next
      case 4
      then have "bd_app d = bd_app e @ ''/'' @ bd_proto e" using eq ends [of _ "[]" _ "''/'' @ bd_proto e"] by (simp add: base_label_def)
      then have "CHR ''/'' \<in> set (bd_app d)" by (metis in_set_conv_decomp append_Cons append_Nil)
      then show ?thesis using pd by (simp add: plain_dest_def)
    qed
  qed
  have "distinct (rowLabels dests)" unfolding lb using assms(1) inj by (auto simp: distinct_map inj_on_def)
  moreover have "length (rowLabels dests) = length dests" by (simp add: lb)
  moreover have "capSpan (tm_from r, tm_to r) (BEACON_MAX_SPAN_MS scope) = ((tm_from (scopeRange r scope), tm_to (scopeRange r scope)), scopeRange r scope \<noteq> r)"
    by (cases r) (auto simp: capSpan_def scopeRange_def Let_def)
  moreover have "map (\<lambda>(t, i, b, g). (t, b, g)) (dotData dests) = concat (map bd_dots dests)"
  proof -
    have "map (\<lambda>(t, i, b, g). (t, b, g)) (concat (map2 (\<lambda>d row. map (\<lambda>(t, b, g). (t, row, b, g)) (bd_dots d)) ds is)) = concat (map bd_dots ds)"
      if "length is = length ds" for ds and "is" :: "nat list"
      using that by (induction ds "is" rule: list_induct2') (auto simp: case_prod_beta map_idI)
    from this [of "[0..<length dests]" dests] show ?thesis unfolding dotData_def by simp
  qed
  ultimately show ?thesis using assms(3-6) by (auto simp: scrollStart_def Let_def)
qed

section \<open>Destinations\<close>

record DestPageParams =
  dp_dir :: GeoDir
  dp_asn :: "int option"
  dp_cc :: "string option"
  dp_scope :: DestScope

definition parseDestPageParams :: "search \<Rightarrow> DestPageParams" where
  "parseDestPageParams q =
     \<lparr> dp_dir = (let d = search_get q ''dir'' in if d = Some ''tx'' then GTx else if d = Some ''rx'' then GRx else GTotal),
       dp_asn = (case search_get q ''asn'' of Some a \<Rightarrow> if digits_between 1 10 a \<and> Number_dec a > 0 then Some \<lfloor>Number_dec a\<rfloor> else None | None \<Rightarrow> None),
       dp_cc = (case search_get q ''cc'' of Some c \<Rightarrow> if length c = 2 \<and> list_all is_upper c then Some c else None | None \<Rightarrow> None),
       dp_scope = (let s = search_get q ''scope'' in if s = Some ''public'' then ScopePublic else if s = Some ''local'' then ScopeLocal
         else if s = Some ''unmatched'' then ScopeUnmatched else ScopeAll) \<rparr>"

definition scope_text :: "DestScope \<Rightarrow> string" where
  "scope_text s = (case s of ScopeAll \<Rightarrow> ''all'' | ScopePublic \<Rightarrow> ''public'' | ScopeLocal \<Rightarrow> ''local'' | ScopeUnmatched \<Rightarrow> ''unmatched'')"

definition geo_dir_text :: "GeoDir \<Rightarrow> string" where
  "geo_dir_text d = (case d of GTotal \<Rightarrow> ''total'' | GTx \<Rightarrow> ''tx'' | GRx \<Rightarrow> ''rx'')"

text \<open>\<open>region\<close>: what the browser's names say, if there are any and they do not refuse the code.\<close>

definition countryName :: "(string \<Rightarrow> string option) \<Rightarrow> string \<Rightarrow> string" where
  "countryName region code = (if code = [] then ''unknown country'' else
     case region code of Some n \<Rightarrow> if n \<noteq> [] \<and> n \<noteq> ''Unknown Region'' then n else code | None \<Rightarrow> code)"

definition ASN_BARS :: nat where "ASN_BARS = 20"

record AsnBarData =
  ab_labels :: "string list"
  ab_asns :: "int list"
  ab_tx :: "num list"
  ab_rx :: "num list"
  ab_rows :: "AsnRow list"

definition row_label :: "AsnRow \<Rightarrow> string" where
  "row_label r = clip (''AS'' @ show_int (ar_asn r) @ '' '' @ shortOrg (ar_org r)) 32"

definition asnBars :: "AsnRow list \<Rightarrow> nat \<Rightarrow> AsnBarData" where
  "asnBars rows n = (let xs = rev (take n rows) in \<lparr> ab_labels = map row_label xs, ab_asns = map ar_asn xs,
     ab_tx = map (\<lambda>r. gs_tx (ar_sum r)) xs, ab_rx = map (\<lambda>r. - gs_rx (ar_sum r)) xs, ab_rows = xs \<rparr>)"

record MapDatum =
  md_name :: string
  md_value :: num
  md_bytes :: num
  md_ips :: nat

definition map_datum :: "(num \<Rightarrow> num) \<Rightarrow> CountryRow \<Rightarrow> MapDatum" where
  "map_datum log10 r = \<lparr> md_name = cr_country r, md_value = log10 (gs_bytes (cr_sum r)), md_bytes = gs_bytes (cr_sum r), md_ips = gs_ips (cr_sum r) \<rparr>"

definition mapData :: "(num \<Rightarrow> num) \<Rightarrow> CountryRow list \<Rightarrow> MapDatum list \<times> int \<times> int" where
  "mapData log10 rows = (let ds = map (map_datum log10) (filter (\<lambda>r. gs_bytes (cr_sum r) > 0) rows) in
     case map md_value ds of [] \<Rightarrow> (ds, 0, 1)
     | v # vs \<Rightarrow> let mn = Math_floor (fold min vs v) in (ds, mn, max (mn + 1) (Math_ceil (fold max vs v))))"

definition GEO_STALE_DAYS :: int where "GEO_STALE_DAYS = 60"

definition geoAgeDays :: "int option \<Rightarrow> int \<Rightarrow> int option" where
  "geoAgeDays date now = map_option (\<lambda>d. Math_floor (fdiv (of_int (now - d)) 86400000)) date"

lemma fold_min_le: "fold min vs (v :: num) \<le> v \<and> (\<forall>x \<in> set vs. fold min vs v \<le> x)"
  by (induction vs arbitrary: v) (auto, meson min.bounded_iff, meson min.bounded_iff)

lemma fold_max_ge: "(v :: num) \<le> fold max vs v \<and> (\<forall>x \<in> set vs. x \<le> fold max vs v)"
  by (induction vs arbitrary: v) (auto, meson max.bounded_iff, meson max.bounded_iff)

lemma dest_asn_parsed:
  assumes "dp_asn (parseDestPageParams s) = Some a"
  shows "0 < a \<and> digits_between 1 10 (show_int a) \<and> Number_dec (show_int a) = of_int a"
proof -
  obtain t where t: "digits_between 1 10 t" "Number_dec t > 0" "a = \<lfloor>Number_dec t\<rfloor>"
    using assms by (auto simp: parseDestPageParams_def split: option.splits if_splits)
  have "length t \<le> 10" "list_all is_digit t" using t(1) by (auto simp: digits_between_def)
  then have lt: "dec_val t < 10 ^ 10" using dec_val_less [of t] power_increasing [of "length t" 10 "10 :: nat"] by simp
  then have e: "Number_dec t = of_nat (dec_val t)" by (intro Number_dec_exact) simp
  then have a: "a = int (dec_val t)" "0 < dec_val t" using t(2,3) by auto
  then have s: "show_int a = string_of_nat (dec_val t)" by (simp add: show_int_def)
  show ?thesis unfolding s using a lt string_of_nat_between [of "dec_val t" 10] Number_dec_exact [of "string_of_nat (dec_val t)"] by simp
qed

text \<open>The server's reading of an AS number the page has accepted.\<close>

lemma dest_asn_sent:
  assumes "asn' = dp_asn (parseDestPageParams s)" and "q ''asn'' = map_option (\<lambda>a. QStr (show_int a)) asn'"
  shows "(case q ''asn'' of None \<Rightarrow> Inr None | Some (QStr s) \<Rightarrow> if s = [] then Inr None
        else if digits_between 1 10 s \<and> 0 < Number_dec s \<and> Number_dec s < 2 ^ 32 then Inr (Some \<lfloor>Number_dec s\<rfloor>)
        else Inl (badRequest ''asn: expected an AS number'') | Some (QArr _) \<Rightarrow> Inl (badRequest ''asn: expected an AS number''))
      = (if (\<exists>a. asn' = Some a \<and> a \<ge> 2 ^ 32) then Inl (badRequest ''asn: expected an AS number'') else Inr asn')"
proof (cases asn')
  case (Some a)
  have ok: "0 < a" "digits_between 1 10 (show_int a)" "Number_dec (show_int a) = of_int a" using dest_asn_parsed [of s a] assms(1) Some by simp_all
  have ne: "show_int a \<noteq> []" using ok by (auto simp: digits_between_def)
  have "(of_int a :: num) < 2 ^ 32 \<longleftrightarrow> a < 2 ^ 32" by (metis of_int_less_iff of_int_numeral of_int_power)
  then show ?thesis using ok ne unfolding assms(2) Some by (simp add: not_less not_le)
qed (simp add: assms(2))

lemma mapData_scale:
  assumes "mapData log10 rows = (ds, mn, mx)"
  shows "mn < mx \<and> (\<forall>d \<in> set ds. md_bytes d > 0 \<and> of_int mn \<le> md_value d \<and> md_value d \<le> of_int mx)"
proof -
  define xs where "xs = map (map_datum log10) (filter (\<lambda>r. gs_bytes (cr_sum r) > 0) rows)"
  have pos: "md_bytes d > 0" if "d \<in> set xs" for d using that by (auto simp: xs_def map_datum_def)
  show ?thesis
  proof (cases "map md_value xs")
    case Nil
    then show ?thesis using assms by (auto simp: mapData_def Let_def xs_def [symmetric])
  next
    case (Cons v vs)
    then have m: "ds = xs" "mn = \<lfloor>fold min vs v\<rfloor>" "mx = max (mn + 1) \<lceil>fold max vs v\<rceil>"
      using assms by (auto simp: mapData_def Let_def xs_def [symmetric])
    have "of_int mn \<le> md_value d \<and> md_value d \<le> of_int mx" if "d \<in> set xs" for d
    proof -
      have "md_value d \<in> set (v # vs)" using that Cons by (metis image_eqI list.set_map)
      then have "fold min vs v \<le> md_value d" "md_value d \<le> fold max vs v" using fold_min_le [of vs v] fold_max_ge [of v vs] by auto
      moreover have "(of_int mn :: num) \<le> fold min vs v" by (simp add: m(2))
      moreover have "fold max vs v \<le> (of_int mx :: num)" unfolding m(3) by (rule order.trans [OF le_of_int_ceiling]) simp
      ultimately show ?thesis by linarith
    qed
    then show ?thesis using m pos by auto
  qed
qed

text \<open>
  The destinations page: the selection it reads from any query string is the selection the server
  reads from the request it sends, except that an AS number beyond 32 bits is refused there; the bars
  are the first networks, largest on top, received traffic to the left; and the scale of the map
  covers every country with traffic and is at least one decade wide.
\<close>

theorem destination_page:
  assumes "p = parseDestPageParams s"
    and "q = server_query (snd (urls_historyDestinations r (geo_dir_text (dp_dir p)) (dp_asn p) (dp_cc p) (Some (scope_text (dp_scope p))) limit f))"
    and "mapData log10 rows = (ds, mn, mx)"
  shows "parseDestSelection q = (if (\<exists>a. dp_asn p = Some a \<and> a \<ge> 2 ^ 32) then Inl (badRequest ''asn: expected an AS number'')
        else Inr \<lparr> sel_asn = dp_asn p, sel_cc = dp_cc p, sel_scope = dp_scope p \<rparr>)
    \<and> length (ab_labels (asnBars ars n)) = min n (length ars)
    \<and> (\<forall>i < min n (length ars). let a = ars ! (min n (length ars) - 1 - i) in ab_asns (asnBars ars n) ! i = ar_asn a
        \<and> ab_tx (asnBars ars n) ! i = gs_tx (ar_sum a) \<and> ab_rx (asnBars ars n) ! i = - gs_rx (ar_sum a))
    \<and> mn < mx \<and> (\<forall>d \<in> set ds. md_bytes d > 0 \<and> of_int mn \<le> md_value d \<and> md_value d \<le> of_int mx)"
proof -
  have dist: "distinct (map fst (range_params r @ [(''dir'', a), (''asn'', b), (''cc'', c), (''scope'', d), (''limit'', e)] @ filter_params f))" for a b c d e
    by (simp add: range_params_def filter_params_def BY_VALUES_def by_text_def)
  have q: "q ''asn'' = map_option (\<lambda>a. QStr (show_int a)) (dp_asn p)" "q ''cc'' = map_option QStr (dp_cc p)"
    "q ''scope'' = map_option QStr (unless_default ''all'' (scope_text (dp_scope p)))"
    unfolding assms(2) server_query_def urls_historyDestinations_def snd_conv search_get_qs [OF dist]
    by (simp_all add: range_params_def filter_params_def BY_VALUES_def by_text_def option.map_comp comp_def)
  have cc: "dp_cc p = Some c \<Longrightarrow> c \<noteq> [] \<and> length c = 2 \<and> list_all is_upper c" for c
    unfolding assms(1) by (auto simp: parseDestPageParams_def split: option.splits if_splits)
  have "parseDestSelection q = (if (\<exists>a. dp_asn p = Some a \<and> a \<ge> 2 ^ 32) then Inl (badRequest ''asn: expected an AS number'')
        else Inr \<lparr> sel_asn = dp_asn p, sel_cc = dp_cc p, sel_scope = dp_scope p \<rparr>)"
    unfolding parseDestSelection_def dest_asn_sent [where q = q, OF arg_cong [OF assms(1), of dp_asn] q(1)] using cc
    by (cases "dp_cc p"; cases "dp_scope p") (auto simp: q(2,3) unless_default_def scope_text_def)
  moreover have "let a = ars ! (min n (length ars) - 1 - i) in ab_asns (asnBars ars n) ! i = ar_asn a
      \<and> ab_tx (asnBars ars n) ! i = gs_tx (ar_sum a) \<and> ab_rx (asnBars ars n) ! i = - gs_rx (ar_sum a)" if "i < min n (length ars)" for i
  proof -
    have lt: "min n (length ars) - Suc i < n" using that by linarith
    show ?thesis using that by (simp add: asnBars_def Let_def rev_nth min.commute nth_take [OF lt])
  qed
  moreover have "length (ab_labels (asnBars ars n)) = min n (length ars)" by (simp add: asnBars_def Let_def min.commute)
  ultimately show ?thesis using mapData_scale [OF assms(3)] by blast
qed

section \<open>The scatter\<close>

definition parseGroupParam :: "string option \<Rightarrow> ScatterGroup" where
  "parseGroupParam raw = (if raw = Some ''name'' then ByProcName else ByInstance)"

definition parseBasisParam :: "string option \<Rightarrow> ScatterBasis" where
  "parseBasisParam raw = (if raw = Some ''range'' then InRange else Lifetime)"

definition clamp1 :: "num \<Rightarrow> num" where
  "clamp1 v = max v 1"

definition point_values :: "ScatterPoint list \<Rightarrow> num list" where
  "point_values ps = concat (map (\<lambda>p. [clamp1 (sp_tx p), clamp1 (sp_rx p)]) ps)"

definition EPS9 :: num where "EPS9 = fl (1 / 10 ^ 9)"

definition axisExtent :: "(num \<Rightarrow> num) \<Rightarrow> (int \<Rightarrow> num) \<Rightarrow> ScatterPoint list \<Rightarrow> num \<times> num" where
  "axisExtent log10 pow10 ps = (case point_values ps of [] \<Rightarrow> (1, 1000)
     | v # vs \<Rightarrow> let lo = fold min vs v; hi = fold max vs v;
          mn = pow10 (Math_floor (fadd (log10 lo) EPS9)); mx = pow10 (Math_ceil (fsub (log10 hi) EPS9))
        in (mn, if mx \<le> mn then fmul mn 10 else mx))"

datatype RefId = Even | Up10 | Down10

record RefLine =
  rf_id :: RefId
  rf_from :: "num \<times> num"
  rf_to :: "num \<times> num"

definition refLines :: "num \<Rightarrow> num \<Rightarrow> RefLine list" where
  "refLines lo hi = \<lparr> rf_id = Even, rf_from = (lo, lo), rf_to = (hi, hi) \<rparr> #
     (if fdiv hi lo > 10 then
       [\<lparr> rf_id = Up10, rf_from = (lo, fmul lo 10), rf_to = (fdiv hi 10, hi) \<rparr>,
        \<lparr> rf_id = Down10, rf_from = (fmul lo 10, lo), rf_to = (hi, fdiv hi 10) \<rparr>] else [])"

definition lifetimeMs :: "ScatterPoint \<Rightarrow> num option" where
  "lifetimeMs p = (case sp_startMs p of None \<Rightarrow> None
     | Some s \<Rightarrow> (case (case sp_endedMs p of Some e \<Rightarrow> Some e | None \<Rightarrow> sp_lastSeenMs p) of None \<Rightarrow> None
         | Some e \<Rightarrow> Some (max 0 (fsub e s))))"

definition symbolSize :: "(num \<Rightarrow> num) \<Rightarrow> ScatterGroup \<Rightarrow> num \<Rightarrow> num" where
  "symbolSize squareRoot grp n = (if grp = ByInstance then 8 else min 40 (fmul 7 (squareRoot (max 1 n))))"

definition inRect :: "ScatterPoint list \<Rightarrow> num \<times> num \<Rightarrow> num \<times> num \<Rightarrow> nat list" where
  "inRect ps xs ys = (let (xl, xh) = (if fst xs \<le> snd xs then xs else (snd xs, fst xs));
       (yl, yh) = (if fst ys \<le> snd ys then ys else (snd ys, fst ys))
     in filter (\<lambda>i. let x = clamp1 (sp_rx (ps ! i)); y = clamp1 (sp_tx (ps ! i)) in x \<ge> xl \<and> x \<le> xh \<and> y \<ge> yl \<and> y \<le> yh) [0..<length ps])"

text \<open>Inside the square of the axes.\<close>

definition in_square :: "num \<Rightarrow> num \<Rightarrow> num \<times> num \<Rightarrow> bool" where
  "in_square lo hi p \<longleftrightarrow> lo \<le> fst p \<and> fst p \<le> hi \<and> lo \<le> snd p \<and> snd p \<le> hi"

lemma refLines_inside:
  assumes "0 < lo" "lo \<le> hi" "fl lo = lo" "fl hi = hi" and "l \<in> set (refLines lo hi)"
  shows "in_square lo hi (rf_from l) \<and> in_square lo hi (rf_to l)"
proof (cases "fdiv hi lo > 10")
  case True
  have "hi / lo > 10"
  proof (rule ccontr)
    assume "\<not> hi / lo > 10"
    then have "fl (hi / lo) \<le> fl 10" by (intro dbl.mono) simp
    then show False using True fl_of_int [of 10] by (simp add: fdiv_def)
  qed
  then have "lo * 10 \<le> hi" using assms(1) by (simp add: field_simps)
  then have "fmul lo 10 \<le> hi" "lo \<le> fdiv hi 10"
    using dbl.mono [of "lo * 10" hi] dbl.mono [of lo "hi / 10"] assms(3,4) by (simp_all add: fmul_def fdiv_def)
  moreover have "lo \<le> fmul lo 10" "fdiv hi 10 \<le> hi"
    using dbl.mono [of lo "lo * 10"] dbl.mono [of "hi / 10" hi] assms(1-4) by (simp_all add: fmul_def fdiv_def)
  ultimately show ?thesis using assms(2,5) True by (auto simp: refLines_def in_square_def)
qed (use assms in \<open>auto simp: refLines_def in_square_def\<close>)

text \<open>
  The scatter: a brush selects the same points from whichever corners it is drawn, and the brush over
  the plotted values selects them all, a point without traffic at its drawn place; reference lines
  start and end inside the square of the axes, one decade or more wide; a lifetime is never negative.
\<close>

theorem scatter_brush:
  shows "inRect ps (a, b) (c, d) = inRect ps (b, a) (c, d) \<and> inRect ps (a, b) (c, d) = inRect ps (a, b) (d, c)
    \<and> (a \<le> b \<and> c \<le> d \<longrightarrow> set (inRect ps (a, b) (c, d)) = {i. i < length ps \<and> a \<le> clamp1 (sp_rx (ps ! i)) \<and> clamp1 (sp_rx (ps ! i)) \<le> b
          \<and> c \<le> clamp1 (sp_tx (ps ! i)) \<and> clamp1 (sp_tx (ps ! i)) \<le> d})
    \<and> (a \<le> b \<and> (\<forall>v \<in> set (point_values ps). a \<le> v \<and> v \<le> b) \<longrightarrow> inRect ps (a, b) (a, b) = [0..<length ps])
    \<and> (0 < a \<and> a \<le> b \<and> fl a = a \<and> fl b = b \<longrightarrow> (\<forall>l \<in> set (refLines a b). in_square a b (rf_from l) \<and> in_square a b (rf_to l)))
    \<and> (\<forall>m. lifetimeMs p = Some m \<longrightarrow> 0 \<le> m)"
proof -
  have "inRect ps (a, b) (a, b) = [0..<length ps]" if "a \<le> b" "\<forall>v \<in> set (point_values ps). a \<le> v \<and> v \<le> b"
  proof -
    have "clamp1 (sp_tx (ps ! i)) \<in> set (point_values ps) \<and> clamp1 (sp_rx (ps ! i)) \<in> set (point_values ps)" if "i < length ps" for i
      using nth_mem [OF that] by (auto simp: point_values_def)
    then show ?thesis using that by (auto simp: inRect_def Let_def filter_id_conv)
  qed
  moreover have "inRect ps (a, b) (c, d) = inRect ps (b, a) (c, d)" "inRect ps (a, b) (c, d) = inRect ps (a, b) (d, c)"
    by (auto simp: inRect_def Let_def intro!: filter_cong)
  moreover have "0 \<le> m" if "lifetimeMs p = Some m" for m using that by (auto simp: lifetimeMs_def split: option.splits)
  moreover have "set (inRect ps (a, b) (c, d)) = {i. i < length ps \<and> a \<le> clamp1 (sp_rx (ps ! i)) \<and> clamp1 (sp_rx (ps ! i)) \<le> b
      \<and> c \<le> clamp1 (sp_tx (ps ! i)) \<and> clamp1 (sp_tx (ps ! i)) \<le> d}" if "a \<le> b" "c \<le> d" using that by (auto simp: inRect_def Let_def)
  ultimately show ?thesis using refLines_inside [of a b] by blast
qed

end
