(* ===== verification/Spec2Isabelle.thy ===== *)
theory Spec2Isabelle
  imports RoutesProcess Server ClientLanes ClientLiveChart ClientMarkers ClientPanels
begin

text \<open>
  \<^bold>\<open>The net-watch dashboard.\<close> net-watch records which process talks to which address. A collector in
  Rust writes one snapshot a second into a Redis stream and one row per flow and tick into
  ClickHouse; the dashboard (\<^verbatim>\<open>src/web\<close>, TypeScript) reads both. This development models the logic of
  the dashboard's server, \<^verbatim>\<open>src/web/src/server\<close>, the answer types of \<^verbatim>\<open>src/web/src/shared\<close>, and the pure
  logic behind the charts of its client, \<^verbatim>\<open>src/web/src/client\<close>.

  \<^bold>\<open>The parts and how they interact.\<close> A request reaches a route handler (\<^verbatim>\<open>routes/*.ts\<close>). The history
  handlers parse the query string into a range and filters (\<^verbatim>\<open>ch/range.ts\<close>, \<^verbatim>\<open>ch/sql.ts\<close>), build one or
  more parameterised queries, run them on ClickHouse (\<^verbatim>\<open>ch/query.ts\<close>) and reduce the rows to the answer
  of a chart (\<^verbatim>\<open>ch/throughput.ts\<close> and its siblings), some of them joined with user names (\<^verbatim>\<open>users.ts\<close>)
  and with the network and country of an address (\<^verbatim>\<open>geo/asn.ts\<close>). The live handlers read the buffers
  of a hub (\<^verbatim>\<open>live/hub.ts\<close>) that follows the Redis stream and pushes every tick to the open event
  streams. The storage handlers report the size of both stores and, behind a password, delete old
  data (\<^verbatim>\<open>storage/*.ts\<close>). In the browser one store per tab follows the event stream (\<^verbatim>\<open>useLive.ts\<close>) and
  each chart reduces the ticks or an answer to what it draws. Errors are values: \<open>HttpError\<close> on the left of a sum, and the error handler of
  \<^verbatim>\<open>index.ts\<close> turns whatever a handler throws into a response.

  \<^bold>\<open>What models what.\<close>

  \<^item> \<open>Prelude\<close>: \<open>HttpError\<close> (\<^verbatim>\<open>http-error.ts\<close>), results, the string functions of the language the
    source uses, sorting by a comparator (locale \<open>comparator\<close>) and folding a handler that keeps an
    invariant (locale \<open>handler\<close>).
  \<^item> \<open>JS_Number\<close>: the numbers of the language as rationals with every operation rounded to a double
    (\<open>fl\<close>, \<open>fadd\<close>, \<open>fmul\<close>, \<open>fdiv\<close>); the laws the proofs need are the locale \<open>rounding\<close>, which \<open>fl\<close>
    interprets. \<open>JS_Map\<close>: the insertion-ordered \<^verbatim>\<open>Map\<close>, with its contract as the locale \<open>js_map\<close>.
    \<open>Sums\<close>: rounded sums that are exact below $2^{53}$.
  \<^item> \<open>Ip\<close>, \<open>Asn\<close>, \<open>Rdns\<close> (\<^verbatim>\<open>geo/ip.ts\<close>, \<^verbatim>\<open>geo/asn.ts\<close>, \<^verbatim>\<open>geo/rdns.ts\<close>), \<open>Users\<close> (\<^verbatim>\<open>users.ts\<close>), \<open>Org\<close>
    (\<^verbatim>\<open>shared/org.ts\<close>): address parsing and scopes, the IP-to-ASN table with its parser, binary search
    (locale \<open>range_index\<close>, interpreted for IPv4 and IPv6) and reload, the reverse-DNS request over an
    LRU cache, the passwd parser, and labels of organisations.
  \<^item> \<open>Live\<close>, \<open>Hub\<close>, \<open>RoutesLive\<close> (\<^verbatim>\<open>live/compact.ts\<close>, \<^verbatim>\<open>live/hub.ts\<close>, \<^verbatim>\<open>routes/live.ts\<close>, \<^verbatim>\<open>routes/rdns.ts\<close>):
    the reduction of a snapshot, the hub as a record with one definition per method, the caches of the
    handlers and the event streams. \<open>hub_reach\<close>, \<open>live_reach\<close> and \<open>cache_reach\<close> are the step relations:
    each step is one turn of the event loop between two awaits, with what Redis or the socket answers
    as an argument of the step; \<open>cache_reach\<close> also has the reloads of the user list and of the IP table.
  \<^item> \<open>Range\<close>, \<open>Sql\<close>, \<open>Buckets\<close>, \<open>Query\<close> (\<^verbatim>\<open>ch/range.ts\<close>, \<^verbatim>\<open>ch/sql.ts\<close>, \<^verbatim>\<open>ch/throughput.ts\<close>, \<^verbatim>\<open>ch/query.ts\<close>,
    \<^verbatim>\<open>ch/tz.ts\<close>): what all history endpoints share. The locale \<open>param_query\<close> is the contract of a query
    builder (its text depends on the shape of the request only, and every placeholder is bound); each
    builder interprets it. The locale \<open>route\<close> is the contract of a handler (parse, then ask, then
    answer); each handler interprets it.
  \<^item> \<open>Throughput\<close>, \<open>Burst\<close>, \<open>Beacons\<close>, \<open>BytesPerCall\<close>, \<open>Heatmap\<close>, \<open>Processes\<close>, \<open>Treemap\<close>, \<open>NewDests\<close>,
    \<open>GeoBreakdown\<close>: the files of \<^verbatim>\<open>ch/\<close> of the same names (\<open>Processes\<close> holds \<^verbatim>\<open>lifecycle.ts\<close>,
    \<^verbatim>\<open>lifetimes.ts\<close> and \<^verbatim>\<open>scatter.ts\<close>; \<open>Beacons\<close> also \<^verbatim>\<open>analysis/periodicity.ts\<close>).
  \<^item> \<open>RoutesHistory\<close>, \<open>RoutesProcess\<close> (\<^verbatim>\<open>routes/history.ts\<close>, \<^verbatim>\<open>routes/process.ts\<close>): every handler, composed
    from the above in the order of the code.
  \<^item> \<open>Storage\<close>, \<open>StorageRedis\<close>, \<open>RoutesStorage\<close> (\<^verbatim>\<open>storage/clickhouse.ts\<close>, \<^verbatim>\<open>storage/redis.ts\<close>,
    \<^verbatim>\<open>routes/storage.ts\<close>): partition sizes and drops, the scan of the process keys, the deletion of ended
    days in chunks, the password check and its lockout.
  \<^item> \<open>Server\<close> (\<^verbatim>\<open>config.ts\<close>, \<^verbatim>\<open>index.ts\<close>, \<^verbatim>\<open>timeout.ts\<close>, \<^verbatim>\<open>db/*.ts\<close>, \<^verbatim>\<open>routes/health.ts\<close>): configuration, error
    and not-found handlers, the status of the backends and the health answer. A promise is the time it
    settles at with its result, or nothing when it never does.
  \<^item> \<open>ClientBase\<close>: sorting and grouping facts the client theories share. \<open>ClientLive\<close>
    (\<^verbatim>\<open>client/hooks/useLive.ts\<close>): the store of a tab as a record, one definition per method and event
    callback, and the step relation \<open>client_reach\<close> over users, stream events, timers and answers, with
    the hub of the server as its environment. \<open>ClientColors\<close> (\<^verbatim>\<open>charts/palette.ts\<close>, and the colors of
    \<^verbatim>\<open>throughputSeries.ts\<close>, \<^verbatim>\<open>scatterPoints.ts\<close> and \<^verbatim>\<open>treemapData.ts\<close>), \<open>ClientTalkers\<close>
    (\<^verbatim>\<open>live/topTalkers.ts\<close>), \<open>ClientLiveChart\<close> (\<^verbatim>\<open>live/useLiveThroughput.ts\<close>), \<open>ClientLanes\<close>
    (\<^verbatim>\<open>history/packLanes.ts\<close>), \<open>ClientSankey\<close> (\<^verbatim>\<open>charts/buildSankey.ts\<close>), \<open>ClientMarkers\<close>
    (\<^verbatim>\<open>history/clusterMarkers.ts\<close>, \<^verbatim>\<open>history/newDests.ts\<close> with what it uses of \<^verbatim>\<open>Date\<close>; the locale \<open>clustering\<close> is what both kinds of
    markers share, interpreted for each), \<open>ClientSeries\<close> (\<^verbatim>\<open>history/throughputSeries.ts\<close>), \<open>ClientOverlays\<close>
    (\<^verbatim>\<open>history/ghost.ts\<close>, \<^verbatim>\<open>burst.ts\<close>, \<^verbatim>\<open>callsSeries.ts\<close>, \<^verbatim>\<open>unknownShare.ts\<close>), \<open>ClientHeat\<close>
    (\<^verbatim>\<open>history/heatmapCells.ts\<close>, \<^verbatim>\<open>charts/smallMultiples.ts\<close>), \<open>ClientPanels\<close> (\<^verbatim>\<open>history/bytesPerCall.ts\<close>,
    \<^verbatim>\<open>scatterPoints.ts\<close>, \<^verbatim>\<open>process/beaconStrip.ts\<close>, \<^verbatim>\<open>destinations/geoView.ts\<close>): one definition per function of
    the source, with each loop body a definition of its own.
  \<^item> \<open>ClientRouter\<close> (\<^verbatim>\<open>client/router.ts\<close>): the address bar as a location, parameters as state, path patterns.
    \<open>ClientApi\<close> (\<^verbatim>\<open>client/api.ts\<close>, \<^verbatim>\<open>hooks/useTimeRange.ts\<close>): the URL of every request as its path and parameters,
    composed with the parsers of the server. \<open>ClientQuery\<close> (\<^verbatim>\<open>hooks/useQuery.ts\<close>, \<^verbatim>\<open>usePoll.ts\<close>, \<^verbatim>\<open>useHealth.ts\<close>,
    \<^verbatim>\<open>geoStatus.ts\<close>): the components of a page with their requests and the cache they share; the step
    relation \<open>query_reach\<close> has the renders, effects and unmounts of React and the answers, failures and
    late answers of requests as its steps.

  \<^bold>\<open>What the lemmas show.\<close>

  \<^item> \<^emph>\<open>State and order\<close>: the buffers of the hub are bounded, strictly increasing and consistent in every
    reachable state; a read delivers what it appends, once and in order; the subscribers are exactly
    the open streams; the caches of the live handlers show at most the user list and the IP table of an
    earlier moment since the latest tick.
  \<^item> \<^emph>\<open>Deleting\<close>: nothing is deleted without the password, at most five guesses are compared a minute,
    partitions are dropped only after all of them were checked, and the chunked deletion of days
    refines one atomic deletion.
  \<^item> \<^emph>\<open>Requests\<close>: an accepted range, filter or instance is within what the code promises, every error of
    a history endpoint has one of four statuses, but for a 500 of the heatmap where the calendar throws, a
    400 does not depend on the database (at the heatmap, but for its answer about the time zone), and no
    input becomes SQL text.
  \<^item> \<^emph>\<open>Numbers\<close>: in floating-point arithmetic the buckets tile the range, series are the rates of their
    rows, histograms, treemap and geo breakdown conserve bytes and calls, percentiles count idle ticks,
    and even traffic is recognised as periodic.
  \<^item> \<^emph>\<open>Parsing\<close>: addresses and destinations read back as they are printed, any table text gives a
    well-formed table, and lookups in it return the range that holds the address; numbers too large for a double are refused
    as the infinities they are in the source.
  \<^item> \<^emph>\<open>Drawing\<close>: the store of a tab stays ordered, bounded and connected; lifetimes are laid out without
    overlap in the fewest rows; bands are the sums of their processes, hold still and can be told
    apart by their colors; rows are sorted independently of their arrival and greyed exactly when idle;
    the flow graph conserves traffic whatever is folded; markers never overlap and lose no event; first
    contacts are counted on their local day in every time zone; shaded
    deviations are exactly the long runs above twice the ghost; panels never overlap; an hour of the heatmap
    opens its last occurrence.
  \<^item> \<^emph>\<open>From the page to the server\<close>: a drill-down is read back from the address bar as it was meant, filled
    patterns match their paths, the chart's request is understood by the handler as the page means it
    and asks for the finest step the server allows, the window of the beaconing strip is the one the
    server cuts to, and a new IP table on the server makes settled components ask again.
  \<^item> \<^emph>\<open>Data on the page\<close>: data shown without an error and not marked stale is an answer for the URL of the
    component, the cache holds the last 50 answers, and a component that waits has a request under way;
    after a failed request for a URL that was never answered the mark is missing (\<open>query_failure_not_stale\<close>).

  \<^bold>\<open>Bounds and fuel.\<close> No definition uses fuel: the loops of the source that are not structural (binary
  search, eviction, paging, chunking, the hour loop, the quarter-hour loop, the line loop of the parser) are
  \<open>function\<close>s with termination proofs; the loop over the local days of a range, which ends only if the
  next day is a later one, is a \<open>partial_function\<close> that is proved to return in every time zone (\<open>zone_days\<close>) for
  ranges up to ten days before the last time value of \<^verbatim>\<open>Date\<close>; and the endless read loop of the hub is a step relation whose single iteration
  is a definition. Conservation theorems assume sums below $2^{53}$, the integers a double holds
  exactly. Milliseconds are integers where the code has validated them as such and rationals where
  they come from a snapshot. Doubles have no infinities here: \<^verbatim>\<open>Number\<close> of a text beyond them is no
  number, as the code tests for; elsewhere, where an operation of the source could
  overflow or produce NaN, the model has the guard of the code in front of it or the statement has
  the bound as a hypothesis; signed zero is not distinguished.

  \<^bold>\<open>Parameters.\<close> What is not part of the repository is an argument: the answers of ClickHouse and of
  Redis, the DNS resolver, the file system, the clock, the time-zone calendar
  (\<^verbatim>\<open>Intl.DateTimeFormat\<close>; locale \<open>calendar\<close>, interpreted for UTC; it may not know a zone, and throws beyond the
  time values of the language), the client of ClickHouse (\<open>honours_abort\<close> is what the health endpoint relies on), \<^verbatim>\<open>JSON.parse\<close> and
  \<^verbatim>\<open>JSON.stringify\<close> of a tick, SHA-256, \<^verbatim>\<open>Math.sqrt\<close>, \<^verbatim>\<open>Math.log2\<close>, \<^verbatim>\<open>Math.log10\<close>, \<^verbatim>\<open>toLowerCase\<close>,
  \<^verbatim>\<open>localeCompare\<close>, the text form of \<^verbatim>\<open>URLSearchParams\<close>, \<^verbatim>\<open>decodeURIComponent\<close>, the offsets of the time zone and the region names
  of the browser, powers and logarithms, and the formatters of rates and times. Theorems that
  rely on them name what they rely on as a hypothesis, and their witnesses instantiate it.

  \<^bold>\<open>Not modelled.\<close> The timers that repeat \<^verbatim>\<open>Users.load\<close> and \<^verbatim>\<open>GeoDb.load\<close> and the sharing of a load
  already under way; the abort signal of a request (\<^verbatim>\<open>clientGone\<close>: its effect is an argument of the
  handlers); process start, listening and shutdown in \<^verbatim>\<open>index.ts\<close>, which only wire the parts together;
  the React components and what they hand to the chart library (\<^verbatim>\<open>mirroredStack.ts\<close> and the option objects of
  the other builders); the texts of numbers that use \<^verbatim>\<open>toFixed\<close>, \<^verbatim>\<open>toPrecision\<close> or \<^verbatim>\<open>toLocaleString\<close>
  (\<^verbatim>\<open>charts/format.ts\<close> and the text functions of the panels), whose rules belong to the runtime; the collector and its kernel probes, a separate program in Rust.
\<close>

end
